(* ===== verification/RX_Prelude.thy ===== *)
theory RX_Prelude
  imports Main "HOL-Library.Monad_Syntax" "HOL-Library.Word"
begin

text \<open>
  Shared vocabulary of the development: pointers, the error codes of
  \<^verbatim>\<open>include/rosx/types.h\<close>, singly linked chains in a heap, the three pointer walks
  that every queue of the kernel is built from, and the interface \<open>link_field\<close> of a
  \<^verbatim>\<open>next\<close>-like field of a struct.

  Outcome of a C function. A function of the kernel is modelled in the option monad:
  \<^term>\<open>Some (r, s)\<close> is a defined execution that returns \<^term>\<open>r\<close> in the state
  \<^term>\<open>s\<close>; \<^term>\<open>None\<close> is an execution that has no defined result, because a
  NULL or stray pointer is dereferenced or because a loop does not end. Every error code the
  source returns is an ordinary result \<^term>\<open>r\<close>, never \<^term>\<open>None\<close>.
\<close>

section \<open>Pointers and error codes\<close>

type_synonym addr = nat
type_synonym ptr = "addr option"

abbreviation NULL :: ptr where "NULL \<equiv> None"

definition OS_OK :: int where "OS_OK = 0"
definition OS_ERR :: int where "OS_ERR = -1"
definition E_OS_TIMEOUT :: int where "E_OS_TIMEOUT = -2"
definition E_OS_BUSY :: int where "E_OS_BUSY = -3"
definition E_OS_UNAVAIL :: int where "E_OS_UNAVAIL = -4"
definition OS_NO_WAIT :: int where "OS_NO_WAIT = 0"
definition OS_WAIT_FOREVER :: int where "OS_WAIT_FOREVER = -1"

lemmas os_codes = OS_OK_def OS_ERR_def E_OS_TIMEOUT_def E_OS_BUSY_def E_OS_UNAVAIL_def
  OS_NO_WAIT_def OS_WAIT_FOREVER_def

text \<open>
  A blocking call either comes back to its caller, or gives the processor away inside
  \<^verbatim>\<open>rx_sched\<close>; the code behind the switch is then a definition of its own
  (suffix \<open>_resume\<close>), run when the caller is dispatched again.
\<close>

datatype 'a call = Returns 'a | Sleeps

named_theorems rx_simps \<open>evaluation of the kernel's basic state accesses\<close>
named_theorems rx_frame \<open>what an operation leaves unchanged\<close>


section \<open>Chains of links\<close>

text \<open>
  \<open>chain nx p xs q\<close>: starting at the pointer \<open>p\<close> and following \<open>nx\<close>, the nodes
  \<open>xs\<close> are met one after the other and the pointer \<open>q\<close> is reached. \<open>nx a\<close> is
  \<^term>\<open>None\<close> when there is no node at the address \<open>a\<close>. A NULL-terminated list is
  \<open>lst nx p xs\<close>.
\<close>

type_synonym links = "addr \<Rightarrow> ptr option"

primrec chain :: "links \<Rightarrow> ptr \<Rightarrow> addr list \<Rightarrow> ptr \<Rightarrow> bool" where
  "chain nx p [] q \<longleftrightarrow> p = q"
| "chain nx p (a # as) q \<longleftrightarrow> p = Some a \<and> (\<exists>n. nx a = Some n \<and> chain nx n as q)"

abbreviation lst :: "links \<Rightarrow> ptr \<Rightarrow> addr list \<Rightarrow> bool" where
  "lst nx p xs \<equiv> chain nx p xs NULL"

lemma chain_append [simp]:
  "chain nx p (as @ bs) q \<longleftrightarrow> (\<exists>r. chain nx p as r \<and> chain nx r bs q)"
  by (induction as arbitrary: p) auto

lemma chain_upd [simp]: "a \<notin> set xs \<Longrightarrow> chain (nx(a := v)) p xs q = chain nx p xs q"
  by (induction xs arbitrary: p) auto

lemma lst_NULL [simp]: "lst nx NULL xs \<longleftrightarrow> xs = []"
  by (cases xs) auto

lemma lst_Some:
  "lst nx (Some a) xs \<longleftrightarrow> (\<exists>n ys. xs = a # ys \<and> nx a = Some n \<and> lst nx n ys)"
  by (cases xs) auto

lemma chain_cong: "(\<And>a. a \<in> set xs \<Longrightarrow> nx a = nx' a) \<Longrightarrow> chain nx p xs q = chain nx' p xs q"
  by (induction xs arbitrary: p) auto

lemma lst_unique: "lst nx p xs \<Longrightarrow> lst nx p ys \<Longrightarrow> xs = ys"
  by (induction xs arbitrary: p ys) (auto simp: lst_Some)

lemma lst_suffix_unique: "lst nx p xs \<Longrightarrow> chain nx p as q \<Longrightarrow> \<exists>bs. xs = as @ bs \<and> lst nx q bs"
  by (induction as arbitrary: p xs) (auto simp: lst_Some)

lemma lst_hd_not_in_tl:
  assumes "nx a = Some n" and "lst nx n xs"
  shows "a \<notin> set xs"
proof
  assume "a \<in> set xs"
  then obtain ys zs where xs: "xs = ys @ a # zs" by (auto dest: split_list)
  with assms have "lst nx (Some a) (a # zs)" and "lst nx (Some a) (a # xs)" by auto
  then have "a # zs = a # xs" by (rule lst_unique)
  with xs show False by simp
qed

lemma lst_distinct: "lst nx p xs \<Longrightarrow> distinct xs"
  by (induction xs arbitrary: p) (auto dest: lst_hd_not_in_tl)

lemma lst_mapped: "chain nx p xs q \<Longrightarrow> a \<in> set xs \<Longrightarrow> nx a \<noteq> None"
  by (induction xs arbitrary: p) auto

lemma lst_head: "lst nx p xs \<Longrightarrow> p = (case xs of [] \<Rightarrow> NULL | a # _ \<Rightarrow> Some a)"
  by (cases xs) auto

text \<open>Relinking: the two surgeries on a list every queue operation performs.\<close>

lemma chain_relink_last:
  assumes "chain nx p (xs @ [b]) q" and "b \<notin> set xs"
  shows "chain (nx(b := Some r)) p (xs @ [b]) r"
  using assms by auto

lemma lst_insert_mid:
  assumes "chain nx p (xs @ [b]) q" and "lst nx q ys"
    and "b \<notin> set xs" and "b \<notin> set ys" and "a \<notin> set xs" and "a \<notin> set ys" and "a \<noteq> b"
  shows "lst (nx(a := Some q, b := Some (Some a))) p (xs @ b # a # ys)"
  using assms by auto

lemma lst_insert_front:
  assumes "lst nx p ys" and "a \<notin> set ys"
  shows "lst (nx(a := Some p)) (Some a) (a # ys)"
  using assms by auto

lemma lst_snoc:
  assumes "lst nx p xs" and "a \<notin> set xs" and "xs \<noteq> []"
  shows "lst (nx(a := Some NULL, last xs := Some (Some a))) p (xs @ [a])"
proof -
  obtain ys b where xs: "xs = ys @ [b]" using assms(3) by (cases xs rule: rev_cases) auto
  with assms(1) have "b \<notin> set ys" using lst_distinct [OF assms(1)] by simp
  with assms xs show ?thesis by auto
qed

lemma lst_unlink:
  assumes "lst nx p (xs @ b # a # ys)" and "nx a = Some q"
  shows "lst (nx(b := Some q)) p (xs @ b # ys)"
  using assms lst_distinct [OF assms(1)] by auto


section \<open>Doubly linked segments\<close>

text \<open>
  \<open>dseg nx pv l p xs q r\<close>: from the pointer \<open>p\<close> the nodes \<open>xs\<close> are met along \<open>nx\<close> and
  \<open>q\<close> is reached; the back link of the first node is \<open>l\<close>, every other back link is the node
  before, and \<open>r\<close> points to the last node (to \<open>l\<close> when there is none).
\<close>

primrec dseg :: "links \<Rightarrow> links \<Rightarrow> ptr \<Rightarrow> ptr \<Rightarrow> addr list \<Rightarrow> ptr \<Rightarrow> ptr \<Rightarrow> bool" where
  "dseg nx pv l p [] q r \<longleftrightarrow> p = q \<and> l = r"
| "dseg nx pv l p (a # as) q r \<longleftrightarrow>
     p = Some a \<and> pv a = Some l \<and> (\<exists>n. nx a = Some n \<and> dseg nx pv (Some a) n as q r)"

definition dlst :: "links \<Rightarrow> links \<Rightarrow> ptr \<Rightarrow> addr list \<Rightarrow> bool" where
  "dlst nx pv p xs \<longleftrightarrow> (\<exists>r. dseg nx pv NULL p xs NULL r)"

lemma dseg_append [simp]:
  "dseg nx pv l p (as @ bs) q r \<longleftrightarrow> (\<exists>m k. dseg nx pv l p as m k \<and> dseg nx pv k m bs q r)"
  by (induction as arbitrary: l p) auto

lemma dseg_upd [simp]:
  "a \<notin> set xs \<Longrightarrow> dseg (nx(a := v)) pv l p xs q r = dseg nx pv l p xs q r"
  "a \<notin> set xs \<Longrightarrow> dseg nx (pv(a := v)) l p xs q r = dseg nx pv l p xs q r"
  by (induction xs arbitrary: l p) auto

lemma dseg_chain: "dseg nx pv l p xs q r \<Longrightarrow> chain nx p xs q"
  by (induction xs arbitrary: l p) auto

lemma dseg_last: "dseg nx pv l p xs q r \<Longrightarrow> r = (if xs = [] then l else Some (last xs))"
  by (induction xs arbitrary: l p) auto

lemma dlst_lst: "dlst nx pv p xs \<Longrightarrow> lst nx p xs"
  by (auto simp: dlst_def dest: dseg_chain)

lemma dlst_distinct: "dlst nx pv p xs \<Longrightarrow> distinct xs"
  by (blast intro: lst_distinct dlst_lst)

lemma dlst_Nil [simp]: "dlst nx pv p [] \<longleftrightarrow> p = NULL"
  by (auto simp: dlst_def)

lemma dlst_mapped:
  assumes "dlst nx pv p xs" and "a \<in> set xs"
  shows "nx a \<noteq> None" and "pv a \<noteq> None"
proof -
  from assms obtain ys zs where "xs = ys @ a # zs" by (auto dest: split_list)
  with assms(1) show "nx a \<noteq> None" and "pv a \<noteq> None" by (auto simp: dlst_def)
qed

lemma dlst_insert_front:
  assumes "dlst nx pv (Some y) (y # ys)" and "a \<notin> set (y # ys)"
  shows "dlst (nx(a := Some (Some y))) (pv(y := Some (Some a), a := Some NULL)) (Some a) (a # y # ys)"
proof -
  have "y \<notin> set ys" using dlst_distinct [OF assms(1)] by simp
  with assms show ?thesis by (auto simp: dlst_def)
qed

lemma dlst_insert_mid:
  assumes "dlst nx pv p (xs @ b # y # ys)" and "a \<notin> set (xs @ b # y # ys)"
  shows "dlst (nx(a := Some (Some y), b := Some (Some a)))
              (pv(a := Some (Some b), y := Some (Some a))) p (xs @ b # a # y # ys)"
  using assms dlst_distinct [OF assms(1)] by (auto simp: dlst_def)

lemma dlst_insert_end:
  assumes "dlst nx pv p (xs @ [b])" and "a \<notin> set (xs @ [b])" and "nx a = Some NULL"
  shows "dlst (nx(b := Some (Some a))) (pv(a := Some (Some b))) p (xs @ [b, a])"
  using assms dlst_distinct [OF assms(1)] by (auto simp: dlst_def)

lemma dlst_remove_front:
  assumes "dlst nx pv p (a # y # ys)"
  shows "nx a = Some (Some y)" and "dlst nx (pv(y := Some NULL)) (Some y) (y # ys)"
  using assms dlst_distinct [OF assms(1)] by (auto simp: dlst_def)

lemma dlst_remove_mid:
  assumes "dlst nx pv p (xs @ b # a # y # ys)"
  shows "nx a = Some (Some y)" and "pv a = Some (Some b)"
    and "dlst (nx(b := Some (Some y))) (pv(y := Some (Some b))) p (xs @ b # y # ys)"
  using assms dlst_distinct [OF assms(1)] by (auto simp: dlst_def)

lemma dlst_end_links:
  assumes "dlst nx pv p (xs @ [b, a])"
  shows "nx a = Some NULL" and "pv a = Some (Some b)"
  using assms by (auto simp: dlst_def)


section \<open>Pointer walks\<close>

text \<open>
  \<^verbatim>\<open>while (t->next) t = t->next;\<close> starting at the node \<open>a\<close>: the address of the last
  node. The loop does not return on a cyclic chain.
\<close>

partial_function (option) walk_last :: "links \<Rightarrow> addr \<Rightarrow> addr option" where
  "walk_last nx a =
     do { n \<leftarrow> nx a;
          (case n of None \<Rightarrow> Some a | Some b \<Rightarrow> walk_last nx b) }"

lemma walk_last_lst:
  assumes "lst nx (Some a) xs"
  shows "walk_last nx a = Some (last xs)"
  using assms
proof (induction xs arbitrary: a)
  case Nil
  then show ?case by simp
next
  case (Cons x xs)
  then obtain n where "x = a" "nx a = Some n" "lst nx n xs" by auto
  with Cons.IH show ?case
    by (subst walk_last.simps) (cases n; force simp: lst_Some)
qed

text \<open>
  \<^verbatim>\<open>while (x != target) { prev = x; x = x->next; }\<close>: the predecessor of the target.
  \<open>None\<close> when the walk runs off the end (the NULL pointer is then dereferenced).
\<close>

partial_function (option) walk_to :: "links \<Rightarrow> addr \<Rightarrow> addr \<Rightarrow> ptr \<Rightarrow> addr option" where
  "walk_to nx target prev x =
     (if x = Some target then Some prev
      else do { a \<leftarrow> x; n \<leftarrow> nx a; walk_to nx target a n })"

lemma walk_to_chain:
  assumes "chain nx x xs (Some t)" and "t \<notin> set xs" and "\<And>a. a \<in> set xs \<Longrightarrow> a \<noteq> t"
  shows "walk_to nx t prev x = Some (last (prev # xs))"
  using assms
proof (induction xs arbitrary: x prev)
  case Nil
  then show ?case by (subst walk_to.simps) simp
next
  case (Cons a xs)
  then obtain n where x: "x = Some a" and n: "nx a = Some n" "chain nx n xs (Some t)" by auto
  have "walk_to nx t prev x = walk_to nx t a n"
    using Cons.prems x n by (subst walk_to.simps) simp
  also have "\<dots> = Some (last (a # xs))"
    by (rule Cons.IH) (use Cons.prems n in auto)
  finally show ?case by simp
qed

lemma walk_to_absent:
  assumes "lst nx x xs" and "t \<notin> set xs"
  shows "walk_to nx t prev x = None"
  using assms
proof (induction xs arbitrary: x prev)
  case Nil
  then show ?case by (subst walk_to.simps) simp
next
  case (Cons a xs)
  then show ?case by (subst walk_to.simps) auto
qed


section \<open>The interface of a link field\<close>

text \<open>
  The intrusive lists of the kernel run through different fields of different structs
  (\<^verbatim>\<open>next\<close> and \<^verbatim>\<open>list\<close> of a task, \<^verbatim>\<open>next\<close> of a wait queue or a
  tasklet). What the list code relies on is the same: the field can be read wherever there is
  a node, and writing it changes exactly that link.
\<close>

locale link_field =
  fixes get_link :: "'s \<Rightarrow> links"
    and set_link :: "ptr \<Rightarrow> ptr \<Rightarrow> 's \<Rightarrow> 's option"
  assumes set_link_Some:
      "get_link s a \<noteq> None \<Longrightarrow> \<exists>s'. set_link (Some a) q s = Some s'"
    and get_set_link:
      "set_link (Some a) q s = Some s' \<Longrightarrow> get_link s' = (get_link s)(a := Some q)"
    and set_link_NULL: "set_link NULL q s = None"
begin

text \<open>Linking a node behind the last node of a list appends it.\<close>

lemma append_node:
  assumes l: "lst (get_link s) p xs" and ne: "xs \<noteq> []" and a: "a \<notin> set xs"
    and nil: "get_link s a = Some NULL"
  shows "\<exists>s'. set_link (Some (last xs)) (Some a) s = Some s' \<and>
              get_link s' = (get_link s)(last xs := Some (Some a)) \<and>
              lst (get_link s') p (xs @ [a])"
proof -
  have "get_link s (last xs) \<noteq> None" by (rule lst_mapped [OF l]) (simp add: ne)
  then obtain s' where s': "set_link (Some (last xs)) (Some a) s = Some s'"
    using set_link_Some by blast
  have "(get_link s)(a := Some NULL) = get_link s" using nil by auto
  then have "lst ((get_link s)(last xs := Some (Some a))) p (xs @ [a])"
    using lst_snoc [OF l a ne] by simp
  with s' get_set_link [OF s'] show ?thesis by auto
qed

text \<open>Bypassing the successor of a node removes exactly that successor.\<close>

lemma bypass_node:
  assumes l: "lst (get_link s) p (xs @ b # a # ys)" and a: "get_link s a = Some q"
  shows "\<exists>s'. set_link (Some b) q s = Some s' \<and>
              get_link s' = (get_link s)(b := Some q) \<and>
              lst (get_link s') p (xs @ b # ys)"
proof -
  from l have "get_link s b \<noteq> None" by auto
  then obtain s' where s': "set_link (Some b) q s = Some s'"
    using set_link_Some by blast
  with get_set_link [OF s'] lst_unlink [OF l a] show ?thesis by auto
qed

text \<open>The tail of a list is found by walking it, and appending there is total.\<close>

lemma walk_append:
  assumes l: "lst (get_link s) (Some h) xs" and a: "a \<notin> set xs"
    and nil: "get_link s a = Some NULL"
  shows "\<exists>b s'. walk_last (get_link s) h = Some b \<and> set_link (Some b) (Some a) s = Some s' \<and>
                get_link s' = (get_link s)(b := Some (Some a)) \<and> b \<in> set xs \<and>
                lst (get_link s') (Some h) (xs @ [a])"
proof -
  have ne: "xs \<noteq> []" using l by auto
  from append_node [OF l ne a nil] walk_last_lst [OF l] ne show ?thesis by auto
qed

end

end
