(* ===== verification/RX_State.thy ===== *)
theory RX_State
  imports RX_Prelude
begin

text \<open>
  The data of the kernel: the structs of \<^verbatim>\<open>kernel/include\<close> as records, the typed heaps
  they live in, and the global variables. A pointer to a struct is an address of the heap of
  its type (\<^typ>\<open>ptr\<close>, with \<^term>\<open>NULL\<close>); reading or writing through a pointer is
  partial. C's \<^verbatim>\<open>int\<close> fields are \<^typ>\<open>int\<close> (they are compared, counted up
  and down by one, or copied); \<^verbatim>\<open>unsigned int\<close> fields that are masked or that wrap are
  \<^typ>\<open>32 word\<close>. The save area of the processor (\<^verbatim>\<open>preempt\<close>,
  \<^verbatim>\<open>bp\<close>) belongs to the assembly of the port and is not part of the model.
\<close>

unbundle bit_operations_syntax

section \<open>Tasks\<close>

datatype task_state =
    RX_TASK_SUSPEND
  | RX_TASK_READY
  | RX_TASK_RUNNING
  | RX_TASK_COMPLETE
  | RX_TASK_ABORT
  | RX_TASK_INTERRUPTIBLE
  | RX_TASK_UNINTERRUPTIBLE

text \<open>The numbers C gives the enumerators.\<close>

fun task_state_code :: "task_state \<Rightarrow> int" where
  "task_state_code RX_TASK_SUSPEND = 0"
| "task_state_code RX_TASK_READY = 1"
| "task_state_code RX_TASK_RUNNING = 2"
| "task_state_code RX_TASK_COMPLETE = 3"
| "task_state_code RX_TASK_ABORT = 4"
| "task_state_code RX_TASK_INTERRUPTIBLE = 5"
| "task_state_code RX_TASK_UNINTERRUPTIBLE = 6"

record rx_task =
  t_name :: string
  t_stack_start_ptr :: int
  t_curr_stack_ptr :: int
  t_ip :: nat
  t_stack_size :: int
  t_prio :: int
  t_func :: nat
  t_state :: task_state
  t_time_slice :: int
  t_ticks :: int
  t_orig_prio :: int
  t_event_flag :: "32 word"
  t_event_recv :: "32 word"
  t_timeout :: int
  t_timer :: ptr
  t_sem :: ptr
  t_mutex :: ptr
  t_event :: ptr
  t_wq :: ptr
  t_mq :: ptr
  t_bpool :: ptr
  t_next :: ptr
  t_list :: ptr
  t_err :: int

definition RX_TASK_STR_LEN :: nat where "RX_TASK_STR_LEN = 8"
definition RX_TASK_LEAST_PRIO :: int where "RX_TASK_LEAST_PRIO = 32 - 1"
definition RX_TASK_HIGH_PRIO :: int where "RX_TASK_HIGH_PRIO = 0"
definition RX_TIMER_OFF :: int where "RX_TIMER_OFF = 0"
definition RX_TIMER_ON :: int where "RX_TIMER_ON = 1"
definition CONFIG_SYSTEM_STACK_SIZE :: int where "CONFIG_SYSTEM_STACK_SIZE = 8192 * 10"
definition CONFIG_HZ :: nat where "CONFIG_HZ = 100"


section \<open>The other structs\<close>

text \<open>
  A timer's \<^verbatim>\<open>handler\<close> is a function pointer. The kernel installs three functions of
  its own; an application installs others, which are numbered.
\<close>

datatype handler = Wait_Handler | Mutex_Handler | Sem_Handler | App_Handler nat

record timer_list =
  tm_time_expiry :: "32 word"
  tm_delay :: "32 word"
  tm_flag :: "32 word"
  tm_handler :: "handler option"
  tm_priv :: ptr
  tm_task :: ptr
  tm_next :: ptr
  tm_prev :: ptr

definition RX_TIMER_ENABLED :: "32 word" where "RX_TIMER_ENABLED = 1"
definition RX_TIMER_DISABLED :: "32 word" where "RX_TIMER_DISABLED = NOT 1"

datatype mutex_lock = RX_MUTEX_LOCKED | RX_MUTEX_UNLOCKED

record mutex =
  m_lock :: mutex_lock
  m_owner :: ptr
  m_task :: ptr
  m_next :: ptr

record semaphore =
  s_init_val :: int
  s_curr_val :: int
  s_task :: ptr
  s_next :: ptr

record event_group =
  e_task :: ptr
  e_next :: ptr

record wait_queue =
  w_task :: ptr
  w_next :: ptr
  w_prev :: ptr

record msg_queue =
  q_name :: string
  q_start :: nat
  q_head :: nat
  q_tail :: nat
  q_flag :: "32 word"
  q_size_of_block :: int
  q_num_of_blocks :: int
  q_write_task :: ptr
  q_read_task :: ptr

record block_chain =
  b_block :: nat
  b_next :: ptr

record block_pool =
  p_magic :: "32 word"
  p_name :: string
  p_start_of_pool :: nat
  p_pool_size :: nat
  p_block_size :: nat
  p_available :: nat
  p_free_blocks :: ptr
  p_task :: ptr

record tasklet =
  k_status :: "32 word"
  k_func :: nat
  k_data :: "32 word"
  k_next :: ptr
  k_prev :: ptr

text \<open>
  Interrupt handlers and driver operations are function pointers too: the functions of the
  repository are named, those of an application are numbered. \<^verbatim>\<open>dev_id\<close> and
  \<^verbatim>\<open>private_data\<close> are opaque pointers.
\<close>

datatype irq_fn = Timer_Tick_Irq | App_Irq nat

record irq =
  i_devname :: string
  i_irq_handler :: "irq_fn option"
  i_flags :: "32 word"
  i_dev_id :: ptr
  i_next :: ptr

datatype dev_fn = X86_Sim_Open | X86_Sim_Release | X86_Sim_Write | App_Dev nat

record device_ops =
  op_open :: "dev_fn option"
  op_release :: "dev_fn option"
  op_read :: "dev_fn option"
  op_write :: "dev_fn option"
  op_ioctl :: "dev_fn option"
  op_poll :: "dev_fn option"

record device =
  d_name :: string
  d_device_ops :: "device_ops option"
  d_device_open_count :: int
  d_private_data :: ptr

record devfile =
  f_dev :: "nat option"
  f_flags :: int


section \<open>The kernel state\<close>

record kstate =
  tasks :: "addr \<rightharpoonup> rx_task"
  timers :: "addr \<rightharpoonup> timer_list"
  mutexes :: "addr \<rightharpoonup> mutex"
  sems :: "addr \<rightharpoonup> semaphore"
  egroups :: "addr \<rightharpoonup> event_group"
  wqueues :: "addr \<rightharpoonup> wait_queue"
  mqueues :: "addr \<rightharpoonup> msg_queue"
  bpools :: "addr \<rightharpoonup> block_pool"
  blocks :: "addr \<rightharpoonup> block_chain"
  tasklets :: "addr \<rightharpoonup> tasklet"
  mem :: "addr \<Rightarrow> 8 word"
  curr_running_task :: ptr
  task_ready_head :: ptr
  task_list_head :: ptr
  curr_num_task :: int
  need_resched :: bool
  jiffies :: "32 word"
  active_timer_head :: ptr
  sys_wait_list :: ptr
  sys_tasklet_list :: ptr
  in_irq :: bool
  critical :: bool
  rx_stack_start_ptr :: int
  rx_curr_stack_ptr :: int
  irq_pool :: "irq list"
  raw_irq_counter :: "32 word"
  device_table :: "device list"
  desc :: "devfile list"
  printk_buffer_start_ptr :: nat
  printk_buffer_head :: nat
  printk_buffer_tail :: nat
  console :: string

text \<open>A state in which nothing is allocated yet, to build concrete states from.\<close>

definition blank_state :: kstate where
  "blank_state = \<lparr>tasks = Map.empty, timers = Map.empty, mutexes = Map.empty, sems = Map.empty,
     egroups = Map.empty, wqueues = Map.empty, mqueues = Map.empty, bpools = Map.empty,
     blocks = Map.empty, tasklets = Map.empty, mem = (\<lambda>_. 0), curr_running_task = NULL,
     task_ready_head = NULL, task_list_head = NULL, curr_num_task = 0, need_resched = False,
     jiffies = 0, active_timer_head = NULL, sys_wait_list = NULL, sys_tasklet_list = NULL,
     in_irq = False, critical = False, rx_stack_start_ptr = 0, rx_curr_stack_ptr = 0, irq_pool = [],
     raw_irq_counter = 0, device_table = [], desc = [], printk_buffer_start_ptr = 0,
     printk_buffer_head = 0, printk_buffer_tail = 0, console = []\<rparr>"

definition blank_task :: rx_task where
  "blank_task = \<lparr>t_name = [], t_stack_start_ptr = 0, t_curr_stack_ptr = 0, t_ip = 0,
     t_stack_size = 0, t_prio = 0, t_func = 0, t_state = RX_TASK_SUSPEND, t_time_slice = 0,
     t_ticks = 0, t_orig_prio = 0, t_event_flag = 0, t_event_recv = 0, t_timeout = 0,
     t_timer = NULL, t_sem = NULL, t_mutex = NULL, t_event = NULL, t_wq = NULL, t_mq = NULL,
     t_bpool = NULL, t_next = NULL, t_list = NULL, t_err = 0\<rparr>"


section \<open>Access through pointers\<close>

definition deref :: "(addr \<rightharpoonup> 'r) \<Rightarrow> ptr \<Rightarrow> 'r option" where
  "deref h p = Option.bind p h"

lemma deref_simps [simp]: "deref h NULL = None" "deref h (Some a) = h a"
  by (simp_all add: deref_def)

lemma deref_eq_Some: "deref h p = Some v \<longleftrightarrow> (\<exists>a. p = Some a \<and> h a = Some v)"
  by (cases p) simp_all

definition upd_task :: "ptr \<Rightarrow> (rx_task \<Rightarrow> rx_task) \<Rightarrow> kstate \<Rightarrow> kstate option" where
  "upd_task p f s =
     do { a \<leftarrow> p; t \<leftarrow> tasks s a; Some (s\<lparr>tasks := (tasks s)(a \<mapsto> f t)\<rparr>) }"

definition upd_timer :: "ptr \<Rightarrow> (timer_list \<Rightarrow> timer_list) \<Rightarrow> kstate \<Rightarrow> kstate option" where
  "upd_timer p f s =
     do { a \<leftarrow> p; t \<leftarrow> timers s a; Some (s\<lparr>timers := (timers s)(a \<mapsto> f t)\<rparr>) }"

definition upd_mutex :: "ptr \<Rightarrow> (mutex \<Rightarrow> mutex) \<Rightarrow> kstate \<Rightarrow> kstate option" where
  "upd_mutex p f s =
     do { a \<leftarrow> p; t \<leftarrow> mutexes s a; Some (s\<lparr>mutexes := (mutexes s)(a \<mapsto> f t)\<rparr>) }"

definition upd_sem :: "ptr \<Rightarrow> (semaphore \<Rightarrow> semaphore) \<Rightarrow> kstate \<Rightarrow> kstate option" where
  "upd_sem p f s =
     do { a \<leftarrow> p; t \<leftarrow> sems s a; Some (s\<lparr>sems := (sems s)(a \<mapsto> f t)\<rparr>) }"

definition upd_egroup :: "ptr \<Rightarrow> (event_group \<Rightarrow> event_group) \<Rightarrow> kstate \<Rightarrow> kstate option" where
  "upd_egroup p f s =
     do { a \<leftarrow> p; t \<leftarrow> egroups s a; Some (s\<lparr>egroups := (egroups s)(a \<mapsto> f t)\<rparr>) }"

definition upd_wq :: "ptr \<Rightarrow> (wait_queue \<Rightarrow> wait_queue) \<Rightarrow> kstate \<Rightarrow> kstate option" where
  "upd_wq p f s =
     do { a \<leftarrow> p; t \<leftarrow> wqueues s a; Some (s\<lparr>wqueues := (wqueues s)(a \<mapsto> f t)\<rparr>) }"

definition upd_mq :: "ptr \<Rightarrow> (msg_queue \<Rightarrow> msg_queue) \<Rightarrow> kstate \<Rightarrow> kstate option" where
  "upd_mq p f s =
     do { a \<leftarrow> p; t \<leftarrow> mqueues s a; Some (s\<lparr>mqueues := (mqueues s)(a \<mapsto> f t)\<rparr>) }"

definition upd_bpool :: "ptr \<Rightarrow> (block_pool \<Rightarrow> block_pool) \<Rightarrow> kstate \<Rightarrow> kstate option" where
  "upd_bpool p f s =
     do { a \<leftarrow> p; t \<leftarrow> bpools s a; Some (s\<lparr>bpools := (bpools s)(a \<mapsto> f t)\<rparr>) }"

definition upd_block :: "ptr \<Rightarrow> (block_chain \<Rightarrow> block_chain) \<Rightarrow> kstate \<Rightarrow> kstate option" where
  "upd_block p f s =
     do { a \<leftarrow> p; t \<leftarrow> blocks s a; Some (s\<lparr>blocks := (blocks s)(a \<mapsto> f t)\<rparr>) }"

definition upd_tasklet :: "ptr \<Rightarrow> (tasklet \<Rightarrow> tasklet) \<Rightarrow> kstate \<Rightarrow> kstate option" where
  "upd_tasklet p f s =
     do { a \<leftarrow> p; t \<leftarrow> tasklets s a; Some (s\<lparr>tasklets := (tasklets s)(a \<mapsto> f t)\<rparr>) }"

lemma upd_NULL [simp]:
  "upd_task NULL f s = None" "upd_timer NULL g s = None" "upd_mutex NULL h s = None"
  "upd_sem NULL i s = None" "upd_egroup NULL j s = None" "upd_wq NULL k s = None"
  "upd_mq NULL l s = None" "upd_bpool NULL m s = None" "upd_block NULL n s = None"
  "upd_tasklet NULL o' s = None"
  by (simp_all add: upd_task_def upd_timer_def upd_mutex_def upd_sem_def upd_egroup_def
      upd_wq_def upd_mq_def upd_bpool_def upd_block_def upd_tasklet_def)

lemma upd_task_Some [simp]:
  "tasks s a = Some t \<Longrightarrow> upd_task (Some a) f s = Some (s\<lparr>tasks := (tasks s)(a \<mapsto> f t)\<rparr>)"
  by (simp add: upd_task_def)

lemma upd_timer_Some [simp]:
  "timers s a = Some t \<Longrightarrow> upd_timer (Some a) f s = Some (s\<lparr>timers := (timers s)(a \<mapsto> f t)\<rparr>)"
  by (simp add: upd_timer_def)

lemma upd_mutex_Some [simp]:
  "mutexes s a = Some t \<Longrightarrow>
     upd_mutex (Some a) f s = Some (s\<lparr>mutexes := (mutexes s)(a \<mapsto> f t)\<rparr>)"
  by (simp add: upd_mutex_def)

lemma upd_sem_Some [simp]:
  "sems s a = Some t \<Longrightarrow> upd_sem (Some a) f s = Some (s\<lparr>sems := (sems s)(a \<mapsto> f t)\<rparr>)"
  by (simp add: upd_sem_def)

lemma upd_egroup_Some [simp]:
  "egroups s a = Some t \<Longrightarrow>
     upd_egroup (Some a) f s = Some (s\<lparr>egroups := (egroups s)(a \<mapsto> f t)\<rparr>)"
  by (simp add: upd_egroup_def)

lemma upd_wq_Some [simp]:
  "wqueues s a = Some t \<Longrightarrow> upd_wq (Some a) f s = Some (s\<lparr>wqueues := (wqueues s)(a \<mapsto> f t)\<rparr>)"
  by (simp add: upd_wq_def)

lemma upd_mq_Some [simp]:
  "mqueues s a = Some t \<Longrightarrow> upd_mq (Some a) f s = Some (s\<lparr>mqueues := (mqueues s)(a \<mapsto> f t)\<rparr>)"
  by (simp add: upd_mq_def)

lemma upd_bpool_Some [simp]:
  "bpools s a = Some t \<Longrightarrow> upd_bpool (Some a) f s = Some (s\<lparr>bpools := (bpools s)(a \<mapsto> f t)\<rparr>)"
  by (simp add: upd_bpool_def)

lemma upd_block_Some [simp]:
  "blocks s a = Some t \<Longrightarrow> upd_block (Some a) f s = Some (s\<lparr>blocks := (blocks s)(a \<mapsto> f t)\<rparr>)"
  by (simp add: upd_block_def)

lemma upd_tasklet_Some [simp]:
  "tasklets s a = Some t \<Longrightarrow>
     upd_tasklet (Some a) f s = Some (s\<lparr>tasklets := (tasklets s)(a \<mapsto> f t)\<rparr>)"
  by (simp add: upd_tasklet_def)

lemma upd_task_None [simp]: "tasks s a = None \<Longrightarrow> upd_task (Some a) f s = None"
  by (simp add: upd_task_def)


section \<open>Link fields\<close>

definition task_next :: "kstate \<Rightarrow> links" where
  "task_next s a = map_option t_next (tasks s a)"

definition task_link :: "kstate \<Rightarrow> links" where
  "task_link s a = map_option t_list (tasks s a)"

definition timer_next :: "kstate \<Rightarrow> links" where
  "timer_next s a = map_option tm_next (timers s a)"

definition wq_next :: "kstate \<Rightarrow> links" where
  "wq_next s a = map_option w_next (wqueues s a)"

definition tasklet_next :: "kstate \<Rightarrow> links" where
  "tasklet_next s a = map_option k_next (tasklets s a)"

lemmas link_defs = task_next_def task_link_def timer_next_def wq_next_def tasklet_next_def

definition set_task_next :: "ptr \<Rightarrow> ptr \<Rightarrow> kstate \<Rightarrow> kstate option" where
  "set_task_next p q s = upd_task p (\<lambda>t. t\<lparr>t_next := q\<rparr>) s"

definition set_task_link :: "ptr \<Rightarrow> ptr \<Rightarrow> kstate \<Rightarrow> kstate option" where
  "set_task_link p q s = upd_task p (\<lambda>t. t\<lparr>t_list := q\<rparr>) s"

definition set_wq_next :: "ptr \<Rightarrow> ptr \<Rightarrow> kstate \<Rightarrow> kstate option" where
  "set_wq_next p q s = upd_wq p (\<lambda>w. w\<lparr>w_next := q\<rparr>) s"

definition set_tasklet_next :: "ptr \<Rightarrow> ptr \<Rightarrow> kstate \<Rightarrow> kstate option" where
  "set_tasklet_next p q s = upd_tasklet p (\<lambda>k. k\<lparr>k_next := q\<rparr>) s"

lemma task_next_eq_Some:
  "task_next s a = Some n \<longleftrightarrow> (\<exists>t. tasks s a = Some t \<and> t_next t = n)"
  by (auto simp: task_next_def)

lemma task_next_upd [simp]:
  "task_next (s\<lparr>tasks := (tasks s)(a \<mapsto> t)\<rparr>) = (task_next s)(a := Some (t_next t))"
  by (auto simp: task_next_def)

lemma task_next_upd_same:
  "tasks s a = Some t \<Longrightarrow> t_next t' = t_next t \<Longrightarrow>
     task_next (s\<lparr>tasks := (tasks s)(a \<mapsto> t')\<rparr>) = task_next s"
  by (auto simp: task_next_def)

lemma task_link_upd [simp]:
  "task_link (s\<lparr>tasks := (tasks s)(a \<mapsto> t)\<rparr>) = (task_link s)(a := Some (t_list t))"
  by (auto simp: task_link_def)

lemma task_link_cong: "tasks s = tasks s' \<Longrightarrow> task_link s = task_link s'"
  by (auto simp: task_link_def)

interpretation tnext: link_field task_next set_task_next
  by unfold_locales
    (auto simp: task_next_def set_task_next_def upd_task_def split: Option.bind_splits)

interpretation tlink: link_field task_link set_task_link
  by unfold_locales
    (auto simp: task_link_def set_task_link_def upd_task_def split: Option.bind_splits)

interpretation wqnext: link_field wq_next set_wq_next
  by unfold_locales
    (auto simp: wq_next_def set_wq_next_def upd_wq_def split: Option.bind_splits)

interpretation klnext: link_field tasklet_next set_tasklet_next
  by unfold_locales
    (auto simp: tasklet_next_def set_tasklet_next_def upd_tasklet_def split: Option.bind_splits)

text \<open>Only the heap of the tasks matters for the links between tasks.\<close>

lemma task_next_cong: "tasks s = tasks s' \<Longrightarrow> task_next s = task_next s'"
  by (auto simp: task_next_def)

lemma task_next_frame [simp]:
  "task_next (s\<lparr>timers := a1\<rparr>) = task_next s" "task_next (s\<lparr>mutexes := a2\<rparr>) = task_next s"
  "task_next (s\<lparr>sems := a3\<rparr>) = task_next s" "task_next (s\<lparr>egroups := a4\<rparr>) = task_next s"
  "task_next (s\<lparr>wqueues := a5\<rparr>) = task_next s" "task_next (s\<lparr>mqueues := a6\<rparr>) = task_next s"
  "task_next (s\<lparr>bpools := a7\<rparr>) = task_next s" "task_next (s\<lparr>blocks := a8\<rparr>) = task_next s"
  "task_next (s\<lparr>tasklets := a9\<rparr>) = task_next s" "task_next (s\<lparr>mem := b1\<rparr>) = task_next s"
  "task_next (s\<lparr>curr_running_task := b2\<rparr>) = task_next s"
  "task_next (s\<lparr>task_ready_head := b3\<rparr>) = task_next s"
  "task_next (s\<lparr>task_list_head := b4\<rparr>) = task_next s"
  "task_next (s\<lparr>curr_num_task := b5\<rparr>) = task_next s"
  "task_next (s\<lparr>need_resched := b6\<rparr>) = task_next s"
  "task_next (s\<lparr>jiffies := b7\<rparr>) = task_next s"
  "task_next (s\<lparr>active_timer_head := b8\<rparr>) = task_next s"
  "task_next (s\<lparr>sys_wait_list := b9\<rparr>) = task_next s"
  "task_next (s\<lparr>sys_tasklet_list := c1\<rparr>) = task_next s"
  "task_next (s\<lparr>critical := c2\<rparr>) = task_next s"
  "task_next (s\<lparr>in_irq := c3\<rparr>) = task_next s"
  "task_next (s\<lparr>rx_curr_stack_ptr := c4\<rparr>) = task_next s"
  by (rule task_next_cong, simp)+


section \<open>Critical sections (\<^verbatim>\<open>arch/x86/osport.c\<close>)\<close>

text \<open>
  \<^verbatim>\<open>rx_enter_critical\<close> and \<^verbatim>\<open>rx_exit_critical\<close> are macros for the two functions
  below. They mask the simulated interrupt and keep a flag; the value they pass around
  (\<^verbatim>\<open>imask\<close>) is always 0 and is never used.
\<close>

definition rx_enter_critical :: "kstate \<Rightarrow> kstate" where
  "rx_enter_critical s = (if in_irq s \<or> critical s then s else s\<lparr>critical := True\<rparr>)"

definition rx_exit_critical :: "kstate \<Rightarrow> kstate" where
  "rx_exit_critical s = (if in_irq s \<or> \<not> critical s then s else s\<lparr>critical := False\<rparr>)"

lemma enter_critical_eq: "rx_enter_critical s = s\<lparr>critical := critical s \<or> \<not> in_irq s\<rparr>"
  by (simp add: rx_enter_critical_def)

lemma exit_critical_eq: "rx_exit_critical s = s\<lparr>critical := critical s \<and> in_irq s\<rparr>"
  by (simp add: rx_exit_critical_def)

lemma critical_absorb [simp]: "((c \<or> \<not> i) \<and> i) = (c \<and> i)"
  by auto

lemmas critical_eqs = enter_critical_eq exit_critical_eq

lemma task_next_critical [simp]:
  "task_next (rx_enter_critical s) = task_next s" "task_next (rx_exit_critical s) = task_next s"
  by (simp_all add: critical_eqs)

end
