(* ===== verification/RX_Irq.thy ===== *)
theory RX_Irq
  imports RX_State
begin

text \<open>
  Interrupt lines (\<^verbatim>\<open>kernel/rx_irq.c\<close>): installing, removing and calling handlers. The
  pool has \<open>CONFIG_IRQ_COUNT - 1\<close> entries; an access outside of it has no defined result. The
  code for chains of shared handlers is compiled out (\<^verbatim>\<open>#if 0\<close>) in the source.
\<close>

unbundle bit_operations_syntax

section \<open>Operations\<close>

definition CONFIG_IRQ_COUNT :: int where "CONFIG_IRQ_COUNT = 10"
definition RX_IRQF_SHARED :: "32 word" where "RX_IRQF_SHARED = 4"
definition RX_IRQ_HANDLED :: int where "RX_IRQ_HANDLED = 0"

definition pool_size :: nat where "pool_size = nat (CONFIG_IRQ_COUNT - 1)"

definition idle_irq :: irq where
  "idle_irq = \<lparr>i_devname = [], i_irq_handler = None, i_flags = 0, i_dev_id = NULL, i_next = NULL\<rparr>"

definition get_irq :: "int \<Rightarrow> kstate \<Rightarrow> irq option" where
  "get_irq n s = (if 0 \<le> n \<and> nat n < length (irq_pool s) then Some (irq_pool s ! nat n) else None)"

definition set_irq :: "int \<Rightarrow> irq \<Rightarrow> kstate \<Rightarrow> kstate" where
  "set_irq n i s = s\<lparr>irq_pool := (irq_pool s)[nat n := i]\<rparr>"

text \<open>
  \<^verbatim>\<open>strncpy(devname, dev_name, 7)\<close> writes seven characters, the rest of them zero; the
  eighth byte of the array keeps the zero it was born with.
\<close>

definition irq_name :: "string \<Rightarrow> string" where
  "irq_name dev_name = take 7 dev_name"

text \<open>
  \<open>run f n dev_id\<close> is the call through the function pointer; its result is ignored. A slot
  without a handler but with a successor would call through NULL.
\<close>

type_synonym irq_runner = "irq_fn \<Rightarrow> int \<Rightarrow> ptr \<Rightarrow> kstate \<Rightarrow> (int call \<times> kstate) option"

definition ignore_result :: "int call \<times> kstate \<Rightarrow> unit call \<times> kstate" where
  "ignore_result r = (case r of (Returns _, s) \<Rightarrow> (Returns (), s) | (Sleeps, s) \<Rightarrow> (Sleeps, s))"

definition rx_irq_handler :: "irq_runner \<Rightarrow> int \<Rightarrow> kstate \<Rightarrow> (unit call \<times> kstate) option" where
  "rx_irq_handler run irq_num s =
     do { let s1 = s\<lparr>raw_irq_counter := raw_irq_counter s + 1\<rparr>;
          i \<leftarrow> get_irq irq_num s1;
          (if i_irq_handler i \<noteq> None \<or> i_next i \<noteq> NULL
           then do { f \<leftarrow> i_irq_handler i; map_option ignore_result (run f irq_num (i_dev_id i) s1) }
           else Some (Returns (), s1)) }"

definition rx_request_irq ::
    "int \<Rightarrow> irq_fn option \<Rightarrow> 32 word \<Rightarrow> string \<Rightarrow> ptr \<Rightarrow> kstate \<Rightarrow> (int \<times> kstate) option" where
  "rx_request_irq irq_num irq_handler irq_flags dev_name dev_id s =
     (if irq_num > CONFIG_IRQ_COUNT then Some (OS_ERR, s)
      else
        do { i \<leftarrow> get_irq irq_num s;
             (if i_irq_handler i \<noteq> None \<or> i_next i \<noteq> NULL then
                if irq_flags AND RX_IRQF_SHARED = 0 \<or> dev_id = NULL
                then Some (E_OS_UNAVAIL, s)
                else Some (OS_OK, s)
              else
                Some (OS_OK, set_irq irq_num
                  (i\<lparr>i_irq_handler := irq_handler, i_flags := irq_flags, i_devname := irq_name dev_name,
                     i_dev_id := dev_id, i_next := NULL\<rparr>) s)) })"

definition rx_free_irq :: "int \<Rightarrow> ptr \<Rightarrow> kstate \<Rightarrow> (int \<times> kstate) option" where
  "rx_free_irq irq_num dev_id s =
     (if irq_num > CONFIG_IRQ_COUNT then Some (E_OS_UNAVAIL, s)
      else
        do { i \<leftarrow> get_irq irq_num s;
             (if i_flags i AND RX_IRQF_SHARED \<noteq> 0 then Some (OS_OK, s)
              else Some (OS_OK, set_irq irq_num (i\<lparr>i_irq_handler := None\<rparr>) s)) })"


section \<open>The pool as a partial function from lines to handlers\<close>

definition line_handler :: "kstate \<Rightarrow> int \<Rightarrow> irq_fn option" where
  "line_handler s n = Option.bind (get_irq n s) i_irq_handler"

definition pool_ok :: "kstate \<Rightarrow> bool" where
  "pool_ok s \<longleftrightarrow> length (irq_pool s) = pool_size \<and> (\<forall>i\<in>set (irq_pool s). i_next i = NULL)"

lemma pool_ok_get:
  assumes "pool_ok s" and "0 \<le> n" and "n < 9"
  obtains i where "get_irq n s = Some i" and "i_next i = NULL" and "line_handler s n = i_irq_handler i"
proof -
  have "nat n < length (irq_pool s)" using assms by (simp add: pool_ok_def pool_size_def CONFIG_IRQ_COUNT_def)
  with assms that [of "irq_pool s ! nat n"] show thesis
    by (simp add: pool_ok_def get_irq_def line_handler_def)
qed

lemma get_set_irq:
  assumes "get_irq n s = Some j"
  shows "get_irq m (set_irq n i s) = (if m = n then Some i else get_irq m s)"
  using assms by (auto simp: get_irq_def set_irq_def nth_list_update split: if_splits)

lemma line_handler_set:
  assumes "get_irq n s = Some j"
  shows "line_handler (set_irq n i s) = (line_handler s)(n := i_irq_handler i)"
  using get_set_irq [OF assms] by (auto simp: line_handler_def)

lemma pool_ok_set: "pool_ok s \<Longrightarrow> i_next i = NULL \<Longrightarrow> pool_ok (set_irq n i s)"
  by (auto simp: pool_ok_def set_irq_def dest: set_update_subset_insert [THEN subsetD])

lemma request_free_line:
  assumes "pool_ok s" and "0 \<le> n" and "n < 9" and "line_handler s n = None"
  shows "\<exists>s'. rx_request_irq n (Some h) flags name dev s = Some (OS_OK, s') \<and> pool_ok s' \<and>
              line_handler s' = (line_handler s)(n \<mapsto> h) \<and>
              get_irq n s' = Some \<lparr>i_devname = take 7 name, i_irq_handler = Some h, i_flags = flags,
                                   i_dev_id = dev, i_next = NULL\<rparr>"
proof -
  obtain i where i: "get_irq n s = Some i" "i_next i = NULL" "i_irq_handler i = None"
    using pool_ok_get [OF assms(1-3)] assms(4) by metis
  with assms line_handler_set [OF i(1)] get_set_irq [OF i(1)] show ?thesis
    by (simp add: rx_request_irq_def CONFIG_IRQ_COUNT_def pool_ok_set irq_name_def)
qed

lemma request_taken_line:
  assumes "pool_ok s" and "0 \<le> n" and "n < 9" and "line_handler s n = Some h"
  shows "rx_request_irq n h' flags name dev s =
           Some (if flags AND RX_IRQF_SHARED = 0 \<or> dev = NULL then E_OS_UNAVAIL else OS_OK, s)"
proof -
  obtain i where "get_irq n s = Some i" "i_irq_handler i = Some h"
    using pool_ok_get [OF assms(1-3)] assms(4) by metis
  with assms(3) show ?thesis by (simp add: rx_request_irq_def CONFIG_IRQ_COUNT_def)
qed

lemma irq_handler_line:
  assumes "pool_ok s" and "0 \<le> n" and "n < 9"
  shows "rx_irq_handler run n s =
     (let s1 = s\<lparr>raw_irq_counter := raw_irq_counter s + 1\<rparr> in
      case line_handler s n of None \<Rightarrow> Some (Returns (), s1)
      | Some f \<Rightarrow> Option.bind (get_irq n s) (\<lambda>i. map_option ignore_result (run f n (i_dev_id i) s1)))"
proof -
  obtain i where "get_irq n s = Some i" "i_next i = NULL" "line_handler s n = i_irq_handler i"
    by (rule pool_ok_get [OF assms])
  moreover have "get_irq n (s\<lparr>raw_irq_counter := c\<rparr>) = get_irq n s" for c by (simp add: get_irq_def)
  ultimately show ?thesis
    by (cases "i_irq_handler i") (simp_all add: rx_irq_handler_def Let_def)
qed


section \<open>Properties\<close>

definition demo_pool :: kstate where
  "demo_pool = blank_state\<lparr>irq_pool := replicate pool_size idle_irq\<rparr>"

lemma demo_pool_ok: "pool_ok demo_pool" "line_handler demo_pool 3 = None"
  by (simp_all add: demo_pool_def pool_ok_def line_handler_def get_irq_def pool_size_def
      CONFIG_IRQ_COUNT_def idle_irq_def)

text \<open>
  C21. Installing a handler: on a free line \<^verbatim>\<open>rx_request_irq\<close> returns OS_OK, exactly that
  line changes and an interrupt on it calls the handler with the registered \<^verbatim>\<open>dev_id\<close>; a
  second request for the line without the shared flag returns E_OS_UNAVAIL and changes nothing;
  after \<^verbatim>\<open>rx_free_irq\<close> of a line that was not requested as shared it can be requested again.
\<close>

theorem irq_request_dispatch_free:
  assumes "pool_ok s" and "0 \<le> n" and "n < 9" and "line_handler s n = None"
    and "flags AND RX_IRQF_SHARED = 0"
  shows "\<exists>s1 s2. rx_request_irq n (Some h) flags name dev s = Some (OS_OK, s1) \<and>
           line_handler s1 = (line_handler s)(n \<mapsto> h) \<and>
           rx_irq_handler run n s1 =
             map_option ignore_result (run h n dev (s1\<lparr>raw_irq_counter := raw_irq_counter s1 + 1\<rparr>)) \<and>
           rx_request_irq n h' 0 name' dev' s1 = Some (E_OS_UNAVAIL, s1) \<and>
           rx_free_irq n dev s1 = Some (OS_OK, s2) \<and> line_handler s2 = line_handler s \<and> pool_ok s2"
proof -
  let ?i = "\<lparr>i_devname = take 7 name, i_irq_handler = Some h, i_flags = flags, i_dev_id = dev, i_next = NULL\<rparr>"
  obtain s1 where s1: "rx_request_irq n (Some h) flags name dev s = Some (OS_OK, s1)" "pool_ok s1"
    "line_handler s1 = (line_handler s)(n \<mapsto> h)" "get_irq n s1 = Some ?i"
    using request_free_line [OF assms(1-4)] by blast
  then have l: "line_handler s1 n = Some h" by simp
  let ?s2 = "set_irq n (?i\<lparr>i_irq_handler := None\<rparr>) s1"
  have "rx_free_irq n dev s1 = Some (OS_OK, ?s2)"
    using s1(4) assms(3,5) by (simp add: rx_free_irq_def CONFIG_IRQ_COUNT_def)
  moreover have "line_handler ?s2 = line_handler s"
    using line_handler_set [OF s1(4)] s1(3) assms(4) by (simp add: fun_upd_idem)
  moreover have "rx_irq_handler run n s1 =
             map_option ignore_result (run h n dev (s1\<lparr>raw_irq_counter := raw_irq_counter s1 + 1\<rparr>))"
    using irq_handler_line [OF s1(2) assms(2,3)] l s1(4) by simp
  ultimately show ?thesis
    using s1 request_taken_line [OF s1(2) assms(2,3) l] pool_ok_set [OF s1(2)] by simp
qed

theorem irq_request_dispatch_free_witness:
  "\<exists>s1 s2. rx_request_irq 3 (Some (App_Irq 7)) 0 ''uart'' NULL demo_pool = Some (OS_OK, s1) \<and>
     rx_request_irq 3 (Some (App_Irq 8)) 0 ''other'' NULL s1 = Some (E_OS_UNAVAIL, s1) \<and>
     rx_free_irq 3 NULL s1 = Some (OS_OK, s2) \<and> line_handler s2 3 = None"
  using irq_request_dispatch_free [OF demo_pool_ok(1), of 3 0 "App_Irq 7" "''uart''" NULL
      "\<lambda>_ _ _ s. Some (Returns 0, s)" "Some (App_Irq 8)" "''other''" NULL] demo_pool_ok(2)
  by auto

text \<open>
  The bound check lets two numbers through that the pool does not have: a request for line
  9 or 10 passes the test against CONFIG_IRQ_COUNT and then reads outside of the nine entries.
\<close>

theorem irq_request_out_of_bounds:
  assumes "pool_ok s" and "n = 9 \<or> n = 10"
  shows "\<not> n > CONFIG_IRQ_COUNT \<and> rx_request_irq n h flags name dev s = None \<and>
         rx_request_irq 11 h flags name dev s = Some (OS_ERR, s)"
  using assms by (auto simp: rx_request_irq_def get_irq_def pool_ok_def pool_size_def CONFIG_IRQ_COUNT_def)

theorem irq_request_out_of_bounds_witness:
  "rx_request_irq 9 (Some (App_Irq 7)) 0 ''uart'' NULL demo_pool = None"
  using irq_request_out_of_bounds [OF demo_pool_ok(1), of 9] by simp

end
