(* ===== verification/RX_Ready.thy ===== *)
theory RX_Ready
  imports RX_State
begin

text \<open>
  The ready queue (\<^verbatim>\<open>kernel/rx_task.c\<close>) and the dispatcher
  (\<^verbatim>\<open>kernel/rx_sched.c\<close>): insertion by priority, removal, and the switch to the head of
  the queue. The queue is the list that starts at \<^verbatim>\<open>__rx_task_ready_head\<close> and runs
  through the \<^verbatim>\<open>next\<close> fields; the running task stays in it.
\<close>

section \<open>Insertion and removal\<close>

text \<open>
  The search loop of \<^verbatim>\<open>__rx_add_to_ready_q\<close>, with the pointers \<open>prev\<close> and
  \<open>start\<close> of the source; the statement after the loop is the NULL case.
\<close>

partial_function (option) ready_q_insert ::
    "ptr \<Rightarrow> int \<Rightarrow> ptr \<Rightarrow> ptr \<Rightarrow> kstate \<Rightarrow> kstate option" where
  "ready_q_insert new prio prev start s =
     (case start of
        None \<Rightarrow> set_task_next prev new s
      | Some a \<Rightarrow>
          do { st \<leftarrow> tasks s a;
               (if t_prio st \<ge> prio then
                  if t_prio st = prio then
                    (case t_next st of
                       Some n \<Rightarrow>
                         do { nt \<leftarrow> tasks s n;
                              (if t_prio nt \<noteq> prio
                               then do { s1 \<leftarrow> set_task_next new (t_next st) s;
                                         set_task_next start new s1 }
                               else ready_q_insert new prio start (t_next st) s) }
                     | None \<Rightarrow>
                         do { s1 \<leftarrow> set_task_next new (t_next st) s;
                              set_task_next start new s1 })
                  else
                    do { s1 \<leftarrow> set_task_next new start s;
                         (if start = task_ready_head s1
                          then Some (s1\<lparr>task_ready_head := new\<rparr>)
                          else set_task_next prev new s1) }
                else ready_q_insert new prio start (t_next st) s) })"

definition rx_add_to_ready_q :: "ptr \<Rightarrow> kstate \<Rightarrow> (int \<times> kstate) option" where
  "rx_add_to_ready_q new s =
     do { t \<leftarrow> deref (tasks s) new;
          (if \<not> (t_state t = RX_TASK_READY \<or> t_state t = RX_TASK_RUNNING)
           then Some (OS_ERR, s)
           else
             do { s1 \<leftarrow> set_task_next new NULL s;
                  let s2 = rx_enter_critical s1;
                  (if task_ready_head s2 = NULL
                   then Some (OS_OK, rx_exit_critical (s2\<lparr>task_ready_head := new\<rparr>))
                   else
                     do { s3 \<leftarrow> ready_q_insert new (t_prio t) NULL (task_ready_head s2) s2;
                          let s4 = (if curr_running_task s3 \<noteq> task_ready_head s3
                                    then s3\<lparr>need_resched := True\<rparr> else s3);
                          Some (OS_OK, rx_exit_critical s4) }) }) }"

text \<open>The loop of \<^verbatim>\<open>__rx_remove_from_ready_q\<close>; again NULL is the code after the loop.\<close>

partial_function (option) ready_q_remove :: "ptr \<Rightarrow> ptr \<Rightarrow> ptr \<Rightarrow> kstate \<Rightarrow> kstate option" where
  "ready_q_remove rmv prev start s =
     (case start of
        None \<Rightarrow> do { s1 \<leftarrow> set_task_next prev NULL s; set_task_next rmv NULL s1 }
      | Some a \<Rightarrow>
          do { st \<leftarrow> tasks s a;
               (if start = rmv then
                  if start = task_ready_head s
                  then set_task_next rmv NULL (s\<lparr>task_ready_head := t_next st\<rparr>)
                  else do { s1 \<leftarrow> set_task_next prev (t_next st) s; set_task_next rmv NULL s1 }
                else ready_q_remove rmv start (t_next st) s) })"

definition rx_remove_from_ready_q :: "ptr \<Rightarrow> kstate \<Rightarrow> (int \<times> kstate) option" where
  "rx_remove_from_ready_q rmv s =
     do { let s1 = rx_enter_critical s;
          s2 \<leftarrow> ready_q_remove rmv NULL (task_ready_head s1) s1;
          Some (OS_OK, rx_exit_critical s2) }"


section \<open>The dispatcher\<close>

text \<open>
  \<^verbatim>\<open>__rx_switch_to\<close> runs on the stack of the new task. It reloads an exhausted time
  slice and ends the critical section that \<^verbatim>\<open>rx_sched\<close> opened.
\<close>

definition rx_switch_to :: "kstate \<Rightarrow> kstate option" where
  "rx_switch_to s =
     do { let s1 = s\<lparr>curr_running_task := task_ready_head s\<rparr>;
          s2 \<leftarrow> upd_task (curr_running_task s1) (\<lambda>t. t\<lparr>t_state := RX_TASK_RUNNING\<rparr>) s1;
          t \<leftarrow> deref (tasks s2) (curr_running_task s2);
          s3 \<leftarrow> (if t_time_slice t \<noteq> 0 \<and> t_ticks t = 0
                 then upd_task (curr_running_task s2) (\<lambda>t. t\<lparr>t_ticks := t_time_slice t\<rparr>) s2
                 else Some s2);
          Some (rx_exit_critical s3) }"

text \<open>
  \<^verbatim>\<open>__sched__(prev, next)\<close> of \<^verbatim>\<open>arch/x86/switch.h\<close> saves the processor context in
  \<open>prev\<close>, loads it from \<open>next\<close> (both are dereferenced) and jumps to
  \<^verbatim>\<open>__rx_switch_to\<close>.
\<close>

definition x86_sched :: "ptr \<Rightarrow> ptr \<Rightarrow> kstate \<Rightarrow> kstate option" where
  "x86_sched prev nxt s =
     do { _ \<leftarrow> deref (tasks s) prev; _ \<leftarrow> deref (tasks s) nxt; rx_switch_to s }"

definition rx_sched :: "kstate \<Rightarrow> kstate option" where
  "rx_sched s =
     (if curr_running_task s \<noteq> task_ready_head s
      then do { let s1 = rx_enter_critical (s\<lparr>need_resched := False\<rparr>);
                x86_sched (curr_running_task s1) (task_ready_head s1) s1 }
      else Some s)"

text \<open>
  A call that ends in \<^verbatim>\<open>rx_sched(); rest\<close>: if the processor changes hands the caller
  sleeps and \<open>rest\<close> is what it runs when it is dispatched again.
\<close>

definition sched_then :: "(kstate \<Rightarrow> ('a call \<times> kstate) option) \<Rightarrow> kstate \<Rightarrow>
    ('a call \<times> kstate) option" where
  "sched_then rest s =
     (if curr_running_task s \<noteq> task_ready_head s
      then do { s1 \<leftarrow> rx_sched s; Some (Sleeps, s1) }
      else rest s)"


section \<open>The ready queue as an abstract sequence\<close>

definition task_prio :: "kstate \<Rightarrow> addr \<Rightarrow> int" where
  "task_prio s a = (case tasks s a of Some t \<Rightarrow> t_prio t | None \<Rightarrow> 0)"

definition runnable :: "kstate \<Rightarrow> addr \<Rightarrow> bool" where
  "runnable s a = (case tasks s a of
     Some t \<Rightarrow> t_state t = RX_TASK_READY \<or> t_state t = RX_TASK_RUNNING | None \<Rightarrow> False)"

text \<open>Abstract insertion: behind every task that is at least as urgent.\<close>

fun insert_prio :: "(addr \<Rightarrow> int) \<Rightarrow> addr \<Rightarrow> addr list \<Rightarrow> addr list" where
  "insert_prio pr a [] = [a]"
| "insert_prio pr a (x # xs) = (if pr x \<le> pr a then x # insert_prio pr a xs else a # x # xs)"

definition ready_queue :: "kstate \<Rightarrow> addr list \<Rightarrow> bool" where
  "ready_queue s xs \<longleftrightarrow>
     lst (task_next s) (task_ready_head s) xs \<and> sorted (map (task_prio s) xs) \<and>
     (\<forall>a\<in>set xs. runnable s a)"

text \<open>
  The same queue while one of its tasks is being worked on: its state or priority may have
  been changed already, the others are in order.
\<close>

definition ready_except :: "kstate \<Rightarrow> addr \<Rightarrow> addr list \<Rightarrow> bool" where
  "ready_except s a xs \<longleftrightarrow>
     lst (task_next s) (task_ready_head s) xs \<and> sorted (map (task_prio s) (remove1 a xs)) \<and>
     (\<forall>b\<in>set xs. b \<noteq> a \<longrightarrow> runnable s b)"

lemma set_insert_prio [simp]: "set (insert_prio pr a xs) = insert a (set xs)"
  by (induction xs) auto

lemma length_insert_prio [simp]: "length (insert_prio pr a xs) = Suc (length xs)"
  by (induction xs) auto

lemma sorted_insert_prio: "sorted (map pr xs) \<Longrightarrow> sorted (map pr (insert_prio pr a xs))"
  by (induction xs) auto

lemma insert_prio_ne [simp]: "insert_prio pr a xs \<noteq> []"
  by (cases xs) auto

lemma insert_prio_split:
  "insert_prio pr a xs =
     takeWhile (\<lambda>x. pr x \<le> pr a) xs @ a # dropWhile (\<lambda>x. pr x \<le> pr a) xs"
  by (induction xs) auto

lemma insert_prio_cong:
  "(\<And>x. x \<in> set (a # xs) \<Longrightarrow> pr x = pr' x) \<Longrightarrow> insert_prio pr a xs = insert_prio pr' a xs"
  by (induction xs) auto


section \<open>What the queue operations leave alone\<close>

text \<open>
  \<open>relinked A s s'\<close>: from \<open>s\<close> to \<open>s'\<close> only the \<^verbatim>\<open>next\<close> fields of the tasks in
  \<open>A\<close>, the head of the ready queue, the reschedule request and the interrupt mask may
  differ.
\<close>

definition same_but_next :: "rx_task option \<Rightarrow> rx_task option \<Rightarrow> bool" where
  "same_but_next x y = rel_option (\<lambda>t t'. \<exists>n. t' = t\<lparr>t_next := n\<rparr>) x y"

definition relinked :: "addr set \<Rightarrow> kstate \<Rightarrow> kstate \<Rightarrow> bool" where
  "relinked A s s' \<longleftrightarrow>
     (\<exists>tk h nr c. s' = s\<lparr>tasks := tk, task_ready_head := h, need_resched := nr, critical := c\<rparr> \<and>
        (\<forall>a. a \<notin> A \<longrightarrow> tk a = tasks s a) \<and> (\<forall>a. same_but_next (tasks s a) (tk a)))"

lemma same_but_next_refl [simp]: "same_but_next x x"
proof (cases x)
  case (Some t)
  have "\<exists>n. t = t\<lparr>t_next := n\<rparr>" by (rule exI [of _ "t_next t"]) simp
  with Some show ?thesis by (simp add: same_but_next_def)
qed (simp add: same_but_next_def)

lemma same_but_next_trans: "same_but_next x y \<Longrightarrow> same_but_next y z \<Longrightarrow> same_but_next x z"
  by (cases x; cases y; cases z) (auto simp: same_but_next_def)

lemma same_but_next_sem: "same_but_next x y \<Longrightarrow> map_option t_sem y = map_option t_sem x"
  by (cases x; cases y) (auto simp: same_but_next_def)

lemma same_but_next_None [simp]: "same_but_next None y \<longleftrightarrow> y = None"
  by (cases y) (auto simp: same_but_next_def)

lemma same_but_next_Some [simp]:
  "same_but_next (Some t) y \<longleftrightarrow> (\<exists>n. y = Some (t\<lparr>t_next := n\<rparr>))"
  by (cases y) (auto simp: same_but_next_def)

lemma relinkedI:
  assumes "s' = s\<lparr>tasks := tk, task_ready_head := h, need_resched := nr, critical := c\<rparr>"
    and "\<And>a. a \<notin> A \<Longrightarrow> tk a = tasks s a" and "\<And>a. same_but_next (tasks s a) (tk a)"
  shows "relinked A s s'"
  using assms unfolding relinked_def by blast

lemma relinkedE:
  assumes "relinked A s s'"
  obtains tk h nr c
  where "s' = s\<lparr>tasks := tk, task_ready_head := h, need_resched := nr, critical := c\<rparr>"
    and "\<And>a. a \<notin> A \<Longrightarrow> tk a = tasks s a" and "\<And>a. same_but_next (tasks s a) (tk a)"
  using assms unfolding relinked_def by blast

lemma relinked_refl [simp]: "relinked A s s"
  by (rule relinkedI [where tk = "tasks s" and h = "task_ready_head s" and nr = "need_resched s"
        and c = "critical s"]) simp_all

lemma relinked_fields:
  assumes "relinked A s s'"
  shows "timers s' = timers s" "mutexes s' = mutexes s" "sems s' = sems s"
    "egroups s' = egroups s" "wqueues s' = wqueues s" "mqueues s' = mqueues s"
    "bpools s' = bpools s" "blocks s' = blocks s" "tasklets s' = tasklets s" "mem s' = mem s"
    "curr_running_task s' = curr_running_task s" "task_list_head s' = task_list_head s"
    "curr_num_task s' = curr_num_task s" "jiffies s' = jiffies s"
    "active_timer_head s' = active_timer_head s" "sys_wait_list s' = sys_wait_list s"
    "sys_tasklet_list s' = sys_tasklet_list s" "in_irq s' = in_irq s"
    "rx_stack_start_ptr s' = rx_stack_start_ptr s" "rx_curr_stack_ptr s' = rx_curr_stack_ptr s"
    "irq_pool s' = irq_pool s"
  using assms by (simp_all add: relinked_def) (elim exE conjE, simp)+

lemma relinked_outside: "relinked A s s' \<Longrightarrow> a \<notin> A \<Longrightarrow> tasks s' a = tasks s a"
  by (erule relinkedE) simp

lemma relinked_same: "relinked A s s' \<Longrightarrow> same_but_next (tasks s a) (tasks s' a)"
  by (erule relinkedE) simp

lemma relinked_trans:
  assumes "relinked A s s'" and "relinked B s' s''" and "A \<union> B \<subseteq> C"
  shows "relinked C s s''"
proof -
  obtain tk h nr c where 1: "s' = s\<lparr>tasks := tk, task_ready_head := h, need_resched := nr, critical := c\<rparr>"
    using assms(1) by (rule relinkedE)
  obtain tk' h' nr' c' where
    2: "s'' = s'\<lparr>tasks := tk', task_ready_head := h', need_resched := nr', critical := c'\<rparr>"
    using assms(2) by (rule relinkedE)
  show ?thesis
  proof (rule relinkedI)
    show "s'' = s\<lparr>tasks := tk', task_ready_head := h', need_resched := nr', critical := c'\<rparr>"
      by (simp add: 1 2)
    show "tk' a = tasks s a" if "a \<notin> C" for a
    proof -
      from that assms(3) have "a \<notin> A" and "a \<notin> B" by auto
      then show ?thesis
        using relinked_outside [OF assms(1)] relinked_outside [OF assms(2)] 2 by simp
    qed
    show "same_but_next (tasks s a) (tk' a)" for a
      using same_but_next_trans [OF relinked_same [OF assms(1)] relinked_same [OF assms(2)]] 2
      by simp
  qed
qed

lemma relinked_mono: "relinked A s s' \<Longrightarrow> A \<subseteq> B \<Longrightarrow> relinked B s s'"
  unfolding relinked_def by blast

lemma relinked_then: "relinked A s s' \<Longrightarrow> relinked A s' s'' \<Longrightarrow> relinked A s s''"
  by (erule relinked_trans) auto

lemma relinked_task:
  assumes "relinked A s s'" and "tasks s a = Some t"
  shows "\<exists>n. tasks s' a = Some (t\<lparr>t_next := n\<rparr>)"
  using relinked_same [OF assms(1), of a] assms(2) by simp

lemma relinked_task_None: "relinked A s s' \<Longrightarrow> tasks s' a = None \<longleftrightarrow> tasks s a = None"
  using relinked_same [of A s s' a] by (cases "tasks s a") auto

lemma relinked_prio: "relinked A s s' \<Longrightarrow> task_prio s' a = task_prio s a"
  using relinked_same [of A s s' a] by (cases "tasks s a") (auto simp: task_prio_def)

lemma relinked_runnable: "relinked A s s' \<Longrightarrow> runnable s' a = runnable s a"
  using relinked_same [of A s s' a] by (cases "tasks s a") (auto simp: runnable_def)

lemma relinked_link: "relinked A s s' \<Longrightarrow> task_link s' = task_link s"
proof
  fix a assume "relinked A s s'"
  then show "task_link s' a = task_link s a"
    using relinked_same [of A s s' a] by (cases "tasks s a") (auto simp: task_link_def)
qed

lemma relinked_next_outside: "relinked A s s' \<Longrightarrow> a \<notin> A \<Longrightarrow> task_next s' a = task_next s a"
  by (simp add: task_next_def relinked_outside)

lemma relinked_chain:
  assumes "relinked A s s'" and "set xs \<inter> A = {}"
  shows "chain (task_next s') p xs q = chain (task_next s) p xs q"
proof (rule chain_cong)
  fix a assume "a \<in> set xs"
  with assms(2) have "a \<notin> A" by auto
  with assms(1) show "task_next s' a = task_next s a" by (rule relinked_next_outside)
qed

lemma relinked_head [simp]: "relinked A s (s\<lparr>task_ready_head := h\<rparr>)"
  by (rule relinkedI [where tk = "tasks s" and nr = "need_resched s" and c = "critical s"]) simp_all

lemma relinked_critical [simp]:
  "relinked A s (rx_enter_critical s)" "relinked A s (rx_exit_critical s)"
  by (rule relinkedI [where tk = "tasks s" and nr = "need_resched s" and h = "task_ready_head s"],
      simp_all add: critical_eqs)+

lemma relinked_resched [simp]: "relinked A s (s\<lparr>need_resched := b\<rparr>)"
  by (rule relinkedI [where tk = "tasks s" and h = "task_ready_head s" and c = "critical s"]) simp_all

lemma set_task_next_relinked:
  assumes "set_task_next (Some a) q s = Some s'" and "a \<in> A"
  shows "relinked A s s'"
proof (rule relinkedI)
  obtain t where t: "tasks s a = Some t" "s' = s\<lparr>tasks := (tasks s)(a \<mapsto> t\<lparr>t_next := q\<rparr>)\<rparr>"
    using assms(1) by (auto simp: set_task_next_def upd_task_def split: Option.bind_splits)
  show "s' = s\<lparr>tasks := tasks s', task_ready_head := task_ready_head s,
            need_resched := need_resched s, critical := critical s\<rparr>"
    by (simp add: t)
  show "b \<notin> A \<Longrightarrow> tasks s' b = tasks s b" and "same_but_next (tasks s b) (tasks s' b)" for b
    using t assms(2) by auto
qed

lemma set_task_next_eq:
  "tasks s a = Some t \<Longrightarrow>
     set_task_next (Some a) q s = Some (s\<lparr>tasks := (tasks s)(a \<mapsto> t\<lparr>t_next := q\<rparr>)\<rparr>)"
  by (simp add: set_task_next_def)

lemma set_task_next_head [simp]:
  "set_task_next p q s = Some s' \<Longrightarrow> task_ready_head s' = task_ready_head s"
  by (auto simp: set_task_next_def upd_task_def split: Option.bind_splits)

lemma set_task_next_crit:
  "set_task_next p q s = Some s' \<Longrightarrow> critical s' = critical s \<and> in_irq s' = in_irq s"
  by (auto simp: set_task_next_def upd_task_def split: Option.bind_splits)


section \<open>Correctness of insertion\<close>

text \<open>One successful link write: what the new links are, and that nothing else moved.\<close>

lemma link_write:
  assumes "task_next s a \<noteq> None" and "a \<in> A"
  obtains s' where "set_task_next (Some a) q s = Some s'"
    "task_next s' = (task_next s)(a := Some q)" "relinked A s s'"
    "task_ready_head s' = task_ready_head s" "critical s' = critical s"
proof -
  obtain t where t: "tasks s a = Some t" using assms(1) by (auto simp: task_next_def)
  then have w: "set_task_next (Some a) q s = Some (s\<lparr>tasks := (tasks s)(a \<mapsto> t\<lparr>t_next := q\<rparr>)\<rparr>)"
    by (rule set_task_next_eq)
  show ?thesis by (rule that [OF w]) (simp_all add: set_task_next_relinked [OF w assms(2)])
qed

text \<open>
  Writing the link of \<open>a\<close> and then the link of \<open>b\<close>: how every insertion and every
  removal in the middle of the queue ends.
\<close>

lemma link_write2:
  assumes "task_next s a \<noteq> None" and "task_next s b \<noteq> None" and "a \<in> A" and "b \<in> A"
  obtains s' where "do { s1 \<leftarrow> set_task_next (Some a) p s; set_task_next (Some b) q s1 } = Some s'"
    "task_next s' = (task_next s)(a := Some p, b := Some q)" "relinked A s s'"
    "task_ready_head s' = task_ready_head s" "critical s' = critical s"
proof -
  obtain s1 where s1: "set_task_next (Some a) p s = Some s1"
    "task_next s1 = (task_next s)(a := Some p)" "relinked A s s1"
    "task_ready_head s1 = task_ready_head s" "critical s1 = critical s"
    using assms(1,3) by (rule link_write)
  have "task_next s1 b \<noteq> None" using s1(2) assms(2) by simp
  then obtain s2 where s2: "set_task_next (Some b) q s1 = Some s2"
    "task_next s2 = (task_next s1)(b := Some q)" "relinked A s1 s2"
    "task_ready_head s2 = task_ready_head s1" "critical s2 = critical s1"
    using assms(4) by (rule link_write)
  show ?thesis
    by (rule that [of s2]) (use s1 s2 relinked_trans [OF s1(3) s2(3)] in simp_all)
qed

lemma sorted_head_greater:
  assumes "sorted (map pr (x # m # suf))" and "pr x = pr a" and "pr m \<noteq> pr a"
  shows "insert_prio pr a (x # m # suf) = x # a # m # suf"
  using assms by auto

text \<open>
  The search loop. \<open>pre\<close> are the tasks already passed, \<open>suf\<close> those still to be
  looked at; \<open>a\<close> is the task to insert, its own link already cleared.
\<close>

lemma ready_q_insert_spec:
  assumes "lst (task_next s) start suf" and "sorted (map (task_prio s) suf)"
    and "chain (task_next s) (task_ready_head s) pre start"
    and "distinct (pre @ suf)" and "a \<notin> set (pre @ suf)" and "task_next s a = Some NULL"
    and "prev = (if pre = [] then NULL else Some (last pre))" and "pre @ suf \<noteq> []"
    and "insert a (set (pre @ suf)) \<subseteq> A"
  shows "\<exists>s'. ready_q_insert (Some a) (task_prio s a) prev start s = Some s' \<and>
              lst (task_next s') (task_ready_head s') (pre @ insert_prio (task_prio s) a suf) \<and>
              relinked A s s' \<and> critical s' = critical s"
  using assms
proof (induction suf arbitrary: pre prev start)
  case Nil
  then have start: "start = NULL" and ne: "pre \<noteq> []" and a: "a \<notin> set pre" by auto
  have l: "lst (task_next s) (task_ready_head s) pre" using Nil.prems start by simp
  have "task_next s (last pre) \<noteq> None" by (rule lst_mapped [OF l]) (simp add: ne)
  moreover have "last pre \<in> A" using ne Nil.prems(9) by auto
  ultimately obtain s' where s': "set_task_next (Some (last pre)) (Some a) s = Some s'"
    "task_next s' = (task_next s)(last pre := Some (Some a))" "relinked A s s'"
    "task_ready_head s' = task_ready_head s" "critical s' = critical s"
    by (rule link_write)
  have "(task_next s)(a := Some NULL) = task_next s" using Nil.prems(6) by auto
  with lst_snoc [OF l a ne] s'(2,4) have "lst (task_next s') (task_ready_head s') (pre @ [a])"
    by simp
  with s' Nil.prems(7) start ne show ?case by (subst ready_q_insert.simps) simp
next
  case (Cons x suf)
  obtain n where x: "start = Some x" "task_next s x = Some n" "lst (task_next s) n suf"
    using Cons.prems(1) by auto
  obtain st where st: "tasks s x = Some st" "t_next st = n" "task_prio s x = t_prio st"
    using x(2) by (auto simp: task_next_def task_prio_def)
  let ?p = "task_prio s a"
  have step: "\<exists>s'. ready_q_insert (Some a) ?p (Some x) n s = Some s' \<and>
        lst (task_next s') (task_ready_head s') ((pre @ [x]) @ insert_prio (task_prio s) a suf) \<and>
        relinked A s s' \<and> critical s' = critical s"
  proof (rule Cons.IH)
    show "sorted (map (task_prio s) suf)" using Cons.prems(2) by simp
    show "chain (task_next s) (task_ready_head s) (pre @ [x]) n" using Cons.prems(3) x by auto
  qed (use Cons.prems(4-6,9) x(3) in simp_all)
  have in_A: "task_next s a \<noteq> None" "task_next s x \<noteq> None" "a \<in> A" "x \<in> A"
    using Cons.prems(6,9) x(2) by auto
  then obtain s2 where s2: "do { s1 \<leftarrow> set_task_next (Some a) n s; set_task_next (Some x) (Some a) s1 } = Some s2"
    "task_next s2 = (task_next s)(a := Some n, x := Some (Some a))" "relinked A s s2"
    "task_ready_head s2 = task_ready_head s" "critical s2 = critical s"
    by (rule link_write2)
  have after: "lst (task_next s2) (task_ready_head s2) (pre @ x # a # suf)"
    using Cons.prems x s2(2,4) by auto
  consider (less) "t_prio st < ?p" | (more) "t_prio st > ?p" | (last) "t_prio st = ?p" "n = NULL"
    | (run) m where "t_prio st = ?p" "n = Some m" "task_prio s m = ?p"
    | (break) m where "t_prio st = ?p" "n = Some m" "task_prio s m \<noteq> ?p"
    by (cases n) fastforce+
  then show ?case
  proof cases
    case less
    with step st x show ?thesis by (subst ready_q_insert.simps) auto
  next
    case more
    obtain s3 where s3: "set_task_next (Some a) start s = Some s3"
      "task_next s3 = (task_next s)(a := Some start)" "relinked A s s3"
      "task_ready_head s3 = task_ready_head s" "critical s3 = critical s"
      using in_A(1,3) by (rule link_write)
    show ?thesis
    proof (cases "pre = []")
      case True
      then have h: "task_ready_head s = start" using Cons.prems(3) by simp
      let ?s' = "s3\<lparr>task_ready_head := Some a\<rparr>"
      have "lst (task_next ?s') (task_ready_head ?s') (a # x # suf)"
        using Cons.prems x s3(2) by auto
      moreover have "relinked A s ?s'" by (rule relinked_then [OF s3(3) relinked_head])
      ultimately show ?thesis using more st x(1) s3 h True
        by (subst ready_q_insert.simps) simp
    next
      case False
      then obtain pre' b where pre: "pre = pre' @ [b]" by (cases pre rule: rev_cases) auto
      have nh: "task_ready_head s \<noteq> start" using Cons.prems(3,4) x(1) False by (cases pre) auto
      have "task_next s3 b \<noteq> None" using Cons.prems(3) s3(2) pre by auto
      moreover have "b \<in> A" using Cons.prems(9) pre by auto
      ultimately obtain s4 where s4: "set_task_next (Some b) (Some a) s3 = Some s4"
        "task_next s4 = (task_next s3)(b := Some (Some a))" "relinked A s3 s4"
        "task_ready_head s4 = task_ready_head s3" "critical s4 = critical s3"
        by (rule link_write)
      have "lst (task_next s4) (task_ready_head s4) (pre' @ b # a # x # suf)"
        unfolding s4(2,4) s3(2,4)
        by (rule lst_insert_mid) (use Cons.prems pre in auto)
      moreover have "relinked A s s4" by (rule relinked_then [OF s3(3) s4(3)])
      ultimately show ?thesis using more st x(1) s3 s4 nh pre Cons.prems(7)
        by (subst ready_q_insert.simps) simp
    qed
  next
    case last
    with x(3) after s2 st x(1) show ?thesis by (subst ready_q_insert.simps) auto
  next
    case (run m)
    with step st x show ?thesis
      by (subst ready_q_insert.simps) (auto simp: lst_Some task_next_def task_prio_def)
  next
    case (break m)
    then obtain suf' mt where m: "suf = m # suf'" "tasks s m = Some mt"
      using x(3) by (auto simp: lst_Some task_next_def)
    then have "t_prio mt \<noteq> ?p" using break by (simp add: task_prio_def)
    with after s2 st x(1) m break Cons.prems(2) show ?thesis
      by (subst ready_q_insert.simps) auto
  qed
qed

text \<open>
  The whole operation on a well-formed queue: it succeeds, the new queue is the abstract
  insertion, and the frame is the links of the queue and of the inserted task.
\<close>

lemma add_to_ready_q_spec:
  assumes q: "ready_queue s xs" and a: "runnable s a" "a \<notin> set xs"
  shows "\<exists>s'. rx_add_to_ready_q (Some a) s = Some (OS_OK, s') \<and>
              ready_queue s' (insert_prio (task_prio s) a xs) \<and>
              relinked (insert a (set xs)) s s' \<and> critical s' = (critical s \<and> in_irq s)"
proof -
  let ?A = "insert a (set xs)"
  obtain t where t: "tasks s a = Some t" "t_state t = RX_TASK_READY \<or> t_state t = RX_TASK_RUNNING"
    using a(1) by (auto simp: runnable_def split: option.splits)
  then have "task_next s a \<noteq> None" "a \<in> ?A" by (auto simp: task_next_def)
  then obtain s1 where s1: "set_task_next (Some a) NULL s = Some s1"
    "task_next s1 = (task_next s)(a := Some NULL)" "relinked ?A s s1"
    "task_ready_head s1 = task_ready_head s" "critical s1 = critical s"
    by (rule link_write)
  let ?s2 = "rx_enter_critical s1"
  have r2: "relinked ?A s ?s2" by (rule relinked_then [OF s1(3) relinked_critical(1)])
  have l2: "lst (task_next ?s2) (task_ready_head ?s2) xs"
    using q a(2) s1(2,4) by (simp add: ready_queue_def critical_eqs)
  have pr: "task_prio ?s2 = task_prio s" using relinked_prio [OF r2] by auto
  have tp: "t_prio t = task_prio ?s2 a" using t(1) pr by (simp add: task_prio_def)
  have crit: "critical ?s2 = (critical s \<or> \<not> in_irq s)" "in_irq ?s2 = in_irq s"
    using s1(5) relinked_fields(18) [OF s1(3)] by (auto simp: critical_eqs)
  have fin: "ready_queue s' (insert_prio (task_prio s) a xs)"
    if "relinked ?A s s'" "lst (task_next s') (task_ready_head s') (insert_prio (task_prio s) a xs)"
    for s'
    using that q a(1) relinked_prio [OF that(1)] relinked_runnable [OF that(1)]
    by (simp add: ready_queue_def sorted_insert_prio cong: map_cong)
  show ?thesis
  proof (cases "xs = []")
    case True
    then have h: "task_ready_head s1 = NULL" using l2 by (simp add: critical_eqs)
    let ?s3 = "rx_exit_critical (?s2\<lparr>task_ready_head := Some a\<rparr>)"
    have r3: "relinked ?A s ?s3"
      by (rule relinked_then [OF r2 relinked_then [OF relinked_head relinked_critical(2)]])
    have "ready_queue ?s3 (insert_prio (task_prio s) a xs)"
      using True s1(2) by (intro fin [OF r3]) (simp add: critical_eqs)
    with r3 t s1(1) h crit show ?thesis
      by (auto simp: rx_add_to_ready_q_def critical_eqs Let_def)
  next
    case False
    have "\<exists>s3. ready_q_insert (Some a) (task_prio ?s2 a) NULL (task_ready_head ?s2) ?s2 = Some s3 \<and>
        lst (task_next s3) (task_ready_head s3) ([] @ insert_prio (task_prio ?s2) a xs) \<and>
        relinked ?A ?s2 s3 \<and> critical s3 = critical ?s2"
    proof (rule ready_q_insert_spec [OF l2])
      show "sorted (map (task_prio ?s2) xs)" using q pr by (simp add: ready_queue_def)
      show "distinct ([] @ xs)" using lst_distinct [OF l2] by simp
      show "task_next ?s2 a = Some NULL" using s1(2) by simp
    qed (use False a(2) in simp_all)
    then obtain s3 where s3:
      "ready_q_insert (Some a) (t_prio t) NULL (task_ready_head ?s2) ?s2 = Some s3"
      "lst (task_next s3) (task_ready_head s3) (insert_prio (task_prio s) a xs)"
      "relinked ?A ?s2 s3" "critical s3 = critical ?s2"
      using pr tp by auto
    define s4 where "s4 = (if curr_running_task s3 \<noteq> task_ready_head s3
                           then s3\<lparr>need_resched := True\<rparr> else s3)"
    have "relinked ?A s3 s4" by (simp add: s4_def)
    with relinked_then [OF r2 s3(3)] have "relinked ?A s s4" by (rule relinked_then)
    then have r4: "relinked ?A s (rx_exit_critical s4)"
      by (rule relinked_then) (rule relinked_critical(2))
    have "lst (task_next (rx_exit_critical s4)) (task_ready_head (rx_exit_critical s4))
            (insert_prio (task_prio s) a xs)"
      using s3(2) by (simp add: s4_def critical_eqs)
    then have "ready_queue (rx_exit_critical s4) (insert_prio (task_prio s) a xs)"
      by (rule fin [OF r4])
    moreover have "critical (rx_exit_critical s4) = (critical s \<and> in_irq s)"
      using s3(4) crit relinked_fields(18) [OF s3(3)] by (auto simp: critical_eqs s4_def)
    moreover have "task_ready_head ?s2 \<noteq> NULL" using l2 False by (cases xs) auto
    ultimately show ?thesis using r4 t s1(1) s3(1)
      by (auto simp: rx_add_to_ready_q_def Let_def s4_def)
  qed
qed

text \<open>A task that is neither ready nor running is refused and nothing changes.\<close>

lemma add_to_ready_q_refused:
  "tasks s a = Some t \<Longrightarrow> \<not> runnable s a \<Longrightarrow> rx_add_to_ready_q (Some a) s = Some (OS_ERR, s)"
  by (simp add: rx_add_to_ready_q_def runnable_def)


section \<open>Correctness of removal\<close>

lemma ready_q_remove_spec:
  assumes "chain (task_next s) start mid (Some a)" and "lst (task_next s) (Some a) (a # ys)"
    and "chain (task_next s) (task_ready_head s) pre start"
    and "distinct (pre @ mid @ a # ys)"
    and "prev = (if pre = [] then NULL else Some (last pre))"
    and "set (pre @ mid @ a # ys) \<subseteq> A"
  shows "\<exists>s'. ready_q_remove (Some a) prev start s = Some s' \<and>
              lst (task_next s') (task_ready_head s') (pre @ mid @ ys) \<and>
              task_next s' a = Some NULL \<and> relinked A s s' \<and> critical s' = critical s"
  using assms
proof (induction mid arbitrary: pre prev start)
  case Nil
  then have start: "start = Some a" by simp
  obtain n where n: "task_next s a = Some n" "lst (task_next s) n ys" using Nil.prems(2) by auto
  then obtain t where t: "tasks s a = Some t" "t_next t = n" by (auto simp: task_next_def)
  have aA: "a \<in> A" using Nil.prems(6) by auto
  show ?case
  proof (cases "pre = []")
    case True
    let ?s1 = "s\<lparr>task_ready_head := n\<rparr>"
    have "task_next ?s1 a \<noteq> None" using n by simp
    then obtain s' where s': "set_task_next (Some a) NULL ?s1 = Some s'"
      "task_next s' = (task_next ?s1)(a := Some NULL)" "relinked A ?s1 s'"
      "task_ready_head s' = task_ready_head ?s1" "critical s' = critical ?s1"
      using aA by (rule link_write)
    have "relinked A s s'" by (rule relinked_then [OF relinked_head s'(3)])
    with s' n t True Nil.prems start show ?thesis by (subst ready_q_remove.simps) auto
  next
    case False
    then obtain pre' b where pre: "pre = pre' @ [b]" by (cases pre rule: rev_cases) auto
    have nh: "task_ready_head s \<noteq> start" using Nil.prems(3,4) start False by (cases pre) auto
    have "task_next s b \<noteq> None" "task_next s a \<noteq> None" "b \<in> A" "a \<in> A"
      using Nil.prems(3,6) n(1) pre by auto
    then obtain s' where s':
      "do { s1 \<leftarrow> set_task_next (Some b) n s; set_task_next (Some a) NULL s1 } = Some s'"
      "task_next s' = (task_next s)(b := Some n, a := Some NULL)" "relinked A s s'"
      "task_ready_head s' = task_ready_head s" "critical s' = critical s"
      by (rule link_write2)
    have "lst (task_next s') (task_ready_head s') (pre @ ys)"
      unfolding s'(2,4) using Nil.prems pre n by auto
    with s' t start nh pre Nil.prems(5) show ?thesis by (subst ready_q_remove.simps) auto
  qed
next
  case (Cons x mid)
  then obtain n where x: "start = Some x" "task_next s x = Some n"
    "chain (task_next s) n mid (Some a)" by auto
  then obtain st where st: "tasks s x = Some st" "t_next st = n" by (auto simp: task_next_def)
  have "\<exists>s'. ready_q_remove (Some a) (Some x) n s = Some s' \<and>
      lst (task_next s') (task_ready_head s') ((pre @ [x]) @ mid @ ys) \<and>
      task_next s' a = Some NULL \<and> relinked A s s' \<and> critical s' = critical s"
  proof (rule Cons.IH [OF x(3) Cons.prems(2)])
    show "chain (task_next s) (task_ready_head s) (pre @ [x]) n" using Cons.prems(3) x by auto
  qed (use Cons.prems(4,6) in auto)
  with st x(1) Cons.prems(4) show ?case by (subst ready_q_remove.simps) auto
qed

lemma sorted_map_remove1: "sorted (map f xs) \<Longrightarrow> sorted (map f (remove1 a xs))"
  by (induction xs) (auto dest: notin_set_remove1 [rotated] in_set_remove1 [THEN iffD1, rotated]
      intro: set_remove1_subset [THEN subsetD])

lemma ready_queue_except: "ready_queue s xs \<Longrightarrow> ready_except s a xs"
  by (simp add: ready_queue_def ready_except_def sorted_map_remove1)

lemma ready_except_absent: "a \<notin> set xs \<Longrightarrow> ready_except s a xs = ready_queue s xs"
  by (auto simp: ready_queue_def ready_except_def remove1_idem)

lemma ready_queue_distinct: "ready_queue s xs \<Longrightarrow> distinct xs"
  by (auto simp: ready_queue_def intro: lst_distinct)

lemma ready_queue_relinked:
  assumes "ready_except s a xs" and "relinked A s s'"
    and "lst (task_next s') (task_ready_head s') (remove1 a xs)"
  shows "ready_queue s' (remove1 a xs)"
proof -
  have "distinct xs" using assms(1) by (auto simp: ready_except_def intro: lst_distinct)
  with assms relinked_prio [OF assms(2)] relinked_runnable [OF assms(2)] show ?thesis
    by (auto simp: ready_queue_def ready_except_def cong: map_cong)
qed

text \<open>Updates of the state that the queue does not see.\<close>

lemma ready_queue_cong:
  "tasks s' = tasks s \<Longrightarrow> task_ready_head s' = task_ready_head s \<Longrightarrow> ready_queue s' xs = ready_queue s xs"
  by (simp add: ready_queue_def task_next_cong [of s' s] task_prio_def [abs_def] runnable_def)

lemma ready_except_cong:
  "tasks s' = tasks s \<Longrightarrow> task_ready_head s' = task_ready_head s \<Longrightarrow>
     ready_except s' a xs = ready_except s a xs"
  by (simp add: ready_except_def task_next_cong [of s' s] task_prio_def [abs_def] runnable_def)

lemma ready_except_upd:
  assumes "ready_except s a xs" and "tasks s a = Some t" and "t_next t' = t_next t"
  shows "ready_except (s\<lparr>tasks := (tasks s)(a \<mapsto> t')\<rparr>) a xs"
proof -
  let ?s = "s\<lparr>tasks := (tasks s)(a \<mapsto> t')\<rparr>"
  have d: "distinct xs" using assms(1) by (auto simp: ready_except_def intro: lst_distinct)
  then have "map (task_prio ?s) (remove1 a xs) = map (task_prio s) (remove1 a xs)"
    by (auto simp: task_prio_def)
  then show ?thesis using assms task_next_upd_same [OF assms(2,3)]
    by (auto simp: ready_except_def runnable_def simp del: task_next_upd map_eq_conv)
qed

lemma ready_queue_upd:
  assumes "ready_queue s xs" and "tasks s a = Some t"
    and "t_next t' = t_next t" "t_prio t' = t_prio t" "t_state t' = t_state t"
  shows "ready_queue (s\<lparr>tasks := (tasks s)(a \<mapsto> t')\<rparr>) xs"
proof -
  let ?s = "s\<lparr>tasks := (tasks s)(a \<mapsto> t')\<rparr>"
  have "task_prio ?s = task_prio s" "runnable ?s = runnable s"
    using assms by (auto simp: task_prio_def runnable_def fun_eq_iff)
  then show ?thesis using assms(1) task_next_upd_same [OF assms(2,3)]
    by (simp add: ready_queue_def del: task_next_upd)
qed

lemma ready_queue_upd_absent:
  assumes "ready_queue s xs" and "a \<notin> set xs"
  shows "ready_queue (s\<lparr>tasks := (tasks s)(a \<mapsto> t')\<rparr>) xs"
proof -
  let ?s = "s\<lparr>tasks := (tasks s)(a \<mapsto> t')\<rparr>"
  have "map (task_prio ?s) xs = map (task_prio s) xs" "\<forall>b\<in>set xs. runnable ?s b = runnable s b"
    using assms(2) by (auto simp: task_prio_def runnable_def)
  then show ?thesis using assms by (simp add: ready_queue_def del: map_eq_conv)
qed

lemma remove_from_ready_q_spec:
  assumes q: "ready_except s a xs" and a: "a \<in> set xs"
  shows "\<exists>s'. rx_remove_from_ready_q (Some a) s = Some (OS_OK, s') \<and>
              ready_queue s' (remove1 a xs) \<and> task_next s' a = Some NULL \<and>
              relinked (set xs) s s' \<and> critical s' = (critical s \<and> in_irq s)"
proof -
  obtain pre ys where xs: "xs = pre @ a # ys" "a \<notin> set pre"
    using a by (auto dest: split_list_first)
  let ?s1 = "rx_enter_critical s"
  have l: "lst (task_next ?s1) (task_ready_head ?s1) xs"
    using q by (simp add: ready_except_def critical_eqs)
  then have d: "distinct xs" by (rule lst_distinct)
  have "\<exists>s2. ready_q_remove (Some a) NULL (task_ready_head ?s1) ?s1 = Some s2 \<and>
      lst (task_next s2) (task_ready_head s2) ([] @ pre @ ys) \<and>
      task_next s2 a = Some NULL \<and> relinked (set xs) ?s1 s2 \<and> critical s2 = critical ?s1"
    by (rule ready_q_remove_spec) (use l d xs in auto)
  then obtain s2 where s2: "ready_q_remove (Some a) NULL (task_ready_head ?s1) ?s1 = Some s2"
    "lst (task_next s2) (task_ready_head s2) (remove1 a xs)" "task_next s2 a = Some NULL"
    "relinked (set xs) ?s1 s2" "critical s2 = critical ?s1"
    using xs d by (auto simp: remove1_append)
  let ?s3 = "rx_exit_critical s2"
  have r: "relinked (set xs) s ?s3"
    by (rule relinked_then [OF relinked_critical(1) relinked_then [OF s2(4) relinked_critical(2)]])
  have "ready_queue ?s3 (remove1 a xs)"
    by (rule ready_queue_relinked [OF q r]) (use s2(2) in \<open>simp add: critical_eqs\<close>)
  moreover have "critical ?s3 = (critical s \<and> in_irq s)"
    using s2(5) relinked_fields(18) [OF s2(4)] by (auto simp: critical_eqs)
  ultimately show ?thesis using s2 r by (auto simp: rx_remove_from_ready_q_def Let_def)
qed

text \<open>
  Removing a task that is not in the queue walks past the last node and writes through
  \<open>prev\<close>: harmless on a non-empty queue, a NULL dereference on an empty one.
\<close>

lemma ready_q_remove_absent:
  assumes "lst (task_next s) start suf" and "a \<notin> set suf" and "pre @ suf \<noteq> []"
    and "chain (task_next s) (task_ready_head s) pre start" and "a \<notin> set pre"
    and "prev = (if pre = [] then NULL else Some (last pre))" and "tasks s a \<noteq> None"
    and "insert a (set (pre @ suf)) \<subseteq> A"
  shows "\<exists>s'. ready_q_remove (Some a) prev start s = Some s' \<and>
              task_next s' = (task_next s)(a := Some NULL) \<and>
              task_ready_head s' = task_ready_head s \<and> relinked A s s' \<and> critical s' = critical s"
  using assms
proof (induction suf arbitrary: pre prev start)
  case Nil
  then have start: "start = NULL" and ne: "pre \<noteq> []" by auto
  have l: "lst (task_next s) (task_ready_head s) pre" using Nil.prems start by simp
  obtain pre' b where pre: "pre = pre' @ [b]" using ne by (cases pre rule: rev_cases) auto
  have b: "task_next s b = Some NULL" using l pre by auto
  have "task_next s b \<noteq> None" "task_next s a \<noteq> None" "b \<in> A" "a \<in> A"
    using b pre Nil.prems(7,8) by (auto simp: task_next_def)
  then obtain s' where s':
    "do { s1 \<leftarrow> set_task_next (Some b) NULL s; set_task_next (Some a) NULL s1 } = Some s'"
    "task_next s' = (task_next s)(b := Some NULL, a := Some NULL)" "relinked A s s'"
    "task_ready_head s' = task_ready_head s" "critical s' = critical s"
    by (rule link_write2)
  have "(task_next s)(b := Some NULL) = task_next s" using b by auto
  with s' start pre Nil.prems(6) show ?case by (subst ready_q_remove.simps) simp
next
  case (Cons x suf)
  then obtain n where x: "start = Some x" "task_next s x = Some n" "lst (task_next s) n suf"
    by auto
  then obtain st where st: "tasks s x = Some st" "t_next st = n" by (auto simp: task_next_def)
  have "\<exists>s'. ready_q_remove (Some a) (Some x) n s = Some s' \<and>
      task_next s' = (task_next s)(a := Some NULL) \<and>
      task_ready_head s' = task_ready_head s \<and> relinked A s s' \<and> critical s' = critical s"
  proof (rule Cons.IH [OF x(3), of "pre @ [x]"])
    show "chain (task_next s) (task_ready_head s) (pre @ [x]) n" using Cons.prems(4) x by auto
  qed (use Cons.prems(2,5,7,8) in auto)
  with st x(1) Cons.prems(2) show ?case by (subst ready_q_remove.simps) auto
qed

lemma remove_from_ready_q_absent:
  assumes q: "ready_queue s xs" and ne: "xs \<noteq> []" and a: "a \<notin> set xs" "tasks s a \<noteq> None"
  shows "\<exists>s'. rx_remove_from_ready_q (Some a) s = Some (OS_OK, s') \<and>
              ready_queue s' xs \<and> task_next s' = (task_next s)(a := Some NULL) \<and>
              relinked (insert a (set xs)) s s' \<and> critical s' = (critical s \<and> in_irq s)"
proof -
  let ?s1 = "rx_enter_critical s" and ?A = "insert a (set xs)"
  have l: "lst (task_next ?s1) (task_ready_head ?s1) xs"
    using q by (simp add: ready_queue_def critical_eqs)
  have "\<exists>s2. ready_q_remove (Some a) NULL (task_ready_head ?s1) ?s1 = Some s2 \<and>
      task_next s2 = (task_next ?s1)(a := Some NULL) \<and> task_ready_head s2 = task_ready_head ?s1 \<and>
      relinked ?A ?s1 s2 \<and> critical s2 = critical ?s1"
    by (rule ready_q_remove_absent [OF l, of _ "[]"]) (use ne a in \<open>auto simp: critical_eqs\<close>)
  then obtain s2 where s2: "ready_q_remove (Some a) NULL (task_ready_head ?s1) ?s1 = Some s2"
    "task_next s2 = (task_next ?s1)(a := Some NULL)" "task_ready_head s2 = task_ready_head ?s1"
    "relinked ?A ?s1 s2" "critical s2 = critical ?s1" by blast
  let ?s3 = "rx_exit_critical s2"
  have r: "relinked ?A s ?s3"
    by (rule relinked_then [OF relinked_critical(1) relinked_then [OF s2(4) relinked_critical(2)]])
  have "ready_queue ?s3 xs"
    using ready_queue_relinked [OF ready_queue_except [OF q] r, of a] l s2(2,3) a(1)
    by (simp add: critical_eqs remove1_idem)
  moreover have "critical ?s3 = (critical s \<and> in_irq s)"
    using s2(5) relinked_fields(18) [OF s2(4)] by (auto simp: critical_eqs)
  ultimately show ?thesis using s2 r by (auto simp: rx_remove_from_ready_q_def Let_def)
qed

lemma remove_from_ready_q_empty:
  "task_ready_head s = NULL \<Longrightarrow> rx_remove_from_ready_q p s = None"
  by (simp add: rx_remove_from_ready_q_def critical_eqs ready_q_remove.simps set_task_next_def)


section \<open>Correctness of the dispatcher\<close>

definition dispatched :: "rx_task \<Rightarrow> rx_task" where
  "dispatched t =
     (if t_time_slice t \<noteq> 0 \<and> t_ticks t = 0
      then t\<lparr>t_state := RX_TASK_RUNNING, t_ticks := t_time_slice t\<rparr>
      else t\<lparr>t_state := RX_TASK_RUNNING\<rparr>)"

lemma dispatched_simps [simp]:
  "t_next (dispatched t) = t_next t" "t_prio (dispatched t) = t_prio t"
  "t_state (dispatched t) = RX_TASK_RUNNING" "t_list (dispatched t) = t_list t"
  "t_time_slice (dispatched t) = t_time_slice t" "t_sem (dispatched t) = t_sem t"
  by (simp_all add: dispatched_def)

lemma rx_sched_switch:
  assumes "curr_running_task s = Some c" and "tasks s c \<noteq> None"
    and "task_ready_head s = Some h" and "tasks s h = Some t" and "c \<noteq> h"
  shows "rx_sched s = Some (s\<lparr>tasks := (tasks s)(h \<mapsto> dispatched t), curr_running_task := Some h,
           need_resched := False, critical := critical s \<and> in_irq s\<rparr>)"
  using assms
  by (auto simp: rx_sched_def x86_sched_def rx_switch_to_def Let_def critical_eqs dispatched_def)

lemma rx_sched_stay: "curr_running_task s = task_ready_head s \<Longrightarrow> rx_sched s = Some s"
  by (simp add: rx_sched_def)

lemma ready_queue_sched:
  assumes "ready_queue s (h # xs)" and "tasks s h = Some t"
  shows "ready_queue (s\<lparr>tasks := (tasks s)(h \<mapsto> dispatched t), curr_running_task := c',
           need_resched := nr, critical := cr\<rparr>) (h # xs)"
proof -
  let ?s = "s\<lparr>tasks := (tasks s)(h \<mapsto> dispatched t)\<rparr>"
  have "task_prio ?s = task_prio s" "\<And>b. runnable s b \<Longrightarrow> runnable ?s b"
    using assms(2) by (auto simp: task_prio_def runnable_def fun_eq_iff split: option.splits)
  moreover have "task_next ?s = task_next s" by (rule task_next_upd_same) (use assms(2) in auto)
  ultimately have "ready_queue ?s (h # xs)"
    using assms(1) by (simp add: ready_queue_def del: task_next_upd)
  then show ?thesis by (subst ready_queue_cong [where s = ?s]) simp_all
qed

text \<open>The whole dispatcher on a well-formed, non-empty queue.\<close>

lemma rx_sched_spec:
  assumes q: "ready_queue s (h # xs)" and c: "curr_running_task s = Some c" "tasks s c \<noteq> None"
  shows "\<exists>s'. rx_sched s = Some s' \<and> curr_running_task s' = Some h \<and> ready_queue s' (h # xs) \<and>
              task_next s' = task_next s \<and> sems s' = sems s \<and>
              (\<forall>b. b \<noteq> h \<longrightarrow> tasks s' b = tasks s b) \<and>
              (c \<noteq> h \<longrightarrow> (\<exists>t. tasks s h = Some t \<and> tasks s' h = Some (dispatched t)) \<and>
                 \<not> need_resched s')"
proof (cases "c = h")
  case True
  have "task_ready_head s = Some h" using q by (simp add: ready_queue_def)
  with True c q show ?thesis by (auto simp: rx_sched_stay)
next
  case False
  obtain t where t: "tasks s h = Some t"
    using q by (auto simp: ready_queue_def task_next_def)
  have h: "task_ready_head s = Some h" using q by (simp add: ready_queue_def)
  have "task_next (s\<lparr>tasks := (tasks s)(h \<mapsto> dispatched t)\<rparr>) = task_next s"
    by (rule task_next_upd_same) (use t in auto)
  with rx_sched_switch [OF c h t False] ready_queue_sched [OF q t] t False show ?thesis
    by simp
qed

text \<open>A caller that has left the queue loses the processor to the head of the queue.\<close>

lemma sched_away:
  assumes q: "ready_queue s (h # ys)" and c: "curr_running_task s = Some c" "tasks s c \<noteq> None" "c \<noteq> h"
  shows "\<exists>u s'. tasks s h = Some u \<and> sched_then k s = Some (Sleeps, s') \<and> ready_queue s' (h # ys) \<and>
     s' = s\<lparr>tasks := (tasks s)(h \<mapsto> dispatched u), curr_running_task := Some h,
            need_resched := False, critical := critical s \<and> in_irq s\<rparr>"
proof -
  have h: "task_ready_head s = Some h" using q by (auto simp: ready_queue_def)
  obtain u where u: "tasks s h = Some u" using q by (auto simp: ready_queue_def task_next_eq_Some)
  show ?thesis
    using rx_sched_switch [OF c(1,2) h u c(3)] ready_queue_sched [OF q u] u c h
    by (simp add: sched_then_def)
qed

text \<open>
  A task that is being put to sleep: its fields are rewritten by \<open>f\<close>, then it is taken out of
  the ready queue.
\<close>

lemma depart_spec:
  assumes q: "ready_queue s xs" and c: "c \<in> set xs" "tasks s c = Some t"
    and f: "t_next (f t) = t_next t"
  defines "s1 \<equiv> s\<lparr>tasks := (tasks s)(c \<mapsto> f t)\<rparr>"
  shows "\<exists>s'. rx_remove_from_ready_q (Some c) s1 = Some (OS_OK, s') \<and>
              ready_queue s' (remove1 c xs) \<and> tasks s' c = Some ((f t)\<lparr>t_next := NULL\<rparr>) \<and>
              relinked (set xs) s1 s' \<and> critical s' = (critical s \<and> in_irq s)"
proof -
  have "ready_except s1 c xs"
    unfolding s1_def by (rule ready_except_upd [OF ready_queue_except [OF q] c(2)]) (simp add: f)
  from remove_from_ready_q_spec [OF this c(1)] obtain s' where
    s': "rx_remove_from_ready_q (Some c) s1 = Some (OS_OK, s')" "ready_queue s' (remove1 c xs)"
      "task_next s' c = Some NULL" "relinked (set xs) s1 s'" "critical s' = (critical s1 \<and> in_irq s1)"
    by blast
  have "tasks s1 c = Some (f t)" by (simp add: s1_def)
  from relinked_task [OF s'(4) this] obtain n where n: "tasks s' c = Some ((f t)\<lparr>t_next := n\<rparr>)" by blast
  with s'(3) have "n = NULL" by (simp add: task_next_def)
  with n s' show ?thesis by (simp add: s1_def)
qed

text \<open>With nobody to run the context switch reads through a NULL pointer.\<close>

lemma rx_sched_idle:
  "task_ready_head s = NULL \<Longrightarrow> curr_running_task s \<noteq> NULL \<Longrightarrow> rx_sched s = None"
  by (simp add: rx_sched_def x86_sched_def Let_def critical_eqs Option.bind_eq_None_conv)


section \<open>Properties\<close>

text \<open>Concrete states for the examples: task 1 runs; 2 and 3 are ready; 4 and 5 are not queued.\<close>

definition demo_task :: "task_state \<Rightarrow> int \<Rightarrow> ptr \<Rightarrow> rx_task" where
  "demo_task st p n =
     blank_task\<lparr>t_state := st, t_prio := p, t_orig_prio := p, t_next := n\<rparr>"

lemma demo_task_simps [simp]:
  "t_state (demo_task st p n) = st" "t_prio (demo_task st p n) = p"
  "t_next (demo_task st p n) = n" "t_orig_prio (demo_task st p n) = p"
  "t_time_slice (demo_task st p n) = 0" "t_timer (demo_task st p n) = NULL"
  "t_timeout (demo_task st p n) = 0" "t_list (demo_task st p n) = NULL"
  by (simp_all add: demo_task_def blank_task_def)

definition demo_ready :: kstate where
  "demo_ready = blank_state\<lparr>
     tasks := [1 \<mapsto> demo_task RX_TASK_RUNNING 2 (Some 2), 2 \<mapsto> demo_task RX_TASK_READY 5 (Some 3),
               3 \<mapsto> demo_task RX_TASK_READY 7 NULL, 4 \<mapsto> demo_task RX_TASK_READY 5 NULL,
               5 \<mapsto> demo_task RX_TASK_SUSPEND 5 NULL],
     task_ready_head := Some 1, curr_running_task := Some 1\<rparr>"

lemma demo_ready_simps [simp]:
  "tasks demo_ready = [1 \<mapsto> demo_task RX_TASK_RUNNING 2 (Some 2),
     2 \<mapsto> demo_task RX_TASK_READY 5 (Some 3), 3 \<mapsto> demo_task RX_TASK_READY 7 NULL,
     4 \<mapsto> demo_task RX_TASK_READY 5 NULL, 5 \<mapsto> demo_task RX_TASK_SUSPEND 5 NULL]"
  "task_ready_head demo_ready = Some 1" "curr_running_task demo_ready = Some 1"
  "task_list_head demo_ready = NULL" "in_irq demo_ready = False" "critical demo_ready = False"
  by (simp_all add: demo_ready_def blank_state_def)

lemma demo_ready_queue: "ready_queue demo_ready [1, 2, 3]"
  by (simp add: ready_queue_def task_next_def task_prio_def runnable_def)

lemma insert_prio_filter:
  "sorted (map pr xs) \<Longrightarrow>
     insert_prio pr a xs = filter (\<lambda>x. pr x \<le> pr a) xs @ a # filter (\<lambda>x. pr a < pr x) xs"
proof (induction xs)
  case (Cons x xs)
  have "filter (\<lambda>y. pr y \<le> pr a) xs = []" "filter (\<lambda>y. pr a < pr y) xs = xs" if "pr a < pr x"
    using Cons.prems that by (auto simp: filter_empty_conv filter_id_conv)
  with Cons show ?case by auto
qed simp

text \<open>
  C1. \<^verbatim>\<open>__rx_add_to_ready_q\<close> refines insertion into a priority queue: on a well-formed
  ready queue it always returns OS_OK, the new queue holds first the tasks that are at least
  as urgent as the new one in their old order, then the new task, then the less urgent ones,
  so the queue stays sorted and tasks of one priority are served first come first served;
  tasks outside the queue, and every other part of the kernel state, are unchanged.
\<close>

theorem add_to_ready_q_refines:
  assumes "ready_queue s xs" and "runnable s a" and "a \<notin> set xs"
  shows "\<exists>s'. rx_add_to_ready_q (Some a) s = Some (OS_OK, s') \<and>
              ready_queue s' (filter (\<lambda>x. task_prio s x \<le> task_prio s a) xs @ a #
                              filter (\<lambda>x. task_prio s a < task_prio s x) xs) \<and>
              relinked (insert a (set xs)) s s'"
proof -
  have "sorted (map (task_prio s) xs)" using assms(1) by (simp add: ready_queue_def)
  from add_to_ready_q_spec [OF assms] insert_prio_filter [OF this] show ?thesis by auto
qed

theorem add_to_ready_q_refines_witness:
  "\<exists>s'. rx_add_to_ready_q (Some 4) demo_ready = Some (OS_OK, s') \<and> ready_queue s' [1, 2, 4, 3]"
  using add_to_ready_q_refines [OF demo_ready_queue, of 4]
  by (auto simp: task_prio_def runnable_def)

text \<open>
  C2. The scheduler is a priority scheduler: with a well-formed, non-empty ready queue
  \<^verbatim>\<open>rx_sched\<close> returns, and afterwards the running task is in state RUNNING (or was
  running already), is the head of an unchanged queue, and no queued task is more urgent.
\<close>

theorem rx_sched_most_urgent:
  assumes "ready_queue s (h # xs)" and "curr_running_task s = Some c" and "tasks s c \<noteq> None"
  shows "\<exists>s' t. rx_sched s = Some s' \<and> curr_running_task s' = Some h \<and> ready_queue s' (h # xs) \<and>
                tasks s' h = Some t \<and> (c \<noteq> h \<longrightarrow> t_state t = RX_TASK_RUNNING \<and> \<not> need_resched s') \<and>
                (\<forall>x\<in>set xs. task_prio s' h \<le> task_prio s' x)"
proof -
  obtain s' where s': "rx_sched s = Some s'" "curr_running_task s' = Some h" "ready_queue s' (h # xs)"
    "c \<noteq> h \<longrightarrow> (\<exists>t. tasks s h = Some t \<and> tasks s' h = Some (dispatched t)) \<and> \<not> need_resched s'"
    using rx_sched_spec [OF assms] by blast
  obtain t where t: "tasks s' h = Some t"
    using s'(3) by (auto simp: ready_queue_def task_next_def)
  have "\<forall>x\<in>set xs. task_prio s' h \<le> task_prio s' x" using s'(3) by (auto simp: ready_queue_def)
  with s' t show ?thesis by (intro exI [of _ s'] exI [of _ t]) auto
qed

theorem rx_sched_most_urgent_witness:
  "\<exists>s' t. rx_sched (demo_ready\<lparr>curr_running_task := Some 5\<rparr>) = Some s' \<and>
      curr_running_task s' = Some 1 \<and> ready_queue s' [1, 2, 3] \<and>
      tasks s' 1 = Some t \<and> t_state t = RX_TASK_RUNNING"
proof -
  have "ready_queue (demo_ready\<lparr>curr_running_task := Some 5\<rparr>) [1, 2, 3]"
    using demo_ready_queue by (subst ready_queue_cong [where s = demo_ready]) simp_all
  from rx_sched_most_urgent [OF this, of 5] show ?thesis by auto
qed

end
