(* ===== verification/RX_Task.thy ===== *)
theory RX_Task
  imports RX_Ready
begin

text \<open>
  Task management (\<^verbatim>\<open>kernel/rx_task.c\<close>): creation, abortion, completion, priorities,
  deletion, suspension and resumption, with what each does to the ready queue and to the
  global list of tasks (\<^verbatim>\<open>__rx_task_list_head\<close>, linked through \<^verbatim>\<open>list\<close>).
\<close>

section \<open>Operations\<close>

text \<open>
  \<^verbatim>\<open>__rx_init_tcb__\<close> of \<^verbatim>\<open>arch/x86/osport.h\<close> pushes the flags and the frame
  pointer on the new stack, two words of four bytes, and stores the resulting stack pointer.
\<close>

definition rx_init_tcb :: "rx_task \<Rightarrow> rx_task" where
  "rx_init_tcb t = t\<lparr>t_curr_stack_ptr := t_stack_start_ptr t - 8\<rparr>"

text \<open>The fields \<^verbatim>\<open>rx_create_task\<close> writes; the others keep what the storage held.\<close>

definition fresh_task :: "string \<Rightarrow> int \<Rightarrow> int \<Rightarrow> int \<Rightarrow> nat \<Rightarrow> task_state \<Rightarrow> int \<Rightarrow> rx_task \<Rightarrow> rx_task"
  where
  "fresh_task name prio stack stack_size func st ts t =
     (let prio' = (if prio > RX_TASK_LEAST_PRIO then RX_TASK_LEAST_PRIO else prio);
          t1 = t\<lparr>t_name := name, t_curr_stack_ptr := stack, t_stack_start_ptr := stack,
                 t_prio := prio', t_orig_prio := prio', t_stack_size := stack_size,
                 t_func := func, t_state := st, t_timeout := RX_TIMER_OFF,
                 t_time_slice := ts, t_ticks := ts, t_timer := NULL, t_list := NULL\<rparr>
      in (rx_init_tcb t1)\<lparr>t_ip := func\<rparr>)"

text \<open>Appending to the global list: the walk to its tail and the link behind it.\<close>

definition append_task_list :: "ptr \<Rightarrow> kstate \<Rightarrow> kstate option" where
  "append_task_list tcb s =
     (case task_list_head s of
        None \<Rightarrow> Some (s\<lparr>task_list_head := tcb\<rparr>)
      | Some h \<Rightarrow> do { l \<leftarrow> walk_last (task_link s) h; set_task_link (Some l) tcb s })"

definition rx_create_task ::
    "ptr \<Rightarrow> string \<Rightarrow> int \<Rightarrow> int option \<Rightarrow> int \<Rightarrow> nat \<Rightarrow> task_state \<Rightarrow> int \<Rightarrow> kstate \<Rightarrow>
     (int \<times> kstate) option" where
  "rx_create_task tcb task_name prio stack_ptr stack_size func task_state time_slice s =
     (if length task_name > RX_TASK_STR_LEN then Some (OS_ERR, s)
      else
        let s1 = rx_enter_critical s in
        if stack_ptr = None \<and>
           rx_stack_start_ptr s1 - CONFIG_SYSTEM_STACK_SIZE > rx_curr_stack_ptr s1 - stack_size
        then Some (OS_ERR, rx_exit_critical s1)
        else
          do { let stack = (case stack_ptr of None \<Rightarrow> rx_curr_stack_ptr s1
                                            | Some p \<Rightarrow> p + stack_size);
               let s2 = (case stack_ptr of
                           None \<Rightarrow> s1\<lparr>rx_curr_stack_ptr := rx_curr_stack_ptr s1 - (stack_size + 4)\<rparr>
                         | Some _ \<Rightarrow> s1);
               s3 \<leftarrow> upd_task tcb (fresh_task task_name prio stack stack_size func task_state
                                     time_slice) s2;
               s4 \<leftarrow> (if task_state = RX_TASK_READY
                      then map_option snd (rx_add_to_ready_q tcb s3) else Some s3);
               s5 \<leftarrow> append_task_list tcb s4;
               Some (OS_OK, rx_exit_critical (s5\<lparr>curr_num_task := curr_num_task s5 + 1\<rparr>)) })"

definition rx_abort_task :: "ptr \<Rightarrow> kstate \<Rightarrow> (int \<times> kstate) option" where
  "rx_abort_task tcb s =
     (if tcb = curr_running_task s then Some (OS_ERR, s)
      else do { t \<leftarrow> deref (tasks s) tcb;
                s1 \<leftarrow> (if t_state t = RX_TASK_READY
                       then map_option snd (rx_remove_from_ready_q tcb s) else Some s);
                s2 \<leftarrow> upd_task tcb (\<lambda>t. t\<lparr>t_state := RX_TASK_ABORT\<rparr>) s1;
                Some (OS_OK, s2) })"

definition rx_complete_task :: "ptr \<Rightarrow> kstate \<Rightarrow> (int call \<times> kstate) option" where
  "rx_complete_task tcb s =
     (if tcb \<noteq> curr_running_task s then Some (Returns OS_ERR, s)
      else do { (_, s1) \<leftarrow> rx_remove_from_ready_q tcb s;
                s2 \<leftarrow> upd_task tcb (\<lambda>t. t\<lparr>t_state := RX_TASK_COMPLETE\<rparr>) s1;
                sched_then (\<lambda>s. Some (Returns OS_OK, s)) s2 })"

definition rx_set_task_prio :: "ptr \<Rightarrow> int \<Rightarrow> kstate \<Rightarrow> (int \<times> kstate) option" where
  "rx_set_task_prio tcb prio s =
     do { t \<leftarrow> deref (tasks s) tcb;
          (if prio = t_prio t \<or> t_prio t = task_state_code RX_TASK_COMPLETE
              \<or> t_prio t = task_state_code RX_TASK_ABORT
           then Some (0, s)
           else do { s1 \<leftarrow> upd_task tcb (\<lambda>t. t\<lparr>t_prio := prio\<rparr>) s;
                     (if t_state t = RX_TASK_READY
                      then do { (_, s2) \<leftarrow> rx_remove_from_ready_q tcb s1;
                                (_, s3) \<leftarrow> rx_add_to_ready_q tcb s2;
                                Some (OS_OK, s3) }
                      else Some (OS_OK, s1)) }) }"

text \<open>The search for the predecessor in the global list.\<close>

partial_function (option) task_list_pred :: "ptr \<Rightarrow> addr \<Rightarrow> kstate \<Rightarrow> addr option" where
  "task_list_pred tcb tmp s =
     do { t \<leftarrow> tasks s tmp;
          (case t_list t of
             None \<Rightarrow> Some tmp
           | Some n \<Rightarrow> if Some n = tcb then Some tmp else task_list_pred tcb n s) }"

definition rx_delete_task :: "ptr \<Rightarrow> kstate \<Rightarrow> (int \<times> kstate) option" where
  "rx_delete_task tcb s =
     do { t \<leftarrow> deref (tasks s) tcb;
          (if t_state t = RX_TASK_SUSPEND \<or> t_state t = RX_TASK_READY then Some (OS_ERR, s)
           else if tcb = task_list_head s
           then Some (OS_OK, s\<lparr>task_list_head := t_list t\<rparr>)
           else do { h \<leftarrow> task_list_head s;
                     tmp \<leftarrow> task_list_pred tcb h s;
                     tt \<leftarrow> tasks s tmp;
                     victim \<leftarrow> deref (tasks s) (t_list tt);
                     s1 \<leftarrow> set_task_link (Some tmp) (t_list victim) s;
                     Some (OS_OK, s1) }) }"

definition rx_suspend_task :: "ptr \<Rightarrow> kstate \<Rightarrow> (int call \<times> kstate) option" where
  "rx_suspend_task tcb s =
     (case tcb of
        None \<Rightarrow>
          do { (_, s1) \<leftarrow> rx_remove_from_ready_q (curr_running_task s) s;
               s2 \<leftarrow> upd_task (curr_running_task s1) (\<lambda>t. t\<lparr>t_state := RX_TASK_SUSPEND\<rparr>) s1;
               sched_then (\<lambda>s. Some (Returns OS_OK, s)) s2 }
      | Some _ \<Rightarrow>
          do { t \<leftarrow> deref (tasks s) tcb;
               s2 \<leftarrow> (if t_state t = RX_TASK_READY
                      then do { (_, s1) \<leftarrow> rx_remove_from_ready_q tcb s;
                                upd_task tcb (\<lambda>t. t\<lparr>t_state := RX_TASK_SUSPEND\<rparr>) s1 }
                      else Some s);
               Some (Returns OS_OK, s2) })"

definition rx_resume_task :: "ptr \<Rightarrow> kstate \<Rightarrow> (int \<times> kstate) option" where
  "rx_resume_task tcb s =
     do { t \<leftarrow> deref (tasks s) tcb;
          (if t_state t \<noteq> RX_TASK_SUSPEND then Some (OS_ERR, s)
           else do { s1 \<leftarrow> upd_task tcb (\<lambda>t. t\<lparr>t_state := RX_TASK_READY\<rparr>) s;
                     (_, s2) \<leftarrow> rx_add_to_ready_q tcb s1;
                     Some (OS_OK, s2) }) }"


section \<open>Making a task ready\<close>

text \<open>
  The step every wake-up of the kernel ends with: set the state to ready (and clear what the
  task was waiting for) and insert the task. \<open>f\<close> is the update of the other fields.
\<close>

lemma wake_spec:
  assumes q: "ready_queue s xs" and a: "a \<notin> set xs" "tasks s a = Some t"
    and f: "t_state (f t) = RX_TASK_READY"
  defines "s1 \<equiv> s\<lparr>tasks := (tasks s)(a \<mapsto> f t)\<rparr>"
  shows "\<exists>s'. rx_add_to_ready_q (Some a) s1 = Some (OS_OK, s') \<and>
              ready_queue s' (insert_prio (task_prio s1) a xs) \<and>
              relinked (insert a (set xs)) s1 s' \<and> critical s' = (critical s \<and> in_irq s)"
proof -
  have "ready_queue s1 xs" unfolding s1_def using q a(1) by (rule ready_queue_upd_absent)
  moreover have "runnable s1 a" using f by (simp add: s1_def runnable_def)
  ultimately show ?thesis using add_to_ready_q_spec [of s1 xs a] a(1) by (simp add: s1_def)
qed

lemma resume_task_spec:
  assumes q: "ready_queue s xs" and a: "a \<notin> set xs" "tasks s a = Some t"
    and st: "t_state t = RX_TASK_SUSPEND"
  shows "\<exists>s' n. rx_resume_task (Some a) s = Some (OS_OK, s') \<and>
               ready_queue s' (insert_prio (task_prio s) a xs) \<and>
               tasks s' a = Some (t\<lparr>t_state := RX_TASK_READY, t_next := n\<rparr>) \<and>
               (\<forall>b. b \<notin> insert a (set xs) \<longrightarrow> tasks s' b = tasks s b) \<and>
               (\<forall>b. b \<noteq> a \<longrightarrow> same_but_next (tasks s b) (tasks s' b)) \<and>
               curr_running_task s' = curr_running_task s \<and> sems s' = sems s"
proof -
  let ?s1 = "s\<lparr>tasks := (tasks s)(a \<mapsto> t\<lparr>t_state := RX_TASK_READY\<rparr>)\<rparr>"
  obtain s' where s': "rx_add_to_ready_q (Some a) ?s1 = Some (OS_OK, s')"
    "ready_queue s' (insert_prio (task_prio ?s1) a xs)" "relinked (insert a (set xs)) ?s1 s'"
    using wake_spec [OF q a, of "\<lambda>t. t\<lparr>t_state := RX_TASK_READY\<rparr>"] by auto
  have pr: "insert_prio (task_prio ?s1) a xs = insert_prio (task_prio s) a xs"
    by (rule insert_prio_cong) (use a in \<open>auto simp: task_prio_def\<close>)
  obtain n where n: "tasks s' a = Some (t\<lparr>t_state := RX_TASK_READY, t_next := n\<rparr>)"
    using relinked_task [OF s'(3), of a] by auto
  have out: "\<forall>b. b \<notin> insert a (set xs) \<longrightarrow> tasks s' b = tasks s b"
    using relinked_outside [OF s'(3)] by auto
  have cur: "curr_running_task s' = curr_running_task s" "sems s' = sems s"
    using relinked_fields(3,11) [OF s'(3)] by simp_all
  have same: "\<forall>b. b \<noteq> a \<longrightarrow> same_but_next (tasks s b) (tasks s' b)"
  proof (intro allI impI)
    fix b assume "b \<noteq> a"
    then show "same_but_next (tasks s b) (tasks s' b)" using relinked_same [OF s'(3), of b] by simp
  qed
  have "rx_resume_task (Some a) s = Some (OS_OK, s')"
    using a(2) st s'(1) by (simp add: rx_resume_task_def)
  with s'(2) pr n out cur same show ?thesis by auto
qed

lemma resume_task_refused:
  "tasks s a = Some t \<Longrightarrow> t_state t \<noteq> RX_TASK_SUSPEND \<Longrightarrow> rx_resume_task (Some a) s = Some (OS_ERR, s)"
  by (simp add: rx_resume_task_def)


section \<open>Taking a task out of the queue\<close>

lemma suspend_other_spec:
  assumes q: "ready_queue s xs" and a: "a \<in> set xs" "tasks s a = Some t"
    and st: "t_state t = RX_TASK_READY"
  shows "\<exists>s'. rx_suspend_task (Some a) s = Some (Returns OS_OK, s') \<and>
              ready_queue s' (remove1 a xs) \<and>
              tasks s' a = Some (t\<lparr>t_next := NULL, t_state := RX_TASK_SUSPEND\<rparr>) \<and>
              (\<forall>b. b \<notin> set xs \<longrightarrow> tasks s' b = tasks s b) \<and>
              (\<forall>b. task_prio s' b = task_prio s b) \<and>
              (\<forall>b. b \<noteq> a \<longrightarrow> same_but_next (tasks s b) (tasks s' b)) \<and>
              curr_running_task s' = curr_running_task s \<and> sems s' = sems s"
proof -
  obtain s1 where s1: "rx_remove_from_ready_q (Some a) s = Some (OS_OK, s1)"
    "ready_queue s1 (remove1 a xs)" "task_next s1 a = Some NULL" "relinked (set xs) s s1"
    using remove_from_ready_q_spec [OF ready_queue_except [OF q] a(1)] by blast
  obtain n where "tasks s1 a = Some (t\<lparr>t_next := n\<rparr>)" using relinked_task [OF s1(4) a(2)] by auto
  with s1(3) have t1: "tasks s1 a = Some (t\<lparr>t_next := NULL\<rparr>)" by (auto simp: task_next_def)
  let ?s2 = "s1\<lparr>tasks := (tasks s1)(a \<mapsto> t\<lparr>t_next := NULL, t_state := RX_TASK_SUSPEND\<rparr>)\<rparr>"
  have na: "a \<notin> set (remove1 a xs)" using ready_queue_distinct [OF q] by simp
  have "rx_suspend_task (Some a) s = Some (Returns OS_OK, ?s2)"
    using a(2) st s1(1) t1 by (simp add: rx_suspend_task_def)
  moreover have "ready_queue ?s2 (remove1 a xs)" by (rule ready_queue_upd_absent [OF s1(2) na])
  moreover have "\<forall>b. task_prio ?s2 b = task_prio s b"
    using relinked_prio [OF s1(4)] a(2) by (auto simp: task_prio_def)
  moreover have "\<forall>b. b \<notin> set xs \<longrightarrow> tasks ?s2 b = tasks s b"
    using relinked_outside [OF s1(4)] a(1) by auto
  moreover have "\<forall>b. b \<noteq> a \<longrightarrow> same_but_next (tasks s b) (tasks ?s2 b)"
    using relinked_same [OF s1(4)] by simp
  ultimately show ?thesis using relinked_fields(3,11) [OF s1(4)] by auto
qed

lemma suspend_not_ready:
  "tasks s a = Some t \<Longrightarrow> t_state t \<noteq> RX_TASK_READY \<Longrightarrow>
     rx_suspend_task (Some a) s = Some (Returns OS_OK, s)"
  by (simp add: rx_suspend_task_def)

text \<open>
  Giving up the processor for good (\<^verbatim>\<open>rx_suspend_task(MYSELF)\<close>,
  \<^verbatim>\<open>rx_complete_task\<close>): the head of the remaining queue runs next.
\<close>

lemma leave_cpu_spec:
  assumes q: "ready_queue s xs" and c: "curr_running_task s = Some c" "c \<in> set xs"
    and rest: "remove1 c xs = h # ys" and t: "tasks s c = Some t"
  shows "\<exists>s' u. do { (_, s1) \<leftarrow> rx_remove_from_ready_q (Some c) s;
                   s2 \<leftarrow> upd_task (Some c) (\<lambda>t. t\<lparr>t_state := st\<rparr>) s1;
                   sched_then k s2 } = Some (Sleeps, s') \<and>
              curr_running_task s' = Some h \<and> ready_queue s' (h # ys) \<and>
              tasks s' c = Some (t\<lparr>t_next := NULL, t_state := st\<rparr>) \<and>
              tasks s' h = Some u \<and> t_state u = RX_TASK_RUNNING \<and>
              (\<forall>b. b \<notin> set xs \<longrightarrow> tasks s' b = tasks s b) \<and>
              (\<forall>b. b \<noteq> c \<longrightarrow> map_option t_sem (tasks s' b) = map_option t_sem (tasks s b)) \<and> sems s' = sems s"
proof -
  obtain s1 where s1: "rx_remove_from_ready_q (Some c) s = Some (OS_OK, s1)"
    "ready_queue s1 (h # ys)" "task_next s1 c = Some NULL" "relinked (set xs) s s1"
    using remove_from_ready_q_spec [OF ready_queue_except [OF q] c(2)] rest by auto
  obtain n where "tasks s1 c = Some (t\<lparr>t_next := n\<rparr>)" using relinked_task [OF s1(4) t] by auto
  with s1(3) have t1: "tasks s1 c = Some (t\<lparr>t_next := NULL\<rparr>)" by (auto simp: task_next_def)
  let ?s2 = "s1\<lparr>tasks := (tasks s1)(c \<mapsto> t\<lparr>t_next := NULL, t_state := st\<rparr>)\<rparr>"
  have dx: "distinct xs" using q by (rule ready_queue_distinct)
  have "c \<notin> set (remove1 c xs)" using dx by simp
  then have nc: "c \<notin> set (h # ys)" unfolding rest .
  have "set (remove1 c xs) \<subseteq> set xs" by (rule set_remove1_subset)
  then have hx: "h \<in> set xs" unfolding rest by simp
  have q2: "ready_queue ?s2 (h # ys)" by (rule ready_queue_upd_absent [OF s1(2) nc])
  have cur: "curr_running_task ?s2 = Some c" using relinked_fields(11) [OF s1(4)] c(1) by simp
  have hd: "task_ready_head ?s2 = Some h" using q2 by (simp add: ready_queue_def)
  obtain s' where s': "rx_sched ?s2 = Some s'" "curr_running_task s' = Some h"
    "ready_queue s' (h # ys)" "\<forall>b. b \<noteq> h \<longrightarrow> tasks s' b = tasks ?s2 b"
    "\<exists>u. tasks ?s2 h = Some u \<and> tasks s' h = Some (dispatched u)" "sems s' = sems ?s2"
    using rx_sched_spec [OF q2 cur] nc by auto
  have "\<forall>b. b \<notin> set xs \<longrightarrow> tasks s' b = tasks s b"
  proof (intro allI impI)
    fix b assume "b \<notin> set xs"
    with c(2) hx have "b \<noteq> h" "b \<noteq> c" "tasks s1 b = tasks s b"
      using relinked_outside [OF s1(4)] by auto
    with s'(4) show "tasks s' b = tasks s b" by simp
  qed
  moreover have "tasks s' c = Some (t\<lparr>t_next := NULL, t_state := st\<rparr>)" using s'(4) nc by simp
  moreover have "sched_then k ?s2 = Some (Sleeps, s')"
    using cur hd nc s'(1) by (simp add: sched_then_def)
  moreover have "map_option t_sem (tasks s' b) = map_option t_sem (tasks s b)" if "b \<noteq> c" for b
    using s'(4,5) that same_but_next_sem [OF relinked_same [OF s1(4), of b]] by (cases "b = h") auto
  ultimately show ?thesis using s1(1) t1 s'(2,3,5,6) relinked_fields(3) [OF s1(4)] by auto
qed


section \<open>The global list of tasks\<close>

lemma set_task_link_ready:
  assumes "set_task_link p q s = Some s'" and "ready_queue s xs"
  shows "ready_queue s' xs"
proof -
  obtain a t where "p = Some a" "tasks s a = Some t" "s' = s\<lparr>tasks := (tasks s)(a \<mapsto> t\<lparr>t_list := q\<rparr>)\<rparr>"
    using assms(1) by (auto simp: set_task_link_def upd_task_def split: Option.bind_splits)
  with assms(2) show ?thesis by (auto intro: ready_queue_upd)
qed

lemma set_task_link_task:
  assumes "set_task_link (Some b) q s = Some s'"
  shows "tasks s' a = (if a = b then map_option (\<lambda>t. t\<lparr>t_list := q\<rparr>) (tasks s a) else tasks s a)"
    and "curr_num_task s' = curr_num_task s" and "task_list_head s' = task_list_head s"
    and "curr_running_task s' = curr_running_task s"
  using assms by (auto simp: set_task_link_def upd_task_def split: Option.bind_splits)

lemma append_task_list_spec:
  assumes "lst (task_link s) (task_list_head s) ls" and "a \<notin> set ls"
    and "task_link s a = Some NULL" and "ready_queue s xs"
  shows "\<exists>s'. append_task_list (Some a) s = Some s' \<and>
              lst (task_link s') (task_list_head s') (ls @ [a]) \<and> ready_queue s' xs \<and>
              tasks s' a = tasks s a \<and> curr_num_task s' = curr_num_task s \<and>
              (\<forall>b. task_prio s' b = task_prio s b) \<and> (\<forall>b. tasks s' b = None \<longleftrightarrow> tasks s b = None) \<and>
              curr_running_task s' = curr_running_task s"
proof (cases ls)
  case Nil
  let ?s' = "s\<lparr>task_list_head := Some a\<rparr>"
  have "task_link ?s' = task_link s" by (rule task_link_cong) simp
  moreover have "ready_queue ?s' xs" using assms(4) by (subst ready_queue_cong [where s = s]) auto
  ultimately show ?thesis using Nil assms by (simp add: append_task_list_def task_prio_def)
next
  case (Cons h ls')
  then have h: "task_list_head s = Some h" using assms(1) by simp
  obtain b s' where s': "walk_last (task_link s) h = Some b"
    "set_task_link (Some b) (Some a) s = Some s'" "b \<in> set ls"
    "lst (task_link s') (Some h) (ls @ [a])"
    using tlink.walk_append [of s h ls a] assms h by auto
  have "b \<noteq> a" using s'(3) assms(2) by auto
  moreover have "task_prio s' c = task_prio s c" for c
    using set_task_link_task(1) [OF s'(2)] by (cases "tasks s c") (auto simp: task_prio_def)
  ultimately show ?thesis
    using s' h set_task_link_task [OF s'(2)] set_task_link_ready [OF s'(2) assms(4)]
    by (auto simp: append_task_list_def)
qed

lemma create_task_spec:
  assumes q: "ready_queue s xs" and a: "a \<notin> set xs" "tasks s a = Some t0"
    and ls: "lst (task_link s) (task_list_head s) ls" "a \<notin> set ls"
    and len: "length name \<le> RX_TASK_STR_LEN"
    and stk: "stack_ptr \<noteq> None \<or>
      rx_stack_start_ptr s - CONFIG_SYSTEM_STACK_SIZE \<le> rx_curr_stack_ptr s - stack_size"
  shows "\<exists>s' t. rx_create_task (Some a) name prio stack_ptr stack_size func RX_TASK_READY slc s
                = Some (OS_OK, s') \<and>
               ready_queue s' (insert_prio (task_prio s') a xs) \<and>
               lst (task_link s') (task_list_head s') (ls @ [a]) \<and>
               curr_num_task s' = curr_num_task s + 1 \<and> \<not> (critical s' \<and> \<not> in_irq s') \<and>
               tasks s' a = Some t \<and> t_prio t = min prio RX_TASK_LEAST_PRIO \<and>
               t_orig_prio t = t_prio t \<and> t_state t = RX_TASK_READY \<and> t_ip t = func \<and>
               t_ticks t = slc \<and> t_time_slice t = slc \<and> t_name t = name \<and>
               (\<forall>b. b \<noteq> a \<longrightarrow> task_prio s' b = task_prio s b) \<and>
               (\<forall>b. tasks s' b = None \<longleftrightarrow> tasks s b = None) \<and>
               curr_running_task s' = curr_running_task s"
proof -
  define stack where "stack = (case stack_ptr of None \<Rightarrow> rx_curr_stack_ptr s | Some p \<Rightarrow> p + stack_size)"
  define s2 where "s2 = (case stack_ptr of
      None \<Rightarrow> (rx_enter_critical s)\<lparr>rx_curr_stack_ptr := rx_curr_stack_ptr s - (stack_size + 4)\<rparr>
    | Some _ \<Rightarrow> rx_enter_critical s)"
  define f where "f = fresh_task name prio stack stack_size func RX_TASK_READY slc"
  have s2: "tasks s2 = tasks s" "task_ready_head s2 = task_ready_head s"
    "task_list_head s2 = task_list_head s" "curr_num_task s2 = curr_num_task s"
    by (auto simp: s2_def critical_eqs split: option.splits)
  have q2: "ready_queue s2 xs" using q s2 by (subst ready_queue_cong [where s = s]) auto
  have t2: "tasks s2 a = Some t0" using a(2) s2 by simp
  let ?s3 = "s2\<lparr>tasks := (tasks s2)(a \<mapsto> f t0)\<rparr>"
  have f: "t_state (f t0) = RX_TASK_READY" "t_list (f t0) = NULL"
    "t_prio (f t0) = min prio RX_TASK_LEAST_PRIO" "t_orig_prio (f t0) = t_prio (f t0)"
    "t_ip (f t0) = func" "t_ticks (f t0) = slc" "t_time_slice (f t0) = slc" "t_name (f t0) = name"
    by (auto simp: f_def fresh_task_def rx_init_tcb_def Let_def)
  obtain s4 where s4: "rx_add_to_ready_q (Some a) ?s3 = Some (OS_OK, s4)"
    "ready_queue s4 (insert_prio (task_prio ?s3) a xs)" "relinked (insert a (set xs)) ?s3 s4"
    using wake_spec [OF q2 a(1) t2, of f] f(1) by auto
  obtain n where n: "tasks s4 a = Some ((f t0)\<lparr>t_next := n\<rparr>)"
    using relinked_task [OF s4(3), of a] by auto
  have l4: "task_link s4 = (task_link s)(a := Some NULL)"
    using relinked_link [OF s4(3)] f(2) task_link_cong [OF s2(1)] by simp
  have "lst (task_link s4) (task_list_head s4) ls"
    using ls l4 relinked_fields(12) [OF s4(3)] s2(3) by simp
  then obtain s5 where s5: "append_task_list (Some a) s4 = Some s5"
    "lst (task_link s5) (task_list_head s5) (ls @ [a])"
    "ready_queue s5 (insert_prio (task_prio ?s3) a xs)" "tasks s5 a = tasks s4 a"
    "curr_num_task s5 = curr_num_task s4" "\<forall>b. task_prio s5 b = task_prio s4 b"
    "\<forall>b. tasks s5 b = None \<longleftrightarrow> tasks s4 b = None" "curr_running_task s5 = curr_running_task s4"
    using append_task_list_spec [OF _ ls(2) _ s4(2)] l4 by auto
  let ?s6 = "rx_exit_critical (s5\<lparr>curr_num_task := curr_num_task s5 + 1\<rparr>)"
  have s6: "task_prio ?s6 b = task_prio ?s3 b" for b
    using s5(6) relinked_prio [OF s4(3)] by (simp add: task_prio_def critical_eqs)
  have "insert_prio (task_prio ?s3) a xs = insert_prio (task_prio ?s6) a xs"
    by (rule insert_prio_cong) (simp add: s6)
  then have "ready_queue ?s6 (insert_prio (task_prio ?s6) a xs)"
    using s5(3) by (subst ready_queue_cong [where s = s5]) (simp_all add: critical_eqs)
  moreover have "task_link ?s6 = task_link s5" by (rule task_link_cong) (simp add: critical_eqs)
  moreover have "rx_create_task (Some a) name prio stack_ptr stack_size func RX_TASK_READY slc s
      = Some (OS_OK, ?s6)"
  proof -
    have "upd_task (Some a) f s2 = Some ?s3" using t2 by simp
    with len stk s4(1) s5(1) show ?thesis
      unfolding rx_create_task_def f_def stack_def s2_def
      by (auto simp: Let_def critical_eqs split: option.splits)
  qed
  moreover have "curr_num_task ?s6 = curr_num_task s + 1"
    using s5(5) relinked_fields(13) [OF s4(3)] s2(4) by (simp add: critical_eqs)
  moreover have "tasks ?s6 a = Some ((f t0)\<lparr>t_next := n\<rparr>)" using s5(4) n by (simp add: critical_eqs)
  moreover have "task_prio ?s6 b = task_prio s b" if "b \<noteq> a" for b
    using s6 [of b] that s2(1) by (simp add: task_prio_def)
  moreover have "tasks ?s6 b = None \<longleftrightarrow> tasks s b = None" for b
    using s5(7) relinked_task_None [OF s4(3), of b] s2(1) a(2) by (simp add: critical_eqs)
  moreover have "curr_running_task s2 = curr_running_task s"
    by (auto simp: s2_def critical_eqs split: option.splits)
  then have "curr_running_task ?s6 = curr_running_task s"
    using s5(8) relinked_fields(11) [OF s4(3)] by (simp add: critical_eqs)
  ultimately show ?thesis using s5(2) f
    by (intro exI [of _ ?s6] exI [of _ "(f t0)\<lparr>t_next := n\<rparr>"]) (simp add: critical_eqs)
qed



text \<open>
  Suspending a ready task and resuming it: both calls return OS_OK; in between the task
  is out of the queue and in state SUSPEND, the running task is not disturbed; afterwards it
  is ready again, queued behind the tasks of its own priority (it loses its turn).
\<close>

theorem suspend_resume:
  assumes q: "ready_queue s xs" and a: "a \<in> set xs" "tasks s a = Some t"
    and st: "t_state t = RX_TASK_READY"
  shows "\<exists>s1 s2 t2.
    rx_suspend_task (Some a) s = Some (Returns OS_OK, s1) \<and> ready_queue s1 (remove1 a xs) \<and>
    tasks s1 a = Some (t\<lparr>t_next := NULL, t_state := RX_TASK_SUSPEND\<rparr>) \<and>
    rx_resume_task (Some a) s1 = Some (OS_OK, s2) \<and>
    ready_queue s2 (insert_prio (task_prio s) a (remove1 a xs)) \<and>
    tasks s2 a = Some t2 \<and> t_state t2 = RX_TASK_READY \<and>
    curr_running_task s2 = curr_running_task s"
proof -
  obtain s1 where s1: "rx_suspend_task (Some a) s = Some (Returns OS_OK, s1)"
    "ready_queue s1 (remove1 a xs)"
    "tasks s1 a = Some (t\<lparr>t_next := NULL, t_state := RX_TASK_SUSPEND\<rparr>)"
    "\<forall>b. task_prio s1 b = task_prio s b" "curr_running_task s1 = curr_running_task s"
    using suspend_other_spec [OF assms] by blast
  have "a \<notin> set (remove1 a xs)" using ready_queue_distinct [OF q] by simp
  from resume_task_spec [OF s1(2) this s1(3)] obtain s2 n where s2:
    "rx_resume_task (Some a) s1 = Some (OS_OK, s2)"
    "ready_queue s2 (insert_prio (task_prio s1) a (remove1 a xs))"
    "tasks s2 a = Some (t\<lparr>t_next := NULL, t_state := RX_TASK_SUSPEND, t_state := RX_TASK_READY, t_next := n\<rparr>)"
    "curr_running_task s2 = curr_running_task s1" by auto
  moreover have "insert_prio (task_prio s1) a (remove1 a xs) = insert_prio (task_prio s) a (remove1 a xs)"
    by (rule insert_prio_cong) (simp add: s1(4))
  ultimately show ?thesis using s1 by auto
qed

theorem suspend_resume_witness:
  "\<exists>s1 s2. rx_suspend_task (Some 2) demo_ready = Some (Returns OS_OK, s1) \<and> ready_queue s1 [1, 3] \<and>
     rx_resume_task (Some 2) s1 = Some (OS_OK, s2) \<and> ready_queue s2 [1, 2, 3]"
proof -
  have "remove1 2 [1, 2, 3 :: addr] = [1, 3]" by simp
  then show ?thesis
    using suspend_resume [OF demo_ready_queue, of 2] by (auto simp: task_prio_def)
qed

text \<open>
  A task that suspends itself gives the processor to the most urgent other task:
  \<^verbatim>\<open>rx_suspend_task(MYSELF)\<close> does not return to its caller, which is left in state
  SUSPEND outside the queue, and the head of the remaining queue is running.
\<close>

theorem suspend_myself:
  assumes q: "ready_queue s xs" and c: "curr_running_task s = Some c" "c \<in> set xs"
    and rest: "remove1 c xs = h # ys" and t: "tasks s c = Some t"
  shows "\<exists>s' u. rx_suspend_task NULL s = Some (Sleeps, s') \<and> curr_running_task s' = Some h \<and>
               ready_queue s' (h # ys) \<and>
               tasks s' c = Some (t\<lparr>t_next := NULL, t_state := RX_TASK_SUSPEND\<rparr>) \<and>
               tasks s' h = Some u \<and> t_state u = RX_TASK_RUNNING"
proof -
  have "\<And>s1. rx_remove_from_ready_q (Some c) s = Some (OS_OK, s1) \<Longrightarrow> curr_running_task s1 = Some c"
    using remove_from_ready_q_spec [OF ready_queue_except [OF q] c(2)] c(1)
    by (auto dest: relinked_fields(11))
  then have "rx_suspend_task NULL s =
      do { (_, s1) \<leftarrow> rx_remove_from_ready_q (Some c) s;
           s2 \<leftarrow> upd_task (Some c) (\<lambda>t. t\<lparr>t_state := RX_TASK_SUSPEND\<rparr>) s1;
           sched_then (\<lambda>s. Some (Returns OS_OK, s)) s2 }"
    using remove_from_ready_q_spec [OF ready_queue_except [OF q] c(2)] c(1)
    by (auto simp: rx_suspend_task_def)
  with leave_cpu_spec [OF assms, of RX_TASK_SUSPEND "\<lambda>s. Some (Returns OS_OK, s)"] show ?thesis
    by auto
qed

theorem suspend_myself_witness:
  "\<exists>s' u. rx_suspend_task NULL demo_ready = Some (Sleeps, s') \<and> curr_running_task s' = Some 2 \<and>
     ready_queue s' [2, 3] \<and> tasks s' 2 = Some u \<and> t_state u = RX_TASK_RUNNING"
  using suspend_myself [OF demo_ready_queue, of 1 2 "[3]"] by auto

text \<open>
  \<^verbatim>\<open>rx_set_task_prio\<close> reorders only tasks in state READY. For the running task it
  rewrites the priority in place: the queue keeps its order, so a lowered priority leaves a
  queue that is no longer sorted and the task keeps the processor at the head of it.
\<close>

theorem set_prio_running_unsorted:
  assumes q: "ready_queue s (c # x # xs)" and t: "tasks s c = Some t" "t_state t = RX_TASK_RUNNING"
    and old: "t_prio t \<notin> {3, 4}" and new: "prio > task_prio s x"
  shows "\<exists>s'. rx_set_task_prio (Some c) prio s = Some (OS_OK, s') \<and>
              lst (task_next s') (task_ready_head s') (c # x # xs) \<and>
              \<not> sorted (map (task_prio s') (c # x # xs))"
proof -
  let ?s' = "s\<lparr>tasks := (tasks s)(c \<mapsto> t\<lparr>t_prio := prio\<rparr>)\<rparr>"
  have d: "c \<noteq> x" using ready_queue_distinct [OF q] by auto
  have "task_prio s c \<le> task_prio s x" using q by (simp add: ready_queue_def)
  then have "prio \<noteq> t_prio t" using new t(1) by (simp add: task_prio_def)
  then have "rx_set_task_prio (Some c) prio s = Some (OS_OK, ?s')"
    using t old by (simp add: rx_set_task_prio_def)
  moreover have "task_next ?s' = task_next s" by (rule task_next_upd_same [OF t(1)]) simp
  moreover have "task_prio ?s' c > task_prio ?s' x" using new d by (simp add: task_prio_def)
  ultimately show ?thesis using q by (auto simp: ready_queue_def simp del: task_next_upd)
qed

theorem set_prio_running_unsorted_witness:
  "\<exists>s'. rx_set_task_prio (Some 1) 9 demo_ready = Some (OS_OK, s') \<and>
        lst (task_next s') (task_ready_head s') [1, 2, 3] \<and> \<not> sorted (map (task_prio s') [1, 2, 3])"
  using set_prio_running_unsorted [OF demo_ready_queue, of "demo_task RX_TASK_RUNNING 2 (Some 2)" 9]
  by (simp add: task_prio_def)

end
