(* ===== verification/RX_Timer.thy ===== *)
theory RX_Timer
  imports RX_Task
begin

text \<open>
  Kernel timers (\<^verbatim>\<open>kernel/rx_timer.c\<close>): the active list, doubly linked and ordered by
  expiry time, the operations on single timers, the sleeping calls, and the expiry loop of the
  timer thread. The interrupt handler of the clock is in \<open>RX_Tick\<close>, behind the event queue
  it writes to.
\<close>

section \<open>The active list\<close>

definition timer_prev :: "kstate \<Rightarrow> links" where
  "timer_prev s a = map_option tm_prev (timers s a)"

text \<open>
  The search loop of \<^verbatim>\<open>__rx_add_to_active_timer_list\<close>; the two statements after the
  loop are the branch for the last node.
\<close>

partial_function (option) timer_insert :: "ptr \<Rightarrow> 32 word \<Rightarrow> ptr \<Rightarrow> kstate \<Rightarrow> kstate option" where
  "timer_insert p tick start s =
     do { st \<leftarrow> deref (timers s) start;
          (if tm_time_expiry st \<ge> tick then
             if start = active_timer_head s then
               do { s1 \<leftarrow> upd_timer (active_timer_head s) (\<lambda>t. t\<lparr>tm_prev := p\<rparr>) s;
                    s2 \<leftarrow> upd_timer p (\<lambda>t. t\<lparr>tm_next := active_timer_head s1\<rparr>) s1;
                    Some (s2\<lparr>active_timer_head := p\<rparr>) }
             else
               do { s1 \<leftarrow> upd_timer p (\<lambda>t. t\<lparr>tm_next := start\<rparr>) s;
                    s2 \<leftarrow> upd_timer (tm_prev st) (\<lambda>t. t\<lparr>tm_next := p\<rparr>) s1;
                    s3 \<leftarrow> upd_timer p (\<lambda>t. t\<lparr>tm_prev := tm_prev st\<rparr>) s2;
                    upd_timer start (\<lambda>t. t\<lparr>tm_prev := p\<rparr>) s3 }
           else if tm_next st = NULL then
             do { s1 \<leftarrow> upd_timer start (\<lambda>t. t\<lparr>tm_next := p\<rparr>) s;
                  upd_timer p (\<lambda>t. t\<lparr>tm_prev := start\<rparr>) s1 }
           else timer_insert p tick (tm_next st) s) }"

definition rx_add_to_active_timer_list :: "ptr \<Rightarrow> kstate \<Rightarrow> kstate option" where
  "rx_add_to_active_timer_list p s =
     do { let s1 = rx_enter_critical s;
          tm \<leftarrow> deref (timers s1) p;
          let tick = tm_delay tm + jiffies s1;
          s2 \<leftarrow> upd_timer p (\<lambda>t. t\<lparr>tm_time_expiry := tick, tm_flag := tm_flag t OR RX_TIMER_ENABLED,
                                 tm_prev := NULL, tm_next := NULL\<rparr>) s1;
          (if active_timer_head s2 = NULL
           then Some (rx_exit_critical (s2\<lparr>active_timer_head := p\<rparr>))
           else map_option rx_exit_critical (timer_insert p tick (active_timer_head s2) s2)) }"

definition rx_remove_from_timer_list :: "ptr \<Rightarrow> kstate \<Rightarrow> kstate option" where
  "rx_remove_from_timer_list p s =
     do { let s1 = rx_enter_critical s;
          (if active_timer_head s1 = NULL then Some (rx_exit_critical s1)
           else
             do { tm \<leftarrow> deref (timers s1) p;
                  s2 \<leftarrow> (if active_timer_head s1 = p then
                           if tm_next tm \<noteq> NULL
                           then upd_timer (tm_next tm) (\<lambda>t. t\<lparr>tm_prev := NULL\<rparr>)
                                  (s1\<lparr>active_timer_head := tm_next tm\<rparr>)
                           else Some (s1\<lparr>active_timer_head := NULL\<rparr>)
                         else
                           do { s' \<leftarrow> upd_timer (tm_prev tm) (\<lambda>t. t\<lparr>tm_next := tm_next tm\<rparr>) s1;
                                upd_timer (tm_next tm) (\<lambda>t. t\<lparr>tm_prev := tm_prev tm\<rparr>) s' });
                  Some (rx_exit_critical s2) }) }"


section \<open>Operations on timers\<close>

definition rx_start_timer :: "ptr \<Rightarrow> kstate \<Rightarrow> kstate option" where
  "rx_start_timer p s =
     (if p = NULL then Some s
      else do { tm \<leftarrow> deref (timers s) p;
                (if tm_flag tm AND RX_TIMER_ENABLED \<noteq> 0 then Some s
                 else rx_add_to_active_timer_list p s) })"

definition rx_stop_timer :: "ptr \<Rightarrow> kstate \<Rightarrow> kstate option" where
  "rx_stop_timer p s =
     do { tm \<leftarrow> deref (timers s) p;
          (if tm_flag tm AND RX_TIMER_ENABLED \<noteq> 0
           then do { s1 \<leftarrow> rx_remove_from_timer_list p s;
                     upd_timer p (\<lambda>t. t\<lparr>tm_flag := tm_flag t AND RX_TIMER_DISABLED\<rparr>) s1 }
           else Some s) }"

definition rx_mod_timer :: "ptr \<Rightarrow> 32 word \<Rightarrow> kstate \<Rightarrow> kstate option" where
  "rx_mod_timer p delay s =
     (if p = NULL then Some s
      else do { tm \<leftarrow> deref (timers s) p;
                (if tm_flag tm AND RX_TIMER_ENABLED \<noteq> 0 then Some s
                 else if tm_delay tm = 0 then Some s
                 else do { s1 \<leftarrow> upd_timer p
                             (\<lambda>t. t\<lparr>tm_delay := delay * (1000 div of_nat CONFIG_HZ)\<rparr>) s;
                           rx_start_timer p s1 }) })"

text \<open>
  \<^verbatim>\<open>__rx_add_timer\<close>. Without a handler the caller sleeps on the timer; the call comes back
  through \<open>sched_then\<close>.
\<close>

definition rx_add_timer ::
    "ptr \<Rightarrow> handler option \<Rightarrow> 32 word \<Rightarrow> ptr \<Rightarrow> kstate \<Rightarrow> (int call \<times> kstate) option" where
  "rx_add_timer p func delay tid s =
     do { s1 \<leftarrow> upd_timer p (\<lambda>t. t\<lparr>tm_delay := delay, tm_time_expiry := 0, tm_task := tid,
                                 tm_handler := func, tm_next := NULL, tm_prev := NULL\<rparr>) s;
          (if func = None then
             do { s2 \<leftarrow> rx_add_to_active_timer_list p s1;
                  s3 \<leftarrow> upd_task tid (\<lambda>t. t\<lparr>t_timer := p\<rparr>) s2;
                  s4 \<leftarrow> upd_task tid (\<lambda>t. t\<lparr>t_state := RX_TASK_SUSPEND\<rparr>) s3;
                  (_, s5) \<leftarrow> rx_remove_from_ready_q tid s4;
                  sched_then (\<lambda>s. Some (Returns OS_OK, s)) s5 }
           else
             do { s2 \<leftarrow> upd_timer p (\<lambda>t. t\<lparr>tm_flag := tm_flag t AND RX_TIMER_DISABLED\<rparr>) s1;
                  Some (Returns OS_OK, s2) }) }"

definition rx_init_timer ::
    "ptr \<Rightarrow> handler option \<Rightarrow> ptr \<Rightarrow> 32 word \<Rightarrow> kstate \<Rightarrow> (int call \<times> kstate) option" where
  "rx_init_timer timer hdl priv ticks s =
     (if ticks = 0 then Some (Returns OS_ERR, s)
      else do { s1 \<leftarrow> upd_timer timer (\<lambda>t. t\<lparr>tm_priv := priv, tm_flag := 0\<rparr>) s;
                (r, s2) \<leftarrow> rx_add_timer timer hdl ticks (curr_running_task s1) s1;
                Some (case r of Returns _ \<Rightarrow> Returns OS_OK | Sleeps \<Rightarrow> Sleeps, s2) })"

definition rx_create_timer ::
    "ptr \<Rightarrow> handler option \<Rightarrow> ptr \<Rightarrow> 32 word \<Rightarrow> kstate \<Rightarrow> (int call \<times> kstate) option" where
  "rx_create_timer timer hdl priv ticks s =
     (if ticks = 0 then Some (Returns OS_ERR, s)
      else do { s1 \<leftarrow> upd_timer timer (\<lambda>t. t\<lparr>tm_priv := priv\<rparr>) s;
                (r, s2) \<leftarrow> rx_add_timer timer hdl ticks (curr_running_task s1) s1;
                Some (case r of Returns _ \<Rightarrow> Returns OS_OK | Sleeps \<Rightarrow> Sleeps, s2) })"

definition rx_delete_timer :: "ptr \<Rightarrow> kstate \<Rightarrow> kstate option" where
  "rx_delete_timer timer s = do { _ \<leftarrow> deref (timers s) timer; Some s }"

text \<open>
  The sleeping calls keep their timer on their own stack; \<open>timer\<close> is that variable.
\<close>

definition msleep_ticks :: "32 word \<Rightarrow> 32 word" where
  "msleep_ticks time = (let t = time div of_nat CONFIG_HZ in if t = 0 then 1 else t)"

definition ssleep_ticks :: "32 word \<Rightarrow> 32 word" where
  "ssleep_ticks time = time * 1000 div of_nat CONFIG_HZ"

definition rx_msleep :: "ptr \<Rightarrow> 32 word \<Rightarrow> kstate \<Rightarrow> (int call \<times> kstate) option" where
  "rx_msleep timer time s =
     (if time > 100000 \<or> time = 0 then Some (Returns OS_ERR, s)
      else rx_add_timer timer None (msleep_ticks time) (curr_running_task s) s)"

definition rx_ssleep :: "ptr \<Rightarrow> 32 word \<Rightarrow> kstate \<Rightarrow> (int call \<times> kstate) option" where
  "rx_ssleep timer time s =
     (if time = 0 then Some (Returns OS_ERR, s)
      else rx_add_timer timer None (ssleep_ticks time) (curr_running_task s) s)"

definition RX_MSECS_TO_TICKS :: "int \<Rightarrow> int" where
  "RX_MSECS_TO_TICKS m =
     (if m = 0 then 0
      else if m < 1000 div int CONFIG_HZ then 1
      else m div (1000 div int CONFIG_HZ))"

text \<open>
  The inner loop of \<^verbatim>\<open>rx_timer_thread\<close>, one activation of the thread. \<open>run h priv\<close> is
  the call \<^verbatim>\<open>start->handler(start->priv)\<close>; the kernel's own handlers are supplied in
  \<open>RX_Tick\<close>, those of the application are a parameter.
\<close>

partial_function (option) expire_timers ::
    "(handler \<Rightarrow> ptr \<Rightarrow> kstate \<Rightarrow> kstate option) \<Rightarrow> 32 word \<Rightarrow> kstate \<Rightarrow> kstate option" where
  "expire_timers run tick s =
     (case active_timer_head s of
        None \<Rightarrow> Some s
      | Some p \<Rightarrow>
          do { tm \<leftarrow> timers s p;
               (if tm_time_expiry tm \<le> tick then
                  do { s' \<leftarrow>
                         (case tm_handler tm of
                            Some h \<Rightarrow>
                              do { s1 \<leftarrow> rx_remove_from_timer_list (Some p) s;
                                   s2 \<leftarrow> upd_timer (Some p)
                                      (\<lambda>t. t\<lparr>tm_flag := tm_flag t AND RX_TIMER_DISABLED\<rparr>) s1;
                                   run h (tm_priv tm) s2 }
                          | None \<Rightarrow>
                              do { s1 \<leftarrow> upd_task (tm_task tm) (\<lambda>t. t\<lparr>t_state := RX_TASK_READY\<rparr>) s;
                                   (_, s2) \<leftarrow> rx_add_to_ready_q (tm_task tm) s1;
                                   s3 \<leftarrow> upd_task (tm_task tm) (\<lambda>t. t\<lparr>t_timer := NULL\<rparr>) s2;
                                   rx_remove_from_timer_list (Some p) s3 });
                       expire_timers run tick s' }
                else Some s) })"


section \<open>The active list as an abstract sequence\<close>

definition timer_expiry :: "kstate \<Rightarrow> addr \<Rightarrow> 32 word" where
  "timer_expiry s a = (case timers s a of Some t \<Rightarrow> tm_time_expiry t | None \<Rightarrow> 0)"

definition active_timers :: "kstate \<Rightarrow> addr list \<Rightarrow> bool" where
  "active_timers s ts \<longleftrightarrow>
     dlst (timer_next s) (timer_prev s) (active_timer_head s) ts \<and>
     sorted (map (timer_expiry s) ts)"

text \<open>Abstract insertion: in front of the first timer that does not expire earlier.\<close>

fun insert_timer :: "(addr \<Rightarrow> 32 word) \<Rightarrow> addr \<Rightarrow> addr list \<Rightarrow> addr list" where
  "insert_timer ex a [] = [a]"
| "insert_timer ex a (x # xs) = (if ex a \<le> ex x then a # x # xs else x # insert_timer ex a xs)"

lemma set_insert_timer [simp]: "set (insert_timer ex a xs) = insert a (set xs)"
  by (induction xs) auto

lemma sorted_insert_timer: "sorted (map ex xs) \<Longrightarrow> sorted (map ex (insert_timer ex a xs))"
  by (induction xs) auto

lemma insert_timer_cong:
  "(\<And>x. x \<in> set (a # xs) \<Longrightarrow> ex x = ex' x) \<Longrightarrow> insert_timer ex a xs = insert_timer ex' a xs"
  by (induction xs) auto

text \<open>
  \<open>retimed A s s'\<close>: only the two links of the timers in \<open>A\<close>, the head of the active list and
  the interrupt mask may differ.
\<close>

definition same_but_links :: "timer_list option \<Rightarrow> timer_list option \<Rightarrow> bool" where
  "same_but_links x y = rel_option (\<lambda>t t'. \<exists>n p. t' = t\<lparr>tm_next := n, tm_prev := p\<rparr>) x y"

definition retimed :: "addr set \<Rightarrow> kstate \<Rightarrow> kstate \<Rightarrow> bool" where
  "retimed A s s' \<longleftrightarrow>
     (\<exists>tm h c. s' = s\<lparr>timers := tm, active_timer_head := h, critical := c\<rparr> \<and>
        (\<forall>a. a \<notin> A \<longrightarrow> tm a = timers s a) \<and> (\<forall>a. same_but_links (timers s a) (tm a)))"

lemma same_but_links_refl [simp]: "same_but_links x x"
proof (cases x)
  case (Some t)
  have "t = t\<lparr>tm_next := tm_next t, tm_prev := tm_prev t\<rparr>" by simp
  then have "\<exists>n p. t = t\<lparr>tm_next := n, tm_prev := p\<rparr>" by blast
  with Some show ?thesis by (simp add: same_but_links_def)
qed (simp add: same_but_links_def)

lemma same_but_links_None [simp]: "same_but_links None y \<longleftrightarrow> y = None"
  by (cases y) (auto simp: same_but_links_def)

lemma same_but_links_Some [simp]:
  "same_but_links (Some t) y \<longleftrightarrow> (\<exists>n p. y = Some (t\<lparr>tm_next := n, tm_prev := p\<rparr>))"
  by (cases y) (auto simp: same_but_links_def)

lemma same_but_links_trans: "same_but_links x y \<Longrightarrow> same_but_links y z \<Longrightarrow> same_but_links x z"
  by (cases x; cases y) (auto, blast)

lemma same_but_links_next: "same_but_links (Some t) (Some (t\<lparr>tm_next := n\<rparr>))"
  by (simp, rule exI [of _ n], rule exI [of _ "tm_prev t"]) simp

lemma same_but_links_prev: "same_but_links (Some t) (Some (t\<lparr>tm_prev := p\<rparr>))"
  by (simp, rule exI [of _ "tm_next t"], rule exI [of _ p]) simp

lemma retimedI:
  assumes "s' = s\<lparr>timers := tm, active_timer_head := h, critical := c\<rparr>"
    and "\<And>a. a \<notin> A \<Longrightarrow> tm a = timers s a" and "\<And>a. same_but_links (timers s a) (tm a)"
  shows "retimed A s s'"
  using assms unfolding retimed_def by blast

lemma retimedE:
  assumes "retimed A s s'"
  obtains tm h c where "s' = s\<lparr>timers := tm, active_timer_head := h, critical := c\<rparr>"
    and "\<And>a. a \<notin> A \<Longrightarrow> tm a = timers s a" and "\<And>a. same_but_links (timers s a) (tm a)"
  using assms unfolding retimed_def by blast

lemma retimed_outside: "retimed A s s' \<Longrightarrow> a \<notin> A \<Longrightarrow> timers s' a = timers s a"
  by (erule retimedE) simp

lemma retimed_same: "retimed A s s' \<Longrightarrow> same_but_links (timers s a) (timers s' a)"
  by (erule retimedE) simp

lemma retimed_refl [simp]: "retimed A s s"
  by (rule retimedI [where tm = "timers s" and h = "active_timer_head s" and c = "critical s"])
    simp_all

lemma retimed_then:
  assumes "retimed A s s'" and "retimed A s' s''"
  shows "retimed A s s''"
proof -
  obtain tm h c where 1: "s' = s\<lparr>timers := tm, active_timer_head := h, critical := c\<rparr>"
    using assms(1) by (rule retimedE)
  obtain tm' h' c' where 2: "s'' = s'\<lparr>timers := tm', active_timer_head := h', critical := c'\<rparr>"
    using assms(2) by (rule retimedE)
  show ?thesis
  proof (rule retimedI)
    show "s'' = s\<lparr>timers := tm', active_timer_head := h', critical := c'\<rparr>" by (simp add: 1 2)
    show "tm' a = timers s a" if "a \<notin> A" for a
      using retimed_outside [OF assms(1) that] retimed_outside [OF assms(2) that] 2 by simp
    show "same_but_links (timers s a) (tm' a)" for a
      using same_but_links_trans [OF retimed_same [OF assms(1)] retimed_same [OF assms(2)]] 2
      by simp
  qed
qed

lemma retimed_fields:
  assumes "retimed A s s'"
  shows "tasks s' = tasks s" "task_ready_head s' = task_ready_head s" "jiffies s' = jiffies s"
    "curr_running_task s' = curr_running_task s" "in_irq s' = in_irq s"
    "mutexes s' = mutexes s" "sems s' = sems s" "need_resched s' = need_resched s"
    "wqueues s' = wqueues s" "sys_wait_list s' = sys_wait_list s" "mqueues s' = mqueues s"
    "egroups s' = egroups s" "task_list_head s' = task_list_head s"
  using assms by (simp_all add: retimed_def) (elim exE conjE, simp)+

lemma retimed_expiry: "retimed A s s' \<Longrightarrow> timer_expiry s' a = timer_expiry s a"
  using retimed_same [of A s s' a] by (cases "timers s a") (auto simp: timer_expiry_def)

lemma retimed_timer:
  "retimed A s s' \<Longrightarrow> timers s a = Some t \<Longrightarrow>
     \<exists>n p. timers s' a = Some (t\<lparr>tm_next := n, tm_prev := p\<rparr>)"
  using retimed_same [of A s s' a] by simp

lemma retimed_head [simp]: "retimed A s (s\<lparr>active_timer_head := h\<rparr>)"
  by (rule retimedI [where tm = "timers s" and c = "critical s"]) simp_all

lemma retimed_critical [simp]:
  "retimed A s (rx_enter_critical s)" "retimed A s (rx_exit_critical s)"
  by (rule retimedI [where tm = "timers s" and h = "active_timer_head s"],
      simp_all add: critical_eqs)+

text \<open>The links after one write.\<close>

lemma timer_links_upd [simp]:
  "timer_next (s\<lparr>timers := (timers s)(a \<mapsto> t)\<rparr>) = (timer_next s)(a := Some (tm_next t))"
  "timer_prev (s\<lparr>timers := (timers s)(a \<mapsto> t)\<rparr>) = (timer_prev s)(a := Some (tm_prev t))"
  by (auto simp: timer_next_def timer_prev_def)

lemma timer_links_cong:
  "timers s = timers s' \<Longrightarrow> timer_next s = timer_next s'"
  "timers s = timers s' \<Longrightarrow> timer_prev s = timer_prev s'"
  by (auto simp: timer_next_def timer_prev_def)

lemma active_timers_cong:
  "timers s' = timers s \<Longrightarrow> active_timer_head s' = active_timer_head s \<Longrightarrow>
     active_timers s' ts = active_timers s ts"
  by (simp add: active_timers_def timer_links_cong [of s' s] timer_expiry_def [abs_def])

lemma write_next:
  assumes "timer_next s a \<noteq> None" and "a \<in> A"
  obtains s' where "upd_timer (Some a) (\<lambda>t. t\<lparr>tm_next := q\<rparr>) s = Some s'"
    "timer_next s' = (timer_next s)(a := Some q)" "timer_prev s' = timer_prev s" "retimed A s s'"
    "active_timer_head s' = active_timer_head s" "critical s' = critical s"
proof -
  obtain t where t: "timers s a = Some t" using assms(1) by (auto simp: timer_next_def)
  let ?s' = "s\<lparr>timers := (timers s)(a \<mapsto> t\<lparr>tm_next := q\<rparr>)\<rparr>"
  have "retimed A s ?s'"
    by (rule retimedI [where tm = "timers ?s'" and h = "active_timer_head s" and c = "critical s"])
      (use t assms(2) same_but_links_next [of t q] in auto)
  moreover have "timer_prev ?s' = timer_prev s" using t by (auto simp: timer_prev_def)
  ultimately show ?thesis by (intro that [of ?s']) (simp_all add: t)
qed

lemma write_prev:
  assumes "timer_next s a \<noteq> None" and "a \<in> A"
  obtains s' where "upd_timer (Some a) (\<lambda>t. t\<lparr>tm_prev := q\<rparr>) s = Some s'"
    "timer_next s' = timer_next s" "timer_prev s' = (timer_prev s)(a := Some q)" "retimed A s s'"
    "active_timer_head s' = active_timer_head s" "critical s' = critical s"
proof -
  obtain t where t: "timers s a = Some t" using assms(1) by (auto simp: timer_next_def)
  let ?s' = "s\<lparr>timers := (timers s)(a \<mapsto> t\<lparr>tm_prev := q\<rparr>)\<rparr>"
  have "retimed A s ?s'"
    by (rule retimedI [where tm = "timers ?s'" and h = "active_timer_head s" and c = "critical s"])
      (use t assms(2) same_but_links_prev [of t q] in auto)
  moreover have "timer_next ?s' = timer_next s" using t by (auto simp: timer_next_def)
  ultimately show ?thesis by (intro that [of ?s']) (simp_all add: t)
qed


section \<open>Correctness of the active list\<close>

lemma timer_insert_front:
  assumes d: "dlst (timer_next s) (timer_prev s) (active_timer_head s) (x # ys)"
    and a: "a \<notin> set (x # ys)" "timer_next s a = Some NULL" "timer_prev s a = Some NULL"
    and ex: "timer_expiry s a \<le> timer_expiry s x" and A: "insert a (set (x # ys)) \<subseteq> A"
  shows "\<exists>s'. timer_insert (Some a) (timer_expiry s a) (Some x) s = Some s' \<and>
              dlst (timer_next s') (timer_prev s') (active_timer_head s') (a # x # ys) \<and>
              retimed A s s' \<and> critical s' = critical s"
proof -
  have h: "active_timer_head s = Some x" using d by (auto simp: dlst_def)
  obtain t where t: "timers s x = Some t" using d by (auto simp: dlst_def timer_next_def)
  have nx: "timer_next s x \<noteq> None" using t by (simp add: timer_next_def)
  obtain s1 where s1: "upd_timer (Some x) (\<lambda>t. t\<lparr>tm_prev := Some a\<rparr>) s = Some s1"
    "timer_next s1 = timer_next s" "timer_prev s1 = (timer_prev s)(x := Some (Some a))" "retimed A s s1"
    "active_timer_head s1 = active_timer_head s" "critical s1 = critical s"
    by (rule write_prev [OF nx, of A "Some a"]) (use A in auto)
  have na: "timer_next s1 a \<noteq> None" using a s1 by simp
  obtain s2 where s2: "upd_timer (Some a) (\<lambda>t. t\<lparr>tm_next := Some x\<rparr>) s1 = Some s2"
    "timer_next s2 = (timer_next s1)(a := Some (Some x))" "timer_prev s2 = timer_prev s1" "retimed A s1 s2"
    "active_timer_head s2 = active_timer_head s1" "critical s2 = critical s1"
    by (rule write_next [OF na, of A "Some x"]) (use A in auto)
  let ?s' = "s2\<lparr>active_timer_head := Some a\<rparr>"
  have run: "timer_insert (Some a) (timer_expiry s a) (Some x) s = Some ?s'"
    using ex h s1 s2 by (subst timer_insert.simps) (simp add: t timer_expiry_def)
  have "(timer_prev s)(x := Some (Some a), a := Some NULL) = (timer_prev s)(x := Some (Some a))"
    using a by auto
  with dlst_insert_front [of "timer_next s" "timer_prev s" x ys a] d h a(1)
  have "dlst (timer_next ?s') (timer_prev ?s') (Some a) (a # x # ys)"
    using timer_links_cong [of ?s' s2] s1 s2 by simp
  moreover have "retimed A s ?s'"
    by (rule retimed_then [OF retimed_then [OF s1(4) s2(4)]]) simp
  ultimately show ?thesis using run s1(6) s2(6) by auto
qed

lemma timer_insert_mid:
  assumes d: "dlst (timer_next s) (timer_prev s) (active_timer_head s) (pre @ b # x # ys)"
    and a: "a \<notin> set (pre @ b # x # ys)" "timer_next s a = Some NULL"
    and ex: "timer_expiry s a \<le> timer_expiry s x" and A: "insert a (set (pre @ b # x # ys)) \<subseteq> A"
  shows "\<exists>s'. timer_insert (Some a) (timer_expiry s a) (Some x) s = Some s' \<and>
              dlst (timer_next s') (timer_prev s') (active_timer_head s') (pre @ b # a # x # ys) \<and>
              retimed A s s' \<and> critical s' = critical s"
proof -
  have dist: "distinct (pre @ b # x # ys)" by (rule dlst_distinct [OF d])
  have h: "active_timer_head s \<noteq> Some x"
    using d dist by (cases pre) (auto simp: dlst_def)
  have links: "timer_prev s x = Some (Some b)" "timer_next s b \<noteq> None"
    using d by (auto simp: dlst_def)
  obtain t where t: "timers s x = Some t" using links by (auto simp: timer_prev_def)
  obtain s1 where s1: "upd_timer (Some a) (\<lambda>t. t\<lparr>tm_next := Some x\<rparr>) s = Some s1"
    "timer_next s1 = (timer_next s)(a := Some (Some x))" "timer_prev s1 = timer_prev s" "retimed A s s1"
    "active_timer_head s1 = active_timer_head s" "critical s1 = critical s"
    by (rule write_next [of s a A "Some x"]) (use A a in auto)
  have n1: "timer_next s1 b \<noteq> None" using s1 links a by simp
  obtain s2 where s2: "upd_timer (Some b) (\<lambda>t. t\<lparr>tm_next := Some a\<rparr>) s1 = Some s2"
    "timer_next s2 = (timer_next s1)(b := Some (Some a))" "timer_prev s2 = timer_prev s1" "retimed A s1 s2"
    "active_timer_head s2 = active_timer_head s1" "critical s2 = critical s1"
    by (rule write_next [OF n1, of A "Some a"]) (use A in auto)
  have n2: "timer_next s2 a \<noteq> None" using s1 s2 a by auto
  obtain s3 where s3: "upd_timer (Some a) (\<lambda>t. t\<lparr>tm_prev := Some b\<rparr>) s2 = Some s3"
    "timer_next s3 = timer_next s2" "timer_prev s3 = (timer_prev s2)(a := Some (Some b))" "retimed A s2 s3"
    "active_timer_head s3 = active_timer_head s2" "critical s3 = critical s2"
    by (rule write_prev [OF n2, of A "Some b"]) (use A in auto)
  have n3: "timer_next s3 x \<noteq> None" using s1 s2 s3 a d dist by (auto simp: dlst_def)
  obtain s4 where s4: "upd_timer (Some x) (\<lambda>t. t\<lparr>tm_prev := Some a\<rparr>) s3 = Some s4"
    "timer_next s4 = timer_next s3" "timer_prev s4 = (timer_prev s3)(x := Some (Some a))" "retimed A s3 s4"
    "active_timer_head s4 = active_timer_head s3" "critical s4 = critical s3"
    by (rule write_prev [OF n3, of A "Some a"]) (use A in auto)
  have p: "tm_prev t = Some b" using t links by (simp add: timer_prev_def)
  have run: "timer_insert (Some a) (timer_expiry s a) (Some x) s = Some s4"
    using ex h p s1(1) s2(1) s3(1) s4(1)
    by (subst timer_insert.simps) (simp add: t timer_expiry_def)
  have "dlst (timer_next s4) (timer_prev s4) (active_timer_head s4) (pre @ b # a # x # ys)"
    using dlst_insert_mid [OF d a(1)] s1 s2 s3 s4 by simp
  moreover have "retimed A s s4"
    by (rule retimed_then [OF retimed_then [OF retimed_then [OF s1(4) s2(4)] s3(4)] s4(4)])
  ultimately show ?thesis using run s1(6) s2(6) s3(6) s4(6) by auto
qed

lemma timer_insert_end:
  assumes d: "dlst (timer_next s) (timer_prev s) (active_timer_head s) (pre @ [x])"
    and a: "a \<notin> set (pre @ [x])" "timer_next s a = Some NULL"
    and ex: "timer_expiry s x < timer_expiry s a" and A: "insert a (set (pre @ [x])) \<subseteq> A"
  shows "\<exists>s'. timer_insert (Some a) (timer_expiry s a) (Some x) s = Some s' \<and>
              dlst (timer_next s') (timer_prev s') (active_timer_head s') (pre @ [x, a]) \<and>
              retimed A s s' \<and> critical s' = critical s"
proof -
  have links: "timer_next s x = Some NULL" using d by (auto simp: dlst_def)
  obtain t where t: "timers s x = Some t" "tm_next t = NULL"
    using links by (auto simp: timer_next_def)
  obtain s1 where s1: "upd_timer (Some x) (\<lambda>t. t\<lparr>tm_next := Some a\<rparr>) s = Some s1"
    "timer_next s1 = (timer_next s)(x := Some (Some a))" "timer_prev s1 = timer_prev s" "retimed A s s1"
    "active_timer_head s1 = active_timer_head s" "critical s1 = critical s"
    by (rule write_next [of s x A "Some a"]) (use A links in auto)
  have n1: "timer_next s1 a \<noteq> None" using s1 a by simp
  obtain s2 where s2: "upd_timer (Some a) (\<lambda>t. t\<lparr>tm_prev := Some x\<rparr>) s1 = Some s2"
    "timer_next s2 = timer_next s1" "timer_prev s2 = (timer_prev s1)(a := Some (Some x))" "retimed A s1 s2"
    "active_timer_head s2 = active_timer_head s1" "critical s2 = critical s1"
    by (rule write_prev [OF n1, of A "Some x"]) (use A in auto)
  have "\<not> timer_expiry s a \<le> tm_time_expiry t" using ex t by (simp add: timer_expiry_def)
  then have run: "timer_insert (Some a) (timer_expiry s a) (Some x) s = Some s2"
    using s1(1) s2(1) by (subst timer_insert.simps) (simp add: t)
  have "dlst (timer_next s2) (timer_prev s2) (active_timer_head s2) (pre @ [x, a])"
    using dlst_insert_end [OF d a] s1 s2 by simp
  then show ?thesis using run retimed_then [OF s1(4) s2(4)] s1(6) s2(6) by auto
qed

lemma timer_insert_spec:
  assumes "dlst (timer_next s) (timer_prev s) (active_timer_head s) (pre @ x # suf)"
    and "a \<notin> set (pre @ x # suf)" and "timer_next s a = Some NULL" and "timer_prev s a = Some NULL"
    and "insert a (set (pre @ x # suf)) \<subseteq> A"
  shows "\<exists>s'. timer_insert (Some a) (timer_expiry s a) (Some x) s = Some s' \<and>
              dlst (timer_next s') (timer_prev s') (active_timer_head s')
                (pre @ insert_timer (timer_expiry s) a (x # suf)) \<and>
              retimed A s s' \<and> critical s' = critical s"
  using assms
proof (induction suf arbitrary: pre x)
  case Nil
  show ?case
  proof (cases "timer_expiry s a \<le> timer_expiry s x")
    case True
    show ?thesis
    proof (cases pre rule: rev_cases)
      case Nil' : Nil
      with True timer_insert_front [of s x "[]" a A] Nil.prems show ?thesis by simp
    next
      case (snoc pr b)
      with True timer_insert_mid [of s pr b x "[]" a A] Nil.prems show ?thesis by simp
    qed
  next
    case False
    with timer_insert_end [of s pre x a A] Nil.prems show ?thesis by simp
  qed
next
  case (Cons y ys)
  show ?case
  proof (cases "timer_expiry s a \<le> timer_expiry s x")
    case True
    show ?thesis
    proof (cases pre rule: rev_cases)
      case Nil
      with True timer_insert_front [of s x "y # ys" a A] Cons.prems show ?thesis by simp
    next
      case (snoc pr b)
      with True timer_insert_mid [of s pr b x "y # ys" a A] Cons.prems show ?thesis by simp
    qed
  next
    case False
    have "timer_next s x = Some (Some y)" using Cons.prems(1) by (auto simp: dlst_def)
    then obtain t where t: "timers s x = Some t" "tm_next t = Some y"
      by (auto simp: timer_next_def)
    have "timer_insert (Some a) (timer_expiry s a) (Some x) s =
          timer_insert (Some a) (timer_expiry s a) (Some y) s"
      using False t by (subst timer_insert.simps) (simp add: timer_expiry_def)
    moreover have "(pre @ [x]) @ y # ys = pre @ x # y # ys" by simp
    ultimately show ?thesis
      using Cons.IH [of "pre @ [x]" y] Cons.prems False by simp
  qed
qed

text \<open>
  Starting a timer. \<open>armed\<close> is the record after the writes in front of the search; the
  expiry time is taken modulo \<open>2 ^ 32\<close>.
\<close>

definition armed :: "32 word \<Rightarrow> timer_list \<Rightarrow> timer_list" where
  "armed now t = t\<lparr>tm_time_expiry := tm_delay t + now, tm_flag := tm_flag t OR RX_TIMER_ENABLED,
                   tm_prev := NULL, tm_next := NULL\<rparr>"

lemma retimed_active:
  assumes "sorted (map (timer_expiry s) ts)" and "retimed A s s'"
    and "dlst (timer_next s') (timer_prev s') (active_timer_head s') ts"
  shows "active_timers s' ts"
proof -
  have "timer_expiry s' = timer_expiry s" using retimed_expiry [OF assms(2)] by (rule ext)
  with assms show ?thesis by (simp add: active_timers_def)
qed

lemma add_to_active_spec:
  assumes ts: "active_timers s ts" and a: "a \<notin> set ts" "timers s a = Some t"
  defines "s0 \<equiv> s\<lparr>timers := (timers s)(a \<mapsto> armed (jiffies s) t)\<rparr>"
  shows "\<exists>s'. rx_add_to_active_timer_list (Some a) s = Some s' \<and>
              active_timers s' (insert_timer (timer_expiry s0) a ts) \<and>
              retimed (insert a (set ts)) s0 s' \<and> critical s' = (critical s \<and> in_irq s)"
proof -
  let ?A = "insert a (set ts)"
  let ?s2 = "(rx_enter_critical s)\<lparr>timers := (timers s)(a \<mapsto> armed (jiffies s) t)\<rparr>"
  have s2: "?s2 = s0\<lparr>critical := critical s \<or> \<not> in_irq s\<rparr>"
    by (simp add: s0_def critical_eqs)
  have tick: "tm_delay t + jiffies s = timer_expiry ?s2 a"
    by (simp add: timer_expiry_def armed_def)
  have ex: "timer_expiry ?s2 = timer_expiry s0" by (auto simp: s2 timer_expiry_def)
  have run: "rx_add_to_active_timer_list (Some a) s =
      (if active_timer_head s = NULL then Some (rx_exit_critical (?s2\<lparr>active_timer_head := Some a\<rparr>))
       else map_option rx_exit_critical
              (timer_insert (Some a) (timer_expiry ?s2 a) (active_timer_head s) ?s2))"
    using a(2) tick by (simp add: rx_add_to_active_timer_list_def armed_def critical_eqs Let_def)
  have re2: "retimed ?A s0 ?s2"
    by (rule retimedI [where tm = "timers s0" and h = "active_timer_head s0"]) (simp_all add: s2)
  have links: "timer_next ?s2 = (timer_next s)(a := Some NULL)"
    "timer_prev ?s2 = (timer_prev s)(a := Some NULL)"
    by (auto simp: timer_next_def timer_prev_def armed_def critical_eqs)
  have d: "dlst (timer_next ?s2) (timer_prev ?s2) (active_timer_head ?s2) ts"
    using ts a(1) unfolding active_timers_def links by (simp add: dlst_def critical_eqs)
  have "map (timer_expiry s) ts = map (timer_expiry s0) ts"
    using a(1) by (auto simp: s0_def timer_expiry_def)
  then have so: "sorted (map (timer_expiry s0) (insert_timer (timer_expiry s0) a ts))"
    using ts by (intro sorted_insert_timer) (simp add: active_timers_def del: map_eq_conv)
  show ?thesis
  proof (cases ts)
    case Nil
    then have h: "active_timer_head s = NULL" using ts by (simp add: active_timers_def)
    let ?s' = "rx_exit_critical (?s2\<lparr>active_timer_head := Some a\<rparr>)"
    have "retimed ?A s0 ?s'"
      by (rule retimed_then [OF retimed_then [OF re2 retimed_head] retimed_critical(2)])
    moreover have "dlst (timer_next ?s') (timer_prev ?s') (active_timer_head ?s') [a]"
      using links timer_links_cong [of ?s' ?s2] by (simp add: dlst_def critical_eqs)
    moreover have "critical ?s' = (critical s \<and> in_irq s)" by (simp add: critical_eqs)
    ultimately show ?thesis
      using run h Nil so retimed_active [of s0 "[a]"] by auto
  next
    case (Cons x xs)
    then have h: "active_timer_head s = Some x" "active_timer_head ?s2 = Some x"
      using ts by (auto simp: active_timers_def dlst_def critical_eqs)
    obtain s3 where s3: "timer_insert (Some a) (timer_expiry ?s2 a) (Some x) ?s2 = Some s3"
      "dlst (timer_next s3) (timer_prev s3) (active_timer_head s3) (insert_timer (timer_expiry ?s2) a ts)"
      "retimed ?A ?s2 s3" "critical s3 = critical ?s2"
      using timer_insert_spec [of ?s2 "[]" x xs a ?A] d a(1) links Cons by auto
    let ?s' = "rx_exit_critical s3"
    have re: "retimed ?A s0 ?s'"
      by (rule retimed_then [OF retimed_then [OF re2 s3(3)]]) simp
    have "dlst (timer_next ?s') (timer_prev ?s') (active_timer_head ?s')
            (insert_timer (timer_expiry s0) a ts)"
      using s3(2) ex timer_links_cong [of ?s' s3] by (simp add: critical_eqs)
    moreover have "critical ?s' = (critical s \<and> in_irq s)"
      using s3(4) retimed_fields(5) [OF s3(3)] by (simp add: critical_eqs)
    ultimately show ?thesis using run h s3(1) re retimed_active [OF so re] by auto
  qed
qed

text \<open>Stopping a timer: the head and the inner nodes come out cleanly.\<close>

lemma sorted_expiry_remove1:
  "sorted (map f ts) \<Longrightarrow> sorted (map f (remove1 a ts))"
  by (rule sorted_map_remove1)

lemma remove_timer_front:
  assumes d: "dlst (timer_next s) (timer_prev s) (active_timer_head s) (a # ys)"
  shows "\<exists>s'. rx_remove_from_timer_list (Some a) s = Some s' \<and>
              dlst (timer_next s') (timer_prev s') (active_timer_head s') ys \<and>
              retimed (set (a # ys)) s s' \<and> critical s' = (critical s \<and> in_irq s)"
proof -
  let ?A = "set (a # ys)" and ?s1 = "rx_enter_critical s"
  have h: "active_timer_head s = Some a" "active_timer_head ?s1 = Some a"
    using d by (auto simp: dlst_def critical_eqs)
  obtain t where t: "timers s a = Some t" using d by (auto simp: dlst_def timer_next_def)
  show ?thesis
  proof (cases ys)
    case Nil
    then have n: "tm_next t = NULL" using d t by (auto simp: dlst_def timer_next_def)
    let ?s' = "rx_exit_critical (?s1\<lparr>active_timer_head := NULL\<rparr>)"
    have "rx_remove_from_timer_list (Some a) s = Some ?s'"
      using t h n by (simp add: rx_remove_from_timer_list_def critical_eqs)
    moreover have "retimed ?A s ?s'"
      by (rule retimed_then [OF retimed_then [OF retimed_critical(1) retimed_head] retimed_critical(2)])
    ultimately show ?thesis using Nil by (simp add: critical_eqs)
  next
    case (Cons y zs)
    let ?s2 = "?s1\<lparr>active_timer_head := Some y\<rparr>"
    have n: "tm_next t = Some y" using d t Cons by (auto simp: dlst_def timer_next_def)
    have links: "timer_next ?s2 = timer_next s" "timer_prev ?s2 = timer_prev s"
      by (auto simp: timer_next_def timer_prev_def critical_eqs)
    have ny: "timer_next ?s2 y \<noteq> None" using d Cons by (auto simp: dlst_def links)
    obtain s3 where s3: "upd_timer (Some y) (\<lambda>t. t\<lparr>tm_prev := NULL\<rparr>) ?s2 = Some s3"
      "timer_next s3 = timer_next ?s2" "timer_prev s3 = (timer_prev ?s2)(y := Some NULL)"
      "retimed ?A ?s2 s3" "active_timer_head s3 = active_timer_head ?s2" "critical s3 = critical ?s2"
      by (rule write_prev [OF ny, of ?A NULL]) (use Cons in auto)
    let ?s' = "rx_exit_critical s3"
    have "rx_remove_from_timer_list (Some a) s = Some ?s'"
      using t h n s3(1) by (simp add: rx_remove_from_timer_list_def critical_eqs)
    moreover have "retimed ?A s ?s'"
      by (rule retimed_then [OF retimed_then [OF retimed_then [OF retimed_critical(1) retimed_head]
              s3(4)]]) simp
    moreover have "dlst (timer_next ?s') (timer_prev ?s') (active_timer_head ?s') ys"
      using dlst_remove_front(2) [of "timer_next s" "timer_prev s" _ a y zs] d Cons s3 links
        timer_links_cong [of ?s' s3] by (simp add: critical_eqs)
    moreover have "critical ?s' = (critical s \<and> in_irq s)"
      using s3(6) retimed_fields(5) [OF s3(4)] by (simp add: critical_eqs)
    ultimately show ?thesis by auto
  qed
qed

lemma remove_timer_mid:
  assumes d: "dlst (timer_next s) (timer_prev s) (active_timer_head s) (pre @ b # a # y # ys)"
  shows "\<exists>s'. rx_remove_from_timer_list (Some a) s = Some s' \<and>
              dlst (timer_next s') (timer_prev s') (active_timer_head s') (pre @ b # y # ys) \<and>
              retimed (set (pre @ b # a # y # ys)) s s' \<and> critical s' = (critical s \<and> in_irq s)"
proof -
  let ?A = "set (pre @ b # a # y # ys)" and ?s1 = "rx_enter_critical s"
  have dist: "distinct (pre @ b # a # y # ys)" by (rule dlst_distinct [OF d])
  have h: "active_timer_head ?s1 \<noteq> NULL" "active_timer_head ?s1 \<noteq> Some a"
    using d dist by (cases pre; auto simp: dlst_def critical_eqs)+
  note lk = dlst_remove_mid [OF d]
  obtain t where t: "timers s a = Some t" using lk(1) by (auto simp: timer_next_def)
  have tl: "tm_next t = Some y" "tm_prev t = Some b"
    using lk(1,2) t by (auto simp: timer_next_def timer_prev_def)
  have links: "timer_next ?s1 = timer_next s" "timer_prev ?s1 = timer_prev s"
    by (auto simp: timer_next_def timer_prev_def critical_eqs)
  have nb: "timer_next ?s1 b \<noteq> None" using d by (auto simp: dlst_def links)
  obtain s2 where s2: "upd_timer (Some b) (\<lambda>t. t\<lparr>tm_next := Some y\<rparr>) ?s1 = Some s2"
    "timer_next s2 = (timer_next ?s1)(b := Some (Some y))" "timer_prev s2 = timer_prev ?s1"
    "retimed ?A ?s1 s2" "active_timer_head s2 = active_timer_head ?s1" "critical s2 = critical ?s1"
    by (rule write_next [OF nb, of ?A "Some y"]) auto
  have ny: "timer_next s2 y \<noteq> None" using d dist by (auto simp: dlst_def links s2)
  obtain s3 where s3: "upd_timer (Some y) (\<lambda>t. t\<lparr>tm_prev := Some b\<rparr>) s2 = Some s3"
    "timer_next s3 = timer_next s2" "timer_prev s3 = (timer_prev s2)(y := Some (Some b))"
    "retimed ?A s2 s3" "active_timer_head s3 = active_timer_head s2" "critical s3 = critical s2"
    by (rule write_prev [OF ny, of ?A "Some b"]) auto
  let ?s' = "rx_exit_critical s3"
  have t1: "timers ?s1 a = Some t" using t by (simp add: critical_eqs)
  have "rx_remove_from_timer_list (Some a) s = Some ?s'"
    using h s2(1) s3(1) by (auto simp: rx_remove_from_timer_list_def Let_def t1 tl)
  moreover have "retimed ?A s ?s'"
    by (rule retimed_then [OF retimed_then [OF retimed_then [OF retimed_critical(1) s2(4)] s3(4)]])
      simp
  moreover have "dlst (timer_next ?s') (timer_prev ?s') (active_timer_head ?s') (pre @ b # y # ys)"
    using lk(3) links s2 s3 timer_links_cong [of ?s' s3] by (simp add: critical_eqs)
  moreover have "critical ?s' = (critical s \<and> in_irq s)"
    using s2(6) s3(6) retimed_fields(5) [OF s2(4)] retimed_fields(5) [OF s3(4)]
    by (simp add: critical_eqs)
  ultimately show ?thesis by auto
qed

lemma remove_timer_spec:
  assumes ts: "active_timers s ts" and a: "a \<in> set ts" and nl: "ts = [a] \<or> a \<noteq> last ts"
  shows "\<exists>s'. rx_remove_from_timer_list (Some a) s = Some s' \<and> active_timers s' (remove1 a ts) \<and>
              retimed (set ts) s s' \<and> critical s' = (critical s \<and> in_irq s)"
proof -
  have d: "dlst (timer_next s) (timer_prev s) (active_timer_head s) ts"
    and so: "sorted (map (timer_expiry s) (remove1 a ts))"
    using ts sorted_map_remove1 by (auto simp: active_timers_def)
  have dist: "distinct ts" by (rule dlst_distinct [OF d])
  obtain pre ys where s: "ts = pre @ a # ys" using a by (auto dest: split_list)
  then have rm: "remove1 a ts = pre @ ys" using dist by (simp add: remove1_append)
  show ?thesis
  proof (cases pre rule: rev_cases)
    case Nil
    with remove_timer_front [of s a ys] d s rm so retimed_active show ?thesis by auto
  next
    case (snoc pr b)
    with nl s dist obtain y zs where "ys = y # zs" by (cases ys) auto
    with remove_timer_mid [of s pr b a y zs] d s rm so snoc retimed_active show ?thesis by auto
  qed
qed

text \<open>The last of several timers cannot be removed: its NULL \<open>next\<close> is written through.\<close>

lemma remove_timer_last_faults:
  assumes d: "dlst (timer_next s) (timer_prev s) (active_timer_head s) (pre @ [b, a])"
  shows "rx_remove_from_timer_list (Some a) s = None"
proof -
  have dist: "distinct (pre @ [b, a])" by (rule dlst_distinct [OF d])
  have h: "active_timer_head s \<noteq> NULL" "active_timer_head s \<noteq> Some a"
    using d dist by (cases pre; auto simp: dlst_def)+
  note lk = dlst_end_links [OF d]
  obtain t where t: "timers s a = Some t" using lk(1) by (auto simp: timer_next_def)
  then have "tm_next t = NULL" using lk(1) by (auto simp: timer_next_def)
  with h t show ?thesis
    by (auto simp: rx_remove_from_timer_list_def critical_eqs split: Option.bind_splits)
qed

section \<open>Sleeping and waking by time\<close>

text \<open>The list of timers does not see the tasks, nor the ready queue the timers.\<close>

lemma active_timers_relinked:
  "relinked A s s' \<Longrightarrow> active_timers s' ts = active_timers s ts"
  by (rule active_timers_cong) (simp_all add: relinked_fields)

lemma ready_queue_retimed: "retimed A s s' \<Longrightarrow> ready_queue s' xs = ready_queue s xs"
  by (rule ready_queue_cong) (simp_all add: retimed_fields)

text \<open>
  Going to sleep on a timer: the timer is armed with the delay and the caller's descriptor,
  and the caller leaves the ready queue.
\<close>

definition sleeping_timer :: "32 word \<Rightarrow> ptr \<Rightarrow> timer_list \<Rightarrow> timer_list" where
  "sleeping_timer delay tid t =
     t\<lparr>tm_delay := delay, tm_time_expiry := 0, tm_task := tid, tm_handler := None,
       tm_next := NULL, tm_prev := NULL\<rparr>"

lemma add_timer_sleep_spec:
  fixes delay :: "32 word"
  assumes q: "ready_queue s xs" and c: "curr_running_task s = Some c" "c \<in> set xs"
    and rest: "remove1 c xs = h # ys" and t: "tasks s c = Some t"
    and ts: "active_timers s ts" and p: "p \<notin> set ts" "timers s p = Some tm"
  defines "s0 \<equiv> s\<lparr>timers := (timers s)(p \<mapsto> armed (jiffies s) (sleeping_timer delay (Some c) tm))\<rparr>"
  shows "\<exists>s'. rx_add_timer (Some p) None delay (Some c) s = Some (Sleeps, s') \<and>
              curr_running_task s' = Some h \<and> ready_queue s' (h # ys) \<and>
              active_timers s' (insert_timer (timer_expiry s0) p ts) \<and>
              timer_expiry s' p = delay + jiffies s \<and>
              (\<forall>a. same_but_links (timers s0 a) (timers s' a)) \<and>
              tasks s' c = Some (t\<lparr>t_timer := Some p, t_state := RX_TASK_SUSPEND, t_next := NULL\<rparr>)"
proof -
  let ?tm = "sleeping_timer delay (Some c) tm"
  let ?s1 = "s\<lparr>timers := (timers s)(p \<mapsto> ?tm)\<rparr>"
  have ts1: "active_timers ?s1 ts"
  proof -
    have "map (timer_expiry ?s1) ts = map (timer_expiry s) ts"
      using p(1) by (auto simp: timer_expiry_def)
    then show ?thesis
      using ts p(1) by (simp add: active_timers_def dlst_def del: map_eq_conv)
  qed
  have s0: "s0 = ?s1\<lparr>timers := (timers ?s1)(p \<mapsto> armed (jiffies ?s1) ?tm)\<rparr>" by (simp add: s0_def)
  obtain s2 where s2: "rx_add_to_active_timer_list (Some p) ?s1 = Some s2"
    "active_timers s2 (insert_timer (timer_expiry s0) p ts)" "retimed (insert p (set ts)) s0 s2"
    using add_to_active_spec [OF ts1 p(1), of ?tm] unfolding s0 by auto
  have t2: "tasks s2 c = Some t" "curr_running_task s2 = Some c" "ready_queue s2 xs"
    using retimed_fields [OF s2(3)] t c q ready_queue_retimed [OF s2(3)] ready_queue_cong [of s0 s]
    by (simp_all add: s0_def)
  let ?f = "\<lambda>t. t\<lparr>t_timer := Some p, t_state := RX_TASK_SUSPEND\<rparr>"
  let ?s4 = "s2\<lparr>tasks := (tasks s2)(c \<mapsto> ?f t)\<rparr>"
  obtain s5 where s5: "rx_remove_from_ready_q (Some c) ?s4 = Some (OS_OK, s5)"
    "ready_queue s5 (remove1 c xs)" "tasks s5 c = Some ((?f t)\<lparr>t_next := NULL\<rparr>)"
    "relinked (set xs) ?s4 s5"
    using depart_spec [OF t2(3) c(2) t2(1), of ?f] by auto
  have "c \<notin> set (h # ys)" using ready_queue_distinct [OF q] rest
    by (metis distinct_remove1 set_remove1_eq DiffE singletonI)
  then have ch: "c \<noteq> h" by simp
  have c5: "curr_running_task s5 = Some c" using relinked_fields(11) [OF s5(4)] t2 by simp
  have c5': "tasks s5 c \<noteq> None" using s5(3) by simp
  obtain u s6 where s6: "sched_then (\<lambda>s. Some (Returns OS_OK, s)) s5 = Some (Sleeps, s6)"
    "ready_queue s6 (h # ys)" "s6 = s5\<lparr>tasks := (tasks s5)(h \<mapsto> dispatched u), curr_running_task := Some h,
            need_resched := False, critical := critical s5 \<and> in_irq s5\<rparr>"
    using sched_away [OF _ c5 c5' ch] s5(2) rest by force
  have "rx_add_timer (Some p) None delay (Some c) s = Some (Sleeps, s6)"
    using p s2(1) t2(1) s5(1) s6(1) by (simp add: rx_add_timer_def sleeping_timer_def)
  moreover have act: "active_timers s6 (insert_timer (timer_expiry s0) p ts)"
    using s2(2) active_timers_relinked [OF s5(4)] active_timers_cong [of s6 s5]
      active_timers_cong [of ?s4 s2] s6(3) by simp
  moreover have tm6: "timers s6 = timers s2" using s6(3) relinked_fields(1) [OF s5(4)] by simp
  moreover have "timer_expiry s6 p = delay + jiffies s"
  proof -
    have "timer_expiry s6 p = timer_expiry s2 p" using tm6 by (simp add: timer_expiry_def)
    also have "\<dots> = timer_expiry s0 p" by (rule retimed_expiry [OF s2(3)])
    finally show ?thesis by (simp add: s0_def timer_expiry_def armed_def sleeping_timer_def)
  qed
  moreover have "tasks s6 c = Some (t\<lparr>t_timer := Some p, t_state := RX_TASK_SUSPEND, t_next := NULL\<rparr>)"
    using s5(3) s6(3) ch by simp
  ultimately show ?thesis using s6 retimed_same [OF s2(3)] by auto
qed

text \<open>
  The expiry loop on sleepers. \<open>w\<close> names the task behind each due timer; the woken tasks
  are queued in the order of their expiry.
\<close>

definition sleeper :: "kstate \<Rightarrow> (addr \<Rightarrow> addr) \<Rightarrow> addr \<Rightarrow> bool" where
  "sleeper s w p \<longleftrightarrow> (\<exists>tm. timers s p = Some tm \<and> tm_handler tm = None \<and> tm_task tm = Some (w p) \<and>
                       tasks s (w p) \<noteq> None)"

definition wake_order :: "(addr \<Rightarrow> int) \<Rightarrow> addr list \<Rightarrow> addr list \<Rightarrow> addr list" where
  "wake_order pr ws xs = foldl (\<lambda>q a. insert_prio pr a q) xs ws"

lemma wake_order_simps [simp]:
  "wake_order pr [] xs = xs"
  "wake_order pr (a # ws) xs = wake_order pr ws (insert_prio pr a xs)"
  by (simp_all add: wake_order_def)

lemma wake_order_cong:
  "(\<And>a. pr a = pr' a) \<Longrightarrow> wake_order pr ws xs = wake_order pr' ws xs"
  by (rule arg_cong [where f = "\<lambda>p. wake_order p ws xs"]) auto

lemma set_wake_order [simp]: "set (wake_order pr ws xs) = set ws \<union> set xs"
  by (induction ws arbitrary: xs) auto

lemma expire_step_spec:
  assumes q: "ready_queue s xs" and ts: "active_timers s (p # ts)"
    and sl: "sleeper s w p" "w p \<notin> set xs"
  shows "\<exists>tm s1 s2 s3 s'. timers s p = Some tm \<and> tm_handler tm = None \<and> tm_task tm = Some (w p) \<and>
       upd_task (tm_task tm) (\<lambda>t. t\<lparr>t_state := RX_TASK_READY\<rparr>) s = Some s1 \<and>
       rx_add_to_ready_q (tm_task tm) s1 = Some (OS_OK, s2) \<and>
       upd_task (tm_task tm) (\<lambda>t. t\<lparr>t_timer := NULL\<rparr>) s2 = Some s3 \<and>
       rx_remove_from_timer_list (Some p) s3 = Some s' \<and>
       ready_queue s' (insert_prio (task_prio s) (w p) xs) \<and> active_timers s' ts \<and>
       (\<forall>a. task_prio s' a = task_prio s a) \<and> (\<forall>a. timer_expiry s' a = timer_expiry s a) \<and>
       (\<forall>a. same_but_links (timers s a) (timers s' a)) \<and>
       (\<forall>a. tasks s' a = None \<longleftrightarrow> tasks s a = None) \<and> jiffies s' = jiffies s"
proof -
  obtain tm t where tm: "timers s p = Some tm" "tm_handler tm = None" "tm_task tm = Some (w p)"
    and t: "tasks s (w p) = Some t" using sl(1) by (auto simp: sleeper_def)
  let ?f = "\<lambda>t. t\<lparr>t_state := RX_TASK_READY\<rparr>"
  let ?s1 = "s\<lparr>tasks := (tasks s)(w p \<mapsto> ?f t)\<rparr>"
  have pr1: "task_prio ?s1 a = task_prio s a" for a using t by (simp add: task_prio_def)
  obtain s2 where s2: "rx_add_to_ready_q (Some (w p)) ?s1 = Some (OS_OK, s2)"
    "ready_queue s2 (insert_prio (task_prio ?s1) (w p) xs)" "relinked (insert (w p) (set xs)) ?s1 s2"
    using wake_spec [OF q sl(2) t, of ?f] by auto
  obtain n where t2: "tasks s2 (w p) = Some ((?f t)\<lparr>t_next := n\<rparr>)"
    using relinked_task [OF s2(3), of "w p"] by auto
  let ?t3 = "(?f t)\<lparr>t_next := n, t_timer := NULL\<rparr>"
  let ?s3 = "s2\<lparr>tasks := (tasks s2)(w p \<mapsto> ?t3)\<rparr>"
  have q3: "ready_queue ?s3 (insert_prio (task_prio ?s1) (w p) xs)"
    by (rule ready_queue_upd [OF s2(2) t2]) simp_all
  have tm3: "timers ?s3 = timers s" using relinked_fields(1) [OF s2(3)] by simp
  have "active_timers ?s3 (p # ts)"
    using ts active_timers_cong [of ?s3 s] tm3 relinked_fields(15) [OF s2(3)] by simp
  from remove_timer_spec [OF this, of p] obtain s' where s':
    "rx_remove_from_timer_list (Some p) ?s3 = Some s'" "active_timers s' ts" "retimed (set (p # ts)) ?s3 s'"
    using dlst_distinct ts by (force simp: active_timers_def)
  have pr: "task_prio s' a = task_prio s a" for a
    using retimed_fields(1) [OF s'(3)] relinked_prio [OF s2(3), of a] pr1 [of a] t2
    by (simp add: task_prio_def split: if_splits)
  have io: "insert_prio (task_prio ?s1) (w p) xs = insert_prio (task_prio s) (w p) xs"
    by (rule insert_prio_cong) (rule pr1)
  have "timer_expiry s' a = timer_expiry s a" for a
    using retimed_expiry [OF s'(3), of a] tm3 by (simp add: timer_expiry_def)
  moreover have "same_but_links (timers s a) (timers s' a)" for a
    using retimed_same [OF s'(3), of a] tm3 by simp
  moreover have "tasks s' a = None \<longleftrightarrow> tasks s a = None" for a
    using retimed_fields(1) [OF s'(3)] relinked_task_None [OF s2(3), of a] t
    by (simp split: if_splits)
  moreover have "jiffies s' = jiffies s"
    using retimed_fields(3) [OF s'(3)] relinked_fields(14) [OF s2(3)] by simp
  ultimately show ?thesis
    using tm t s2(1) t2 s'(1,2) q3 ready_queue_retimed [OF s'(3)] pr io by simp
qed

lemma expire_sleepers_spec:
  assumes "ready_queue s xs" and "active_timers s (due @ rest)"
    and "\<And>p. p \<in> set due \<Longrightarrow> sleeper s w p \<and> w p \<notin> set xs \<and> timer_expiry s p \<le> tick"
    and "inj_on w (set due)" and "\<And>p. p \<in> set rest \<Longrightarrow> tick < timer_expiry s p"
  shows "\<exists>s'. expire_timers run tick s = Some s' \<and> active_timers s' rest \<and>
              ready_queue s' (wake_order (task_prio s) (map w due) xs)"
  using assms
proof (induction due arbitrary: s xs)
  case Nil
  show ?case
  proof (cases rest)
    case Nil': Nil
    then have "active_timer_head s = NULL" using Nil.prems(2) by (simp add: active_timers_def)
    then have "expire_timers run tick s = Some s" by (subst expire_timers.simps) simp
    then show ?thesis using Nil.prems Nil' by simp
  next
    case (Cons r rs)
    then have h: "active_timer_head s = Some r" "timer_next s r \<noteq> None"
      using Nil.prems(2) by (auto simp: active_timers_def dlst_def)
    then obtain tm where tm: "timers s r = Some tm" by (auto simp: timer_next_def)
    have "tick < timer_expiry s r" using Nil.prems(5) Cons by simp
    then have "\<not> tm_time_expiry tm \<le> tick" using tm by (simp add: timer_expiry_def)
    then have "expire_timers run tick s = Some s"
      using h tm by (subst expire_timers.simps) simp
    then show ?thesis using Nil.prems Cons by simp
  qed
next
  case (Cons p due)
  have ts: "active_timers s (p # (due @ rest))" using Cons.prems(2) by simp
  have sl: "sleeper s w p" "w p \<notin> set xs" and ex: "timer_expiry s p \<le> tick"
    using Cons.prems(3) [of p] by auto
  obtain tm s1 s2 s3 s' where st: "timers s p = Some tm" "tm_handler tm = None" "tm_task tm = Some (w p)"
    "upd_task (tm_task tm) (\<lambda>t. t\<lparr>t_state := RX_TASK_READY\<rparr>) s = Some s1"
    "rx_add_to_ready_q (tm_task tm) s1 = Some (OS_OK, s2)"
    "upd_task (tm_task tm) (\<lambda>t. t\<lparr>t_timer := NULL\<rparr>) s2 = Some s3"
    "rx_remove_from_timer_list (Some p) s3 = Some s'"
    "ready_queue s' (insert_prio (task_prio s) (w p) xs)" "active_timers s' (due @ rest)"
    "\<forall>a. task_prio s' a = task_prio s a" "\<forall>a. timer_expiry s' a = timer_expiry s a"
    "\<forall>a. same_but_links (timers s a) (timers s' a)" "\<forall>a. tasks s' a = None \<longleftrightarrow> tasks s a = None"
    using expire_step_spec [OF Cons.prems(1) ts sl] by blast
  have "active_timer_head s = Some p" using ts by (auto simp: active_timers_def dlst_def)
  then have step: "expire_timers run tick s = expire_timers run tick s'"
    using st(1-7) ex by (subst expire_timers.simps) (simp add: timer_expiry_def)
  have "\<exists>s''. expire_timers run tick s' = Some s'' \<and> active_timers s'' rest \<and>
           ready_queue s'' (wake_order (task_prio s') (map w due) (insert_prio (task_prio s) (w p) xs))"
  proof (rule Cons.IH [OF st(8,9)])
    fix r assume r: "r \<in> set due"
    have "p \<noteq> r" using dlst_distinct ts r by (force simp: active_timers_def)
    then have "w r \<noteq> w p" using Cons.prems(4) r by (auto simp: inj_on_def)
    moreover have "sleeper s w r \<and> w r \<notin> set xs \<and> timer_expiry s r \<le> tick"
      using Cons.prems(3) [of r] r by simp
    moreover obtain tr where "timers s r = Some tr" "tm_handler tr = None" "tm_task tr = Some (w r)"
      "tasks s (w r) \<noteq> None" using calculation(2) by (auto simp: sleeper_def)
    moreover then have "sleeper s' w r"
      using st(12) [rule_format, of r] st(13) [rule_format, of "w r"] by (auto simp: sleeper_def)
    ultimately show "sleeper s' w r \<and> w r \<notin> set (insert_prio (task_prio s) (w p) xs) \<and>
        timer_expiry s' r \<le> tick"
      using st(11) by simp
  next
    show "inj_on w (set due)" using Cons.prems(4) by (rule inj_on_subset) auto
  next
    fix r assume "r \<in> set rest"
    then show "tick < timer_expiry s' r" using Cons.prems(5) st(11) by simp
  qed
  then show ?case using step wake_order_cong [of "task_prio s'" "task_prio s"] st(10) by simp
qed

section \<open>Properties\<close>

text \<open>
  A concrete state for the examples: task 5 sleeps on timer 100, which expires at tick 5;
  timer 101 expires at tick 9 and belongs to task 4; timer 102 is free.
\<close>

definition demo_timer :: "32 word \<Rightarrow> 32 word \<Rightarrow> ptr \<Rightarrow> ptr \<Rightarrow> ptr \<Rightarrow> timer_list" where
  "demo_timer ex fl tk nx pv = \<lparr>tm_time_expiry = ex, tm_delay = 3, tm_flag = fl, tm_handler = None,
     tm_priv = NULL, tm_task = tk, tm_next = nx, tm_prev = pv\<rparr>"

definition demo_sleep :: kstate where
  "demo_sleep = demo_ready\<lparr>timers := [100 \<mapsto> demo_timer 5 1 (Some 5) (Some 101) NULL,
     101 \<mapsto> demo_timer 9 1 (Some 4) NULL (Some 100), 102 \<mapsto> demo_timer 0 0 NULL NULL NULL],
     active_timer_head := Some 100, jiffies := 4\<rparr>"

lemma demo_sleep_simps [simp]:
  "timers demo_sleep = [100 \<mapsto> demo_timer 5 1 (Some 5) (Some 101) NULL,
     101 \<mapsto> demo_timer 9 1 (Some 4) NULL (Some 100), 102 \<mapsto> demo_timer 0 0 NULL NULL NULL]"
  "tasks demo_sleep = tasks demo_ready" "task_ready_head demo_sleep = Some 1"
  "curr_running_task demo_sleep = Some 1" "active_timer_head demo_sleep = Some 100"
  "jiffies demo_sleep = 4"
  by (simp_all add: demo_sleep_def)

lemma demo_timer_simps [simp]:
  "tm_time_expiry (demo_timer ex fl tk nx pv) = ex" "tm_flag (demo_timer ex fl tk nx pv) = fl"
  "tm_next (demo_timer ex fl tk nx pv) = nx" "tm_prev (demo_timer ex fl tk nx pv) = pv"
  "tm_delay (demo_timer ex fl tk nx pv) = 3" "tm_handler (demo_timer ex fl tk nx pv) = None"
  "tm_task (demo_timer ex fl tk nx pv) = tk"
  by (simp_all add: demo_timer_def)

lemma demo_sleep_ready: "ready_queue demo_sleep [1, 2, 3]"
  using demo_ready_queue ready_queue_cong [of demo_sleep demo_ready] by simp

lemma demo_sleep_active: "active_timers demo_sleep [100, 101]"
  by (simp add: active_timers_def dlst_def timer_next_def timer_prev_def timer_expiry_def)

text \<open>
  C14. Starting a stopped timer: \<^verbatim>\<open>rx_start_timer\<close> returns, marks the timer enabled
  and inserts it into the active list in the order of expiry, in front of the timers that
  expire at the same tick; without a wrap-around of the tick counter it is due exactly
  \<^verbatim>\<open>delay\<close> ticks from now. The tasks and their queue are untouched.
\<close>

theorem start_timer_ordered:
  assumes ts: "active_timers s ts" and a: "a \<notin> set ts" "timers s a = Some t"
    and off: "tm_flag t AND RX_TIMER_ENABLED = 0" and nw: "unat (tm_delay t) + unat (jiffies s) < 2 ^ 32"
  shows "\<exists>s' t'. rx_start_timer (Some a) s = Some s' \<and>
             active_timers s' (insert_timer (timer_expiry s') a ts) \<and>
             timers s' a = Some t' \<and> tm_flag t' AND RX_TIMER_ENABLED \<noteq> 0 \<and>
             unat (tm_time_expiry t') = unat (jiffies s) + unat (tm_delay t) \<and>
             tasks s' = tasks s \<and> task_ready_head s' = task_ready_head s"
proof -
  let ?t = "armed (jiffies s) t" and ?s0 = "s\<lparr>timers := (timers s)(a \<mapsto> armed (jiffies s) t)\<rparr>"
  obtain s' where s': "rx_add_to_active_timer_list (Some a) s = Some s'"
    "active_timers s' (insert_timer (timer_expiry ?s0) a ts)" "retimed (insert a (set ts)) ?s0 s'"
    using add_to_active_spec [OF ts a] by blast
  obtain n p where t': "timers s' a = Some (?t\<lparr>tm_next := n, tm_prev := p\<rparr>)"
    using retimed_timer [OF s'(3), of a ?t] by auto
  have "(tm_flag t OR RX_TIMER_ENABLED) AND RX_TIMER_ENABLED = RX_TIMER_ENABLED"
    by (simp add: RX_TIMER_ENABLED_def and_one_eq or_one_eq mod_2_eq_odd)
  moreover have "RX_TIMER_ENABLED \<noteq> 0" by (simp add: RX_TIMER_ENABLED_def)
  moreover have "unat (tm_delay t + jiffies s) = unat (jiffies s) + unat (tm_delay t)"
    using nw by (simp add: unat_word_ariths)
  moreover have "timer_expiry s' = timer_expiry ?s0" using retimed_expiry [OF s'(3)] by (rule ext)
  ultimately show ?thesis
    using s' t' a(2) off retimed_fields(1,2) [OF s'(3)]
    by (intro exI [of _ s'] exI [of _ "?t\<lparr>tm_next := n, tm_prev := p\<rparr>"])
      (simp add: rx_start_timer_def armed_def)
qed

theorem start_timer_ordered_witness:
  "\<exists>s' t'. rx_start_timer (Some 102) demo_sleep = Some s' \<and>
     active_timers s' (insert_timer (timer_expiry s') 102 [100, 101]) \<and>
     timers s' 102 = Some t' \<and> unat (tm_time_expiry t') = 7"
  using start_timer_ordered [OF demo_sleep_active, of 102 "demo_timer 0 0 NULL NULL NULL"] by auto

text \<open>
  Stopping an enabled timer that is alone or not the last of the active list: it is
  removed, the others keep their order, and the timer is marked disabled.
\<close>

theorem stop_timer_removes:
  assumes ts: "active_timers s ts" and a: "a \<in> set ts" "timers s a = Some t"
    and on: "tm_flag t AND RX_TIMER_ENABLED \<noteq> 0" and nl: "ts = [a] \<or> a \<noteq> last ts"
  shows "\<exists>s' t'. rx_stop_timer (Some a) s = Some s' \<and> active_timers s' (remove1 a ts) \<and>
              timers s' a = Some t' \<and> tm_flag t' AND RX_TIMER_ENABLED = 0 \<and> tasks s' = tasks s"
proof -
  obtain s1 where s1: "rx_remove_from_timer_list (Some a) s = Some s1" "active_timers s1 (remove1 a ts)"
    "retimed (set ts) s s1"
    using remove_timer_spec [OF ts a(1) nl] by blast
  obtain n p where t1: "timers s1 a = Some (t\<lparr>tm_next := n, tm_prev := p\<rparr>)"
    using retimed_timer [OF s1(3) a(2)] by blast
  let ?t' = "t\<lparr>tm_next := n, tm_prev := p, tm_flag := tm_flag t AND RX_TIMER_DISABLED\<rparr>"
  let ?s' = "s1\<lparr>timers := (timers s1)(a \<mapsto> ?t')\<rparr>"
  have "timer_expiry ?s' = timer_expiry s1" using t1 by (auto simp: timer_expiry_def)
  moreover have "timer_next ?s' = timer_next s1" "timer_prev ?s' = timer_prev s1"
    using t1 by (auto simp: timer_next_def timer_prev_def)
  ultimately have "active_timers ?s' (remove1 a ts)"
    using s1(2) by (simp add: active_timers_def del: timer_links_upd)
  moreover have "rx_stop_timer (Some a) s = Some ?s'"
    using s1(1) a(2) on t1 by (simp add: rx_stop_timer_def)
  moreover have "tm_flag ?t' AND RX_TIMER_ENABLED = 0"
    by (simp add: RX_TIMER_ENABLED_def RX_TIMER_DISABLED_def and_one_eq mod_2_eq_odd even_and_iff)
  ultimately show ?thesis using retimed_fields(1) [OF s1(3)] by auto
qed

theorem stop_timer_removes_witness:
  "\<exists>s' t'. rx_stop_timer (Some 100) demo_sleep = Some s' \<and> active_timers s' [101] \<and>
     timers s' 100 = Some t' \<and> tm_flag t' AND RX_TIMER_ENABLED = 0"
  using stop_timer_removes [OF demo_sleep_active, of 100 "demo_timer 5 1 (Some 5) (Some 101) NULL"]
  by (auto simp: RX_TIMER_ENABLED_def)

text \<open>
  The last of several active timers cannot be stopped: \<^verbatim>\<open>p->next->prev\<close> is written
  through the NULL pointer in its \<^verbatim>\<open>next\<close> field.
\<close>

theorem stop_last_timer_faults:
  assumes "active_timers s (pre @ [b, a])" and "timers s a = Some t"
    and "tm_flag t AND RX_TIMER_ENABLED \<noteq> 0"
  shows "rx_stop_timer (Some a) s = None"
  using remove_timer_last_faults [of s pre b a] assms
  by (simp add: rx_stop_timer_def active_timers_def)

theorem stop_last_timer_faults_witness: "rx_stop_timer (Some 101) demo_sleep = None"
  using stop_last_timer_faults [of demo_sleep "[]" 100 101] demo_sleep_active
  by (simp add: RX_TIMER_ENABLED_def)

text \<open>
  \<^verbatim>\<open>rx_msleep\<close> with a time in range puts its caller to sleep: the caller leaves the
  ready queue in state SUSPEND, the head of the remaining queue gets the processor, and the
  caller's timer is in the active list, due after \<^verbatim>\<open>time / CONFIG_HZ\<close> ticks, at least one.
\<close>

theorem msleep_blocks:
  assumes q: "ready_queue s xs" and c: "curr_running_task s = Some c" "c \<in> set xs"
    and rest: "remove1 c xs = h # ys" and t: "tasks s c = Some t"
    and ts: "active_timers s ts" and p: "p \<notin> set ts" "timers s p = Some tm"
    and time: "0 < time" "time \<le> 100000"
  shows "\<exists>s' tm'. rx_msleep (Some p) time s = Some (Sleeps, s') \<and> curr_running_task s' = Some h \<and>
             ready_queue s' (h # ys) \<and> active_timers s' (insert_timer (timer_expiry s') p ts) \<and>
             timers s' p = Some tm' \<and> tm_handler tm' = None \<and> tm_task tm' = Some c \<and>
             tm_time_expiry tm' = jiffies s + (if time < 100 then 1 else time div 100) \<and>
             tasks s' c = Some (t\<lparr>t_timer := Some p, t_state := RX_TASK_SUSPEND, t_next := NULL\<rparr>)"
proof -
  let ?d = "msleep_ticks time"
  let ?tm = "armed (jiffies s) (sleeping_timer ?d (Some c) tm)"
  let ?s0 = "s\<lparr>timers := (timers s)(p \<mapsto> ?tm)\<rparr>"
  obtain s' where s': "rx_add_timer (Some p) None ?d (Some c) s = Some (Sleeps, s')"
    "curr_running_task s' = Some h" "ready_queue s' (h # ys)"
    "active_timers s' (insert_timer (timer_expiry ?s0) p ts)"
    "\<forall>a. same_but_links (timers ?s0 a) (timers s' a)"
    "tasks s' c = Some (t\<lparr>t_timer := Some p, t_state := RX_TASK_SUSPEND, t_next := NULL\<rparr>)"
    using add_timer_sleep_spec [OF q c rest t ts p, of ?d] by blast
  obtain n pv where tm': "timers s' p = Some (?tm\<lparr>tm_next := n, tm_prev := pv\<rparr>)"
    using s'(5) [rule_format, of p] by auto
  have "timer_expiry s' a = timer_expiry ?s0 a" for a
    using s'(5) [rule_format, of a] by (cases "timers ?s0 a") (auto simp: timer_expiry_def)
  then have ex: "timer_expiry s' = timer_expiry ?s0" by (rule ext)
  have "time div 100 = 0 \<longleftrightarrow> time < 100"
    by (simp add: unat_eq_zero [symmetric] unat_div word_less_nat_alt div_eq_0_iff)
  then have "?d = (if time < 100 then 1 else time div 100)"
    by (simp add: msleep_ticks_def CONFIG_HZ_def Let_def)
  moreover have "rx_msleep (Some p) time s = Some (Sleeps, s')"
    using s'(1) c(1) time by (auto simp: rx_msleep_def)
  ultimately show ?thesis using s' tm' ex
    by (intro exI [of _ s'] exI [of _ "?tm\<lparr>tm_next := n, tm_prev := pv\<rparr>"])
      (simp add: armed_def sleeping_timer_def)
qed

theorem msleep_blocks_witness:
  "\<exists>s' tm'. rx_msleep (Some 102) 250 demo_sleep = Some (Sleeps, s') \<and> curr_running_task s' = Some 2 \<and>
     ready_queue s' [2, 3] \<and> timers s' 102 = Some tm' \<and> tm_time_expiry tm' = 6"
  using msleep_blocks [OF demo_sleep_ready, of 1 2 "[3]" "demo_task RX_TASK_RUNNING 2 (Some 2)"
      "[100, 101]" 102 "demo_timer 0 0 NULL NULL NULL" 250] demo_sleep_active
  by auto

text \<open>
  C15. The timer thread wakes exactly the sleepers that are due: when the first timers of the
  active list are due sleepers and the others are not due, the expiry loop ends, the due
  timers are gone, the others are still active, and the sleeping tasks have been queued by
  priority in the order in which their timers expire.
\<close>

theorem expire_wakes_due:
  assumes "ready_queue s xs" and "active_timers s (due @ rest)"
    and "\<forall>p\<in>set due. sleeper s w p \<and> w p \<notin> set xs \<and> timer_expiry s p \<le> tick"
    and "inj_on w (set due)" and "\<forall>p\<in>set rest. tick < timer_expiry s p"
  shows "\<exists>s'. expire_timers run tick s = Some s' \<and> active_timers s' rest \<and>
              ready_queue s' (wake_order (task_prio s) (map w due) xs)"
  using expire_sleepers_spec [of s xs due rest w tick run] assms by blast

theorem expire_wakes_due_witness:
  "\<exists>s'. expire_timers (\<lambda>h p s. Some s) 5 demo_sleep = Some s' \<and> active_timers s' [101] \<and>
        ready_queue s' [1, 2, 5, 3]"
proof -
  have "sleeper demo_sleep (\<lambda>p. 5) 100" by (simp add: sleeper_def)
  then show ?thesis
    using expire_wakes_due [OF demo_sleep_ready, of "[100]" "[101]" "\<lambda>p. 5" 5] demo_sleep_active
    by (auto simp: timer_expiry_def task_prio_def)
qed

end
