(* ===== verification/RX_Waiters.thy ===== *)
theory RX_Waiters
  imports RX_Timer
begin

text \<open>
  The waiting lists of the kernel objects. A semaphore, a mutex, a wait queue, a message
  queue, an event group and a block pool all keep a list of sleeping tasks, linked through the
  same \<^verbatim>\<open>next\<close> field as the ready queue. This theory holds the two fragments of code
  they share, appending the caller and waking everybody, and the interface
  \<open>waiter_queue\<close> of an object with such a list, which each component interprets.
\<close>

section \<open>Shared fragments\<close>

text \<open>
  \<^verbatim>\<open>if(!obj->task) obj->task = tcb; else { walk to the tail; tail->next = tcb; }\<close>
\<close>

definition enqueue_task ::
    "(kstate \<Rightarrow> ptr option) \<Rightarrow> (ptr \<Rightarrow> kstate \<Rightarrow> kstate option) \<Rightarrow> ptr \<Rightarrow> kstate \<Rightarrow> kstate option" where
  "enqueue_task get_head set_head tcb s =
     do { p \<leftarrow> get_head s;
          (case p of
             None \<Rightarrow> set_head tcb s
           | Some h \<Rightarrow> do { l \<leftarrow> walk_last (task_next s) h; set_task_next (Some l) tcb s }) }"

text \<open>
  \<^verbatim>\<open>while(obj->task) { release obj->task; ready = obj->task; obj->task = obj->task->next;
  __rx_add_to_ready_q(ready); }\<close> with \<open>release\<close> the writes to the task that differ from one
  object to the other.
\<close>

partial_function (option) wake_all ::
    "(kstate \<Rightarrow> ptr option) \<Rightarrow> (ptr \<Rightarrow> kstate \<Rightarrow> kstate option) \<Rightarrow>
     (ptr \<Rightarrow> kstate \<Rightarrow> kstate option) \<Rightarrow> kstate \<Rightarrow> kstate option" where
  "wake_all get_head set_head release s =
     do { p \<leftarrow> get_head s;
          (case p of
             None \<Rightarrow> Some s
           | Some ready \<Rightarrow>
               do { s1 \<leftarrow> release (Some ready) s;
                    t \<leftarrow> tasks s1 ready;
                    s2 \<leftarrow> set_head (t_next t) s1;
                    (_, s3) \<leftarrow> rx_add_to_ready_q (Some ready) s2;
                    wake_all get_head set_head release s3 }) }"

text \<open>The search of a timeout handler for a waiter that is not the first.\<close>

definition unlink_waiter :: "addr \<Rightarrow> addr \<Rightarrow> kstate \<Rightarrow> kstate option" where
  "unlink_waiter head task s =
     do { follow \<leftarrow> walk_to (task_next s) task head (Some head);
          t \<leftarrow> tasks s task;
          set_task_next (Some follow) (t_next t) s }"


section \<open>Masking the interrupt\<close>

lemma masked_queues [simp]:
  "ready_queue (rx_enter_critical s) xs = ready_queue s xs"
  "ready_queue (rx_exit_critical s) xs = ready_queue s xs"
  "active_timers (rx_enter_critical s) ts = active_timers s ts"
  "active_timers (rx_exit_critical s) ts = active_timers s ts"
  by (rule ready_queue_cong active_timers_cong; simp add: critical_eqs)+

lemma masked_fields [simp]:
  "tasks (rx_enter_critical s) = tasks s" "tasks (rx_exit_critical s) = tasks s"
  "sems (rx_enter_critical s) = sems s" "sems (rx_exit_critical s) = sems s"
  "mutexes (rx_enter_critical s) = mutexes s" "mutexes (rx_exit_critical s) = mutexes s"
  "wqueues (rx_enter_critical s) = wqueues s" "wqueues (rx_exit_critical s) = wqueues s"
  "mqueues (rx_enter_critical s) = mqueues s" "mqueues (rx_exit_critical s) = mqueues s"
  "egroups (rx_enter_critical s) = egroups s" "egroups (rx_exit_critical s) = egroups s"
  "bpools (rx_enter_critical s) = bpools s" "bpools (rx_exit_critical s) = bpools s"
  "timers (rx_enter_critical s) = timers s" "timers (rx_exit_critical s) = timers s"
  "curr_running_task (rx_enter_critical s) = curr_running_task s"
  "curr_running_task (rx_exit_critical s) = curr_running_task s"
  "task_ready_head (rx_enter_critical s) = task_ready_head s"
  "task_ready_head (rx_exit_critical s) = task_ready_head s"
  "active_timer_head (rx_enter_critical s) = active_timer_head s"
  "active_timer_head (rx_exit_critical s) = active_timer_head s"
  "in_irq (rx_enter_critical s) = in_irq s" "in_irq (rx_exit_critical s) = in_irq s"
  "jiffies (rx_enter_critical s) = jiffies s" "jiffies (rx_exit_critical s) = jiffies s"
  "sys_wait_list (rx_enter_critical s) = sys_wait_list s"
  "sys_wait_list (rx_exit_critical s) = sys_wait_list s"
  "mem (rx_enter_critical s) = mem s" "mem (rx_exit_critical s) = mem s"
  by (simp_all add: critical_eqs)

lemma masked_prio [simp]:
  "task_prio (rx_enter_critical s) = task_prio s" "task_prio (rx_exit_critical s) = task_prio s"
  by (simp_all add: fun_eq_iff task_prio_def)


section \<open>Waiting lists\<close>

definition waiting :: "(kstate \<Rightarrow> ptr option) \<Rightarrow> kstate \<Rightarrow> addr list \<Rightarrow> bool" where
  "waiting get_head s ws \<longleftrightarrow> (\<exists>h. get_head s = Some h \<and> lst (task_next s) h ws)"

text \<open>Everything the list of waiters lives beside: an update of the object itself keeps it.\<close>

definition outside_objects :: "kstate \<Rightarrow> kstate \<Rightarrow> bool" where
  "outside_objects s s' \<longleftrightarrow>
     tasks s' = tasks s \<and> task_ready_head s' = task_ready_head s \<and>
     curr_running_task s' = curr_running_task s \<and> need_resched s' = need_resched s \<and>
     timers s' = timers s \<and> active_timer_head s' = active_timer_head s \<and>
     jiffies s' = jiffies s \<and> in_irq s' = in_irq s \<and> critical s' = critical s \<and>
     task_list_head s' = task_list_head s"

lemma waiting_cong:
  "get_head s' = get_head s \<Longrightarrow> tasks s' = tasks s \<Longrightarrow> waiting get_head s' ws = waiting get_head s ws"
  by (simp add: waiting_def task_next_cong [of s' s])

lemma waiting_distinct: "waiting g s ws \<Longrightarrow> distinct ws"
  by (auto simp: waiting_def dest: lst_distinct)

lemma waiting_hd:
  assumes "waiting g s (w # ws)"
  shows "g s = Some (Some w)" and "\<exists>t. tasks s w = Some t \<and> lst (task_next s) (t_next t) ws"
  using assms by (auto simp: waiting_def task_next_eq_Some)

lemma waiting_task: "waiting g s ws \<Longrightarrow> a \<in> set ws \<Longrightarrow> tasks s a \<noteq> None"
  by (auto simp: waiting_def task_next_def dest!: lst_mapped)

lemma waiting_unique: "waiting g s ws \<Longrightarrow> waiting g s vs \<Longrightarrow> ws = vs"
  by (auto simp: waiting_def dest: lst_unique)

lemma outside_ready: "outside_objects s s' \<Longrightarrow> ready_queue s' xs = ready_queue s xs"
  by (rule ready_queue_cong) (simp_all add: outside_objects_def)

lemma outside_active: "outside_objects s s' \<Longrightarrow> active_timers s' ts = active_timers s ts"
  by (rule active_timers_cong) (simp_all add: outside_objects_def)

lemma outside_prio: "outside_objects s s' \<Longrightarrow> task_prio s' a = task_prio s a"
  by (simp add: outside_objects_def task_prio_def)

text \<open>
  The interface of an object that holds the head of a waiting list. \<open>get_head s\<close> is
  \<open>None\<close> where the object does not exist; \<open>payload s\<close> is what the object holds besides the list.
\<close>

locale waiter_queue =
  fixes get_head :: "kstate \<Rightarrow> ptr option"
    and set_head :: "ptr \<Rightarrow> kstate \<Rightarrow> kstate option"
    and payload :: "kstate \<Rightarrow> 'b"
  assumes set_head_ok:
      "get_head s \<noteq> None \<Longrightarrow>
         \<exists>s'. set_head p s = Some s' \<and> get_head s' = Some p \<and> payload s' = payload s \<and>
              outside_objects s s'"
    and frame_tasks: "get_head (s\<lparr>tasks := tk\<rparr>) = get_head s" "payload (s\<lparr>tasks := tk\<rparr>) = payload s"
    and frame_ready: "get_head (s\<lparr>task_ready_head := h\<rparr>) = get_head s"
      "payload (s\<lparr>task_ready_head := h\<rparr>) = payload s"
    and frame_resched: "get_head (s\<lparr>need_resched := b\<rparr>) = get_head s"
      "payload (s\<lparr>need_resched := b\<rparr>) = payload s"
    and frame_critical: "get_head (s\<lparr>critical := c\<rparr>) = get_head s"
      "payload (s\<lparr>critical := c\<rparr>) = payload s"
    and frame_timers: "get_head (s\<lparr>timers := tm\<rparr>) = get_head s" "payload (s\<lparr>timers := tm\<rparr>) = payload s"
    and frame_active: "get_head (s\<lparr>active_timer_head := ah\<rparr>) = get_head s"
      "payload (s\<lparr>active_timer_head := ah\<rparr>) = payload s"
    and frame_curr: "get_head (s\<lparr>curr_running_task := r\<rparr>) = get_head s"
      "payload (s\<lparr>curr_running_task := r\<rparr>) = payload s"
begin

lemmas head_frame = frame_tasks frame_ready frame_resched frame_critical
  frame_timers frame_active frame_curr

lemma head_relinked:
  "relinked A s s' \<Longrightarrow> get_head s' = get_head s" "relinked A s s' \<Longrightarrow> payload s' = payload s"
  by (erule relinkedE, simp add: head_frame)+

lemma head_retimed:
  "retimed A s s' \<Longrightarrow> get_head s' = get_head s" "retimed A s s' \<Longrightarrow> payload s' = payload s"
  by (erule retimedE, simp add: head_frame)+

lemma payload_critical [simp]:
  "payload (rx_enter_critical s) = payload s" "payload (rx_exit_critical s) = payload s"
  by (simp_all add: critical_eqs head_frame)

lemma waiting_relinked:
  assumes "waiting get_head s ws" and "relinked A s s'" and "set ws \<inter> A = {}"
  shows "waiting get_head s' ws"
  using assms relinked_chain [OF assms(2,3)]
  by (simp add: waiting_def head_relinked(1) [OF assms(2)])

lemma waiting_retimed: "retimed A s s' \<Longrightarrow> waiting get_head s' ws = waiting get_head s ws"
  by (rule waiting_cong) (simp_all add: head_retimed(1) retimed_fields)

lemma waiting_upd_absent:
  "a \<notin> set ws \<Longrightarrow> waiting get_head (s\<lparr>tasks := (tasks s)(a \<mapsto> t)\<rparr>) ws = waiting get_head s ws"
  by (simp add: waiting_def head_frame)

lemma waiting_upd_same:
  "tasks s a = Some t \<Longrightarrow> t_next t' = t_next t \<Longrightarrow>
     waiting get_head (s\<lparr>tasks := (tasks s)(a \<mapsto> t')\<rparr>) ws = waiting get_head s ws"
  by (simp add: waiting_def head_frame task_next_upd_same del: task_next_upd)

lemma waiting_sched:
  assumes "waiting get_head s ws" and "tasks s a = Some t"
  shows "waiting get_head (s\<lparr>tasks := (tasks s)(a \<mapsto> dispatched t), curr_running_task := r,
           need_resched := b, critical := c\<rparr>) ws"
proof -
  let ?s1 = "s\<lparr>tasks := (tasks s)(a \<mapsto> dispatched t)\<rparr>"
  have "waiting get_head ?s1 ws" using waiting_upd_same [OF assms(2)] assms(1) by simp
  then show ?thesis by (subst waiting_cong [of _ _ ?s1]) (simp_all add: head_frame)
qed

lemma waiting_critical [simp]:
  "waiting get_head (rx_enter_critical s) ws = waiting get_head s ws"
  "waiting get_head (rx_exit_critical s) ws = waiting get_head s ws"
  by (rule waiting_cong; simp add: critical_eqs head_frame)+

text \<open>Taking the first waiter off the list.\<close>

lemma pop_waiter:
  assumes "waiting get_head s (w # ws)" and "tasks s w = Some t"
  shows "\<exists>s'. set_head (t_next t) s = Some s' \<and> waiting get_head s' ws \<and> outside_objects s s' \<and>
              payload s' = payload s"
proof -
  have g: "get_head s = Some (Some w)" and l: "lst (task_next s) (t_next t) ws"
    using waiting_hd [OF assms(1)] assms(2) by auto
  obtain s' where s': "set_head (t_next t) s = Some s'" "get_head s' = Some (t_next t)"
    "outside_objects s s'" "payload s' = payload s"
    using set_head_ok [of s "t_next t"] g by auto
  then have "task_next s' = task_next s"
    by (intro task_next_cong) (simp add: outside_objects_def)
  with s' l show ?thesis by (simp add: waiting_def)
qed

text \<open>Appending a task whose link is clear.\<close>

lemma enqueue_spec:
  assumes w: "waiting get_head s ws" and c: "c \<notin> set ws" "tasks s c = Some t" "t_next t = NULL"
    and q: "ready_queue s xs" "set xs \<inter> set ws = {}"
  shows "\<exists>s'. enqueue_task get_head set_head (Some c) s = Some s' \<and> waiting get_head s' (ws @ [c]) \<and>
              ready_queue s' xs \<and> tasks s' c = Some t \<and>
              (\<forall>b. b \<notin> set ws \<longrightarrow> tasks s' b = tasks s b) \<and>
              (\<forall>b. same_but_next (tasks s b) (tasks s' b)) \<and>
              curr_running_task s' = curr_running_task s \<and> critical s' = critical s \<and>
              in_irq s' = in_irq s \<and> timers s' = timers s \<and>
              active_timer_head s' = active_timer_head s \<and> jiffies s' = jiffies s \<and>
              payload s' = payload s"
proof (cases ws)
  case Nil
  then have g: "get_head s = Some NULL" using w by (auto simp: waiting_def)
  obtain s' where s': "set_head (Some c) s = Some s'" "get_head s' = Some (Some c)" "outside_objects s s'"
    "payload s' = payload s"
    using set_head_ok [of s "Some c"] g by auto
  then have "task_next s' = task_next s"
    by (intro task_next_cong) (simp add: outside_objects_def)
  then have "waiting get_head s' [c]" using s'(2) c by (simp add: waiting_def task_next_def)
  then show ?thesis
    using s' g Nil c q(1) outside_ready [OF s'(3)]
    by (simp add: enqueue_task_def outside_objects_def)
next
  case (Cons h hs)
  then have g: "get_head s = Some (Some h)" and l: "lst (task_next s) (Some h) ws"
    using w by (auto simp: waiting_def)
  have "task_next s c = Some NULL" using c by (simp add: task_next_def)
  from tnext.walk_append [OF l c(1) this] obtain b s' where b:
    "walk_last (task_next s) h = Some b" "set_task_next (Some b) (Some c) s = Some s'"
    "task_next s' = (task_next s)(b := Some (Some c))" "b \<in> set ws"
    "lst (task_next s') (Some h) (ws @ [c])" by blast
  obtain tb where tb: "tasks s b = Some tb" using waiting_task [OF w b(4)] by auto
  then have s': "s' = s\<lparr>tasks := (tasks s)(b \<mapsto> tb\<lparr>t_next := Some c\<rparr>)\<rparr>"
    using b(2) by (simp add: set_task_next_def)
  have "ready_queue s' xs"
    unfolding s' by (rule ready_queue_upd_absent [OF q(1)]) (use b(4) q(2) in auto)
  moreover have "waiting get_head s' (ws @ [c])"
    using b(5) g by (simp add: waiting_def s' head_frame del: task_next_upd)
  moreover have "tasks s' c = Some t" using b(4) c by (auto simp: s')
  moreover have "\<forall>d. d \<notin> set ws \<longrightarrow> tasks s' d = tasks s d" using b(4) by (auto simp: s')
  moreover have "\<forall>d. same_but_next (tasks s d) (tasks s' d)"
  proof
    show "same_but_next (tasks s d) (tasks s' d)" for d using tb by (cases "d = b") (auto simp: s')
  qed
  moreover have "enqueue_task get_head set_head (Some c) s = Some s'"
    by (simp add: enqueue_task_def g b(1,2))
  moreover have "curr_running_task s' = curr_running_task s \<and> critical s' = critical s \<and>
      in_irq s' = in_irq s \<and> timers s' = timers s \<and>
      active_timer_head s' = active_timer_head s \<and> jiffies s' = jiffies s \<and> payload s' = payload s"
    by (simp add: s' head_frame)
  ultimately show ?thesis by blast
qed

text \<open>Going to sleep on the object: out of the ready queue, to the end of the list.\<close>

lemma block_spec:
  assumes q: "ready_queue s xs" and w: "waiting get_head s ws" and dj: "set xs \<inter> set ws = {}"
    and c: "c \<in> set xs" "tasks s c = Some t" and f: "t_next (f t) = t_next t"
  defines "s1 \<equiv> s\<lparr>tasks := (tasks s)(c \<mapsto> f t)\<rparr>"
  shows "\<exists>s2 s3. rx_remove_from_ready_q (Some c) s1 = Some (OS_OK, s2) \<and>
              curr_running_task s2 = curr_running_task s \<and>
              tasks s2 c = Some ((f t)\<lparr>t_next := NULL\<rparr>) \<and>
              enqueue_task get_head set_head (Some c) s2 = Some s3 \<and>
              ready_queue s3 (remove1 c xs) \<and> waiting get_head s3 (ws @ [c]) \<and>
              tasks s3 c = Some ((f t)\<lparr>t_next := NULL\<rparr>) \<and>
              (\<forall>b. b \<notin> set xs \<union> set ws \<longrightarrow> tasks s3 b = tasks s b) \<and>
              (\<forall>b. b \<noteq> c \<longrightarrow> same_but_next (tasks s b) (tasks s3 b)) \<and>
              curr_running_task s3 = curr_running_task s \<and> in_irq s3 = in_irq s \<and>
              critical s3 = (critical s \<and> in_irq s) \<and> timers s3 = timers s \<and>
              active_timer_head s3 = active_timer_head s \<and> jiffies s3 = jiffies s \<and>
              payload s3 = payload s"
proof -
  obtain s2 where s2: "rx_remove_from_ready_q (Some c) s1 = Some (OS_OK, s2)"
    "ready_queue s2 (remove1 c xs)" "tasks s2 c = Some ((f t)\<lparr>t_next := NULL\<rparr>)"
    "relinked (set xs) s1 s2" "critical s2 = (critical s \<and> in_irq s)"
    using depart_spec [where f = f, OF q c f] unfolding s1_def by blast
  have cw: "c \<notin> set ws" using c dj by auto
  have w1: "waiting get_head s1 ws" using w cw by (simp add: s1_def waiting_upd_absent)
  have w2: "waiting get_head s2 ws" by (rule waiting_relinked [OF w1 s2(4)]) (use dj in auto)
  have dj2: "set (remove1 c xs) \<inter> set ws = {}" using dj set_remove1_subset [of c xs] by blast
  obtain s3 where s3: "enqueue_task get_head set_head (Some c) s2 = Some s3"
    "waiting get_head s3 (ws @ [c])" "ready_queue s3 (remove1 c xs)"
    "tasks s3 c = Some ((f t)\<lparr>t_next := NULL\<rparr>)" "\<forall>b. b \<notin> set ws \<longrightarrow> tasks s3 b = tasks s2 b"
    "\<forall>b. same_but_next (tasks s2 b) (tasks s3 b)"
    "curr_running_task s3 = curr_running_task s2" "critical s3 = critical s2" "in_irq s3 = in_irq s2"
    "timers s3 = timers s2" "active_timer_head s3 = active_timer_head s2" "jiffies s3 = jiffies s2"
    "payload s3 = payload s2"
    using enqueue_spec [OF w2 cw s2(3) _ s2(2) dj2] by auto
  have "tasks s3 b = tasks s b" if "b \<notin> set xs \<union> set ws" for b
    using that s3(5) relinked_outside [OF s2(4), of b] c(1) by (auto simp: s1_def)
  moreover have "same_but_next (tasks s b) (tasks s3 b)" if "b \<noteq> c" for b
    using same_but_next_trans [OF relinked_same [OF s2(4), of b] s3(6) [rule_format, of b]] that
    by (simp add: s1_def)
  moreover note relinked_fields [OF s2(4)] head_relinked(2) [OF s2(4)]
  ultimately show ?thesis using s2 s3 by (simp add: s1_def head_frame)
qed

text \<open>Making a task ready that has been taken off the list.\<close>

lemma ready_waiter:
  assumes w: "waiting get_head s ws" and q: "ready_queue s xs" and dj: "set ws \<inter> set xs = {}"
    and a: "a \<notin> set ws" "a \<notin> set xs" "tasks s a = Some t" and g: "t_state (g t) = RX_TASK_READY"
  defines "s1 \<equiv> s\<lparr>tasks := (tasks s)(a \<mapsto> g t)\<rparr>"
  shows "\<exists>s' n. rx_add_to_ready_q (Some a) s1 = Some (OS_OK, s') \<and>
              ready_queue s' (insert_prio (task_prio s1) a xs) \<and> waiting get_head s' ws \<and>
              tasks s' a = Some ((g t)\<lparr>t_next := n\<rparr>) \<and> relinked (insert a (set xs)) s1 s' \<and>
              critical s' = (critical s \<and> in_irq s) \<and> payload s' = payload s"
proof -
  obtain s' where s': "rx_add_to_ready_q (Some a) s1 = Some (OS_OK, s')"
    "ready_queue s' (insert_prio (task_prio s1) a xs)" "relinked (insert a (set xs)) s1 s'"
    "critical s' = (critical s \<and> in_irq s)"
    using wake_spec [where f = g, OF q a(2,3) g] unfolding s1_def by blast
  have "waiting get_head s1 ws" using w a(1) by (simp add: s1_def waiting_upd_absent)
  then have "waiting get_head s' ws"
    by (rule waiting_relinked [OF _ s'(3)]) (use dj a in auto)
  moreover obtain n where "tasks s' a = Some ((g t)\<lparr>t_next := n\<rparr>)"
    using relinked_task [OF s'(3), of a] by (auto simp: s1_def)
  moreover have "payload s' = payload s" using head_relinked(2) [OF s'(3)] by (simp add: s1_def head_frame)
  ultimately show ?thesis using s' by blast
qed

text \<open>
  One turn of the wake-up loop, for a waiter that has no timer running, and then the loop.
\<close>

lemma wake_step:
  assumes q: "ready_queue s xs" and w: "waiting get_head s (a # ws)" and dj: "set (a # ws) \<inter> set xs = {}"
    and t: "tasks s a = Some t" and rel: "release (Some a) s = Some (s\<lparr>tasks := (tasks s)(a \<mapsto> g t)\<rparr>)"
    and g: "t_state (g t) = RX_TASK_READY" "t_next (g t) = t_next t" "t_prio (g t) = t_prio t"
  shows "\<exists>s' n. wake_all get_head set_head release s = wake_all get_head set_head release s' \<and>
              ready_queue s' (insert_prio (task_prio s) a xs) \<and> waiting get_head s' ws \<and>
              tasks s' a = Some ((g t)\<lparr>t_next := n\<rparr>) \<and>
              (\<forall>b. b \<noteq> a \<longrightarrow> same_but_next (tasks s b) (tasks s' b)) \<and>
              (\<forall>b. b \<notin> insert a (set xs) \<longrightarrow> tasks s' b = tasks s b) \<and>
              (\<forall>b. task_prio s' b = task_prio s b) \<and>
              curr_running_task s' = curr_running_task s \<and> in_irq s' = in_irq s \<and>
              payload s' = payload s"
proof -
  have d: "a \<notin> set ws" using waiting_distinct [OF w] by simp
  let ?s1 = "s\<lparr>tasks := (tasks s)(a \<mapsto> g t)\<rparr>"
  have w1: "waiting get_head ?s1 (a # ws)" using w waiting_upd_same [OF t g(2)] by simp
  have t1: "tasks ?s1 a = Some (g t)" by simp
  obtain s2 where s2: "set_head (t_next (g t)) ?s1 = Some s2" "waiting get_head s2 ws"
    "outside_objects ?s1 s2" "payload s2 = payload ?s1" using pop_waiter [OF w1 t1] by blast
  have q1: "ready_queue ?s1 xs" by (rule ready_queue_upd_absent [OF q]) (use dj in auto)
  have q2: "ready_queue s2 xs" using q1 outside_ready [OF s2(3)] by simp
  have t2: "tasks s2 a = Some (g t)" using s2(3) by (simp add: outside_objects_def)
  have s2': "s2\<lparr>tasks := (tasks s2)(a \<mapsto> g t)\<rparr> = s2" using t2 by (simp add: fun_upd_idem)
  have dj2: "set ws \<inter> set xs = {}" "a \<notin> set xs" using dj by auto
  obtain s' n where s': "rx_add_to_ready_q (Some a) s2 = Some (OS_OK, s')"
    "ready_queue s' (insert_prio (task_prio s2) a xs)" "waiting get_head s' ws"
    "tasks s' a = Some ((g t)\<lparr>t_next := n\<rparr>)" "relinked (insert a (set xs)) s2 s'"
    using ready_waiter [OF s2(2) q2 dj2(1) d dj2(2) t2, of "\<lambda>t. t"] g(1) unfolding s2' by blast
  have pr: "task_prio s2 b = task_prio s b" for b
    using s2(3) t g(3) by (simp add: outside_objects_def task_prio_def)
  then have "insert_prio (task_prio s2) a xs = insert_prio (task_prio s) a xs"
    by (intro insert_prio_cong) simp
  moreover have "wake_all get_head set_head release s = wake_all get_head set_head release s'"
    using waiting_hd(1) [OF w] rel s2(1) s'(1) by (subst wake_all.simps) simp
  moreover have "same_but_next (tasks s b) (tasks s' b)" if "b \<noteq> a" for b
    using relinked_same [OF s'(5), of b] s2(3) that by (simp add: outside_objects_def)
  moreover have "tasks s' b = tasks s b" if "b \<notin> insert a (set xs)" for b
    using relinked_outside [OF s'(5) that] s2(3) that by (simp add: outside_objects_def)
  moreover have "task_prio s' b = task_prio s b" for b
    using relinked_prio [OF s'(5), of b] pr by simp
  moreover have "curr_running_task s' = curr_running_task s" "in_irq s' = in_irq s"
    using relinked_fields(11,18) [OF s'(5)] s2(3) by (simp_all add: outside_objects_def)
  moreover have "payload s' = payload s" using head_relinked(2) [OF s'(5)] s2(4) by (simp add: head_frame)
  ultimately show ?thesis using s' by auto
qed

lemma wake_all_spec:
  assumes rel: "\<And>s a t. tasks s a = Some t \<Longrightarrow> t_timer t = NULL \<Longrightarrow>
                  release (Some a) s = Some (s\<lparr>tasks := (tasks s)(a \<mapsto> g t)\<rparr>)"
    and g: "\<And>t. t_state (g t) = RX_TASK_READY" "\<And>t. t_next (g t) = t_next t"
      "\<And>t. t_prio (g t) = t_prio t"
  shows "ready_queue s xs \<Longrightarrow> waiting get_head s ws \<Longrightarrow> set ws \<inter> set xs = {} \<Longrightarrow>
    (\<And>a t. a \<in> set ws \<Longrightarrow> tasks s a = Some t \<Longrightarrow> t_timer t = NULL) \<Longrightarrow>
    \<exists>s'. wake_all get_head set_head release s = Some s' \<and> waiting get_head s' [] \<and>
         ready_queue s' (wake_order (task_prio s) ws xs) \<and>
         (\<forall>b t. b \<in> set ws \<longrightarrow> tasks s b = Some t \<longrightarrow> (\<exists>n. tasks s' b = Some ((g t)\<lparr>t_next := n\<rparr>))) \<and>
         (\<forall>b. b \<notin> set ws \<longrightarrow> same_but_next (tasks s b) (tasks s' b)) \<and>
         curr_running_task s' = curr_running_task s \<and> in_irq s' = in_irq s \<and> payload s' = payload s"
proof (induction ws arbitrary: s xs)
  case Nil
  then have "get_head s = Some NULL" by (auto simp: waiting_def)
  then have "wake_all get_head set_head release s = Some s" by (subst wake_all.simps) simp
  with Nil show ?case by simp
next
  case (Cons a ws)
  obtain t where t: "tasks s a = Some t" using waiting_task [OF Cons.prems(2), of a] by auto
  have "t_timer t = NULL" by (rule Cons.prems(4) [OF _ t]) simp
  then have r: "release (Some a) s = Some (s\<lparr>tasks := (tasks s)(a \<mapsto> g t)\<rparr>)" by (rule rel [OF t])
  obtain s1 n where s1: "wake_all get_head set_head release s = wake_all get_head set_head release s1"
    "ready_queue s1 (insert_prio (task_prio s) a xs)" "waiting get_head s1 ws"
    "tasks s1 a = Some ((g t)\<lparr>t_next := n\<rparr>)" "\<forall>b. b \<noteq> a \<longrightarrow> same_but_next (tasks s b) (tasks s1 b)"
    "\<forall>b. b \<notin> insert a (set xs) \<longrightarrow> tasks s1 b = tasks s b" "\<forall>b. task_prio s1 b = task_prio s b"
    "curr_running_task s1 = curr_running_task s" "in_irq s1 = in_irq s" "payload s1 = payload s"
    using wake_step [where g = g and release = release, OF Cons.prems(1,2,3) t r g] by blast
  have d: "a \<notin> set ws" using waiting_distinct [OF Cons.prems(2)] by simp
  have same: "tasks s1 b = tasks s b" if "b \<in> set ws" for b
    using s1(6) that d Cons.prems(3) by auto
  obtain s' where s': "wake_all get_head set_head release s1 = Some s'" "waiting get_head s' []"
    "ready_queue s' (wake_order (task_prio s1) ws (insert_prio (task_prio s) a xs))"
    "\<forall>b t. b \<in> set ws \<longrightarrow> tasks s1 b = Some t \<longrightarrow> (\<exists>n. tasks s' b = Some ((g t)\<lparr>t_next := n\<rparr>))"
    "\<forall>b. b \<notin> set ws \<longrightarrow> same_but_next (tasks s1 b) (tasks s' b)"
    "curr_running_task s' = curr_running_task s1" "in_irq s' = in_irq s1" "payload s' = payload s1"
  proof -
    have "set ws \<inter> set (insert_prio (task_prio s) a xs) = {}" using Cons.prems(3) d by auto
    moreover have "t_timer u = NULL" if "b \<in> set ws" "tasks s1 b = Some u" for b u
      using Cons.prems(4) [of b u] that same by simp
    ultimately show thesis using Cons.IH [OF s1(2,3)] that by blast
  qed
  have wo: "wake_order (task_prio s1) ws (insert_prio (task_prio s) a xs) =
      wake_order (task_prio s) (a # ws) xs"
    using wake_order_cong [of "task_prio s1" "task_prio s"] s1(7) by simp
  have "\<exists>n. tasks s' b = Some ((g u)\<lparr>t_next := n\<rparr>)" if "b \<in> set (a # ws)" "tasks s b = Some u" for b u
  proof (cases "b = a")
    case True
    then show ?thesis using s'(5) [rule_format, of a] d s1(4) t that by auto
  next
    case False
    then show ?thesis using s'(4) same that by auto
  qed
  moreover have "same_but_next (tasks s b) (tasks s' b)" if "b \<notin> set (a # ws)" for b
    using same_but_next_trans s1(5) s'(5) that by auto
  ultimately show ?case using s1 s' wo by auto
qed

text \<open>Taking a waiter out of the middle of the list, as the timeout handlers do.\<close>

lemma unlink_waiter_spec:
  assumes w: "waiting get_head s (h # pre @ a # suf)" and q: "ready_queue s xs"
    and dj: "set (h # pre @ a # suf) \<inter> set xs = {}"
  shows "\<exists>s'. unlink_waiter h a s = Some s' \<and> waiting get_head s' (h # pre @ suf) \<and> ready_queue s' xs \<and>
              (\<forall>b. same_but_next (tasks s b) (tasks s' b)) \<and>
              (\<forall>b. b \<notin> set (h # pre) \<longrightarrow> tasks s' b = tasks s b) \<and>
              outside_objects (s\<lparr>tasks := tasks s'\<rparr>) s' \<and> payload s' = payload s"
proof -
  have d: "distinct (h # pre @ a # suf)" by (rule waiting_distinct [OF w])
  obtain hd where g: "get_head s = Some (Some h)" and l: "lst (task_next s) (Some h) (h # pre @ a # suf)"
    and ch: "chain (task_next s) (Some h) (h # pre) (Some a)"
    using w by (auto simp: waiting_def)
  have wt: "walk_to (task_next s) a h (Some h) = Some (last (h # h # pre))"
    by (rule walk_to_chain [OF ch]) (use d in auto)
  obtain t where t: "tasks s a = Some t" using waiting_task [OF w, of a] by auto
  obtain ini b where ib: "h # pre = ini @ [b]" by (cases "h # pre" rule: rev_cases) auto
  then have b: "last (h # h # pre) = b" by simp
  have l2: "lst (task_next s) (Some h) (ini @ b # a # suf)" using l ib
    by (metis append_Cons append_Nil append_assoc)
  have na: "task_next s a = Some (t_next t)" using t by (simp add: task_next_def)
  obtain s' where s': "set_task_next (Some b) (t_next t) s = Some s'"
    "task_next s' = (task_next s)(b := Some (t_next t))" "lst (task_next s') (Some h) (ini @ b # suf)"
    using tnext.bypass_node [OF l2 na] by blast
  have bin: "b \<in> set (h # pre)" using ib by simp
  then obtain tb where tb: "tasks s b = Some tb" using waiting_task [OF w, of b] by auto
  have s'eq: "s' = s\<lparr>tasks := (tasks s)(b \<mapsto> tb\<lparr>t_next := t_next t\<rparr>)\<rparr>"
    using s'(1) tb by (simp add: set_task_next_def)
  have "lst (task_next s') (Some h) (h # pre @ suf)" using s'(3) ib
    by (metis append_Cons append_Nil append_assoc)
  then have "waiting get_head s' (h # pre @ suf)"
    using g by (simp add: waiting_def s'eq head_frame del: task_next_upd)
  moreover have "ready_queue s' xs"
    unfolding s'eq by (rule ready_queue_upd_absent [OF q]) (use bin dj in auto)
  moreover have "unlink_waiter h a s = Some s'" using wt b t s'(1) by (simp add: unlink_waiter_def)
  moreover have "same_but_next (tasks s e) (tasks s' e)" for e using tb by (auto simp: s'eq)
  moreover have "tasks s' e = tasks s e" if "e \<notin> set (h # pre)" for e using that bin by (auto simp: s'eq)
  moreover have "outside_objects (s\<lparr>tasks := tasks s'\<rparr>) s'" by (simp add: outside_objects_def s'eq)
  moreover have "payload s' = payload s" by (simp add: s'eq head_frame)
  ultimately show ?thesis by blast
qed

end

lemma clear_next_idem:
  "tasks s c = Some t \<Longrightarrow> t_next t = NULL \<Longrightarrow> set_task_next (Some c) NULL s = Some s"
  by (simp add: set_task_next_def fun_upd_idem)

section \<open>Waiting with a timeout\<close>

text \<open>
  A call that waits with a timeout has already left the ready queue when it arms its timer and
  suspends itself a second time. The second removal finds nothing to remove.
\<close>

lemma same_but_next_eq:
  assumes "same_but_next (tasks s a) (tasks s' a)" and "task_next s' a = task_next s a"
  shows "tasks s' a = tasks s a"
  using assms by (cases "tasks s a") (auto simp: task_next_def)

lemma remove_absent_noop:
  assumes q: "ready_queue s xs" and ne: "xs \<noteq> []" and c: "c \<notin> set xs" "tasks s c = Some t" "t_next t = NULL"
  shows "\<exists>s'. rx_remove_from_ready_q (Some c) s = Some (OS_OK, s') \<and> tasks s' = tasks s \<and>
              relinked (insert c (set xs)) s s' \<and> ready_queue s' xs"
proof -
  obtain s' where s': "rx_remove_from_ready_q (Some c) s = Some (OS_OK, s')" "ready_queue s' xs"
    "task_next s' = (task_next s)(c := Some NULL)" "relinked (insert c (set xs)) s s'"
    using remove_from_ready_q_absent [OF q ne c(1)] c(2) by auto
  have "task_next s' a = task_next s a" for a using s'(3) c by (simp add: task_next_def)
  then have "tasks s' a = tasks s a" for a
    using same_but_next_eq relinked_same [OF s'(4)] by blast
  with s' show ?thesis by auto
qed

lemma suspend_again_spec:
  assumes q: "ready_queue s (h # ys)" and c: "curr_running_task s = Some c" "c \<notin> set (h # ys)"
    "tasks s c = Some t" "t_next t = NULL"
  shows "\<exists>s' u. rx_suspend_task NULL s = Some (Sleeps, s') \<and> curr_running_task s' = Some h \<and>
              ready_queue s' (h # ys) \<and> tasks s h = Some u \<and>
              tasks s' = (tasks s)(c \<mapsto> t\<lparr>t_state := RX_TASK_SUSPEND\<rparr>, h \<mapsto> dispatched u) \<and>
              (\<exists>tk rh nr cr ct. s' = s\<lparr>tasks := tk, task_ready_head := rh, need_resched := nr,
                 critical := cr, curr_running_task := ct\<rparr>)"
proof -
  obtain s1 where s1: "rx_remove_from_ready_q (Some c) s = Some (OS_OK, s1)" "tasks s1 = tasks s"
    "relinked (insert c (set (h # ys))) s s1" "ready_queue s1 (h # ys)"
    using remove_absent_noop [OF q _ c(2-4)] by auto
  obtain tk rh nr cr where e1: "s1 = s\<lparr>tasks := tk, task_ready_head := rh, need_resched := nr, critical := cr\<rparr>"
    using s1(3) by (rule relinkedE)
  let ?s2 = "s1\<lparr>tasks := (tasks s1)(c \<mapsto> t\<lparr>t_state := RX_TASK_SUSPEND\<rparr>)\<rparr>"
  have q2: "ready_queue ?s2 (h # ys)" by (rule ready_queue_upd_absent [OF s1(4) c(2)])
  have c2: "curr_running_task ?s2 = Some c" "tasks ?s2 c \<noteq> None" "c \<noteq> h"
    using relinked_fields(11) [OF s1(3)] c by auto
  obtain u s' where s': "tasks ?s2 h = Some u"
    "sched_then (\<lambda>s. Some (Returns OS_OK, s)) ?s2 = Some (Sleeps, s')" "ready_queue s' (h # ys)"
    "s' = ?s2\<lparr>tasks := (tasks ?s2)(h \<mapsto> dispatched u), curr_running_task := Some h,
            need_resched := False, critical := critical ?s2 \<and> in_irq ?s2\<rparr>"
    using sched_away [OF q2 c2] by blast
  have "rx_suspend_task NULL s = Some (Sleeps, s')"
    using c s1 s'(2) relinked_fields(11) [OF s1(3)] by (simp add: rx_suspend_task_def)
  moreover have "tasks s h = Some u" using s'(1) s1(2) c2 by simp
  moreover have "\<exists>tk rh nr cr ct. s' = s\<lparr>tasks := tk, task_ready_head := rh, need_resched := nr,
                 critical := cr, curr_running_task := ct\<rparr>"
    by (rule exI [of _ "tasks s'"], rule exI [of _ rh], rule exI [of _ False],
        rule exI [of _ "critical s'"], rule exI [of _ "Some h"]) (simp add: s'(4) e1)
  ultimately show ?thesis using s' s1(2) by auto
qed

text \<open>Arming a timer that carries a handler.\<close>

definition timers_only :: "kstate \<Rightarrow> kstate \<Rightarrow> bool" where
  "timers_only s s' \<longleftrightarrow> (\<exists>tm h c. s' = s\<lparr>timers := tm, active_timer_head := h, critical := c\<rparr>)"

lemma timers_only_fields:
  assumes "timers_only s s'"
  shows "tasks s' = tasks s" "task_ready_head s' = task_ready_head s" "jiffies s' = jiffies s"
    "curr_running_task s' = curr_running_task s" "in_irq s' = in_irq s" "sems s' = sems s"
    "mutexes s' = mutexes s" "ready_queue s' xs = ready_queue s xs"
proof -
  show "ready_queue s' xs = ready_queue s xs"
    by (rule ready_queue_cong) (use assms in \<open>auto simp: timers_only_def\<close>)
qed (use assms in \<open>auto simp: timers_only_def\<close>)

lemma arm_handler_spec:
  assumes ts: "active_timers s ts" and p: "p \<notin> set ts" "timers s p = Some tm" and k: "ticks \<noteq> 0"
  shows "\<exists>s1 s2 tm'. rx_init_timer (Some p) (Some hdl) priv ticks s = Some (Returns OS_OK, s1) \<and>
            rx_start_timer (Some p) s1 = Some s2 \<and>
            active_timers s2 (insert_timer (timer_expiry s2) p ts) \<and> timers s2 p = Some tm' \<and>
            tm_handler tm' = Some hdl \<and> tm_priv tm' = priv \<and> tm_time_expiry tm' = ticks + jiffies s \<and>
            timers_only s s2"
proof -
  let ?tm = "tm\<lparr>tm_priv := priv, tm_flag := 0, tm_delay := ticks, tm_time_expiry := 0,
                tm_task := curr_running_task s, tm_handler := Some hdl, tm_next := NULL,
                tm_prev := NULL, tm_flag := 0 AND RX_TIMER_DISABLED\<rparr>"
  let ?s1 = "s\<lparr>timers := (timers s)(p \<mapsto> ?tm)\<rparr>"
  have init: "rx_init_timer (Some p) (Some hdl) priv ticks s = Some (Returns OS_OK, ?s1)"
    using p k by (simp add: rx_init_timer_def rx_add_timer_def)
  have ts1: "active_timers ?s1 ts"
  proof -
    have "map (timer_expiry ?s1) ts = map (timer_expiry s) ts"
      using p(1) by (auto simp: timer_expiry_def)
    then show ?thesis
      using ts p(1) by (simp add: active_timers_def dlst_def del: map_eq_conv)
  qed
  have tm1: "timers ?s1 p = Some ?tm" by simp
  let ?s0 = "?s1\<lparr>timers := (timers ?s1)(p \<mapsto> armed (jiffies ?s1) ?tm)\<rparr>"
  obtain s2 where s2: "rx_add_to_active_timer_list (Some p) ?s1 = Some s2"
    "active_timers s2 (insert_timer (timer_expiry ?s0) p ts)" "retimed (insert p (set ts)) ?s0 s2"
    using add_to_active_spec [OF ts1 p(1) tm1] by blast
  have start: "rx_start_timer (Some p) ?s1 = Some s2" using s2(1) by (simp add: rx_start_timer_def)
  have ex: "timer_expiry s2 = timer_expiry ?s0" using retimed_expiry [OF s2(3)] by (rule ext)
  obtain n q where tm2: "timers s2 p = Some ((armed (jiffies ?s1) ?tm)\<lparr>tm_next := n, tm_prev := q\<rparr>)"
    using retimed_timer [OF s2(3), of p] by auto
  obtain tmh h c where "s2 = ?s0\<lparr>timers := tmh, active_timer_head := h, critical := c\<rparr>"
    using s2(3) by (rule retimedE)
  then have "timers_only s s2" by (auto simp: timers_only_def)
  then show ?thesis using init start s2(2) ex tm2 by (simp add: armed_def)
qed

end
