(* ===== verification/RX_Semaphore.thy ===== *)
theory RX_Semaphore
  imports RX_Waiters
begin

text \<open>
  Counting semaphores (\<^verbatim>\<open>kernel/rx_semaphore.c\<close>): creation, deletion, waiting with and
  without a timeout, posting, and the timeout handler. The count is an \<open>int\<close>; a negative
  count is meant to be the number of waiting tasks.
\<close>

section \<open>Operations\<close>

definition sem_head :: "addr \<Rightarrow> kstate \<Rightarrow> ptr option" where
  "sem_head a s = map_option s_task (sems s a)"

definition set_sem_head :: "addr \<Rightarrow> ptr \<Rightarrow> kstate \<Rightarrow> kstate option" where
  "set_sem_head a p s = upd_sem (Some a) (\<lambda>x. x\<lparr>s_task := p\<rparr>) s"

definition rx_create_semaphore :: "ptr \<Rightarrow> int \<Rightarrow> kstate \<Rightarrow> (int \<times> kstate) option" where
  "rx_create_semaphore sem val s =
     (if val \<le> 0 then Some (OS_ERR, s)
      else do { let s1 = rx_enter_critical s;
                s2 \<leftarrow> upd_sem sem (\<lambda>x. x\<lparr>s_init_val := val, s_curr_val := val, s_task := NULL\<rparr>) s1;
                Some (OS_OK, rx_exit_critical s2) })"

text \<open>What \<^verbatim>\<open>rx_delete_semaphore\<close> does to the first waiter before it moves the head.\<close>

definition sem_release :: "ptr \<Rightarrow> kstate \<Rightarrow> kstate option" where
  "sem_release p s =
     do { s1 \<leftarrow> upd_task p (\<lambda>t. t\<lparr>t_state := RX_TASK_READY, t_sem := NULL\<rparr>) s;
          t \<leftarrow> deref (tasks s1) p;
          (if t_timer t \<noteq> NULL
           then do { s2 \<leftarrow> rx_remove_from_timer_list (t_timer t) s1;
                     upd_task p (\<lambda>t. t\<lparr>t_timer := NULL\<rparr>) s2 }
           else Some s1) }"

definition rx_delete_semaphore :: "ptr \<Rightarrow> kstate \<Rightarrow> kstate option" where
  "rx_delete_semaphore sem s =
     do { a \<leftarrow> sem;
          s1 \<leftarrow> wake_all (sem_head a) (set_sem_head a) sem_release (rx_enter_critical s);
          Some (rx_exit_critical s1) }"

definition rx_semaphore_post :: "ptr \<Rightarrow> kstate \<Rightarrow> (int \<times> kstate) option" where
  "rx_semaphore_post sem s =
     do { let s1 = rx_enter_critical s;
          sm \<leftarrow> deref (sems s1) sem;
          s2 \<leftarrow> (case s_task sm of
                   None \<Rightarrow> Some s1
                 | Some t \<Rightarrow>
                     do { tt \<leftarrow> tasks s1 t;
                          sa \<leftarrow> upd_sem sem (\<lambda>x. x\<lparr>s_task := t_next tt\<rparr>) s1;
                          sb \<leftarrow> upd_task (Some t) (\<lambda>u. u\<lparr>t_state := RX_TASK_READY, t_sem := NULL\<rparr>) sa;
                          (_, sc) \<leftarrow> rx_add_to_ready_q (Some t) sb;
                          upd_sem sem (\<lambda>x. x\<lparr>s_curr_val := s_curr_val x + 1\<rparr>) sc });
          Some (OS_OK, rx_exit_critical s2) }"

text \<open>The timeout handler, run by the timer thread with the waiting task as its argument.\<close>

definition rx_sem_handler :: "ptr \<Rightarrow> kstate \<Rightarrow> kstate option" where
  "rx_sem_handler p s =
     do { task \<leftarrow> p;
          t \<leftarrow> tasks s task;
          (case t_sem t of
             None \<Rightarrow> Some s
           | Some m \<Rightarrow>
               do { sm \<leftarrow> sems s m;
                    s1 \<leftarrow> (if s_task sm = Some task
                           then upd_sem (Some m) (\<lambda>x. x\<lparr>s_task := t_next t\<rparr>) s
                           else do { h \<leftarrow> s_task sm; unlink_waiter h task s });
                    s2 \<leftarrow> upd_sem (Some m) (\<lambda>x. x\<lparr>s_curr_val := s_curr_val x + 1\<rparr>) s1;
                    s3 \<leftarrow> upd_task p (\<lambda>t. t\<lparr>t_timer := NULL, t_timeout := E_OS_TIMEOUT,
                                          t_state := RX_TASK_READY\<rparr>) s2;
                    (_, s4) \<leftarrow> rx_add_to_ready_q p s3;
                    upd_task p (\<lambda>t. t\<lparr>t_sem := NULL\<rparr>) s4 }) }"

text \<open>
  Waiting with a timeout: \<open>timer\<close> is the local variable of \<^verbatim>\<open>__rx_sem_timeout\<close>; the
  second definition is the code behind \<^verbatim>\<open>rx_suspend_task(MYSELF)\<close>.
\<close>

definition sem_timeout_resume :: "kstate \<Rightarrow> (int call \<times> kstate) option" where
  "sem_timeout_resume s =
     do { t \<leftarrow> deref (tasks s) (curr_running_task s);
          Some (Returns (if t_timeout t = E_OS_TIMEOUT then E_OS_TIMEOUT else OS_OK), s) }"

definition rx_sem_timeout :: "ptr \<Rightarrow> int \<Rightarrow> kstate \<Rightarrow> (int call \<times> kstate) option" where
  "rx_sem_timeout timer timeout s =
     do { (_, s1) \<leftarrow> rx_init_timer timer (Some Sem_Handler) (curr_running_task s) (word_of_int timeout) s;
          s2 \<leftarrow> rx_start_timer timer s1;
          s3 \<leftarrow> upd_task (curr_running_task s2) (\<lambda>t. t\<lparr>t_timeout := RX_TIMER_ON, t_timer := timer\<rparr>) s2;
          (r, s4) \<leftarrow> rx_suspend_task NULL s3;
          (case r of Sleeps \<Rightarrow> Some (Sleeps, s4) | Returns _ \<Rightarrow> sem_timeout_resume s4) }"

definition sem_wait_resume :: "ptr \<Rightarrow> kstate \<Rightarrow> (int call \<times> kstate) option" where
  "sem_wait_resume sem s = Some (Returns (if sem = NULL then E_OS_UNAVAIL else OS_OK), s)"

definition rx_semaphore_wait :: "ptr \<Rightarrow> ptr \<Rightarrow> int \<Rightarrow> kstate \<Rightarrow> (int call \<times> kstate) option" where
  "rx_semaphore_wait sem timer timeout s =
     do { let s1 = rx_enter_critical s;
          s2 \<leftarrow> upd_sem sem (\<lambda>x. x\<lparr>s_curr_val := s_curr_val x - 1\<rparr>) s1;
          sm \<leftarrow> deref (sems s2) sem;
          (if s_curr_val sm \<ge> 0 then Some (Returns OS_OK, rx_exit_critical s2)
           else if timeout = OS_NO_WAIT
           then do { s3 \<leftarrow> upd_sem sem (\<lambda>x. x\<lparr>s_curr_val := s_curr_val x + 1\<rparr>) s2;
                     Some (Returns E_OS_UNAVAIL, rx_exit_critical s3) }
           else
             do { a \<leftarrow> sem;
                  s3 \<leftarrow> upd_task (curr_running_task s2)
                          (\<lambda>t. t\<lparr>t_state := RX_TASK_SUSPEND, t_sem := sem, t_timeout := RX_TIMER_OFF\<rparr>) s2;
                  (_, s4) \<leftarrow> rx_remove_from_ready_q (curr_running_task s3) s3;
                  s5 \<leftarrow> set_task_next (curr_running_task s4) NULL s4;
                  s6 \<leftarrow> enqueue_task (sem_head a) (set_sem_head a) (curr_running_task s5) s5;
                  let s7 = rx_exit_critical s6;
                  (if timeout > 0 then rx_sem_timeout timer timeout s7
                   else sched_then (sem_wait_resume sem) s7) }) }"


section \<open>The semaphore as a waiting list\<close>

definition sem_rest :: "addr \<Rightarrow> kstate \<Rightarrow> (addr \<rightharpoonup> semaphore)" where
  "sem_rest a s = (sems s)(a := map_option (\<lambda>x. x\<lparr>s_task := NULL\<rparr>) (sems s a))"

interpretation sem_q: waiter_queue "sem_head a" "set_sem_head a" "sem_rest a" for a
  by unfold_locales (auto simp: sem_head_def set_sem_head_def sem_rest_def outside_objects_def)

lemma sem_head_upd [simp]:
  "sem_head a (s\<lparr>sems := (sems s)(a \<mapsto> x)\<rparr>) = Some (s_task x)"
  by (simp add: sem_head_def)

text \<open>
  The invariant: a non-negative count means that nobody waits, and otherwise the count is minus
  the number of waiters.
\<close>

definition sem_inv :: "kstate \<Rightarrow> addr \<Rightarrow> addr list \<Rightarrow> bool" where
  "sem_inv s a ws \<longleftrightarrow>
     (\<exists>sm. sems s a = Some sm \<and> waiting (sem_head a) s ws \<and>
        (ws = [] \<and> 0 \<le> s_curr_val sm \<or> s_curr_val sm = - int (length ws)))"

lemma sem_rest_eq:
  assumes "sem_rest a s' = sem_rest a s" and "sems s a = Some sm"
  shows "\<exists>p. sems s' a = Some (sm\<lparr>s_task := p\<rparr>)" and "\<And>b. b \<noteq> a \<Longrightarrow> sems s' b = sems s b"
proof -
  have e: "sem_rest a s' b = sem_rest a s b" for b using assms(1) by simp
  from e [of a] assms(2) obtain x where x: "sems s' a = Some x" "x\<lparr>s_task := NULL\<rparr> = sm\<lparr>s_task := NULL\<rparr>"
    by (auto simp: sem_rest_def)
  have "x = x\<lparr>s_task := NULL, s_task := s_task x\<rparr>" by simp
  also have "\<dots> = sm\<lparr>s_task := s_task x\<rparr>" unfolding x(2) by simp
  finally show "\<exists>p. sems s' a = Some (sm\<lparr>s_task := p\<rparr>)" using x(1) by auto
  show "sems s' b = sems s b" if "b \<noteq> a" for b using e [of b] that by (simp add: sem_rest_def)
qed

lemma waiting_sem_upd:
  "sems s a = Some sm \<Longrightarrow> s_task sm' = s_task sm \<Longrightarrow>
     waiting (sem_head a) (s\<lparr>sems := (sems s)(a \<mapsto> sm')\<rparr>) ws = waiting (sem_head a) s ws"
  by (rule waiting_cong) (simp_all add: sem_head_def)

lemma sem_invD:
  assumes "sem_inv s a ws"
  obtains sm where "sems s a = Some sm" "waiting (sem_head a) s ws"
    "ws = [] \<and> 0 \<le> s_curr_val sm \<or> s_curr_val sm = - int (length ws)"
  using assms by (auto simp: sem_inv_def)

section \<open>Waiting\<close>

text \<open>
  The part of \<^verbatim>\<open>rx_semaphore_wait\<close> that puts the caller to sleep: everything up to the
  test of the timeout.
\<close>

definition sem_sleeper :: "addr \<Rightarrow> rx_task \<Rightarrow> rx_task" where
  "sem_sleeper a t =
     t\<lparr>t_state := RX_TASK_SUSPEND, t_sem := Some a, t_timeout := RX_TIMER_OFF, t_next := NULL\<rparr>"

lemma sem_wait_enqueues:
  assumes q: "ready_queue s xs" and i: "sem_inv s a ws" and dj: "set xs \<inter> set ws = {}"
    and c: "curr_running_task s = Some c" "c \<in> set xs" "tasks s c = Some t"
    and sm: "sems s a = Some sm" "s_curr_val sm \<le> 0" and to: "timeout \<noteq> OS_NO_WAIT"
  shows "\<exists>s'. rx_semaphore_wait (Some a) timer timeout s =
                (if timeout > 0 then rx_sem_timeout timer timeout s'
                 else sched_then (sem_wait_resume (Some a)) s') \<and>
              ready_queue s' (remove1 c xs) \<and> sem_inv s' a (ws @ [c]) \<and>
              curr_running_task s' = Some c \<and> tasks s' c = Some (sem_sleeper a t) \<and>
              (\<forall>b. b \<notin> set xs \<union> set ws \<longrightarrow> tasks s' b = tasks s b) \<and>
              (\<forall>b. b \<noteq> c \<longrightarrow> same_but_next (tasks s b) (tasks s' b)) \<and>
              timers s' = timers s \<and> active_timer_head s' = active_timer_head s \<and> jiffies s' = jiffies s"
proof -
  let ?sm = "sm\<lparr>s_curr_val := s_curr_val sm - 1\<rparr>"
  let ?s1 = "rx_enter_critical s"
  let ?s2 = "?s1\<lparr>sems := (sems ?s1)(a \<mapsto> ?sm)\<rparr>"
  let ?f = "\<lambda>t. t\<lparr>t_state := RX_TASK_SUSPEND, t_sem := Some a, t_timeout := RX_TIMER_OFF\<rparr>"
  let ?s3 = "?s2\<lparr>tasks := (tasks ?s2)(c \<mapsto> ?f t)\<rparr>"
  have w: "waiting (sem_head a) s ws" and cv: "s_curr_val sm = - int (length ws)"
    using i sm by (auto simp: sem_inv_def)
  have q2: "ready_queue ?s2 xs" using q ready_queue_cong [of ?s2 ?s1] by simp
  have w2: "waiting (sem_head a) ?s2 ws" using w waiting_sem_upd [of ?s1 a sm ?sm] sm by simp
  have t2: "tasks ?s2 c = Some t" using c by simp
  obtain s4 s6 where s4: "rx_remove_from_ready_q (Some c) ?s3 = Some (OS_OK, s4)"
    "curr_running_task s4 = curr_running_task ?s2" "tasks s4 c = Some ((?f t)\<lparr>t_next := NULL\<rparr>)"
    and s6: "enqueue_task (sem_head a) (set_sem_head a) (Some c) s4 = Some s6"
      "ready_queue s6 (remove1 c xs)" "waiting (sem_head a) s6 (ws @ [c])"
      "tasks s6 c = Some ((?f t)\<lparr>t_next := NULL\<rparr>)"
      "\<forall>b. b \<notin> set xs \<union> set ws \<longrightarrow> tasks s6 b = tasks ?s2 b"
      "\<forall>b. b \<noteq> c \<longrightarrow> same_but_next (tasks ?s2 b) (tasks s6 b)"
      "curr_running_task s6 = curr_running_task ?s2" "timers s6 = timers ?s2"
      "active_timer_head s6 = active_timer_head ?s2" "jiffies s6 = jiffies ?s2"
      "sem_rest a s6 = sem_rest a ?s2"
    using sem_q.block_spec [where f = ?f, OF q2 w2 dj c(2) t2] by auto
  obtain p where p: "sems s6 a = Some (?sm\<lparr>s_task := p\<rparr>)"
    using sem_rest_eq(1) [OF s6(11), of ?sm] by auto
  let ?s' = "rx_exit_critical s6"
  have run: "rx_semaphore_wait (Some a) timer timeout s =
      (if timeout > 0 then rx_sem_timeout timer timeout ?s'
       else sched_then (sem_wait_resume (Some a)) ?s')"
    using sm to c(1) t2 s4 s6(1) clear_next_idem [OF s4(3)]
    by (simp add: rx_semaphore_wait_def)
  have "sem_inv ?s' a (ws @ [c])"
    using s6(3) p cv by (auto simp: sem_inv_def)
  then show ?thesis
    using run s6 c(1) by (intro exI [of _ ?s']) (simp add: sem_sleeper_def)
qed

lemma sem_wait_forever_spec:
  assumes q: "ready_queue s xs" and i: "sem_inv s a ws" and dj: "set xs \<inter> set ws = {}"
    and c: "curr_running_task s = Some c" "c \<in> set xs" "tasks s c = Some t"
    and rest: "remove1 c xs = h # ys"
    and sm: "sems s a = Some sm" "s_curr_val sm \<le> 0" and to: "timeout < 0"
  shows "\<exists>s' u. rx_semaphore_wait (Some a) timer timeout s = Some (Sleeps, s') \<and>
              curr_running_task s' = Some h \<and> ready_queue s' (h # ys) \<and> sem_inv s' a (ws @ [c]) \<and>
              tasks s' c = Some (sem_sleeper a t) \<and> tasks s' h = Some u \<and> t_state u = RX_TASK_RUNNING \<and>
              (\<forall>b. b \<notin> set xs \<union> set ws \<longrightarrow> tasks s' b = tasks s b) \<and>
              (\<forall>b. b \<noteq> c \<longrightarrow> b \<noteq> h \<longrightarrow> same_but_next (tasks s b) (tasks s' b)) \<and>
              map_option t_sem (tasks s' h) = map_option t_sem (tasks s h)"
proof -
  have "timeout \<noteq> OS_NO_WAIT" "\<not> timeout > 0" using to by (auto simp: OS_NO_WAIT_def)
  then obtain s1 where s1: "rx_semaphore_wait (Some a) timer timeout s = sched_then (sem_wait_resume (Some a)) s1"
    "ready_queue s1 (h # ys)" "sem_inv s1 a (ws @ [c])" "curr_running_task s1 = Some c"
    "tasks s1 c = Some (sem_sleeper a t)" "\<forall>b. b \<notin> set xs \<union> set ws \<longrightarrow> tasks s1 b = tasks s b"
    "\<forall>b. b \<noteq> c \<longrightarrow> same_but_next (tasks s b) (tasks s1 b)"
    using sem_wait_enqueues [OF q i dj c sm, of timeout timer] rest by auto
  have "c \<notin> set (h # ys)" using ready_queue_distinct [OF q] rest
    by (metis distinct_remove1 set_remove1_eq DiffE singletonI)
  then have ch: "c \<noteq> h" by simp
  obtain u s' where s': "tasks s1 h = Some u" "sched_then (sem_wait_resume (Some a)) s1 = Some (Sleeps, s')"
    "ready_queue s' (h # ys)" "s' = s1\<lparr>tasks := (tasks s1)(h \<mapsto> dispatched u), curr_running_task := Some h,
            need_resched := False, critical := critical s1 \<and> in_irq s1\<rparr>"
    using sched_away [OF s1(2,4) _ ch] s1(5) by blast
  have "sem_inv s' a (ws @ [c])"
    using s1(3) sem_q.waiting_sched [OF _ s'(1)] s'(4) by (auto simp: sem_inv_def)
  moreover have "tasks s' h = Some (dispatched u)" "tasks s' c = Some (sem_sleeper a t)"
    using s1(5) s'(4) ch by auto
  moreover have "map_option t_sem (tasks s' h) = map_option t_sem (tasks s h)"
    using same_but_next_sem [of "tasks s h" "tasks s1 h"] spec [OF s1(7), of h] s'(1,4) ch by simp
  moreover have "\<forall>b. b \<noteq> c \<longrightarrow> b \<noteq> h \<longrightarrow> same_but_next (tasks s b) (tasks s' b)" using s1(7) s'(4) by simp
  moreover have "h \<in> set xs" using rest by (metis list.set_intros(1) notin_set_remove1)
  then have "\<forall>b. b \<notin> set xs \<union> set ws \<longrightarrow> tasks s' b = tasks s b" using s1(6) s'(4) by auto
  ultimately show ?thesis using s1(1) s'(2,3,4) by auto
qed


section \<open>Posting, timing out, deleting\<close>

definition sem_woken :: "rx_task \<Rightarrow> rx_task" where
  "sem_woken t = t\<lparr>t_state := RX_TASK_READY, t_sem := NULL\<rparr>"

lemma sem_post_spec:
  assumes q: "ready_queue s xs" and i: "sem_inv s a (w # ws)" and dj: "set (w # ws) \<inter> set xs = {}"
    and t: "tasks s w = Some t"
  shows "\<exists>s' n. rx_semaphore_post (Some a) s = Some (OS_OK, s') \<and> sem_inv s' a ws \<and>
              ready_queue s' (insert_prio (task_prio s) w xs) \<and>
              tasks s' w = Some ((sem_woken t)\<lparr>t_next := n\<rparr>) \<and>
              (\<forall>b. b \<notin> insert w (set xs) \<longrightarrow> tasks s' b = tasks s b) \<and>
              (\<forall>b. b \<noteq> w \<longrightarrow> same_but_next (tasks s b) (tasks s' b)) \<and>
              curr_running_task s' = curr_running_task s \<and> timers s' = timers s"
proof -
  let ?s1 = "rx_enter_critical s"
  obtain sm where sm: "sems s a = Some sm" and wt: "waiting (sem_head a) s (w # ws)"
    and cv: "s_curr_val sm = - int (length (w # ws))" using i by (auto elim!: sem_invD)
  have d: "w \<notin> set ws" using waiting_distinct [OF wt] by simp
  have hd: "s_task sm = Some w" using waiting_hd(1) [OF wt] sm by (simp add: sem_head_def)
  have w1: "waiting (sem_head a) ?s1 (w # ws)" using wt by simp
  obtain sa where sa: "set_sem_head a (t_next t) ?s1 = Some sa" "waiting (sem_head a) sa ws"
    "outside_objects ?s1 sa" "sem_rest a sa = sem_rest a ?s1"
    using sem_q.pop_waiter [OF w1, of t] t by auto
  have ta: "tasks sa w = Some t" using sa(3) t by (simp add: outside_objects_def)
  have qa: "ready_queue sa xs" using outside_ready [OF sa(3)] q by simp
  let ?sb = "sa\<lparr>tasks := (tasks sa)(w \<mapsto> sem_woken t)\<rparr>"
  have dj': "set ws \<inter> set xs = {}" "w \<notin> set xs" using dj by auto
  obtain sc n where sc: "rx_add_to_ready_q (Some w) ?sb = Some (OS_OK, sc)"
    "ready_queue sc (insert_prio (task_prio ?sb) w xs)" "waiting (sem_head a) sc ws"
    "tasks sc w = Some ((sem_woken t)\<lparr>t_next := n\<rparr>)" "relinked (insert w (set xs)) ?sb sc"
    "sem_rest a sc = sem_rest a sa"
    using sem_q.ready_waiter [where g = sem_woken, OF sa(2) qa dj'(1) d dj'(2) ta]
    by (auto simp: sem_woken_def)
  obtain p where p: "sems sc a = Some (sm\<lparr>s_task := p\<rparr>)"
    using sem_rest_eq(1) [of a sc ?s1 sm] sc(6) sa(4) sm by auto
  let ?s2 = "sc\<lparr>sems := (sems sc)(a \<mapsto> sm\<lparr>s_task := p, s_curr_val := s_curr_val sm + 1\<rparr>)\<rparr>"
  let ?s' = "rx_exit_critical ?s2"
  have sa_eq: "sa = ?s1\<lparr>sems := (sems s)(a \<mapsto> sm\<lparr>s_task := t_next t\<rparr>)\<rparr>"
    using sa(1) sm by (simp add: set_sem_head_def)
  have run: "rx_semaphore_post (Some a) s = Some (OS_OK, ?s')"
    using sm hd t sc(1) p
    by (simp add: rx_semaphore_post_def sem_woken_def sa_eq)
  have "waiting (sem_head a) ?s2 ws" using sc(3) waiting_sem_upd [OF p] by simp
  then have "sem_inv ?s' a ws" using cv by (auto simp: sem_inv_def)
  moreover have "task_prio ?sb b = task_prio s b" for b
    using sa(3) t by (simp add: task_prio_def outside_objects_def sem_woken_def)
  then have "insert_prio (task_prio ?sb) w xs = insert_prio (task_prio s) w xs"
    by (intro insert_prio_cong) simp
  then have "ready_queue ?s' (insert_prio (task_prio s) w xs)"
    using sc(2) ready_queue_cong [of ?s2 sc] by simp
  moreover have "tasks ?s' b = tasks s b" if "b \<notin> insert w (set xs)" for b
    using relinked_outside [OF sc(5) that] sa(3) that by (simp add: outside_objects_def)
  moreover have "same_but_next (tasks s b) (tasks ?s' b)" if "b \<noteq> w" for b
    using relinked_same [OF sc(5), of b] sa(3) that by (simp add: outside_objects_def)
  ultimately show ?thesis
    using run sc(4) relinked_fields [OF sc(5)] sa(3)
    by (intro exI [of _ ?s'] exI [of _ n]) (simp add: outside_objects_def)
qed

lemma sem_post_lost_spec:
  assumes "sems s a = Some sm" and "s_task sm = NULL"
  shows "rx_semaphore_post (Some a) s = Some (OS_OK, s\<lparr>critical := critical s \<and> in_irq s\<rparr>)"
  using assms by (simp add: rx_semaphore_post_def critical_eqs)

lemma sem_inv_frame:
  assumes "sem_inv s a ws" and "sems s' = sems s" and "task_next s' = task_next s"
  shows "sem_inv s' a ws"
  using assms by (simp add: sem_inv_def waiting_def sem_head_def)

lemma sem_wait_timed_spec:
  assumes q: "ready_queue s xs" and i: "sem_inv s a ws" and dj: "set xs \<inter> set ws = {}"
    and c: "curr_running_task s = Some c" "c \<in> set xs" "tasks s c = Some t"
    and rest: "remove1 c xs = h # ys"
    and sm: "sems s a = Some sm" "s_curr_val sm \<le> 0"
    and to: "0 < timeout" "(word_of_int timeout :: 32 word) \<noteq> 0"
    and ts: "active_timers s ts" "p \<notin> set ts" "timers s p = Some tm"
  shows "\<exists>s' tm'. rx_semaphore_wait (Some a) (Some p) timeout s = Some (Sleeps, s') \<and>
              curr_running_task s' = Some h \<and> ready_queue s' (h # ys) \<and> sem_inv s' a (ws @ [c]) \<and>
              active_timers s' (insert_timer (timer_expiry s') p ts) \<and> timers s' p = Some tm' \<and>
              tm_handler tm' = Some Sem_Handler \<and> tm_priv tm' = Some c \<and>
              tm_time_expiry tm' = word_of_int timeout + jiffies s \<and>
              tasks s' c = Some ((sem_sleeper a t)\<lparr>t_timeout := RX_TIMER_ON, t_timer := Some p,
                                                   t_state := RX_TASK_SUSPEND\<rparr>)"
proof -
  have "timeout \<noteq> OS_NO_WAIT" using to by (auto simp: OS_NO_WAIT_def)
  then obtain s1 where s1: "rx_semaphore_wait (Some a) (Some p) timeout s = rx_sem_timeout (Some p) timeout s1"
    "ready_queue s1 (h # ys)" "sem_inv s1 a (ws @ [c])" "curr_running_task s1 = Some c"
    "tasks s1 c = Some (sem_sleeper a t)" "timers s1 = timers s"
    "active_timer_head s1 = active_timer_head s" "jiffies s1 = jiffies s"
    using sem_wait_enqueues [OF q i dj c sm, of timeout "Some p"] rest to(1) by auto
  have ts1: "active_timers s1 ts" "timers s1 p = Some tm"
    using ts active_timers_cong [of s1 s] s1 by auto
  obtain s2 s3 tm' where s3:
    "rx_init_timer (Some p) (Some Sem_Handler) (Some c) (word_of_int timeout) s1 = Some (Returns OS_OK, s2)"
    "rx_start_timer (Some p) s2 = Some s3" "active_timers s3 (insert_timer (timer_expiry s3) p ts)"
    "timers s3 p = Some tm'" "tm_handler tm' = Some Sem_Handler" "tm_priv tm' = Some c"
    "tm_time_expiry tm' = word_of_int timeout + jiffies s1" "timers_only s1 s3"
    using arm_handler_spec [OF ts1(1) ts(2) ts1(2) to(2), of Sem_Handler "Some c"] by blast
  let ?t4 = "(sem_sleeper a t)\<lparr>t_timeout := RX_TIMER_ON, t_timer := Some p\<rparr>"
  let ?s4 = "s3\<lparr>tasks := (tasks s3)(c \<mapsto> ?t4)\<rparr>"
  have "c \<notin> set (remove1 c xs)" using ready_queue_distinct [OF q] by simp
  then have cn: "c \<notin> set (h # ys)" using rest by simp
  have q4: "ready_queue ?s4 (h # ys)"
    by (rule ready_queue_upd_absent [OF _ cn]) (use s1(2) timers_only_fields [OF s3(8)] in simp)
  have c4: "curr_running_task ?s4 = Some c" "tasks ?s4 c = Some ?t4" "t_next ?t4 = NULL"
    using s1(4) timers_only_fields [OF s3(8)] by (simp_all add: sem_sleeper_def)
  obtain s' u where s': "rx_suspend_task NULL ?s4 = Some (Sleeps, s')" "curr_running_task s' = Some h"
    "ready_queue s' (h # ys)" "tasks ?s4 h = Some u"
    "tasks s' = (tasks ?s4)(c \<mapsto> ?t4\<lparr>t_state := RX_TASK_SUSPEND\<rparr>, h \<mapsto> dispatched u)"
    and fr: "\<exists>tk rh nr cr ct. s' = ?s4\<lparr>tasks := tk, task_ready_head := rh, need_resched := nr,
                 critical := cr, curr_running_task := ct\<rparr>"
    using suspend_again_spec [OF q4 c4(1) cn c4(2,3)] by blast
  have ch: "c \<noteq> h" using cn by simp
  have tf: "timers s' = timers s3" "active_timer_head s' = active_timer_head s3" "sems s' = sems s3"
    using fr by auto
  have run: "rx_semaphore_wait (Some a) (Some p) timeout s = Some (Sleeps, s')"
    using s1(1,4,5) s3(1,2) s'(1) timers_only_fields [OF s3(8)]
    by (simp add: rx_sem_timeout_def)
  have "task_next s' = task_next s1"
    using s'(4,5) s1(5) timers_only_fields(1) [OF s3(8)] ch
    by (auto simp: task_next_def fun_eq_iff sem_sleeper_def)
  then have "sem_inv s' a (ws @ [c])"
    using sem_inv_frame [OF s1(3)] tf timers_only_fields(6) [OF s3(8)] by simp
  moreover have "active_timers s' (insert_timer (timer_expiry s') p ts)"
    using s3(3) active_timers_cong [of s' s3] tf by (simp add: timer_expiry_def [abs_def])
  ultimately show ?thesis using run s' s3 s1(8) tf ch by auto
qed

text \<open>The timeout handler takes its task out of the list, wherever it stands.\<close>

lemma sem_unlink_spec:
  assumes w: "waiting (sem_head m) s (pre @ a # suf)" and q: "ready_queue s xs"
    and dj: "set (pre @ a # suf) \<inter> set xs = {}" and t: "tasks s a = Some t" and sm: "sems s m = Some sm"
  shows "\<exists>s'. (if s_task sm = Some a then upd_sem (Some m) (\<lambda>x. x\<lparr>s_task := t_next t\<rparr>) s
               else do { h \<leftarrow> s_task sm; unlink_waiter h a s }) = Some s' \<and>
              waiting (sem_head m) s' (pre @ suf) \<and> ready_queue s' xs \<and> tasks s' a = Some t \<and>
              (\<forall>b. same_but_next (tasks s b) (tasks s' b)) \<and> sem_rest m s' = sem_rest m s \<and>
              curr_running_task s' = curr_running_task s \<and> timers s' = timers s \<and>
              active_timer_head s' = active_timer_head s \<and> jiffies s' = jiffies s"
proof (cases pre)
  case Nil
  then have wn: "waiting (sem_head m) s (a # suf)" using w by simp
  obtain s' where s': "set_sem_head m (t_next t) s = Some s'" "waiting (sem_head m) s' suf"
    "outside_objects s s'" "sem_rest m s' = sem_rest m s"
    using sem_q.pop_waiter [OF wn t] by blast
  have "s_task sm = Some a" using waiting_hd(1) [OF wn] sm by (simp add: sem_head_def)
  with s' Nil show ?thesis
    using q t outside_ready [OF s'(3)] by (simp add: set_sem_head_def outside_objects_def)
next
  case (Cons h hs)
  then have wn: "waiting (sem_head m) s (h # hs @ a # suf)" and dn: "set (h # hs @ a # suf) \<inter> set xs = {}"
    using w dj by simp_all
  have "a \<noteq> h" "a \<notin> set (h # hs)" using waiting_distinct [OF wn] by auto
  moreover have hd: "s_task sm = Some h" using waiting_hd(1) [OF wn] sm by (simp add: sem_head_def)
  moreover obtain s' where s': "unlink_waiter h a s = Some s'" "waiting (sem_head m) s' (h # hs @ suf)"
    "ready_queue s' xs" "\<forall>b. same_but_next (tasks s b) (tasks s' b)"
    "\<forall>b. b \<notin> set (h # hs) \<longrightarrow> tasks s' b = tasks s b" "outside_objects (s\<lparr>tasks := tasks s'\<rparr>) s'"
    "sem_rest m s' = sem_rest m s"
    using sem_q.unlink_waiter_spec [OF wn q dn] by blast
  ultimately show ?thesis using Cons t by (auto simp: outside_objects_def)
qed

definition sem_timed_out :: "rx_task \<Rightarrow> rx_task" where
  "sem_timed_out t = t\<lparr>t_timer := NULL, t_timeout := E_OS_TIMEOUT, t_state := RX_TASK_READY\<rparr>"

lemma sem_handler_spec:
  assumes q: "ready_queue s xs" and i: "sem_inv s m (pre @ a # suf)"
    and dj: "set (pre @ a # suf) \<inter> set xs = {}" and t: "tasks s a = Some t" "t_sem t = Some m"
  shows "\<exists>s' n. rx_sem_handler (Some a) s = Some s' \<and> sem_inv s' m (pre @ suf) \<and>
              ready_queue s' (insert_prio (task_prio s) a xs) \<and>
              tasks s' a = Some ((sem_timed_out t)\<lparr>t_next := n, t_sem := NULL\<rparr>) \<and>
              curr_running_task s' = curr_running_task s \<and> timers s' = timers s \<and>
              active_timer_head s' = active_timer_head s \<and> jiffies s' = jiffies s"
proof -
  obtain sm where sm: "sems s m = Some sm" and w: "waiting (sem_head m) s (pre @ a # suf)"
    and cv: "s_curr_val sm = - int (length (pre @ a # suf))" using i by (auto elim!: sem_invD)
  have d: "a \<notin> set (pre @ suf)" using waiting_distinct [OF w] by simp
  obtain s1 where s1: "(if s_task sm = Some a then upd_sem (Some m) (\<lambda>x. x\<lparr>s_task := t_next t\<rparr>) s
               else do { h \<leftarrow> s_task sm; unlink_waiter h a s }) = Some s1"
    "waiting (sem_head m) s1 (pre @ suf)" "ready_queue s1 xs" "tasks s1 a = Some t"
    "\<forall>b. same_but_next (tasks s b) (tasks s1 b)" "sem_rest m s1 = sem_rest m s"
    "curr_running_task s1 = curr_running_task s" "timers s1 = timers s"
    "active_timer_head s1 = active_timer_head s" "jiffies s1 = jiffies s"
    using sem_unlink_spec [OF w q dj t(1) sm] by blast
  obtain p where p: "sems s1 m = Some (sm\<lparr>s_task := p\<rparr>)"
    using sem_rest_eq(1) [OF s1(6) sm] by blast
  let ?sm = "sm\<lparr>s_task := p, s_curr_val := s_curr_val sm + 1\<rparr>"
  let ?s2 = "s1\<lparr>sems := (sems s1)(m \<mapsto> ?sm)\<rparr>"
  have w2: "waiting (sem_head m) ?s2 (pre @ suf)" using s1(2) waiting_sem_upd [OF p, of ?sm] by simp
  have q2: "ready_queue ?s2 xs" using s1(3) ready_queue_cong [of ?s2 s1] by simp
  have t2: "tasks ?s2 a = Some t" using s1(4) by simp
  have dj': "set (pre @ suf) \<inter> set xs = {}" "a \<notin> set xs" using dj by auto
  let ?s3 = "?s2\<lparr>tasks := (tasks ?s2)(a \<mapsto> sem_timed_out t)\<rparr>"
  obtain s4 n where s4: "rx_add_to_ready_q (Some a) ?s3 = Some (OS_OK, s4)"
    "ready_queue s4 (insert_prio (task_prio ?s3) a xs)" "waiting (sem_head m) s4 (pre @ suf)"
    "tasks s4 a = Some ((sem_timed_out t)\<lparr>t_next := n\<rparr>)" "relinked (insert a (set xs)) ?s3 s4"
    "sem_rest m s4 = sem_rest m ?s2"
    using sem_q.ready_waiter [where g = sem_timed_out, OF w2 q2 dj'(1) d dj'(2) t2]
    by (auto simp: sem_timed_out_def)
  let ?t' = "(sem_timed_out t)\<lparr>t_next := n, t_sem := NULL\<rparr>"
  let ?s' = "s4\<lparr>tasks := (tasks s4)(a \<mapsto> ?t')\<rparr>"
  have hand: "rx_sem_handler (Some a) s = Some ?s'"
    using t sm s1(1,4) p s4(1,4) by (simp add: rx_sem_handler_def sem_timed_out_def)
  obtain p' where p': "sems s4 m = Some (?sm\<lparr>s_task := p'\<rparr>)"
    using sem_rest_eq(1) [OF s4(6), of ?sm] by auto
  have "sem_inv ?s' m (pre @ suf)"
    using s4(3) sem_q.waiting_upd_absent [OF d] p' cv by (auto simp: sem_inv_def)
  moreover have "ready_queue ?s' (insert_prio (task_prio ?s3) a xs)"
    by (rule ready_queue_upd [OF s4(2,4)]) simp_all
  moreover have "task_prio ?s3 b = task_prio s b" for b
    using s1(5) [rule_format, of b] t s1(4)
    by (cases "tasks s b") (auto simp: task_prio_def sem_timed_out_def)
  then have "insert_prio (task_prio ?s3) a xs = insert_prio (task_prio s) a xs"
    by (intro insert_prio_cong) simp
  moreover have "curr_running_task ?s' = curr_running_task s" "timers ?s' = timers s"
    "active_timer_head ?s' = active_timer_head s" "jiffies ?s' = jiffies s"
    using relinked_fields(1,11,14,15) [OF s4(5)] s1(7-10) by simp_all
  ultimately show ?thesis using hand by auto
qed

lemma sem_release_untimed:
  "tasks s a = Some t \<Longrightarrow> t_timer t = NULL \<Longrightarrow>
     sem_release (Some a) s = Some (s\<lparr>tasks := (tasks s)(a \<mapsto> sem_woken t)\<rparr>)"
  by (simp add: sem_release_def sem_woken_def)

section \<open>Properties\<close>

text \<open>
  A concrete state for the examples: tasks 4 and 5 wait on semaphore 200, whose count is
  -2; semaphore 201 is free with a count of 1.
\<close>

definition demo_sem :: kstate where
  "demo_sem = demo_sleep\<lparr>
     tasks := (tasks demo_ready)(4 \<mapsto> (demo_task RX_TASK_SUSPEND 5 (Some 5))\<lparr>t_sem := Some 200\<rparr>,
                                 5 \<mapsto> (demo_task RX_TASK_SUSPEND 5 NULL)\<lparr>t_sem := Some 200\<rparr>),
     sems := [200 \<mapsto> \<lparr>s_init_val = 1, s_curr_val = -2, s_task = Some 4, s_next = NULL\<rparr>,
              201 \<mapsto> \<lparr>s_init_val = 1, s_curr_val = 1, s_task = NULL, s_next = NULL\<rparr>]\<rparr>"

lemma demo_sem_simps [simp]:
  "tasks demo_sem = (tasks demo_ready)(4 \<mapsto> (demo_task RX_TASK_SUSPEND 5 (Some 5))\<lparr>t_sem := Some 200\<rparr>,
                                 5 \<mapsto> (demo_task RX_TASK_SUSPEND 5 NULL)\<lparr>t_sem := Some 200\<rparr>)"
  "sems demo_sem = [200 \<mapsto> \<lparr>s_init_val = 1, s_curr_val = -2, s_task = Some 4, s_next = NULL\<rparr>,
              201 \<mapsto> \<lparr>s_init_val = 1, s_curr_val = 1, s_task = NULL, s_next = NULL\<rparr>]"
  "curr_running_task demo_sem = Some 1" "task_ready_head demo_sem = Some 1"
  "timers demo_sem = timers demo_sleep" "active_timer_head demo_sem = Some 100" "jiffies demo_sem = 4"
  by (simp_all add: demo_sem_def)

lemma demo_sem_ready: "ready_queue demo_sem [1, 2, 3]"
  by (simp add: ready_queue_def runnable_def task_prio_def task_next_def)

lemma demo_sem_inv: "sem_inv demo_sem 200 [4, 5]"
  by (simp add: sem_inv_def waiting_def sem_head_def task_next_def)

lemma demo_sem_active: "active_timers demo_sem [100, 101]"
  using demo_sleep_active active_timers_cong [of demo_sem demo_sleep] by simp

text \<open>
  \<^verbatim>\<open>rx_semaphore_wait\<close> without blocking: a positive count is decremented and the
  call returns OS_OK; with OS_NO_WAIT and no count it returns E_OS_UNAVAIL and the semaphore is
  as before. In both cases nothing else changes.
\<close>

theorem sem_wait_immediate:
  assumes "sems s a = Some sm"
  shows "(s_curr_val sm > 0 \<longrightarrow> rx_semaphore_wait (Some a) timer timeout s =
           Some (Returns OS_OK, s\<lparr>sems := (sems s)(a \<mapsto> sm\<lparr>s_curr_val := s_curr_val sm - 1\<rparr>),
                                  critical := critical s \<and> in_irq s\<rparr>)) \<and>
         (s_curr_val sm \<le> 0 \<longrightarrow> rx_semaphore_wait (Some a) timer OS_NO_WAIT s =
           Some (Returns E_OS_UNAVAIL, s\<lparr>critical := critical s \<and> in_irq s\<rparr>))"
  using assms by (simp add: rx_semaphore_wait_def critical_eqs fun_upd_idem)

theorem sem_wait_immediate_witness:
  "(\<exists>s'. rx_semaphore_wait (Some 201) NULL 0 demo_sem = Some (Returns OS_OK, s')) \<and>
   (\<exists>s'. rx_semaphore_wait (Some 200) NULL OS_NO_WAIT demo_sem = Some (Returns E_OS_UNAVAIL, s'))"
  using sem_wait_immediate [of demo_sem 201 _ NULL 0] sem_wait_immediate [of demo_sem 200 _ NULL 0]
  by simp

text \<open>
  C8. \<^verbatim>\<open>rx_semaphore_wait\<close> with OS_WAIT_FOREVER on an exhausted semaphore: the caller
  is appended to the waiters in state SUSPEND, the count goes down by one, the head of the
  remaining ready queue runs, and the count is again minus the number of waiters.
\<close>

theorem sem_wait_blocks:
  assumes "ready_queue s xs" and "sem_inv s a ws" and "set xs \<inter> set ws = {}"
    and "curr_running_task s = Some c" and "c \<in> set xs" and "tasks s c = Some t"
    and "remove1 c xs = h # ys" and "sems s a = Some sm" and "s_curr_val sm \<le> 0"
  shows "\<exists>s' u. rx_semaphore_wait (Some a) timer OS_WAIT_FOREVER s = Some (Sleeps, s') \<and>
              curr_running_task s' = Some h \<and> tasks s' h = Some u \<and> t_state u = RX_TASK_RUNNING \<and>
              ready_queue s' (h # ys) \<and> sem_inv s' a (ws @ [c]) \<and>
              tasks s' c = Some (sem_sleeper a t)"
  using sem_wait_forever_spec [OF assms, of OS_WAIT_FOREVER timer] by (auto simp: OS_WAIT_FOREVER_def)

theorem sem_wait_blocks_witness:
  "\<exists>s'. rx_semaphore_wait (Some 200) NULL OS_WAIT_FOREVER demo_sem = Some (Sleeps, s') \<and>
        curr_running_task s' = Some 2 \<and> ready_queue s' [2, 3] \<and> sem_inv s' 200 [4, 5, 1]"
  using sem_wait_blocks [OF demo_sem_ready demo_sem_inv, of 1 "demo_task RX_TASK_RUNNING 2 (Some 2)"
      2 "[3]" "\<lparr>s_init_val = 1, s_curr_val = -2, s_task = Some 4, s_next = NULL\<rparr>" NULL]
  by auto

text \<open>
  C7. \<^verbatim>\<open>rx_semaphore_post\<close> with waiters wakes exactly the one that has waited longest:
  it leaves the list, is ready and queued behind the tasks of its priority, the count goes up
  by one, and every task outside the ready queue is as before.
\<close>

theorem sem_post_wakes_first:
  assumes "ready_queue s xs" and "sem_inv s a (w # ws)" and "set (w # ws) \<inter> set xs = {}"
    and "tasks s w = Some t"
  shows "\<exists>s' n. rx_semaphore_post (Some a) s = Some (OS_OK, s') \<and> sem_inv s' a ws \<and>
              ready_queue s' (insert_prio (task_prio s) w xs) \<and>
              tasks s' w = Some (t\<lparr>t_state := RX_TASK_READY, t_sem := NULL, t_next := n\<rparr>) \<and>
              (\<forall>b. b \<notin> insert w (set xs) \<longrightarrow> tasks s' b = tasks s b)"
  using sem_post_spec [OF assms] by (auto simp: sem_woken_def)

theorem sem_post_wakes_first_witness:
  "\<exists>s'. rx_semaphore_post (Some 200) demo_sem = Some (OS_OK, s') \<and> sem_inv s' 200 [5] \<and>
        ready_queue s' [1, 2, 4, 3]"
  using sem_post_wakes_first [OF demo_sem_ready demo_sem_inv] by (auto simp: task_prio_def)

text \<open>
  A post that finds no waiter is lost: the count is not incremented, so a semaphore that
  was taken is not available afterwards, however often it is posted.
\<close>

theorem sem_post_lost:
  assumes "sems s a = Some sm" and "s_task sm = NULL" and "s_curr_val sm = 1"
  shows "\<exists>s1 s2 s3. rx_semaphore_wait (Some a) timer timeout s = Some (Returns OS_OK, s1) \<and>
           rx_semaphore_post (Some a) s1 = Some (OS_OK, s2) \<and>
           rx_semaphore_wait (Some a) timer OS_NO_WAIT s2 = Some (Returns E_OS_UNAVAIL, s3)"
  using assms by (simp add: rx_semaphore_wait_def rx_semaphore_post_def critical_eqs)

theorem sem_post_lost_witness:
  "\<exists>s1 s2 s3. rx_semaphore_wait (Some 201) NULL 0 demo_sem = Some (Returns OS_OK, s1) \<and>
     rx_semaphore_post (Some 201) s1 = Some (OS_OK, s2) \<and>
     rx_semaphore_wait (Some 201) NULL OS_NO_WAIT s2 = Some (Returns E_OS_UNAVAIL, s3)"
  using sem_post_lost [of demo_sem 201 _ NULL 0] by simp

text \<open>
  Waiting with a timeout: the caller sleeps on the semaphore with a timer armed for
  \<open>timeout\<close> ticks, and if the handler of that timer runs before a post, it takes the caller out
  of the waiters and makes it ready, and the call then returns E_OS_TIMEOUT.
\<close>

theorem sem_wait_times_out:
  assumes "ready_queue s xs" and "sem_inv s a ws" and "set xs \<inter> set ws = {}"
    and "curr_running_task s = Some c" and "c \<in> set xs" and "tasks s c = Some t"
    and "remove1 c xs = h # ys" and "sems s a = Some sm" and "s_curr_val sm \<le> 0"
    and "0 < timeout" and "(word_of_int timeout :: 32 word) \<noteq> 0"
    and "active_timers s ts" and "p \<notin> set ts" and "timers s p = Some tm"
  shows "\<exists>s1 tm' s2 r. rx_semaphore_wait (Some a) (Some p) timeout s = Some (Sleeps, s1) \<and>
           sem_inv s1 a (ws @ [c]) \<and> active_timers s1 (insert_timer (timer_expiry s1) p ts) \<and>
           timers s1 p = Some tm' \<and> tm_handler tm' = Some Sem_Handler \<and> tm_priv tm' = Some c \<and>
           tm_time_expiry tm' = word_of_int timeout + jiffies s \<and>
           rx_sem_handler (Some c) s1 = Some s2 \<and> sem_inv s2 a ws \<and>
           ready_queue s2 (insert_prio (task_prio s1) c (h # ys)) \<and>
           sem_timeout_resume (s2\<lparr>curr_running_task := Some c\<rparr>) = Some (Returns E_OS_TIMEOUT, r)"
proof -
  obtain s1 tm' where s1: "rx_semaphore_wait (Some a) (Some p) timeout s = Some (Sleeps, s1)"
    "ready_queue s1 (h # ys)" "sem_inv s1 a (ws @ [c])" "active_timers s1 (insert_timer (timer_expiry s1) p ts)"
    "timers s1 p = Some tm'" "tm_handler tm' = Some Sem_Handler" "tm_priv tm' = Some c"
    "tm_time_expiry tm' = word_of_int timeout + jiffies s"
    and tc: "tasks s1 c = Some ((sem_sleeper a t)\<lparr>t_timeout := RX_TIMER_ON, t_timer := Some p,
                                                   t_state := RX_TASK_SUSPEND\<rparr>)" (is "_ = Some ?t")
    using sem_wait_timed_spec [OF assms] by blast
  have i1: "sem_inv s1 a (ws @ c # [])" using s1(3) by simp
  have "distinct xs" by (rule ready_queue_distinct [OF assms(1)])
  then have "set (h # ys) = set xs - {c}" using assms(7) by (metis set_remove1_eq)
  then have dj: "set (ws @ c # []) \<inter> set (h # ys) = {}" using assms(3) by auto
  have "t_sem ?t = Some a" by (simp add: sem_sleeper_def)
  from sem_handler_spec [OF s1(2) i1 dj tc this] obtain s2 n where s2:
    "rx_sem_handler (Some c) s1 = Some s2" "sem_inv s2 a ws"
    "ready_queue s2 (insert_prio (task_prio s1) c (h # ys))"
    "tasks s2 c = Some ((sem_timed_out ?t)\<lparr>t_next := n, t_sem := NULL\<rparr>)" by auto
  have "sem_timeout_resume (s2\<lparr>curr_running_task := Some c\<rparr>) =
      Some (Returns E_OS_TIMEOUT, s2\<lparr>curr_running_task := Some c\<rparr>)"
    using s2(4) by (simp add: sem_timeout_resume_def sem_timed_out_def)
  then show ?thesis using s1 s2 by auto
qed

theorem sem_wait_times_out_witness:
  "\<exists>s1 tm' s2 r. rx_semaphore_wait (Some 200) (Some 102) 10 demo_sem = Some (Sleeps, s1) \<and>
     timers s1 102 = Some tm' \<and> tm_time_expiry tm' = 14 \<and>
     rx_sem_handler (Some 1) s1 = Some s2 \<and> sem_inv s2 200 [4, 5] \<and>
     sem_timeout_resume (s2\<lparr>curr_running_task := Some 1\<rparr>) = Some (Returns E_OS_TIMEOUT, r)"
  using sem_wait_times_out [OF demo_sem_ready demo_sem_inv, of 1 "demo_task RX_TASK_RUNNING 2 (Some 2)"
      2 "[3]" "\<lparr>s_init_val = 1, s_curr_val = -2, s_task = Some 4, s_next = NULL\<rparr>"
      10 "[100, 101]" 102 "demo_timer 0 0 NULL NULL NULL"] demo_sem_active
  by auto



end
