(* ===== verification/RX_Mutex.thy ===== *)
theory RX_Mutex
  imports RX_Waiters
begin

text \<open>
  Mutexes with priority inheritance (\<^verbatim>\<open>kernel/rx_mutex.c\<close>, built with
  CONFIG_PRIO_INHERITANCE): locking with and without a timeout, unlocking with hand-over to the
  longest waiter, the timeout handler, creation and deletion.
\<close>

section \<open>Operations\<close>

definition mutex_head :: "addr \<Rightarrow> kstate \<Rightarrow> ptr option" where
  "mutex_head a s = map_option m_task (mutexes s a)"

definition set_mutex_head :: "addr \<Rightarrow> ptr \<Rightarrow> kstate \<Rightarrow> kstate option" where
  "set_mutex_head a p s = upd_mutex (Some a) (\<lambda>x. x\<lparr>m_task := p\<rparr>) s"

definition rx_create_mutex :: "ptr \<Rightarrow> kstate \<Rightarrow> (int \<times> kstate) option" where
  "rx_create_mutex m s =
     do { s1 \<leftarrow> upd_mutex m (\<lambda>x. x\<lparr>m_lock := RX_MUTEX_UNLOCKED, m_owner := NULL, m_next := NULL,
                                  m_task := NULL\<rparr>) (rx_enter_critical s);
          Some (OS_OK, rx_exit_critical s1) }"

definition mutex_release :: "ptr \<Rightarrow> kstate \<Rightarrow> kstate option" where
  "mutex_release p s =
     do { s1 \<leftarrow> upd_task p (\<lambda>t. t\<lparr>t_state := RX_TASK_READY, t_mutex := NULL\<rparr>) s;
          t \<leftarrow> deref (tasks s1) p;
          (if t_timer t \<noteq> NULL
           then do { s2 \<leftarrow> rx_stop_timer (t_timer t) s1;
                     upd_task p (\<lambda>t. t\<lparr>t_timer := NULL\<rparr>) s2 }
           else Some s1) }"

definition rx_delete_mutex :: "ptr \<Rightarrow> kstate \<Rightarrow> kstate option" where
  "rx_delete_mutex m s =
     do { a \<leftarrow> m;
          s1 \<leftarrow> wake_all (mutex_head a) (set_mutex_head a) mutex_release (rx_enter_critical s);
          s2 \<leftarrow> upd_mutex m (\<lambda>x. x\<lparr>m_owner := NULL\<rparr>) s1;
          Some (rx_exit_critical s2) }"

text \<open>The loop that lets the owner inherit the highest priority of the waiters.\<close>

partial_function (option) inherit_prio :: "ptr \<Rightarrow> ptr \<Rightarrow> kstate \<Rightarrow> kstate option" where
  "inherit_prio owner t s =
     (case t of
        None \<Rightarrow> Some s
      | Some a \<Rightarrow>
          do { tt \<leftarrow> tasks s a;
               ow \<leftarrow> deref (tasks s) owner;
               s1 \<leftarrow> (if t_prio ow > t_prio tt
                      then upd_task owner (\<lambda>u. u\<lparr>t_prio := t_prio tt\<rparr>) s else Some s);
               inherit_prio owner (t_next tt) s1 })"

text \<open>The hand-over to the first waiter \<open>t\<close> in \<^verbatim>\<open>rx_mutex_unlock\<close>.\<close>

definition mutex_hand_over :: "ptr \<Rightarrow> addr \<Rightarrow> kstate \<Rightarrow> kstate option" where
  "mutex_hand_over p t s =
     do { tt \<leftarrow> tasks s t;
          sa \<leftarrow> upd_mutex p (\<lambda>x. x\<lparr>m_task := t_next tt\<rparr>) s;
          sb \<leftarrow> (if t_timer tt \<noteq> NULL
                 then do { x \<leftarrow> rx_stop_timer (t_timer tt) sa;
                           upd_task (Some t) (\<lambda>u. u\<lparr>t_timer := NULL\<rparr>) x }
                 else Some sa);
          sc \<leftarrow> upd_mutex p (\<lambda>x. x\<lparr>m_owner := Some t\<rparr>) sb;
          sd \<leftarrow> inherit_prio (Some t) (t_next tt) sc;
          se \<leftarrow> upd_task (Some t) (\<lambda>u. u\<lparr>t_state := RX_TASK_READY, t_mutex := NULL\<rparr>) sd;
          sf \<leftarrow> upd_mutex p (\<lambda>x. x\<lparr>m_lock := RX_MUTEX_LOCKED\<rparr>) se;
          map_option snd (rx_add_to_ready_q (Some t) sf) }"

definition rx_mutex_unlock :: "ptr \<Rightarrow> kstate \<Rightarrow> (int \<times> kstate) option" where
  "rx_mutex_unlock p s =
     do { let s1 = rx_enter_critical s;
          m \<leftarrow> deref (mutexes s1) p;
          (if m_lock m = RX_MUTEX_LOCKED then
             if m_owner m \<noteq> curr_running_task s1 then Some (OS_ERR, rx_exit_critical s1)
             else
               do { s2 \<leftarrow> upd_mutex p (\<lambda>x. x\<lparr>m_lock := RX_MUTEX_UNLOCKED\<rparr>) s1;
                    ow \<leftarrow> deref (tasks s2) (m_owner m);
                    s3 \<leftarrow> (if t_prio ow \<noteq> t_orig_prio ow
                           then do { sa \<leftarrow> upd_task (m_owner m) (\<lambda>u. u\<lparr>t_prio := t_orig_prio u\<rparr>) s2;
                                     (_, sb) \<leftarrow> rx_remove_from_ready_q (m_owner m) sa;
                                     map_option snd (rx_add_to_ready_q (curr_running_task sb) sb) }
                           else Some s2);
                    m3 \<leftarrow> deref (mutexes s3) p;
                    s4 \<leftarrow> (case m_task m3 of
                             None \<Rightarrow> Some s3 | Some t \<Rightarrow> mutex_hand_over p t s3);
                    Some (OS_OK, rx_exit_critical s4) }
           else Some (OS_OK, rx_exit_critical s1)) }"

definition rx_mutex_handler :: "ptr \<Rightarrow> kstate \<Rightarrow> kstate option" where
  "rx_mutex_handler p s =
     do { task \<leftarrow> p;
          t \<leftarrow> tasks s task;
          mu \<leftarrow> t_mutex t;
          m \<leftarrow> mutexes s mu;
          (if m_owner m = Some task then Some s
           else
             do { s1 \<leftarrow> (if m_task m = Some task
                         then upd_mutex (Some mu) (\<lambda>x. x\<lparr>m_task := t_next t\<rparr>) s
                         else do { h \<leftarrow> m_task m; unlink_waiter h task s });
                  ow \<leftarrow> deref (tasks s1) (m_owner m);
                  s2 \<leftarrow> (if t_prio ow = t_prio t
                         then do { sa \<leftarrow> upd_task (m_owner m) (\<lambda>u. u\<lparr>t_prio := t_orig_prio u\<rparr>) s1;
                                   m1 \<leftarrow> mutexes sa mu;
                                   inherit_prio (m_owner m) (m_task m1) sa }
                         else Some s1);
                  ow2 \<leftarrow> deref (tasks s2) (m_owner m);
                  s3 \<leftarrow> (if t_state ow2 = RX_TASK_READY
                         then do { (_, sb) \<leftarrow> rx_remove_from_ready_q (m_owner m) s2;
                                   map_option snd (rx_add_to_ready_q (m_owner m) sb) }
                         else Some s2);
                  s4 \<leftarrow> upd_task p (\<lambda>u. u\<lparr>t_timer := NULL, t_mutex := NULL,
                                        t_state := RX_TASK_READY\<rparr>) s3;
                  map_option snd (rx_add_to_ready_q p s4) }) }"

definition mutex_timeout_resume :: "ptr \<Rightarrow> kstate \<Rightarrow> (int call \<times> kstate) option" where
  "mutex_timeout_resume p s =
     do { m \<leftarrow> deref (mutexes s) p;
          Some (Returns (if m_owner m = curr_running_task s then OS_OK else E_OS_TIMEOUT), s) }"

definition rx_mutex_timeout :: "ptr \<Rightarrow> ptr \<Rightarrow> int \<Rightarrow> kstate \<Rightarrow> (int call \<times> kstate) option" where
  "rx_mutex_timeout p timer timeout s =
     do { (_, s1) \<leftarrow> rx_init_timer timer (Some Mutex_Handler) (curr_running_task s) (word_of_int timeout) s;
          s2 \<leftarrow> rx_start_timer timer s1;
          s3 \<leftarrow> upd_task (curr_running_task s2) (\<lambda>t. t\<lparr>t_timer := timer\<rparr>) s2;
          (r, s4) \<leftarrow> rx_suspend_task NULL s3;
          (case r of Sleeps \<Rightarrow> Some (Sleeps, s4) | Returns _ \<Rightarrow> mutex_timeout_resume p s4) }"

definition mutex_lock_resume :: "ptr \<Rightarrow> kstate \<Rightarrow> (int call \<times> kstate) option" where
  "mutex_lock_resume p s = Some (Returns (if p = NULL then E_OS_UNAVAIL else OS_OK), s)"

text \<open>The inheritance step of \<^verbatim>\<open>rx_mutex_lock\<close>.\<close>

definition mutex_boost_owner :: "ptr \<Rightarrow> kstate \<Rightarrow> kstate option" where
  "mutex_boost_owner owner s =
     do { ow \<leftarrow> deref (tasks s) owner;
          me \<leftarrow> deref (tasks s) (curr_running_task s);
          (if t_prio ow > t_prio me
           then do { s1 \<leftarrow> upd_task owner (\<lambda>u. u\<lparr>t_prio := t_prio me\<rparr>) s;
                     (if t_state ow = RX_TASK_READY
                      then do { (_, s2) \<leftarrow> rx_remove_from_ready_q owner s1;
                                map_option snd (rx_add_to_ready_q owner s2) }
                      else Some s1) }
           else Some s) }"

definition rx_mutex_lock :: "ptr \<Rightarrow> ptr \<Rightarrow> int \<Rightarrow> kstate \<Rightarrow> (int call \<times> kstate) option" where
  "rx_mutex_lock p timer timeout s =
     do { let s1 = rx_enter_critical s;
          m \<leftarrow> deref (mutexes s1) p;
          (if m_lock m = RX_MUTEX_UNLOCKED
           then do { s2 \<leftarrow> upd_mutex p (\<lambda>x. x\<lparr>m_lock := RX_MUTEX_LOCKED,
                                            m_owner := curr_running_task s1\<rparr>) s1;
                     Some (Returns OS_OK, rx_exit_critical s2) }
           else if timeout = OS_NO_WAIT then Some (Returns E_OS_UNAVAIL, rx_exit_critical s1)
           else
             do { a \<leftarrow> p;
                  s2 \<leftarrow> upd_task (curr_running_task s1) (\<lambda>t. t\<lparr>t_state := RX_TASK_SUSPEND, t_mutex := p\<rparr>) s1;
                  (_, s3) \<leftarrow> rx_remove_from_ready_q (curr_running_task s2) s2;
                  s4 \<leftarrow> set_task_next (curr_running_task s3) NULL s3;
                  s5 \<leftarrow> enqueue_task (mutex_head a) (set_mutex_head a) (curr_running_task s4) s4;
                  s6 \<leftarrow> mutex_boost_owner (m_owner m) s5;
                  let s7 = rx_exit_critical s6;
                  (if timeout > 0 then rx_mutex_timeout p timer timeout s7
                   else sched_then (mutex_lock_resume p) s7) }) }"


section \<open>The mutex as a waiting list\<close>

definition mutex_rest :: "addr \<Rightarrow> kstate \<Rightarrow> (addr \<rightharpoonup> mutex)" where
  "mutex_rest a s = (mutexes s)(a := map_option (\<lambda>x. x\<lparr>m_task := NULL\<rparr>) (mutexes s a))"

interpretation mutex_q: waiter_queue "mutex_head a" "set_mutex_head a" "mutex_rest a" for a
  by unfold_locales (auto simp: mutex_head_def set_mutex_head_def mutex_rest_def outside_objects_def)

lemma mutex_rest_eq:
  assumes "mutex_rest a s' = mutex_rest a s" and "mutexes s a = Some m"
  shows "\<exists>p. mutexes s' a = Some (m\<lparr>m_task := p\<rparr>)" and "\<And>b. b \<noteq> a \<Longrightarrow> mutexes s' b = mutexes s b"
proof -
  have e: "mutex_rest a s' b = mutex_rest a s b" for b using assms(1) by simp
  from e [of a] assms(2) obtain x where x: "mutexes s' a = Some x" "x\<lparr>m_task := NULL\<rparr> = m\<lparr>m_task := NULL\<rparr>"
    by (auto simp: mutex_rest_def)
  have "x = x\<lparr>m_task := NULL, m_task := m_task x\<rparr>" by simp
  also have "\<dots> = m\<lparr>m_task := m_task x\<rparr>" unfolding x(2) by simp
  finally show "\<exists>p. mutexes s' a = Some (m\<lparr>m_task := p\<rparr>)" using x(1) by auto
  show "mutexes s' b = mutexes s b" if "b \<noteq> a" for b using e [of b] that by (simp add: mutex_rest_def)
qed

lemma waiting_mutex_upd:
  "mutexes s a = Some m \<Longrightarrow> m_task m' = m_task m \<Longrightarrow>
     waiting (mutex_head a) (s\<lparr>mutexes := (mutexes s)(a \<mapsto> m')\<rparr>) ws = waiting (mutex_head a) s ws"
  by (rule waiting_cong) (simp_all add: mutex_head_def)

text \<open>
  The invariant of a mutex: it is locked by an owner, or it is unlocked and nobody waits.
\<close>

definition mutex_inv :: "kstate \<Rightarrow> addr \<Rightarrow> ptr \<Rightarrow> addr list \<Rightarrow> bool" where
  "mutex_inv s a owner ws \<longleftrightarrow>
     (\<exists>m. mutexes s a = Some m \<and> waiting (mutex_head a) s ws \<and>
        (if owner = NULL then m_lock m = RX_MUTEX_UNLOCKED \<and> ws = []
         else m_lock m = RX_MUTEX_LOCKED \<and> m_owner m = owner))"


section \<open>Priority inheritance\<close>

lemma inherit_prio_spec:
  assumes "lst (task_next s) t ws" and "a \<notin> set ws" and "tasks s a = Some u"
  shows "inherit_prio (Some a) t s =
           Some (s\<lparr>tasks := (tasks s)(a \<mapsto> u\<lparr>t_prio := foldl min (t_prio u) (map (task_prio s) ws)\<rparr>)\<rparr>)"
  using assms
proof (induction ws arbitrary: t s u)
  case Nil
  then show ?case by (subst inherit_prio.simps) (simp add: fun_upd_idem)
next
  case (Cons b ws)
  obtain tb where tb: "t = Some b" "tasks s b = Some tb" "lst (task_next s) (t_next tb) ws"
    using Cons.prems(1) by (auto simp: task_next_eq_Some)
  have ab: "a \<noteq> b" using Cons.prems(2) by auto
  let ?u = "u\<lparr>t_prio := min (t_prio u) (t_prio tb)\<rparr>"
  let ?s1 = "s\<lparr>tasks := (tasks s)(a \<mapsto> ?u)\<rparr>"
  have step: "inherit_prio (Some a) t s = inherit_prio (Some a) (t_next tb) ?s1"
    using tb Cons.prems(3) by (subst inherit_prio.simps) (auto simp: min_def fun_upd_idem)
  have next1: "task_next ?s1 = task_next s" by (rule task_next_upd_same [OF Cons.prems(3)]) simp
  have pr: "map (task_prio ?s1) ws = map (task_prio s) ws"
    using Cons.prems(2) by (auto simp: task_prio_def)
  have "inherit_prio (Some a) (t_next tb) ?s1 =
      Some (?s1\<lparr>tasks := (tasks ?s1)(a \<mapsto> ?u\<lparr>t_prio := foldl min (t_prio ?u) (map (task_prio ?s1) ws)\<rparr>)\<rparr>)"
    by (rule Cons.IH) (use tb(3) next1 Cons.prems(2) in \<open>auto simp del: task_next_upd\<close>)
  also have "\<dots> = Some (s\<lparr>tasks := (tasks s)(a \<mapsto>
      u\<lparr>t_prio := foldl min (t_prio u) (map (task_prio s) (b # ws))\<rparr>)\<rparr>)"
    unfolding pr by (simp add: tb(2) task_prio_def)
  finally show ?case unfolding step .
qed

text \<open>Moving a ready task to the place of its new priority.\<close>

lemma requeue_spec:
  fixes pr :: int
  assumes q: "ready_queue s xs" and a: "a \<in> set xs" "tasks s a = Some t"
  defines "s1 \<equiv> s\<lparr>tasks := (tasks s)(a \<mapsto> t\<lparr>t_prio := pr\<rparr>)\<rparr>"
  shows "\<exists>s2 s3. rx_remove_from_ready_q (Some a) s1 = Some (OS_OK, s2) \<and>
            rx_add_to_ready_q (Some a) s2 = Some (OS_OK, s3) \<and>
            ready_queue s3 (insert_prio (task_prio s1) a (remove1 a xs)) \<and> relinked (set xs) s1 s3 \<and>
            curr_running_task s2 = curr_running_task s"
proof -
  obtain s2 where s2: "rx_remove_from_ready_q (Some a) s1 = Some (OS_OK, s2)"
    "ready_queue s2 (remove1 a xs)" "tasks s2 a = Some (t\<lparr>t_prio := pr, t_next := NULL\<rparr>)"
    "relinked (set xs) s1 s2"
    using depart_spec [where f = "\<lambda>t. t\<lparr>t_prio := pr\<rparr>", OF q a] unfolding s1_def by auto
  have "runnable s a" using q a by (auto simp: ready_queue_def)
  then have r2: "runnable s2 a" using s2(3) a(2) by (simp add: runnable_def)
  have n2: "a \<notin> set (remove1 a xs)" using ready_queue_distinct [OF q] by simp
  obtain s3 where s3: "rx_add_to_ready_q (Some a) s2 = Some (OS_OK, s3)"
    "ready_queue s3 (insert_prio (task_prio s2) a (remove1 a xs))"
    "relinked (insert a (set (remove1 a xs))) s2 s3"
    using add_to_ready_q_spec [OF s2(2) r2 n2] by blast
  have "task_prio s2 = task_prio s1" using relinked_prio [OF s2(4)] by (rule ext)
  moreover have "relinked (set xs) s1 s3"
    by (rule relinked_trans [OF s2(4) s3(3)]) (use a set_remove1_subset [of a xs] in auto)
  ultimately show ?thesis using s2 s3 relinked_fields(11) [OF s2(4)] by (auto simp: s1_def)
qed

lemma boost_owner_spec:
  assumes q: "ready_queue s ys" and o: "a \<in> set ys" "tasks s a = Some ot" "t_state ot = RX_TASK_READY"
    and c: "curr_running_task s = Some c" "tasks s c = Some me"
  defines "s1 \<equiv> s\<lparr>tasks := (tasks s)(a \<mapsto> ot\<lparr>t_prio := min (t_prio ot) (t_prio me)\<rparr>)\<rparr>"
  shows "\<exists>s'. mutex_boost_owner (Some a) s = Some s' \<and> relinked (set ys) s1 s' \<and>
              ready_queue s' (if t_prio me < t_prio ot then insert_prio (task_prio s1) a (remove1 a ys) else ys)"
proof (cases "t_prio me < t_prio ot")
  case True
  then have s1: "s1 = s\<lparr>tasks := (tasks s)(a \<mapsto> ot\<lparr>t_prio := t_prio me\<rparr>)\<rparr>" by (simp add: s1_def min_def)
  obtain s2 s3 where "rx_remove_from_ready_q (Some a) s1 = Some (OS_OK, s2)"
    "rx_add_to_ready_q (Some a) s2 = Some (OS_OK, s3)"
    "ready_queue s3 (insert_prio (task_prio s1) a (remove1 a ys))" "relinked (set ys) s1 s3"
    using requeue_spec [OF q o(1,2), of "t_prio me"] unfolding s1 by blast
  then show ?thesis using True o c by (simp add: mutex_boost_owner_def s1)
next
  case False
  then have "s1 = s" using o(2) by (simp add: s1_def min_def fun_upd_idem)
  then show ?thesis using False o c q by (simp add: mutex_boost_owner_def)
qed

section \<open>Locking\<close>

definition mutex_sleeper :: "addr \<Rightarrow> rx_task \<Rightarrow> rx_task" where
  "mutex_sleeper a t = t\<lparr>t_state := RX_TASK_SUSPEND, t_mutex := Some a, t_next := NULL\<rparr>"

text \<open>The queue after the caller \<open>c\<close> has blocked on a mutex held by \<open>o'\<close>.\<close>

definition boosted_queue :: "kstate \<Rightarrow> addr \<Rightarrow> addr \<Rightarrow> addr list \<Rightarrow> addr list" where
  "boosted_queue s c a xs =
     (if task_prio s c < task_prio s a
      then insert_prio ((task_prio s)(a := task_prio s c)) a (remove1 a (remove1 c xs))
      else remove1 c xs)"

text \<open>A caller that has to wait, up to the question who inherits its priority.\<close>

lemma lock_blocks:
  assumes q: "ready_queue s xs" and i: "mutex_inv s a (Some b) ws" and dj: "set xs \<inter> set ws = {}"
    and c: "curr_running_task s = Some c" "c \<in> set xs" "tasks s c = Some t" and to: "timeout \<noteq> OS_NO_WAIT"
  obtains s' where "rx_mutex_lock (Some a) timer timeout s =
         do { s6 \<leftarrow> mutex_boost_owner (Some b) s';
              (if timeout > 0 then rx_mutex_timeout (Some a) timer timeout (rx_exit_critical s6)
               else sched_then (mutex_lock_resume (Some a)) (rx_exit_critical s6)) }"
    "ready_queue s' (remove1 c xs)" "mutex_inv s' a (Some b) (ws @ [c])" "tasks s' c = Some (mutex_sleeper a t)"
    "\<forall>x. x \<noteq> c \<longrightarrow> same_but_next (tasks s x) (tasks s' x)" "curr_running_task s' = Some c"
    "timers s' = timers s" "active_timer_head s' = active_timer_head s" "jiffies s' = jiffies s"
proof -
  let ?s1 = "rx_enter_critical s"
  let ?f = "\<lambda>t. t\<lparr>t_state := RX_TASK_SUSPEND, t_mutex := Some a\<rparr>"
  let ?s2 = "?s1\<lparr>tasks := (tasks ?s1)(c \<mapsto> ?f t)\<rparr>"
  obtain m where m: "mutexes s a = Some m" "waiting (mutex_head a) s ws" "m_lock m = RX_MUTEX_LOCKED"
    "m_owner m = Some b" using i by (auto simp: mutex_inv_def)
  have w1: "waiting (mutex_head a) ?s1 ws" "ready_queue ?s1 xs" "tasks ?s1 c = Some t"
    using m q c by simp_all
  obtain s3 s5 where s3: "rx_remove_from_ready_q (Some c) ?s2 = Some (OS_OK, s3)"
    "curr_running_task s3 = curr_running_task ?s1" "tasks s3 c = Some ((?f t)\<lparr>t_next := NULL\<rparr>)"
    and s5: "enqueue_task (mutex_head a) (set_mutex_head a) (Some c) s3 = Some s5"
      "ready_queue s5 (remove1 c xs)" "waiting (mutex_head a) s5 (ws @ [c])"
      "tasks s5 c = Some ((?f t)\<lparr>t_next := NULL\<rparr>)"
      "\<forall>b. b \<noteq> c \<longrightarrow> same_but_next (tasks ?s1 b) (tasks s5 b)"
      "curr_running_task s5 = curr_running_task ?s1" "timers s5 = timers ?s1"
      "active_timer_head s5 = active_timer_head ?s1" "jiffies s5 = jiffies ?s1"
      "mutex_rest a s5 = mutex_rest a ?s1"
    using mutex_q.block_spec [where f = ?f, OF w1(2,1) dj c(2) w1(3)] by auto
  obtain p where p: "mutexes s5 a = Some (m\<lparr>m_task := p\<rparr>)"
    using mutex_rest_eq(1) [OF s5(10)] m(1) by auto
  show thesis
  proof (rule that [of s5])
    show "rx_mutex_lock (Some a) timer timeout s =
         do { s6 \<leftarrow> mutex_boost_owner (Some b) s5;
              (if timeout > 0 then rx_mutex_timeout (Some a) timer timeout (rx_exit_critical s6)
               else sched_then (mutex_lock_resume (Some a)) (rx_exit_critical s6)) }"
      using m to c s3 s5(1,6) clear_next_idem [OF s3(3)] by (simp add: rx_mutex_lock_def Let_def)
    show "mutex_inv s5 a (Some b) (ws @ [c])" using s5(3) p m by (simp add: mutex_inv_def)
  qed (use s5 c(1) in \<open>simp_all add: mutex_sleeper_def\<close>)
qed

lemma mutex_lock_enqueues:
  assumes q: "ready_queue s xs" and i: "mutex_inv s a (Some b) ws" and dj: "set xs \<inter> set ws = {}"
    and c: "curr_running_task s = Some c" "c \<in> set xs" "tasks s c = Some t"
    and o: "b \<in> set xs" "b \<noteq> c" "tasks s b = Some ot" "t_state ot = RX_TASK_READY"
    and to: "timeout \<noteq> OS_NO_WAIT"
  shows "\<exists>s' n. rx_mutex_lock (Some a) timer timeout s =
                (if timeout > 0 then rx_mutex_timeout (Some a) timer timeout s'
                 else sched_then (mutex_lock_resume (Some a)) s') \<and>
              ready_queue s' (boosted_queue s c b xs) \<and> mutex_inv s' a (Some b) (ws @ [c]) \<and>
              curr_running_task s' = Some c \<and> tasks s' c = Some (mutex_sleeper a t) \<and>
              tasks s' b = Some (ot\<lparr>t_prio := min (t_prio ot) (t_prio t), t_next := n\<rparr>) \<and>
              timers s' = timers s \<and> active_timer_head s' = active_timer_head s \<and> jiffies s' = jiffies s \<and>
              (\<forall>x. x \<noteq> c \<longrightarrow> x \<noteq> b \<longrightarrow> same_but_next (tasks s x) (tasks s' x))"
proof -
  obtain s5 where s5: "rx_mutex_lock (Some a) timer timeout s =
         do { s6 \<leftarrow> mutex_boost_owner (Some b) s5;
              (if timeout > 0 then rx_mutex_timeout (Some a) timer timeout (rx_exit_critical s6)
               else sched_then (mutex_lock_resume (Some a)) (rx_exit_critical s6)) }"
    "ready_queue s5 (remove1 c xs)" "mutex_inv s5 a (Some b) (ws @ [c])" "tasks s5 c = Some (mutex_sleeper a t)"
    "\<forall>x. x \<noteq> c \<longrightarrow> same_but_next (tasks s x) (tasks s5 x)" "curr_running_task s5 = Some c"
    "timers s5 = timers s" "active_timer_head s5 = active_timer_head s" "jiffies s5 = jiffies s"
    using lock_blocks [OF q i dj c to, of timer] .
  obtain n0 where o5: "tasks s5 b = Some (ot\<lparr>t_next := n0\<rparr>)" using s5(5) o(2,3) by force
  have bin: "b \<in> set (remove1 c xs)" using o ready_queue_distinct [OF q] by simp
  let ?u = "ot\<lparr>t_next := n0, t_prio := min (t_prio ot) (t_prio t)\<rparr>"
  let ?s51 = "s5\<lparr>tasks := (tasks s5)(b \<mapsto> ?u)\<rparr>"
  obtain s6 where s6: "mutex_boost_owner (Some b) s5 = Some s6" "relinked (set (remove1 c xs)) ?s51 s6"
    "ready_queue s6 (if t_prio t < t_prio ot then insert_prio (task_prio ?s51) b (remove1 b (remove1 c xs))
       else remove1 c xs)"
    using boost_owner_spec [OF s5(2) bin o5 _ s5(6,4)] o(4) by (auto simp: mutex_sleeper_def cong: if_cong)
  let ?s' = "rx_exit_critical s6"
  have pr5: "task_prio s5 x = task_prio s x" for x
  proof (cases "x = c")
    case False
    then show ?thesis using spec [OF s5(5), of x] by (cases "tasks s x") (auto simp: task_prio_def)
  qed (use s5(4) c(3) in \<open>simp add: task_prio_def mutex_sleeper_def\<close>)
  have "task_prio ?s51 x = ((task_prio s)(b := task_prio s c)) x" if "t_prio t < t_prio ot" for x
    using pr5 [of x] that c(3) by (simp add: task_prio_def)
  then have "insert_prio (task_prio ?s51) b (remove1 b (remove1 c xs)) =
      insert_prio ((task_prio s)(b := task_prio s c)) b (remove1 b (remove1 c xs))" if "t_prio t < t_prio ot"
    using that by (intro insert_prio_cong) blast
  then have "ready_queue ?s' (boosted_queue s c b xs)"
    using s6(3) c(3) o(3) by (auto simp: boosted_queue_def task_prio_def)
  moreover have "waiting (mutex_head a) ?s51 (ws @ [c])"
    using s5(3) mutex_q.waiting_upd_same [OF o5] by (auto simp: mutex_inv_def)
  then have "waiting (mutex_head a) s6 (ws @ [c])"
    by (rule mutex_q.waiting_relinked [OF _ s6(2)]) (use dj ready_queue_distinct [OF q] in auto)
  then have "mutex_inv ?s' a (Some b) (ws @ [c])"
    using s5(3) relinked_fields(2) [OF s6(2)] by (auto simp: mutex_inv_def)
  moreover have "tasks ?s' c = Some (mutex_sleeper a t)"
    using relinked_outside [OF s6(2), of c] s5(4) o(2) ready_queue_distinct [OF q] by simp
  moreover have "\<exists>n. tasks ?s' b = Some (ot\<lparr>t_prio := min (t_prio ot) (t_prio t), t_next := n\<rparr>)"
    using relinked_task [OF s6(2), of b ?u] by auto
  moreover have "same_but_next (tasks s x) (tasks ?s' x)" if "x \<noteq> c" "x \<noteq> b" for x
    using same_but_next_trans [of "tasks s x" "tasks s5 x"] s5(5) relinked_same [OF s6(2), of x] that by simp
  ultimately show ?thesis
    using s5(1,6-9) s6(1) relinked_fields(1,11,14,15) [OF s6(2)] by (intro exI [of _ ?s']) simp
qed

section \<open>Unlocking\<close>

definition mutex_heir :: "kstate \<Rightarrow> addr list \<Rightarrow> rx_task \<Rightarrow> rx_task" where
  "mutex_heir s ws t =
     t\<lparr>t_prio := foldl min (t_prio t) (map (task_prio s) ws), t_state := RX_TASK_READY, t_mutex := NULL\<rparr>"

lemma hand_over_spec:
  assumes q: "ready_queue s xs" and w: "waiting (mutex_head a) s (w # ws)"
    and dj: "set (w # ws) \<inter> set xs = {}" and m: "mutexes s a = Some m"
    and t: "tasks s w = Some t" "t_timer t = NULL"
  shows "\<exists>s' n. mutex_hand_over (Some a) w s = Some s' \<and> mutex_inv s' a (Some w) ws \<and>
              ready_queue s' (insert_prio (task_prio s') w xs) \<and>
              tasks s' w = Some ((mutex_heir s ws t)\<lparr>t_next := n\<rparr>) \<and>
              (\<forall>b. b \<noteq> w \<longrightarrow> same_but_next (tasks s b) (tasks s' b)) \<and>
              curr_running_task s' = curr_running_task s"
proof -
  have d: "w \<notin> set ws" using waiting_distinct [OF w] by simp
  have ln: "lst (task_next s) (t_next t) ws" using waiting_hd(2) [OF w] t by auto
  let ?mc = "m\<lparr>m_task := t_next t, m_owner := Some w\<rparr>"
  let ?sc = "s\<lparr>mutexes := (mutexes s)(a \<mapsto> ?mc)\<rparr>"
  let ?h = "mutex_heir s ws"
  have prc: "task_prio ?sc = task_prio s" by (rule ext) (simp add: task_prio_def)
  have inh: "inherit_prio (Some w) (t_next t) ?sc =
      Some (?sc\<lparr>tasks := (tasks s)(w \<mapsto> t\<lparr>t_prio := foldl min (t_prio t) (map (task_prio s) ws)\<rparr>)\<rparr>)"
    using inherit_prio_spec [of ?sc "t_next t" ws w t] ln d t prc by simp
  let ?mf = "?mc\<lparr>m_lock := RX_MUTEX_LOCKED\<rparr>"
  let ?s0 = "s\<lparr>mutexes := (mutexes s)(a \<mapsto> ?mf)\<rparr>"
  let ?sf = "?s0\<lparr>tasks := (tasks ?s0)(w \<mapsto> ?h t)\<rparr>"
  have w0: "waiting (mutex_head a) ?s0 ws" using ln by (simp add: waiting_def mutex_head_def)
  have q0: "ready_queue ?s0 xs" using q ready_queue_cong [of ?s0 s] by simp
  have t0: "tasks ?s0 w = Some t" using t by simp
  have dj': "set ws \<inter> set xs = {}" "w \<notin> set xs" using dj by auto
  obtain s' n where s': "rx_add_to_ready_q (Some w) ?sf = Some (OS_OK, s')"
    "ready_queue s' (insert_prio (task_prio ?sf) w xs)" "waiting (mutex_head a) s' ws"
    "tasks s' w = Some ((?h t)\<lparr>t_next := n\<rparr>)" "relinked (insert w (set xs)) ?sf s'"
    using mutex_q.ready_waiter [where g = ?h, OF w0 q0 dj'(1) d dj'(2) t0]
    by (auto simp: mutex_heir_def)
  have comm: "s\<lparr>tasks := x, mutexes := y\<rparr> = s\<lparr>mutexes := y, tasks := x\<rparr>" for x y by simp
  have "mutex_hand_over (Some a) w s = Some s'"
    using t m inh s'(1) by (simp add: mutex_hand_over_def mutex_heir_def comm)
  moreover have "mutex_inv s' a (Some w) ws"
    using s'(3) relinked_fields(2) [OF s'(5)] by (simp add: mutex_inv_def)
  moreover have "insert_prio (task_prio ?sf) w xs = insert_prio (task_prio s') w xs"
    by (rule insert_prio_cong) (simp add: relinked_prio [OF s'(5)])
  moreover have "same_but_next (tasks s b) (tasks s' b)" if "b \<noteq> w" for b
    using relinked_same [OF s'(5), of b] that by simp
  ultimately show ?thesis using s' relinked_fields(11) [OF s'(5)] by auto
qed

text \<open>The queue after the owner \<open>c\<close> is back at its own priority.\<close>

definition restored_queue :: "kstate \<Rightarrow> addr \<Rightarrow> rx_task \<Rightarrow> addr list \<Rightarrow> addr list" where
  "restored_queue s c t xs =
     (if t_prio t \<noteq> t_orig_prio t
      then insert_prio ((task_prio s)(c := t_orig_prio t)) c (remove1 c xs) else xs)"

lemma set_restored_queue: "c \<in> set xs \<Longrightarrow> distinct xs \<Longrightarrow> set (restored_queue s c t xs) = set xs"
  by (auto simp: restored_queue_def)

text \<open>The part of \<^verbatim>\<open>rx_mutex_unlock\<close> that undoes the inheritance.\<close>

lemma restore_prio_spec:
  assumes q: "ready_queue s xs" and c: "curr_running_task s = Some c" "c \<in> set xs" "tasks s c = Some t"
  shows "\<exists>s' n. (if t_prio t \<noteq> t_orig_prio t
               then do { sa \<leftarrow> upd_task (Some c) (\<lambda>u. u\<lparr>t_prio := t_orig_prio u\<rparr>) s;
                         (_, sb) \<leftarrow> rx_remove_from_ready_q (Some c) sa;
                         map_option snd (rx_add_to_ready_q (curr_running_task sb) sb) }
               else Some s) = Some s' \<and>
              ready_queue s' (restored_queue s c t xs) \<and>
              tasks s' c = Some (t\<lparr>t_prio := t_orig_prio t, t_next := n\<rparr>) \<and>
              relinked (set xs) (s\<lparr>tasks := (tasks s)(c \<mapsto> t\<lparr>t_prio := t_orig_prio t\<rparr>)\<rparr>) s'"
proof (cases "t_prio t = t_orig_prio t")
  case True
  have "t\<lparr>t_prio := t_prio t\<rparr> = t" by simp
  then have e: "t\<lparr>t_prio := t_orig_prio t\<rparr> = t" unfolding True .
  have e2: "s\<lparr>tasks := (tasks s)(c \<mapsto> t)\<rparr> = s" using c(3) by (simp add: fun_upd_idem)
  have r: "restored_queue s c t xs = xs" using True by (simp add: restored_queue_def)
  show ?thesis unfolding e e2 r
    by (rule exI [of _ s], rule exI [of _ "t_next t"]) (simp add: True q c(3))
next
  case False
  let ?s1 = "s\<lparr>tasks := (tasks s)(c \<mapsto> t\<lparr>t_prio := t_orig_prio t\<rparr>)\<rparr>"
  obtain s2 s3 where s3: "rx_remove_from_ready_q (Some c) ?s1 = Some (OS_OK, s2)"
    "rx_add_to_ready_q (Some c) s2 = Some (OS_OK, s3)"
    "ready_queue s3 (insert_prio (task_prio ?s1) c (remove1 c xs))" "relinked (set xs) ?s1 s3"
    "curr_running_task s2 = curr_running_task s"
    using requeue_spec [OF q c(2,3), of "t_orig_prio t"] by blast
  have "insert_prio (task_prio ?s1) c (remove1 c xs) = restored_queue s c t xs"
    using False by (simp add: restored_queue_def) (rule insert_prio_cong, simp add: task_prio_def)
  moreover obtain n where "tasks s3 c = Some (t\<lparr>t_prio := t_orig_prio t, t_next := n\<rparr>)"
    using relinked_task [OF s3(4), of c] by auto
  ultimately show ?thesis using False s3 c by (intro exI [of _ s3]) auto
qed

lemma mutex_unlock_step:
  assumes q: "ready_queue s xs" and i: "mutex_inv s a (Some c) ws" and dj: "set ws \<inter> set xs = {}"
    and c: "curr_running_task s = Some c" "c \<in> set xs" "tasks s c = Some t"
  shows "\<exists>s3 m n. rx_mutex_unlock (Some a) s =
             do { s4 \<leftarrow> (case m_task m of None \<Rightarrow> Some s3 | Some w \<Rightarrow> mutex_hand_over (Some a) w s3);
                  Some (OS_OK, rx_exit_critical s4) } \<and>
           ready_queue s3 (restored_queue s c t xs) \<and> waiting (mutex_head a) s3 ws \<and>
           mutexes s3 a = Some m \<and> m_lock m = RX_MUTEX_UNLOCKED \<and>
           tasks s3 c = Some (t\<lparr>t_prio := t_orig_prio t, t_next := n\<rparr>) \<and>
           (\<forall>b. b \<notin> set xs \<longrightarrow> tasks s3 b = tasks s b) \<and> curr_running_task s3 = Some c \<and>
           (\<forall>b. b \<noteq> c \<longrightarrow> same_but_next (tasks s b) (tasks s3 b))"
proof -
  obtain m where m: "mutexes s a = Some m" "waiting (mutex_head a) s ws" "m_lock m = RX_MUTEX_LOCKED"
    "m_owner m = Some c" using i by (auto simp: mutex_inv_def)
  let ?s1 = "rx_enter_critical s"
  let ?m2 = "m\<lparr>m_lock := RX_MUTEX_UNLOCKED\<rparr>"
  let ?s2 = "?s1\<lparr>mutexes := (mutexes s)(a \<mapsto> ?m2)\<rparr>"
  have q2: "ready_queue ?s2 xs" using q ready_queue_cong [of ?s2 ?s1] by simp
  have c2: "curr_running_task ?s2 = Some c" "tasks ?s2 c = Some t" using c by simp_all
  have w2: "waiting (mutex_head a) ?s2 ws" using m(2) waiting_mutex_upd [of ?s1 a m ?m2] m(1) by simp
  let ?s2' = "?s2\<lparr>tasks := (tasks ?s2)(c \<mapsto> t\<lparr>t_prio := t_orig_prio t\<rparr>)\<rparr>"
  obtain s3 n where s3: "(if t_prio t \<noteq> t_orig_prio t
               then do { sa \<leftarrow> upd_task (Some c) (\<lambda>u. u\<lparr>t_prio := t_orig_prio u\<rparr>) ?s2;
                         (_, sb) \<leftarrow> rx_remove_from_ready_q (Some c) sa;
                         map_option snd (rx_add_to_ready_q (curr_running_task sb) sb) }
               else Some ?s2) = Some s3"
    "ready_queue s3 (restored_queue ?s2 c t xs)"
    "tasks s3 c = Some (t\<lparr>t_prio := t_orig_prio t, t_next := n\<rparr>)" "relinked (set xs) ?s2' s3"
    using restore_prio_spec [OF q2 c2(1) c(2) c2(2)] by blast
  have "task_prio ?s2 = task_prio s" by (rule ext) (simp add: task_prio_def)
  then have rq: "restored_queue ?s2 c t xs = restored_queue s c t xs" by (simp add: restored_queue_def)
  have m3: "mutexes s3 a = Some ?m2" using relinked_fields(2) [OF s3(4)] by simp
  have w3: "waiting (mutex_head a) s3 ws"
    by (rule mutex_q.waiting_relinked [OF _ s3(4) dj])
      (use w2 mutex_q.waiting_upd_same [OF c2(2)] in simp)
  have "rx_mutex_unlock (Some a) s =
             do { s4 \<leftarrow> (case m_task ?m2 of None \<Rightarrow> Some s3 | Some w \<Rightarrow> mutex_hand_over (Some a) w s3);
                  Some (OS_OK, rx_exit_critical s4) }"
    using m c2 c(1) m3 s3(1) by (simp add: rx_mutex_unlock_def cong: if_cong)
  moreover have "tasks s3 b = tasks s b" if "b \<notin> set xs" for b
    using relinked_outside [OF s3(4) that] that c(2) by auto
  moreover have "curr_running_task s3 = Some c" using relinked_fields(11) [OF s3(4)] c(1) by simp
  moreover have "same_but_next (tasks s b) (tasks s3 b)" if "b \<noteq> c" for b
    using relinked_same [OF s3(4), of b] that by simp
  ultimately show ?thesis using s3 rq m3 w3 by (intro exI [of _ s3] exI [of _ ?m2] exI [of _ n]) simp
qed

lemma mutex_inv_sched:
  assumes "mutex_inv s a p ws" and "tasks s h = Some u"
  shows "mutex_inv (s\<lparr>tasks := (tasks s)(h \<mapsto> dispatched u), curr_running_task := r,
           need_resched := b, critical := c\<rparr>) a p ws"
  using assms mutex_q.waiting_sched by (auto simp: mutex_inv_def)

lemma lock_switches:
  assumes q: "ready_queue s (h # ys)" and i: "mutex_inv s a p ws"
    and c: "curr_running_task s = Some c" "c \<notin> set (h # ys)" "tasks s c = Some t"
  shows "\<exists>s' u. sched_then k s = Some (Sleeps, s') \<and> curr_running_task s' = Some h \<and>
            ready_queue s' (h # ys) \<and> mutex_inv s' a p ws \<and> tasks s h = Some u \<and>
            tasks s' = (tasks s)(h \<mapsto> dispatched u)"
proof -
  have "c \<noteq> h" using c by auto
  then show ?thesis using sched_away [OF q c(1), of k] c mutex_inv_sched [OF i] by auto
qed

lemma relock_spec:
  assumes q: "ready_queue s xs" and i: "mutex_inv s a (Some c) ws" and dj: "set xs \<inter> set ws = {}"
    and c: "curr_running_task s = Some c" "c \<in> set xs" "tasks s c = Some t"
    and to: "timeout < 0"
  shows "\<exists>s'. rx_mutex_lock (Some a) timer timeout s = sched_then (mutex_lock_resume (Some a)) s' \<and>
              ready_queue s' (remove1 c xs) \<and> mutex_inv s' a (Some c) (ws @ [c]) \<and>
              curr_running_task s' = Some c \<and> tasks s' c = Some (mutex_sleeper a t)"
proof -
  have to': "timeout \<noteq> OS_NO_WAIT" using to by (simp add: OS_NO_WAIT_def)
  obtain s5 where s5: "rx_mutex_lock (Some a) timer timeout s =
         do { s6 \<leftarrow> mutex_boost_owner (Some c) s5;
              (if timeout > 0 then rx_mutex_timeout (Some a) timer timeout (rx_exit_critical s6)
               else sched_then (mutex_lock_resume (Some a)) (rx_exit_critical s6)) }"
    "ready_queue s5 (remove1 c xs)" "mutex_inv s5 a (Some c) (ws @ [c])" "tasks s5 c = Some (mutex_sleeper a t)"
    "\<forall>x. x \<noteq> c \<longrightarrow> same_but_next (tasks s x) (tasks s5 x)" "curr_running_task s5 = Some c"
    "timers s5 = timers s" "active_timer_head s5 = active_timer_head s" "jiffies s5 = jiffies s"
    using lock_blocks [OF q i dj c to', of timer] .
  then have "mutex_boost_owner (Some c) s5 = Some s5" by (simp add: mutex_boost_owner_def)
  with s5 to show ?thesis by (intro exI [of _ "rx_exit_critical s5"]) (simp add: mutex_inv_def)
qed

section \<open>Properties\<close>

text \<open>
  A concrete state for the examples: task 1 (priority 2) runs, task 3 (priority 7) owns mutex
  300, on which nobody waits; mutex 301 is owned by task 1, and 5 waits for it; mutex 302 is free.
\<close>

definition demo_mutex :: kstate where
  "demo_mutex = demo_ready\<lparr>
     tasks := (tasks demo_ready)(5 \<mapsto> (demo_task RX_TASK_SUSPEND 5 NULL)\<lparr>t_mutex := Some 301\<rparr>),
     mutexes := [300 \<mapsto> \<lparr>m_lock = RX_MUTEX_LOCKED, m_owner = Some 3, m_task = NULL, m_next = NULL\<rparr>,
                 301 \<mapsto> \<lparr>m_lock = RX_MUTEX_LOCKED, m_owner = Some 1, m_task = Some 5, m_next = NULL\<rparr>,
                 302 \<mapsto> \<lparr>m_lock = RX_MUTEX_UNLOCKED, m_owner = NULL, m_task = NULL, m_next = NULL\<rparr>]\<rparr>"

lemma demo_mutex_simps [simp]:
  "tasks demo_mutex = (tasks demo_ready)(5 \<mapsto> (demo_task RX_TASK_SUSPEND 5 NULL)\<lparr>t_mutex := Some 301\<rparr>)"
  "mutexes demo_mutex = [300 \<mapsto> \<lparr>m_lock = RX_MUTEX_LOCKED, m_owner = Some 3, m_task = NULL, m_next = NULL\<rparr>,
                 301 \<mapsto> \<lparr>m_lock = RX_MUTEX_LOCKED, m_owner = Some 1, m_task = Some 5, m_next = NULL\<rparr>,
                 302 \<mapsto> \<lparr>m_lock = RX_MUTEX_UNLOCKED, m_owner = NULL, m_task = NULL, m_next = NULL\<rparr>]"
  "curr_running_task demo_mutex = Some 1" "task_ready_head demo_mutex = Some 1"
  by (simp_all add: demo_mutex_def)

lemma demo_mutex_ready: "ready_queue demo_mutex [1, 2, 3]"
  by (simp add: ready_queue_def runnable_def task_prio_def task_next_def)

lemma demo_mutex_invs:
  "mutex_inv demo_mutex 300 (Some 3) []" "mutex_inv demo_mutex 301 (Some 1) [5]"
  "mutex_inv demo_mutex 302 NULL []"
  by (simp_all add: mutex_inv_def waiting_def mutex_head_def task_next_def)

text \<open>
  Locking a free mutex succeeds at once and makes the caller its owner; on a locked
  mutex OS_NO_WAIT returns E_OS_UNAVAIL. Nothing else changes.
\<close>

theorem mutex_lock_immediate:
  assumes "mutex_inv s a p ws" and "curr_running_task s = Some c"
  shows "\<exists>s'. tasks s' = tasks s \<and> curr_running_task s' = Some c \<and>
           (if p = NULL
            then rx_mutex_lock (Some a) timer timeout s = Some (Returns OS_OK, s') \<and>
                 mutex_inv s' a (Some c) []
            else rx_mutex_lock (Some a) timer OS_NO_WAIT s = Some (Returns E_OS_UNAVAIL, s') \<and>
                 mutex_inv s' a p ws)"
proof -
  obtain m where m: "mutexes s a = Some m" "waiting (mutex_head a) s ws"
    "if p = NULL then m_lock m = RX_MUTEX_UNLOCKED \<and> ws = [] else m_lock m = RX_MUTEX_LOCKED \<and> m_owner m = p"
    using assms(1) by (auto simp: mutex_inv_def)
  show ?thesis
  proof (cases "p = NULL")
    case True
    let ?m' = "m\<lparr>m_lock := RX_MUTEX_LOCKED, m_owner := Some c\<rparr>"
    let ?s2 = "(rx_enter_critical s)\<lparr>mutexes := (mutexes s)(a \<mapsto> ?m')\<rparr>"
    have "waiting (mutex_head a) ?s2 []"
      using m waiting_mutex_upd [of "rx_enter_critical s" a m ?m' "[]"] True by simp
    then show ?thesis
      using True m assms(2)
      by (intro exI [of _ "rx_exit_critical ?s2"]) (simp add: rx_mutex_lock_def mutex_inv_def)
  next
    case False
    then show ?thesis
      using m assms(2)
      by (intro exI [of _ "rx_exit_critical (rx_enter_critical s)"])
        (simp add: rx_mutex_lock_def mutex_inv_def)
  qed
qed

theorem mutex_lock_immediate_witness:
  "(\<exists>s'. rx_mutex_lock (Some 302) NULL 0 demo_mutex = Some (Returns OS_OK, s') \<and>
         mutex_inv s' 302 (Some 1) []) \<and>
   (\<exists>s'. rx_mutex_lock (Some 300) NULL OS_NO_WAIT demo_mutex = Some (Returns E_OS_UNAVAIL, s'))"
  using mutex_lock_immediate [OF demo_mutex_invs(3), of 1 NULL 0]
    mutex_lock_immediate [OF demo_mutex_invs(1), of 1 NULL 0] by auto

text \<open>
  C6. Locking a mutex that a ready task \<open>b\<close> owns: the caller becomes the last waiter
  and sleeps; if it is more urgent than the owner, the owner inherits its priority and is
  moved up in the ready queue accordingly (so that the priority inversion is bounded), and the
  head of the new queue runs.
\<close>

theorem mutex_lock_inherits:
  assumes "ready_queue s xs" and "mutex_inv s a (Some b) ws" and "set xs \<inter> set ws = {}"
    and "curr_running_task s = Some c" and "c \<in> set xs" and "tasks s c = Some t"
    and "b \<in> set xs" and "b \<noteq> c" and "tasks s b = Some ot" and "t_state ot = RX_TASK_READY"
    and "boosted_queue s c b xs = h # ys"
  shows "\<exists>s' u. rx_mutex_lock (Some a) timer OS_WAIT_FOREVER s = Some (Sleeps, s') \<and>
            curr_running_task s' = Some h \<and> ready_queue s' (h # ys) \<and>
            mutex_inv s' a (Some b) (ws @ [c]) \<and> tasks s' c = Some (mutex_sleeper a t) \<and>
            tasks s' b = Some u \<and> t_prio u = min (t_prio ot) (t_prio t) \<and>
            t_orig_prio u = t_orig_prio ot"
proof -
  have to: "OS_WAIT_FOREVER \<noteq> OS_NO_WAIT" "\<not> OS_WAIT_FOREVER > 0"
    by (simp_all add: OS_WAIT_FOREVER_def OS_NO_WAIT_def)
  obtain s1 n where s1:
    "rx_mutex_lock (Some a) timer OS_WAIT_FOREVER s = sched_then (mutex_lock_resume (Some a)) s1"
    "ready_queue s1 (h # ys)" "mutex_inv s1 a (Some b) (ws @ [c])" "curr_running_task s1 = Some c"
    "tasks s1 c = Some (mutex_sleeper a t)"
    "tasks s1 b = Some (ot\<lparr>t_prio := min (t_prio ot) (t_prio t), t_next := n\<rparr>)"
    using mutex_lock_enqueues [OF assms(1-10) to(1), of timer] assms(11) to(2) by auto
  have "distinct xs" by (rule ready_queue_distinct [OF assms(1)])
  then have "c \<notin> set (boosted_queue s c b xs)" using assms(8) by (auto simp: boosted_queue_def)
  then have cn: "c \<notin> set (h # ys)" using assms(11) by simp
  obtain s' u where s': "sched_then (mutex_lock_resume (Some a)) s1 = Some (Sleeps, s')"
    "curr_running_task s' = Some h" "ready_queue s' (h # ys)" "mutex_inv s' a (Some b) (ws @ [c])"
    "tasks s1 h = Some u" "tasks s' = (tasks s1)(h \<mapsto> dispatched u)"
    using lock_switches [OF s1(2,3,4) cn s1(5)] by blast
  have "t_orig_prio (dispatched u) = t_orig_prio u" by (simp add: dispatched_def)
  then have "\<exists>v. tasks s' b = Some v \<and> t_prio v = min (t_prio ot) (t_prio t) \<and>
      t_orig_prio v = t_orig_prio ot"
    using s1(6) s'(5,6) by (cases "b = h") auto
  moreover have "tasks s' c = Some (mutex_sleeper a t)" using s1(5) s'(6) cn by auto
  ultimately show ?thesis using s1(1) s' by auto
qed

theorem mutex_lock_inherits_witness:
  "\<exists>s' u. rx_mutex_lock (Some 300) NULL OS_WAIT_FOREVER demo_mutex = Some (Sleeps, s') \<and>
     curr_running_task s' = Some 3 \<and> ready_queue s' [3, 2] \<and> tasks s' 3 = Some u \<and> t_prio u = 2"
proof -
  have "boosted_queue demo_mutex 1 3 [1, 2, 3] = 3 # [2]"
    by (simp add: boosted_queue_def task_prio_def)
  then show ?thesis
    using mutex_lock_inherits [OF demo_mutex_ready demo_mutex_invs(1), of 1 _ "demo_task RX_TASK_READY 7 NULL" 3 "[2]" NULL]
    by auto
qed



text \<open>
  Only the owner can unlock: a call by any other task returns OS_ERR and changes
  nothing but the interrupt mask. By the owner, with nobody waiting, the mutex becomes free.
\<close>

theorem mutex_unlock_owner_only:
  assumes "mutex_inv s a (Some b) ws" and "curr_running_task s = Some c"
    and "ready_queue s xs" and "set ws \<inter> set xs = {}" and "c \<in> set xs" and "tasks s c = Some t"
  shows "(b \<noteq> c \<longrightarrow> rx_mutex_unlock (Some a) s = Some (OS_ERR, s\<lparr>critical := critical s \<and> in_irq s\<rparr>)) \<and>
         (b = c \<and> ws = [] \<longrightarrow>
           (\<exists>s'. rx_mutex_unlock (Some a) s = Some (OS_OK, s') \<and> mutex_inv s' a NULL [] \<and>
                 ready_queue s' (restored_queue s c t xs)))"
proof (intro conjI impI)
  assume "b \<noteq> c"
  then show "rx_mutex_unlock (Some a) s = Some (OS_ERR, s\<lparr>critical := critical s \<and> in_irq s\<rparr>)"
    using assms(1,2) by (auto simp: mutex_inv_def rx_mutex_unlock_def critical_eqs)
next
  assume bc: "b = c \<and> ws = []"
  then have i: "mutex_inv s a (Some c) []" using assms(1) by simp
  obtain s3 m where s3: "rx_mutex_unlock (Some a) s =
             do { s4 \<leftarrow> (case m_task m of None \<Rightarrow> Some s3 | Some w \<Rightarrow> mutex_hand_over (Some a) w s3);
                  Some (OS_OK, rx_exit_critical s4) }"
    "ready_queue s3 (restored_queue s c t xs)" "waiting (mutex_head a) s3 []"
    "mutexes s3 a = Some m" "m_lock m = RX_MUTEX_UNLOCKED"
    using mutex_unlock_step [OF assms(3) i _ assms(2,5,6)] by auto
  then have "m_task m = NULL" by (simp add: waiting_def mutex_head_def)
  then show "\<exists>s'. rx_mutex_unlock (Some a) s = Some (OS_OK, s') \<and> mutex_inv s' a NULL [] \<and>
                 ready_queue s' (restored_queue s c t xs)"
    using s3 by (intro exI [of _ "rx_exit_critical s3"]) (simp add: mutex_inv_def)
qed

theorem mutex_unlock_owner_only_witness:
  "\<exists>s'. rx_mutex_unlock (Some 300) demo_mutex = Some (OS_ERR, s')"
  using mutex_unlock_owner_only [OF demo_mutex_invs(1), of 1 "[1, 2, 3]"] demo_mutex_ready by simp

text \<open>
  The mutex is not recursive, and locking it twice without a timeout is a deadlock: the
  owner becomes a waiter of its own mutex and leaves the ready queue; no other task can
  unlock it, because only the owner may.
\<close>

theorem mutex_relock_deadlock:
  assumes "ready_queue s xs" and "mutex_inv s a (Some c) ws" and "set xs \<inter> set ws = {}"
    and "curr_running_task s = Some c" and "c \<in> set xs" and "tasks s c = Some t"
    and "remove1 c xs = h # ys"
  shows "\<exists>s'. rx_mutex_lock (Some a) timer OS_WAIT_FOREVER s = Some (Sleeps, s') \<and>
            mutex_inv s' a (Some c) (ws @ [c]) \<and> ready_queue s' (h # ys) \<and> c \<notin> set (h # ys) \<and>
            curr_running_task s' = Some h \<and>
            rx_mutex_unlock (Some a) s' = Some (OS_ERR, s'\<lparr>critical := critical s' \<and> in_irq s'\<rparr>)"
proof -
  have to: "OS_WAIT_FOREVER < 0" by (simp add: OS_WAIT_FOREVER_def)
  obtain s1 where s1:
    "rx_mutex_lock (Some a) timer OS_WAIT_FOREVER s = sched_then (mutex_lock_resume (Some a)) s1"
    "ready_queue s1 (h # ys)" "mutex_inv s1 a (Some c) (ws @ [c])" "curr_running_task s1 = Some c"
    "tasks s1 c = Some (mutex_sleeper a t)"
    using relock_spec [OF assms(1-6) to, of timer] assms(7) by auto
  have "c \<notin> set (remove1 c xs)" using ready_queue_distinct [OF assms(1)] by simp
  then have cn: "c \<notin> set (h # ys)" using assms(7) by simp
  obtain s' where s': "sched_then (mutex_lock_resume (Some a)) s1 = Some (Sleeps, s')"
    "curr_running_task s' = Some h" "ready_queue s' (h # ys)" "mutex_inv s' a (Some c) (ws @ [c])"
    using lock_switches [OF s1(2,3,4) cn s1(5)] by blast
  moreover have "rx_mutex_unlock (Some a) s' = Some (OS_ERR, s'\<lparr>critical := critical s' \<and> in_irq s'\<rparr>)"
    using s'(2,4) cn by (auto simp: mutex_inv_def rx_mutex_unlock_def critical_eqs)
  ultimately show ?thesis using s1(1) cn by auto
qed

theorem mutex_relock_deadlock_witness:
  "\<exists>s'. rx_mutex_lock (Some 301) NULL OS_WAIT_FOREVER demo_mutex = Some (Sleeps, s') \<and>
        mutex_inv s' 301 (Some 1) [5, 1] \<and> ready_queue s' [2, 3]"
  using mutex_relock_deadlock [OF demo_mutex_ready demo_mutex_invs(2), of
      "demo_task RX_TASK_RUNNING 2 (Some 2)" 2 "[3]" NULL] by auto

text \<open>
  \<^verbatim>\<open>rx_delete_mutex\<close> clears the owner but leaves the mutex locked: with no waiters
  left, a later attempt to lock it fails with OS_NO_WAIT and dereferences the NULL owner
  otherwise.
\<close>

theorem mutex_delete_leaves_locked:
  assumes "mutex_inv s a (Some b) []" and "curr_running_task s = Some c"
  shows "\<exists>s' m. rx_delete_mutex (Some a) s = Some s' \<and> mutexes s' a = Some m \<and>
            m_lock m = RX_MUTEX_LOCKED \<and> m_owner m = NULL \<and>
            (\<exists>s''. rx_mutex_lock (Some a) timer OS_NO_WAIT s' = Some (Returns E_OS_UNAVAIL, s'')) \<and>
            rx_mutex_lock (Some a) timer OS_WAIT_FOREVER s' = None"
proof -
  obtain m where m: "mutexes s a = Some m" "m_lock m = RX_MUTEX_LOCKED" "m_task m = NULL"
    using assms(1) by (auto simp: mutex_inv_def waiting_def mutex_head_def)
  have "wake_all (mutex_head a) (set_mutex_head a) mutex_release (rx_enter_critical s) =
      Some (rx_enter_critical s)"
    using m by (subst wake_all.simps) (simp add: mutex_head_def)
  then have del: "rx_delete_mutex (Some a) s =
      Some (s\<lparr>mutexes := (mutexes s)(a \<mapsto> m\<lparr>m_owner := NULL\<rparr>), critical := critical s \<and> in_irq s\<rparr>)"
    (is "_ = Some ?s'") using m by (simp add: rx_delete_mutex_def critical_eqs)
  have "rx_mutex_lock (Some a) timer OS_WAIT_FOREVER ?s' = None"
    using m assms(2)
    by (auto simp: rx_mutex_lock_def OS_WAIT_FOREVER_def OS_NO_WAIT_def mutex_boost_owner_def
        split: Option.bind_splits)
  moreover have "\<exists>s''. rx_mutex_lock (Some a) timer OS_NO_WAIT ?s' = Some (Returns E_OS_UNAVAIL, s'')"
    using m by (simp add: rx_mutex_lock_def)
  ultimately show ?thesis using del m by (intro exI [of _ ?s'] exI [of _ "m\<lparr>m_owner := NULL\<rparr>"]) simp
qed

theorem mutex_delete_leaves_locked_witness:
  "\<exists>s' m. rx_delete_mutex (Some 300) demo_mutex = Some s' \<and> mutexes s' 300 = Some m \<and>
     m_lock m = RX_MUTEX_LOCKED \<and> rx_mutex_lock (Some 300) NULL OS_WAIT_FOREVER s' = None"
  using mutex_delete_leaves_locked [OF demo_mutex_invs(1), of 1 NULL] by auto

end
