(* ===== verification/RX_Wait.thy ===== *)
theory RX_Wait
  imports RX_Waiters
begin

text \<open>
  Wait queues (\<^verbatim>\<open>kernel/rx_wait.c\<close>, \<^verbatim>\<open>kernel/include/rx_wait.h\<close>). A wait queue
  holds sleeping tasks; the queues in use are chained in a system list
  (\<^verbatim>\<open>__rx_sys_wait_list\<close>) that the event thread walks to wake interruptible and timed-out
  tasks.
\<close>

section \<open>Operations\<close>

definition wq_head :: "addr \<Rightarrow> kstate \<Rightarrow> ptr option" where
  "wq_head a s = map_option w_task (wqueues s a)"

definition set_wq_head :: "addr \<Rightarrow> ptr \<Rightarrow> kstate \<Rightarrow> kstate option" where
  "set_wq_head a p s = upd_wq (Some a) (\<lambda>x. x\<lparr>w_task := p\<rparr>) s"

definition rx_finish_wait :: "kstate \<Rightarrow> (int \<times> kstate) option" where
  "rx_finish_wait s =
     do { let s1 = rx_enter_critical s;
          let me = curr_running_task s1;
          t \<leftarrow> deref (tasks s1) me;
          s2 \<leftarrow> (if t_timer t \<noteq> NULL
                 then do { sa \<leftarrow> rx_remove_from_timer_list (t_timer t) s1;
                           upd_task me (\<lambda>u. u\<lparr>t_timer := NULL\<rparr>) sa }
                 else Some s1);
          let ret = (if t_timeout t = E_OS_TIMEOUT then E_OS_TIMEOUT else 0);
          s3 \<leftarrow> upd_task me (\<lambda>u. u\<lparr>t_timeout := RX_TIMER_OFF, t_wq := NULL\<rparr>) s2;
          Some (ret, rx_exit_critical s3) }"

text \<open>\<^verbatim>\<open>__rx_wait_timeout\<close>; its panic only prints.\<close>

definition rx_wait_timeout :: "ptr \<Rightarrow> kstate \<Rightarrow> kstate option" where
  "rx_wait_timeout timer s =
     do { me \<leftarrow> deref (tasks s) (curr_running_task s);
          (_, s1) \<leftarrow> rx_create_timer timer (Some Wait_Handler) (curr_running_task s)
                       (word_of_int (t_timeout me)) s;
          s2 \<leftarrow> upd_task (curr_running_task s1) (\<lambda>t. t\<lparr>t_timer := timer\<rparr>) s1;
          s3 \<leftarrow> rx_start_timer timer s2;
          upd_task (curr_running_task s3) (\<lambda>t. t\<lparr>t_timeout := RX_TIMER_ON\<rparr>) s3 }"

definition rx_wait_handler :: "ptr \<Rightarrow> kstate \<Rightarrow> kstate option" where
  "rx_wait_handler p s = upd_task p (\<lambda>t. t\<lparr>t_timeout := E_OS_TIMEOUT, t_timer := NULL\<rparr>) s"

text \<open>The walk along the system list: stop at the queue itself or at the last queue.\<close>

partial_function (option) sys_list_find :: "ptr \<Rightarrow> addr \<Rightarrow> kstate \<Rightarrow> addr option" where
  "sys_list_find wq ride s =
     do { w \<leftarrow> wqueues s ride;
          (case w_next w of
             None \<Rightarrow> Some ride
           | Some n \<Rightarrow> if Some ride = wq then Some ride else sys_list_find wq n s) }"

definition sys_list_add :: "ptr \<Rightarrow> kstate \<Rightarrow> kstate option" where
  "sys_list_add wq s =
     (case sys_wait_list s of
        None \<Rightarrow> Some (s\<lparr>sys_wait_list := wq\<rparr>)
      | Some h \<Rightarrow>
          do { ride \<leftarrow> sys_list_find wq h s;
               (if Some ride = wq then Some s
                else do { s1 \<leftarrow> set_wq_next (Some ride) wq s;
                          upd_wq wq (\<lambda>w. w\<lparr>w_prev := Some ride\<rparr>) s1 }) })"

definition rx_add_to_wait_queue ::
    "ptr \<Rightarrow> task_state \<Rightarrow> int \<Rightarrow> ptr \<Rightarrow> kstate \<Rightarrow> (int \<times> kstate) option" where
  "rx_add_to_wait_queue wq st timeout timer s =
     do { a \<leftarrow> wq;
          let s1 = rx_enter_critical s;
          s2 \<leftarrow> upd_task (curr_running_task s1) (\<lambda>t. t\<lparr>t_state := st, t_wq := wq\<rparr>) s1;
          (_, s3) \<leftarrow> rx_remove_from_ready_q (curr_running_task s2) s2;
          s4 \<leftarrow> set_task_next (curr_running_task s3) NULL s3;
          s5 \<leftarrow> enqueue_task (wq_head a) (set_wq_head a) (curr_running_task s4) s4;
          s6 \<leftarrow> sys_list_add wq s5;
          me \<leftarrow> deref (tasks s6) (curr_running_task s6);
          s7 \<leftarrow> (if timeout > 0 \<and> t_timeout me = RX_TIMER_OFF
                 then do { sa \<leftarrow> upd_task (curr_running_task s6) (\<lambda>t. t\<lparr>t_timeout := timeout\<rparr>) s6;
                           rx_wait_timeout timer sa }
                 else Some s6);
          Some (0, rx_exit_critical s7) }"

text \<open>The first loop of \<^verbatim>\<open>rx_wakeup\<close>.\<close>

partial_function (option) wake_tasks :: "ptr \<Rightarrow> kstate \<Rightarrow> kstate option" where
  "wake_tasks t s =
     (case t of
        None \<Rightarrow> Some s
      | Some ready \<Rightarrow>
          do { s1 \<leftarrow> upd_task t (\<lambda>u. u\<lparr>t_state := RX_TASK_READY\<rparr>) s;
               u \<leftarrow> tasks s1 ready;
               (_, s2) \<leftarrow> rx_add_to_ready_q t s1;
               wake_tasks (t_next u) s2 })"

text \<open>The second part: taking the queue out of the system list.\<close>

definition sys_list_remove :: "addr \<Rightarrow> kstate \<Rightarrow> kstate option" where
  "sys_list_remove a s =
     do { w \<leftarrow> wqueues s a;
          (if Some a = sys_wait_list s
           then (case w_next w of
                   None \<Rightarrow> Some (s\<lparr>sys_wait_list := NULL\<rparr>)
                 | Some n \<Rightarrow> upd_wq (Some n) (\<lambda>x. x\<lparr>w_prev := NULL\<rparr>) (s\<lparr>sys_wait_list := Some n\<rparr>))
           else do { s1 \<leftarrow> upd_wq (w_prev w) (\<lambda>x. x\<lparr>w_next := w_next w\<rparr>) s;
                     w1 \<leftarrow> wqueues s1 a;
                     s2 \<leftarrow> upd_wq (w_next w1) (\<lambda>x. x\<lparr>w_prev := w_prev w1\<rparr>) s1;
                     upd_wq (Some a) (\<lambda>x. x\<lparr>w_prev := NULL, w_next := NULL\<rparr>) s2 }) }"

definition rx_wakeup :: "ptr \<Rightarrow> kstate \<Rightarrow> (int \<times> kstate) option" where
  "rx_wakeup wq s =
     do { let s1 = rx_enter_critical s;
          a \<leftarrow> wq;
          w \<leftarrow> wqueues s1 a;
          s2 \<leftarrow> wake_tasks (w_task w) s1;
          s3 \<leftarrow> upd_wq wq (\<lambda>x. x\<lparr>w_task := NULL\<rparr>) s2;
          s4 \<leftarrow> sys_list_remove a s3;
          Some (0, rx_exit_critical s4) }"

text \<open>
  \<^verbatim>\<open>rx_wake_task_in_the_queue\<close>: wake the tasks of one queue that may be woken by any
  event, with the two pointers \<open>tn\<close> and \<open>tp\<close> of the source.
\<close>

definition wakeable :: "rx_task \<Rightarrow> bool" where
  "wakeable t \<longleftrightarrow> t_state t = RX_TASK_INTERRUPTIBLE \<or> t_timeout t = E_OS_TIMEOUT"

partial_function (option) wake_in_queue :: "addr \<Rightarrow> ptr \<Rightarrow> ptr \<Rightarrow> kstate \<Rightarrow> kstate option" where
  "wake_in_queue a tn tp s =
     (case tn of
        None \<Rightarrow> Some s
      | Some n \<Rightarrow>
          do { t \<leftarrow> tasks s n;
               (if wakeable t then
                  do { s1 \<leftarrow> upd_task tn (\<lambda>u. u\<lparr>t_state := RX_TASK_READY\<rparr>) s;
                       w \<leftarrow> wqueues s1 a;
                       (if tn = w_task w
                        then do { s2 \<leftarrow> set_wq_head a (t_next t) s1;
                                  (_, s3) \<leftarrow> rx_add_to_ready_q tn s2;
                                  wake_in_queue a (t_next t) (t_next t) s3 }
                        else do { s2 \<leftarrow> set_task_next tp (t_next t) s1;
                                  (_, s3) \<leftarrow> rx_add_to_ready_q tn s2;
                                  wake_in_queue a (t_next t) tp s3 }) }
                else wake_in_queue a (t_next t) tn s) })"

definition wake_task_in_the_queue :: "addr \<Rightarrow> kstate \<Rightarrow> kstate option" where
  "wake_task_in_the_queue a s =
     do { w \<leftarrow> wqueues s a; wake_in_queue a (w_task w) (w_task w) s }"

text \<open>The loop of \<^verbatim>\<open>__rx_wake\<close> over the system list.\<close>

partial_function (option) wake_queues :: "ptr \<Rightarrow> kstate \<Rightarrow> kstate option" where
  "wake_queues ride s =
     (case ride of
        None \<Rightarrow> Some s
      | Some a \<Rightarrow>
          do { s1 \<leftarrow> wake_task_in_the_queue a s;
               w \<leftarrow> wqueues s1 a;
               s2 \<leftarrow> (if w_task w \<noteq> NULL then Some s1
                      else if ride = sys_wait_list s
                      then do { sa \<leftarrow> upd_wq ride (\<lambda>x. x\<lparr>w_prev := NULL, w_next := NULL\<rparr>)
                                       (s1\<lparr>sys_wait_list := w_next w\<rparr>);
                                (case w_next w of
                                   None \<Rightarrow> Some sa
                                 | Some n \<Rightarrow> upd_wq (Some n) (\<lambda>x. x\<lparr>w_prev := NULL\<rparr>) sa) }
                      else do { sa \<leftarrow> upd_wq (w_prev w) (\<lambda>x. x\<lparr>w_next := w_next w\<rparr>) s1;
                                sb \<leftarrow> upd_wq (w_next w) (\<lambda>x. x\<lparr>w_prev := w_prev w\<rparr>) sa;
                                upd_wq ride (\<lambda>x. x\<lparr>w_prev := NULL, w_next := NULL\<rparr>) sb });
               w2 \<leftarrow> wqueues s2 a;
               wake_queues (w_next w2) s2 })"

definition rx_wake :: "kstate \<Rightarrow> kstate option" where
  "rx_wake s = wake_queues (sys_wait_list s) s"

text \<open>
  The macros of \<^verbatim>\<open>rx_wait.h\<close>. The condition of \<^verbatim>\<open>rx_wait_queue\<close> is an expression of
  the application, a parameter here. \<^verbatim>\<open>finish\<close> is the code behind the switch.
\<close>

definition wait_finish :: "kstate \<Rightarrow> (int call \<times> kstate) option" where
  "wait_finish s = do { (r, s1) \<leftarrow> rx_finish_wait s; Some (Returns r, s1) }"

definition rx_wait_on :: "ptr \<Rightarrow> kstate \<Rightarrow> (int call \<times> kstate) option" where
  "rx_wait_on wq s =
     do { (_, s1) \<leftarrow> rx_add_to_wait_queue wq RX_TASK_UNINTERRUPTIBLE 0 NULL s;
          sched_then wait_finish s1 }"

definition rx_wait_on_timeout :: "ptr \<Rightarrow> int \<Rightarrow> ptr \<Rightarrow> kstate \<Rightarrow> (int call \<times> kstate) option" where
  "rx_wait_on_timeout wq timeout timer s =
     do { (_, s1) \<leftarrow> rx_add_to_wait_queue wq RX_TASK_UNINTERRUPTIBLE timeout timer s;
          sched_then wait_finish s1 }"

partial_function (option) wait_queue_loop ::
    "ptr \<Rightarrow> (kstate \<Rightarrow> bool) \<Rightarrow> kstate \<Rightarrow> (int call \<times> kstate) option" where
  "wait_queue_loop wq cond s =
     do { (_, s1) \<leftarrow> rx_add_to_wait_queue wq RX_TASK_INTERRUPTIBLE 0 NULL s;
          (if curr_running_task s1 \<noteq> task_ready_head s1
           then do { s2 \<leftarrow> rx_sched s1; Some (Sleeps, s2) }
           else if cond s1 then wait_finish s1 else wait_queue_loop wq cond s1) }"

definition wait_queue_resume ::
    "ptr \<Rightarrow> (kstate \<Rightarrow> bool) \<Rightarrow> kstate \<Rightarrow> (int call \<times> kstate) option" where
  "wait_queue_resume wq cond s = (if cond s then wait_finish s else wait_queue_loop wq cond s)"

definition rx_wait_queue ::
    "ptr \<Rightarrow> (kstate \<Rightarrow> bool) \<Rightarrow> kstate \<Rightarrow> (int call \<times> kstate) option" where
  "rx_wait_queue wq cond s = (if cond s then Some (Returns 0, s) else wait_queue_loop wq cond s)"


section \<open>The wait queue as a waiting list\<close>

definition wq_rest :: "addr \<Rightarrow> kstate \<Rightarrow> (addr \<rightharpoonup> wait_queue) \<times> ptr" where
  "wq_rest a s = ((wqueues s)(a := map_option (\<lambda>x. x\<lparr>w_task := NULL\<rparr>) (wqueues s a)), sys_wait_list s)"

interpretation wq_q: waiter_queue "wq_head a" "set_wq_head a" "wq_rest a" for a
  by unfold_locales (auto simp: wq_head_def set_wq_head_def wq_rest_def outside_objects_def)

lemma wq_rest_eq:
  assumes "wq_rest a s' = wq_rest a s" and "wqueues s a = Some w"
  shows "\<exists>p. wqueues s' a = Some (w\<lparr>w_task := p\<rparr>)" and "\<And>b. b \<noteq> a \<Longrightarrow> wqueues s' b = wqueues s b"
    and "sys_wait_list s' = sys_wait_list s"
proof -
  have e: "fst (wq_rest a s') b = fst (wq_rest a s) b" for b using assms(1) by simp
  from e [of a] assms(2) obtain x where x: "wqueues s' a = Some x" "x\<lparr>w_task := NULL\<rparr> = w\<lparr>w_task := NULL\<rparr>"
    by (auto simp: wq_rest_def)
  have "x = x\<lparr>w_task := NULL, w_task := w_task x\<rparr>" by simp
  also have "\<dots> = w\<lparr>w_task := w_task x\<rparr>" unfolding x(2) by simp
  finally show "\<exists>p. wqueues s' a = Some (w\<lparr>w_task := p\<rparr>)" using x(1) by auto
  show "wqueues s' b = wqueues s b" if "b \<noteq> a" for b using e [of b] that by (simp add: wq_rest_def)
  show "sys_wait_list s' = sys_wait_list s" using assms(1) by (simp add: wq_rest_def)
qed

section \<open>Waking selected tasks\<close>

definition task_wakeable :: "kstate \<Rightarrow> addr \<Rightarrow> bool" where
  "task_wakeable s b = (case tasks s b of Some t \<Rightarrow> wakeable t | None \<Rightarrow> False)"

definition first_ptr :: "addr list \<Rightarrow> ptr" where
  "first_ptr xs = (case xs of [] \<Rightarrow> NULL | x # _ \<Rightarrow> Some x)"

lemma first_ptr_simps [simp]: "first_ptr [] = NULL" "first_ptr (x # xs) = Some x"
  by (simp_all add: first_ptr_def)

lemma waiting_suffix:
  assumes "waiting g s (kept @ n # rest)" and "tasks s n = Some t"
  shows "t_next t = first_ptr rest"
proof -
  obtain p where "lst (task_next s) p (n # rest)" using assms(1) by (auto simp: waiting_def)
  then have "lst (task_next s) (t_next t) rest" using assms(2) by (simp add: task_next_def)
  then show ?thesis by (auto simp: first_ptr_def dest: lst_head)
qed

text \<open>Taking one task out of the list, by the head or by its predecessor.\<close>

lemma wake_unlink_step:
  assumes w: "waiting (wq_head a) s (kept @ n # rest)" and q: "ready_queue s xs"
    and dj: "set (kept @ n # rest) \<inter> set xs = {}" and t: "tasks s n = Some t"
    and wq: "wqueues s a = Some wa" and tp: "kept \<noteq> [] \<Longrightarrow> tp = Some (last kept)"
  shows "\<exists>s2. (if Some n = w_task wa then set_wq_head a (t_next t) s
               else set_task_next tp (t_next t) s) = Some s2 \<and>
              (Some n = w_task wa \<longleftrightarrow> kept = []) \<and>
              waiting (wq_head a) s2 (kept @ rest) \<and> ready_queue s2 xs \<and> tasks s2 n = Some t \<and>
              (\<forall>b. b \<notin> set kept \<longrightarrow> tasks s2 b = tasks s b) \<and>
              (\<forall>b. same_but_next (tasks s b) (tasks s2 b)) \<and> wq_rest a s2 = wq_rest a s \<and>
              curr_running_task s2 = curr_running_task s"
proof (cases kept rule: rev_cases)
  case Nil
  then have wn: "waiting (wq_head a) s (n # rest)" using w by simp
  then have "w_task wa = Some n" using waiting_hd(1) [OF wn] wq by (simp add: wq_head_def)
  moreover obtain s2 where s2: "set_wq_head a (t_next t) s = Some s2" "waiting (wq_head a) s2 rest"
    "outside_objects s s2" "wq_rest a s2 = wq_rest a s"
    using wq_q.pop_waiter [OF wn t] by blast
  ultimately show ?thesis
    using Nil q t outside_ready [OF s2(3)] by (simp add: outside_objects_def)
next
  case (snoc ks b)
  have d: "distinct (kept @ n # rest)" by (rule waiting_distinct [OF w])
  obtain h where g: "wq_head a s = Some h" and l: "lst (task_next s) h (ks @ b # n # rest)"
    using w snoc by (auto simp: waiting_def)
  have hn: "h \<noteq> Some n" using l d snoc by (cases ks) auto
  then have wt: "Some n \<noteq> w_task wa" using g wq by (auto simp: wq_head_def)
  have nn: "task_next s n = Some (t_next t)" using t by (simp add: task_next_def)
  obtain s2 where s2: "set_task_next (Some b) (t_next t) s = Some s2"
    "task_next s2 = (task_next s)(b := Some (t_next t))" "lst (task_next s2) h (ks @ b # rest)"
    using tnext.bypass_node [OF l nn] by blast
  obtain tb where tb: "tasks s b = Some tb" using waiting_task [OF w, of b] snoc by auto
  have e2: "s2 = s\<lparr>tasks := (tasks s)(b \<mapsto> tb\<lparr>t_next := t_next t\<rparr>)\<rparr>"
    using s2(1) tb by (simp add: set_task_next_def)
  have "ready_queue s2 xs"
    unfolding e2 by (rule ready_queue_upd_absent [OF q]) (use dj snoc in auto)
  moreover have "waiting (wq_head a) s2 (kept @ rest)"
    using s2(3) g snoc by (simp add: waiting_def e2 wq_q.head_frame del: task_next_upd)
  moreover have "tasks s2 n = Some t" using t d snoc by (auto simp: e2)
  moreover have "\<forall>c. same_but_next (tasks s c) (tasks s2 c)"
  proof
    show "same_but_next (tasks s c) (tasks s2 c)" for c using tb by (cases "c = b") (auto simp: e2)
  qed
  moreover have "\<forall>c. c \<notin> set kept \<longrightarrow> tasks s2 c = tasks s c" using snoc by (auto simp: e2)
  moreover have "wq_rest a s2 = wq_rest a s" "curr_running_task s2 = curr_running_task s"
    by (simp_all add: e2 wq_q.head_frame)
  ultimately show ?thesis using wt snoc tp s2(1) by (intro exI [of _ s2]) simp
qed

lemma wake_in_queue_step:
  assumes w: "waiting (wq_head a) s (kept @ n # rest)" and q: "ready_queue s xs"
    and dj: "set (kept @ n # rest) \<inter> set xs = {}" and t: "tasks s n = Some t" "wakeable t"
    and tp: "kept \<noteq> [] \<Longrightarrow> tp = Some (last kept)"
  shows "\<exists>s'. wake_in_queue a (Some n) tp s =
                wake_in_queue a (first_ptr rest) (if kept = [] then first_ptr rest else tp) s' \<and>
              waiting (wq_head a) s' (kept @ rest) \<and> ready_queue s' (insert_prio (task_prio s) n xs) \<and>
              (\<forall>b. b \<notin> set kept \<union> insert n (set xs) \<longrightarrow> tasks s' b = tasks s b) \<and>
              (\<forall>b. task_prio s' b = task_prio s b) \<and> wq_rest a s' = wq_rest a s \<and>
              curr_running_task s' = curr_running_task s"
proof -
  let ?t = "t\<lparr>t_state := RX_TASK_READY\<rparr>"
  let ?s1 = "s\<lparr>tasks := (tasks s)(n \<mapsto> ?t)\<rparr>"
  have d: "n \<notin> set (kept @ rest)" using waiting_distinct [OF w] by auto
  have w1: "waiting (wq_head a) ?s1 (kept @ n # rest)" using w wq_q.waiting_upd_same [OF t(1)] by simp
  have q1: "ready_queue ?s1 xs" by (rule ready_queue_upd_absent [OF q]) (use dj in auto)
  obtain wa where wa: "wqueues ?s1 a = Some wa" using w1 by (auto simp: waiting_def wq_head_def)
  have t1: "tasks ?s1 n = Some ?t" by simp
  obtain s2 where s2: "(if Some n = w_task wa then set_wq_head a (t_next ?t) ?s1
               else set_task_next tp (t_next ?t) ?s1) = Some s2"
    "Some n = w_task wa \<longleftrightarrow> kept = []" "waiting (wq_head a) s2 (kept @ rest)" "ready_queue s2 xs"
    "tasks s2 n = Some ?t" "\<forall>b. b \<notin> set kept \<longrightarrow> tasks s2 b = tasks ?s1 b"
    "\<forall>b. same_but_next (tasks ?s1 b) (tasks s2 b)" "wq_rest a s2 = wq_rest a ?s1"
    "curr_running_task s2 = curr_running_task ?s1"
    using wake_unlink_step [OF w1 q1 dj t1 wa tp] by blast
  have dj': "set (kept @ rest) \<inter> set xs = {}" "n \<notin> set xs" using dj by auto
  have same: "s2\<lparr>tasks := (tasks s2)(n \<mapsto> ?t)\<rparr> = s2" using s2(5) by (simp add: fun_upd_idem)
  obtain s3 where s3: "rx_add_to_ready_q (Some n) s2 = Some (OS_OK, s3)"
    "ready_queue s3 (insert_prio (task_prio s2) n xs)" "waiting (wq_head a) s3 (kept @ rest)"
    "relinked (insert n (set xs)) s2 s3" "wq_rest a s3 = wq_rest a s2"
    using wq_q.ready_waiter [where g = "\<lambda>t. t", OF s2(3,4) dj'(1) d dj'(2) s2(5)] unfolding same by auto
  have pr: "task_prio s2 b = task_prio s b" for b
    using s2(7) [rule_format, of b] t(1)
    by (cases "b = n"; cases "tasks s b") (auto simp: task_prio_def)
  have "insert_prio (task_prio s2) n xs = insert_prio (task_prio s) n xs"
    by (rule insert_prio_cong) (rule pr)
  moreover have nx: "t_next t = first_ptr rest" by (rule waiting_suffix [OF w t(1)])
  have "wake_in_queue a (Some n) tp s =
                wake_in_queue a (first_ptr rest) (if kept = [] then first_ptr rest else tp) s3"
    using t wa s2(1,2) s3(1) nx by (subst wake_in_queue.simps) (simp split: if_splits)
  moreover have "tasks s3 b = tasks s b" if "b \<notin> set kept \<union> insert n (set xs)" for b
    using relinked_outside [OF s3(4), of b] s2(6) that by auto
  moreover have "task_prio s3 b = task_prio s b" for b using relinked_prio [OF s3(4), of b] pr by simp
  moreover have "wq_rest a s3 = wq_rest a s" using s3(5) s2(8) by (simp add: wq_q.head_frame)
  moreover have "curr_running_task s3 = curr_running_task s"
    using relinked_fields(11) [OF s3(4)] s2(9) by simp
  ultimately show ?thesis using s3(2,3) by (intro exI [of _ s3]) auto
qed

lemma wake_in_queue_spec:
  assumes "waiting (wq_head a) s (kept @ rest)" and "ready_queue s xs"
    and "set (kept @ rest) \<inter> set xs = {}" and "kept \<noteq> [] \<Longrightarrow> tp = Some (last kept)"
  shows "\<exists>s'. wake_in_queue a (first_ptr rest) tp s = Some s' \<and>
              waiting (wq_head a) s' (kept @ filter (\<lambda>b. \<not> task_wakeable s b) rest) \<and>
              ready_queue s' (wake_order (task_prio s) (filter (task_wakeable s) rest) xs) \<and>
              wq_rest a s' = wq_rest a s \<and> curr_running_task s' = curr_running_task s"
  using assms
proof (induction rest arbitrary: kept s xs tp)
  case Nil
  then show ?case by (subst wake_in_queue.simps) (simp add: first_ptr_def)
next
  case (Cons n rest)
  obtain t where t: "tasks s n = Some t" using waiting_task [OF Cons.prems(1), of n] by auto
  have d: "distinct (kept @ n # rest)" by (rule waiting_distinct [OF Cons.prems(1)])
  show ?case
  proof (cases "wakeable t")
    case True
    obtain s1 where s1: "wake_in_queue a (Some n) tp s =
                wake_in_queue a (first_ptr rest) (if kept = [] then first_ptr rest else tp) s1"
      "waiting (wq_head a) s1 (kept @ rest)" "ready_queue s1 (insert_prio (task_prio s) n xs)"
      "\<forall>b. b \<notin> set kept \<union> insert n (set xs) \<longrightarrow> tasks s1 b = tasks s b"
      "\<forall>b. task_prio s1 b = task_prio s b" "wq_rest a s1 = wq_rest a s"
      "curr_running_task s1 = curr_running_task s"
      using wake_in_queue_step [OF Cons.prems(1,2,3) t True Cons.prems(4)] by blast
    have dj: "set (kept @ rest) \<inter> set (insert_prio (task_prio s) n xs) = {}"
      using Cons.prems(3) d by auto
    have eq: "task_wakeable s1 b = task_wakeable s b" if "b \<in> set rest" for b
      using s1(4) that Cons.prems(3) d by (auto simp: task_wakeable_def)
    have f: "filter (\<lambda>b. \<not> task_wakeable s1 b) rest = filter (\<lambda>b. \<not> task_wakeable s b) rest"
      "filter (task_wakeable s1) rest = filter (task_wakeable s) rest"
      by (rule filter_cong; simp add: eq)+
    have "\<exists>s'. wake_in_queue a (first_ptr rest) (if kept = [] then first_ptr rest else tp) s1 = Some s' \<and>
              waiting (wq_head a) s' (kept @ filter (\<lambda>b. \<not> task_wakeable s1 b) rest) \<and>
              ready_queue s' (wake_order (task_prio s1) (filter (task_wakeable s1) rest)
                                (insert_prio (task_prio s) n xs)) \<and>
              wq_rest a s' = wq_rest a s1 \<and> curr_running_task s' = curr_running_task s1"
      by (rule Cons.IH [OF s1(2,3) dj]) (use Cons.prems(4) in simp)
    moreover have "wake_order (task_prio s1) ws ys = wake_order (task_prio s) ws ys" for ws ys
      by (rule wake_order_cong) (simp add: s1(5))
    moreover have "task_wakeable s n" using t True by (simp add: task_wakeable_def)
    ultimately show ?thesis using s1(1,6,7) f by simp
  next
    case False
    have step: "wake_in_queue a (Some n) tp s = wake_in_queue a (first_ptr rest) (Some n) s"
      using t False waiting_suffix [OF Cons.prems(1) t] by (subst wake_in_queue.simps) simp
    have "\<exists>s'. wake_in_queue a (first_ptr rest) (Some n) s = Some s' \<and>
              waiting (wq_head a) s' ((kept @ [n]) @ filter (\<lambda>b. \<not> task_wakeable s b) rest) \<and>
              ready_queue s' (wake_order (task_prio s) (filter (task_wakeable s) rest) xs) \<and>
              wq_rest a s' = wq_rest a s \<and> curr_running_task s' = curr_running_task s"
      by (rule Cons.IH) (use Cons.prems in simp_all)
    moreover have "\<not> task_wakeable s n" using t False by (simp add: task_wakeable_def)
    ultimately show ?thesis using step by simp
  qed
qed

section \<open>The system list\<close>

definition sys_list :: "kstate \<Rightarrow> addr list \<Rightarrow> bool" where
  "sys_list s qs \<longleftrightarrow> lst (wq_next s) (sys_wait_list s) qs"

lemma wq_next_cong: "wqueues s' = wqueues s \<Longrightarrow> wq_next s' = wq_next s"
  by (simp add: wq_next_def fun_eq_iff)

lemma wq_next_eq_Some: "wq_next s a = Some n \<longleftrightarrow> (\<exists>w. wqueues s a = Some w \<and> w_next w = n)"
  by (auto simp: wq_next_def)

lemma wq_rest_links:
  assumes "wq_rest a s' = wq_rest a s" and "wqueues s a = Some w"
  shows "wq_next s' = wq_next s"
proof
  fix b show "wq_next s' b = wq_next s b"
    using wq_rest_eq(1,2) [OF assms] assms(2) by (cases "b = a") (auto simp: wq_next_def)
qed

lemma sys_list_find_spec:
  assumes "lst (wq_next s) (Some h) qs"
  shows "sys_list_find (Some a) h s = Some (if a \<in> set qs then a else last qs)"
  using assms
proof (induction qs arbitrary: h)
  case Nil
  then show ?case by simp
next
  case (Cons q qs)
  then obtain w where w: "q = h" "wqueues s h = Some w" "lst (wq_next s) (w_next w) qs"
    by (auto simp: wq_next_eq_Some)
  show ?case
  proof (cases qs)
    case Nil
    then show ?thesis using w by (subst sys_list_find.simps) (auto simp: wq_next_def)
  next
    case (Cons r rs)
    then have n: "w_next w = Some r" using w(3) by auto
    show ?thesis
      using w n Cons Cons.IH [of r] by (subst sys_list_find.simps) auto
  qed
qed

lemma sys_list_add_spec:
  assumes l: "sys_list s qs" and w: "wqueues s a = Some w" "a \<in> set qs \<or> w_next w = NULL"
  shows "\<exists>s'. sys_list_add (Some a) s = Some s' \<and>
              sys_list s' (if a \<in> set qs then qs else qs @ [a]) \<and> wq_head b s' = wq_head b s \<and>
              (\<exists>wq h. s' = s\<lparr>wqueues := wq, sys_wait_list := h\<rparr>)"
proof (cases qs)
  case Nil
  then have "sys_wait_list s = NULL" using l by (simp add: sys_list_def)
  moreover have "\<exists>wq h. s\<lparr>sys_wait_list := Some a\<rparr> = s\<lparr>wqueues := wq, sys_wait_list := h\<rparr>"
    by (rule exI [of _ "wqueues s"]) auto
  moreover have "sys_list (s\<lparr>sys_wait_list := Some a\<rparr>) [a]"
    using w Nil wq_next_cong [of "s\<lparr>sys_wait_list := Some a\<rparr>" s] by (simp add: sys_list_def wq_next_def)
  ultimately show ?thesis using Nil by (simp add: sys_list_add_def wq_head_def)
next
  case (Cons h hs)
  then have h: "sys_wait_list s = Some h" "lst (wq_next s) (Some h) qs"
    using l by (auto simp: sys_list_def)
  have f: "sys_list_find (Some a) h s = Some (if a \<in> set qs then a else last qs)"
    by (rule sys_list_find_spec [OF h(2)])
  show ?thesis
  proof (cases "a \<in> set qs")
    case True
    moreover have "\<exists>wq h. s = s\<lparr>wqueues := wq, sys_wait_list := h\<rparr>"
      by (rule exI [of _ "wqueues s"], rule exI [of _ "sys_wait_list s"]) simp
    ultimately show ?thesis using f h l by (simp add: sys_list_add_def)
  next
    case False
    have ne: "qs \<noteq> []" using Cons by simp
    have nil: "wq_next s a = Some NULL" using w False by (simp add: wq_next_def)
    obtain s1 where s1: "set_wq_next (Some (last qs)) (Some a) s = Some s1"
      "lst (wq_next s1) (Some h) (qs @ [a])"
      using wqnext.append_node [OF h(2) ne False nil] by blast
    have la: "last qs \<noteq> a" using False ne by auto
    obtain wl where wl: "wqueues s (last qs) = Some wl"
      using lst_mapped [OF h(2), of "last qs"] ne by (auto simp: wq_next_def)
    have e1: "s1 = s\<lparr>wqueues := (wqueues s)(last qs \<mapsto> wl\<lparr>w_next := Some a\<rparr>)\<rparr>"
      using s1(1) wl by (simp add: set_wq_next_def)
    let ?s' = "s1\<lparr>wqueues := (wqueues s1)(a \<mapsto> w\<lparr>w_prev := Some (last qs)\<rparr>)\<rparr>"
    have "wqueues s1 a = Some w" using w la by (simp add: e1)
    then have "sys_list_add (Some a) s = Some ?s'"
      using f False la h(1) s1(1) by (simp add: sys_list_add_def)
    moreover have "wq_next ?s' = wq_next s1" using w la by (auto simp: wq_next_def e1)
    then have "sys_list ?s' (qs @ [a])" using s1(2) h(1) by (simp add: sys_list_def e1)
    moreover have "wq_head b ?s' = wq_head b s" using w wl la by (auto simp: wq_head_def e1)
    moreover have "\<exists>wq h. ?s' = s\<lparr>wqueues := wq, sys_wait_list := h\<rparr>"
      by (rule exI [of _ "wqueues ?s'"], rule exI [of _ "sys_wait_list s"]) (simp add: e1)
    ultimately show ?thesis using False by auto
  qed
qed

section \<open>Sleeping and waking\<close>

definition wq_sleeper :: "task_state \<Rightarrow> addr \<Rightarrow> rx_task \<Rightarrow> rx_task" where
  "wq_sleeper st a t = t\<lparr>t_state := st, t_wq := Some a, t_next := NULL\<rparr>"

lemma add_to_wait_queue_spec:
  assumes q: "ready_queue s xs" and w: "waiting (wq_head a) s ws" and dj: "set xs \<inter> set ws = {}"
    and c: "curr_running_task s = Some c" "c \<in> set xs" "tasks s c = Some t"
    and l: "sys_list s qs" "wqueues s a = Some wa" "a \<in> set qs \<or> w_next wa = NULL"
  shows "\<exists>s'. rx_add_to_wait_queue (Some a) st 0 NULL s = Some (0, s') \<and>
              ready_queue s' (remove1 c xs) \<and> waiting (wq_head a) s' (ws @ [c]) \<and>
              sys_list s' (if a \<in> set qs then qs else qs @ [a]) \<and>
              curr_running_task s' = Some c \<and> tasks s' c = Some (wq_sleeper st a t)"
proof -
  let ?s1 = "rx_enter_critical s"
  let ?f = "\<lambda>t. t\<lparr>t_state := st, t_wq := Some a\<rparr>"
  let ?s2 = "?s1\<lparr>tasks := (tasks ?s1)(c \<mapsto> ?f t)\<rparr>"
  have w1: "waiting (wq_head a) ?s1 ws" "ready_queue ?s1 xs" "tasks ?s1 c = Some t"
    using w q c by simp_all
  obtain s3 s5 where s3: "rx_remove_from_ready_q (Some c) ?s2 = Some (OS_OK, s3)"
    "curr_running_task s3 = curr_running_task ?s1" "tasks s3 c = Some ((?f t)\<lparr>t_next := NULL\<rparr>)"
    and s5: "enqueue_task (wq_head a) (set_wq_head a) (Some c) s3 = Some s5"
      "ready_queue s5 (remove1 c xs)" "waiting (wq_head a) s5 (ws @ [c])"
      "tasks s5 c = Some ((?f t)\<lparr>t_next := NULL\<rparr>)" "curr_running_task s5 = curr_running_task ?s1"
      "wq_rest a s5 = wq_rest a ?s1"
    using wq_q.block_spec [where f = ?f, OF w1(2,1) dj c(2) w1(3)] by auto
  have wa1: "wqueues ?s1 a = Some wa" using l by simp
  obtain p where p: "wqueues s5 a = Some (wa\<lparr>w_task := p\<rparr>)" using wq_rest_eq(1) [OF s5(6) wa1] by blast
  have l5: "sys_list s5 qs"
    using l(1) wq_rest_links [OF s5(6) wa1] wq_rest_eq(3) [OF s5(6) wa1] wq_next_cong [of ?s1 s]
    by (simp add: sys_list_def)
  obtain s6 where s6: "sys_list_add (Some a) s5 = Some s6"
    "sys_list s6 (if a \<in> set qs then qs else qs @ [a])" "wq_head a s6 = wq_head a s5"
    and fr: "\<exists>wq h. s6 = s5\<lparr>wqueues := wq, sys_wait_list := h\<rparr>"
    using sys_list_add_spec [OF l5 p, of a] l(3) by auto
  have t6: "tasks s6 = tasks s5" "curr_running_task s6 = Some c" "task_ready_head s6 = task_ready_head s5"
    using fr s5(5) c(1) by auto
  let ?s' = "rx_exit_critical s6"
  have "rx_add_to_wait_queue (Some a) st 0 NULL s = Some (0, ?s')"
    using c s3 s5(1,4,5) s6(1) t6 clear_next_idem [OF s3(3)] by (simp add: rx_add_to_wait_queue_def)
  moreover have "ready_queue ?s' (remove1 c xs)" using s5(2) ready_queue_cong [of s6 s5] t6 by simp
  moreover have "waiting (wq_head a) ?s' (ws @ [c])"
    using s5(3) waiting_cong [of "wq_head a" s6 s5] s6(3) t6 by simp
  moreover have "sys_list ?s' (if a \<in> set qs then qs else qs @ [a])"
    using s6(2) wq_next_cong [of ?s' s6] by (simp add: sys_list_def)
  ultimately show ?thesis using t6 s5(4) by (intro exI [of _ ?s']) (simp add: wq_sleeper_def)
qed

lemma wake_tasks_spec:
  assumes "lst (task_next s) p ws" and "ready_queue s xs" and "set ws \<inter> set xs = {}"
  shows "\<exists>s'. wake_tasks p s = Some s' \<and> ready_queue s' (wake_order (task_prio s) ws xs) \<and>
              (\<forall>b\<in>set ws. \<exists>t. tasks s' b = Some t \<and> t_state t = RX_TASK_READY) \<and>
              wqueues s' = wqueues s \<and> sys_wait_list s' = sys_wait_list s \<and>
              (\<forall>b. b \<notin> set ws \<longrightarrow> same_but_next (tasks s b) (tasks s' b)) \<and>
              curr_running_task s' = curr_running_task s"
  using assms
proof (induction ws arbitrary: p s xs)
  case Nil
  then show ?case by (subst wake_tasks.simps) simp
next
  case (Cons a ws)
  obtain t where t: "p = Some a" "tasks s a = Some t" "lst (task_next s) (t_next t) ws"
    using Cons.prems(1) by (auto simp: task_next_eq_Some)
  have d: "a \<notin> set ws" using lst_distinct [OF Cons.prems(1)] by simp
  let ?f = "\<lambda>t. t\<lparr>t_state := RX_TASK_READY\<rparr>"
  let ?s1 = "s\<lparr>tasks := (tasks s)(a \<mapsto> ?f t)\<rparr>"
  have ax: "a \<notin> set xs" using Cons.prems(3) by auto
  obtain s2 where s2: "rx_add_to_ready_q (Some a) ?s1 = Some (OS_OK, s2)"
    "ready_queue s2 (insert_prio (task_prio ?s1) a xs)" "relinked (insert a (set xs)) ?s1 s2"
    using wake_spec [OF Cons.prems(2) ax t(2), of ?f] by auto
  have pr: "task_prio ?s1 b = task_prio s b" for b using t(2) by (simp add: task_prio_def)
  have l2: "lst (task_next s2) (t_next t) ws"
    using t(3) d relinked_chain [OF s2(3), of ws] Cons.prems(3) by auto
  have dj2: "set ws \<inter> set (insert_prio (task_prio ?s1) a xs) = {}" using Cons.prems(3) d by auto
  obtain s' where s': "wake_tasks (t_next t) s2 = Some s'"
    "ready_queue s' (wake_order (task_prio s2) ws (insert_prio (task_prio ?s1) a xs))"
    "\<forall>b\<in>set ws. \<exists>t. tasks s' b = Some t \<and> t_state t = RX_TASK_READY"
    "wqueues s' = wqueues s2" "sys_wait_list s' = sys_wait_list s2"
    "\<forall>b. b \<notin> set ws \<longrightarrow> same_but_next (tasks s2 b) (tasks s' b)"
    "curr_running_task s' = curr_running_task s2"
    using Cons.IH [OF l2 s2(2) dj2] by blast
  have pr2: "task_prio s2 b = task_prio s b" for b using relinked_prio [OF s2(3), of b] pr by simp
  have "insert_prio (task_prio ?s1) a xs = insert_prio (task_prio s) a xs"
    by (rule insert_prio_cong) (rule pr)
  then have q': "ready_queue s' (wake_order (task_prio s) (a # ws) xs)"
    using s'(2) wake_order_cong [of "task_prio s2" "task_prio s", OF pr2] by simp
  have "wake_tasks p s = Some s'"
    using t s2(1) s'(1) by (subst wake_tasks.simps) simp
  moreover have "\<exists>u. tasks s' a = Some u \<and> t_state u = RX_TASK_READY"
    using relinked_task [OF s2(3), of a "?f t"] s'(6) [rule_format, OF d] by auto
  moreover have "same_but_next (tasks s b) (tasks s' b)" if "b \<notin> set (a # ws)" for b
    using same_but_next_trans [OF relinked_same [OF s2(3), of b] s'(6) [rule_format, of b]] that by simp
  ultimately show ?case
    using q' s'(3,4,5,7) relinked_fields(5,11,16) [OF s2(3)] by auto
qed

section \<open>Properties\<close>

text \<open>
  A concrete state for the examples: tasks 4 (interruptible) and 5 (not) sleep on wait queue
  400, the only one in the system list; nobody has ever waited on queue 401.
\<close>

definition demo_wait :: kstate where
  "demo_wait = demo_ready\<lparr>
     tasks := (tasks demo_ready)(4 \<mapsto> (demo_task RX_TASK_INTERRUPTIBLE 5 (Some 5))\<lparr>t_wq := Some 400\<rparr>,
                                 5 \<mapsto> (demo_task RX_TASK_UNINTERRUPTIBLE 5 NULL)\<lparr>t_wq := Some 400\<rparr>),
     wqueues := [400 \<mapsto> \<lparr>w_task = Some 4, w_next = NULL, w_prev = NULL\<rparr>,
                 401 \<mapsto> \<lparr>w_task = NULL, w_next = NULL, w_prev = NULL\<rparr>],
     sys_wait_list := Some 400\<rparr>"

lemma demo_wait_simps [simp]:
  "tasks demo_wait = (tasks demo_ready)(4 \<mapsto> (demo_task RX_TASK_INTERRUPTIBLE 5 (Some 5))\<lparr>t_wq := Some 400\<rparr>,
                                 5 \<mapsto> (demo_task RX_TASK_UNINTERRUPTIBLE 5 NULL)\<lparr>t_wq := Some 400\<rparr>)"
  "wqueues demo_wait = [400 \<mapsto> \<lparr>w_task = Some 4, w_next = NULL, w_prev = NULL\<rparr>,
                 401 \<mapsto> \<lparr>w_task = NULL, w_next = NULL, w_prev = NULL\<rparr>]"
  "sys_wait_list demo_wait = Some 400" "curr_running_task demo_wait = Some 1"
  "task_ready_head demo_wait = Some 1"
  by (simp_all add: demo_wait_def)

lemma demo_wait_ready: "ready_queue demo_wait [1, 2, 3]"
  by (simp add: ready_queue_def runnable_def task_prio_def task_next_def)

lemma demo_wait_waiting: "waiting (wq_head 400) demo_wait [4, 5]" "waiting (wq_head 401) demo_wait []"
  by (simp_all add: waiting_def wq_head_def task_next_def)

lemma demo_wait_sys: "sys_list demo_wait [400]"
  by (simp add: sys_list_def wq_next_def)

text \<open>
  \<^verbatim>\<open>rx_wait_on\<close>: the caller sleeps uninterruptibly at the end of the wait queue,
  the queue is in the system list exactly once (appended only if it was not there), and the
  head of the remaining ready queue runs.
\<close>

theorem wait_on_blocks:
  assumes "ready_queue s xs" and "waiting (wq_head a) s ws" and "set xs \<inter> set ws = {}"
    and "curr_running_task s = Some c" and "c \<in> set xs" and "tasks s c = Some t"
    and "sys_list s qs" and "wqueues s a = Some wa" and "a \<in> set qs \<or> w_next wa = NULL"
    and "remove1 c xs = h # ys"
  shows "\<exists>s'. rx_wait_on (Some a) s = Some (Sleeps, s') \<and> curr_running_task s' = Some h \<and>
              ready_queue s' (h # ys) \<and> waiting (wq_head a) s' (ws @ [c]) \<and>
              sys_list s' (if a \<in> set qs then qs else qs @ [a]) \<and>
              tasks s' c = Some (wq_sleeper RX_TASK_UNINTERRUPTIBLE a t)"
proof -
  obtain s1 where s1: "rx_add_to_wait_queue (Some a) RX_TASK_UNINTERRUPTIBLE 0 NULL s = Some (0, s1)"
    "ready_queue s1 (h # ys)" "waiting (wq_head a) s1 (ws @ [c])"
    "sys_list s1 (if a \<in> set qs then qs else qs @ [a])" "curr_running_task s1 = Some c"
    "tasks s1 c = Some (wq_sleeper RX_TASK_UNINTERRUPTIBLE a t)"
    using add_to_wait_queue_spec [OF assms(1-9), of RX_TASK_UNINTERRUPTIBLE] assms(10) by auto
  have "c \<notin> set (remove1 c xs)" using ready_queue_distinct [OF assms(1)] by simp
  then have ch: "c \<noteq> h" using assms(10) by auto
  have tc: "tasks s1 c \<noteq> None" using s1(6) by simp
  obtain u s' where s': "tasks s1 h = Some u" "sched_then wait_finish s1 = Some (Sleeps, s')"
    "ready_queue s' (h # ys)"
    "s' = s1\<lparr>tasks := (tasks s1)(h \<mapsto> dispatched u), curr_running_task := Some h,
            need_resched := False, critical := critical s1 \<and> in_irq s1\<rparr>"
    using sched_away [OF s1(2,5) tc ch] by blast
  have "waiting (wq_head a) s' (ws @ [c])" unfolding s'(4) by (rule wq_q.waiting_sched [OF s1(3) s'(1)])
  moreover have "sys_list s' (if a \<in> set qs then qs else qs @ [a])"
    using s1(4) wq_next_cong [of s' s1] s'(4) by (simp add: sys_list_def)
  ultimately show ?thesis
    using s1(1,6) s' ch by (intro exI [of _ s']) (simp add: rx_wait_on_def)
qed

theorem wait_on_blocks_witness:
  "\<exists>s'. rx_wait_on (Some 401) demo_wait = Some (Sleeps, s') \<and> curr_running_task s' = Some 2 \<and>
        waiting (wq_head 401) s' [1] \<and> sys_list s' [400, 401]"
  using wait_on_blocks [OF demo_wait_ready demo_wait_waiting(2), of 1 "demo_task RX_TASK_RUNNING 2 (Some 2)"
      "[400]" "\<lparr>w_task = NULL, w_next = NULL, w_prev = NULL\<rparr>" 2 "[3]"] demo_wait_sys
  by auto



text \<open>
  Waking a queue on which nobody waits is not harmless: if it is not the first of the
  system list and was never linked into it, \<^verbatim>\<open>wq->prev->next\<close> is written through NULL.
\<close>

theorem wakeup_unlisted_faults:
  assumes "wqueues s a = Some w" and "w_task w = NULL" and "w_prev w = NULL"
    and "sys_wait_list s \<noteq> Some a"
  shows "rx_wakeup (Some a) s = None"
proof -
  have "wake_tasks NULL (rx_enter_critical s) = Some (rx_enter_critical s)"
    by (subst wake_tasks.simps) simp
  then show ?thesis
    using assms by (auto simp: rx_wakeup_def sys_list_remove_def)
qed

theorem wakeup_unlisted_faults_witness: "rx_wakeup (Some 401) demo_wait = None"
  using wakeup_unlisted_faults [of demo_wait 401] by simp

text \<open>
  \<^verbatim>\<open>rx_wake_task_in_the_queue\<close>, the per-queue work of the event thread: exactly the
  tasks that sleep interruptibly or whose timeout has expired are made ready, in order; the
  others stay in the queue in their order.
\<close>

theorem wake_selects_wakeable:
  assumes "waiting (wq_head a) s ws" and "ready_queue s xs" and "set ws \<inter> set xs = {}"
  shows "\<exists>s'. wake_task_in_the_queue a s = Some s' \<and>
              waiting (wq_head a) s' (filter (\<lambda>b. \<not> task_wakeable s b) ws) \<and>
              ready_queue s' (wake_order (task_prio s) (filter (task_wakeable s) ws) xs)"
proof -
  obtain w where w: "wqueues s a = Some w" "lst (task_next s) (w_task w) ws"
    using assms(1) by (auto simp: waiting_def wq_head_def)
  have "w_task w = first_ptr ws" using lst_head [OF w(2)] by (simp add: first_ptr_def)
  then show ?thesis
    using wake_in_queue_spec [of a s "[]" ws xs "w_task w"] assms w(1)
    by (auto simp: wake_task_in_the_queue_def)
qed

theorem wake_selects_wakeable_witness:
  "\<exists>s'. wake_task_in_the_queue 400 demo_wait = Some s' \<and> waiting (wq_head 400) s' [5] \<and>
        ready_queue s' [1, 2, 4, 3]"
  using wake_selects_wakeable [OF demo_wait_waiting(1) demo_wait_ready]
  by (simp add: task_wakeable_def wakeable_def task_prio_def E_OS_TIMEOUT_def)

end
