(* ===== verification/RX_Queue.thy ===== *)
theory RX_Queue
  imports RX_Waiters
begin

text \<open>
  Message queues (\<^verbatim>\<open>kernel/rx_queue.c\<close>): a ring of fixed-size blocks in the memory of
  the application, several blocked writers, one blocked reader. The bytes of the ring and of the
  caller's buffer live in the memory \<open>mem\<close> of the state.
\<close>

unbundle bit_operations_syntax

section \<open>Operations\<close>

definition RX_QUEUE_FULL :: "32 word" where "RX_QUEUE_FULL = 1"
definition RX_QUEUE_EMPTY :: "32 word" where "RX_QUEUE_EMPTY = NOT RX_QUEUE_FULL"
definition RX_Q_CYCLIC_FULL :: "32 word" where "RX_Q_CYCLIC_FULL = 2"
definition RX_Q_BLOCK :: "32 word" where "RX_Q_BLOCK = 8"
definition RX_Q_NAME_SIZE :: nat where "RX_Q_NAME_SIZE = 8"

definition memcpy_mem :: "nat \<Rightarrow> nat \<Rightarrow> nat \<Rightarrow> kstate \<Rightarrow> kstate" where
  "memcpy_mem dst src n s =
     s\<lparr>mem := (\<lambda>x. if dst \<le> x \<and> x < dst + n then mem s (src + (x - dst)) else mem s x)\<rparr>"

definition mq_head :: "addr \<Rightarrow> kstate \<Rightarrow> ptr option" where
  "mq_head a s = map_option q_write_task (mqueues s a)"

definition set_mq_head :: "addr \<Rightarrow> ptr \<Rightarrow> kstate \<Rightarrow> kstate option" where
  "set_mq_head a p s = upd_mq (Some a) (\<lambda>x. x\<lparr>q_write_task := p\<rparr>) s"

text \<open>The test for an empty queue, and the step of a pointer along the ring.\<close>

definition q_empty :: "msg_queue \<Rightarrow> bool" where
  "q_empty q \<longleftrightarrow> q_head q = q_tail q \<and> q_flag q AND RX_QUEUE_FULL = 0"

definition q_advance :: "msg_queue \<Rightarrow> nat \<Rightarrow> nat" where
  "q_advance q p =
     (if int p + q_size_of_block q > int (q_start q) + q_size_of_block q * q_num_of_blocks q
      then q_start q else nat (int p + q_size_of_block q))"

definition rx_create_queue ::
    "ptr \<Rightarrow> string \<Rightarrow> int \<Rightarrow> int \<Rightarrow> nat \<Rightarrow> 32 word \<Rightarrow> kstate \<Rightarrow> (int \<times> kstate) option" where
  "rx_create_queue mq name size_of_block num_of_blocks queue_start flag s =
     (if size_of_block > 64 \<or> size_of_block \<le> 0 \<or> num_of_blocks = 0 then Some (OS_ERR, s)
      else do { s1 \<leftarrow> upd_mq mq (\<lambda>q. q\<lparr>q_name := take RX_Q_NAME_SIZE name, q_start := queue_start,
                           q_size_of_block := size_of_block, q_num_of_blocks := num_of_blocks,
                           q_head := queue_start, q_tail := queue_start,
                           q_flag := q_flag q OR (RX_QUEUE_EMPTY AND flag),
                           q_write_task := NULL, q_read_task := NULL\<rparr>) s;
                Some (OS_OK, s1) })"

definition mq_stop_timer :: "ptr \<Rightarrow> kstate \<Rightarrow> kstate option" where
  "mq_stop_timer p s =
     do { t \<leftarrow> deref (tasks s) p;
          (if t_timer t \<noteq> NULL
           then do { s1 \<leftarrow> rx_stop_timer (t_timer t) s;
                     upd_task p (\<lambda>t. t\<lparr>t_timer := NULL\<rparr>) s1 }
           else Some s) }"

definition mq_release :: "ptr \<Rightarrow> kstate \<Rightarrow> kstate option" where
  "mq_release p s =
     do { s1 \<leftarrow> mq_stop_timer p s;
          upd_task p (\<lambda>t. t\<lparr>t_state := RX_TASK_READY, t_mq := NULL\<rparr>) s1 }"

definition rx_delete_queue :: "ptr \<Rightarrow> kstate \<Rightarrow> (int \<times> kstate) option" where
  "rx_delete_queue mq s =
     do { a \<leftarrow> mq;
          s1 \<leftarrow> wake_all (mq_head a) (set_mq_head a) mq_release (rx_enter_critical s);
          q \<leftarrow> mqueues s1 a;
          s2 \<leftarrow> (if q_read_task q \<noteq> NULL
                 then do { sa \<leftarrow> mq_release (q_read_task q) s1;
                           map_option snd (rx_add_to_ready_q (q_read_task q) sa) }
                 else Some s1);
          Some (OS_OK, s2) }"

text \<open>
  Cancelling the timer of a blocked reader or writer; here the timer is unlinked directly,
  without clearing its flag.
\<close>

definition mq_unlink_timer :: "ptr \<Rightarrow> kstate \<Rightarrow> kstate option" where
  "mq_unlink_timer p s =
     do { t \<leftarrow> deref (tasks s) p;
          (if t_timer t \<noteq> NULL
           then do { s1 \<leftarrow> rx_remove_from_timer_list (t_timer t) s;
                     upd_task p (\<lambda>t. t\<lparr>t_timer := NULL\<rparr>) s1 }
           else Some s) }"

text \<open>The part of \<^verbatim>\<open>rx_read_from_queue\<close> behind the test for an empty queue.\<close>

definition read_deliver :: "ptr \<Rightarrow> nat \<Rightarrow> kstate \<Rightarrow> (int call \<times> kstate) option" where
  "read_deliver mq msg_buffer s =
     do { q \<leftarrow> deref (mqueues s) mq;
          let s1 = memcpy_mem msg_buffer (q_tail q) (nat (q_size_of_block q)) s;
          s2 \<leftarrow> upd_mq mq (\<lambda>q. q\<lparr>q_tail := q_advance q (q_tail q)\<rparr>) s1;
          q2 \<leftarrow> deref (mqueues s2) mq;
          s3 \<leftarrow> (if q_head q2 = q_tail q2
                 then upd_mq mq (\<lambda>q. q\<lparr>q_flag := q_flag q AND RX_QUEUE_EMPTY\<rparr>) s2 else Some s2);
          s4 \<leftarrow> (case q_write_task q2 of
                   None \<Rightarrow> Some s3
                 | Some w \<Rightarrow>
                     do { sa \<leftarrow> mq_unlink_timer (Some w) s3;
                          sb \<leftarrow> upd_task (Some w) (\<lambda>t. t\<lparr>t_state := RX_TASK_READY, t_mq := NULL\<rparr>) sa;
                          tw \<leftarrow> tasks sb w;
                          sc \<leftarrow> upd_mq mq (\<lambda>q. q\<lparr>q_write_task := t_next tw\<rparr>) sb;
                          map_option snd (rx_add_to_ready_q (Some w) sc) });
          Some (Returns OS_OK, rx_exit_critical s4) }"

definition read_resume_forever :: "ptr \<Rightarrow> nat \<Rightarrow> kstate \<Rightarrow> (int call \<times> kstate) option" where
  "read_resume_forever mq msg_buffer s =
     do { let s1 = rx_enter_critical s;
          t \<leftarrow> deref (tasks s1) (curr_running_task s1);
          (if t_err t \<noteq> 0 then Some (Returns (t_err t), rx_exit_critical s1)
           else read_deliver mq msg_buffer s1) }"

definition read_resume_timed :: "ptr \<Rightarrow> nat \<Rightarrow> kstate \<Rightarrow> (int call \<times> kstate) option" where
  "read_resume_timed mq msg_buffer s =
     do { let s1 = rx_enter_critical s;
          q \<leftarrow> deref (mqueues s1) mq;
          (if q_empty q then Some (Returns E_OS_TIMEOUT, rx_exit_critical s1)
           else read_deliver mq msg_buffer s1) }"

definition after_call ::
    "(kstate \<Rightarrow> ('a call \<times> kstate) option) \<Rightarrow> (int call \<times> kstate) option \<Rightarrow> ('a call \<times> kstate) option" where
  "after_call rest r =
     do { (c, s) \<leftarrow> r; (case c of Sleeps \<Rightarrow> Some (Sleeps, s) | Returns _ \<Rightarrow> rest s) }"

definition rx_read_from_queue ::
    "ptr \<Rightarrow> ptr \<Rightarrow> int \<Rightarrow> int \<Rightarrow> ptr \<Rightarrow> kstate \<Rightarrow> (int call \<times> kstate) option" where
  "rx_read_from_queue mq msg_buffer sz timeout timer s =
     (if mq = NULL \<or> msg_buffer = NULL then Some (Returns OS_ERR, s)
      else
        do { buf \<leftarrow> msg_buffer;
             q \<leftarrow> deref (mqueues s) mq;
             (if sz \<noteq> q_size_of_block q then Some (Returns OS_ERR, s)
              else
                let s1 = rx_enter_critical s in
                if q_read_task q \<noteq> NULL then Some (Returns E_OS_BUSY, rx_exit_critical s1)
                else if \<not> q_empty q then read_deliver mq buf s1
                else if q_flag q AND RX_Q_BLOCK = 0
                then Some (Returns E_OS_UNAVAIL, rx_exit_critical s1)
                else if timeout = 0 then
                  do { s2 \<leftarrow> upd_mq mq (\<lambda>q. q\<lparr>q_read_task := curr_running_task s1\<rparr>) s1;
                       s3 \<leftarrow> upd_task (curr_running_task s2)
                               (\<lambda>t. t\<lparr>t_state := RX_TASK_SUSPEND, t_err := OS_OK\<rparr>) s2;
                       (_, s4) \<leftarrow> rx_remove_from_ready_q (curr_running_task s3) s3;
                       sched_then (read_resume_forever mq buf) (rx_exit_critical s4) }
                else
                  do { s2 \<leftarrow> upd_mq mq (\<lambda>q. q\<lparr>q_read_task := curr_running_task s1\<rparr>) s1;
                       let s3 = rx_exit_critical s2;
                       after_call (read_resume_timed mq buf)
                         (rx_add_timer timer None (word_of_int timeout + jiffies s3)
                            (curr_running_task s3) s3) }) })"

text \<open>The part of \<^verbatim>\<open>rx_write_to_queue\<close> behind the test for a full queue.\<close>

definition write_deliver :: "ptr \<Rightarrow> nat \<Rightarrow> kstate \<Rightarrow> (int call \<times> kstate) option" where
  "write_deliver mq msg_buffer s =
     do { q \<leftarrow> deref (mqueues s) mq;
          let s1 = memcpy_mem (q_head q) msg_buffer (nat (q_size_of_block q)) s;
          s2 \<leftarrow> upd_mq mq (\<lambda>q. q\<lparr>q_head := q_advance q (q_head q)\<rparr>) s1;
          q2 \<leftarrow> deref (mqueues s2) mq;
          s3 \<leftarrow> (if q_head q2 = q_tail q2
                 then upd_mq mq (\<lambda>q. q\<lparr>q_flag := q_flag q OR RX_QUEUE_FULL\<rparr>) s2 else Some s2);
          s4 \<leftarrow> (case q_read_task q2 of
                   None \<Rightarrow> Some s3
                 | Some r \<Rightarrow>
                     do { sa \<leftarrow> mq_unlink_timer (Some r) s3;
                          sb \<leftarrow> upd_task (Some r) (\<lambda>t. t\<lparr>t_state := RX_TASK_READY, t_mq := NULL\<rparr>) sa;
                          (_, sc) \<leftarrow> rx_add_to_ready_q (Some r) sb;
                          upd_mq mq (\<lambda>q. q\<lparr>q_read_task := NULL\<rparr>) sc });
          Some (Returns OS_OK, rx_exit_critical s4) }"

definition write_resume_forever :: "ptr \<Rightarrow> nat \<Rightarrow> kstate \<Rightarrow> (int call \<times> kstate) option" where
  "write_resume_forever mq msg_buffer s =
     do { let s1 = rx_enter_critical s;
          t \<leftarrow> deref (tasks s1) (curr_running_task s1);
          (if t_err t \<noteq> 0 then Some (Returns (t_err t), rx_exit_critical s1)
           else write_deliver mq msg_buffer s1) }"

definition write_resume_timed :: "ptr \<Rightarrow> nat \<Rightarrow> kstate \<Rightarrow> (int call \<times> kstate) option" where
  "write_resume_timed mq msg_buffer s =
     do { let s1 = rx_enter_critical s;
          q \<leftarrow> deref (mqueues s1) mq;
          (if q_head q = q_tail q \<and> q_flag q AND RX_QUEUE_FULL \<noteq> 0
           then Some (Returns E_OS_TIMEOUT, rx_exit_critical s1)
           else write_deliver mq msg_buffer s1) }"

definition rx_write_to_queue ::
    "ptr \<Rightarrow> ptr \<Rightarrow> int \<Rightarrow> int \<Rightarrow> ptr \<Rightarrow> kstate \<Rightarrow> (int call \<times> kstate) option" where
  "rx_write_to_queue mq msg_buffer sz timeout timer s =
     (if mq = NULL \<or> msg_buffer = NULL then Some (Returns OS_ERR, s)
      else
        do { a \<leftarrow> mq;
             buf \<leftarrow> msg_buffer;
             q \<leftarrow> mqueues s a;
             (if sz \<noteq> q_size_of_block q then Some (Returns OS_ERR, s)
              else
                let s1 = rx_enter_critical s in
                if \<not> (q_head q = q_tail q \<and> q_flag q AND RX_QUEUE_FULL \<noteq> 0 \<and>
                      q_flag q AND RX_Q_CYCLIC_FULL = 0)
                then write_deliver mq buf s1
                else if q_flag q AND RX_Q_BLOCK = 0
                then Some (Returns E_OS_UNAVAIL, rx_exit_critical s1)
                else
                  do { s2 \<leftarrow> upd_task (curr_running_task s1)
                               (\<lambda>t. t\<lparr>t_state := RX_TASK_SUSPEND, t_err := OS_OK\<rparr>) s1;
                       (_, s3) \<leftarrow> rx_remove_from_ready_q (curr_running_task s2) s2;
                       s4 \<leftarrow> enqueue_task (mq_head a) (set_mq_head a) (curr_running_task s3) s3;
                       let s5 = rx_exit_critical s4;
                       (if timeout = 0 then sched_then (write_resume_forever mq buf) s5
                        else after_call (write_resume_timed mq buf)
                               (rx_add_timer timer None (word_of_int timeout + jiffies s5)
                                  (curr_running_task s5) s5)) }) })"


section \<open>The queue as a waiting list of writers\<close>

definition mq_rest :: "addr \<Rightarrow> kstate \<Rightarrow> (addr \<rightharpoonup> msg_queue) \<times> (addr \<Rightarrow> 8 word)" where
  "mq_rest a s =
     ((mqueues s)(a := map_option (\<lambda>x. x\<lparr>q_write_task := NULL\<rparr>) (mqueues s a)), mem s)"

interpretation mq_q: waiter_queue "mq_head a" "set_mq_head a" "mq_rest a" for a
  by unfold_locales (auto simp: mq_head_def set_mq_head_def mq_rest_def outside_objects_def)

lemma mq_rest_eq:
  assumes "mq_rest a s' = mq_rest a s" and "mqueues s a = Some q"
  shows "\<exists>p. mqueues s' a = Some (q\<lparr>q_write_task := p\<rparr>)" and "mem s' = mem s"
proof -
  have e: "fst (mq_rest a s') b = fst (mq_rest a s) b" for b using assms(1) by simp
  from e [of a] assms(2) obtain x where x: "mqueues s' a = Some x"
    "x\<lparr>q_write_task := NULL\<rparr> = q\<lparr>q_write_task := NULL\<rparr>" by (auto simp: mq_rest_def)
  have "x = x\<lparr>q_write_task := NULL, q_write_task := q_write_task x\<rparr>" by simp
  also have "\<dots> = q\<lparr>q_write_task := q_write_task x\<rparr>" unfolding x(2) by simp
  finally show "\<exists>p. mqueues s' a = Some (q\<lparr>q_write_task := p\<rparr>)" using x(1) by auto
  show "mem s' = mem s" using assms(1) by (simp add: mq_rest_def)
qed


section \<open>The ring\<close>

text \<open>
  The contents of a queue as a list of messages, the oldest first. The pointers visit
  \<open>num_of_blocks + 1\<close> positions: \<open>q_advance\<close> wraps around only behind the end. The full flag
  is meaningful only where the two pointers meet; a read from a full queue leaves it set.
\<close>

definition q_slots :: "msg_queue \<Rightarrow> nat" where
  "q_slots q = nat (q_num_of_blocks q) + 1"

definition block_at :: "kstate \<Rightarrow> nat \<Rightarrow> nat \<Rightarrow> 8 word list" where
  "block_at s p n = map (\<lambda>i. mem s (p + i)) [0..<n]"

definition ring_holds :: "kstate \<Rightarrow> msg_queue \<Rightarrow> nat \<Rightarrow> 8 word list list \<Rightarrow> bool" where
  "ring_holds s q t msgs \<longleftrightarrow>
     0 < q_size_of_block q \<and> 0 < q_num_of_blocks q \<and> t < q_slots q \<and> length msgs \<le> q_slots q \<and>
     q_tail q = q_start q + nat (q_size_of_block q) * t \<and>
     q_head q = q_start q + nat (q_size_of_block q) * ((t + length msgs) mod q_slots q) \<and>
     (length msgs = q_slots q \<longrightarrow> q_flag q AND RX_QUEUE_FULL \<noteq> 0) \<and>
     (msgs = [] \<longrightarrow> q_flag q AND RX_QUEUE_FULL = 0) \<and>
     (\<forall>i<length msgs. block_at s (q_start q + nat (q_size_of_block q) * ((t + i) mod q_slots q))
                        (nat (q_size_of_block q)) = msgs ! i)"

definition queue_holds :: "kstate \<Rightarrow> addr \<Rightarrow> 8 word list list \<Rightarrow> bool" where
  "queue_holds s a msgs \<longleftrightarrow> (\<exists>q t. mqueues s a = Some q \<and> ring_holds s q t msgs)"

lemma q_advance_slot:
  assumes "0 < q_size_of_block q" and "0 < q_num_of_blocks q" and "k < q_slots q"
  shows "q_advance q (q_start q + nat (q_size_of_block q) * k) =
           q_start q + nat (q_size_of_block q) * (Suc k mod q_slots q)"
proof -
  let ?z = "q_size_of_block q" and ?n = "q_num_of_blocks q"
  have z: "int (nat ?z) = ?z" "int (nat ?n) = ?n" using assms by simp_all
  have pos: "int (q_start q + nat ?z * k) + ?z = int (q_start q) + ?z * (int k + 1)"
    using z by (simp add: algebra_simps)
  show ?thesis
  proof (cases "Suc k = q_slots q")
    case True
    then have "int k = ?n" using z by (simp add: q_slots_def)
    then have "int (q_start q + nat ?z * k) + ?z > int (q_start q) + ?z * ?n"
      unfolding pos using assms by (simp add: algebra_simps)
    then show ?thesis using True by (simp add: q_advance_def)
  next
    case False
    then have "int k + 1 \<le> ?n" using assms(3) z by (simp add: q_slots_def)
    then have "\<not> int (q_start q + nat ?z * k) + ?z > int (q_start q) + ?z * ?n"
      unfolding pos using assms by (simp add: not_less)
    moreover have "int (q_start q + nat ?z * k) + ?z = int (q_start q + nat ?z * Suc k)"
      using z(1) by (simp add: algebra_simps)
    then have "nat (int (q_start q + nat ?z * k) + ?z) = q_start q + nat ?z * Suc k"
      by (simp only: nat_int)
    moreover have "Suc k mod q_slots q = Suc k" using False assms(3) by simp
    ultimately show ?thesis by (simp add: q_advance_def)
  qed
qed


lemma ring_slot_eq_iff:
  fixes i l N :: nat
  assumes "i < l" and "l \<le> N"
  shows "(t + i) mod N = (t + l) mod N \<longleftrightarrow> i = 0 \<and> l = N"
proof
  assume e: "(t + i) mod N = (t + l) mod N"
  then have "N dvd (t + l) - (t + i)" using assms mod_eq_dvd_iff_nat [of "t + i" "t + l" N] by simp
  then have "N dvd l - i" by simp
  moreover have "0 < l - i" "l - i \<le> N" using assms by auto
  ultimately have "l - i = N" by (meson dvd_imp_le le_antisym)
  then show "i = 0 \<and> l = N" using assms by auto
qed simp

lemma full_flag:
  "(f OR RX_QUEUE_FULL) AND RX_QUEUE_FULL \<noteq> 0" "(f AND RX_QUEUE_EMPTY) AND RX_QUEUE_FULL = 0"
proof -
  have "(f OR 1) AND (1 :: 32 word) = 1" by (simp add: and_one_eq mod_2_eq_odd even_or_iff)
  then show "(f OR RX_QUEUE_FULL) AND RX_QUEUE_FULL \<noteq> 0" by (simp add: RX_QUEUE_FULL_def)
  show "(f AND RX_QUEUE_EMPTY) AND RX_QUEUE_FULL = 0"
    by (simp add: RX_QUEUE_FULL_def RX_QUEUE_EMPTY_def and_one_eq mod_2_eq_odd even_and_iff)
qed

lemma block_at_memcpy: "block_at (memcpy_mem dst src n s) dst n = block_at s src n"
  by (simp add: block_at_def memcpy_mem_def)

lemma block_at_memcpy_other:
  "p + m \<le> dst \<or> dst + n \<le> p \<Longrightarrow> block_at (memcpy_mem dst src n s) p m = block_at s p m"
  by (auto simp: block_at_def memcpy_mem_def)

lemma slots_disjoint:
  fixes z k k' :: nat
  assumes "k \<noteq> k'"
  shows "(b + z * k) + z \<le> b + z * k' \<or> (b + z * k') + z \<le> b + z * k"
proof (cases "k < k'")
  case True
  then have "z * Suc k \<le> z * k'" by (intro mult_le_mono2) simp
  then show ?thesis by simp
next
  case False
  then have "z * Suc k' \<le> z * k" using assms by (intro mult_le_mono2) simp
  then show ?thesis by simp
qed

definition q_written :: "msg_queue \<Rightarrow> msg_queue" where
  "q_written q =
     (let h = q_advance q (q_head q) in
      if h = q_tail q then q\<lparr>q_head := h, q_flag := q_flag q OR RX_QUEUE_FULL\<rparr> else q\<lparr>q_head := h\<rparr>)"

definition q_read :: "msg_queue \<Rightarrow> msg_queue" where
  "q_read q =
     (let t = q_advance q (q_tail q) in
      if q_head q = t then q\<lparr>q_tail := t, q_flag := q_flag q AND RX_QUEUE_EMPTY\<rparr> else q\<lparr>q_tail := t\<rparr>)"

lemma q_written_simps [simp]:
  "q_start (q_written q) = q_start q" "q_size_of_block (q_written q) = q_size_of_block q"
  "q_num_of_blocks (q_written q) = q_num_of_blocks q" "q_tail (q_written q) = q_tail q"
  "q_head (q_written q) = q_advance q (q_head q)" "q_slots (q_written q) = q_slots q"
  "q_read_task (q_written q) = q_read_task q" "q_write_task (q_written q) = q_write_task q"
  by (simp_all add: q_written_def Let_def q_slots_def)

lemma q_read_simps [simp]:
  "q_start (q_read q) = q_start q" "q_size_of_block (q_read q) = q_size_of_block q"
  "q_num_of_blocks (q_read q) = q_num_of_blocks q" "q_head (q_read q) = q_head q"
  "q_tail (q_read q) = q_advance q (q_tail q)" "q_slots (q_read q) = q_slots q"
  "q_read_task (q_read q) = q_read_task q" "q_write_task (q_read q) = q_write_task q"
  by (simp_all add: q_read_def Let_def q_slots_def)

lemma ring_write:
  fixes buf :: nat
  assumes r: "ring_holds s q t msgs" and room: "length msgs < q_slots q"
  defines "s' \<equiv> memcpy_mem (q_head q) buf (nat (q_size_of_block q)) s"
  shows "ring_holds s' (q_written q) t (msgs @ [block_at s buf (nat (q_size_of_block q))])"
proof -
  let ?z = "nat (q_size_of_block q)" and ?N = "q_slots q" and ?l = "length msgs"
  let ?k = "(t + ?l) mod ?N"
  have pos: "0 < q_size_of_block q" "0 < q_num_of_blocks q" "t < ?N" "0 < ?N"
    using r by (auto simp: ring_holds_def)
  have h: "q_head q = q_start q + ?z * ?k" and tl: "q_tail q = q_start q + ?z * t"
    using r by (simp_all add: ring_holds_def)
  have "?k < ?N" using pos by simp
  then have adv: "q_advance q (q_head q) = q_start q + ?z * ((t + Suc ?l) mod ?N)"
    unfolding h using q_advance_slot [OF pos(1,2)] by (simp add: mod_Suc_eq)
  have meet: "q_advance q (q_head q) = q_tail q \<longleftrightarrow> Suc ?l = ?N"
    using ring_slot_eq_iff [of 0 "Suc ?l" ?N t] room pos unfolding adv tl by auto
  have old: "block_at s' (q_start q + ?z * ((t + i) mod ?N)) ?z = msgs ! i" if "i < ?l" for i
  proof -
    have "(t + i) mod ?N \<noteq> ?k" using ring_slot_eq_iff [of i ?l ?N t] that room by simp
    then have "block_at s' (q_start q + ?z * ((t + i) mod ?N)) ?z =
        block_at s (q_start q + ?z * ((t + i) mod ?N)) ?z"
      unfolding s'_def h by (intro block_at_memcpy_other) (rule slots_disjoint)
    then show ?thesis using r that by (simp add: ring_holds_def)
  qed
  have new: "block_at s' (q_start q + ?z * ?k) ?z = block_at s buf ?z"
    unfolding s'_def h by (rule block_at_memcpy)
  have fl: "Suc ?l = ?N \<Longrightarrow> q_flag (q_written q) AND RX_QUEUE_FULL \<noteq> 0"
    using meet full_flag(1) by (simp add: q_written_def Let_def)
  have "block_at s' (q_start q + ?z * ((t + i) mod ?N)) ?z = (msgs @ [block_at s buf ?z]) ! i"
    if "i < Suc ?l" for i
    using old [of i] new that by (cases "i = ?l") (simp_all add: nth_append)
  then show ?thesis using pos tl adv fl room by (simp add: ring_holds_def)
qed

lemma ring_read:
  assumes r: "ring_holds s q t (m # msgs)"
    and out: "buf + nat (q_size_of_block q) \<le> q_start q \<or>
              q_start q + nat (q_size_of_block q) * q_slots q \<le> buf"
  defines "s' \<equiv> memcpy_mem buf (q_tail q) (nat (q_size_of_block q)) s"
  shows "ring_holds s' (q_read q) (Suc t mod q_slots q) msgs"
    and "block_at s' buf (nat (q_size_of_block q)) = m"
proof -
  let ?z = "nat (q_size_of_block q)" and ?N = "q_slots q" and ?l = "length msgs"
  have pos: "0 < q_size_of_block q" "0 < q_num_of_blocks q" "t < ?N" "0 < ?N" "Suc ?l \<le> ?N"
    using r by (auto simp: ring_holds_def)
  have h: "q_head q = q_start q + ?z * ((t + Suc ?l) mod ?N)" and tl: "q_tail q = q_start q + ?z * t"
    using r by (simp_all add: ring_holds_def)
  have adv: "q_advance q (q_tail q) = q_start q + ?z * (Suc t mod ?N)"
    unfolding tl by (rule q_advance_slot [OF pos(1-3)])
  have shift: "(Suc t mod ?N + i) mod ?N = (t + Suc i) mod ?N" for i by (simp add: mod_add_left_eq)
  have b0: "block_at s (q_start q + ?z * ((t + i) mod ?N)) ?z = (m # msgs) ! i" if "i < Suc ?l" for i
    using r that unfolding ring_holds_def by auto
  show "block_at s' buf ?z = m"
    unfolding s'_def block_at_memcpy tl using b0 [of 0] pos(3) by simp
  have keep: "block_at s' (q_start q + ?z * k) ?z = block_at s (q_start q + ?z * k) ?z" if "k < ?N" for k
  proof -
    have "?z * Suc k \<le> ?z * ?N" using that by (intro mult_le_mono2) simp
    then show ?thesis unfolding s'_def by (intro block_at_memcpy_other) (use out in auto)
  qed
  have blocks: "block_at s' (q_start q + ?z * ((Suc t mod ?N + i) mod ?N)) ?z = msgs ! i" if "i < ?l" for i
    unfolding shift using keep [of "(t + Suc i) mod ?N"] b0 [of "Suc i"] pos(4) that by simp
  have "msgs = [] \<Longrightarrow> q_flag (q_read q) AND RX_QUEUE_FULL = 0"
    using h adv full_flag(2) by (simp add: q_read_def Let_def)
  then show "ring_holds s' (q_read q) (Suc t mod ?N) msgs"
    using pos h adv shift blocks by (simp add: ring_holds_def)
qed

section \<open>The operations on the ring\<close>

lemma ring_holds_cong:
  assumes "mem s' = mem s" and "q_start q' = q_start q" "q_head q' = q_head q" "q_tail q' = q_tail q"
    and "q_size_of_block q' = q_size_of_block q" "q_num_of_blocks q' = q_num_of_blocks q"
    and "q_flag q' = q_flag q"
  shows "ring_holds s' q' t msgs = ring_holds s q t msgs"
  using assms by (simp add: ring_holds_def q_slots_def block_at_def)

lemma write_deliver_eq:
  assumes "mqueues s a = Some q"
  shows "write_deliver (Some a) buf s =
    do { s4 \<leftarrow> (case q_read_task q of
                   None \<Rightarrow> Some ((memcpy_mem (q_head q) buf (nat (q_size_of_block q)) s)
                               \<lparr>mqueues := (mqueues s)(a \<mapsto> q_written q)\<rparr>)
                 | Some r \<Rightarrow>
                     do { sa \<leftarrow> mq_unlink_timer (Some r)
                                 ((memcpy_mem (q_head q) buf (nat (q_size_of_block q)) s)
                                    \<lparr>mqueues := (mqueues s)(a \<mapsto> q_written q)\<rparr>);
                          sb \<leftarrow> upd_task (Some r) (\<lambda>t. t\<lparr>t_state := RX_TASK_READY, t_mq := NULL\<rparr>) sa;
                          (_, sc) \<leftarrow> rx_add_to_ready_q (Some r) sb;
                          upd_mq (Some a) (\<lambda>q. q\<lparr>q_read_task := NULL\<rparr>) sc });
         Some (Returns OS_OK, rx_exit_critical s4) }"
  using assms by (cases "q_read_task q") (simp_all add: write_deliver_def memcpy_mem_def q_written_def Let_def)

lemma read_deliver_eq:
  assumes "mqueues s a = Some q" and "q_write_task q = NULL"
  shows "read_deliver (Some a) buf s =
    Some (Returns OS_OK, rx_exit_critical ((memcpy_mem buf (q_tail q) (nat (q_size_of_block q)) s)
                           \<lparr>mqueues := (mqueues s)(a \<mapsto> q_read q)\<rparr>))"
  using assms by (simp add: read_deliver_def memcpy_mem_def q_read_def Let_def)

lemma memcpy_frame [simp]:
  "tasks (memcpy_mem d r n s) = tasks s" "task_ready_head (memcpy_mem d r n s) = task_ready_head s"
  "mqueues (memcpy_mem d r n s) = mqueues s" "curr_running_task (memcpy_mem d r n s) = curr_running_task s"
  "timers (memcpy_mem d r n s) = timers s" "in_irq (memcpy_mem d r n s) = in_irq s"
  "critical (memcpy_mem d r n s) = critical s"
  by (simp_all add: memcpy_mem_def)

lemma memcpy_masked [simp]:
  "mem (memcpy_mem d r n (rx_enter_critical s)) = mem (memcpy_mem d r n s)"
  by (simp add: memcpy_mem_def cong: if_cong)

lemma queue_holds_after:
  assumes "mqueues s' a = Some q" and "mem s' = mem sm" and "ring_holds sm q t msgs"
  shows "queue_holds s' a msgs"
  using assms ring_holds_cong [of s' sm q q] unfolding queue_holds_def by blast

text \<open>A write that does not have to block, with or without a reader to wake.\<close>

lemma write_room_spec:
  assumes q: "mqueues s a = Some q" and room: "\<not> (q_head q = q_tail q \<and> q_flag q AND RX_QUEUE_FULL \<noteq> 0 \<and>
                                       q_flag q AND RX_Q_CYCLIC_FULL = 0)"
  shows "rx_write_to_queue (Some a) (Some buf) (q_size_of_block q) timeout timer s =
         write_deliver (Some a) buf (rx_enter_critical s)"
  using assms by (auto simp: rx_write_to_queue_def)

lemma ring_head_eq_tail:
  assumes "ring_holds s q t msgs"
  shows "q_head q = q_tail q \<longleftrightarrow> msgs = [] \<or> length msgs = q_slots q"
proof -
  have pos: "0 < nat (q_size_of_block q)" "t < q_slots q" "length msgs \<le> q_slots q"
    "q_tail q = q_start q + nat (q_size_of_block q) * t"
    "q_head q = q_start q + nat (q_size_of_block q) * ((t + length msgs) mod q_slots q)"
    using assms by (simp_all add: ring_holds_def)
  then have "q_head q = q_tail q \<longleftrightarrow> (t + length msgs) mod q_slots q = t" by simp
  also have "\<dots> \<longleftrightarrow> msgs = [] \<or> length msgs = q_slots q"
    using ring_slot_eq_iff [of 0 "length msgs" "q_slots q" t] pos by (cases msgs) auto
  finally show ?thesis .
qed

lemma ring_not_empty: "ring_holds s q t msgs \<Longrightarrow> q_empty q \<longleftrightarrow> msgs = []"
  using ring_head_eq_tail [of s q t msgs] by (auto simp: q_empty_def ring_holds_def q_slots_def)

lemma ring_not_full:
  assumes "ring_holds s q t msgs" and "length msgs < q_slots q"
  shows "\<not> (q_head q = q_tail q \<and> q_flag q AND RX_QUEUE_FULL \<noteq> 0)"
  using assms ring_head_eq_tail [of s q t msgs] by (auto simp: ring_holds_def)

lemma unlink_no_timer:
  "tasks s r = Some t \<Longrightarrow> t_timer t = NULL \<Longrightarrow> mq_unlink_timer (Some r) s = Some s"
  by (simp add: mq_unlink_timer_def)


lemma write_appends_spec:
  assumes "mqueues s a = Some q" and "ring_holds s q t msgs" and "length msgs < q_slots q"
    and "q_read_task q = NULL"
  shows "\<exists>m c. let s' = s\<lparr>mem := m, mqueues := (mqueues s)(a \<mapsto> q_written q), critical := c\<rparr> in
              rx_write_to_queue (Some a) (Some buf) (q_size_of_block q) timeout timer s =
                Some (Returns OS_OK, s') \<and>
              ring_holds s' (q_written q) t (msgs @ [block_at s buf (nat (q_size_of_block q))])"
proof -
  let ?sm = "memcpy_mem (q_head q) buf (nat (q_size_of_block q)) s"
  let ?s' = "rx_exit_critical ((memcpy_mem (q_head q) buf (nat (q_size_of_block q)) (rx_enter_critical s))
               \<lparr>mqueues := (mqueues s)(a \<mapsto> q_written q)\<rparr>)"
  have "rx_write_to_queue (Some a) (Some buf) (q_size_of_block q) timeout timer s = Some (Returns OS_OK, ?s')"
    using write_room_spec [OF assms(1)] ring_not_full [OF assms(2,3)] assms(1,4)
      write_deliver_eq [of "rx_enter_critical s" a q buf] by auto
  moreover have "ring_holds ?s' (q_written q) t (msgs @ [block_at s buf (nat (q_size_of_block q))])"
    using ring_write [OF assms(2,3), of buf] ring_holds_cong [of ?s' ?sm "q_written q" "q_written q"] by simp
  moreover have "?s' = s\<lparr>mem := mem ?sm, mqueues := (mqueues s)(a \<mapsto> q_written q), critical := critical ?s'\<rparr>"
    by (simp add: memcpy_mem_def critical_eqs cong: if_cong)
  ultimately show ?thesis unfolding Let_def by metis
qed

lemma read_oldest_spec:
  assumes "mqueues s a = Some q" and "ring_holds s q t (m # msgs)"
    and "q_read_task q = NULL" and "q_write_task q = NULL"
    and "buf + nat (q_size_of_block q) \<le> q_start q \<or>
         q_start q + nat (q_size_of_block q) * q_slots q \<le> buf"
  shows "\<exists>mm c. let s' = s\<lparr>mem := mm, mqueues := (mqueues s)(a \<mapsto> q_read q), critical := c\<rparr> in
              rx_read_from_queue (Some a) (Some buf) (q_size_of_block q) timeout timer s =
                Some (Returns OS_OK, s') \<and>
              block_at s' buf (nat (q_size_of_block q)) = m \<and>
              ring_holds s' (q_read q) (Suc t mod q_slots q) msgs"
proof -
  let ?sm = "memcpy_mem buf (q_tail q) (nat (q_size_of_block q)) s"
  let ?s' = "rx_exit_critical ((memcpy_mem buf (q_tail q) (nat (q_size_of_block q)) (rx_enter_critical s))
               \<lparr>mqueues := (mqueues s)(a \<mapsto> q_read q)\<rparr>)"
  have "rx_read_from_queue (Some a) (Some buf) (q_size_of_block q) timeout timer s = Some (Returns OS_OK, ?s')"
    using assms(1,3,4) ring_not_empty [OF assms(2)] read_deliver_eq [of "rx_enter_critical s" a q buf]
    by (simp add: rx_read_from_queue_def)
  moreover have "ring_holds ?s' (q_read q) (Suc t mod q_slots q) msgs"
    using ring_read(1) [OF assms(2,5)] ring_holds_cong [of ?s' ?sm "q_read q" "q_read q"] by simp
  moreover have "block_at ?s' buf (nat (q_size_of_block q)) = m"
    using ring_read(2) [OF assms(2,5)] by (simp add: block_at_def)
  moreover have "?s' = s\<lparr>mem := mem ?sm, mqueues := (mqueues s)(a \<mapsto> q_read q), critical := critical ?s'\<rparr>"
    by (simp add: memcpy_mem_def critical_eqs cong: if_cong)
  ultimately show ?thesis unfolding Let_def by metis
qed


section \<open>Properties\<close>

text \<open>
  A concrete state for the examples: queue 500 has two blocks of four bytes at 1000 and holds
  one message; the caller's buffer is at 2000. Queue 501 is empty and may block.
\<close>

definition demo_mq :: "nat \<Rightarrow> nat \<Rightarrow> 32 word \<Rightarrow> msg_queue" where
  "demo_mq h t f = \<lparr>q_name = ''q'', q_start = 1000, q_head = h, q_tail = t, q_flag = f,
     q_size_of_block = 4, q_num_of_blocks = 2, q_write_task = NULL, q_read_task = NULL\<rparr>"

definition demo_queue :: kstate where
  "demo_queue = demo_sleep\<lparr>mqueues := [500 \<mapsto> demo_mq 1004 1000 0, 501 \<mapsto> demo_mq 1000 1000 8,
       502 \<mapsto> demo_mq 1008 1000 0, 503 \<mapsto> demo_mq 1000 1000 3],
     mem := (\<lambda>x. of_nat x)\<rparr>"

lemma demo_mq_simps [simp]:
  "q_start (demo_mq h t f) = 1000" "q_head (demo_mq h t f) = h" "q_tail (demo_mq h t f) = t"
  "q_flag (demo_mq h t f) = f" "q_size_of_block (demo_mq h t f) = 4" "q_num_of_blocks (demo_mq h t f) = 2"
  "q_write_task (demo_mq h t f) = NULL" "q_read_task (demo_mq h t f) = NULL" "q_slots (demo_mq h t f) = 3"
  by (simp_all add: demo_mq_def q_slots_def)

lemma demo_queue_simps [simp]:
  "mqueues demo_queue = [500 \<mapsto> demo_mq 1004 1000 0, 501 \<mapsto> demo_mq 1000 1000 8,
       502 \<mapsto> demo_mq 1008 1000 0, 503 \<mapsto> demo_mq 1000 1000 3]"
  "tasks demo_queue = tasks demo_ready" "task_ready_head demo_queue = Some 1"
  "curr_running_task demo_queue = Some 1" "mem demo_queue = (\<lambda>x. of_nat x)"
  by (simp_all add: demo_queue_def)

lemma demo_queue_ready: "ready_queue demo_queue [1, 2, 3]"
  using demo_ready_queue ready_queue_cong [of demo_queue demo_ready] by simp

abbreviation demo_msg :: "nat \<Rightarrow> 8 word list" where
  "demo_msg p \<equiv> block_at demo_queue p 4"

lemma demo_rings:
  "ring_holds demo_queue (demo_mq 1004 1000 0) 0 [demo_msg 1000]"
  "ring_holds demo_queue (demo_mq 1000 1000 8) 0 []"
  "ring_holds demo_queue (demo_mq 1008 1000 0) 0 [demo_msg 1000, demo_msg 1004]"
  "ring_holds demo_queue (demo_mq 1000 1000 3) 0 [demo_msg 1000, demo_msg 1004, demo_msg 1008]"
  by (auto simp: ring_holds_def RX_QUEUE_FULL_def less_Suc_eq)



text \<open>
  C12. \<^verbatim>\<open>rx_read_from_queue\<close> refines taking the oldest message: from a queue that holds
  \<open>m # msgs\<close> and has no blocked reader or writer, into a buffer outside the ring, it returns
  OS_OK with \<open>m\<close> in the buffer, and the queue holds \<open>msgs\<close>. So messages come out in the order in
  which they were written.
\<close>

theorem queue_read_oldest:
  assumes "mqueues s a = Some q" and "ring_holds s q t (m # msgs)"
    and "q_read_task q = NULL" and "q_write_task q = NULL"
    and "buf + nat (q_size_of_block q) \<le> q_start q \<or>
         q_start q + nat (q_size_of_block q) * q_slots q \<le> buf"
  shows "\<exists>s'. rx_read_from_queue (Some a) (Some buf) (q_size_of_block q) timeout timer s =
                Some (Returns OS_OK, s') \<and>
              block_at s' buf (nat (q_size_of_block q)) = m \<and> queue_holds s' a msgs \<and> tasks s' = tasks s"
  using read_oldest_spec [OF assms, of timeout timer] by (auto simp: Let_def queue_holds_def)

theorem queue_read_oldest_witness:
  "\<exists>s'. rx_read_from_queue (Some 502) (Some 2000) 4 0 NULL demo_queue = Some (Returns OS_OK, s') \<and>
        block_at s' 2000 4 = demo_msg 1000 \<and> queue_holds s' 502 [demo_msg 1004]"
  using queue_read_oldest [of demo_queue 502 _ _ _ _ 2000 0 NULL, OF _ demo_rings(3)] by auto

text \<open>
  The ring is one block larger than the buffer: when the \<open>num_of_blocks\<close> blocks are
  all in use the write pointer stands at the first byte behind the buffer, and the next write
  still returns OS_OK and stores its message there.
\<close>

theorem queue_write_overruns:
  assumes "mqueues s a = Some q" and "ring_holds s q 0 msgs"
    and "length msgs = nat (q_num_of_blocks q)" and "q_read_task q = NULL"
  shows "\<exists>s'. rx_write_to_queue (Some a) (Some buf) (q_size_of_block q) timeout timer s =
                Some (Returns OS_OK, s') \<and>
              block_at s' (q_start q + nat (q_size_of_block q * q_num_of_blocks q))
                (nat (q_size_of_block q)) = block_at s buf (nat (q_size_of_block q))"
proof -
  have pos: "0 < q_size_of_block q" "0 < q_num_of_blocks q"
    using assms(2) by (auto simp: ring_holds_def)
  have room: "length msgs < q_slots q" using assms(3) by (simp add: q_slots_def)
  then have h: "q_head q = q_start q + nat (q_size_of_block q * q_num_of_blocks q)"
    using assms(2,3) pos by (simp add: ring_holds_def nat_mult_distrib)
  let ?s' = "rx_exit_critical ((memcpy_mem (q_head q) buf (nat (q_size_of_block q)) (rx_enter_critical s))
               \<lparr>mqueues := (mqueues s)(a \<mapsto> q_written q)\<rparr>)"
  have "rx_write_to_queue (Some a) (Some buf) (q_size_of_block q) timeout timer s = Some (Returns OS_OK, ?s')"
    using write_room_spec [OF assms(1)] ring_not_full [OF assms(2) room] assms(1,4)
      write_deliver_eq [of "rx_enter_critical s" a q buf] by auto
  moreover have "block_at ?s' (q_head q) (nat (q_size_of_block q)) = block_at s buf (nat (q_size_of_block q))"
    using block_at_memcpy [of "q_head q" buf "nat (q_size_of_block q)" s] by (simp add: block_at_def)
  ultimately show ?thesis using h by auto
qed

theorem queue_write_overruns_witness:
  "\<exists>s'. rx_write_to_queue (Some 502) (Some 2000) 4 0 NULL demo_queue = Some (Returns OS_OK, s') \<and>
        block_at s' 1008 4 = demo_msg 2000"
  using queue_write_overruns [of demo_queue 502 _ _ 2000 0 NULL, OF _ demo_rings(3)] by auto

text \<open>
  A full cyclic queue does not drop its oldest message: a write moves the head past the
  tail, after which the queue holds nothing but the new message.
\<close>

theorem queue_cyclic_drops_all:
  assumes "mqueues s a = Some q" and "ring_holds s q t msgs" and "length msgs = q_slots q"
    and "q_flag q AND RX_Q_CYCLIC_FULL \<noteq> 0" and "q_read_task q = NULL"
  shows "\<exists>s'. rx_write_to_queue (Some a) (Some buf) (q_size_of_block q) timeout timer s =
                Some (Returns OS_OK, s') \<and>
              queue_holds s' a [block_at s buf (nat (q_size_of_block q))]"
proof -
  let ?z = "nat (q_size_of_block q)" and ?N = "q_slots q"
  let ?sm = "memcpy_mem (q_head q) buf ?z s"
  let ?s' = "rx_exit_critical ((memcpy_mem (q_head q) buf ?z (rx_enter_critical s))
               \<lparr>mqueues := (mqueues s)(a \<mapsto> q_written q)\<rparr>)"
  have pos: "0 < q_size_of_block q" "0 < q_num_of_blocks q" "t < ?N" "1 < ?N"
    using assms(2) by (auto simp: ring_holds_def q_slots_def)
  have ht: "q_head q = q_start q + ?z * t" "q_tail q = q_start q + ?z * t"
    using assms(2,3) pos(3) by (auto simp: ring_holds_def)
  have adv: "q_advance q (q_head q) = q_start q + ?z * (Suc t mod ?N)"
    unfolding ht by (rule q_advance_slot [OF pos(1-3)])
  have "ring_holds ?sm (q_written q) t [block_at s buf ?z]"
    using pos ht adv block_at_memcpy [of "q_head q" buf ?z s] by (simp add: ring_holds_def)
  then have "queue_holds ?s' a [block_at s buf ?z]"
    by (rule queue_holds_after [rotated 2]) simp_all
  moreover have "rx_write_to_queue (Some a) (Some buf) (q_size_of_block q) timeout timer s =
      Some (Returns OS_OK, ?s')"
    using write_room_spec [OF assms(1)] assms(1,4,5)
      write_deliver_eq [of "rx_enter_critical s" a q buf] by auto
  ultimately show ?thesis by auto
qed

theorem queue_cyclic_drops_all_witness:
  "\<exists>s'. rx_write_to_queue (Some 503) (Some 2000) 4 0 NULL demo_queue = Some (Returns OS_OK, s') \<and>
        queue_holds s' 503 [demo_msg 2000]"
  using queue_cyclic_drops_all [of demo_queue 503 _ _ _ 2000 0 NULL, OF _ demo_rings(4)]
  by (auto simp: RX_Q_CYCLIC_FULL_def)

text \<open>A reader that blocks, and the write that wakes it.\<close>

definition mq_reader :: "rx_task \<Rightarrow> rx_task" where
  "mq_reader t = t\<lparr>t_state := RX_TASK_SUSPEND, t_err := OS_OK, t_next := NULL\<rparr>"

lemma read_blocks_spec:
  assumes q: "ready_queue s xs" and c: "curr_running_task s = Some c" "c \<in> set xs" "tasks s c = Some t"
    and rest: "remove1 c xs = h # ys"
    and m: "mqueues s a = Some mq" "q_empty mq" "q_flag mq AND RX_Q_BLOCK \<noteq> 0" "q_read_task mq = NULL"
  shows "\<exists>s'. rx_read_from_queue (Some a) (Some buf) (q_size_of_block mq) OS_NO_WAIT timer s =
                Some (Sleeps, s') \<and> curr_running_task s' = Some h \<and> ready_queue s' (h # ys) \<and>
              mqueues s' a = Some (mq\<lparr>q_read_task := Some c\<rparr>) \<and> mem s' = mem s \<and>
              tasks s' c = Some (mq_reader t)"
proof -
  let ?s1 = "rx_enter_critical s"
  let ?s2 = "?s1\<lparr>mqueues := (mqueues s)(a \<mapsto> mq\<lparr>q_read_task := Some c\<rparr>)\<rparr>"
  let ?f = "\<lambda>t. t\<lparr>t_state := RX_TASK_SUSPEND, t_err := OS_OK\<rparr>"
  let ?s3 = "?s2\<lparr>tasks := (tasks ?s2)(c \<mapsto> ?f t)\<rparr>"
  have q2: "ready_queue ?s2 xs" using q ready_queue_cong [of ?s2 ?s1] by simp
  have t2: "tasks ?s2 c = Some t" using c by simp
  obtain s4 where s4: "rx_remove_from_ready_q (Some c) ?s3 = Some (OS_OK, s4)"
    "ready_queue s4 (remove1 c xs)" "tasks s4 c = Some ((?f t)\<lparr>t_next := NULL\<rparr>)" "relinked (set xs) ?s3 s4"
    using depart_spec [where f = ?f, OF q2 c(2) t2] by auto
  let ?s5 = "rx_exit_critical s4"
  have "c \<notin> set (remove1 c xs)" using ready_queue_distinct [OF q] by simp
  then have ch: "c \<noteq> h" using rest by auto
  have q5: "ready_queue ?s5 (h # ys)" using s4(2) rest by simp
  have c5: "curr_running_task ?s5 = Some c" "tasks ?s5 c \<noteq> None"
    using relinked_fields(11) [OF s4(4)] s4(3) c by simp_all
  obtain u s' where s': "tasks ?s5 h = Some u" "sched_then (read_resume_forever (Some a) buf) ?s5 = Some (Sleeps, s')"
    "ready_queue s' (h # ys)"
    "s' = ?s5\<lparr>tasks := (tasks ?s5)(h \<mapsto> dispatched u), curr_running_task := Some h,
            need_resched := False, critical := critical ?s5 \<and> in_irq ?s5\<rparr>"
    using sched_away [OF q5 c5 ch] by blast
  have "rx_read_from_queue (Some a) (Some buf) (q_size_of_block mq) OS_NO_WAIT timer s = Some (Sleeps, s')"
    using m c s4(1) s'(2) by (simp add: rx_read_from_queue_def OS_NO_WAIT_def)
  moreover have "mqueues s' a = Some (mq\<lparr>q_read_task := Some c\<rparr>)" "mem s' = mem s"
    using s'(4) relinked_fields(6,10) [OF s4(4)] by simp_all
  moreover have "tasks s' c = Some (mq_reader t)" using s'(4) s4(3) ch by (simp add: mq_reader_def)
  ultimately show ?thesis using s'(3,4) by auto
qed

lemma write_wakes_reader_spec:
  assumes q: "ready_queue s xs" and m: "mqueues s a = Some mq" "ring_holds s mq t msgs"
    "length msgs < q_slots mq" "q_read_task mq = Some r"
    and r: "r \<notin> set xs" "tasks s r = Some tr" "t_timer tr = NULL"
  shows "\<exists>s' n. rx_write_to_queue (Some a) (Some buf) (q_size_of_block mq) timeout timer s =
                Some (Returns OS_OK, s') \<and>
              mqueues s' a = Some ((q_written mq)\<lparr>q_read_task := NULL\<rparr>) \<and>
              queue_holds s' a (msgs @ [block_at s buf (nat (q_size_of_block mq))]) \<and>
              ready_queue s' (insert_prio (task_prio s) r xs) \<and>
              tasks s' r = Some (tr\<lparr>t_state := RX_TASK_READY, t_mq := NULL, t_next := n\<rparr>) \<and>
              (\<forall>b. b \<noteq> r \<longrightarrow> same_but_next (tasks s b) (tasks s' b)) \<and>
              curr_running_task s' = curr_running_task s \<and> in_irq s' = in_irq s \<and>
              jiffies s' = jiffies s"
proof -
  let ?z = "nat (q_size_of_block mq)"
  let ?sm = "memcpy_mem (q_head mq) buf ?z s"
  let ?s3 = "(memcpy_mem (q_head mq) buf ?z (rx_enter_critical s))\<lparr>mqueues := (mqueues s)(a \<mapsto> q_written mq)\<rparr>"
  let ?f = "\<lambda>t. t\<lparr>t_state := RX_TASK_READY, t_mq := NULL\<rparr>"
  let ?sb = "?s3\<lparr>tasks := (tasks ?s3)(r \<mapsto> ?f tr)\<rparr>"
  have q3: "ready_queue ?s3 xs" using q ready_queue_cong [of ?s3 s] by simp
  have r3: "tasks ?s3 r = Some tr" using r by simp
  obtain sc where sc: "rx_add_to_ready_q (Some r) ?sb = Some (OS_OK, sc)"
    "ready_queue sc (insert_prio (task_prio ?sb) r xs)" "relinked (insert r (set xs)) ?sb sc"
    using wake_spec [OF q3 r(1) r3, of ?f] by auto
  let ?q' = "(q_written mq)\<lparr>q_read_task := NULL\<rparr>"
  let ?s4 = "sc\<lparr>mqueues := (mqueues sc)(a \<mapsto> ?q')\<rparr>"
  have mc: "mqueues sc a = Some (q_written mq)" "mem sc = mem ?sm"
    using relinked_fields(6,10) [OF sc(3)] by simp_all
  have "\<not> (q_head mq = q_tail mq \<and> q_flag mq AND RX_QUEUE_FULL \<noteq> 0 \<and> q_flag mq AND RX_Q_CYCLIC_FULL = 0)"
    using ring_not_full [OF m(2,3)] by auto
  then have "rx_write_to_queue (Some a) (Some buf) (q_size_of_block mq) timeout timer s =
      Some (Returns OS_OK, rx_exit_critical ?s4)"
    using write_room_spec [OF m(1)] m(1,4) unlink_no_timer [OF r3 r(3)] r3 sc(1) mc(1)
      write_deliver_eq [of "rx_enter_critical s" a mq buf] by simp
  moreover have "ring_holds (rx_exit_critical ?s4) ?q' t (msgs @ [block_at s buf ?z])"
    using ring_write [OF m(2,3), of buf] ring_holds_cong [of "rx_exit_critical ?s4" ?sm ?q' "q_written mq"] mc(2)
    by (simp add: q_written_def Let_def)
  then have "queue_holds (rx_exit_critical ?s4) a (msgs @ [block_at s buf ?z])"
    by (auto simp: queue_holds_def)
  moreover have "task_prio ?sb b = task_prio s b" for b using r(2) by (simp add: task_prio_def)
  then have "insert_prio (task_prio ?sb) r xs = insert_prio (task_prio s) r xs"
    by (intro insert_prio_cong) simp
  then have "ready_queue (rx_exit_critical ?s4) (insert_prio (task_prio s) r xs)"
    using sc(2) ready_queue_cong [of ?s4 sc] by simp
  moreover obtain n where "tasks sc r = Some ((?f tr)\<lparr>t_next := n\<rparr>)"
    using relinked_task [OF sc(3), of r] by auto
  moreover have "same_but_next (tasks s b) (tasks sc b)" if "b \<noteq> r" for b
    using relinked_same [OF sc(3), of b] that by simp
  moreover have "curr_running_task sc = curr_running_task s" "in_irq sc = in_irq s" "jiffies sc = jiffies s"
    using relinked_fields(11,14,18) [OF sc(3)] by (simp_all add: memcpy_mem_def critical_eqs)
  ultimately show ?thesis by (intro exI [of _ "rx_exit_critical ?s4"] exI [of _ n]) (simp add: exit_critical_eq)
qed



text \<open>
  A timed read that times out leaves its caller registered as the reader: the next read
  on the queue, by the same or another task, returns E_OS_BUSY without looking at the queue.
\<close>

theorem queue_read_timeout_busy:
  assumes "mqueues s a = Some mq" and "q_empty mq" and "q_read_task mq = Some c"
    and "sz = q_size_of_block mq"
  shows "\<exists>s1 s2. read_resume_timed (Some a) buf s = Some (Returns E_OS_TIMEOUT, s1) \<and>
           rx_read_from_queue (Some a) (Some buf') sz timeout timer s1 = Some (Returns E_OS_BUSY, s2)"
  using assms by (simp add: read_resume_timed_def rx_read_from_queue_def)

theorem queue_read_timeout_busy_witness:
  "\<exists>s1 s2. read_resume_timed (Some 7) 2000
       (demo_queue\<lparr>mqueues := [7 \<mapsto> (demo_mq 1000 1000 8)\<lparr>q_read_task := Some 1\<rparr>]\<rparr>) =
         Some (Returns E_OS_TIMEOUT, s1) \<and>
     rx_read_from_queue (Some 7) (Some 2000) 4 10 NULL s1 = Some (Returns E_OS_BUSY, s2)"
  using queue_read_timeout_busy [of "demo_queue\<lparr>mqueues := [7 \<mapsto> (demo_mq 1000 1000 8)\<lparr>q_read_task := Some 1\<rparr>]\<rparr>"
      7 "(demo_mq 1000 1000 8)\<lparr>q_read_task := Some 1\<rparr>" 1 4 2000 2000 10 NULL]
  by (simp add: q_empty_def RX_QUEUE_FULL_def)

end
