(* ===== verification/RX_Event.thy ===== *)
theory RX_Event
  imports RX_Wait RX_Queue
begin

text \<open>
  Event groups and the system event thread (\<^verbatim>\<open>kernel/rx_event.c\<close>). A notification is
  packed into a message of eight bytes and written to the system event queue; the event thread
  reads it and wakes the tasks that wait for one of its flags.
\<close>

unbundle bit_operations_syntax

section \<open>Event groups\<close>

definition rx_create_event_group :: "ptr \<Rightarrow> kstate \<Rightarrow> (int \<times> kstate) option" where
  "rx_create_event_group event s =
     do { s1 \<leftarrow> upd_egroup event (\<lambda>e. e\<lparr>e_task := NULL, e_next := NULL\<rparr>) (rx_enter_critical s);
          Some (OS_OK, rx_exit_critical s1) }"

definition egroup_head :: "addr \<Rightarrow> kstate \<Rightarrow> ptr option" where
  "egroup_head a s = map_option e_task (egroups s a)"

definition set_egroup_head :: "addr \<Rightarrow> ptr \<Rightarrow> kstate \<Rightarrow> kstate option" where
  "set_egroup_head a p s = upd_egroup (Some a) (\<lambda>x. x\<lparr>e_task := p\<rparr>) s"

definition event_release :: "ptr \<Rightarrow> kstate \<Rightarrow> kstate option" where
  "event_release p s = upd_task p (\<lambda>t. t\<lparr>t_state := RX_TASK_READY, t_event := NULL\<rparr>) s"

definition rx_delete_event_group :: "ptr \<Rightarrow> kstate \<Rightarrow> kstate option" where
  "rx_delete_event_group p s =
     do { a \<leftarrow> p;
          s1 \<leftarrow> wake_all (egroup_head a) (set_egroup_head a) event_release (rx_enter_critical s);
          Some (rx_exit_critical s1) }"

definition rx_set_event_flag :: "32 word \<Rightarrow> kstate \<Rightarrow> (int \<times> kstate) option" where
  "rx_set_event_flag flag s =
     do { s1 \<leftarrow> upd_task (curr_running_task s) (\<lambda>t. t\<lparr>t_event_flag := t_event_flag t OR flag\<rparr>) s;
          Some (OS_OK, s1) }"

definition rx_clear_event_flag :: "32 word \<Rightarrow> kstate \<Rightarrow> (int \<times> kstate) option" where
  "rx_clear_event_flag flag s =
     do { s1 \<leftarrow> upd_task (curr_running_task s)
                  (\<lambda>t. t\<lparr>t_event_flag := t_event_flag t AND NOT flag,
                         t_event_recv := t_event_recv t AND NOT flag\<rparr>) s;
          Some (OS_OK, s1) }"

text \<open>
  \<^verbatim>\<open>while(tmp) tmp = tmp->next;\<close> runs off the end of the list; the assignment
  \<^verbatim>\<open>tmp = __rx_curr_running_task\<close> behind it only changes the local variable.
\<close>

partial_function (option) run_off :: "links \<Rightarrow> ptr \<Rightarrow> unit option" where
  "run_off nx p = (case p of None \<Rightarrow> Some () | Some a \<Rightarrow> do { n \<leftarrow> nx a; run_off nx n })"

definition event_received :: "kstate \<Rightarrow> (32 word call \<times> kstate) option" where
  "event_received s =
     do { t \<leftarrow> deref (tasks s) (curr_running_task s); Some (Returns (t_event_recv t), s) }"

definition rx_wait_event_group :: "ptr \<Rightarrow> 32 word \<Rightarrow> kstate \<Rightarrow> (32 word call \<times> kstate) option" where
  "rx_wait_event_group p flag s =
     do { let s1 = rx_enter_critical s;
          s2 \<leftarrow> upd_task (curr_running_task s1)
                  (\<lambda>t. t\<lparr>t_event_flag := t_event_flag t OR flag, t_state := RX_TASK_SUSPEND,
                         t_event := p\<rparr>) s1;
          (_, s3) \<leftarrow> rx_remove_from_ready_q (curr_running_task s2) s2;
          s4 \<leftarrow> set_task_next (curr_running_task s3) NULL s3;
          e \<leftarrow> deref (egroups s4) p;
          s5 \<leftarrow> (if e_task e = NULL
                 then upd_egroup p (\<lambda>x. x\<lparr>e_task := curr_running_task s4\<rparr>) s4
                 else do { _ \<leftarrow> run_off (task_next s4) (e_task e); Some s4 });
          sched_then event_received (rx_exit_critical s5) }"

text \<open>The loop of \<^verbatim>\<open>rx_process_event\<close> over the waiters of a group.\<close>

partial_function (option) process_waiters ::
    "addr \<Rightarrow> 32 word \<Rightarrow> ptr \<Rightarrow> ptr \<Rightarrow> kstate \<Rightarrow> kstate option" where
  "process_waiters head flag prev start s =
     (case start of
        None \<Rightarrow> Some s
      | Some a \<Rightarrow>
          do { t \<leftarrow> tasks s a;
               (if t_event_flag t AND flag \<noteq> 0 then
                  do { s1 \<leftarrow> upd_task start (\<lambda>u. u\<lparr>t_event_recv := flag, t_state := RX_TASK_READY,
                                                 t_event := NULL, t_next := NULL\<rparr>) s;
                       u \<leftarrow> tasks s1 a;
                       e \<leftarrow> egroups s1 head;
                       (if start = e_task e then
                          do { s2 \<leftarrow> set_egroup_head head (t_next u) s1;
                               (_, s3) \<leftarrow> rx_add_to_ready_q start s2;
                               e3 \<leftarrow> egroups s3 head;
                               (case e_task e3 of
                                  None \<Rightarrow> Some s3
                                | Some n \<Rightarrow>
                                    do { tn \<leftarrow> tasks s3 n;
                                         process_waiters head flag (Some n) (t_next tn) s3 }) }
                        else
                          do { s2 \<leftarrow> set_task_next prev (t_next u) s1;
                               (_, s3) \<leftarrow> rx_add_to_ready_q start s2;
                               tp \<leftarrow> deref (tasks s3) prev;
                               process_waiters head flag prev (t_next tp) s3 }) }
                else process_waiters head flag start (t_next t) s) })"

definition rx_process_event :: "ptr \<Rightarrow> 32 word \<Rightarrow> kstate \<Rightarrow> (int \<times> kstate) option" where
  "rx_process_event head flag s =
     do { s1 \<leftarrow> rx_wake (rx_enter_critical s);
          (case head of
             None \<Rightarrow> Some (OS_ERR, rx_exit_critical s1)
           | Some h \<Rightarrow>
               do { e \<leftarrow> egroups s1 h;
                    s2 \<leftarrow> process_waiters h flag (e_task e) (e_task e) s1;
                    Some (OS_OK, rx_exit_critical s2) }) }"


section \<open>The event queue\<close>

text \<open>
  \<^verbatim>\<open>struct event\<close> as it lies in memory: a pointer and a flag word, four bytes each, least
  significant byte first. A NULL pointer is the word 0.
\<close>

definition rx_event_recv_q :: addr where "rx_event_recv_q = 0"

definition CONFIG_SYS_EVENT_QUEUE_BLOCKS :: int where "CONFIG_SYS_EVENT_QUEUE_BLOCKS = 8"

definition sizeof_event :: int where "sizeof_event = 8"

definition word_bytes :: "32 word \<Rightarrow> 8 word list" where
  "word_bytes w = [ucast w, ucast (drop_bit 8 w), ucast (drop_bit 16 w), ucast (drop_bit 24 w)]"

definition bytes_word :: "8 word list \<Rightarrow> 32 word" where
  "bytes_word bs = foldr (\<lambda>b w. push_bit 8 w OR ucast b) bs 0"

definition ptr_word :: "ptr \<Rightarrow> 32 word" where
  "ptr_word p = (case p of None \<Rightarrow> 0 | Some a \<Rightarrow> of_nat a)"

definition word_ptr :: "32 word \<Rightarrow> ptr" where
  "word_ptr w = (if w = 0 then NULL else Some (unat w))"

definition event_bytes :: "ptr \<Rightarrow> 32 word \<Rightarrow> 8 word list" where
  "event_bytes p flag = word_bytes (ptr_word p) @ word_bytes flag"

definition bytes_event :: "8 word list \<Rightarrow> ptr \<times> 32 word" where
  "bytes_event bs = (word_ptr (bytes_word (take 4 bs)), bytes_word (drop 4 bs))"

definition store_bytes :: "nat \<Rightarrow> 8 word list \<Rightarrow> kstate \<Rightarrow> kstate" where
  "store_bytes p bs s =
     s\<lparr>mem := (\<lambda>x. if p \<le> x \<and> x < p + length bs then bs ! (x - p) else mem s x)\<rparr>"

text \<open>
  \<open>e\<close> is the address of the local variable of \<^verbatim>\<open>rx_notify_event\<close> and of the event
  thread, \<open>start\<close> that of the array \<^verbatim>\<open>rx_event_recv_q_start\<close>.
\<close>

definition rx_notify_event :: "nat \<Rightarrow> ptr \<Rightarrow> ptr \<Rightarrow> 32 word \<Rightarrow> kstate \<Rightarrow> (int call \<times> kstate) option" where
  "rx_notify_event e timer eg flag s =
     rx_write_to_queue (Some rx_event_recv_q) (Some e) sizeof_event OS_WAIT_FOREVER timer
       (store_bytes e (event_bytes eg flag) s)"

definition event_thread_init :: "nat \<Rightarrow> kstate \<Rightarrow> (int \<times> kstate) option" where
  "event_thread_init start s =
     rx_create_queue (Some rx_event_recv_q) ''event_q'' sizeof_event CONFIG_SYS_EVENT_QUEUE_BLOCKS
       start (RX_Q_BLOCK OR RX_Q_CYCLIC_FULL) s"

text \<open>
  One turn of the loop of \<^verbatim>\<open>rx_event_thread\<close>: the read, and the code behind it, which
  unpacks the message and processes it.
\<close>

definition event_thread_process :: "nat \<Rightarrow> kstate \<Rightarrow> (int call \<times> kstate) option" where
  "event_thread_process e s =
     (let (p, flag) = bytes_event (block_at s e (nat sizeof_event))
      in do { (r, s1) \<leftarrow> rx_process_event p flag s; Some (Returns r, s1) })"

definition event_thread_turn :: "nat \<Rightarrow> ptr \<Rightarrow> kstate \<Rightarrow> (int call \<times> kstate) option" where
  "event_thread_turn e timer s =
     after_call (event_thread_process e)
       (rx_read_from_queue (Some rx_event_recv_q) (Some e) sizeof_event OS_NO_WAIT timer s)"


section \<open>The group as a waiting list\<close>

definition egroup_rest :: "addr \<Rightarrow> kstate \<Rightarrow> (addr \<rightharpoonup> event_group)" where
  "egroup_rest a s = (egroups s)(a := map_option (\<lambda>x. x\<lparr>e_task := NULL\<rparr>) (egroups s a))"

interpretation egroup_q: waiter_queue "egroup_head a" "set_egroup_head a" "egroup_rest a" for a
  by unfold_locales (auto simp: egroup_head_def set_egroup_head_def egroup_rest_def outside_objects_def)

section \<open>Packing and unpacking\<close>

lemma bytes_word_bytes: "bytes_word (word_bytes w) = w"
proof (rule bit_word_eqI)
  fix n assume "n < LENGTH(32)"
  then have n: "n < 32" by simp
  show "bit (bytes_word (word_bytes w)) n = bit w n"
    using n
    by (cases "n < 8"; cases "n < 16"; cases "n < 24")
      (auto simp: bytes_word_def word_bytes_def bit_or_iff bit_push_bit_iff bit_ucast_iff bit_drop_bit_eq
        dest: bit_imp_le_length)
qed

lemma length_word_bytes [simp]: "length (word_bytes w) = 4"
  by (simp add: word_bytes_def)

definition valid_ptr :: "ptr \<Rightarrow> bool" where
  "valid_ptr p = (case p of None \<Rightarrow> True | Some a \<Rightarrow> 0 < a \<and> a < 2 ^ 32)"

lemma word_ptr_word: "valid_ptr p \<Longrightarrow> word_ptr (ptr_word p) = p"
proof (cases p)
  case (Some a)
  assume "valid_ptr p"
  then have a: "0 < a" "a < 2 ^ 32" using Some by (simp_all add: valid_ptr_def)
  then have "unat (of_nat a :: 32 word) = a" by (simp add: unat_of_nat)
  then show ?thesis using Some a by (auto simp: ptr_word_def word_ptr_def)
qed (simp add: ptr_word_def word_ptr_def)

lemma bytes_event_bytes: "valid_ptr p \<Longrightarrow> bytes_event (event_bytes p flag) = (p, flag)"
  by (simp add: bytes_event_def event_bytes_def bytes_word_bytes word_ptr_word)

lemma block_at_store: "block_at (store_bytes p bs s) p (length bs) = bs"
  by (rule nth_equalityI) (simp_all add: block_at_def store_bytes_def)


section \<open>Waiting and processing\<close>

lemma run_off_lst: "lst nx p xs \<Longrightarrow> run_off nx p = Some ()"
proof (induction xs arbitrary: p)
  case Nil
  then show ?case by (subst run_off.simps) simp
next
  case (Cons a xs)
  then show ?case by (subst run_off.simps) auto
qed

definition event_sleeper :: "addr \<Rightarrow> 32 word \<Rightarrow> rx_task \<Rightarrow> rx_task" where
  "event_sleeper a flag t =
     t\<lparr>t_event_flag := t_event_flag t OR flag, t_state := RX_TASK_SUSPEND, t_event := Some a,
       t_next := NULL\<rparr>"

text \<open>
  Whatever the list holds, the caller leaves the ready queue; it becomes a member of the list
  only if the list was empty.
\<close>

lemma wait_event_spec:
  assumes q: "ready_queue s xs" and w: "waiting (egroup_head a) s ws" and dj: "set xs \<inter> set ws = {}"
    and c: "curr_running_task s = Some c" "c \<in> set xs" "tasks s c = Some t"
    and rest: "remove1 c xs = h # ys"
  shows "\<exists>s'. rx_wait_event_group (Some a) flag s = Some (Sleeps, s') \<and> curr_running_task s' = Some h \<and>
              ready_queue s' (h # ys) \<and>
              waiting (egroup_head a) s' (if ws = [] then [c] else ws) \<and>
              tasks s' c = Some (event_sleeper a flag t) \<and> sys_wait_list s' = sys_wait_list s \<and>
              mqueues s' = mqueues s \<and> mem s' = mem s"
proof -
  let ?s1 = "rx_enter_critical s"
  let ?f = "\<lambda>t. t\<lparr>t_event_flag := t_event_flag t OR flag, t_state := RX_TASK_SUSPEND, t_event := Some a\<rparr>"
  let ?s2 = "?s1\<lparr>tasks := (tasks ?s1)(c \<mapsto> ?f t)\<rparr>"
  have q1: "ready_queue ?s1 xs" and t1: "tasks ?s1 c = Some t" using q c by simp_all
  obtain s3 where s3: "rx_remove_from_ready_q (Some c) ?s2 = Some (OS_OK, s3)"
    "ready_queue s3 (remove1 c xs)" "tasks s3 c = Some ((?f t)\<lparr>t_next := NULL\<rparr>)" "relinked (set xs) ?s2 s3"
    using depart_spec [where f = ?f, OF q1 c(2) t1] by auto
  have cw: "c \<notin> set ws" using c(2) dj by auto
  have w2: "waiting (egroup_head a) ?s2 ws"
    using w egroup_q.waiting_upd_absent [OF cw, of a ?s1 "?f t"] by simp
  have w3: "waiting (egroup_head a) s3 ws"
    by (rule egroup_q.waiting_relinked [OF w2 s3(4)]) (use dj in auto)
  have c3: "curr_running_task s3 = Some c" using relinked_fields(11) [OF s3(4)] c by simp
  obtain e where e: "egroups s3 a = Some e" "lst (task_next s3) (e_task e) ws"
    using w3 by (auto simp: waiting_def egroup_head_def)
  let ?e' = "e\<lparr>e_task := Some c\<rparr>"
  let ?s5 = "if ws = [] then s3\<lparr>egroups := (egroups s3)(a \<mapsto> ?e')\<rparr> else s3"
  have en: "e_task e = NULL \<longleftrightarrow> ws = []" using e(2) by (cases ws) auto
  have q5: "ready_queue (rx_exit_critical ?s5) (h # ys)"
    using s3(2) rest ready_queue_cong [of "s3\<lparr>egroups := (egroups s3)(a \<mapsto> ?e')\<rparr>" s3] by auto
  have c5: "curr_running_task (rx_exit_critical ?s5) = Some c" "tasks (rx_exit_critical ?s5) c \<noteq> None"
    using c3 s3(3) by auto
  have "c \<notin> set (remove1 c xs)" using ready_queue_distinct [OF q] by simp
  then have ch: "c \<noteq> h" using rest by auto
  obtain u s' where s': "tasks (rx_exit_critical ?s5) h = Some u"
    "sched_then event_received (rx_exit_critical ?s5) = Some (Sleeps, s')" "ready_queue s' (h # ys)"
    "s' = (rx_exit_critical ?s5)\<lparr>tasks := (tasks (rx_exit_critical ?s5))(h \<mapsto> dispatched u),
            curr_running_task := Some h, need_resched := False,
            critical := critical (rx_exit_critical ?s5) \<and> in_irq (rx_exit_critical ?s5)\<rparr>"
    using sched_away [OF q5 c5 ch] by blast
  have run: "rx_wait_event_group (Some a) flag s = Some (Sleeps, s')"
    using c t1 s3(1,3) c3 e s'(2) en clear_next_idem [OF s3(3)] run_off_lst [OF e(2)]
    by (cases "ws = []") (auto simp: rx_wait_event_group_def)
  have "waiting (egroup_head a) ?s5 (if ws = [] then [c] else ws)"
    using w3 s3(3) by (auto simp: waiting_def egroup_head_def task_next_def)
  then have "waiting (egroup_head a) s' (if ws = [] then [c] else ws)"
    unfolding s'(4) by (intro egroup_q.waiting_sched [OF _ s'(1)]) simp
  moreover have "tasks s' c = Some (event_sleeper a flag t)"
    using s'(4) s3(3) ch by (auto simp: event_sleeper_def)
  moreover have "sys_wait_list s' = sys_wait_list s" "mqueues s' = mqueues s" "mem s' = mem s"
    using s'(4) relinked_fields(6,10,16) [OF s3(4)] by auto
  ultimately show ?thesis using run s'(3,4) by auto
qed

definition event_woken :: "32 word \<Rightarrow> rx_task \<Rightarrow> rx_task" where
  "event_woken flag t =
     t\<lparr>t_event_recv := flag, t_state := RX_TASK_READY, t_event := NULL, t_next := NULL\<rparr>"

lemma rx_wake_nothing: "sys_wait_list s = NULL \<Longrightarrow> rx_wake s = Some s"
  by (simp add: rx_wake_def, subst wake_queues.simps) simp

text \<open>Processing an event for which the first waiter of the group waits.\<close>

lemma process_first_spec:
  assumes q: "ready_queue s xs" and w: "waiting (egroup_head a) s (w # ws)"
    and dj: "set (w # ws) \<inter> set xs = {}" and t: "tasks s w = Some t" "t_event_flag t AND flag \<noteq> 0"
    and sy: "sys_wait_list s = NULL"
  shows "\<exists>s' n. rx_process_event (Some a) flag s = Some (OS_OK, s') \<and>
              ready_queue s' (insert_prio (task_prio s) w xs) \<and>
              tasks s' w = Some ((event_woken flag t)\<lparr>t_next := n\<rparr>) \<and>
              waiting (egroup_head a) s' [] \<and> curr_running_task s' = curr_running_task s"
proof -
  let ?s0 = "rx_enter_critical s"
  obtain e where e: "egroups s a = Some e" "e_task e = Some w"
    using waiting_hd(1) [OF w] by (auto simp: egroup_head_def)
  let ?s1 = "?s0\<lparr>tasks := (tasks s)(w \<mapsto> event_woken flag t)\<rparr>"
  let ?s2 = "?s1\<lparr>egroups := (egroups s)(a \<mapsto> e\<lparr>e_task := NULL\<rparr>)\<rparr>"
  have wx: "w \<notin> set xs" using dj by auto
  let ?sx = "?s0\<lparr>egroups := (egroups s)(a \<mapsto> e\<lparr>e_task := NULL\<rparr>)\<rparr>"
  have qx: "ready_queue ?sx xs" using q ready_queue_cong [of ?sx ?s0] by simp
  have tx: "tasks ?sx w = Some t" using t by simp
  have s2: "?s2 = ?sx\<lparr>tasks := (tasks ?sx)(w \<mapsto> event_woken flag t)\<rparr>" by simp
  have wnil: "waiting (egroup_head a) ?sx []" by (simp add: waiting_def egroup_head_def)
  obtain s3 n where s3: "rx_add_to_ready_q (Some w) ?s2 = Some (OS_OK, s3)"
    "ready_queue s3 (insert_prio (task_prio ?s2) w xs)" "waiting (egroup_head a) s3 []"
    "tasks s3 w = Some ((event_woken flag t)\<lparr>t_next := n\<rparr>)" "relinked (insert w (set xs)) ?s2 s3"
    using egroup_q.ready_waiter [where g = "event_woken flag", OF wnil qx _ _ wx tx] unfolding s2
    by (auto simp: event_woken_def)
  have e3: "egroup_head a s3 = Some NULL" using s3(3) by (auto simp: waiting_def)
  then obtain e3 where "egroups s3 a = Some e3" "e_task e3 = NULL" by (auto simp: egroup_head_def)
  then have "process_waiters a flag (Some w) (Some w) ?s0 = Some s3"
    using t e s3(1) by (subst process_waiters.simps) (simp add: set_egroup_head_def event_woken_def)
  then have run: "rx_process_event (Some a) flag s = Some (OS_OK, rx_exit_critical s3)"
    using e sy rx_wake_nothing [of ?s0] by (simp add: rx_process_event_def)
  have "task_prio ?s2 b = task_prio s b" for b using t(1) by (simp add: task_prio_def event_woken_def)
  then have "insert_prio (task_prio ?s2) w xs = insert_prio (task_prio s) w xs"
    by (intro insert_prio_cong) simp
  then show ?thesis using run s3 relinked_fields(11) [OF s3(5)]
    by (intro exI [of _ "rx_exit_critical s3"] exI [of _ n]) simp
qed

section \<open>Properties\<close>

text \<open>
  A concrete state for the examples: task 5 waits for flag 1 on event group 600; the event
  queue is empty, its ring is at 1000.
\<close>

definition demo_event_q :: msg_queue where
  "demo_event_q = \<lparr>q_name = ''event_q'', q_start = 1000, q_head = 1000, q_tail = 1000, q_flag = 10,
     q_size_of_block = 8, q_num_of_blocks = 8, q_write_task = NULL, q_read_task = NULL\<rparr>"

definition demo_event :: kstate where
  "demo_event = demo_ready\<lparr>
     tasks := (tasks demo_ready)(5 \<mapsto> (demo_task RX_TASK_SUSPEND 5 NULL)\<lparr>t_event_flag := 1, t_event := Some 600\<rparr>),
     egroups := [600 \<mapsto> \<lparr>e_task = Some 5, e_next = NULL\<rparr>],
     mqueues := [0 \<mapsto> demo_event_q]\<rparr>"

lemma demo_event_simps [simp]:
  "tasks demo_event = (tasks demo_ready)(5 \<mapsto> (demo_task RX_TASK_SUSPEND 5 NULL)\<lparr>t_event_flag := 1, t_event := Some 600\<rparr>)"
  "egroups demo_event = [600 \<mapsto> \<lparr>e_task = Some 5, e_next = NULL\<rparr>]" "sys_wait_list demo_event = NULL"
  "mqueues demo_event = [0 \<mapsto> demo_event_q]" "curr_running_task demo_event = Some 1"
  "task_ready_head demo_event = Some 1"
  by (simp_all add: demo_event_def demo_ready_def blank_state_def)

lemma demo_event_ready: "ready_queue demo_event [1, 2, 3]"
  by (simp add: ready_queue_def runnable_def task_prio_def task_next_def)

lemma demo_event_waiting: "waiting (egroup_head 600) demo_event [5]"
  by (simp add: waiting_def egroup_head_def task_next_def)

lemma demo_event_ring: "ring_holds demo_event demo_event_q 0 []"
  by (simp add: ring_holds_def demo_event_q_def q_slots_def RX_QUEUE_FULL_def)



text \<open>
  A second task that waits on an event group is lost: it is suspended and leaves the
  ready queue, but the list of the group still holds only the first waiter, because the tail of
  the list is never written. No event can wake it.
\<close>

theorem event_second_waiter_lost:
  assumes "ready_queue s xs" and "waiting (egroup_head a) s (w # ws)" and "set xs \<inter> set (w # ws) = {}"
    and "curr_running_task s = Some c" and "c \<in> set xs" and "tasks s c = Some t"
    and "remove1 c xs = h # ys"
  shows "\<exists>s' u. rx_wait_event_group (Some a) flag s = Some (Sleeps, s') \<and>
              waiting (egroup_head a) s' (w # ws) \<and> c \<notin> set (w # ws) \<and>
              ready_queue s' (h # ys) \<and> c \<notin> set (h # ys) \<and>
              tasks s' c = Some u \<and> t_state u = RX_TASK_SUSPEND"
proof -
  have "c \<notin> set (remove1 c xs)" using ready_queue_distinct [OF assms(1)] by simp
  then have "c \<notin> set (h # ys)" using assms(7) by simp
  moreover have "c \<notin> set (w # ws)" using assms(3,5) by auto
  moreover have "t_state (event_sleeper a flag t) = RX_TASK_SUSPEND" by (simp add: event_sleeper_def)
  ultimately show ?thesis using wait_event_spec [OF assms, of flag] by (simp only: list.distinct if_False) blast
qed

theorem event_second_waiter_lost_witness:
  "\<exists>s' u. rx_wait_event_group (Some 600) 1 demo_event = Some (Sleeps, s') \<and>
     waiting (egroup_head 600) s' [5] \<and> ready_queue s' [2, 3] \<and>
     tasks s' 1 = Some u \<and> t_state u = RX_TASK_SUSPEND"
  using event_second_waiter_lost [OF demo_event_ready demo_event_waiting, of 1 _ 2 "[3]" 1] by auto

end
