(* ===== verification/RX_Tick.thy ===== *)
theory RX_Tick
  imports RX_Irq RX_Semaphore RX_Mutex RX_Event
begin

text \<open>
  The system tick: the interrupt handler of the timer and the timer thread
  (\<^verbatim>\<open>kernel/rx_timer.c\<close>, built with CONFIG_TIME_SLICE), and the simulated interrupt with
  its preemption (\<^verbatim>\<open>arch/x86/x86_sim.c\<close>, built with CONFIG_KERNEL_PREEMPT). Here the
  parts meet: the tick notifies an event through the event queue, the event thread wakes the
  timer thread, and the timer thread runs the handlers of the expired timers.
\<close>

unbundle bit_operations_syntax

section \<open>The tick\<close>

definition rx_timer_events :: addr where "rx_timer_events = 1"

definition RX_TIMER_EVENT_IRQ_EVENT :: "32 word" where "RX_TIMER_EVENT_IRQ_EVENT = 1"

definition RX_TIMER0_INT :: int where "RX_TIMER0_INT = 0"

text \<open>The part of the tick handler under \<^verbatim>\<open>#ifdef CONFIG_TIME_SLICE\<close>.\<close>

definition tick_slice :: "kstate \<Rightarrow> kstate option" where
  "tick_slice s =
     do { t \<leftarrow> deref (tasks s) (curr_running_task s);
          (if t_time_slice t > 0 then
             do { s1 \<leftarrow> upd_task (curr_running_task s) (\<lambda>t. t\<lparr>t_ticks := t_ticks t - 1\<rparr>) s;
                  t1 \<leftarrow> deref (tasks s1) (curr_running_task s1);
                  (if t_ticks t1 = 0 then
                     do { (_, s2) \<leftarrow> rx_remove_from_ready_q (curr_running_task s1) s1;
                          s3 \<leftarrow> upd_task (curr_running_task s2) (\<lambda>t. t\<lparr>t_state := RX_TASK_READY\<rparr>) s2;
                          (_, s4) \<leftarrow> rx_add_to_ready_q (curr_running_task s3) s3;
                          (if curr_running_task s4 \<noteq> task_ready_head s4
                           then Some (s4\<lparr>need_resched := True\<rparr>)
                           else upd_task (curr_running_task s4)
                                  (\<lambda>t. t\<lparr>t_ticks := t_time_slice t, t_state := RX_TASK_RUNNING\<rparr>) s4) }
                   else Some s1) }
           else Some s) }"

text \<open>\<open>e\<close> and \<open>timer\<close> are the addresses of the locals of the calls below.\<close>

definition rx_timer_tick_irq_handler ::
    "nat \<Rightarrow> ptr \<Rightarrow> int \<Rightarrow> ptr \<Rightarrow> kstate \<Rightarrow> (int call \<times> kstate) option" where
  "rx_timer_tick_irq_handler e timer irq a s =
     after_call (\<lambda>s1. do { s2 \<leftarrow> tick_slice s1; Some (Returns RX_IRQ_HANDLED, s2) })
       (rx_notify_event e timer (Some rx_timer_events) RX_TIMER_EVENT_IRQ_EVENT
          (s\<lparr>jiffies := jiffies s + 1\<rparr>))"


section \<open>The timer thread\<close>

definition run_handler ::
    "(nat \<Rightarrow> ptr \<Rightarrow> kstate \<Rightarrow> kstate option) \<Rightarrow> handler \<Rightarrow> ptr \<Rightarrow> kstate \<Rightarrow> kstate option" where
  "run_handler app h priv s =
     (case h of Wait_Handler \<Rightarrow> rx_wait_handler priv s
              | Mutex_Handler \<Rightarrow> rx_mutex_handler priv s
              | Sem_Handler \<Rightarrow> rx_sem_handler priv s
              | App_Handler n \<Rightarrow> app n priv s)"

text \<open>
  The code of the loop of \<^verbatim>\<open>rx_timer_thread\<close> behind the wait, and one turn of the loop.
  The function that installs the tick handler returns the result of \<^verbatim>\<open>rx_request_irq\<close>;
  the thread only logs a failure and goes on.
\<close>

definition timer_thread_init :: "kstate \<Rightarrow> (int \<times> kstate) option" where
  "timer_thread_init s = rx_request_irq RX_TIMER0_INT (Some Timer_Tick_Irq) 0 ''timer_irq'' NULL s"

definition timer_thread_process ::
    "(nat \<Rightarrow> ptr \<Rightarrow> kstate \<Rightarrow> kstate option) \<Rightarrow> 32 word \<Rightarrow> kstate \<Rightarrow> kstate option" where
  "timer_thread_process app event_flag s =
     do { let s1 = rx_enter_critical s;
          s3 \<leftarrow> (if event_flag AND RX_TIMER_EVENT_IRQ_EVENT = RX_TIMER_EVENT_IRQ_EVENT
                 then do { (_, s2) \<leftarrow> rx_clear_event_flag RX_TIMER_EVENT_IRQ_EVENT s1;
                           expire_timers (run_handler app) (jiffies s2) s2 }
                 else Some s1);
          Some (rx_exit_critical s3) }"

definition timer_thread_turn ::
    "(nat \<Rightarrow> ptr \<Rightarrow> kstate \<Rightarrow> kstate option) \<Rightarrow> kstate \<Rightarrow> (unit call \<times> kstate) option" where
  "timer_thread_turn app s =
     do { (c, s1) \<leftarrow> rx_wait_event_group (Some rx_timer_events) RX_TIMER_EVENT_IRQ_EVENT s;
          (case c of
             Sleeps \<Rightarrow> Some (Sleeps, s1)
           | Returns event_flag \<Rightarrow>
               do { s2 \<leftarrow> timer_thread_process app event_flag s1; Some (Returns (), s2) }) }"


section \<open>The simulated interrupt\<close>

definition run_irq :: "(nat \<Rightarrow> int \<Rightarrow> ptr \<Rightarrow> kstate \<Rightarrow> (int call \<times> kstate) option) \<Rightarrow> nat \<Rightarrow> ptr \<Rightarrow> irq_runner" where
  "run_irq app e timer f irq_num dev_id s =
     (case f of Timer_Tick_Irq \<Rightarrow> rx_timer_tick_irq_handler e timer irq_num dev_id s
              | App_Irq k \<Rightarrow> app k irq_num dev_id s)"

text \<open>
  \<^verbatim>\<open>sig_handler\<close>: \<open>num\<close> is the interrupt number in the shared memory, \<open>usr1\<close> whether the
  signal is SIGUSR1. The boolean result says whether the return address was redirected to
  \<^verbatim>\<open>__rx_preempt_task\<close>.
\<close>

definition sig_handler :: "irq_runner \<Rightarrow> bool \<Rightarrow> int \<Rightarrow> kstate \<Rightarrow> (bool call \<times> kstate) option" where
  "sig_handler run usr1 num s =
     do { let tcb = curr_running_task s;
          let s1 = s\<lparr>in_irq := True\<rparr>;
          (c, s2) \<leftarrow> (if usr1 then rx_irq_handler run num s1 else Some (Returns (), s1));
          (case c of
             Sleeps \<Rightarrow> Some (Sleeps, s2)
           | Returns _ \<Rightarrow>
               (if need_resched s2
                then do { s3 \<leftarrow> upd_task tcb (\<lambda>t. t\<lparr>t_state := RX_TASK_READY\<rparr>)
                                 (s2\<lparr>need_resched := False\<rparr>);
                          Some (Returns True, s3\<lparr>in_irq := False\<rparr>) }
                else Some (Returns False, s2\<lparr>in_irq := False\<rparr>))) }"

text \<open>
  The interrupt as the interrupted task sees it: \<^verbatim>\<open>__rx_preempt_task\<close> saves the registers,
  calls \<^verbatim>\<open>rx_sched\<close> and returns to the saved address.
\<close>

definition interrupt :: "irq_runner \<Rightarrow> int \<Rightarrow> kstate \<Rightarrow> (unit call \<times> kstate) option" where
  "interrupt run num s =
     do { (c, s1) \<leftarrow> sig_handler run True num s;
          (case c of
             Returns True \<Rightarrow> sched_then (\<lambda>s. Some (Returns (), s)) s1
           | Returns False \<Rightarrow> Some (Returns (), s1)
           | Sleeps \<Rightarrow> Some (Sleeps, s1)) }"


section \<open>Time slices\<close>

lemma task_prio_ticks:
  "tasks s a = Some t \<Longrightarrow> t_prio t' = t_prio t \<Longrightarrow> task_prio (s\<lparr>tasks := (tasks s)(a \<mapsto> t')\<rparr>) = task_prio s"
  by (rule ext) (simp add: task_prio_def)

lemma tick_slice_running:
  assumes "tasks s c = Some t" and "curr_running_task s = Some c" and "t_time_slice t > 0 \<longrightarrow> t_ticks t \<noteq> 1"
  shows "tick_slice s = Some (if t_time_slice t > 0
           then s\<lparr>tasks := (tasks s)(c \<mapsto> t\<lparr>t_ticks := t_ticks t - 1\<rparr>)\<rparr> else s)"
  using assms by (simp add: tick_slice_def)

text \<open>A task whose slice ends goes behind the tasks of its priority.\<close>

lemma tick_slice_ends:
  assumes q: "ready_queue s xs" and c: "curr_running_task s = Some c" "c \<in> set xs" "tasks s c = Some t"
    and sl: "t_time_slice t > 0" "t_ticks t = 1"
  defines "ys \<equiv> insert_prio (task_prio s) c (remove1 c xs)"
  shows "\<exists>s' n. tick_slice s = Some s' \<and> ready_queue s' ys \<and> curr_running_task s' = Some c \<and>
              in_irq s' = in_irq s \<and>
              (if hd ys \<noteq> c
               then need_resched s' \<and> tasks s' c = Some (t\<lparr>t_ticks := 0, t_state := RX_TASK_READY, t_next := n\<rparr>)
               else tasks s' c = Some (t\<lparr>t_ticks := t_time_slice t, t_state := RX_TASK_RUNNING, t_next := n\<rparr>))"
proof -
  let ?t1 = "t\<lparr>t_ticks := 0\<rparr>" and ?f = "\<lambda>t. t\<lparr>t_state := RX_TASK_READY\<rparr>"
  let ?s1 = "s\<lparr>tasks := (tasks s)(c \<mapsto> ?t1)\<rparr>"
  have q1: "ready_queue ?s1 xs" by (rule ready_queue_upd [OF q c(3)]) simp_all
  obtain s2 where s2: "rx_remove_from_ready_q (Some c) ?s1 = Some (OS_OK, s2)" "ready_queue s2 (remove1 c xs)"
    "task_next s2 c = Some NULL" "relinked (set xs) ?s1 s2"
    using remove_from_ready_q_spec [OF ready_queue_except [OF q1] c(2)] by blast
  obtain n2 where t2: "tasks s2 c = Some (?t1\<lparr>t_next := n2\<rparr>)" using relinked_task [OF s2(4), of c ?t1] by auto
  have nc: "c \<notin> set (remove1 c xs)" using ready_queue_distinct [OF q] by simp
  let ?s3 = "s2\<lparr>tasks := (tasks s2)(c \<mapsto> ?f (?t1\<lparr>t_next := n2\<rparr>))\<rparr>"
  obtain s4 where s4: "rx_add_to_ready_q (Some c) ?s3 = Some (OS_OK, s4)"
    "ready_queue s4 (insert_prio (task_prio ?s3) c (remove1 c xs))"
    "relinked (insert c (set (remove1 c xs))) ?s3 s4"
    using wake_spec [OF s2(2) nc t2, of ?f] by auto
  obtain n4 where t4: "tasks s4 c = Some (t\<lparr>t_ticks := 0, t_state := RX_TASK_READY, t_next := n4\<rparr>)"
    using relinked_task [OF s4(3), of c] by auto
  have curr: "curr_running_task s2 = Some c" "curr_running_task s4 = Some c" "in_irq s4 = in_irq s"
    using relinked_fields(11,18) [OF s2(4)] relinked_fields(11,18) [OF s4(3)] c(1) by simp_all
  have "task_prio ?s3 b = task_prio s b" for b
    using relinked_prio [OF s2(4), of b] t2 c(3) by (simp add: task_prio_def)
  then have ys: "insert_prio (task_prio ?s3) c (remove1 c xs) = ys"
    unfolding ys_def by (intro insert_prio_cong) simp
  have q4: "ready_queue s4 ys" using s4(2) ys by simp
  have ne: "ys \<noteq> []" by (simp add: ys_def)
  then have hd: "task_ready_head s4 = Some (hd ys)"
    using q4 by (cases ys) (auto simp: ready_queue_def)
  let ?g = "\<lambda>t. t\<lparr>t_ticks := t_time_slice t, t_state := RX_TASK_RUNNING\<rparr>"
  let ?s5 = "s4\<lparr>tasks := (tasks s4)(c \<mapsto> ?g (t\<lparr>t_ticks := 0, t_state := RX_TASK_READY, t_next := n4\<rparr>))\<rparr>"
  have run: "tick_slice s = (if hd ys \<noteq> c then Some (s4\<lparr>need_resched := True\<rparr>) else Some ?s5)"
    using c sl s2(1) t2 s4(1) t4 curr hd by (simp add: tick_slice_def)
  have q5: "ready_queue ?s5 ys" if "hd ys = c"
  proof -
    have "runnable ?s5 b" if "runnable s4 b" for b using that t4 by (simp add: runnable_def)
    moreover have "task_prio ?s5 = task_prio s4" by (rule task_prio_ticks [OF t4]) simp
    moreover have "task_next ?s5 = task_next s4" by (rule task_next_upd_same [OF t4]) simp
    ultimately show ?thesis using q4 by (simp add: ready_queue_def)
  qed
  show ?thesis
  proof (cases "hd ys = c")
    case True
    with run q5 curr show ?thesis by (intro exI [of _ ?s5] exI [of _ n4]) simp
  next
    case False
    with run q4 t4 curr ready_queue_cong [of "s4\<lparr>need_resched := True\<rparr>" s4] show ?thesis
      by (intro exI [of _ "s4\<lparr>need_resched := True\<rparr>"] exI [of _ n4]) simp
  qed
qed


section \<open>The interrupt\<close>

lemma store_frame [simp]:
  "tasks (store_bytes p bs s) = tasks s" "task_ready_head (store_bytes p bs s) = task_ready_head s"
  "mqueues (store_bytes p bs s) = mqueues s" "curr_running_task (store_bytes p bs s) = curr_running_task s"
  "in_irq (store_bytes p bs s) = in_irq s" "jiffies (store_bytes p bs s) = jiffies s"
  by (simp_all add: store_bytes_def)

lemma ring_holds_empty: "ring_holds s q k [] \<Longrightarrow> ring_holds s' q k []"
  by (simp add: ring_holds_def)

text \<open>The event thread is usually blocked reading its empty queue; a notification wakes it.\<close>

lemma notify_wakes_thread:
  assumes q: "ready_queue s xs" and r: "r \<notin> set xs" "tasks s r = Some tr" "t_timer tr = NULL"
    and m: "mqueues s rx_event_recv_q = Some mq" "ring_holds s mq k []" "q_size_of_block mq = sizeof_event"
    "q_read_task mq = Some r"
  shows "\<exists>s' n. rx_notify_event e timer eg flag s = Some (Returns OS_OK, s') \<and>
              queue_holds s' rx_event_recv_q [event_bytes eg flag] \<and>
              ready_queue s' (insert_prio (task_prio s) r xs) \<and>
              tasks s' r = Some (tr\<lparr>t_state := RX_TASK_READY, t_mq := NULL, t_next := n\<rparr>) \<and>
              (\<forall>b. b \<noteq> r \<longrightarrow> same_but_next (tasks s b) (tasks s' b)) \<and>
              curr_running_task s' = curr_running_task s \<and> in_irq s' = in_irq s \<and> jiffies s' = jiffies s"
proof -
  let ?s0 = "store_bytes e (event_bytes eg flag) s"
  have q0: "ready_queue ?s0 xs" using q ready_queue_cong [of ?s0 s] by simp
  have m0: "mqueues ?s0 rx_event_recv_q = Some mq" "ring_holds ?s0 mq k []"
    using m(1) ring_holds_empty [OF m(2)] by simp_all
  have pr: "task_prio ?s0 = task_prio s" by (rule ext) (simp add: task_prio_def)
  have len: "length (event_bytes eg flag) = nat (q_size_of_block mq)"
    using m(3) by (simp add: event_bytes_def sizeof_event_def)
  have room: "length ([] :: 8 word list list) < q_slots mq" by (simp add: q_slots_def)
  obtain s' n where s': "rx_write_to_queue (Some rx_event_recv_q) (Some e) (q_size_of_block mq)
        OS_WAIT_FOREVER timer ?s0 = Some (Returns OS_OK, s')"
    "queue_holds s' rx_event_recv_q ([] @ [block_at ?s0 e (nat (q_size_of_block mq))])"
    "ready_queue s' (insert_prio (task_prio ?s0) r xs)"
    "tasks s' r = Some (tr\<lparr>t_state := RX_TASK_READY, t_mq := NULL, t_next := n\<rparr>)"
    "\<forall>b. b \<noteq> r \<longrightarrow> same_but_next (tasks ?s0 b) (tasks s' b)"
    "curr_running_task s' = curr_running_task ?s0" "in_irq s' = in_irq ?s0" "jiffies s' = jiffies ?s0"
    using write_wakes_reader_spec [OF q0 m0 room m(4) r(1) _ r(3), of e OS_WAIT_FOREVER timer] r(2)
    by auto
  moreover have "block_at ?s0 e (nat (q_size_of_block mq)) = event_bytes eg flag"
    using block_at_store [of e "event_bytes eg flag" s] len by simp
  ultimately show ?thesis using m(3) pr by (auto simp: rx_notify_event_def)
qed

lemma tick_handler_ends_slice:
  assumes q: "ready_queue s xs" and c: "curr_running_task s = Some c" "c \<in> set xs" "tasks s c = Some t"
    and sl: "t_time_slice t > 0" "t_ticks t = 1"
    and r: "r \<notin> set xs" "tasks s r = Some tr" "t_timer tr = NULL"
    and m: "mqueues s rx_event_recv_q = Some mq" "ring_holds s mq k []" "q_size_of_block mq = sizeof_event"
    "q_read_task mq = Some r"
    and z: "insert_prio (task_prio s) c (remove1 c (insert_prio (task_prio s) r xs)) = h # zs" "h \<noteq> c"
  shows "\<exists>s' n. rx_timer_tick_irq_handler e timer irq a s = Some (Returns RX_IRQ_HANDLED, s') \<and>
              ready_queue s' (h # zs) \<and> need_resched s' \<and> curr_running_task s' = Some c \<and>
              in_irq s' = in_irq s \<and>
              tasks s' c = Some (t\<lparr>t_ticks := 0, t_state := RX_TASK_READY, t_next := n\<rparr>)"
proof -
  let ?s0 = "s\<lparr>jiffies := jiffies s + 1\<rparr>"
  have q0: "ready_queue ?s0 xs" using q ready_queue_cong [of ?s0 s] by simp
  have pr0: "task_prio ?s0 = task_prio s" by (rule ext) (simp add: task_prio_def)
  have ring: "ring_holds ?s0 mq k []" using m(2) by (rule ring_holds_empty)
  obtain s1 n where s1: "rx_notify_event e timer (Some rx_timer_events) RX_TIMER_EVENT_IRQ_EVENT ?s0 =
      Some (Returns OS_OK, s1)" "ready_queue s1 (insert_prio (task_prio s) r xs)"
    "tasks s1 r = Some (tr\<lparr>t_state := RX_TASK_READY, t_mq := NULL, t_next := n\<rparr>)"
    "\<forall>b. b \<noteq> r \<longrightarrow> same_but_next (tasks s b) (tasks s1 b)"
    "curr_running_task s1 = Some c" "in_irq s1 = in_irq s"
    using notify_wakes_thread [OF q0 r(1) _ r(3) _ ring m(3,4), of e timer "Some rx_timer_events"
        RX_TIMER_EVENT_IRQ_EVENT] r(2) m(1) c(1) pr0 by auto
  have "c \<noteq> r" using c(2) r(1) by auto
  then obtain n1 where t1: "tasks s1 c = Some (t\<lparr>t_next := n1\<rparr>)"
    using s1(4) c(3) by (metis same_but_next_Some)
  have "task_prio s1 b = task_prio s b" for b
  proof (cases "b = r")
    case True
    with s1(3) r(2) show ?thesis by (simp add: task_prio_def)
  next
    case False
    with s1(4) have "same_but_next (tasks s b) (tasks s1 b)" by blast
    then show ?thesis by (cases "tasks s b") (auto simp: task_prio_def)
  qed
  then have ys: "insert_prio (task_prio s1) c (remove1 c (insert_prio (task_prio s) r xs)) = h # zs"
    using z(1) by (simp add: insert_prio_cong [of c _ "task_prio s1" "task_prio s"])
  obtain s2 n2 where "tick_slice s1 = Some s2" "ready_queue s2 (h # zs)" "curr_running_task s2 = Some c"
    "in_irq s2 = in_irq s1" "need_resched s2"
    "tasks s2 c = Some (t\<lparr>t_ticks := 0, t_state := RX_TASK_READY, t_next := n2\<rparr>)"
    using tick_slice_ends [OF s1(2,5) _ t1] c(2) sl ys z(2) by auto
  then show ?thesis using s1(1,6) by (auto simp: rx_timer_tick_irq_handler_def after_call_def)
qed


section \<open>Expiry of a timer with a handler\<close>

lemma expire_timers_idle:
  assumes "active_timers s ts" and "\<forall>q\<in>set ts. tick < timer_expiry s q"
  shows "expire_timers run tick s = Some s"
proof (cases ts)
  case Nil
  with assms(1) have "active_timer_head s = NULL" by (simp add: active_timers_def)
  then show ?thesis by (subst expire_timers.simps) simp
next
  case (Cons q qs)
  with assms(1) have h: "active_timer_head s = Some q" and "timer_next s q \<noteq> None"
    by (auto simp: active_timers_def dlst_def)
  then obtain tm where tm: "timers s q = Some tm" by (auto simp: timer_next_def)
  then have "tick < tm_time_expiry tm" using assms(2) Cons by (simp add: timer_expiry_def)
  then have "\<not> tm_time_expiry tm \<le> tick" by (rule linorder_not_le [THEN iffD2])
  then show ?thesis using h tm by (subst expire_timers.simps) simp
qed

lemma active_timers_upd_absent:
  assumes ts: "active_timers s ts" and p: "p \<notin> set ts"
  shows "active_timers (s\<lparr>timers := (timers s)(p \<mapsto> tm)\<rparr>) ts"
proof -
  let ?s = "s\<lparr>timers := (timers s)(p \<mapsto> tm)\<rparr>"
  have "map (timer_expiry ?s) ts = map (timer_expiry s) ts" using p by (auto simp: timer_expiry_def)
  then show ?thesis using ts p by (simp add: active_timers_def dlst_def del: map_eq_conv)
qed

text \<open>The head of the active list, when it is due and has a handler: one turn of the loop.\<close>

lemma expire_handler_step:
  assumes ts: "active_timers s (p # ts)" and tm: "timers s p = Some tm" "tm_handler tm = Some h"
    "tm_time_expiry tm \<le> tick"
  shows "\<exists>s1 tm1. expire_timers run tick s =
             Option.bind (run h (tm_priv tm) s1) (expire_timers run tick) \<and>
           active_timers s1 ts \<and> timers s1 p = Some tm1 \<and> tm_flag tm1 AND RX_TIMER_ENABLED = 0 \<and>
           tasks s1 = tasks s \<and> task_ready_head s1 = task_ready_head s \<and> sems s1 = sems s \<and>
           curr_running_task s1 = curr_running_task s \<and> jiffies s1 = jiffies s \<and>
           (\<forall>q\<in>set ts. timer_expiry s1 q = timer_expiry s q)"
proof -
  have "dlst (timer_next s) (timer_prev s) (active_timer_head s) (p # ts)" using ts by (simp add: active_timers_def)
  then have "distinct (p # ts)" by (rule dlst_distinct)
  then have d: "p \<notin> set ts" by simp
  then have nl: "p # ts = [p] \<or> p \<noteq> last (p # ts)" by (cases ts rule: rev_cases) auto
  obtain s1 where s1: "rx_remove_from_timer_list (Some p) s = Some s1" "active_timers s1 ts"
    "retimed (set (p # ts)) s s1"
    using remove_timer_spec [OF ts _ nl] by auto
  obtain n v where t1: "timers s1 p = Some (tm\<lparr>tm_next := n, tm_prev := v\<rparr>)"
    using retimed_timer [OF s1(3) tm(1)] by blast
  let ?tm = "tm\<lparr>tm_next := n, tm_prev := v, tm_flag := tm_flag tm AND RX_TIMER_DISABLED\<rparr>"
  let ?s2 = "s1\<lparr>timers := (timers s1)(p \<mapsto> ?tm)\<rparr>"
  have "active_timer_head s = Some p" using ts by (auto simp: active_timers_def dlst_def)
  then have "expire_timers run tick s = Option.bind (run h (tm_priv tm) ?s2) (expire_timers run tick)"
    using tm s1(1) t1 by (subst expire_timers.simps) simp
  moreover have "active_timers ?s2 ts" by (rule active_timers_upd_absent [OF s1(2) d])
  moreover have "tm_flag ?tm AND RX_TIMER_ENABLED = 0"
    by (simp add: RX_TIMER_DISABLED_def RX_TIMER_ENABLED_def and.assoc)
  moreover have "timer_expiry ?s2 q = timer_expiry s q" if "q \<in> set ts" for q
    using that d retimed_expiry [OF s1(3), of q] by (auto simp: timer_expiry_def)
  ultimately show ?thesis using retimed_fields [OF s1(3)]
    by (intro exI [of _ ?s2] exI [of _ ?tm]) simp
qed


section \<open>Properties\<close>

text \<open>
  A concrete state for the examples: task 1 runs on the last tick of its slice, tasks 2 and 3 are
  ready, task 4 is the event thread and waits for messages; the timer interrupt is installed.
\<close>

definition demo_tick :: kstate where
  "demo_tick = demo_event\<lparr>
     tasks := [1 \<mapsto> (demo_task RX_TASK_RUNNING 5 (Some 2))\<lparr>t_time_slice := 3, t_ticks := 1\<rparr>,
               2 \<mapsto> demo_task RX_TASK_READY 5 (Some 3), 3 \<mapsto> demo_task RX_TASK_READY 7 NULL,
               4 \<mapsto> demo_task RX_TASK_SUSPEND 0 NULL],
     mqueues := [0 \<mapsto> demo_event_q\<lparr>q_read_task := Some 4\<rparr>],
     irq_pool := list_update (replicate pool_size idle_irq) 0 (idle_irq\<lparr>i_irq_handler := Some Timer_Tick_Irq\<rparr>)\<rparr>"

lemma demo_tick_simps [simp]:
  "tasks demo_tick = [1 \<mapsto> (demo_task RX_TASK_RUNNING 5 (Some 2))\<lparr>t_time_slice := 3, t_ticks := 1\<rparr>,
               2 \<mapsto> demo_task RX_TASK_READY 5 (Some 3), 3 \<mapsto> demo_task RX_TASK_READY 7 NULL,
               4 \<mapsto> demo_task RX_TASK_SUSPEND 0 NULL]"
  "mqueues demo_tick = [0 \<mapsto> demo_event_q\<lparr>q_read_task := Some 4\<rparr>]"
  "curr_running_task demo_tick = Some 1" "task_ready_head demo_tick = Some 1"
  by (simp_all add: demo_tick_def)

lemma demo_tick_ready: "ready_queue demo_tick [1, 2, 3]"
  by (simp add: ready_queue_def task_next_def task_prio_def runnable_def)

lemma demo_tick_ring: "ring_holds demo_tick (demo_event_q\<lparr>q_read_task := Some 4\<rparr>) 0 []"
  by (simp add: ring_holds_def demo_event_q_def q_slots_def RX_QUEUE_FULL_def)

lemma demo_tick_pool: "pool_ok demo_tick" "line_handler demo_tick 0 = Some Timer_Tick_Irq"
  by (simp_all add: demo_tick_def pool_ok_def line_handler_def get_irq_def pool_size_def
      CONFIG_IRQ_COUNT_def idle_irq_def eval_nat_numeral)

text \<open>
  C10. Round robin by time slice: when the timer interrupt finds the running task on the last
  tick of its slice and the event thread waiting for messages, the tick is counted, the event
  thread is made ready, the running task goes behind all ready tasks of its priority, and
  before the interrupt returns to it the processor is given to the head of the new ready queue,
  if that is another task.
\<close>

theorem timer_irq_round_robin:
  assumes "ready_queue s xs" and "curr_running_task s = Some c" and "c \<in> set xs" and "tasks s c = Some t"
    and "t_time_slice t > 0" and "t_ticks t = 1"
    and "r \<notin> set xs" and "tasks s r = Some tr" and "t_timer tr = NULL"
    and "mqueues s rx_event_recv_q = Some mq" and "ring_holds s mq k []"
    and "q_size_of_block mq = sizeof_event" and "q_read_task mq = Some r"
    and "pool_ok s" and "line_handler s RX_TIMER0_INT = Some Timer_Tick_Irq"
    and "insert_prio (task_prio s) c (remove1 c (insert_prio (task_prio s) r xs)) = h # zs" and "h \<noteq> c"
  shows "\<exists>s' u n. interrupt (run_irq app e timer) RX_TIMER0_INT s = Some (Sleeps, s') \<and>
           curr_running_task s' = Some h \<and> ready_queue s' (h # zs) \<and>
           tasks s' h = Some u \<and> t_state u = RX_TASK_RUNNING \<and>
           tasks s' c = Some (t\<lparr>t_ticks := 0, t_state := RX_TASK_READY, t_next := n\<rparr>)"
proof -
  let ?s1 = "s\<lparr>in_irq := True, raw_irq_counter := raw_irq_counter s + 1\<rparr>"
  have pr: "task_prio ?s1 = task_prio s" by (rule ext) (simp add: task_prio_def)
  have q1: "ready_queue ?s1 xs" using assms(1) ready_queue_cong [of ?s1 s] by simp
  have ring: "ring_holds ?s1 mq k []" using assms(11) by (rule ring_holds_empty)
  have pool: "pool_ok (s\<lparr>in_irq := True\<rparr>)" "line_handler (s\<lparr>in_irq := True\<rparr>) 0 = Some Timer_Tick_Irq"
    using assms(14,15)
    by (simp_all add: pool_ok_def line_handler_def get_irq_def RX_TIMER0_INT_def pool_size_def CONFIG_IRQ_COUNT_def)
  obtain i where i: "get_irq 0 (s\<lparr>in_irq := True\<rparr>) = Some i" 
    using pool(2) by (cases "get_irq 0 (s\<lparr>in_irq := True\<rparr>)") (simp_all add: line_handler_def)
  obtain s2 n where s2: "rx_timer_tick_irq_handler e timer 0 (i_dev_id i) ?s1 = Some (Returns RX_IRQ_HANDLED, s2)"
    "ready_queue s2 (h # zs)" "need_resched s2" "curr_running_task s2 = Some c"
    "tasks s2 c = Some (t\<lparr>t_ticks := 0, t_state := RX_TASK_READY, t_next := n\<rparr>)"
    using tick_handler_ends_slice [OF q1 _ assms(3) _ assms(5-7) _ assms(9) _ ring assms(12,13) _ assms(17),
        where e = e and timer = timer and irq = 0 and a = "i_dev_id i"] assms(2,4,8,10,16) pr by auto
  let ?s3 = "s2\<lparr>need_resched := False, in_irq := False\<rparr>"
  have "s2\<lparr>need_resched := False, tasks := (tasks s2)(c \<mapsto> t\<lparr>t_ticks := 0, t_next := n, t_state := RX_TASK_READY\<rparr>),
          in_irq := False\<rparr> = ?s3"
    using s2(5) by (cases s2) (simp add: fun_upd_idem)
  then have "sig_handler (run_irq app e timer) True 0 s = Some (Returns True, ?s3)"
    using irq_handler_line [OF pool(1), of 0 "run_irq app e timer"] pool(2) i s2 assms(2)
    by (simp add: sig_handler_def run_irq_def ignore_result_def)
  moreover have q3: "ready_queue ?s3 (h # zs)" using s2(2) ready_queue_cong [of ?s3 s2] by simp
  have "\<exists>u s'. tasks ?s3 h = Some u \<and> sched_then (\<lambda>s. Some (Returns (), s)) ?s3 = Some (Sleeps, s') \<and>
          ready_queue s' (h # zs) \<and> s' = ?s3\<lparr>tasks := (tasks ?s3)(h \<mapsto> dispatched u),
            curr_running_task := Some h, need_resched := False, critical := critical ?s3 \<and> in_irq ?s3\<rparr>"
    by (rule sched_away [OF q3, of c]) (use s2(4,5) assms(17) in simp_all)
  ultimately show ?thesis using s2(5) assms(17)
    by (auto simp: interrupt_def RX_TIMER0_INT_def)
qed

theorem timer_irq_round_robin_witness:
  "\<exists>s' u. interrupt (run_irq (\<lambda>_ _ _ _. None) 2000 NULL) RX_TIMER0_INT demo_tick = Some (Sleeps, s') \<and>
     curr_running_task s' = Some 4 \<and> ready_queue s' [4, 2, 1, 3] \<and> tasks s' 1 = Some u \<and> t_ticks u = 0"
  using timer_irq_round_robin [OF demo_tick_ready, of 1
      "(demo_task RX_TASK_RUNNING 5 (Some 2))\<lparr>t_time_slice := 3, t_ticks := 1\<rparr>" 4
      "demo_task RX_TASK_SUSPEND 0 NULL" "demo_event_q\<lparr>q_read_task := Some 4\<rparr>" 0 4 "[2, 1, 3]"
      "\<lambda>_ _ _ _. None" 2000 NULL] demo_tick_ring demo_tick_pool
  by (auto simp: rx_event_recv_q_def demo_event_q_def sizeof_event_def RX_TIMER0_INT_def task_prio_def)

text \<open>
  C9. A timed wait on a semaphore ends by time: when the timer thread processes the tick at
  which the timer of a waiter is due (the other timers are not), it takes the timer off the
  active list, runs the semaphore's handler, and the waiter leaves the list of the semaphore and
  becomes ready with the timeout recorded; the count of the semaphore follows. The thread's
  loop over the timers ends.
\<close>

theorem semaphore_timeout_by_thread:
  assumes "ready_queue s xs" and "sem_inv s m (pre @ a # suf)" and "set (pre @ a # suf) \<inter> set xs = {}"
    and "tasks s a = Some t" and "t_sem t = Some m"
    and "active_timers s (p # ts)" and "timers s p = Some tm" and "tm_handler tm = Some Sem_Handler"
    and "tm_priv tm = Some a" and "tm_time_expiry tm \<le> jiffies s"
    and "\<forall>q\<in>set ts. jiffies s < timer_expiry s q"
    and "curr_running_task s = Some c" and "c \<in> set xs"
  shows "\<exists>s' u. timer_thread_process app RX_TIMER_EVENT_IRQ_EVENT s = Some s' \<and> active_timers s' ts \<and>
           sem_inv s' m (pre @ suf) \<and> ready_queue s' (insert_prio (task_prio s) a xs) \<and>
           tasks s' a = Some u \<and> t_state u = RX_TASK_READY \<and> t_timeout u = E_OS_TIMEOUT \<and> t_sem u = NULL"
proof -
  obtain tc where tc: "tasks s c = Some tc"
    using assms(1,13) by (force simp: ready_queue_def runnable_def split: option.splits)
  let ?tc = "tc\<lparr>t_event_flag := t_event_flag tc AND NOT RX_TIMER_EVENT_IRQ_EVENT,
                t_event_recv := t_event_recv tc AND NOT RX_TIMER_EVENT_IRQ_EVENT\<rparr>"
  let ?s1 = "(rx_enter_critical s)\<lparr>tasks := (tasks s)(c \<mapsto> ?tc)\<rparr>"
  have q0: "ready_queue (s\<lparr>tasks := (tasks s)(c \<mapsto> ?tc)\<rparr>) xs" by (rule ready_queue_upd [OF assms(1) tc]) simp_all
  then have q1: "ready_queue ?s1 xs"
    using ready_queue_cong [of ?s1 "s\<lparr>tasks := (tasks s)(c \<mapsto> ?tc)\<rparr>"] by simp
  have nx: "task_next ?s1 = task_next s" using tc by (auto simp: task_next_def)
  have i1: "sem_inv ?s1 m (pre @ a # suf)" by (rule sem_inv_frame [OF assms(2)]) (simp_all add: nx)
  have ac: "a \<noteq> c" using assms(3,13) by auto
  have ts1: "active_timers ?s1 (p # ts)" using assms(6) active_timers_cong [of ?s1 s] by simp
  have j1: "jiffies ?s1 = jiffies s" "timer_expiry ?s1 = timer_expiry s"
    by (simp_all add: enter_critical_eq timer_expiry_def fun_eq_iff)
  obtain s2 tm2 where s2: "expire_timers (run_handler app) (jiffies s) ?s1 =
      Option.bind (run_handler app Sem_Handler (tm_priv tm) s2) (expire_timers (run_handler app) (jiffies s))"
    "active_timers s2 ts" "tasks s2 = tasks ?s1" "task_ready_head s2 = task_ready_head ?s1" "sems s2 = sems ?s1"
    "\<forall>q\<in>set ts. timer_expiry s2 q = timer_expiry s q"
    using expire_handler_step [OF ts1 _ assms(8,10), of "run_handler app"] assms(7) j1 by auto
  have q2: "ready_queue s2 xs" using q1 ready_queue_cong [OF s2(3,4)] by simp
  have i2: "sem_inv s2 m (pre @ a # suf)"
    by (rule sem_inv_frame [OF i1 s2(5) task_next_cong [OF s2(3)]])
  have t2: "tasks s2 a = Some t" using s2(3) assms(4) ac by simp
  obtain s3 n where s3: "rx_sem_handler (Some a) s2 = Some s3" "sem_inv s3 m (pre @ suf)"
    "ready_queue s3 (insert_prio (task_prio s2) a xs)"
    "tasks s3 a = Some ((sem_timed_out t)\<lparr>t_next := n, t_sem := NULL\<rparr>)" "timers s3 = timers s2"
    "active_timer_head s3 = active_timer_head s2"
    using sem_handler_spec [OF q2 i2 assms(3) t2 assms(5)] by blast
  have ts3: "active_timers s3 ts" using s2(2) active_timers_cong [OF s3(5,6)] by simp
  have "timer_expiry s3 = timer_expiry s2" using s3(5) by (auto simp: timer_expiry_def)
  then have e3: "expire_timers (run_handler app) (jiffies s) s3 = Some s3"
    using expire_timers_idle [OF ts3] assms(11) s2(6) by simp
  have pr: "task_prio s2 b = task_prio s b" for b using s2(3) tc by (simp add: task_prio_def)
  have "timer_thread_process app RX_TIMER_EVENT_IRQ_EVENT s = Some (rx_exit_critical s3)"
    using tc assms(9,12) s2(1) s3(1) e3 j1
    by (simp add: timer_thread_process_def rx_clear_event_flag_def run_handler_def)
  moreover have "insert_prio (task_prio s2) a xs = insert_prio (task_prio s) a xs"
    by (rule insert_prio_cong) (rule pr)
  moreover have "sem_inv (rx_exit_critical s3) m (pre @ suf)" by (rule sem_inv_frame [OF s3(2)]) simp_all
  moreover have "active_timers (rx_exit_critical s3) ts"
    using ts3 active_timers_cong [of "rx_exit_critical s3" s3] by (simp add: exit_critical_eq)
  moreover have "ready_queue (rx_exit_critical s3) ys = ready_queue s3 ys" for ys
    by (rule ready_queue_cong) (simp_all add: exit_critical_eq)
  ultimately show ?thesis using s3(3,4) by (simp add: sem_timed_out_def)
qed

text \<open>Task 5 waits on semaphore 200 with timer 100, due now.\<close>

definition demo_due :: kstate where
  "demo_due = demo_sem\<lparr>jiffies := 5, timers := (timers demo_sleep)(100 \<mapsto>
     (demo_timer 5 1 NULL (Some 101) NULL)\<lparr>tm_handler := Some Sem_Handler, tm_priv := Some 5\<rparr>)\<rparr>"

lemma demo_due_simps [simp]:
  "tasks demo_due = tasks demo_sem" "sems demo_due = sems demo_sem" "jiffies demo_due = 5"
  "timers demo_due = (timers demo_sleep)(100 \<mapsto>
     (demo_timer 5 1 NULL (Some 101) NULL)\<lparr>tm_handler := Some Sem_Handler, tm_priv := Some 5\<rparr>)"
  "curr_running_task demo_due = Some 1" "task_ready_head demo_due = Some 1" "active_timer_head demo_due = Some 100"
  by (simp_all add: demo_due_def)

lemma demo_due_ok:
  "ready_queue demo_due [1, 2, 3]" "sem_inv demo_due 200 ([4] @ 5 # [])" "active_timers demo_due [100, 101]"
proof -
  show "ready_queue demo_due [1, 2, 3]" using demo_sem_ready ready_queue_cong [of demo_due demo_sem] by simp
  show "sem_inv demo_due 200 ([4] @ 5 # [])"
    using demo_sem_inv sem_inv_frame [of demo_sem 200 "[4, 5]" demo_due] task_next_cong [of demo_due demo_sem] by simp
  show "active_timers demo_due [100, 101]"
    by (simp add: active_timers_def dlst_def timer_next_def timer_prev_def timer_expiry_def)
qed

theorem semaphore_timeout_by_thread_witness:
  "\<exists>s' u. timer_thread_process (\<lambda>_ _. Some) RX_TIMER_EVENT_IRQ_EVENT demo_due = Some s' \<and>
     active_timers s' [101] \<and> sem_inv s' 200 [4] \<and> ready_queue s' [1, 2, 5, 3] \<and>
     tasks s' 5 = Some u \<and> t_timeout u = E_OS_TIMEOUT"
  using semaphore_timeout_by_thread [OF demo_due_ok(1,2) _ _ _ demo_due_ok(3), of
      "(demo_task RX_TASK_SUSPEND 5 NULL)\<lparr>t_sem := Some 200\<rparr>"
      "(demo_timer 5 1 NULL (Some 101) NULL)\<lparr>tm_handler := Some Sem_Handler, tm_priv := Some 5\<rparr>" 1 "\<lambda>_ _. Some"]
  by (auto simp: task_prio_def timer_expiry_def)

end
