(* ===== verification/RX_Tasklet.thy ===== *)
theory RX_Tasklet
  imports RX_Wait
begin

text \<open>
  Tasklets and the bottom-half thread (\<^verbatim>\<open>kernel/rx_tasklet.c\<close>): work that an interrupt
  handler defers. Scheduled tasklets hang in one doubly linked list, which the bottom-half thread
  works off from the head.
\<close>

unbundle bit_operations_syntax

section \<open>Operations\<close>

definition RX_DISABLE_TASKLET :: "32 word" where "RX_DISABLE_TASKLET = 0"
definition RX_ENABLE_TASKLET :: "32 word" where "RX_ENABLE_TASKLET = 1"
definition RX_SCHED_TASKLET :: "32 word" where "RX_SCHED_TASKLET = 2"
definition RX_RUNNING_TASKLET :: "32 word" where "RX_RUNNING_TASKLET = 4"

lemmas tasklet_flags = RX_DISABLE_TASKLET_def RX_ENABLE_TASKLET_def RX_SCHED_TASKLET_def
  RX_RUNNING_TASKLET_def

definition rx_init_tasklet :: "ptr \<Rightarrow> nat option \<Rightarrow> 32 word \<Rightarrow> kstate \<Rightarrow> (int \<times> kstate) option" where
  "rx_init_tasklet t func data s =
     (if t = NULL \<or> func = None then Some (OS_ERR, s)
      else do { f \<leftarrow> func;
                s1 \<leftarrow> upd_tasklet t (\<lambda>k. k\<lparr>k_status := RX_DISABLE_TASKLET, k_func := f, k_data := data,
                                          k_next := NULL, k_prev := NULL\<rparr>) s;
                Some (OS_OK, s1) })"

definition rx_enable_tasklet :: "ptr \<Rightarrow> kstate \<Rightarrow> kstate option" where
  "rx_enable_tasklet t s =
     (if t = NULL then Some s
      else do { let s1 = rx_enter_critical s;
                k \<leftarrow> deref (tasklets s1) t;
                s2 \<leftarrow> (if k_status k = RX_DISABLE_TASKLET
                       then upd_tasklet t (\<lambda>k. k\<lparr>k_status := RX_ENABLE_TASKLET\<rparr>) s1 else Some s1);
                Some (rx_exit_critical s2) })"

text \<open>Taking a scheduled tasklet out of the list, with its two neighbours.\<close>

definition tasklet_unlink :: "ptr \<Rightarrow> kstate \<Rightarrow> kstate option" where
  "tasklet_unlink t s =
     do { k \<leftarrow> deref (tasklets s) t;
          s1 \<leftarrow> (if k_prev k = NULL \<and> k_next k = NULL then Some (s\<lparr>sys_tasklet_list := NULL\<rparr>)
                 else do { sa \<leftarrow> (if k_prev k \<noteq> NULL then upd_tasklet (k_prev k) (\<lambda>x. x\<lparr>k_next := k_next k\<rparr>) s
                                  else Some (s\<lparr>sys_tasklet_list := k_next k\<rparr>));
                           (if k_next k \<noteq> NULL then upd_tasklet (k_next k) (\<lambda>x. x\<lparr>k_prev := k_prev k\<rparr>) sa
                            else Some sa) });
          upd_tasklet t (\<lambda>k. k\<lparr>k_next := NULL, k_prev := NULL\<rparr>) s1 }"

definition rx_disable_tasklet :: "ptr \<Rightarrow> kstate \<Rightarrow> kstate option" where
  "rx_disable_tasklet t s =
     (if t = NULL then Some s
      else do { let s1 = rx_enter_critical s;
                k \<leftarrow> deref (tasklets s1) t;
                s3 \<leftarrow> (if k_status k \<noteq> RX_DISABLE_TASKLET
                       then do { s2 \<leftarrow> (if k_status k AND RX_SCHED_TASKLET \<noteq> 0 then tasklet_unlink t s1
                                        else Some s1);
                                 upd_tasklet t (\<lambda>k. k\<lparr>k_status := RX_DISABLE_TASKLET\<rparr>) s2 }
                       else Some s1);
                Some (rx_exit_critical s3) })"

definition rx_schedule_tasklet :: "ptr \<Rightarrow> kstate \<Rightarrow> kstate option" where
  "rx_schedule_tasklet t s =
     (if t = NULL then Some s
      else do { let s1 = rx_enter_critical s;
                k \<leftarrow> deref (tasklets s1) t;
                s3 \<leftarrow> (if k_status k AND RX_SCHED_TASKLET = 0 \<and> k_status k AND RX_ENABLE_TASKLET \<noteq> 0
                       then do { s2 \<leftarrow> upd_tasklet t (\<lambda>k. k\<lparr>k_status := k_status k OR RX_SCHED_TASKLET\<rparr>) s1;
                                 (case sys_tasklet_list s2 of
                                    None \<Rightarrow> Some (s2\<lparr>sys_tasklet_list := t\<rparr>)
                                  | Some h \<Rightarrow>
                                      do { ride \<leftarrow> walk_last (tasklet_next s2) h;
                                           sa \<leftarrow> set_tasklet_next (Some ride) t s2;
                                           upd_tasklet t (\<lambda>k. k\<lparr>k_prev := Some ride\<rparr>) sa }) }
                       else Some s1);
                Some (rx_exit_critical s3) })"

text \<open>
  The body of the loop of \<^verbatim>\<open>rx_bh_thread\<close>; \<open>app f data\<close> is the call of the tasklet's
  function. The links of the tasklet that is taken off the list are left as they are.
\<close>

definition bh_process :: "(nat \<Rightarrow> 32 word \<Rightarrow> kstate \<Rightarrow> kstate option) \<Rightarrow> kstate \<Rightarrow> kstate option" where
  "bh_process app s =
     do { let s1 = rx_enter_critical s;
          let run = sys_tasklet_list s1;
          k \<leftarrow> deref (tasklets s1) run;
          s2 \<leftarrow> upd_tasklet run (\<lambda>k. k\<lparr>k_status := (k_status k OR RX_RUNNING_TASKLET) AND NOT RX_SCHED_TASKLET\<rparr>)
                  (s1\<lparr>sys_tasklet_list := k_next k\<rparr>);
          k2 \<leftarrow> deref (tasklets s2) run;
          s3 \<leftarrow> app (k_func k2) (k_data k2) (rx_exit_critical s2);
          s4 \<leftarrow> upd_tasklet run (\<lambda>k. k\<lparr>k_status := k_status k AND NOT RX_RUNNING_TASKLET\<rparr>)
                  (rx_enter_critical s3);
          Some (rx_exit_critical s4) }"

definition bh_thread_turn ::
    "(nat \<Rightarrow> 32 word \<Rightarrow> kstate \<Rightarrow> kstate option) \<Rightarrow> ptr \<Rightarrow> kstate \<Rightarrow> (unit call \<times> kstate) option" where
  "bh_thread_turn app w s =
     do { (c, s1) \<leftarrow> rx_wait_queue w (\<lambda>s. sys_tasklet_list s \<noteq> NULL) s;
          (case c of
             Sleeps \<Rightarrow> Some (Sleeps, s1)
           | Returns r \<Rightarrow> (if r = 0 then do { s2 \<leftarrow> bh_process app s1; Some (Returns (), s2) }
                          else Some (Returns (), s1))) }"


section \<open>The list of scheduled tasklets\<close>

definition tasklet_prev :: "kstate \<Rightarrow> links" where
  "tasklet_prev s a = map_option k_prev (tasklets s a)"

text \<open>The list is doubly linked, its members carry the flag, and nobody else does.\<close>

definition tasklets_inv :: "kstate \<Rightarrow> addr list \<Rightarrow> bool" where
  "tasklets_inv s ks \<longleftrightarrow>
     dlst (tasklet_next s) (tasklet_prev s) (sys_tasklet_list s) ks \<and>
     (\<forall>a k. tasklets s a = Some k \<longrightarrow> (k_status k AND RX_SCHED_TASKLET \<noteq> 0 \<longleftrightarrow> a \<in> set ks))"

lemma tasklet_links_upd [simp]:
  "tasklet_next (s\<lparr>tasklets := (tasklets s)(a \<mapsto> k)\<rparr>) = (tasklet_next s)(a := Some (k_next k))"
  "tasklet_prev (s\<lparr>tasklets := (tasklets s)(a \<mapsto> k)\<rparr>) = (tasklet_prev s)(a := Some (k_prev k))"
  by (auto simp: tasklet_next_def tasklet_prev_def)

lemma tasklet_links_cong:
  "tasklets s' = tasklets s \<Longrightarrow> tasklet_next s' = tasklet_next s"
  "tasklets s' = tasklets s \<Longrightarrow> tasklet_prev s' = tasklet_prev s"
  by (auto simp: tasklet_next_def tasklet_prev_def)

lemma tasklets_critical [simp]:
  "tasklets (rx_enter_critical s) = tasklets s" "tasklets (rx_exit_critical s) = tasklets s"
  "sys_tasklet_list (rx_enter_critical s) = sys_tasklet_list s"
  "sys_tasklet_list (rx_exit_critical s) = sys_tasklet_list s"
  "tasklet_next (rx_enter_critical s) = tasklet_next s" "tasklet_next (rx_exit_critical s) = tasklet_next s"
  "tasklet_prev (rx_enter_critical s) = tasklet_prev s" "tasklet_prev (rx_exit_critical s) = tasklet_prev s"
  by (auto simp: critical_eqs tasklet_next_def tasklet_prev_def)

lemma tasklets_inv_cong:
  "tasklets s' = tasklets s \<Longrightarrow> sys_tasklet_list s' = sys_tasklet_list s \<Longrightarrow> tasklets_inv s' ks = tasklets_inv s ks"
  by (simp add: tasklets_inv_def tasklet_links_cong [of s' s])

lemma sched_flag [simp]: "(w OR RX_SCHED_TASKLET) AND RX_SCHED_TASKLET \<noteq> 0"
proof -
  have "(w OR RX_SCHED_TASKLET) AND RX_SCHED_TASKLET = RX_SCHED_TASKLET"
    by (rule bit_eqI) (auto simp: bit_simps)
  then show ?thesis by (simp add: RX_SCHED_TASKLET_def)
qed

lemma sched_flag_nonzero [simp]: "RX_SCHED_TASKLET \<noteq> 0"
  by (simp add: RX_SCHED_TASKLET_def)

lemma tasklets_inv_dlst: "tasklets_inv s ks \<Longrightarrow> dlst (tasklet_next s) (tasklet_prev s) (sys_tasklet_list s) ks"
  by (simp add: tasklets_inv_def)

lemma tasklets_inv_flag:
  "tasklets_inv s ks \<Longrightarrow> tasklets s a = Some k \<Longrightarrow> k_status k AND RX_SCHED_TASKLET \<noteq> 0 \<longleftrightarrow> a \<in> set ks"
  by (simp add: tasklets_inv_def)

text \<open>Changing one tasklet: its membership follows its flag.\<close>

lemma tasklets_invI:
  assumes "tasklets_inv s ks" and "dlst (tasklet_next s') (tasklet_prev s') (sys_tasklet_list s') ks'"
    and "\<And>b k'. b \<noteq> a \<Longrightarrow> tasklets s' b = Some k' \<Longrightarrow> \<exists>k. tasklets s b = Some k \<and> k_status k' = k_status k"
    and "\<And>k. tasklets s' a = Some k \<Longrightarrow> k_status k AND RX_SCHED_TASKLET \<noteq> 0 \<longleftrightarrow> a \<in> set ks'"
    and "set ks' - {a} = set ks - {a}"
  shows "tasklets_inv s' ks'"
  unfolding tasklets_inv_def
proof (intro conjI allI impI)
  fix b k'
  assume k': "tasklets s' b = Some k'"
  show "k_status k' AND RX_SCHED_TASKLET \<noteq> 0 \<longleftrightarrow> b \<in> set ks'"
  proof (cases "b = a")
    case True
    with assms(4) k' show ?thesis by simp
  next
    case False
    with assms(3) k' obtain k where "tasklets s b = Some k" "k_status k' = k_status k" by blast
    with tasklets_inv_flag [OF assms(1)] assms(5) False show ?thesis by auto
  qed
qed (rule assms(2))


section \<open>Scheduling\<close>

lemma schedule_noop:
  assumes "tasklets s a = Some k" and "k_status k AND RX_SCHED_TASKLET \<noteq> 0 \<or> k_status k AND RX_ENABLE_TASKLET = 0"
  shows "rx_schedule_tasklet (Some a) s = Some (rx_exit_critical (rx_enter_critical s))"
  using assms by (auto simp: rx_schedule_tasklet_def)

definition scheduled :: "tasklet \<Rightarrow> tasklet" where
  "scheduled k = k\<lparr>k_status := k_status k OR RX_SCHED_TASKLET\<rparr>"

lemma schedule_spec:
  assumes i: "tasklets_inv s ks" and k: "tasklets s a = Some k" "k_next k = NULL" "k_prev k = NULL"
    and st: "k_status k AND RX_SCHED_TASKLET = 0" "k_status k AND RX_ENABLE_TASKLET \<noteq> 0"
  shows "\<exists>s' v. rx_schedule_tasklet (Some a) s = Some s' \<and> tasklets_inv s' (ks @ [a]) \<and>
              tasklets s' a = Some ((scheduled k)\<lparr>k_prev := v\<rparr>)"
proof -
  have a: "a \<notin> set ks" using tasklets_inv_flag [OF i k(1)] st(1) by auto
  let ?s2 = "(rx_enter_critical s)\<lparr>tasklets := (tasklets s)(a \<mapsto> scheduled k)\<rparr>"
  have nx2: "tasklet_next ?s2 = tasklet_next s" "tasklet_prev ?s2 = tasklet_prev s"
    using k by (auto simp: tasklet_next_def tasklet_prev_def scheduled_def)
  have d: "dlst (tasklet_next s) (tasklet_prev s) (sys_tasklet_list s) ks" by (rule tasklets_inv_dlst [OF i])
  show ?thesis
  proof (cases ks rule: rev_cases)
    case Nil
    then have h: "sys_tasklet_list s = NULL" using d by simp
    let ?s' = "rx_exit_critical (?s2\<lparr>sys_tasklet_list := Some a\<rparr>)"
    have run: "rx_schedule_tasklet (Some a) s = Some ?s'"
      using k st h by (simp add: rx_schedule_tasklet_def scheduled_def)
    have "dlst (tasklet_next s) (tasklet_prev s) (Some a) (ks @ [a])"
      using k Nil by (simp add: dlst_def tasklet_next_def tasklet_prev_def)
    moreover have "tasklet_next ?s' = tasklet_next s" "tasklet_prev ?s' = tasklet_prev s"
      using nx2 tasklet_links_cong [of ?s' ?s2] by simp_all
    ultimately have "tasklets_inv ?s' (ks @ [a])"
      by (intro tasklets_invI [OF i, where a = a]) (auto simp: scheduled_def split: if_splits)
    with run show ?thesis by (intro exI [of _ ?s'] exI [of _ "k_prev k"]) (simp add: scheduled_def)
  next
    case (snoc us b)
    then obtain h where h: "sys_tasklet_list s = Some h" using d by (cases us) (auto simp: dlst_def)
    have l: "lst (tasklet_next ?s2) (Some h) ks" using dlst_lst [OF d] h nx2 by simp
    then have wl: "walk_last (tasklet_next ?s2) h = Some b" using walk_last_lst [OF l] snoc by simp
    have ba: "b \<noteq> a" using a snoc by auto
    obtain kb where kb: "tasklets s b = Some kb"
      using dlst_mapped(1) [OF d, of b] snoc by (auto simp: tasklet_next_def)
    let ?s3 = "?s2\<lparr>tasklets := (tasklets ?s2)(b \<mapsto> kb\<lparr>k_next := Some a\<rparr>)\<rparr>"
    let ?s4 = "?s3\<lparr>tasklets := (tasklets ?s3)(a \<mapsto> (scheduled k)\<lparr>k_prev := Some b\<rparr>)\<rparr>"
    have run: "rx_schedule_tasklet (Some a) s = Some (rx_exit_critical ?s4)"
      using k st h wl kb ba by (simp add: rx_schedule_tasklet_def scheduled_def set_tasklet_next_def)
    have na: "tasklet_next s a = Some NULL" using k by (simp add: tasklet_next_def)
    have "dlst ((tasklet_next s)(b := Some (Some a))) ((tasklet_prev s)(a := Some (Some b)))
        (sys_tasklet_list s) (us @ [b, a])"
      using dlst_insert_end [OF d [unfolded snoc] a [unfolded snoc] na] .
    moreover have "tasklet_next ?s4 = (tasklet_next s)(b := Some (Some a))"
      "tasklet_prev ?s4 = (tasklet_prev s)(a := Some (Some b))"
      using k kb ba by (auto simp: tasklet_next_def tasklet_prev_def scheduled_def fun_eq_iff)
    ultimately have "tasklets_inv (rx_exit_critical ?s4) (ks @ [a])"
      using kb k by (intro tasklets_invI [OF i, where a = a]) (auto simp: scheduled_def snoc split: if_splits)
    with run show ?thesis by (intro exI [of _ "rx_exit_critical ?s4"] exI [of _ "Some b"]) simp
  qed
qed


section \<open>Disabling\<close>

lemma dlst_remove_end:
  assumes "dlst nx pv p (xs @ [b, a])"
  shows "dlst (nx(b := Some NULL)) pv p (xs @ [b])"
  using assms dlst_distinct [OF assms] by (auto simp: dlst_def)

lemma dlst_outside:
  "a \<notin> set xs \<Longrightarrow> dlst (nx(a := u)) (pv(a := v)) p xs = dlst nx pv p xs"
  by (simp add: dlst_def)

lemma tasklet_at: "dlst (tasklet_next s) pv p xs \<Longrightarrow> a \<in> set xs \<Longrightarrow> \<exists>k. tasklets s a = Some k"
  using dlst_mapped(1) [of "tasklet_next s" pv p xs a] by (auto simp: tasklet_next_def)

text \<open>What unlinking changes: links only, and those of the tasklet itself are cleared.\<close>

definition same_but_klinks :: "kstate \<Rightarrow> kstate \<Rightarrow> bool" where
  "same_but_klinks s s' \<longleftrightarrow>
     (\<forall>b k'. tasklets s' b = Some k' \<longrightarrow>
        (\<exists>k. tasklets s b = Some k \<and> k_status k' = k_status k \<and> k_func k' = k_func k \<and> k_data k' = k_data k))"

lemma unlink_spec:
  assumes d: "dlst (tasklet_next s) (tasklet_prev s) (sys_tasklet_list s) (pre @ a # suf)"
  shows "\<exists>s' k'. tasklet_unlink (Some a) s = Some s' \<and>
              dlst (tasklet_next s') (tasklet_prev s') (sys_tasklet_list s') (pre @ suf) \<and>
              tasklets s' a = Some k' \<and> k_next k' = NULL \<and> k_prev k' = NULL \<and> same_but_klinks s s'"
proof -
  have dst: "distinct (pre @ a # suf)" by (rule dlst_distinct [OF d])
  obtain k where k: "tasklets s a = Some k" using tasklet_at [OF d, of a] by auto
  let ?k = "k\<lparr>k_next := NULL, k_prev := NULL\<rparr>"
  have lk: "tasklet_next s a = Some (k_next k)" "tasklet_prev s a = Some (k_prev k)"
    using k by (simp_all add: tasklet_next_def tasklet_prev_def)
  consider (alone) "pre = []" "suf = []" | (at_front) y ys where "pre = []" "suf = y # ys"
    | (at_end) xs b where "pre = xs @ [b]" "suf = []" | (inside) xs b y ys where "pre = xs @ [b]" "suf = y # ys"
    by (cases pre rule: rev_cases; cases suf) auto
  then show ?thesis
  proof cases
    case alone
    then have "k_prev k = NULL" "k_next k = NULL" using d lk by (auto simp: dlst_def)
    then show ?thesis using alone k
      by (simp add: tasklet_unlink_def same_but_klinks_def)
  next
    case at_front
    then obtain ky where ky: "tasklets s y = Some ky" using tasklet_at [OF d, of y] by auto
    have e: "k_prev k = NULL" "k_next k = Some y" using d lk at_front by (auto simp: dlst_def)
    have ya: "y \<noteq> a" "a \<notin> set suf" using dst at_front by auto
    let ?s1 = "s\<lparr>sys_tasklet_list := Some y, tasklets := (tasklets s)(y \<mapsto> ky\<lparr>k_prev := NULL\<rparr>)\<rparr>"
    let ?s' = "?s1\<lparr>tasklets := (tasklets ?s1)(a \<mapsto> ?k)\<rparr>"
    have run: "tasklet_unlink (Some a) s = Some ?s'" using k e ky ya by (simp add: tasklet_unlink_def)
    have "dlst (tasklet_next s) ((tasklet_prev s)(y := Some NULL)) (Some y) suf"
      using dlst_remove_front(2) [of "tasklet_next s" "tasklet_prev s" "sys_tasklet_list s" a y ys] d at_front by simp
    moreover have "tasklet_next ?s' = (tasklet_next s)(a := Some NULL)"
      "tasklet_prev ?s' = ((tasklet_prev s)(y := Some NULL))(a := Some NULL)"
      using ky ya by (auto simp: tasklet_next_def tasklet_prev_def)
    ultimately have "dlst (tasklet_next ?s') (tasklet_prev ?s') (Some y) suf"
      using dlst_outside [OF ya(2), of "tasklet_next s"] by (simp del: fun_upd_apply)
    then show ?thesis using run at_front k ky by (auto simp: same_but_klinks_def)
  next
    case at_end
    then obtain kb where kb: "tasklets s b = Some kb" using tasklet_at [OF d, of b] by auto
    have db: "dlst (tasklet_next s) (tasklet_prev s) (sys_tasklet_list s) (xs @ [b, a])" using d at_end by simp
    have e: "k_next k = NULL" "k_prev k = Some b" using dlst_end_links [OF db] lk by simp_all
    have ba: "b \<noteq> a" "a \<notin> set pre" using dst at_end by auto
    let ?s1 = "s\<lparr>tasklets := (tasklets s)(b \<mapsto> kb\<lparr>k_next := NULL\<rparr>)\<rparr>"
    let ?s' = "?s1\<lparr>tasklets := (tasklets ?s1)(a \<mapsto> ?k)\<rparr>"
    have run: "tasklet_unlink (Some a) s = Some ?s'" using k e kb ba by (simp add: tasklet_unlink_def)
    have "dlst ((tasklet_next s)(b := Some NULL)) (tasklet_prev s) (sys_tasklet_list s) pre"
      using dlst_remove_end [OF db] at_end by simp
    moreover have "tasklet_next ?s' = ((tasklet_next s)(b := Some NULL))(a := Some NULL)"
      "tasklet_prev ?s' = (tasklet_prev s)(a := Some NULL)"
      using kb ba by (auto simp: tasklet_next_def tasklet_prev_def)
    ultimately have "dlst (tasklet_next ?s') (tasklet_prev ?s') (sys_tasklet_list s) pre"
      using dlst_outside [OF ba(2), of _ _ "tasklet_prev s"] by (simp del: fun_upd_apply)
    then show ?thesis using run at_end k kb by (auto simp: same_but_klinks_def)
  next
    case inside
    then obtain kb ky where kb: "tasklets s b = Some kb" and ky: "tasklets s y = Some ky"
      using tasklet_at [OF d, of b] tasklet_at [OF d, of y] by auto
    have dm: "dlst (tasklet_next s) (tasklet_prev s) (sys_tasklet_list s) (xs @ b # a # y # ys)" using d inside by simp
    have e: "k_next k = Some y" "k_prev k = Some b" using dlst_remove_mid(1,2) [OF dm] lk by simp_all
    have ne: "b \<noteq> a" "y \<noteq> a" "b \<noteq> y" "a \<notin> set (pre @ suf)" using dst inside by auto
    let ?s1 = "s\<lparr>tasklets := (tasklets s)(b \<mapsto> kb\<lparr>k_next := Some y\<rparr>)\<rparr>"
    let ?s2 = "?s1\<lparr>tasklets := (tasklets ?s1)(y \<mapsto> ky\<lparr>k_prev := Some b\<rparr>)\<rparr>"
    let ?s' = "?s2\<lparr>tasklets := (tasklets ?s2)(a \<mapsto> ?k)\<rparr>"
    have run: "tasklet_unlink (Some a) s = Some ?s'" using k e kb ky ne by (simp add: tasklet_unlink_def)
    have "dlst ((tasklet_next s)(b := Some (Some y))) ((tasklet_prev s)(y := Some (Some b))) (sys_tasklet_list s) (pre @ suf)"
      using dlst_remove_mid(3) [OF dm] inside by simp
    moreover have "tasklet_next ?s' = ((tasklet_next s)(b := Some (Some y)))(a := Some NULL)"
      "tasklet_prev ?s' = ((tasklet_prev s)(y := Some (Some b)))(a := Some NULL)"
      using kb ky ne by (auto simp: tasklet_next_def tasklet_prev_def)
    ultimately have "dlst (tasklet_next ?s') (tasklet_prev ?s') (sys_tasklet_list s) (pre @ suf)"
      using dlst_outside [OF ne(4)] by (simp del: fun_upd_apply)
    then show ?thesis using run k kb ky by (auto simp: same_but_klinks_def)
  qed
qed

lemma disable_spec:
  assumes i: "tasklets_inv s (pre @ a # suf)"
  shows "\<exists>s' k. rx_disable_tasklet (Some a) s = Some s' \<and> tasklets_inv s' (pre @ suf) \<and>
              tasklets s' a = Some k \<and> k_status k = RX_DISABLE_TASKLET \<and> k_next k = NULL \<and> k_prev k = NULL"
proof -
  have d: "dlst (tasklet_next (rx_enter_critical s)) (tasklet_prev (rx_enter_critical s))
      (sys_tasklet_list (rx_enter_critical s)) (pre @ a # suf)" using tasklets_inv_dlst [OF i] by simp
  obtain k where k: "tasklets s a = Some k" using tasklet_at [OF tasklets_inv_dlst [OF i], of a] by auto
  have st: "k_status k AND RX_SCHED_TASKLET \<noteq> 0" using tasklets_inv_flag [OF i k] by simp
  then have "k_status k \<noteq> RX_DISABLE_TASKLET" by (auto simp: RX_DISABLE_TASKLET_def)
  moreover obtain s1 k1 where s1: "tasklet_unlink (Some a) (rx_enter_critical s) = Some s1"
    "dlst (tasklet_next s1) (tasklet_prev s1) (sys_tasklet_list s1) (pre @ suf)"
    "tasklets s1 a = Some k1" "k_next k1 = NULL" "k_prev k1 = NULL" "same_but_klinks (rx_enter_critical s) s1"
    using unlink_spec [OF d] by blast
  let ?k = "k1\<lparr>k_status := RX_DISABLE_TASKLET\<rparr>"
  let ?s2 = "s1\<lparr>tasklets := (tasklets s1)(a \<mapsto> ?k)\<rparr>"
  have a: "a \<notin> set (pre @ suf)" using dlst_distinct [OF d] by auto
  have run: "rx_disable_tasklet (Some a) s = Some (rx_exit_critical ?s2)"
    using k st calculation s1(1,3) by (simp add: rx_disable_tasklet_def)
  have "tasklet_next ?s2 = tasklet_next s1" "tasklet_prev ?s2 = tasklet_prev s1"
    using s1(3) by (auto simp: tasklet_next_def tasklet_prev_def)
  then have "tasklets_inv (rx_exit_critical ?s2) (pre @ suf)"
    using s1(2,6) a
    by (intro tasklets_invI [OF i, where a = a])
      (auto simp: same_but_klinks_def RX_DISABLE_TASKLET_def simp del: tasklet_links_upd split: if_splits)
  with run s1(4,5) show ?thesis by (intro exI [of _ "rx_exit_critical ?s2"] exI [of _ ?k]) simp
qed


section \<open>The bottom half\<close>

text \<open>What is assumed of a tasklet's function: it returns and leaves the tasklets alone.\<close>

definition quiet :: "(nat \<Rightarrow> 32 word \<Rightarrow> kstate \<Rightarrow> kstate option) \<Rightarrow> bool" where
  "quiet app \<longleftrightarrow> (\<forall>f d s. \<exists>s'. app f d s = Some s' \<and> tasklets s' = tasklets s \<and>
                               sys_tasklet_list s' = sys_tasklet_list s)"

lemma quietE:
  assumes "quiet app"
  obtains s' where "app f d s = Some s'" "tasklets s' = tasklets s" "sys_tasklet_list s' = sys_tasklet_list s"
  using assms unfolding quiet_def by blast

definition ran :: "tasklet \<Rightarrow> tasklet" where
  "ran k = k\<lparr>k_status := ((k_status k OR RX_RUNNING_TASKLET) AND NOT RX_SCHED_TASKLET) AND NOT RX_RUNNING_TASKLET\<rparr>"

lemma bh_process_spec:
  assumes q: "quiet app" and h: "sys_tasklet_list s = Some a" and k: "tasklets s a = Some k"
  shows "\<exists>s' x y. bh_process app s = Some s' \<and> app (k_func k) (k_data k) x = Some y \<and>
              tasklets s' = (tasklets s)(a \<mapsto> ran k) \<and> sys_tasklet_list s' = k_next k"
proof -
  let ?k1 = "k\<lparr>k_status := (k_status k OR RX_RUNNING_TASKLET) AND NOT RX_SCHED_TASKLET\<rparr>"
  let ?s2 = "(rx_enter_critical s)\<lparr>sys_tasklet_list := k_next k, tasklets := (tasklets s)(a \<mapsto> ?k1)\<rparr>"
  obtain s3 where s3: "app (k_func k) (k_data k) (rx_exit_critical ?s2) = Some s3" "tasklets s3 = tasklets ?s2"
    "sys_tasklet_list s3 = k_next k" by (rule quietE [OF q, of "k_func k" "k_data k" "rx_exit_critical ?s2"]) auto
  let ?s4 = "(rx_enter_critical s3)\<lparr>tasklets := (tasklets s)(a \<mapsto> ran k)\<rparr>"
  have "bh_process app s = Some (rx_exit_critical ?s4)"
    using h k s3 by (simp add: bh_process_def ran_def)
  then show ?thesis using s3 by (intro exI [of _ "rx_exit_critical ?s4"] exI [of _ "rx_exit_critical ?s2"] exI [of _ s3]) simp
qed

definition in_cycle :: "links \<Rightarrow> addr \<Rightarrow> bool" where
  "in_cycle nx x \<longleftrightarrow> (\<exists>y. nx x = Some (Some y) \<and> nx y = Some (Some x))"

lemma walk_last_not_cycle: "walk_last nx x = Some r \<Longrightarrow> \<not> in_cycle nx x"
proof (rule walk_last.raw_induct [where P = "\<lambda>nx x r. \<not> in_cycle nx x"])
  fix walk :: "links \<Rightarrow> addr \<Rightarrow> addr option" and nx x r
  assume ih: "\<And>nx x r. walk nx x = Some r \<Longrightarrow> \<not> in_cycle nx x"
    and run: "Option.bind (nx x) (\<lambda>n. case n of None \<Rightarrow> Some x | Some b \<Rightarrow> walk nx b) = Some r"
  show "\<not> in_cycle nx x"
  proof
    assume "in_cycle nx x"
    then obtain y where "nx x = Some (Some y)" "in_cycle nx y" by (auto simp: in_cycle_def)
    with run ih [of nx y r] show False by simp
  qed
qed

lemma walk_last_cycle:
  assumes "nx a = Some (Some b)" and "nx b = Some (Some a)"
  shows "walk_last nx a = None"
  using walk_last_not_cycle [of nx a] assms by (cases "walk_last nx a") (auto simp: in_cycle_def)


section \<open>Properties\<close>

text \<open>
  A concrete state for the examples: tasklets 800 and 801 are scheduled in this order, 802 is
  enabled and idle. In \<open>demo_idle\<close> nothing is scheduled.
\<close>

definition demo_tasklet :: "32 word \<Rightarrow> ptr \<Rightarrow> ptr \<Rightarrow> tasklet" where
  "demo_tasklet st nx pv = \<lparr>k_status = st, k_func = 7, k_data = 42, k_next = nx, k_prev = pv\<rparr>"

definition demo_tasklets :: kstate where
  "demo_tasklets = demo_ready\<lparr>sys_tasklet_list := Some 800,
     tasklets := [800 \<mapsto> demo_tasklet 3 (Some 801) NULL, 801 \<mapsto> demo_tasklet 3 NULL (Some 800),
                  802 \<mapsto> demo_tasklet 1 NULL NULL]\<rparr>"

definition demo_idle :: kstate where
  "demo_idle = demo_ready\<lparr>sys_tasklet_list := NULL, tasklets := [802 \<mapsto> demo_tasklet 1 NULL NULL]\<rparr>"

lemma demo_tasklets_simps [simp]:
  "tasklets demo_tasklets = [800 \<mapsto> demo_tasklet 3 (Some 801) NULL, 801 \<mapsto> demo_tasklet 3 NULL (Some 800),
                  802 \<mapsto> demo_tasklet 1 NULL NULL]"
  "sys_tasklet_list demo_tasklets = Some 800"
  "tasklets demo_idle = [802 \<mapsto> demo_tasklet 1 NULL NULL]" "sys_tasklet_list demo_idle = NULL"
  by (simp_all add: demo_tasklets_def demo_idle_def)

lemma demo_tasklets_inv: "tasklets_inv demo_tasklets [800, 801]" "tasklets_inv demo_idle []"
  by (simp_all add: tasklets_inv_def dlst_def tasklet_next_def tasklet_prev_def demo_tasklet_def
      RX_SCHED_TASKLET_def)

lemma quiet_id: "quiet (\<lambda>_ _. Some)"
  by (simp add: quiet_def)



text \<open>
  A tasklet that is scheduled several times before it runs, runs once: on an empty list,
  two calls of \<^verbatim>\<open>rx_schedule_tasklet\<close> and one turn of the bottom half call its function on
  its data and leave the list empty and the tasklet enabled and idle as before, so that it can
  be scheduled again.
\<close>

theorem tasklet_runs_once:
  assumes "quiet app" and "tasklets_inv s []" and "tasklets s a = Some k" and "k_status k = RX_ENABLE_TASKLET"
    and "k_next k = NULL" and "k_prev k = NULL"
  shows "\<exists>s1 s2 s3 x y. rx_schedule_tasklet (Some a) s = Some s1 \<and> rx_schedule_tasklet (Some a) s1 = Some s2 \<and>
           tasklets_inv s2 [a] \<and> bh_process app s2 = Some s3 \<and> app (k_func k) (k_data k) x = Some y \<and>
           tasklets_inv s3 [] \<and> tasklets s3 a = Some k"
proof -
  have st: "k_status k AND RX_SCHED_TASKLET = 0" "k_status k AND RX_ENABLE_TASKLET \<noteq> 0"
    using assms(4) by (simp_all add: tasklet_flags)
  have h: "sys_tasklet_list s = NULL" using assms(2) by (simp add: tasklets_inv_def)
  let ?s1 = "rx_exit_critical ((rx_enter_critical s)\<lparr>tasklets := (tasklets s)(a \<mapsto> scheduled k), sys_tasklet_list := Some a\<rparr>)"
  have r1: "rx_schedule_tasklet (Some a) s = Some ?s1"
    using assms(3) st h by (simp add: rx_schedule_tasklet_def scheduled_def)
  then have i1: "tasklets_inv ?s1 [a]" using schedule_spec [OF assms(2,3,5,6) st] by auto
  let ?s2 = "rx_exit_critical (rx_enter_critical ?s1)"
  have k1: "tasklets ?s1 a = Some (scheduled k)" by simp
  have r2: "rx_schedule_tasklet (Some a) ?s1 = Some ?s2"
    by (rule schedule_noop [OF k1]) (simp add: scheduled_def)
  have i2: "tasklets_inv ?s2 [a]" using i1 tasklets_inv_cong [of ?s2 ?s1] by simp
  have k2: "tasklets ?s2 a = Some (scheduled k)" and h2: "sys_tasklet_list ?s2 = Some a" by simp_all
  obtain s3 x y where s3: "bh_process app ?s2 = Some s3" "app (k_func k) (k_data k) x = Some y"
    "tasklets s3 = (tasklets ?s2)(a \<mapsto> ran (scheduled k))" "sys_tasklet_list s3 = NULL"
    using bh_process_spec [OF assms(1) h2 k2] assms(5) by (auto simp: scheduled_def)
  have rk: "ran (scheduled k) = k" using assms(4) by (cases k) (simp add: ran_def scheduled_def tasklet_flags)
  have "tasklets_inv s3 []"
    using tasklets_inv_flag [OF assms(2)] s3(3,4) rk assms(3) by (auto simp: tasklets_inv_def split: if_splits)
  then show ?thesis using r1 r2 i2 s3 rk by auto
qed

theorem tasklet_runs_once_witness:
  "\<exists>s1 s2 s3. rx_schedule_tasklet (Some 802) demo_idle = Some s1 \<and> rx_schedule_tasklet (Some 802) s1 = Some s2 \<and>
     bh_process (\<lambda>_ _. Some) s2 = Some s3 \<and> tasklets_inv s3 []"
  using tasklet_runs_once [OF quiet_id demo_tasklets_inv(2), of 802 "demo_tasklet 1 NULL NULL"]
  by (auto simp: demo_tasklet_def RX_ENABLE_TASKLET_def)

text \<open>
  Rescheduling while others wait: the bottom half leaves the \<^verbatim>\<open>next\<close> of the tasklet it
  runs in place. With two scheduled tasklets, running the first and scheduling it again closes
  the list into a cycle, and the next \<^verbatim>\<open>rx_schedule_tasklet\<close> of another tasklet does not
  return.
\<close>

theorem tasklet_reschedule_cycle:
  assumes "quiet app" and "tasklets_inv s [a, b]"
    and "tasklets s a = Some k" and "k_status k = RX_ENABLE_TASKLET OR RX_SCHED_TASKLET"
    and "tasklets s c = Some kc" and "c \<noteq> a" and "c \<noteq> b" and "k_status kc = RX_ENABLE_TASKLET"
  shows "\<exists>s1 s2. bh_process app s = Some s1 \<and> rx_schedule_tasklet (Some a) s1 = Some s2 \<and>
           rx_schedule_tasklet (Some c) s2 = None"
proof -
  have d: "dlst (tasklet_next s) (tasklet_prev s) (sys_tasklet_list s) [a, b]" by (rule tasklets_inv_dlst [OF assms(2)])
  have ab: "a \<noteq> b" using dlst_distinct [OF d] by simp
  obtain kb where kb: "tasklets s b = Some kb" using tasklet_at [OF d, of b] by auto
  have lk: "sys_tasklet_list s = Some a" "k_next k = Some b" "k_next kb = NULL"
    using d assms(3) kb by (auto simp: dlst_def tasklet_next_def)
  obtain s1 where s1: "bh_process app s = Some s1" "tasklets s1 = (tasklets s)(a \<mapsto> ran k)"
    "sys_tasklet_list s1 = Some b" using bh_process_spec [OF assms(1) lk(1) assms(3)] lk(2) by auto
  have st: "k_status (ran k) = RX_ENABLE_TASKLET" "k_next (ran k) = Some b"
    using assms(4) lk(2) by (simp_all add: ran_def tasklet_flags)
  let ?s2 = "(rx_enter_critical s1)\<lparr>tasklets := (tasklets s1)(a \<mapsto> scheduled (ran k))\<rparr>"
  have "walk_last (tasklet_next ?s2) b = Some b"
    using kb lk(3) ab s1(2) by (subst walk_last.simps) (simp add: tasklet_next_def)
  let ?s3 = "?s2\<lparr>tasklets := (tasklets ?s2)(b \<mapsto> kb\<lparr>k_next := Some a\<rparr>)\<rparr>"
  let ?s4 = "?s3\<lparr>tasklets := (tasklets ?s3)(a \<mapsto> (scheduled (ran k))\<lparr>k_prev := Some b\<rparr>)\<rparr>"
  have r2: "rx_schedule_tasklet (Some a) s1 = Some (rx_exit_critical ?s4)"
    using \<open>walk_last (tasklet_next ?s2) b = Some b\<close> s1(2,3) st(1) kb ab
    by (simp add: rx_schedule_tasklet_def scheduled_def set_tasklet_next_def tasklet_flags)
  let ?s5 = "(rx_enter_critical (rx_exit_critical ?s4))\<lparr>tasklets := (tasklets ?s4)(c \<mapsto> scheduled kc)\<rparr>"
  have "tasklet_next ?s5 b = Some (Some a)" "tasklet_next ?s5 a = Some (Some b)"
    using assms(6,7) ab st(2) by (simp_all add: tasklet_next_def scheduled_def)
  then have "walk_last (tasklet_next ?s5) b = None" by (rule walk_last_cycle)
  then have "rx_schedule_tasklet (Some c) (rx_exit_critical ?s4) = None"
    using assms(5-8) s1(2,3) by (simp add: rx_schedule_tasklet_def scheduled_def tasklet_flags)
  with s1(1) r2 show ?thesis by blast
qed

theorem tasklet_reschedule_cycle_witness:
  "\<exists>s1 s2. bh_process (\<lambda>_ _. Some) demo_tasklets = Some s1 \<and> rx_schedule_tasklet (Some 800) s1 = Some s2 \<and>
     rx_schedule_tasklet (Some 802) s2 = None"
  using tasklet_reschedule_cycle [OF quiet_id demo_tasklets_inv(1), of "demo_tasklet 3 (Some 801) NULL" 802
      "demo_tasklet 1 NULL NULL"]
  by (simp add: demo_tasklet_def tasklet_flags)

end
