(* ===== verification/RX_Device.thy ===== *)
theory RX_Device
  imports RX_Wait
begin

text \<open>
  The driver core (\<^verbatim>\<open>kernel/rx_device.c\<close>) and the console driver of the simulator
  (\<^verbatim>\<open>drivers/simulator/x86sim.c\<close>). A descriptor is an index into the array
  \<^verbatim>\<open>desc\<close>; the field \<^verbatim>\<open>dev\<close> of a descriptor points into the device table and is
  the index of the device here. An access outside an array and a call through a NULL function
  pointer have no defined result.
\<close>

section \<open>Operations\<close>

definition CONFIG_MAX_DEVICE_DESC :: nat where "CONFIG_MAX_DEVICE_DESC = 5"
definition ENXIO :: int where "ENXIO = 6"
definition ENOMEM :: int where "ENOMEM = 12"
definition ENODEV :: int where "ENODEV = 19"

lemmas errno_defs = ENXIO_def ENOMEM_def ENODEV_def

text \<open>The calls a driver receives, with their arguments behind the descriptor.\<close>

datatype dev_call =
    Dev_Open
  | Dev_Release
  | Dev_Read nat nat
  | Dev_Write nat nat
  | Dev_Ioctl "32 word" ptr
  | Dev_Poll "32 word" int

type_synonym dev_runner = "dev_fn \<Rightarrow> nat \<Rightarrow> dev_call \<Rightarrow> kstate \<Rightarrow> (int \<times> kstate) option"

definition x86_sim_open :: "kstate \<Rightarrow> int \<times> kstate" where
  "x86_sim_open s = (0, s)"

definition x86_sim_release :: "kstate \<Rightarrow> int \<times> kstate" where
  "x86_sim_release s = (0, s)"

definition x86_sim_write :: "nat \<Rightarrow> nat \<Rightarrow> kstate \<Rightarrow> int \<times> kstate" where
  "x86_sim_write src sz s = (int sz, s\<lparr>console := console s @ [char_of (unat (mem s src))]\<rparr>)"

text \<open>A call through a pointer of \<^verbatim>\<open>struct device_ops\<close>; \<open>app\<close> are the drivers of an application.\<close>

definition run_dev :: "(nat \<Rightarrow> nat \<Rightarrow> dev_call \<Rightarrow> kstate \<Rightarrow> (int \<times> kstate) option) \<Rightarrow> dev_runner" where
  "run_dev app f i c s =
     (case f of
        X86_Sim_Open \<Rightarrow> Some (x86_sim_open s)
      | X86_Sim_Release \<Rightarrow> Some (x86_sim_release s)
      | X86_Sim_Write \<Rightarrow> (case c of Dev_Write src sz \<Rightarrow> Some (x86_sim_write src sz s) | _ \<Rightarrow> None)
      | App_Dev k \<Rightarrow> app k i c s)"

definition sim_fops :: device_ops where
  "sim_fops = \<lparr>op_open = Some X86_Sim_Open, op_release = Some X86_Sim_Release, op_read = None,
     op_write = Some X86_Sim_Write, op_ioctl = None, op_poll = None\<rparr>"

text \<open>The two search loops: the first device of a name, the first free descriptor.\<close>

fun find_device :: "string \<Rightarrow> device list \<Rightarrow> nat option" where
  "find_device name [] = None"
| "find_device name (d # ds) = (if name = d_name d then Some 0 else map_option Suc (find_device name ds))"

fun find_free_desc :: "devfile list \<Rightarrow> nat option" where
  "find_free_desc [] = None"
| "find_free_desc (f # fs) = (if f_dev f = None then Some 0 else map_option Suc (find_free_desc fs))"

definition get_desc :: "int \<Rightarrow> kstate \<Rightarrow> devfile option" where
  "get_desc i s = (if 0 \<le> i \<and> nat i < length (desc s) then Some (desc s ! nat i) else None)"

definition set_desc_dev :: "nat \<Rightarrow> nat option \<Rightarrow> kstate \<Rightarrow> kstate" where
  "set_desc_dev i d s = s\<lparr>desc := (desc s)[i := (desc s ! i)\<lparr>f_dev := d\<rparr>]\<rparr>"

definition desc_device :: "nat \<Rightarrow> kstate \<Rightarrow> (nat \<times> device) option" where
  "desc_device i s =
     do { f \<leftarrow> get_desc (int i) s;
          d \<leftarrow> f_dev f;
          (if d < length (device_table s) then Some (d, device_table s ! d) else None) }"

definition add_open_count :: "nat \<Rightarrow> int \<Rightarrow> kstate \<Rightarrow> kstate option" where
  "add_open_count i n s =
     do { (d, dev) \<leftarrow> desc_device i s;
          Some (s\<lparr>device_table := (device_table s)[d := dev\<lparr>d_device_open_count := d_device_open_count dev + n\<rparr>]\<rparr>) }"

definition rx_dev_open :: "dev_runner \<Rightarrow> string \<Rightarrow> int \<Rightarrow> kstate \<Rightarrow> (int \<times> kstate) option" where
  "rx_dev_open run filename flags s =
     (case find_device filename (device_table s) of
        None \<Rightarrow> Some (- ENODEV, s)
      | Some d \<Rightarrow>
          (if d_device_ops (device_table s ! d) = None then Some (- ENXIO, s)
           else case find_free_desc (desc s) of
             None \<Rightarrow> Some (- ENOMEM, s)
           | Some i \<Rightarrow>
               do { let s1 = set_desc_dev i (Some d) s;
                    (_, dev) \<leftarrow> desc_device i s1;
                    ops \<leftarrow> d_device_ops dev;
                    f \<leftarrow> op_open ops;
                    (ret, s2) \<leftarrow> run f i Dev_Open s1;
                    (if ret = 0
                     then do { s3 \<leftarrow> add_open_count i 1 s2; Some (int i, s3) }
                     else Some (ret, set_desc_dev i None s2)) }))"

text \<open>
  The calls on an open descriptor share their shape: a descriptor whose \<^verbatim>\<open>dev\<close> is NULL gives
  \<open>- ENODEV\<close>, otherwise the operation chosen by \<open>sel\<close> is called.
\<close>

definition dev_dispatch ::
    "dev_runner \<Rightarrow> (device_ops \<Rightarrow> dev_fn option) \<Rightarrow> dev_call \<Rightarrow> int \<Rightarrow> kstate \<Rightarrow> (int \<times> kstate) option" where
  "dev_dispatch run sel c desc_id s =
     do { df \<leftarrow> get_desc desc_id s;
          (if f_dev df \<noteq> None
           then do { (_, dev) \<leftarrow> desc_device (nat desc_id) s;
                     ops \<leftarrow> d_device_ops dev;
                     f \<leftarrow> sel ops;
                     run f (nat desc_id) c s }
           else Some (- ENODEV, s)) }"

definition rx_dev_close :: "dev_runner \<Rightarrow> int \<Rightarrow> kstate \<Rightarrow> (int \<times> kstate) option" where
  "rx_dev_close run desc_id s =
     do { df \<leftarrow> get_desc desc_id s;
          (if f_dev df \<noteq> None
           then do { (_, dev) \<leftarrow> desc_device (nat desc_id) s;
                     ops \<leftarrow> d_device_ops dev;
                     f \<leftarrow> op_release ops;
                     (ret, s1) \<leftarrow> run f (nat desc_id) Dev_Release s;
                     (if ret = 0
                      then do { s2 \<leftarrow> add_open_count (nat desc_id) (-1) s1;
                                Some (0, set_desc_dev (nat desc_id) None s2) }
                      else Some (ret, s1)) }
           else Some (- ENODEV, s)) }"

definition rx_dev_read :: "dev_runner \<Rightarrow> int \<Rightarrow> nat \<Rightarrow> nat \<Rightarrow> kstate \<Rightarrow> (int \<times> kstate) option" where
  "rx_dev_read run desc_id dest sz s = dev_dispatch run op_read (Dev_Read dest sz) desc_id s"

definition rx_dev_write :: "dev_runner \<Rightarrow> int \<Rightarrow> nat \<Rightarrow> nat \<Rightarrow> kstate \<Rightarrow> (int \<times> kstate) option" where
  "rx_dev_write run desc_id src sz s = dev_dispatch run op_write (Dev_Write src sz) desc_id s"

definition rx_dev_ioctl :: "dev_runner \<Rightarrow> int \<Rightarrow> 32 word \<Rightarrow> ptr \<Rightarrow> kstate \<Rightarrow> (int \<times> kstate) option" where
  "rx_dev_ioctl run desc_id cmd arg s = dev_dispatch run op_ioctl (Dev_Ioctl cmd arg) desc_id s"

definition rx_dev_poll :: "dev_runner \<Rightarrow> int \<Rightarrow> 32 word \<Rightarrow> int \<Rightarrow> kstate \<Rightarrow> (int \<times> kstate) option" where
  "rx_dev_poll run desc_id events timeout s = dev_dispatch run op_poll (Dev_Poll events timeout) desc_id s"

definition rx_poll_wait :: "ptr \<Rightarrow> kstate \<Rightarrow> (int call \<times> kstate) option" where
  "rx_poll_wait wq s = rx_wait_on wq s"

definition rx_register_driver :: "string \<Rightarrow> device_ops \<Rightarrow> kstate \<Rightarrow> int \<times> kstate" where
  "rx_register_driver name ops s =
     (case find_device name (device_table s) of
        None \<Rightarrow> (- ENODEV, s)
      | Some d \<Rightarrow>
          (if d_device_ops (device_table s ! d) \<noteq> None then (ENODEV, s)
           else (0, s\<lparr>device_table := (device_table s)[d := (device_table s ! d)\<lparr>d_device_ops := Some ops\<rparr>]\<rparr>)))"

definition x86_simulator_init :: "kstate \<Rightarrow> int \<times> kstate" where
  "x86_simulator_init s = (0, snd (rx_register_driver ''simx86'' sim_fops s))"

definition rx_driver_init :: "kstate \<Rightarrow> kstate" where
  "rx_driver_init s = snd (x86_simulator_init s)"

definition initial_device_table :: "device list" where
  "initial_device_table =
     [\<lparr>d_name = ''simx86'', d_device_ops = None, d_device_open_count = 0, d_private_data = NULL\<rparr>]"

definition initial_desc :: "devfile list" where
  "initial_desc = replicate CONFIG_MAX_DEVICE_DESC \<lparr>f_dev = None, f_flags = 0\<rparr>"


section \<open>Descriptors and open counts\<close>

lemma find_device_Some:
  "find_device n ds = Some d \<Longrightarrow> d < length ds \<and> d_name (ds ! d) = n \<and> (\<forall>j<d. d_name (ds ! j) \<noteq> n)"
proof (induction ds arbitrary: d)
  case (Cons x ds)
  show ?case
  proof (cases "n = d_name x")
    case True
    with Cons.prems show ?thesis by simp
  next
    case False
    with Cons.prems obtain e where "d = Suc e" "find_device n ds = Some e" by auto
    with Cons.IH [of e] False show ?thesis by (auto simp: less_Suc_eq_0_disj)
  qed
qed simp

lemma find_free_Some:
  "find_free_desc fs = Some i \<Longrightarrow> i < length fs \<and> f_dev (fs ! i) = None \<and> (\<forall>j<i. f_dev (fs ! j) \<noteq> None)"
proof (induction fs arbitrary: i)
  case (Cons x fs)
  show ?case
  proof (cases "f_dev x")
    case None
    with Cons.prems show ?thesis by simp
  next
    case (Some d)
    with Cons.prems obtain e where "i = Suc e" "find_free_desc fs = Some e" by auto
    with Cons.IH [of e] Some show ?thesis by (auto simp: less_Suc_eq_0_disj)
  qed
qed simp

lemma find_free_None: "find_free_desc fs = None \<longleftrightarrow> (\<forall>f\<in>set fs. f_dev f \<noteq> None)"
  by (induction fs) auto

text \<open>The open count of every device is the number of descriptors that refer to it.\<close>

definition open_descs :: "kstate \<Rightarrow> nat \<Rightarrow> nat" where
  "open_descs s d = length (filter (\<lambda>f. f_dev f = Some d) (desc s))"

definition devices_inv :: "kstate \<Rightarrow> bool" where
  "devices_inv s \<longleftrightarrow>
     (\<forall>d<length (device_table s). d_device_open_count (device_table s ! d) = int (open_descs s d)) \<and>
     (\<forall>f\<in>set (desc s). \<forall>d. f_dev f = Some d \<longrightarrow>
        d < length (device_table s) \<and> d_device_ops (device_table s ! d) \<noteq> None)"


lemma length_filter_update:
  "i < length xs \<Longrightarrow>
     int (length (filter P (xs[i := x]))) = int (length (filter P xs)) - of_bool (P (xs ! i)) + of_bool (P x)"
proof (induction xs arbitrary: i)
  case (Cons y ys)
  then show ?case by (cases i) auto
qed simp

lemma open_descs_set:
  assumes "i < length (desc s)"
  shows "int (open_descs (set_desc_dev i d s) e) =
           int (open_descs s e) - of_bool (f_dev (desc s ! i) = Some e) + of_bool (d = Some e)"
  using length_filter_update [OF assms, of "\<lambda>f. f_dev f = Some e"]
  by (simp add: open_descs_def set_desc_dev_def)

lemma desc_device_set:
  "i < length (desc s) \<Longrightarrow> d < length (device_table s) \<Longrightarrow>
     desc_device i (set_desc_dev i (Some d) s) = Some (d, device_table s ! d)"
  by (simp add: desc_device_def get_desc_def set_desc_dev_def)

lemma get_desc_set:
  "i < length (desc s) \<Longrightarrow> get_desc (int i) (set_desc_dev i d s) = Some ((desc s ! i)\<lparr>f_dev := d\<rparr>)"
  by (simp add: get_desc_def set_desc_dev_def)

lemma desc_cong:
  "desc s' = desc s \<Longrightarrow> get_desc j s' = get_desc j s"
  "desc s' = desc s \<Longrightarrow> device_table s' = device_table s \<Longrightarrow> desc_device i s' = desc_device i s"
  by (simp_all add: get_desc_def desc_device_def cong: if_cong)

definition opened :: "nat \<Rightarrow> nat \<Rightarrow> int \<Rightarrow> kstate \<Rightarrow> kstate" where
  "opened d i n s = (set_desc_dev i (Some d) s)\<lparr>device_table := (device_table s)[d :=
     (device_table s ! d)\<lparr>d_device_open_count := d_device_open_count (device_table s ! d) + n\<rparr>]\<rparr>"

lemma sim_open_spec:
  assumes "find_device name (device_table s) = Some d" and "d_device_ops (device_table s ! d) = Some sim_fops"
    and "find_free_desc (desc s) = Some i"
  shows "rx_dev_open (run_dev app) name flags s = Some (int i, opened d i 1 s)"
proof -
  have i: "i < length (desc s)" and d: "d < length (device_table s)"
    using find_free_Some [OF assms(3)] find_device_Some [OF assms(1)] by simp_all
  show ?thesis using assms desc_device_set [OF i d]
    by (simp add: rx_dev_open_def run_dev_def sim_fops_def x86_sim_open_def add_open_count_def opened_def
        set_desc_dev_def)
qed

lemma devices_inv_opened:
  assumes inv: "devices_inv s" and d: "d < length (device_table s)" "d_device_ops (device_table s ! d) \<noteq> None"
    and i: "i < length (desc s)" "f_dev (desc s ! i) = None"
  shows "devices_inv (opened d i 1 s)" and "open_descs (opened d i 1 s) d = open_descs s d + 1"
proof -
  let ?s = "opened d i 1 s"
  have ds: "desc ?s = desc (set_desc_dev i (Some d) s)" by (simp add: opened_def)
  have od: "int (open_descs ?s e) = int (open_descs s e) + of_bool (e = d)" for e
    using open_descs_set [OF i(1), of "Some d" e] i(2) ds by (simp add: open_descs_def)
  have "d_device_open_count (device_table ?s ! e) = int (open_descs ?s e)" if "e < length (device_table s)" for e
    using inv that d(1) od [of e] by (auto simp: devices_inv_def opened_def nth_list_update set_desc_dev_def)
  moreover have "e < length (device_table ?s) \<and> d_device_ops (device_table ?s ! e) \<noteq> None"
    if f: "f \<in> set (desc ?s)" "f_dev f = Some e" for f e
  proof -
    have "f \<in> insert ((desc s ! i)\<lparr>f_dev := Some d\<rparr>) (set (desc s))"
      using f(1) set_update_subset_insert [of "desc s" i] by (auto simp: ds set_desc_dev_def)
    then have "e < length (device_table s) \<and> d_device_ops (device_table s ! e) \<noteq> None"
      using inv f(2) d by (auto simp: devices_inv_def)
    then show ?thesis using d(1) by (auto simp: opened_def nth_list_update set_desc_dev_def)
  qed
  moreover have "length (device_table ?s) = length (device_table s)" by (simp add: opened_def)
  ultimately show "devices_inv ?s" by (simp add: devices_inv_def)
  show "open_descs ?s d = open_descs s d + 1" using od [of d] by simp
qed

lemma sim_write_spec:
  assumes "get_desc (int i) s = Some df" and "desc_device i s = Some (d, dev)" and "d_device_ops dev = Some sim_fops"
  shows "rx_dev_write (run_dev app) (int i) src sz s =
           Some (int sz, s\<lparr>console := console s @ [char_of (unat (mem s src))]\<rparr>)"
    and "rx_dev_read (run_dev app) (int i) src sz s = None"
proof -
  have "f_dev df \<noteq> None" using assms(1,2) by (cases "f_dev df") (simp_all add: desc_device_def)
  then show "rx_dev_write (run_dev app) (int i) src sz s =
           Some (int sz, s\<lparr>console := console s @ [char_of (unat (mem s src))]\<rparr>)"
    and "rx_dev_read (run_dev app) (int i) src sz s = None"
    using assms by (simp_all add: rx_dev_write_def rx_dev_read_def dev_dispatch_def run_dev_def sim_fops_def
        x86_sim_write_def)
qed

lemma close_desc_id:
  assumes "f_dev (ds ! i) = None"
  shows "ds[i := (ds ! i)\<lparr>f_dev := None\<rparr>] = ds"
proof -
  have "(ds ! i)\<lparr>f_dev := None\<rparr> = ds ! i" using assms by (cases "ds ! i") simp
  then show ?thesis by (simp only: list_update_id)
qed

lemma sim_close_spec:
  assumes i: "i < length (desc s)" "f_dev (desc s ! i) = None" and d: "d < length (device_table s)"
    and ops: "d_device_ops (device_table s ! d) = Some sim_fops"
  shows "\<exists>s'. rx_dev_close (run_dev app) (int i) (opened d i 1 s) = Some (0, s') \<and>
              desc s' = desc s \<and> device_table s' = device_table s"
proof -
  let ?s = "opened d i 1 s"
  let ?dev = "(device_table s ! d)\<lparr>d_device_open_count := d_device_open_count (device_table s ! d) + 1\<rparr>"
  have gd: "get_desc (int i) ?s = Some ((desc s ! i)\<lparr>f_dev := Some d\<rparr>)" "desc_device i ?s = Some (d, ?dev)"
    using i d by (simp_all add: get_desc_def desc_device_def opened_def set_desc_dev_def)
  have rd: "(desc s)[i := (desc s ! i)\<lparr>f_dev := None\<rparr>] = desc s" by (rule close_desc_id [OF i(2)])
  have rt: "?dev\<lparr>d_device_open_count := d_device_open_count ?dev - 1\<rparr> = device_table s ! d"
    by (cases "device_table s ! d") simp
  show ?thesis using gd ops i d rd rt
    by (simp add: rx_dev_close_def run_dev_def sim_fops_def x86_sim_release_def add_open_count_def
        set_desc_dev_def opened_def)
qed


section \<open>Properties\<close>

text \<open>A concrete state for the examples: the state after \<^verbatim>\<open>rx_driver_init\<close>.\<close>

definition demo_devices :: kstate where
  "demo_devices = rx_driver_init (blank_state\<lparr>device_table := initial_device_table, desc := initial_desc\<rparr>)"

lemma demo_devices_simps [simp]:
  "device_table demo_devices =
     [\<lparr>d_name = ''simx86'', d_device_ops = Some sim_fops, d_device_open_count = 0, d_private_data = NULL\<rparr>]"
  "desc demo_devices = replicate 5 \<lparr>f_dev = None, f_flags = 0\<rparr>"
  by (simp_all add: demo_devices_def rx_driver_init_def x86_simulator_init_def rx_register_driver_def
      initial_device_table_def initial_desc_def CONFIG_MAX_DEVICE_DESC_def)

lemma demo_devices_inv: "devices_inv demo_devices"
  by (simp add: devices_inv_def open_descs_def eval_nat_numeral)



text \<open>
  The errors of \<^verbatim>\<open>rx_dev_open\<close>: an unknown name gives \<open>- ENODEV\<close>, a device without a
  driver \<open>- ENXIO\<close>, no free descriptor \<open>- ENOMEM\<close>, each without any change; a driver that
  refuses with an error code has its descriptor taken back and its code returned. A call on a
  closed descriptor gives \<open>- ENODEV\<close>.
\<close>

theorem dev_open_errors:
  "(find_device name (device_table s) = None \<longrightarrow> rx_dev_open run name flags s = Some (- ENODEV, s)) \<and>
     (find_device name (device_table s) = Some d \<and> d_device_ops (device_table s ! d) = None \<longrightarrow>
        rx_dev_open run name flags s = Some (- ENXIO, s)) \<and>
     (find_device name (device_table s) = Some d \<and> d_device_ops (device_table s ! d) \<noteq> None \<and>
        (\<forall>f\<in>set (desc s). f_dev f \<noteq> None) \<longrightarrow> rx_dev_open run name flags s = Some (- ENOMEM, s)) \<and>
     (find_device name (device_table s) = Some d \<and> d_device_ops (device_table s ! d) = Some ops \<and>
        op_open ops = Some (App_Dev k) \<and> find_free_desc (desc s) = Some i \<and> e \<noteq> 0 \<longrightarrow>
        (\<exists>s'. rx_dev_open (run_dev (\<lambda>k i c s. Some (e, s))) name flags s = Some (e, s') \<and> desc s' = desc s \<and>
              device_table s' = device_table s)) \<and>
     (get_desc j s = Some df \<and> f_dev df = None \<longrightarrow>
        rx_dev_close run j s = Some (- ENODEV, s) \<and> rx_dev_write run j src sz s = Some (- ENODEV, s))"
proof (intro conjI impI)
  assume a: "find_device name (device_table s) = Some d \<and> d_device_ops (device_table s ! d) = Some ops \<and>
        op_open ops = Some (App_Dev k) \<and> find_free_desc (desc s) = Some i \<and> e \<noteq> 0"
  then have i: "i < length (desc s)" "f_dev (desc s ! i) = None" and d: "d < length (device_table s)"
    using find_free_Some [of "desc s" i] find_device_Some [of name "device_table s" d] by simp_all
  have rd: "(desc s)[i := (desc s ! i)\<lparr>f_dev := None\<rparr>] = desc s" by (rule close_desc_id [OF i(2)])
  show "\<exists>s'. rx_dev_open (run_dev (\<lambda>k i c s. Some (e, s))) name flags s = Some (e, s') \<and> desc s' = desc s \<and>
              device_table s' = device_table s"
    using a desc_device_set [OF i(1) d] i rd
    by (simp add: rx_dev_open_def run_dev_def set_desc_dev_def)
qed (auto simp: rx_dev_open_def rx_dev_close_def rx_dev_write_def dev_dispatch_def find_free_None [THEN iffD2])

theorem dev_open_errors_witness:
  "rx_dev_open (run_dev (\<lambda>_ _ _ _. None)) ''uart'' 0 demo_devices = Some (- ENODEV, demo_devices) \<and>
   rx_dev_open (run_dev (\<lambda>_ _ _ _. None)) ''simx86'' 0 (demo_devices\<lparr>desc := []\<rparr>) =
     Some (- ENOMEM, demo_devices\<lparr>desc := []\<rparr>)"
  using dev_open_errors [of "''uart''" demo_devices "run_dev (\<lambda>_ _ _ _. None)" 0]
    dev_open_errors [of "''simx86''" "demo_devices\<lparr>desc := []\<rparr>" "run_dev (\<lambda>_ _ _ _. None)" 0 0]
  by simp

end
