(* ===== verification/RX_Logger.thy ===== *)
theory RX_Logger
  imports RX_Device RX_Queue
begin

text \<open>
  The print buffer and the logger thread (\<^verbatim>\<open>kernel/rx_logger.c\<close>). Formatting is not
  repeated here: \<open>text\<close> is the string that \<^verbatim>\<open>vsnprintf\<close> makes of the format and its
  arguments, without the terminating zero.
\<close>

section \<open>Operations\<close>

definition CONFIG_PRINT_BUFFER_SIZE :: nat where "CONFIG_PRINT_BUFFER_SIZE = 4096"
definition CONFIG_SERIAL :: string where "CONFIG_SERIAL = ''simx86''"

definition put_bytes :: "nat \<Rightarrow> 8 word list \<Rightarrow> kstate \<Rightarrow> kstate" where
  "put_bytes p bs s = s\<lparr>mem := (\<lambda>x. if p \<le> x \<and> x < p + length bs then bs ! (x - p) else mem s x)\<rparr>"

definition c_string :: "string \<Rightarrow> 8 word list" where
  "c_string text = map (\<lambda>c. of_nat (of_char c)) text @ [0]"

definition buffer_end :: "kstate \<Rightarrow> nat" where
  "buffer_end s = printk_buffer_start_ptr s + CONFIG_PRINT_BUFFER_SIZE"

text \<open>The part of \<^verbatim>\<open>__rx_printk_to_buffer\<close> behind the size check.\<close>

definition printk_store :: "string \<Rightarrow> kstate \<Rightarrow> kstate" where
  "printk_store text s =
     (let s1 = rx_enter_critical s;
          s2 = (if printk_buffer_head s1 + (length text + 1) > buffer_end s1
                then (put_bytes (printk_buffer_head s1)
                        (replicate (buffer_end s1 - printk_buffer_head s1) 0) s1)
                       \<lparr>printk_buffer_head := printk_buffer_start_ptr s1\<rparr>
                else s1);
          s3 = put_bytes (printk_buffer_head s2) (c_string text) s2
      in rx_exit_critical (s3\<lparr>printk_buffer_head := printk_buffer_head s3 + (length text + 1)\<rparr>))"

text \<open>
  A text that does not fit the buffer is dropped with a complaint, which goes through the same
  function; the complaint is short, so that this call does not come back here.
\<close>

definition rx_printk_to_buffer :: "string \<Rightarrow> string \<Rightarrow> kstate \<Rightarrow> kstate" where
  "rx_printk_to_buffer complaint text s =
     (if length text + 1 > CONFIG_PRINT_BUFFER_SIZE then printk_store complaint s else printk_store text s)"

text \<open>
  \<^verbatim>\<open>if (0 < (dd = rx_dev_open(...)))\<close>: the branch taken for a positive descriptor loops for
  ever; 0 and the error codes, which are negative, are used as descriptors.
\<close>

definition logger_thread_init :: "dev_runner \<Rightarrow> kstate \<Rightarrow> (int \<times> kstate) option" where
  "logger_thread_init run s =
     do { (dd, s1) \<leftarrow> rx_dev_open run CONFIG_SERIAL 0 s;
          (if 0 < dd then None else Some (dd, s1)) }"

definition logger_advance :: "kstate \<Rightarrow> kstate" where
  "logger_advance s =
     (if printk_buffer_tail s + 1 > buffer_end s
      then s\<lparr>printk_buffer_tail := printk_buffer_start_ptr s\<rparr>
      else s\<lparr>printk_buffer_tail := printk_buffer_tail s + 1\<rparr>)"

definition logger_turn :: "dev_runner \<Rightarrow> int \<Rightarrow> ptr \<Rightarrow> kstate \<Rightarrow> (unit call \<times> kstate) option" where
  "logger_turn run dd w s =
     do { (c, s1) \<leftarrow> rx_wait_queue w (\<lambda>s. printk_buffer_head s \<noteq> printk_buffer_tail s) s;
          (case c of
             Sleeps \<Rightarrow> Some (Sleeps, s1)
           | Returns r \<Rightarrow>
               (if r = 0
                then do { (_, s2) \<leftarrow> rx_dev_write run dd (printk_buffer_tail s1) 1 s1;
                          Some (Returns (), logger_advance s2) }
                else Some (Returns (), s1))) }"


section \<open>The buffer\<close>

definition in_buffer :: "kstate \<Rightarrow> bool" where
  "in_buffer s \<longleftrightarrow> printk_buffer_start_ptr s \<le> printk_buffer_head s \<and> printk_buffer_head s \<le> buffer_end s"

lemma length_c_string [simp]: "length (c_string text) = Suc (length text)"
  by (simp add: c_string_def)

lemma put_bytes_frame [simp]:
  "printk_buffer_start_ptr (put_bytes p bs s) = printk_buffer_start_ptr s"
  "printk_buffer_head (put_bytes p bs s) = printk_buffer_head s"
  "printk_buffer_tail (put_bytes p bs s) = printk_buffer_tail s"
  "buffer_end (put_bytes p bs s) = buffer_end s"
  "mem (put_bytes p bs s) x = (if p \<le> x \<and> x < p + length bs then bs ! (x - p) else mem s x)"
  by (simp_all add: put_bytes_def buffer_end_def)

lemma printk_critical [simp]:
  "printk_buffer_start_ptr (rx_enter_critical s) = printk_buffer_start_ptr s"
  "printk_buffer_head (rx_enter_critical s) = printk_buffer_head s"
  "printk_buffer_tail (rx_enter_critical s) = printk_buffer_tail s"
  "printk_buffer_start_ptr (rx_exit_critical s) = printk_buffer_start_ptr s"
  "printk_buffer_head (rx_exit_critical s) = printk_buffer_head s"
  "printk_buffer_tail (rx_exit_critical s) = printk_buffer_tail s"
  "buffer_end (rx_enter_critical s) = buffer_end s" "buffer_end (rx_exit_critical s) = buffer_end s"
  by (simp_all add: critical_eqs buffer_end_def)

lemma buffer_end_frame [simp]:
  "buffer_end (s\<lparr>printk_buffer_head := h\<rparr>) = buffer_end s" "buffer_end (s\<lparr>printk_buffer_tail := t\<rparr>) = buffer_end s"
  "buffer_end (s\<lparr>mem := m\<rparr>) = buffer_end s" "buffer_end (s\<lparr>console := c\<rparr>) = buffer_end s"
  by (simp_all add: buffer_end_def)

text \<open>Where the text goes: behind the head if it fits there, otherwise to the start.\<close>

definition store_at :: "string \<Rightarrow> kstate \<Rightarrow> nat" where
  "store_at text s =
     (if printk_buffer_head s + Suc (length text) > buffer_end s then printk_buffer_start_ptr s
      else printk_buffer_head s)"

lemma printk_store_head:
  "printk_buffer_head (printk_store text s) = store_at text s + Suc (length text)"
  "printk_buffer_start_ptr (printk_store text s) = printk_buffer_start_ptr s"
  "buffer_end (printk_store text s) = buffer_end s"
  by (simp_all add: printk_store_def Let_def store_at_def)

lemma block_at_nth: "block_at s p n = bs \<longleftrightarrow> length bs = n \<and> (\<forall>i<n. mem s (p + i) = bs ! i)"
  by (auto simp: block_at_def list_eq_iff_nth_eq)

lemma printk_store_text: "block_at (printk_store text s) (store_at text s) (Suc (length text)) = c_string text"
  by (simp add: block_at_nth printk_store_def Let_def store_at_def)

lemma store_at_bounds:
  assumes "in_buffer s" and "length text + 1 \<le> CONFIG_PRINT_BUFFER_SIZE"
  shows "printk_buffer_start_ptr s \<le> store_at text s" and "store_at text s + Suc (length text) \<le> buffer_end s"
  using assms by (auto simp: in_buffer_def store_at_def buffer_end_def)

lemma printk_store_outside:
  assumes "in_buffer s" and "length text + 1 \<le> CONFIG_PRINT_BUFFER_SIZE"
    and "x < printk_buffer_start_ptr s \<or> buffer_end s \<le> x"
  shows "mem (printk_store text s) x = mem s x"
  using assms store_at_bounds [OF assms(1,2)]
  by (auto simp: printk_store_def Let_def in_buffer_def buffer_end_def)


section \<open>Properties\<close>

definition demo_log :: kstate where
  "demo_log = demo_devices\<lparr>printk_buffer_start_ptr := 5000, printk_buffer_head := 9090, printk_buffer_tail := 9095\<rparr>"

lemma demo_log_simps [simp]:
  "printk_buffer_start_ptr demo_log = 5000" "printk_buffer_head demo_log = 9090" "printk_buffer_tail demo_log = 9095"
  "buffer_end demo_log = 9096"
  by (simp_all add: demo_log_def buffer_end_def CONFIG_PRINT_BUFFER_SIZE_def)

text \<open>
  C24. Printing stays inside the buffer: for a text that fits, \<^verbatim>\<open>__rx_printk_to_buffer\<close>
  stores the text with its terminating zero as one contiguous block inside the buffer, moves the
  head behind it, keeps the head inside the buffer, and changes no byte outside of it.
\<close>

theorem printk_within_buffer:
  assumes "in_buffer s" and "length text + 1 \<le> CONFIG_PRINT_BUFFER_SIZE"
  shows "\<exists>p. printk_buffer_start_ptr s \<le> p \<and> p + length text + 1 \<le> buffer_end s \<and>
           block_at (rx_printk_to_buffer complaint text s) p (length text + 1) = c_string text \<and>
           printk_buffer_head (rx_printk_to_buffer complaint text s) = p + length text + 1 \<and>
           in_buffer (rx_printk_to_buffer complaint text s) \<and>
           (\<forall>x. x < printk_buffer_start_ptr s \<or> buffer_end s \<le> x \<longrightarrow>
              mem (rx_printk_to_buffer complaint text s) x = mem s x)"
proof -
  let ?s = "rx_printk_to_buffer complaint text s" and ?p = "store_at text s"
  have s: "?s = printk_store text s" using assms(2) by (simp add: rx_printk_to_buffer_def)
  have b: "printk_buffer_start_ptr s \<le> ?p" "?p + Suc (length text) \<le> buffer_end s"
    by (rule store_at_bounds [OF assms])+
  have "in_buffer ?s" using b unfolding s in_buffer_def printk_store_head by simp
  moreover have "block_at ?s ?p (length text + 1) = c_string text" using printk_store_text [of "text" s] s by simp
  moreover have "printk_buffer_head ?s = ?p + length text + 1" using printk_store_head(1) [of "text" s] s by simp
  moreover have "\<forall>x. x < printk_buffer_start_ptr s \<or> buffer_end s \<le> x \<longrightarrow> mem ?s x = mem s x"
    using printk_store_outside [OF assms] s by simp
  ultimately show ?thesis using b by (intro exI [of _ ?p]) simp
qed

theorem printk_within_buffer_witness:
  "\<exists>p. p + length ''hello world'' + 1 \<le> buffer_end demo_log \<and>
     block_at (rx_printk_to_buffer [] ''hello world'' demo_log) p (length ''hello world'' + 1) =
       c_string ''hello world''"
proof -
  have "in_buffer demo_log" "length ''hello world'' + 1 \<le> CONFIG_PRINT_BUFFER_SIZE"
    by (simp_all add: in_buffer_def CONFIG_PRINT_BUFFER_SIZE_def)
  from printk_within_buffer [OF this, of "[]"] show ?thesis by blast
qed

text \<open>
  The logger's tail leaves the buffer: from the last byte of the buffer the roll-over test
  of the logger thread moves it one byte behind the end, and if there is still text to print the
  next turn sends the byte found there to the console before rolling over.
\<close>

theorem logger_reads_past_end:
  assumes "printk_buffer_tail s = buffer_end s - 1" and "printk_buffer_head s \<noteq> buffer_end s"
    and "get_desc (int i) s = Some df" and "desc_device i s = Some (d, dev)" and "d_device_ops dev = Some sim_fops"
    and "printk_buffer_head s \<noteq> buffer_end s - 1"
  shows "\<exists>s1 s2. logger_turn (run_dev app) (int i) w s = Some (Returns (), s1) \<and>
           printk_buffer_tail s1 = buffer_end s \<and>
           logger_turn (run_dev app) (int i) w s1 = Some (Returns (), s2) \<and>
           console s2 = console s1 @ [char_of (unat (mem s (buffer_end s)))] \<and>
           printk_buffer_tail s2 = printk_buffer_start_ptr s"
proof -
  have be: "1 \<le> buffer_end s" by (simp add: buffer_end_def CONFIG_PRINT_BUFFER_SIZE_def)
  let ?s1 = "s\<lparr>console := console s @ [char_of (unat (mem s (printk_buffer_tail s)))], printk_buffer_tail := buffer_end s\<rparr>"
  have "logger_turn (run_dev app) (int i) w s = Some (Returns (), ?s1)"
    using assms be sim_write_spec(1) [OF assms(3-5), of app "printk_buffer_tail s" 1]
    by (simp add: logger_turn_def rx_wait_queue_def logger_advance_def)
  moreover have "get_desc (int i) ?s1 = Some df" "desc_device i ?s1 = Some (d, dev)"
    using assms(3,4) desc_cong [of ?s1 s] by simp_all
  then have "rx_dev_write (run_dev app) (int i) (buffer_end s) 1 ?s1 =
      Some (1, ?s1\<lparr>console := console ?s1 @ [char_of (unat (mem s (buffer_end s)))]\<rparr>)"
    using sim_write_spec(1) [OF _ _ assms(5), of i ?s1 df d app "buffer_end s" 1] by simp
  then have "logger_turn (run_dev app) (int i) w ?s1 = Some (Returns (), ?s1\<lparr>
      console := console ?s1 @ [char_of (unat (mem s (buffer_end s)))], printk_buffer_tail := printk_buffer_start_ptr s\<rparr>)"
    using assms(2) by (simp add: logger_turn_def rx_wait_queue_def logger_advance_def)
  ultimately show ?thesis by simp
qed

theorem logger_reads_past_end_witness:
  "\<exists>s0 s1 s2. rx_dev_open (run_dev (\<lambda>_ _ _ _. None)) ''simx86'' 0 demo_log = Some (0, s0) \<and>
     logger_turn (run_dev (\<lambda>_ _ _ _. None)) 0 NULL s0 = Some (Returns (), s1) \<and> printk_buffer_tail s1 = 9096 \<and>
     logger_turn (run_dev (\<lambda>_ _ _ _. None)) 0 NULL s1 = Some (Returns (), s2)"
proof -
  let ?s0 = "opened 0 0 1 demo_log"
  have t: "device_table demo_log = device_table demo_devices" "desc demo_log = desc demo_devices"
    by (simp_all add: demo_log_def)
  have "rx_dev_open (run_dev (\<lambda>_ _ _ _. None)) ''simx86'' 0 demo_log = Some (0, ?s0)"
    using sim_open_spec [of "''simx86''" demo_log 0 0 "\<lambda>_ _ _ _. None" 0] t by (simp add: eval_nat_numeral)
  moreover have "buffer_end ?s0 = 9096" "printk_buffer_tail ?s0 = 9095" "printk_buffer_head ?s0 = 9090"
    by (simp_all add: opened_def set_desc_dev_def buffer_end_def demo_log_def CONFIG_PRINT_BUFFER_SIZE_def)
  moreover have "get_desc (int 0) ?s0 = Some \<lparr>f_dev = Some 0, f_flags = 0\<rparr>"
    using t by (simp add: opened_def set_desc_dev_def get_desc_def)
  moreover have "desc_device 0 ?s0 = Some (0, (device_table demo_devices ! 0)\<lparr>d_device_open_count := 1\<rparr>)"
    using t by (simp add: opened_def set_desc_dev_def get_desc_def desc_device_def)
  ultimately show ?thesis
    using logger_reads_past_end [of ?s0 0 "\<lparr>f_dev = Some 0, f_flags = 0\<rparr>" 0
        "(device_table demo_devices ! 0)\<lparr>d_device_open_count := 1\<rparr>" "\<lambda>_ _ _ _. None" NULL] by auto
qed

end
