(* ===== verification/RX_Blockpool.thy ===== *)
theory RX_Blockpool
  imports RX_Waiters
begin

text \<open>
  Pools of fixed-size blocks (\<^verbatim>\<open>kernel/rx_blockpool.c\<close>). In front of every block lies a
  \<^verbatim>\<open>struct block_chain\<close> of two words; while the block is free its \<^verbatim>\<open>next\<close> links
  the free list, while it is in use the same field holds the address of its pool. The fields of
  type \<^verbatim>\<open>unsigned int\<close> are natural numbers with the reduction modulo \<open>2 ^ 32\<close> written out.
\<close>

section \<open>Operations\<close>

definition BLOCK_POOL_NAME_LEN :: nat where "BLOCK_POOL_NAME_LEN = 12"
definition RX_BLOCK_POOL_MAGIC :: "32 word" where "RX_BLOCK_POOL_MAGIC = 0x55555555"
definition sizeof_block_chain :: nat where "sizeof_block_chain = 8"

text \<open>\<^verbatim>\<open>block_size + sizeof(struct block_chain)\<close>\<close>

definition chunk_size :: "nat \<Rightarrow> nat" where
  "chunk_size block_size = (block_size + sizeof_block_chain) mod 2 ^ 32"

text \<open>
  \<^verbatim>\<open>(struct block_chain *)start_of_pool + (i * (...))\<close>: the index counts structs, so the
  offset is scaled by their size once more.
\<close>

definition block_addr :: "nat \<Rightarrow> nat \<Rightarrow> nat \<Rightarrow> addr" where
  "block_addr start chunk i = (start + sizeof_block_chain * (i * chunk mod 2 ^ 32)) mod 2 ^ 32"

fun chain_blocks :: "ptr \<Rightarrow> nat \<Rightarrow> nat \<Rightarrow> nat \<Rightarrow> nat \<Rightarrow> kstate \<Rightarrow> kstate option" where
  "chain_blocks pool start chunk i 0 s = Some s"
| "chain_blocks pool start chunk i (Suc k) s =
     do { let temp = block_addr start chunk i;
          p \<leftarrow> deref (bpools s) pool;
          let s1 = s\<lparr>blocks := (blocks s)(temp \<mapsto>
                       \<lparr>b_block = temp + sizeof_block_chain,
                        b_next = (if p_free_blocks p = NULL then NULL else p_free_blocks p)\<rparr>)\<rparr>;
          s2 \<leftarrow> upd_bpool pool (\<lambda>p. p\<lparr>p_free_blocks := Some temp\<rparr>) s1;
          chain_blocks pool start chunk (Suc i) k s2 }"

text \<open>A chunk size that is 0 modulo \<open>2 ^ 32\<close> passes the checks and is then divided by.\<close>

definition rx_create_block_pool ::
    "ptr \<Rightarrow> string \<Rightarrow> nat \<Rightarrow> nat \<Rightarrow> nat \<Rightarrow> kstate \<Rightarrow> (int \<times> kstate) option" where
  "rx_create_block_pool pool_data name block_size start_of_pool pool_size s =
     (let name' = (if length name > BLOCK_POOL_NAME_LEN - 1 then take (BLOCK_POOL_NAME_LEN - 1) name else name)
      in if block_size = 0 \<or> pool_size = 0 \<or> pool_size < chunk_size block_size
         then Some (OS_ERR, s)
         else if chunk_size block_size = 0 then None
         else
           do { s1 \<leftarrow> upd_bpool pool_data (\<lambda>p. p\<lparr>p_name := name', p_start_of_pool := start_of_pool,
                         p_pool_size := pool_size, p_block_size := block_size,
                         p_available := pool_size div chunk_size block_size, p_free_blocks := NULL\<rparr>) s;
                s2 \<leftarrow> chain_blocks pool_data start_of_pool (chunk_size block_size) 0
                        (pool_size div chunk_size block_size) s1;
                s3 \<leftarrow> upd_bpool pool_data (\<lambda>p. p\<lparr>p_magic := RX_BLOCK_POOL_MAGIC\<rparr>) s2;
                Some (OS_OK, s3) })"

definition rx_delete_block_pool :: "ptr \<Rightarrow> kstate \<Rightarrow> (int \<times> kstate) option" where
  "rx_delete_block_pool pool_data s =
     do { let s1 = rx_enter_critical s;
          p \<leftarrow> deref (bpools s1) pool_data;
          (if p_magic p = RX_BLOCK_POOL_MAGIC
           then do { s2 \<leftarrow> upd_bpool pool_data (\<lambda>p. p\<lparr>p_magic := 0\<rparr>) s1;
                     Some (OS_OK, rx_exit_critical s2) }
           else Some (OS_ERR, rx_exit_critical s1)) }"

definition bpool_head :: "addr \<Rightarrow> kstate \<Rightarrow> ptr option" where
  "bpool_head a s = map_option p_task (bpools s a)"

definition set_bpool_head :: "addr \<Rightarrow> ptr \<Rightarrow> kstate \<Rightarrow> kstate option" where
  "set_bpool_head a q s = upd_bpool (Some a) (\<lambda>p. p\<lparr>p_task := q\<rparr>) s"

text \<open>
  The result is the return value together with what is stored through \<^verbatim>\<open>block_ptr\<close>, if
  anything. A caller that has to wait is queued and suspended, but the function neither
  reschedules nor stores a block: it returns OS_OK like a successful call.
\<close>

definition rx_allocate_block :: "ptr \<Rightarrow> int \<Rightarrow> kstate \<Rightarrow> ((int \<times> nat option) \<times> kstate) option" where
  "rx_allocate_block pool_data flags s =
     do { let s1 = rx_enter_critical s;
          a \<leftarrow> pool_data;
          p \<leftarrow> bpools s1 a;
          (if p_magic p \<noteq> RX_BLOCK_POOL_MAGIC then Some ((OS_ERR, None), rx_exit_critical s1)
           else case p_free_blocks p of
             None \<Rightarrow>
               (if flags = OS_NO_WAIT then Some ((OS_ERR, None), rx_exit_critical s1)
                else
                  do { s2 \<leftarrow> upd_task (curr_running_task s1)
                               (\<lambda>t. t\<lparr>t_state := RX_TASK_SUSPEND, t_bpool := pool_data\<rparr>) s1;
                       (_, s3) \<leftarrow> rx_remove_from_ready_q (curr_running_task s2) s2;
                       s4 \<leftarrow> set_task_next (curr_running_task s3) NULL s3;
                       s5 \<leftarrow> enqueue_task (bpool_head a) (set_bpool_head a) (curr_running_task s4) s4;
                       Some ((OS_OK, None), rx_exit_critical s5) })
           | Some temp \<Rightarrow>
               do { c \<leftarrow> blocks s1 temp;
                    s2 \<leftarrow> upd_bpool pool_data (\<lambda>p. p\<lparr>p_free_blocks := b_next c\<rparr>) s1;
                    s3 \<leftarrow> upd_block (Some temp) (\<lambda>c. c\<lparr>b_next := pool_data\<rparr>) s2;
                    s4 \<leftarrow> upd_bpool pool_data
                            (\<lambda>p. p\<lparr>p_available := (p_available p + (2 ^ 32 - 1)) mod 2 ^ 32\<rparr>) s3;
                    Some ((OS_OK, Some (b_block c)), rx_exit_critical s4) }) }"

text \<open>
  Releasing: the header is found in front of the block, the pool through its \<^verbatim>\<open>next\<close>. On a
  wrong magic number the function returns inside its critical section.
\<close>

definition rx_release_block :: "nat \<Rightarrow> kstate \<Rightarrow> (int \<times> kstate) option" where
  "rx_release_block block_ptr s =
     do { let start_of_block = block_ptr - sizeof_block_chain;
          c \<leftarrow> blocks s start_of_block;
          let pool_data = b_next c;
          let s1 = rx_enter_critical s;
          a \<leftarrow> pool_data;
          p \<leftarrow> bpools s1 a;
          (if p_magic p \<noteq> 0x55555555 then Some (OS_ERR, s1)
           else
             do { s2 \<leftarrow> upd_block (Some start_of_block)
                          (\<lambda>c. c\<lparr>b_next := (if p_free_blocks p = NULL then NULL else p_free_blocks p)\<rparr>) s1;
                  s3 \<leftarrow> upd_bpool pool_data (\<lambda>p. p\<lparr>p_free_blocks := Some start_of_block,
                                                 p_available := (p_available p + 1) mod 2 ^ 32\<rparr>) s2;
                  p3 \<leftarrow> bpools s3 a;
                  s4 \<leftarrow> (case p_task p3 of
                           None \<Rightarrow> Some s3
                         | Some t \<Rightarrow>
                             do { tt \<leftarrow> tasks s3 t;
                                  sa \<leftarrow> set_bpool_head a (t_next tt) s3;
                                  sb \<leftarrow> upd_task (Some t) (\<lambda>t. t\<lparr>t_state := RX_TASK_READY, t_bpool := NULL\<rparr>) sa;
                                  map_option snd (rx_add_to_ready_q (Some t) sb) });
                  Some (OS_OK, rx_exit_critical s4) }) }"

definition rx_prioritize_block_pool :: "ptr \<Rightarrow> kstate \<Rightarrow> (int \<times> kstate) option" where
  "rx_prioritize_block_pool pool_data s = Some (OS_OK, s)"


section \<open>The free list\<close>

definition block_next :: "kstate \<Rightarrow> links" where
  "block_next s a = map_option b_next (blocks s a)"

definition set_block_next :: "ptr \<Rightarrow> ptr \<Rightarrow> kstate \<Rightarrow> kstate option" where
  "set_block_next p q s = upd_block p (\<lambda>c. c\<lparr>b_next := q\<rparr>) s"

interpretation bnext: link_field block_next set_block_next
  by unfold_locales
    (auto simp: block_next_def set_block_next_def upd_block_def split: Option.bind_splits)

definition bpool_rest :: "addr \<Rightarrow> kstate \<Rightarrow> (addr \<rightharpoonup> block_pool) \<times> (addr \<rightharpoonup> block_chain)" where
  "bpool_rest a s = ((bpools s)(a := map_option (\<lambda>x. x\<lparr>p_task := NULL\<rparr>) (bpools s a)), blocks s)"

interpretation bpool_q: waiter_queue "bpool_head a" "set_bpool_head a" "bpool_rest a" for a
  by unfold_locales (auto simp: bpool_head_def set_bpool_head_def bpool_rest_def outside_objects_def)

text \<open>
  A pool with the free blocks \<open>fs\<close>: a stack of headers, as many as the counter says, each in
  front of its block.
\<close>

definition free_stack :: "kstate \<Rightarrow> block_pool \<Rightarrow> addr list \<Rightarrow> bool" where
  "free_stack s p fs \<longleftrightarrow>
     lst (block_next s) (p_free_blocks p) fs \<and> p_available p = length fs \<and>
     (\<forall>b\<in>set fs. \<exists>c. blocks s b = Some c \<and> b_block c = b + sizeof_block_chain)"

definition pool_inv :: "kstate \<Rightarrow> addr \<Rightarrow> addr list \<Rightarrow> bool" where
  "pool_inv s a fs \<longleftrightarrow>
     length fs < 2 ^ 32 \<and>
     (\<exists>p. bpools s a = Some p \<and> p_magic p = RX_BLOCK_POOL_MAGIC \<and> free_stack s p fs)"


lemma block_next_simps [simp]:
  "block_next (s\<lparr>blocks := (blocks s)(b \<mapsto> c)\<rparr>) = (block_next s)(b := Some (b_next c))"
  "block_next (s\<lparr>bpools := h\<rparr>) = block_next s" "block_next (rx_enter_critical s) = block_next s"
  "block_next (rx_exit_critical s) = block_next s"
  "block_next (s\<lparr>blocks := bk, bpools := h\<rparr>) = block_next (s\<lparr>blocks := bk\<rparr>)"
  by (auto simp: block_next_def critical_eqs)

lemma block_frame [simp]:
  "blocks (rx_enter_critical s) = blocks s" "blocks (rx_exit_critical s) = blocks s"
  "bpools (rx_enter_critical s) = bpools s" "bpools (rx_exit_critical s) = bpools s"
  by (simp_all add: critical_eqs)

lemma free_stack_cong:
  "blocks s' = blocks s \<Longrightarrow> p_free_blocks p' = p_free_blocks p \<Longrightarrow> p_available p' = p_available p \<Longrightarrow>
     free_stack s' p' fs = free_stack s p fs"
proof -
  assume "blocks s' = blocks s" "p_free_blocks p' = p_free_blocks p" "p_available p' = p_available p"
  moreover from this(1) have "block_next s' = block_next s" by (auto simp: block_next_def)
  ultimately show ?thesis by (simp add: free_stack_def)
qed

lemma pool_inv_cong: "blocks s' = blocks s \<Longrightarrow> bpools s' = bpools s \<Longrightarrow> pool_inv s' a fs = pool_inv s a fs"
  using free_stack_cong [of s' s] by (simp add: pool_inv_def)

text \<open>Popping a block: the header now points to the pool.\<close>

lemma free_stack_pop:
  assumes "free_stack s p (b # fs)" and "length (b # fs) < 2 ^ 32"
  obtains c where "blocks s b = Some c" "p_free_blocks p = Some b" "b_block c = b + sizeof_block_chain" "b \<notin> set fs"
    "free_stack (s\<lparr>blocks := (blocks s)(b \<mapsto> c\<lparr>b_next := q\<rparr>)\<rparr>)
       (p\<lparr>p_free_blocks := b_next c, p_available := (p_available p + (2 ^ 32 - 1)) mod 2 ^ 32\<rparr>) fs"
proof -
  let ?n = "block_next s"
  from assms(1) obtain c where c: "blocks s b = Some c" "b_block c = b + sizeof_block_chain"
    and l: "lst ?n (p_free_blocks p) (b # fs)" and av: "p_available p = Suc (length fs)"
    and rest: "\<forall>b\<in>set fs. \<exists>c. blocks s b = Some c \<and> b_block c = b + sizeof_block_chain"
    by (auto simp: free_stack_def)
  have nx: "?n b = Some (b_next c)" using c(1) by (simp add: block_next_def)
  have d: "b \<notin> set fs" using lst_distinct [OF l] by simp
  have l': "lst ?n (b_next c) fs" and h: "p_free_blocks p = Some b" using l nx by simp_all
  have "(Suc (length fs) + (2 ^ 32 - 1)) mod 2 ^ 32 = length fs" using assms(2) by simp
  then have "free_stack (s\<lparr>blocks := (blocks s)(b \<mapsto> c\<lparr>b_next := q\<rparr>)\<rparr>)
       (p\<lparr>p_free_blocks := b_next c, p_available := (p_available p + (2 ^ 32 - 1)) mod 2 ^ 32\<rparr>) fs"
    using l' rest d av by (auto simp: free_stack_def)
  then show thesis using c h d that by blast
qed

lemma alloc_spec:
  assumes "pool_inv s a (b # fs)"
  shows "\<exists>s' c. rx_allocate_block (Some a) flags s = Some ((OS_OK, Some (b + sizeof_block_chain)), s') \<and>
              pool_inv s' a fs \<and> blocks s' b = Some c \<and> b_next c = Some a \<and>
              b_block c = b + sizeof_block_chain \<and> b \<notin> set fs \<and>
              tasks s' = tasks s \<and> task_ready_head s' = task_ready_head s \<and>
              map_option p_task (bpools s' a) = map_option p_task (bpools s a)"
proof -
  obtain p where p: "bpools s a = Some p" "p_magic p = RX_BLOCK_POOL_MAGIC" "free_stack s p (b # fs)"
    and len: "length (b # fs) < 2 ^ 32" using assms by (auto simp: pool_inv_def)
  obtain c where c: "blocks s b = Some c" "p_free_blocks p = Some b" "b_block c = b + sizeof_block_chain" "b \<notin> set fs"
    "free_stack (s\<lparr>blocks := (blocks s)(b \<mapsto> c\<lparr>b_next := Some a\<rparr>)\<rparr>)
       (p\<lparr>p_free_blocks := b_next c, p_available := (p_available p + (2 ^ 32 - 1)) mod 2 ^ 32\<rparr>) fs"
    by (rule free_stack_pop [OF p(3) len])
  let ?p = "p\<lparr>p_free_blocks := b_next c, p_available := (p_available p + (2 ^ 32 - 1)) mod 2 ^ 32\<rparr>"
  let ?s = "s\<lparr>blocks := (blocks s)(b \<mapsto> c\<lparr>b_next := Some a\<rparr>)\<rparr>"
  let ?s' = "rx_exit_critical ((rx_enter_critical s)\<lparr>
               blocks := (blocks s)(b \<mapsto> c\<lparr>b_next := Some a\<rparr>), bpools := (bpools s)(a \<mapsto> ?p)\<rparr>)"
  have "rx_allocate_block (Some a) flags s = Some ((OS_OK, Some (b + sizeof_block_chain)), ?s')"
    using p(1,2) c(1-3) by (simp add: rx_allocate_block_def)
  moreover have "free_stack ?s' ?p fs" using c(5) free_stack_cong [of ?s' ?s ?p ?p fs] by simp
  then have "pool_inv ?s' a fs" using p(2) len by (simp add: pool_inv_def)
  ultimately show ?thesis using c(3,4) p(1) by (simp add: critical_eqs)
qed

text \<open>Pushing a block back: the state after the two writes of \<^verbatim>\<open>rx_release_block\<close>.\<close>

definition pushed :: "block_pool \<Rightarrow> addr \<Rightarrow> block_pool" where
  "pushed p b = p\<lparr>p_free_blocks := Some b, p_available := (p_available p + 1) mod 2 ^ 32\<rparr>"

lemma pool_inv_push:
  assumes i: "pool_inv s a fs" and c: "blocks s b = Some c" "b_block c = b + sizeof_block_chain" "b \<notin> set fs"
    and len: "Suc (length fs) < 2 ^ 32" and p: "bpools s a = Some p"
  shows "pool_inv (s\<lparr>blocks := (blocks s)(b \<mapsto> c\<lparr>b_next := p_free_blocks p\<rparr>), bpools := (bpools s)(a \<mapsto> pushed p b)\<rparr>)
           a (b # fs)"
proof -
  let ?s = "s\<lparr>blocks := (blocks s)(b \<mapsto> c\<lparr>b_next := p_free_blocks p\<rparr>)\<rparr>"
  have f: "free_stack s p fs" "p_magic p = RX_BLOCK_POOL_MAGIC" using i p by (auto simp: pool_inv_def)
  then have "lst ((block_next s)(b := Some (p_free_blocks p))) (Some b) (b # fs)"
    by (intro lst_insert_front) (simp_all add: free_stack_def c(3))
  moreover have "(p_available p + 1) mod 2 ^ 32 = Suc (length fs)" using f(1) len by (simp add: free_stack_def)
  ultimately have "free_stack ?s (pushed p b) (b # fs)"
    using f(1) c by (simp add: free_stack_def pushed_def)
  then show ?thesis using f(2) len free_stack_cong [of "?s\<lparr>bpools := (bpools s)(a \<mapsto> pushed p b)\<rparr>" ?s]
    by (simp add: pool_inv_def pushed_def)
qed

lemma keep_ptr: "(if q = NULL then NULL else q) = q"
  by simp

lemma release_eq:
  assumes c: "blocks s b = Some c" "b_next c = Some a"
    and p: "bpools s a = Some p" "p_magic p = RX_BLOCK_POOL_MAGIC"
  defines "s3 \<equiv> (rx_enter_critical s)\<lparr>blocks := (blocks s)(b \<mapsto> c\<lparr>b_next := p_free_blocks p\<rparr>),
                                       bpools := (bpools s)(a \<mapsto> pushed p b)\<rparr>"
  shows "rx_release_block (b + sizeof_block_chain) s =
    do { s4 \<leftarrow> (case p_task p of
                   None \<Rightarrow> Some s3
                 | Some t \<Rightarrow>
                     do { tt \<leftarrow> tasks s3 t;
                          sa \<leftarrow> set_bpool_head a (t_next tt) s3;
                          sb \<leftarrow> upd_task (Some t) (\<lambda>t. t\<lparr>t_state := RX_TASK_READY, t_bpool := NULL\<rparr>) sa;
                          map_option snd (rx_add_to_ready_q (Some t) sb) });
         Some (OS_OK, rx_exit_critical s4) }"
  unfolding s3_def rx_release_block_def pushed_def
  by (cases "p_task p"; cases "p_free_blocks p"; simp add: c p RX_BLOCK_POOL_MAGIC_def)


section \<open>Creating a pool\<close>

definition headers_ok :: "kstate \<Rightarrow> addr list \<Rightarrow> bool" where
  "headers_ok s fs \<longleftrightarrow> (\<forall>b\<in>set fs. \<exists>c. blocks s b = Some c \<and> b_block c = b + sizeof_block_chain)"

lemma chain_blocks_spec:
  assumes "bpools s a = Some p" and "lst (block_next s) (p_free_blocks p) fs" and "headers_ok s fs"
    and "inj_on (block_addr start chunk) {i..<i + k}"
    and "block_addr start chunk ` {i..<i + k} \<inter> set fs = {}"
  shows "\<exists>bk q. chain_blocks (Some a) start chunk i k s =
             Some (s\<lparr>blocks := bk, bpools := (bpools s)(a \<mapsto> p\<lparr>p_free_blocks := q\<rparr>)\<rparr>) \<and>
           lst (block_next (s\<lparr>blocks := bk\<rparr>)) q (rev (map (block_addr start chunk) [i..<i + k]) @ fs) \<and>
           headers_ok (s\<lparr>blocks := bk\<rparr>) (rev (map (block_addr start chunk) [i..<i + k]) @ fs)"
  using assms
proof (induction k arbitrary: i s p fs)
  case 0
  have "s\<lparr>blocks := blocks s, bpools := (bpools s)(a \<mapsto> p\<lparr>p_free_blocks := p_free_blocks p\<rparr>)\<rparr> = s"
    using 0(1) by (cases s) (simp add: fun_upd_idem)
  moreover have "s\<lparr>blocks := blocks s\<rparr> = s" by simp
  ultimately show ?case using 0(2,3)
    by (intro exI [of _ "blocks s"] exI [of _ "p_free_blocks p"]) (simp del: fun_upd_apply)
next
  case (Suc k)
  let ?b = "block_addr start chunk i"
  let ?c = "\<lparr>b_block = ?b + sizeof_block_chain, b_next = p_free_blocks p\<rparr>"
  let ?p = "p\<lparr>p_free_blocks := Some ?b\<rparr>"
  let ?s = "s\<lparr>blocks := (blocks s)(?b \<mapsto> ?c), bpools := (bpools s)(a \<mapsto> ?p)\<rparr>"
  have up: "{i..<i + Suc k} = insert i {Suc i..<Suc i + k}" by auto
  have p1: "bpools ?s a = Some ?p" by simp
  have nb: "?b \<notin> set fs" using Suc.prems(5) up by auto
  have l: "lst (block_next ?s) (p_free_blocks ?p) (?b # fs)" using Suc.prems(2) nb by simp
  have h: "headers_ok ?s (?b # fs)" using Suc.prems(3) nb by (auto simp: headers_ok_def)
  have inj: "inj_on (block_addr start chunk) {Suc i..<Suc i + k}"
    using Suc.prems(4) by (rule inj_on_subset) auto
  have "?b \<notin> block_addr start chunk ` {Suc i..<Suc i + k}" using Suc.prems(4) unfolding up by auto
  then have dj: "block_addr start chunk ` {Suc i..<Suc i + k} \<inter> set (?b # fs) = {}"
    using Suc.prems(5) unfolding up by auto
  obtain bk q where bq: "chain_blocks (Some a) start chunk (Suc i) k ?s =
      Some (?s\<lparr>blocks := bk, bpools := (bpools ?s)(a \<mapsto> ?p\<lparr>p_free_blocks := q\<rparr>)\<rparr>)"
    "lst (block_next (?s\<lparr>blocks := bk\<rparr>)) q (rev (map (block_addr start chunk) [Suc i..<Suc i + k]) @ ?b # fs)"
    "headers_ok (?s\<lparr>blocks := bk\<rparr>) (rev (map (block_addr start chunk) [Suc i..<Suc i + k]) @ ?b # fs)"
    using Suc.IH [OF p1 l h inj dj] by blast
  have ls: "rev (map (block_addr start chunk) [i..<i + Suc k]) @ fs =
      rev (map (block_addr start chunk) [Suc i..<Suc i + k]) @ ?b # fs"
    by (simp add: upt_conv_Cons del: upt_Suc)
  have nx: "block_next (?s\<lparr>blocks := bk\<rparr>) = block_next (s\<lparr>blocks := bk\<rparr>)" by (auto simp: block_next_def)
  have hd: "headers_ok (?s\<lparr>blocks := bk\<rparr>) l = headers_ok (s\<lparr>blocks := bk\<rparr>) l" for l by (simp add: headers_ok_def)
  have run: "chain_blocks (Some a) start chunk i (Suc k) s =
      Some (s\<lparr>blocks := bk, bpools := (bpools s)(a \<mapsto> p\<lparr>p_free_blocks := q\<rparr>)\<rparr>)"
    using Suc.prems(1) bq(1) by (simp add: Let_def)
  show ?case unfolding ls using run bq(2,3) unfolding nx hd by blast
qed

lemma block_addr_exact:
  assumes "start + sizeof_block_chain * (n * chunk) \<le> 2 ^ 32" and "i < n" and "0 < chunk"
  shows "block_addr start chunk i = start + sizeof_block_chain * (i * chunk)"
proof -
  have "i * chunk < n * chunk" using assms(2,3) by simp
  then have "start + sizeof_block_chain * (i * chunk) < 2 ^ 32" and "i * chunk < 2 ^ 32"
    using assms(1) unfolding sizeof_block_chain_def by linarith+
  then show ?thesis by (simp add: block_addr_def)
qed

lemma create_pool_spec:
  assumes p: "bpools s a = Some p" and sz: "0 < block_size" "block_size + sizeof_block_chain \<le> pool_size"
    and mem: "start + sizeof_block_chain * pool_size \<le> 2 ^ 32"
  defines "chunk \<equiv> block_size + sizeof_block_chain"
  defines "bs \<equiv> map (\<lambda>i. start + sizeof_block_chain * (i * chunk)) [0..<pool_size div chunk]"
  shows "\<exists>s'. rx_create_block_pool (Some a) name block_size start pool_size s = Some (OS_OK, s') \<and>
              pool_inv s' a (rev bs)"
proof -
  let ?n = "pool_size div chunk"
  have ps: "pool_size < 2 ^ 32" using mem sz by (simp add: sizeof_block_chain_def)
  have ch: "chunk_size block_size = chunk" "0 < chunk"
    using sz ps by (simp_all add: chunk_size_def chunk_def sizeof_block_chain_def)
  have le: "start + sizeof_block_chain * (?n * chunk) \<le> 2 ^ 32"
    using mem mult_le_mono2 [OF div_times_less_eq_dividend [of pool_size chunk], of sizeof_block_chain] by linarith
  have ad: "block_addr start chunk i = start + sizeof_block_chain * (i * chunk)" if "i < ?n" for i
    by (rule block_addr_exact [OF le that ch(2)])
  then have bs: "map (block_addr start chunk) [0..<?n] = bs" by (simp add: bs_def)
  have inj: "inj_on (block_addr start chunk) {0..<0 + ?n}"
    using ch(2) by (auto simp: inj_on_def ad sizeof_block_chain_def)
  let ?p = "p\<lparr>p_name := if length name > BLOCK_POOL_NAME_LEN - 1 then take (BLOCK_POOL_NAME_LEN - 1) name else name,
              p_start_of_pool := start, p_pool_size := pool_size, p_block_size := block_size,
              p_available := ?n, p_free_blocks := NULL\<rparr>"
  let ?s = "s\<lparr>bpools := (bpools s)(a \<mapsto> ?p)\<rparr>"
  obtain bk q where bq: "chain_blocks (Some a) start chunk 0 ?n ?s =
      Some (?s\<lparr>blocks := bk, bpools := (bpools ?s)(a \<mapsto> ?p\<lparr>p_free_blocks := q\<rparr>)\<rparr>)"
    "lst (block_next (?s\<lparr>blocks := bk\<rparr>)) q (rev bs)" "headers_ok (?s\<lparr>blocks := bk\<rparr>) (rev bs)"
    using chain_blocks_spec [of ?s a ?p "[]" start chunk 0 ?n] inj bs by (auto simp: headers_ok_def)
  let ?p' = "?p\<lparr>p_free_blocks := q, p_magic := RX_BLOCK_POOL_MAGIC\<rparr>"
  let ?s' = "?s\<lparr>blocks := bk, bpools := (bpools s)(a \<mapsto> ?p')\<rparr>"
  have run: "rx_create_block_pool (Some a) name block_size start pool_size s = Some (OS_OK, ?s')"
    using p sz bq(1) ch ps by (simp add: rx_create_block_pool_def chunk_def Let_def)
  have "block_next ?s' = block_next (?s\<lparr>blocks := bk\<rparr>)" by (auto simp: block_next_def)
  then have "free_stack ?s' ?p' (rev bs)"
    using bq(2,3) by (simp add: free_stack_def headers_ok_def bs_def)
  moreover have "length (rev bs) < 2 ^ 32"
    by (rule le_less_trans [OF _ ps]) (simp add: bs_def)
  ultimately have "pool_inv ?s' a (rev bs)" by (simp add: pool_inv_def)
  with run show ?thesis by blast
qed


section \<open>Waiting for a block\<close>

lemma bpool_head_upd:
  assumes "p_task p = h"
  shows "bpool_head a (s\<lparr>blocks := bk, bpools := (bpools s)(a \<mapsto> p)\<rparr>) = Some h"
  using assms by (simp add: bpool_head_def)

text \<open>
  A release while tasks wait: the block goes to the free list and the longest waiter is made
  ready; it does not receive the block.
\<close>

lemma release_wakes_spec:
  assumes q: "ready_queue s xs" and i: "pool_inv s a fs" and wt: "waiting (bpool_head a) s (w # ws)"
    and dj: "set (w # ws) \<inter> set xs = {}" and t: "tasks s w = Some t"
    and c: "blocks s b = Some c" "b_next c = Some a" "b_block c = b + sizeof_block_chain" "b \<notin> set fs"
    and len: "Suc (length fs) < 2 ^ 32"
  shows "\<exists>s' n. rx_release_block (b + sizeof_block_chain) s = Some (OS_OK, s') \<and> pool_inv s' a (b # fs) \<and>
              waiting (bpool_head a) s' ws \<and> ready_queue s' (insert_prio (task_prio s) w xs) \<and>
              tasks s' w = Some (t\<lparr>t_state := RX_TASK_READY, t_bpool := NULL, t_next := n\<rparr>)"
proof -
  obtain p where p: "bpools s a = Some p" "p_magic p = RX_BLOCK_POOL_MAGIC" using i by (auto simp: pool_inv_def)
  let ?g = "\<lambda>t. t\<lparr>t_state := RX_TASK_READY, t_bpool := NULL\<rparr>"
  let ?s3 = "(rx_enter_critical s)\<lparr>blocks := (blocks s)(b \<mapsto> c\<lparr>b_next := p_free_blocks p\<rparr>),
                                   bpools := (bpools s)(a \<mapsto> pushed p b)\<rparr>"
  have hd: "p_task p = Some w" using waiting_hd(1) [OF wt] p(1) by (simp add: bpool_head_def)
  have w3: "waiting (bpool_head a) ?s3 (w # ws)"
    using wt waiting_cong [of "bpool_head a" ?s3 s] p(1) by (simp add: bpool_head_def pushed_def)
  have t3: "tasks ?s3 w = Some t" using t by simp
  have i3: "pool_inv ?s3 a (b # fs)"
    using pool_inv_push [OF i c(1,3,4) len p(1)] pool_inv_cong [of ?s3 "s\<lparr>blocks := (blocks s)(b \<mapsto> c\<lparr>b_next := p_free_blocks p\<rparr>),
        bpools := (bpools s)(a \<mapsto> pushed p b)\<rparr>"] by simp
  obtain sa where sa: "set_bpool_head a (t_next t) ?s3 = Some sa" "waiting (bpool_head a) sa ws"
    "outside_objects ?s3 sa" "bpool_rest a sa = bpool_rest a ?s3"
    using bpool_q.pop_waiter [OF w3 t3] by blast
  have ta: "tasks sa w = Some t" and prs: "tasks sa = tasks s" using sa(3) t by (simp_all add: outside_objects_def)
  have qa: "ready_queue sa xs"
    using outside_ready [OF sa(3)] q ready_queue_cong [of ?s3 s] by simp
  have d: "w \<notin> set ws" "w \<notin> set xs" "set ws \<inter> set xs = {}" using waiting_distinct [OF wt] dj by auto
  let ?sb = "sa\<lparr>tasks := (tasks sa)(w \<mapsto> ?g t)\<rparr>"
  obtain sc n where sc: "rx_add_to_ready_q (Some w) ?sb = Some (OS_OK, sc)"
    "ready_queue sc (insert_prio (task_prio ?sb) w xs)" "waiting (bpool_head a) sc ws"
    "tasks sc w = Some ((?g t)\<lparr>t_next := n\<rparr>)" "bpool_rest a sc = bpool_rest a sa"
    using bpool_q.ready_waiter [where g = ?g, OF sa(2) qa d(3,1,2) ta] by auto
  have run: "rx_release_block (b + sizeof_block_chain) s = Some (OS_OK, rx_exit_critical sc)"
    using release_eq [OF c(1,2) p] hd t3 sa(1) ta sc(1) by simp
  have "task_prio ?sb x = task_prio s x" for x using prs t by (simp add: task_prio_def)
  then have ip: "insert_prio (task_prio ?sb) w xs = insert_prio (task_prio s) w xs" by (intro insert_prio_cong) simp
  have rest: "bpool_rest a sc = bpool_rest a ?s3" using sc(5) sa(4) by simp
  have "pool_inv sc a (b # fs)"
  proof -
    obtain x where x: "bpools sc a = Some ((pushed p b)\<lparr>p_task := x\<rparr>)" and bl: "blocks sc = blocks ?s3"
    proof -
      have "map_option (\<lambda>x. x\<lparr>p_task := NULL\<rparr>) (bpools sc a) = Some ((pushed p b)\<lparr>p_task := NULL\<rparr>)"
        using rest by (auto simp: bpool_rest_def fun_eq_iff split: if_splits)
      then obtain y where y: "bpools sc a = Some y" "y\<lparr>p_task := NULL\<rparr> = (pushed p b)\<lparr>p_task := NULL\<rparr>" by auto
      then have "y = (pushed p b)\<lparr>p_task := p_task y\<rparr>"
        by (metis block_pool.surjective block_pool.update_convs(8))
      with y(1) that show thesis using rest by (auto simp: bpool_rest_def)
    qed
    then show ?thesis using i3 free_stack_cong [OF bl, of "(pushed p b)\<lparr>p_task := x\<rparr>" "pushed p b"]
      by (simp add: pool_inv_def)
  qed
  then show ?thesis using run sc(2,3,4) ip pool_inv_cong [of "rx_exit_critical sc" sc]
      ready_queue_cong [of "rx_exit_critical sc" sc]
    by (intro exI [of _ "rx_exit_critical sc"] exI [of _ n]) simp
qed

lemma alloc_blocks_spec:
  assumes q: "ready_queue s xs" and i: "pool_inv s a []" and wt: "waiting (bpool_head a) s ws"
    and dj: "set xs \<inter> set ws = {}" and c: "curr_running_task s = Some c" "c \<in> set xs" "tasks s c = Some t"
    and fl: "flags \<noteq> OS_NO_WAIT"
  shows "\<exists>s'. rx_allocate_block (Some a) flags s = Some ((OS_OK, None), s') \<and>
              ready_queue s' (remove1 c xs) \<and> waiting (bpool_head a) s' (ws @ [c]) \<and>
              curr_running_task s' = Some c \<and>
              tasks s' c = Some (t\<lparr>t_state := RX_TASK_SUSPEND, t_bpool := Some a, t_next := NULL\<rparr>)"
proof -
  obtain p where p: "bpools s a = Some p" "p_magic p = RX_BLOCK_POOL_MAGIC" "p_free_blocks p = NULL"
    using i by (auto simp: pool_inv_def free_stack_def)
  let ?f = "\<lambda>t. t\<lparr>t_state := RX_TASK_SUSPEND, t_bpool := Some a\<rparr>"
  let ?s1 = "rx_enter_critical s"
  have q1: "ready_queue ?s1 xs" using q ready_queue_cong [of ?s1 s] by simp
  have w1: "waiting (bpool_head a) ?s1 ws" using wt by simp
  have t1: "tasks ?s1 c = Some t" using c(3) by simp
  have f: "t_next (?f t) = t_next t" by simp
  obtain s2 s3 where s3: "rx_remove_from_ready_q (Some c) (?s1\<lparr>tasks := (tasks ?s1)(c \<mapsto> ?f t)\<rparr>) = Some (OS_OK, s2)"
    "curr_running_task s2 = curr_running_task ?s1" "tasks s2 c = Some ((?f t)\<lparr>t_next := NULL\<rparr>)"
    "enqueue_task (bpool_head a) (set_bpool_head a) (Some c) s2 = Some s3"
    "ready_queue s3 (remove1 c xs)" "waiting (bpool_head a) s3 (ws @ [c])"
    "tasks s3 c = Some ((?f t)\<lparr>t_next := NULL\<rparr>)" "curr_running_task s3 = curr_running_task ?s1"
    using bpool_q.block_spec [OF q1 w1 dj c(2) t1, of ?f] f by blast
  have n2: "set_task_next (Some c) NULL s2 = Some s2" by (rule clear_next_idem [OF s3(3)]) simp
  have "rx_allocate_block (Some a) flags s = Some ((OS_OK, None), rx_exit_critical s3)"
    using p c(1) t1 fl s3(1,2,4) n2 by (simp add: rx_allocate_block_def)
  then show ?thesis using s3(5-8) c(1) ready_queue_cong [of "rx_exit_critical s3" s3]
    by auto
qed


section \<open>Properties\<close>

text \<open>
  A concrete state for the examples: pool 700 is storage for a control block; pool 701 has the
  blocks with headers at 9000 and 9100 free; pool 702 is exhausted and its block at 9208 in use.
\<close>

definition demo_bpool :: "nat \<Rightarrow> ptr \<Rightarrow> block_pool" where
  "demo_bpool n f = \<lparr>p_magic = RX_BLOCK_POOL_MAGIC, p_name = ''pool'', p_start_of_pool = 9000,
     p_pool_size = 1000, p_block_size = 92, p_available = n, p_free_blocks = f, p_task = NULL\<rparr>"

definition demo_pools :: kstate where
  "demo_pools = demo_ready\<lparr>
     bpools := [700 \<mapsto> (demo_bpool 0 NULL)\<lparr>p_magic := 0\<rparr>, 701 \<mapsto> demo_bpool 2 (Some 9000),
                702 \<mapsto> demo_bpool 0 NULL],
     blocks := [9000 \<mapsto> \<lparr>b_block = 9008, b_next = Some 9100\<rparr>, 9100 \<mapsto> \<lparr>b_block = 9108, b_next = NULL\<rparr>,
                9200 \<mapsto> \<lparr>b_block = 9208, b_next = Some 702\<rparr>]\<rparr>"

lemma demo_pools_simps [simp]:
  "bpools demo_pools = [700 \<mapsto> (demo_bpool 0 NULL)\<lparr>p_magic := 0\<rparr>, 701 \<mapsto> demo_bpool 2 (Some 9000),
                702 \<mapsto> demo_bpool 0 NULL]"
  "blocks demo_pools = [9000 \<mapsto> \<lparr>b_block = 9008, b_next = Some 9100\<rparr>, 9100 \<mapsto> \<lparr>b_block = 9108, b_next = NULL\<rparr>,
                9200 \<mapsto> \<lparr>b_block = 9208, b_next = Some 702\<rparr>]"
  "tasks demo_pools = tasks demo_ready" "task_ready_head demo_pools = Some 1" "curr_running_task demo_pools = Some 1"
  by (simp_all add: demo_pools_def)

lemma demo_pools_ok:
  "pool_inv demo_pools 701 [9000, 9100]" "pool_inv demo_pools 702 []" "ready_queue demo_pools [1, 2, 3]"
  "waiting (bpool_head 702) demo_pools []"
  using demo_ready_queue ready_queue_cong [of demo_pools demo_ready]
  by (auto simp: pool_inv_def free_stack_def demo_bpool_def block_next_def sizeof_block_chain_def
      waiting_def bpool_head_def)

text \<open>
  C19. Allocating and releasing: with a free block \<^verbatim>\<open>rx_allocate_block\<close> returns OS_OK and
  the block behind the head of the free list, whose header then names the pool; giving that
  block back with \<^verbatim>\<open>rx_release_block\<close> returns OS_OK and restores the free list, the counter
  included, and no task is touched.
\<close>

theorem block_alloc_release:
  assumes "pool_inv s a (b # fs)" and "bpool_head a s = Some NULL"
  shows "\<exists>s1 s2. rx_allocate_block (Some a) flags s = Some ((OS_OK, Some (b + sizeof_block_chain)), s1) \<and>
           pool_inv s1 a fs \<and> b \<notin> set fs \<and>
           rx_release_block (b + sizeof_block_chain) s1 = Some (OS_OK, s2) \<and>
           pool_inv s2 a (b # fs) \<and> tasks s2 = tasks s \<and> task_ready_head s2 = task_ready_head s"
proof -
  obtain s1 c where s1: "rx_allocate_block (Some a) flags s = Some ((OS_OK, Some (b + sizeof_block_chain)), s1)"
    "pool_inv s1 a fs" "blocks s1 b = Some c" "b_next c = Some a" "b_block c = b + sizeof_block_chain" "b \<notin> set fs"
    "tasks s1 = tasks s" "task_ready_head s1 = task_ready_head s"
    "map_option p_task (bpools s1 a) = map_option p_task (bpools s a)"
    using alloc_spec [OF assms(1), of flags] by blast
  obtain p where p: "bpools s1 a = Some p" "p_magic p = RX_BLOCK_POOL_MAGIC" using s1(2) by (auto simp: pool_inv_def)
  have len: "Suc (length fs) < 2 ^ 32" using assms(1) by (simp add: pool_inv_def)
  have pt: "p_task p = NULL" using assms(2) s1(9) p(1) by (auto simp: bpool_head_def)
  let ?s2 = "(rx_enter_critical s1)\<lparr>blocks := (blocks s1)(b \<mapsto> c\<lparr>b_next := p_free_blocks p\<rparr>),
                                   bpools := (bpools s1)(a \<mapsto> pushed p b)\<rparr>"
  have "rx_release_block (b + sizeof_block_chain) s1 = Some (OS_OK, rx_exit_critical ?s2)"
    using release_eq [OF s1(3,4) p] pt by simp
  moreover have "pool_inv (rx_exit_critical ?s2) a (b # fs)"
    using pool_inv_push [OF s1(2,3,5,6) len p(1)]
      pool_inv_cong [of "rx_exit_critical ?s2" "s1\<lparr>blocks := (blocks s1)(b \<mapsto> c\<lparr>b_next := p_free_blocks p\<rparr>),
        bpools := (bpools s1)(a \<mapsto> pushed p b)\<rparr>"] by simp
  ultimately show ?thesis using s1 by auto
qed

theorem block_alloc_release_witness:
  "\<exists>s1 s2. rx_allocate_block (Some 701) OS_NO_WAIT demo_pools = Some ((OS_OK, Some 9008), s1) \<and>
     pool_inv s1 701 [9100] \<and> rx_release_block 9008 s1 = Some (OS_OK, s2) \<and> pool_inv s2 701 [9000, 9100]"
  using block_alloc_release [OF demo_pools_ok(1), of OS_NO_WAIT]
  by (auto simp: sizeof_block_chain_def bpool_head_def demo_bpool_def)

text \<open>
  The layout of a new pool: \<^verbatim>\<open>rx_create_block_pool\<close> puts \<open>pool_size / (block_size + 8)\<close>
  blocks on the free list, but at distances of \<open>8 * (block_size + 8)\<close> bytes, because the index
  is scaled twice. As soon as there are two blocks the last header lies outside of the memory
  the caller gave.
\<close>

theorem block_pool_layout:
  assumes "bpools s a = Some p" and "0 < block_size" and "block_size + sizeof_block_chain \<le> pool_size"
    and "start + sizeof_block_chain * pool_size \<le> 2 ^ 32"
  shows "\<exists>s' fs. rx_create_block_pool (Some a) name block_size start pool_size s = Some (OS_OK, s') \<and>
           pool_inv s' a fs \<and> length fs = pool_size div (block_size + 8) \<and>
           rev fs = map (\<lambda>i. start + 8 * (block_size + 8) * i) [0..<pool_size div (block_size + 8)] \<and>
           (2 * (block_size + 8) \<le> pool_size \<longrightarrow> start + pool_size \<le> hd fs)"
proof -
  let ?c = "block_size + sizeof_block_chain"
  let ?bs = "map (\<lambda>i. start + sizeof_block_chain * (i * ?c)) [0..<pool_size div ?c]"
  obtain s' where s': "rx_create_block_pool (Some a) name block_size start pool_size s = Some (OS_OK, s')"
    "pool_inv s' a (rev ?bs)" using create_pool_spec [OF assms] by blast
  have eq: "?bs = map (\<lambda>i. start + 8 * (block_size + 8) * i) [0..<pool_size div (block_size + 8)]"
    by (simp add: sizeof_block_chain_def mult.commute)
  have last: "start + pool_size \<le> hd (rev ?bs)" if "2 * (block_size + 8) \<le> pool_size"
  proof -
    let ?n = "pool_size div ?c"
    have n: "2 \<le> ?n" using that by (simp add: sizeof_block_chain_def less_eq_div_iff_mult_less_eq)
    then have "hd (rev ?bs) = start + sizeof_block_chain * ((?n - 1) * ?c)" by (simp add: hd_rev last_map)
    moreover have "pool_size < Suc ?n * ?c"
      using dividend_less_times_div [of ?c pool_size] assms(2) by (simp add: mult.commute)
    moreover have "Suc ?n * ?c \<le> 8 * (?n - 1) * ?c" using n by (intro mult_le_mono1) linarith
    ultimately show ?thesis by (simp add: sizeof_block_chain_def mult.assoc)
  qed
  show ?thesis
    using s' last eq by (intro exI [of _ s'] exI [of _ "rev ?bs"]) (simp add: sizeof_block_chain_def)
qed

theorem block_pool_layout_witness:
  "\<exists>s' fs. rx_create_block_pool (Some 700) ''pool'' 92 9000 250 demo_pools = Some (OS_OK, s') \<and>
     pool_inv s' 700 fs \<and> rev fs = [9000, 9800] \<and> 9250 \<le> hd fs"
  using block_pool_layout [of demo_pools 700 "(demo_bpool 0 NULL)\<lparr>p_magic := 0\<rparr>" 92 250 9000 "''pool''"]
  by (auto simp: sizeof_block_chain_def upt_conv_Cons)

text \<open>
  An allocation that has to wait: the caller is suspended, leaves the ready queue and joins
  the waiters, but the function returns to it at once with OS_OK and without a block, because it
  does not reschedule.
\<close>

theorem block_alloc_exhausted:
  assumes "ready_queue s xs" and "pool_inv s a []" and "waiting (bpool_head a) s ws"
    and "set xs \<inter> set ws = {}" and "curr_running_task s = Some c" and "c \<in> set xs" and "tasks s c = Some t"
    and "flags \<noteq> OS_NO_WAIT"
  shows "(\<exists>s' u. rx_allocate_block (Some a) flags s = Some ((OS_OK, None), s') \<and>
           ready_queue s' (remove1 c xs) \<and> waiting (bpool_head a) s' (ws @ [c]) \<and>
           curr_running_task s' = Some c \<and> tasks s' c = Some u \<and> t_state u = RX_TASK_SUSPEND) \<and>
         (\<exists>s'. rx_allocate_block (Some a) OS_NO_WAIT s = Some ((OS_ERR, None), s'))"
proof -
  obtain p where "bpools s a = Some p" "p_magic p = RX_BLOCK_POOL_MAGIC" "p_free_blocks p = NULL"
    using assms(2) by (auto simp: pool_inv_def free_stack_def)
  then have "rx_allocate_block (Some a) OS_NO_WAIT s = Some ((OS_ERR, None), rx_exit_critical (rx_enter_critical s))"
    by (simp add: rx_allocate_block_def)
  then show ?thesis using alloc_blocks_spec [OF assms] by auto
qed

theorem block_alloc_exhausted_witness:
  "\<exists>s'. rx_allocate_block (Some 702) OS_WAIT_FOREVER demo_pools = Some ((OS_OK, None), s') \<and>
     ready_queue s' [2, 3] \<and> waiting (bpool_head 702) s' [1]"
  using block_alloc_exhausted [OF demo_pools_ok(3,2,4), of 1 "demo_task RX_TASK_RUNNING 2 (Some 2)" OS_WAIT_FOREVER]
  by (auto simp: os_codes)

end
