(* ===== verification/RX_Init.thy ===== *)
theory RX_Init
  imports RX_Tick RX_Tasklet RX_Logger RX_Blockpool
begin

text \<open>
  The start of the kernel (\<^verbatim>\<open>kernel/rx_init.c\<close>): the driver table, the print buffer and the
  five system threads. The static control blocks and stacks are the fields of a record, the
  entry points of the threads are numbered.
\<close>

section \<open>Operations\<close>

record sys_storage =
  rx_init_task :: addr
  rx_timer0_tcb :: addr
  rx_event0_tcb :: addr
  rx_bh0_tcb :: addr
  rx_logger0_tcb :: addr
  rx_terminal0_tcb :: addr
  sys_timer_stack_ptr :: int
  sys_event_stack_ptr :: int
  sys_bh_stack_ptr :: int
  sys_logger_stack_ptr :: int
  sys_terminal_stack_ptr :: int

definition CONFIG_SYS_STACK_SIZE :: int where "CONFIG_SYS_STACK_SIZE = 8192"

definition rx_timer_thread :: nat where "rx_timer_thread = 1"
definition rx_event_thread :: nat where "rx_event_thread = 2"
definition rx_bh_thread :: nat where "rx_bh_thread = 3"
definition rx_logger_thread :: nat where "rx_logger_thread = 4"
definition rx_terminal_thread :: nat where "rx_terminal_thread = 5"

definition create_system_thread ::
    "addr \<Rightarrow> string \<Rightarrow> int \<Rightarrow> int \<Rightarrow> nat \<Rightarrow> kstate \<Rightarrow> kstate option" where
  "create_system_thread tcb name prio stack entry s =
     map_option snd (rx_create_task (Some tcb) name prio (Some stack) CONFIG_SYS_STACK_SIZE entry
       RX_TASK_READY 0 s)"

definition rx_kernel_enter :: "sys_storage \<Rightarrow> (kstate \<Rightarrow> kstate option) \<Rightarrow> kstate \<Rightarrow> kstate option" where
  "rx_kernel_enter st rx_application_init s =
     do { let s1 = s\<lparr>rx_curr_stack_ptr := rx_stack_start_ptr s\<rparr>;
          s2 \<leftarrow> upd_task (Some (rx_init_task st)) (\<lambda>t. t\<lparr>t_name := ''init''\<rparr>) s1;
          let s3 = rx_driver_init (s2\<lparr>curr_running_task := Some (rx_init_task st), curr_num_task := 0\<rparr>);
          s4 \<leftarrow> create_system_thread (rx_timer0_tcb st) ''timer0'' RX_TASK_HIGH_PRIO
                  (sys_timer_stack_ptr st) rx_timer_thread s3;
          s5 \<leftarrow> create_system_thread (rx_event0_tcb st) ''event0'' RX_TASK_HIGH_PRIO
                  (sys_event_stack_ptr st) rx_event_thread s4;
          s6 \<leftarrow> create_system_thread (rx_bh0_tcb st) ''bh0'' RX_TASK_HIGH_PRIO
                  (sys_bh_stack_ptr st) rx_bh_thread s5;
          let s7 = s6\<lparr>printk_buffer_tail := printk_buffer_start_ptr s6,
                      printk_buffer_head := printk_buffer_start_ptr s6\<rparr>;
          s8 \<leftarrow> create_system_thread (rx_logger0_tcb st) ''logger0'' (RX_TASK_LEAST_PRIO - 1)
                  (sys_logger_stack_ptr st) rx_logger_thread s7;
          s9 \<leftarrow> create_system_thread (rx_terminal0_tcb st) ''term0'' (RX_TASK_LEAST_PRIO - 2)
                  (sys_terminal_stack_ptr st) rx_terminal_thread s8;
          rx_application_init s9 }"


section \<open>Starting one thread\<close>

text \<open>What the start-up keeps track of: the two lists, the count and the running task.\<close>

definition booting :: "kstate \<Rightarrow> addr list \<Rightarrow> addr list \<Rightarrow> addr \<Rightarrow> bool" where
  "booting s xs ls c \<longleftrightarrow>
     ready_queue s xs \<and> lst (task_link s) (task_list_head s) ls \<and> curr_num_task s = int (length ls) \<and>
     curr_running_task s = Some c"

lemma create_system_thread_spec:
  assumes b: "booting s xs ls c" and a: "a \<notin> set xs" "a \<notin> set ls" "tasks s a \<noteq> None" "length name \<le> 8"
    and p: "prio \<le> 31"
  shows "\<exists>s'. create_system_thread a name prio stack entry s = Some s' \<and>
              booting s' (insert_prio (task_prio s') a xs) (ls @ [a]) c \<and> task_prio s' a = prio \<and>
              (\<forall>b. b \<noteq> a \<longrightarrow> task_prio s' b = task_prio s b) \<and> (\<forall>b. tasks s' b = None \<longleftrightarrow> tasks s b = None) \<and>
              (\<exists>t. tasks s' a = Some t \<and> t_ip t = entry \<and> t_state t = RX_TASK_READY)"
proof -
  obtain t0 where t0: "tasks s a = Some t0" using a(3) by auto
  have n: "length name \<le> RX_TASK_STR_LEN" using a(4) by (simp add: RX_TASK_STR_LEN_def)
  obtain s' t where s': "rx_create_task (Some a) name prio (Some stack) CONFIG_SYS_STACK_SIZE entry RX_TASK_READY 0 s =
      Some (OS_OK, s')" "ready_queue s' (insert_prio (task_prio s') a xs)"
    "lst (task_link s') (task_list_head s') (ls @ [a])" "curr_num_task s' = curr_num_task s + 1"
    "tasks s' a = Some t" "t_prio t = min prio RX_TASK_LEAST_PRIO" "t_ip t = entry" "t_state t = RX_TASK_READY"
    "\<forall>b. b \<noteq> a \<longrightarrow> task_prio s' b = task_prio s b" "\<forall>b. tasks s' b = None \<longleftrightarrow> tasks s b = None"
    "curr_running_task s' = curr_running_task s"
    using create_task_spec [of s xs a t0 ls name "Some stack" CONFIG_SYS_STACK_SIZE prio entry 0] b a(1,2) t0 n
    by (auto simp: booting_def)
  have "task_prio s' a = prio" using s'(5,6) p by (simp add: task_prio_def RX_TASK_LEAST_PRIO_def)
  then show ?thesis using s' b by (simp add: create_system_thread_def booting_def)
qed

lemma driver_init_frame [simp]:
  "tasks (rx_driver_init s) = tasks s" "task_ready_head (rx_driver_init s) = task_ready_head s"
  "task_list_head (rx_driver_init s) = task_list_head s" "curr_num_task (rx_driver_init s) = curr_num_task s"
  "curr_running_task (rx_driver_init s) = curr_running_task s"
  by (simp_all add: rx_driver_init_def x86_simulator_init_def rx_register_driver_def split: option.splits)

lemma booting_cong:
  "tasks s' = tasks s \<Longrightarrow> task_ready_head s' = task_ready_head s \<Longrightarrow> task_list_head s' = task_list_head s \<Longrightarrow>
     curr_num_task s' = curr_num_task s \<Longrightarrow> curr_running_task s' = curr_running_task s \<Longrightarrow>
     booting s' xs ls c = booting s xs ls c"
  using ready_queue_cong [of s' s xs] task_link_cong [of s' s] by (simp add: booting_def)


section \<open>Properties\<close>

definition demo_storage :: sys_storage where
  "demo_storage = \<lparr>rx_init_task = 10, rx_timer0_tcb = 11, rx_event0_tcb = 12, rx_bh0_tcb = 13,
     rx_logger0_tcb = 14, rx_terminal0_tcb = 15, sys_timer_stack_ptr = 10000, sys_event_stack_ptr = 20000,
     sys_bh_stack_ptr = 30000, sys_logger_stack_ptr = 40000, sys_terminal_stack_ptr = 50000\<rparr>"

definition demo_reset :: kstate where
  "demo_reset = blank_state\<lparr>tasks := (\<lambda>a. if 10 \<le> a \<and> a \<le> 15 then Some blank_task else None)\<rparr>"

text \<open>
  C26. The state the kernel hands to the application: with nothing queued and storage for the six
  control blocks, \<^verbatim>\<open>__rx_kernel_enter\<close> runs through to \<^verbatim>\<open>rx_application_init\<close>. At that
  point five tasks are counted and listed, the ready queue is the timer, event and bottom-half
  threads, then the terminal and last the logger, each with its entry point, and the
  placeholder task is running.
\<close>

theorem kernel_enter_boots:
  assumes "task_ready_head s = NULL" and "task_list_head s = NULL"
    and "distinct [rx_timer0_tcb st, rx_event0_tcb st, rx_bh0_tcb st, rx_logger0_tcb st, rx_terminal0_tcb st]"
    and "\<forall>a\<in>{rx_init_task st, rx_timer0_tcb st, rx_event0_tcb st, rx_bh0_tcb st, rx_logger0_tcb st,
              rx_terminal0_tcb st}. tasks s a \<noteq> None"
  shows "\<exists>s'. rx_kernel_enter st rx_application_init s = rx_application_init s' \<and>
           ready_queue s' [rx_timer0_tcb st, rx_event0_tcb st, rx_bh0_tcb st, rx_terminal0_tcb st, rx_logger0_tcb st] \<and>
           lst (task_link s') (task_list_head s')
             [rx_timer0_tcb st, rx_event0_tcb st, rx_bh0_tcb st, rx_logger0_tcb st, rx_terminal0_tcb st] \<and>
           curr_num_task s' = 5 \<and> curr_running_task s' = Some (rx_init_task st)"
proof -
  let ?i = "rx_init_task st" and ?t = "rx_timer0_tcb st" and ?e = "rx_event0_tcb st" and ?b = "rx_bh0_tcb st"
    and ?l = "rx_logger0_tcb st" and ?m = "rx_terminal0_tcb st"
  obtain ti where ti: "tasks s ?i = Some ti" using assms(4) by auto
  let ?s3 = "rx_driver_init (s\<lparr>rx_curr_stack_ptr := rx_stack_start_ptr s, tasks := (tasks s)(?i \<mapsto> ti\<lparr>t_name := ''init''\<rparr>),
      curr_running_task := Some ?i, curr_num_task := 0\<rparr>)"
  have b3: "booting ?s3 [] [] ?i" using assms(1,2) by (simp add: booting_def ready_queue_def)
  have al: "tasks ?s3 a \<noteq> None" if "a \<in> {?t, ?e, ?b, ?l, ?m}" for a using that assms(4) by auto
  obtain s4 where s4: "create_system_thread ?t ''timer0'' RX_TASK_HIGH_PRIO (sys_timer_stack_ptr st) rx_timer_thread ?s3 = Some s4"
    "booting s4 [?t] [?t] ?i" "task_prio s4 ?t = 0" "\<forall>b. tasks s4 b = None \<longleftrightarrow> tasks ?s3 b = None"
    using create_system_thread_spec [OF b3, of ?t "''timer0''" RX_TASK_HIGH_PRIO "sys_timer_stack_ptr st" rx_timer_thread]
      al [of ?t] by (auto simp: RX_TASK_HIGH_PRIO_def)
  obtain s5 where s5: "create_system_thread ?e ''event0'' RX_TASK_HIGH_PRIO (sys_event_stack_ptr st) rx_event_thread s4 = Some s5"
    "booting s5 [?t, ?e] [?t, ?e] ?i" "task_prio s5 ?t = 0" "task_prio s5 ?e = 0"
    "\<forall>b. tasks s5 b = None \<longleftrightarrow> tasks ?s3 b = None"
    using create_system_thread_spec [OF s4(2), of ?e "''event0''" RX_TASK_HIGH_PRIO "sys_event_stack_ptr st" rx_event_thread]
      al [of ?e] s4(3,4) assms(3) by (auto simp: RX_TASK_HIGH_PRIO_def)
  obtain s6 where s6: "create_system_thread ?b ''bh0'' RX_TASK_HIGH_PRIO (sys_bh_stack_ptr st) rx_bh_thread s5 = Some s6"
    "booting s6 [?t, ?e, ?b] [?t, ?e, ?b] ?i" "task_prio s6 ?t = 0" "task_prio s6 ?e = 0" "task_prio s6 ?b = 0"
    "\<forall>b. tasks s6 b = None \<longleftrightarrow> tasks ?s3 b = None"
    using create_system_thread_spec [OF s5(2), of ?b "''bh0''" RX_TASK_HIGH_PRIO "sys_bh_stack_ptr st" rx_bh_thread]
      al [of ?b] s5(3-5) assms(3) by (auto simp: RX_TASK_HIGH_PRIO_def)
  let ?s7 = "s6\<lparr>printk_buffer_tail := printk_buffer_start_ptr s6, printk_buffer_head := printk_buffer_start_ptr s6\<rparr>"
  have b7: "booting ?s7 [?t, ?e, ?b] [?t, ?e, ?b] ?i" using s6(2) booting_cong [of ?s7 s6] by simp
  have p7: "task_prio ?s7 = task_prio s6" by (rule ext) (simp add: task_prio_def)
  obtain s8 where s8: "create_system_thread ?l ''logger0'' (RX_TASK_LEAST_PRIO - 1) (sys_logger_stack_ptr st) rx_logger_thread ?s7 = Some s8"
    "booting s8 [?t, ?e, ?b, ?l] [?t, ?e, ?b, ?l] ?i" "task_prio s8 ?t = 0" "task_prio s8 ?e = 0" "task_prio s8 ?b = 0"
    "task_prio s8 ?l = 30" "\<forall>b. tasks s8 b = None \<longleftrightarrow> tasks ?s3 b = None"
    using create_system_thread_spec [OF b7, of ?l "''logger0''" "RX_TASK_LEAST_PRIO - 1" "sys_logger_stack_ptr st" rx_logger_thread]
      al [of ?l] s6(3-6) p7 assms(3) by (auto simp: RX_TASK_LEAST_PRIO_def)
  obtain s9 where s9: "create_system_thread ?m ''term0'' (RX_TASK_LEAST_PRIO - 2) (sys_terminal_stack_ptr st) rx_terminal_thread s8 = Some s9"
    "booting s9 [?t, ?e, ?b, ?m, ?l] [?t, ?e, ?b, ?l, ?m] ?i"
    using create_system_thread_spec [OF s8(2), of ?m "''term0''" "RX_TASK_LEAST_PRIO - 2" "sys_terminal_stack_ptr st" rx_terminal_thread]
      al [of ?m] s8(3-7) assms(3) by (auto simp: RX_TASK_LEAST_PRIO_def)
  have "rx_kernel_enter st rx_application_init s = rx_application_init s9"
    using ti s4(1) s5(1) s6(1) s8(1) s9(1) by (simp add: rx_kernel_enter_def)
  with s9(2) show ?thesis by (intro exI [of _ s9]) (simp add: booting_def)
qed

theorem kernel_enter_boots_witness:
  "\<exists>s'. rx_kernel_enter demo_storage Some demo_reset = Some s' \<and> ready_queue s' [11, 12, 13, 15, 14]"
  using kernel_enter_boots [of demo_reset demo_storage Some]
  by (auto simp: demo_reset_def demo_storage_def blank_state_def)

end
