(* ===== verification/RX_System.thy ===== *)
theory RX_System
  imports RX_Semaphore
begin

text \<open>
  The kernel as a state machine: tasks that take turns on the processor and meet at a semaphore.
  A step is one complete call of the kernel by the running task, or a pass of the dispatcher; the
  invariant says where every task is, and holds along every sequence of steps. The guards of the
  steps are what the callers have to respect: the idle task never sleeps, and a task that waits for
  the semaphore is not resumed behind its back.
\<close>

section \<open>Steps and the invariant\<close>

inductive sem_step :: "addr set \<Rightarrow> addr \<Rightarrow> addr \<Rightarrow> kstate \<Rightarrow> kstate \<Rightarrow> bool" for A a idle where
  step_wait:
    "curr_running_task s \<noteq> Some idle \<Longrightarrow> rx_semaphore_wait (Some a) timer OS_WAIT_FOREVER s = Some (r, s') \<Longrightarrow>
     sem_step A a idle s s'"
| step_try: "rx_semaphore_wait (Some a) timer OS_NO_WAIT s = Some (r, s') \<Longrightarrow> sem_step A a idle s s'"
| step_post: "rx_semaphore_post (Some a) s = Some (v, s') \<Longrightarrow> sem_step A a idle s s'"
| step_yield: "rx_sched s = Some s' \<Longrightarrow> sem_step A a idle s s'"
| step_suspend_me:
    "curr_running_task s \<noteq> Some idle \<Longrightarrow> rx_suspend_task NULL s = Some (r, s') \<Longrightarrow> sem_step A a idle s s'"
| step_suspend:
    "x \<in> A \<Longrightarrow> x \<noteq> idle \<Longrightarrow> rx_suspend_task (Some x) s = Some (r, s') \<Longrightarrow> sem_step A a idle s s'"
| step_resume:
    "x \<in> A \<Longrightarrow> tasks s x = Some t \<Longrightarrow> t_sem t = NULL \<Longrightarrow> rx_resume_task (Some x) s = Some (v, s') \<Longrightarrow>
     sem_step A a idle s s'"

definition sem_of :: "kstate \<Rightarrow> addr \<Rightarrow> ptr option" where
  "sem_of s b = map_option t_sem (tasks s b)"

definition suspended :: "kstate \<Rightarrow> addr \<Rightarrow> bool" where
  "suspended s b \<longleftrightarrow> (\<exists>t. tasks s b = Some t \<and> t_state t = RX_TASK_SUSPEND)"

definition running :: "kstate \<Rightarrow> addr \<Rightarrow> bool" where
  "running s c \<longleftrightarrow> curr_running_task s = Some c \<and> (\<exists>t. tasks s c = Some t \<and> t_state t = RX_TASK_RUNNING)"

text \<open>
  The tasks \<open>A\<close> are split into the ready queue \<open>xs\<close>, the waiters \<open>ws\<close> of the semaphore and the
  suspended tasks \<open>zs\<close>; the running task and the idle task are ready.
\<close>

definition placed :: "addr set \<Rightarrow> addr \<Rightarrow> addr \<Rightarrow> kstate \<Rightarrow> addr list \<Rightarrow> addr list \<Rightarrow> addr list \<Rightarrow> bool" where
  "placed A a idle s xs ws zs \<longleftrightarrow>
     ready_queue s xs \<and> sem_inv s a ws \<and> distinct (xs @ ws @ zs) \<and> set (xs @ ws @ zs) = A \<and> idle \<in> set xs \<and>
     (\<exists>c\<in>set xs. running s c) \<and> (\<forall>b\<in>set xs \<union> set zs. sem_of s b = Some NULL) \<and>
     (\<forall>b\<in>set ws. sem_of s b = Some (Some a)) \<and> (\<forall>b\<in>set ws \<union> set zs. suspended s b)"

definition sys_inv :: "addr set \<Rightarrow> addr \<Rightarrow> addr \<Rightarrow> kstate \<Rightarrow> bool" where
  "sys_inv A a idle s \<longleftrightarrow> (\<exists>xs ws zs. placed A a idle s xs ws zs)"

lemma sem_inv_outside:
  assumes "sem_inv s a ws" and "sems s' = sems s" and "\<And>b. b \<in> set ws \<Longrightarrow> tasks s' b = tasks s b"
  shows "sem_inv s' a ws"
proof -
  have "chain (task_next s') p ws q = chain (task_next s) p ws q" for p q
    using assms(3) by (intro chain_cong) (simp add: task_next_def)
  then show ?thesis using assms(1,2) by (auto simp: sem_inv_def waiting_def sem_head_def)
qed

lemma placedD:
  assumes "placed A a idle s xs ws zs"
  shows "ready_queue s xs" "sem_inv s a ws" "set xs \<inter> set ws = {}" "set xs \<inter> set zs = {}" "set ws \<inter> set zs = {}"
    "distinct xs" "distinct ws" "distinct zs" "set xs \<union> set ws \<union> set zs = A" "idle \<in> set xs"
    "\<And>b. b \<in> set xs \<union> set zs \<Longrightarrow> sem_of s b = Some NULL" "\<And>b. b \<in> set ws \<Longrightarrow> sem_of s b = Some (Some a)"
    "\<And>b. b \<in> set ws \<union> set zs \<Longrightarrow> suspended s b"
  using assms by (auto simp: placed_def)

lemma placed_running:
  assumes "placed A a idle s xs ws zs"
  obtains c t where "curr_running_task s = Some c" "c \<in> set xs" "tasks s c = Some t" "t_state t = RX_TASK_RUNNING"
  using assms by (auto simp: placed_def running_def)

section \<open>Every call is defined and keeps the invariant\<close>

lemma sys_invI: "placed A a idle s xs ws zs \<Longrightarrow> sys_inv A a idle s"
  unfolding sys_inv_def by blast

lemma suspended_same: "same_but_next (tasks s b) (tasks s' b) \<Longrightarrow> suspended s b \<Longrightarrow> suspended s' b"
  by (auto simp: suspended_def)

lemma suspended_eq: "tasks s' b = tasks s b \<Longrightarrow> suspended s b \<Longrightarrow> suspended s' b"
  by (simp add: suspended_def)

lemma sem_of_same: "same_but_next (tasks s b) (tasks s' b) \<Longrightarrow> sem_of s' b = sem_of s b"
  unfolding sem_of_def by (rule same_but_next_sem)

lemma running_same:
  "same_but_next (tasks s c) (tasks s' c) \<Longrightarrow> curr_running_task s' = curr_running_task s \<Longrightarrow> running s c \<Longrightarrow> running s' c"
  by (auto simp: running_def)

lemma sem_of_Some: "tasks s b = Some t \<Longrightarrow> sem_of s b = Some (t_sem t)"
  by (simp add: sem_of_def)

lemma placed_frame:
  assumes "placed A a idle s xs ws zs" and "tasks s' = tasks s" and "curr_running_task s' = curr_running_task s"
    and "task_ready_head s' = task_ready_head s" and "sem_inv s' a ws"
  shows "placed A a idle s' xs ws zs"
proof -
  have "ready_queue s' xs" using placedD(1) [OF assms(1)] assms(2,4) ready_queue_cong [of s' s] by simp
  then show ?thesis using assms by (auto simp: placed_def running_def sem_of_def suspended_def)
qed

lemma yield_ok:
  assumes "placed A a idle s xs ws zs"
  shows "\<exists>s'. rx_sched s = Some s' \<and> placed A a idle s' xs ws zs"
proof -
  note p = placedD [OF assms]
  obtain c t where c: "curr_running_task s = Some c" "c \<in> set xs" "tasks s c = Some t" "t_state t = RX_TASK_RUNNING"
    using placed_running [OF assms] .
  obtain h ys where xs: "xs = h # ys" using p(10) by (cases xs) auto
  show ?thesis
  proof (cases "c = h")
    case True
    have "task_ready_head s = Some h" using p(1) xs by (simp add: ready_queue_def)
    then show ?thesis using True c(1) assms by (auto simp: rx_sched_stay)
  next
    case False
    then obtain s' u where s': "rx_sched s = Some s'" "curr_running_task s' = Some h" "ready_queue s' xs" "sems s' = sems s"
      "\<forall>b. b \<noteq> h \<longrightarrow> tasks s' b = tasks s b" "tasks s h = Some u" "tasks s' h = Some (dispatched u)"
      using rx_sched_spec [of s h ys c] p(1) xs c by auto
    have "h \<notin> set ws" "h \<notin> set zs" using p(3,4) xs by auto
    then have "sem_inv s' a ws" using s'(5) by (intro sem_inv_outside [OF p(2) s'(4)]) metis
    moreover have "sem_of s' b = sem_of s b" for b using s'(5-7) by (cases "b = h") (auto simp: sem_of_def)
    moreover have "running s' h" using s'(2,7) by (simp add: running_def)
    moreover have "suspended s' b" if "b \<in> set ws \<union> set zs" for b
      using p(13) [OF that] that \<open>h \<notin> set ws\<close> \<open>h \<notin> set zs\<close> s'(5) by (auto simp: suspended_def)
    ultimately have "placed A a idle s' xs ws zs" using assms s'(3) xs by (auto simp: placed_def)
    with s'(1) show ?thesis by blast
  qed
qed

lemma try_wait_ok:
  assumes "placed A a idle s xs ws zs"
  shows "\<exists>r s'. rx_semaphore_wait (Some a) timer OS_NO_WAIT s = Some (r, s') \<and> placed A a idle s' xs ws zs"
proof -
  note p = placedD [OF assms]
  obtain sm where sm: "sems s a = Some sm" "waiting (sem_head a) s ws"
    "ws = [] \<and> 0 \<le> s_curr_val sm \<or> s_curr_val sm = - int (length ws)" using p(2) by (rule sem_invD)
  show ?thesis
  proof (cases "s_curr_val sm > 0")
    case True
    let ?sm = "sm\<lparr>s_curr_val := s_curr_val sm - 1\<rparr>"
    let ?s' = "s\<lparr>sems := (sems s)(a \<mapsto> ?sm), critical := critical s \<and> in_irq s\<rparr>"
    have "waiting (sem_head a) (s\<lparr>sems := (sems s)(a \<mapsto> ?sm)\<rparr>) ws" using sm(1,2) waiting_sem_upd [of s a sm ?sm ws] by simp
    then have "waiting (sem_head a) ?s' ws" by (subst waiting_cong [where s = "s\<lparr>sems := (sems s)(a \<mapsto> ?sm)\<rparr>"]) (simp_all add: sem_head_def)
    then have "sem_inv ?s' a ws" using sm(3) True by (auto simp: sem_inv_def)
    then have "placed A a idle ?s' xs ws zs" by (intro placed_frame [OF assms]) simp_all
    with True sem_wait_immediate [OF sm(1), of timer OS_NO_WAIT] show ?thesis by auto
  next
    case False
    let ?s' = "s\<lparr>critical := critical s \<and> in_irq s\<rparr>"
    have "sem_inv ?s' a ws" by (rule sem_inv_outside [OF p(2)]) simp_all
    then have "placed A a idle ?s' xs ws zs" by (intro placed_frame [OF assms]) simp_all
    with False sem_wait_immediate [OF sm(1), of timer OS_NO_WAIT] show ?thesis by auto
  qed
qed

lemma wait_ok:
  assumes "placed A a idle s xs ws zs" and "curr_running_task s \<noteq> Some idle"
  shows "\<exists>r s'. rx_semaphore_wait (Some a) timer OS_WAIT_FOREVER s = Some (r, s') \<and> sys_inv A a idle s'"
proof -
  note p = placedD [OF assms(1)]
  obtain c t where c: "curr_running_task s = Some c" "c \<in> set xs" "tasks s c = Some t" "t_state t = RX_TASK_RUNNING"
    using placed_running [OF assms(1)] .
  obtain sm where sm: "sems s a = Some sm" using p(2) by (rule sem_invD)
  show ?thesis
  proof (cases "s_curr_val sm > 0")
    case True
    then have "rx_semaphore_wait (Some a) timer OS_WAIT_FOREVER s = rx_semaphore_wait (Some a) timer OS_NO_WAIT s"
      using sem_wait_immediate [OF sm] by simp
    then show ?thesis using try_wait_ok [OF assms(1), of timer] by (auto intro: sys_invI)
  next
    case False
    have idle: "idle \<in> set (remove1 c xs)" using p(10) assms(2) c(1) by auto
    then obtain h ys where rest: "remove1 c xs = h # ys" by (cases "remove1 c xs") auto
    obtain s' u where s': "rx_semaphore_wait (Some a) timer OS_WAIT_FOREVER s = Some (Sleeps, s')"
      "curr_running_task s' = Some h" "ready_queue s' (h # ys)" "sem_inv s' a (ws @ [c])"
      "tasks s' c = Some (sem_sleeper a t)" "tasks s' h = Some u" "t_state u = RX_TASK_RUNNING"
      "\<And>b. b \<notin> set xs \<union> set ws \<Longrightarrow> tasks s' b = tasks s b"
      "\<And>b. b \<noteq> c \<Longrightarrow> b \<noteq> h \<Longrightarrow> same_but_next (tasks s b) (tasks s' b)" "sem_of s' h = sem_of s h"
      using sem_wait_forever_spec [OF p(1-3) c(1-3) rest sm, of OS_WAIT_FOREVER timer] False
      by (auto simp: OS_WAIT_FOREVER_def sem_of_def)
    have sem: "sem_of s' b = sem_of s b" if "b \<noteq> c" for b
      using sem_of_same [OF s'(9) [OF that]] s'(10) by (cases "b = h") auto
    have sets: "set (h # ys) = set xs - {c}" "distinct (h # ys)" using p(6) rest set_remove1_eq [of xs c] distinct_remove1 [of xs c] by auto
    have "distinct ((h # ys) @ (ws @ [c]) @ zs)" "set ((h # ys) @ (ws @ [c]) @ zs) = A"
      using p(3-9) c(2) sets by auto
    moreover have "idle \<in> set (h # ys)" using idle rest by simp
    moreover have "\<exists>d\<in>set (h # ys). running s' d" using s'(2,6,7) by (auto simp: running_def)
    moreover have "sem_of s' b = Some NULL" if "b \<in> set (h # ys) \<union> set zs" for b
    proof -
      have "b \<noteq> c" "b \<in> set xs \<union> set zs" using that p(4) sets(1) c(2) by auto
      then show ?thesis using sem p(11) by simp
    qed
    moreover have "sem_of s' b = Some (Some a)" if "b \<in> set (ws @ [c])" for b
      using that sem_of_Some [OF s'(5)] sem [of b] p(12) [of b] by (cases "b = c") (auto simp: sem_sleeper_def)
    moreover have "suspended s' b" if "b \<in> set (ws @ [c]) \<union> set zs" for b
    proof (cases "b = c")
      case False
      then have "b \<in> set ws \<union> set zs" "b \<noteq> h" using that sets(1) p(3,4) by auto
      then show ?thesis using False p(13) suspended_same [OF s'(9)] by blast
    qed (use s'(5) in \<open>simp add: suspended_def sem_sleeper_def\<close>)
    ultimately have "placed A a idle s' (h # ys) (ws @ [c]) zs" using s'(3,4) unfolding placed_def by blast
    with s'(1) show ?thesis by (auto intro: sys_invI)
  qed
qed

lemma post_ok:
  assumes "placed A a idle s xs ws zs"
  shows "\<exists>v s'. rx_semaphore_post (Some a) s = Some (v, s') \<and> sys_inv A a idle s'"
proof -
  note p = placedD [OF assms]
  obtain c t where c: "curr_running_task s = Some c" "c \<in> set xs" "tasks s c = Some t" "t_state t = RX_TASK_RUNNING"
    using placed_running [OF assms] .
  show ?thesis
  proof (cases ws)
    case Nil
    obtain sm where sm: "sems s a = Some sm" "waiting (sem_head a) s ws" using p(2) by (rule sem_invD)
    have "s_task sm = NULL" using sm Nil by (simp add: waiting_def sem_head_def)
    moreover have "sem_inv (s\<lparr>critical := critical s \<and> in_irq s\<rparr>) a ws" by (rule sem_inv_outside [OF p(2)]) simp_all
    then have "placed A a idle (s\<lparr>critical := critical s \<and> in_irq s\<rparr>) xs ws zs" by (intro placed_frame [OF assms]) simp_all
    ultimately show ?thesis using sem_post_lost_spec [OF sm(1)] by (auto intro: sys_invI)
  next
    case (Cons w vs)
    obtain tw where tw: "tasks s w = Some tw" using p(12) [of w] Cons by (auto simp: sem_of_def)
    have dj: "set (w # vs) \<inter> set xs = {}" using p(3) Cons by auto
    obtain s' n where s': "rx_semaphore_post (Some a) s = Some (OS_OK, s')" "sem_inv s' a vs"
      "ready_queue s' (insert_prio (task_prio s) w xs)" "tasks s' w = Some ((sem_woken tw)\<lparr>t_next := n\<rparr>)"
      "\<And>b. b \<notin> insert w (set xs) \<Longrightarrow> tasks s' b = tasks s b"
      "\<And>b. b \<noteq> w \<Longrightarrow> same_but_next (tasks s b) (tasks s' b)" "curr_running_task s' = curr_running_task s"
      using sem_post_spec [OF p(1) p(2) [unfolded Cons] dj tw] by auto
    let ?ys = "insert_prio (task_prio s) w xs"
    have "distinct (?ys @ vs @ zs)" "set (?ys @ vs @ zs) = A"
      using p(3-9) Cons ready_queue_distinct [OF s'(3)] by auto
    moreover have "running s' c" using c dj by (intro running_same [OF s'(6) s'(7)]) (auto simp: running_def)
    moreover have "sem_of s' b = Some NULL" if "b \<in> set ?ys \<union> set zs" for b
      using that sem_of_Some [OF s'(4)] sem_of_same [OF s'(6) [of b]] p(11) [of b]
      by (cases "b = w") (auto simp: sem_woken_def)
    moreover have "sem_of s' b = Some (Some a)" if "b \<in> set vs" for b
    proof -
      have "b \<noteq> w" using that p(7) Cons by auto
      then show ?thesis using that sem_of_same [OF s'(6)] p(12) [of b] Cons by simp
    qed
    moreover have "suspended s' b" if "b \<in> set vs \<union> set zs" for b
    proof -
      have "b \<noteq> w" using that p(5,7) Cons by auto
      then show ?thesis using that p(13) [of b] suspended_same [OF s'(6)] Cons by auto
    qed
    ultimately have "placed A a idle s' ?ys vs zs" using s'(2,3) p(10) c(2) unfolding placed_def by auto
    with s'(1) show ?thesis by (auto intro: sys_invI)
  qed
qed

lemma suspend_me_ok:
  assumes "placed A a idle s xs ws zs" and "curr_running_task s \<noteq> Some idle"
  shows "\<exists>r s'. rx_suspend_task NULL s = Some (r, s') \<and> sys_inv A a idle s'"
proof -
  note p = placedD [OF assms(1)]
  obtain c t where c: "curr_running_task s = Some c" "c \<in> set xs" "tasks s c = Some t" "t_state t = RX_TASK_RUNNING"
    using placed_running [OF assms(1)] .
  have idle: "idle \<in> set (remove1 c xs)" using p(10) assms(2) c(1) by auto
  then obtain h ys where rest: "remove1 c xs = h # ys" by (cases "remove1 c xs") auto
  obtain s' u where s': "do { (_, s1) \<leftarrow> rx_remove_from_ready_q (Some c) s;
                   s2 \<leftarrow> upd_task (Some c) (\<lambda>t. t\<lparr>t_state := RX_TASK_SUSPEND\<rparr>) s1;
                   sched_then (\<lambda>s. Some (Returns OS_OK, s)) s2 } = Some (Sleeps, s')"
      "curr_running_task s' = Some h" "ready_queue s' (h # ys)"
      "tasks s' c = Some (t\<lparr>t_next := NULL, t_state := RX_TASK_SUSPEND\<rparr>)" "tasks s' h = Some u" "t_state u = RX_TASK_RUNNING"
      "\<And>b. b \<notin> set xs \<Longrightarrow> tasks s' b = tasks s b" "\<And>b. b \<noteq> c \<Longrightarrow> sem_of s' b = sem_of s b" "sems s' = sems s"
    using leave_cpu_spec [OF p(1) c(1,2) rest c(3), of RX_TASK_SUSPEND "\<lambda>s. Some (Returns OS_OK, s)"]
    by (auto simp: sem_of_def)
  have cur: "curr_running_task s1 = Some c" if "rx_remove_from_ready_q (Some c) s = Some (v, s1)" for v s1
    using remove_from_ready_q_spec [OF ready_queue_except [OF p(1)] c(2)] that c(1) relinked_fields(11) by fastforce
  have run: "rx_suspend_task NULL s = Some (Sleeps, s')"
    using s'(1) c(1) cur by (auto simp: rx_suspend_task_def split: Option.bind_splits)
  have sets: "set (h # ys) = set xs - {c}" "distinct (h # ys)" using p(6) rest set_remove1_eq [of xs c] distinct_remove1 [of xs c] by auto
  have "distinct ((h # ys) @ ws @ (c # zs))" "set ((h # ys) @ ws @ (c # zs)) = A" using p(3-9) c(2) sets by auto
  moreover have "sem_inv s' a ws" using p(3) by (intro sem_inv_outside [OF p(2) s'(9)] s'(7)) auto
  moreover have "idle \<in> set (h # ys)" using idle rest by simp
  moreover have "\<exists>d\<in>set (h # ys). running s' d" using s'(2,5,6) by (auto simp: running_def)
  moreover have "sem_of s' b = Some NULL" if "b \<in> set (h # ys) \<union> set (c # zs)" for b
  proof (cases "b = c")
    case True
    then show ?thesis using sem_of_Some [OF s'(4)] sem_of_Some [OF c(3)] p(11) [of c] c(2) by simp
  next
    case False
    then have "b \<in> set xs \<union> set zs" using that sets(1) by auto
    then show ?thesis using False s'(8) p(11) by simp
  qed
  moreover have "sem_of s' b = Some (Some a)" if "b \<in> set ws" for b
  proof -
    have "b \<noteq> c" using that p(3) c(2) by auto
    then show ?thesis using that s'(8) p(12) by simp
  qed
  moreover have "suspended s' b" if "b \<in> set ws \<union> set (c # zs)" for b
  proof (cases "b = c")
    case False
    then have "b \<in> set ws \<union> set zs" "b \<notin> set xs" using that p(3,4) by auto
    then show ?thesis using p(13) suspended_eq [OF s'(7)] by blast
  qed (use s'(4) in \<open>simp add: suspended_def\<close>)
  ultimately have "placed A a idle s' (h # ys) ws (c # zs)" using s'(3) unfolding placed_def by blast
  with run show ?thesis by (auto intro: sys_invI)
qed

lemma suspend_ok:
  assumes "placed A a idle s xs ws zs" and "x \<in> A" and "x \<noteq> idle"
  shows "\<exists>r s'. rx_suspend_task (Some x) s = Some (r, s') \<and> sys_inv A a idle s'"
proof -
  note p = placedD [OF assms(1)]
  obtain c t where c: "curr_running_task s = Some c" "c \<in> set xs" "tasks s c = Some t" "t_state t = RX_TASK_RUNNING"
    using placed_running [OF assms(1)] .
  have "sem_of s x \<noteq> None" using assms(2) p(9,11,12) by blast
  then obtain tx where tx: "tasks s x = Some tx" by (auto simp: sem_of_def)
  show ?thesis
  proof (cases "x \<in> set xs \<and> t_state tx = RX_TASK_READY")
    case True
    then have x: "x \<in> set xs" "t_state tx = RX_TASK_READY" and xc: "x \<noteq> c" using c tx by auto
    obtain s' where s': "rx_suspend_task (Some x) s = Some (Returns OS_OK, s')" "ready_queue s' (remove1 x xs)"
      "tasks s' x = Some (tx\<lparr>t_next := NULL, t_state := RX_TASK_SUSPEND\<rparr>)"
      "\<And>b. b \<notin> set xs \<Longrightarrow> tasks s' b = tasks s b" "\<And>b. b \<noteq> x \<Longrightarrow> same_but_next (tasks s b) (tasks s' b)"
      "curr_running_task s' = curr_running_task s" "sems s' = sems s"
      using suspend_other_spec [OF p(1) x(1) tx x(2)] by auto
    have sets: "set (remove1 x xs) = set xs - {x}" using p(6) by simp
    have "distinct (remove1 x xs @ ws @ (x # zs))" "set (remove1 x xs @ ws @ (x # zs)) = A" using p(3-9) x(1) sets by auto
    moreover have "sem_inv s' a ws" using p(3) by (intro sem_inv_outside [OF p(2) s'(7)] s'(4)) auto
    moreover have "idle \<in> set (remove1 x xs)" using p(10) assms(3) sets by auto
    moreover have "running s' c" using c xc by (intro running_same [OF s'(5) s'(6)]) (auto simp: running_def)
    then have "\<exists>d\<in>set (remove1 x xs). running s' d" using c(2) xc sets by auto
    moreover have "sem_of s' b = Some NULL" if "b \<in> set (remove1 x xs) \<union> set (x # zs)" for b
      using that sem_of_Some [OF s'(3)] sem_of_same [OF s'(5) [of b]] p(11) [of b] sem_of_Some [OF tx] p(11) [of x] x(1) sets
      by (cases "b = x") auto
    moreover have "sem_of s' b = Some (Some a)" if "b \<in> set ws" for b
    proof -
      have "b \<noteq> x" using that p(3) x(1) by auto
      then show ?thesis using that sem_of_same [OF s'(5)] p(12) by simp
    qed
    moreover have "suspended s' b" if "b \<in> set ws \<union> set (x # zs)" for b
    proof (cases "b = x")
      case False
      then have "b \<in> set ws \<union> set zs" "b \<notin> set xs" using that p(3,4) by auto
      then show ?thesis using p(13) suspended_eq [OF s'(4)] by blast
    qed (use s'(3) in \<open>simp add: suspended_def\<close>)
    ultimately have "placed A a idle s' (remove1 x xs) ws (x # zs)" using s'(2) unfolding placed_def by blast
    with s'(1) show ?thesis by (auto intro: sys_invI)
  next
    case False
    then have "t_state tx \<noteq> RX_TASK_READY" using assms(2) p(9) p(13) [of x] tx by (auto simp: suspended_def)
    then show ?thesis using suspend_not_ready [OF tx] assms(1) by (auto intro: sys_invI)
  qed
qed

lemma resume_ok:
  assumes "placed A a idle s xs ws zs" and "x \<in> A" and "tasks s x = Some t" and "t_sem t = NULL"
  shows "\<exists>v s'. rx_resume_task (Some x) s = Some (v, s') \<and> sys_inv A a idle s'"
proof -
  note p = placedD [OF assms(1)]
  obtain c tc where c: "curr_running_task s = Some c" "c \<in> set xs" "tasks s c = Some tc" "t_state tc = RX_TASK_RUNNING"
    using placed_running [OF assms(1)] .
  have nw: "x \<notin> set ws" using p(12) [of x] sem_of_Some [OF assms(3)] assms(4) by auto
  show ?thesis
  proof (cases "x \<in> set xs")
    case True
    then have "runnable s x" using p(1) by (simp add: ready_queue_def)
    then have "t_state t \<noteq> RX_TASK_SUSPEND" using assms(3) by (auto simp: runnable_def)
    then show ?thesis using resume_task_refused [OF assms(3)] assms(1) by (auto intro: sys_invI)
  next
    case False
    then have x: "x \<in> set zs" using nw assms(2) p(9) by auto
    then have st: "t_state t = RX_TASK_SUSPEND" using p(13) [of x] assms(3) by (auto simp: suspended_def)
    let ?ys = "insert_prio (task_prio s) x xs"
    obtain s' n where s': "rx_resume_task (Some x) s = Some (OS_OK, s')" "ready_queue s' ?ys"
      "tasks s' x = Some (t\<lparr>t_state := RX_TASK_READY, t_next := n\<rparr>)"
      "\<And>b. b \<notin> insert x (set xs) \<Longrightarrow> tasks s' b = tasks s b" "\<And>b. b \<noteq> x \<Longrightarrow> same_but_next (tasks s b) (tasks s' b)"
      "curr_running_task s' = curr_running_task s" "sems s' = sems s"
      using resume_task_spec [OF p(1) False assms(3) st] by auto
    have "distinct (?ys @ ws @ remove1 x zs)" "set (?ys @ ws @ remove1 x zs) = A"
      using p(3-9) x nw ready_queue_distinct [OF s'(2)] by auto
    moreover have "sem_inv s' a ws" using p(3) nw by (intro sem_inv_outside [OF p(2) s'(7)] s'(4)) auto
    moreover have "running s' c" using c False by (intro running_same [OF s'(5) s'(6)]) (auto simp: running_def)
    moreover have "sem_of s' b = Some NULL" if "b \<in> set ?ys \<union> set (remove1 x zs)" for b
      using that sem_of_Some [OF s'(3)] sem_of_same [OF s'(5) [of b]] p(8) p(11) [of b] assms(4)
      by (cases "b = x") auto
    moreover have "sem_of s' b = Some (Some a)" if "b \<in> set ws" for b
    proof -
      have "b \<noteq> x" using that nw by auto
      then show ?thesis using that sem_of_same [OF s'(5)] p(12) by simp
    qed
    moreover have "suspended s' b" if "b \<in> set ws \<union> set (remove1 x zs)" for b
    proof -
      have "b \<in> set ws \<union> set zs" "b \<notin> insert x (set xs)" using that p(3,4,8) nw by auto
      then show ?thesis using p(13) suspended_eq [OF s'(4)] by blast
    qed
    ultimately have "placed A a idle s' ?ys ws (remove1 x zs)" using s'(2) p(10) c(2) unfolding placed_def by auto
    with s'(1) show ?thesis by (auto intro: sys_invI)
  qed
qed


section \<open>Every sequence of calls\<close>

inductive_cases sem_stepE: "sem_step A a idle s s'"

lemma sem_step_inv: "sem_step A a idle s s' \<Longrightarrow> sys_inv A a idle s \<Longrightarrow> sys_inv A a idle s'"
proof (induction rule: sem_step.induct)
  case (step_wait s timer r s')
  then show ?case using wait_ok [of A a idle s _ _ _ timer] unfolding sys_inv_def by fastforce
next
  case (step_try timer s r s')
  then show ?case using try_wait_ok [of A a idle s _ _ _ timer] unfolding sys_inv_def by fastforce
next
  case (step_post s v s')
  then show ?case using post_ok [of A a idle s] unfolding sys_inv_def by fastforce
next
  case (step_yield s s')
  then show ?case using yield_ok [of A a idle s] unfolding sys_inv_def by fastforce
next
  case (step_suspend_me s r s')
  then show ?case using suspend_me_ok [of A a idle s] unfolding sys_inv_def by fastforce
next
  case (step_suspend x s r s')
  then show ?case using suspend_ok [of A a idle s _ _ _ x] unfolding sys_inv_def by fastforce
next
  case (step_resume x s t v s')
  then show ?case using resume_ok [of A a idle s _ _ _ x t] unfolding sys_inv_def by fastforce
qed

lemma reachable_inv: "rtranclp (sem_step A a idle) s0 s \<Longrightarrow> sys_inv A a idle s0 \<Longrightarrow> sys_inv A a idle s"
  by (induction rule: rtranclp_induct) (auto intro: sem_step_inv)

lemma demo_sem_placed: "placed {1, 2, 3, 4, 5} 200 3 demo_sem [1, 2, 3] [4, 5] []"
  using demo_sem_ready demo_sem_inv
  by (auto simp: placed_def running_def sem_of_def suspended_def demo_task_def blank_task_def)



text \<open>
  The guard of the resumption is needed: \<^verbatim>\<open>rx_resume_task\<close> looks at the state of its task only. Called
  for a task that waits for the semaphore it puts it into the ready queue and leaves it in the
  waiting list, whose links it has overwritten.
\<close>

lemma resume_waiter_breaks:
  assumes "placed A a idle s xs (w # ws) zs"
  shows "\<exists>s'. rx_resume_task (Some w) s = Some (OS_OK, s') \<and> \<not> sys_inv A a idle s'"
proof -
  note p = placedD [OF assms]
  obtain t where t: "tasks s w = Some t" "t_state t = RX_TASK_SUSPEND" using p(13) [of w] by (auto simp: suspended_def)
  have "w \<notin> set xs" using p(3) by auto
  from resume_task_spec [OF p(1) this t] obtain s' where
    s': "rx_resume_task (Some w) s = Some (OS_OK, s')" "ready_queue s' (insert_prio (task_prio s) w xs)" "sems s' = sems s"
    by auto
  have "sem_head a s = Some (Some w)" using p(2) waiting_hd(1) by (auto simp: sem_inv_def)
  then have hd: "sem_head a s' = Some (Some w)" using s'(3) by (simp add: sem_head_def)
  have False if q: "placed A a idle s' ys vs us" for ys vs us
  proof -
    have "ys = insert_prio (task_prio s) w xs" using placedD(1) [OF q] s'(2) lst_unique by (auto simp: ready_queue_def)
    then have "w \<in> set ys" by simp
    moreover have "w \<in> set vs" using placedD(2) [OF q] hd by (cases vs) (auto simp: sem_inv_def waiting_def)
    ultimately show False using placedD(3) [OF q] by auto
  qed
  then show ?thesis using s'(1) by (auto simp: sys_inv_def)
qed

end
