(* ===== verification/RX_Exclusion.thy ===== *)
theory RX_Exclusion
  imports RX_Mutex
begin

text \<open>
  Tasks that take turns on the processor and meet at a mutex, as a state machine. Every task is outside
  of the critical section, blocked in \<^verbatim>\<open>rx_mutex_lock\<close>, or inside, as the values that the calls return
  tell it. A step is one call by the running task or a pass of the dispatcher. What the callers have to
  respect are the guards: a task does not lock a mutex it holds, and the idle task does not wait.
\<close>

section \<open>Steps\<close>

datatype point = Outside | Blocked | Inside

fun point_of :: "int call \<Rightarrow> point" where
  "point_of Sleeps = Blocked"
| "point_of (Returns v) = (if v = OS_OK then Inside else Outside)"

type_synonym points = "addr \<Rightarrow> point"

inductive mx_step :: "addr \<Rightarrow> addr \<Rightarrow> points \<times> kstate \<Rightarrow> points \<times> kstate \<Rightarrow> bool" for a idle where
  mx_lock:
    "curr_running_task s = Some c \<Longrightarrow> pc c = Outside \<Longrightarrow>
     timeout = OS_NO_WAIT \<or> timeout = OS_WAIT_FOREVER \<and> c \<noteq> idle \<Longrightarrow>
     rx_mutex_lock (Some a) timer timeout s = Some (r, s') \<Longrightarrow> mx_step a idle (pc, s) (pc(c := point_of r), s')"
| mx_lock_returns:
    "curr_running_task s = Some c \<Longrightarrow> pc c = Blocked \<Longrightarrow>
     mutex_lock_resume (Some a) s = Some (r, s') \<Longrightarrow> mx_step a idle (pc, s) (pc(c := point_of r), s')"
| mx_unlock:
    "curr_running_task s = Some c \<Longrightarrow> pc c \<noteq> Blocked \<Longrightarrow>
     rx_mutex_unlock (Some a) s = Some (v, s') \<Longrightarrow> mx_step a idle (pc, s) (pc(c := Outside), s')"
| mx_dispatch: "rx_sched s = Some s' \<Longrightarrow> mx_step a idle (pc, s) (pc, s')"

section \<open>The invariant\<close>

definition untimed :: "kstate \<Rightarrow> addr \<Rightarrow> bool" where
  "untimed s b \<longleftrightarrow> (\<exists>t. tasks s b = Some t \<and> t_timer t = NULL)"

definition own_prio :: "kstate \<Rightarrow> addr \<Rightarrow> bool" where
  "own_prio s b \<longleftrightarrow> (\<exists>t. tasks s b = Some t \<and> t_prio t = t_orig_prio t)"

definition is_ready :: "kstate \<Rightarrow> addr \<Rightarrow> bool" where
  "is_ready s b \<longleftrightarrow> (\<exists>t. tasks s b = Some t \<and> t_state t = RX_TASK_READY)"

text \<open>
  The tasks \<open>A\<close> are the ready queue \<open>xs\<close> and the waiters \<open>ws\<close> of the mutex. The owner is ready, it has a
  priority at least as urgent as every waiter, and its own again when nobody waits. The running task \<open>c\<close>
  is the head of the queue but for the time between a hand-over and the next dispatch.
\<close>

definition placement :: "addr set \<Rightarrow> addr \<Rightarrow> addr \<Rightarrow> kstate \<Rightarrow> addr list \<Rightarrow> ptr \<Rightarrow> addr list \<Rightarrow> addr \<Rightarrow> bool" where
  "placement A a idle s xs p ws c \<longleftrightarrow>
     ready_queue s xs \<and> mutex_inv s a p ws \<and> distinct (xs @ ws) \<and> set (xs @ ws) = A \<and> idle \<in> set xs \<and>
     curr_running_task s = Some c \<and> c \<in> set xs"

definition points_ok :: "points \<Rightarrow> addr list \<Rightarrow> ptr \<Rightarrow> addr list \<Rightarrow> bool" where
  "points_ok pc xs p ws \<longleftrightarrow>
     (\<forall>b\<in>set ws. pc b = Blocked) \<and> (\<forall>b\<in>set xs. (p = Some b) = (pc b \<noteq> Outside)) \<and>
     (\<forall>b. p = Some b \<longrightarrow> b \<in> set xs)"

definition prios_ok :: "addr set \<Rightarrow> kstate \<Rightarrow> ptr \<Rightarrow> addr list \<Rightarrow> bool" where
  "prios_ok A s p ws \<longleftrightarrow>
     (\<forall>b\<in>A. untimed s b \<and> (p = Some b \<and> ws \<noteq> [] \<or> own_prio s b)) \<and>
     (\<forall>b. p = Some b \<longrightarrow> (\<forall>w\<in>set ws. task_prio s b \<le> task_prio s w))"

definition turn_ok :: "kstate \<Rightarrow> addr list \<Rightarrow> ptr \<Rightarrow> addr \<Rightarrow> bool" where
  "turn_ok s xs p c \<longleftrightarrow> (if p = NULL \<or> p = Some c then hd xs = c else \<forall>b. p = Some b \<longrightarrow> is_ready s b)"

definition excl :: "addr set \<Rightarrow> addr \<Rightarrow> addr \<Rightarrow> points \<Rightarrow> kstate \<Rightarrow> addr list \<Rightarrow> ptr \<Rightarrow> addr list \<Rightarrow> addr \<Rightarrow> bool" where
  "excl A a idle pc s xs p ws c \<longleftrightarrow>
     placement A a idle s xs p ws c \<and> points_ok pc xs p ws \<and> prios_ok A s p ws \<and> turn_ok s xs p c"

definition excl_inv :: "addr set \<Rightarrow> addr \<Rightarrow> addr \<Rightarrow> points \<times> kstate \<Rightarrow> bool" where
  "excl_inv A a idle st \<longleftrightarrow> (\<exists>xs p ws c. excl A a idle (fst st) (snd st) xs p ws c)"

lemmas excl_defs = excl_def placement_def points_ok_def prios_ok_def turn_ok_def

lemma exclD:
  assumes "excl A a idle pc s xs p ws c"
  shows "ready_queue s xs" "mutex_inv s a p ws" "set xs \<inter> set ws = {}" "distinct xs" "distinct ws"
    "set xs \<union> set ws = A" "idle \<in> set xs" "curr_running_task s = Some c" "c \<in> set xs"
    "points_ok pc xs p ws" "prios_ok A s p ws" "turn_ok s xs p c"
  using assms by (auto simp: excl_def placement_def)

lemma excl_invI: "excl A a idle pc s xs p ws c \<Longrightarrow> excl_inv A a idle (pc, s)"
  unfolding excl_inv_def by auto

lemma same_fields:
  assumes "same_but_next (tasks s b) (tasks s' b)"
  shows "untimed s' b = untimed s b" "own_prio s' b = own_prio s b" "is_ready s' b = is_ready s b"
    "task_prio s' b = task_prio s b"
  using assms by (cases "tasks s b"; auto simp: untimed_def own_prio_def is_ready_def task_prio_def)+

lemma dispatched_fields:
  assumes "tasks s h = Some u" and "tasks s' = (tasks s)(h \<mapsto> dispatched u)"
  shows "untimed s' b = untimed s b" "own_prio s' b = own_prio s b" "task_prio s' b = task_prio s b"
    "b \<noteq> h \<Longrightarrow> is_ready s' b = is_ready s b"
  using assms by (auto simp: untimed_def own_prio_def is_ready_def task_prio_def dispatched_def)

text \<open>A switch to the head of the queue, with the mutex owned by a ready task.\<close>

lemma prios_ok_dispatched:
  assumes "tasks s h = Some u" and "tasks s' = (tasks s)(h \<mapsto> dispatched u)"
  shows "prios_ok A s' p ws = prios_ok A s p ws"
  by (simp add: prios_ok_def dispatched_fields [OF assms])

lemma turn_ok_dispatched:
  assumes "tasks s h = Some u" and "tasks s' = (tasks s)(h \<mapsto> dispatched u)" and "is_ready s b"
  shows "turn_ok s' (h # ys) (Some b) h"
  using assms(3) dispatched_fields(4) [OF assms(1,2)] by (auto simp: turn_ok_def)

lemma dispatch_ok:
  assumes "excl A a idle pc s xs p ws c"
  shows "\<exists>s'. rx_sched s = Some s' \<and> excl A a idle pc s' xs p ws (hd xs)"
proof -
  note e = exclD [OF assms]
  obtain h ys where xs: "xs = h # ys" using e(7) by (cases xs) auto
  have head: "task_ready_head s = Some h" using e(1) xs by (simp add: ready_queue_def)
  show ?thesis
  proof (cases "c = h")
    case True
    then show ?thesis using assms e(8) head xs by (simp add: rx_sched_stay)
  next
    case False
    obtain u where u: "tasks s h = Some u" using e(1) xs by (auto simp: ready_queue_def task_next_eq_Some)
    have "untimed s c" using e(6,9,11) by (auto simp: prios_ok_def)
    then have tc: "tasks s c \<noteq> None" by (auto simp: untimed_def)
    let ?s' = "s\<lparr>tasks := (tasks s)(h \<mapsto> dispatched u), curr_running_task := Some h,
           need_resched := False, critical := critical s \<and> in_irq s\<rparr>"
    have run: "rx_sched s = Some ?s'" by (rule rx_sched_switch [OF e(8) tc head u False])
    obtain b where b: "p = Some b" "is_ready s b" using e(12) False xs by (cases p) (auto simp: turn_ok_def split: if_splits)
    have "ready_queue ?s' xs" "mutex_inv ?s' a p ws"
      using ready_queue_sched [OF e(1) [unfolded xs] u] mutex_inv_sched [OF e(2) u] xs by simp_all
    then have "placement A a idle ?s' xs p ws h" using assms xs by (auto simp: excl_def placement_def)
    moreover have "prios_ok A ?s' p ws" using e(11) prios_ok_dispatched [OF u, of ?s'] by simp
    moreover have "turn_ok ?s' xs p h" using turn_ok_dispatched [OF u _ b(2), of ?s'] b(1) xs by simp
    ultimately show ?thesis using run e(10) xs by (auto simp: excl_def)
  qed
qed


section \<open>Locking\<close>

text \<open>A step that changes the mutex only.\<close>

lemma excl_frame:
  assumes "excl A a idle pc s xs p ws c" and "tasks s' = tasks s" and "curr_running_task s' = curr_running_task s"
    and "task_ready_head s' = task_ready_head s" and "mutex_inv s' a p' ws"
    and "points_ok pc' xs p' ws" and "p' = p \<or> p' = Some c \<and> p = NULL \<or> p' = NULL \<and> p = Some c \<and> ws = []"
  shows "excl A a idle pc' s' xs p' ws c"
proof -
  note e = exclD [OF assms(1)]
  have "ready_queue s' xs" using e(1) assms(2,4) ready_queue_cong [of s' s] by simp
  then have "placement A a idle s' xs p' ws c" using assms(1,3,5) by (auto simp: excl_def placement_def)
  moreover have "ws = []" if "p = NULL" using e(2) that by (auto simp: mutex_inv_def)
  then have "prios_ok A s' p' ws"
    using e(11) assms(2,7) by (auto simp: prios_ok_def untimed_def own_prio_def task_prio_def)
  moreover have "turn_ok s' xs p' c" using e(12) assms(2,7) by (auto simp: turn_ok_def is_ready_def)
  ultimately show ?thesis using assms(6) by (simp add: excl_def)
qed

lemma mutex_inv_critical: "mutex_inv (s\<lparr>critical := x\<rparr>) a p ws = mutex_inv s a p ws"
proof -
  have "waiting (mutex_head a) (s\<lparr>critical := x\<rparr>) ws = waiting (mutex_head a) s ws"
    by (rule waiting_cong) (simp_all add: mutex_head_def)
  then show ?thesis by (simp add: mutex_inv_def)
qed

lemma excl_critical:
  assumes "excl A a idle pc s xs p ws c"
  shows "excl A a idle pc (s\<lparr>critical := x\<rparr>) xs p ws c"
  by (rule excl_frame [OF assms]) (simp_all add: mutex_inv_critical exclD(2,10) [OF assms])

lemma owner_point:
  assumes "excl A a idle pc s xs p ws c"
  shows "p = Some c \<longleftrightarrow> pc c \<noteq> Outside"
  using exclD(9,10) [OF assms] by (simp add: points_ok_def)

lemma lock_free_ok:
  assumes "excl A a idle pc s xs NULL ws c"
  shows "\<exists>s'. rx_mutex_lock (Some a) timer timeout s = Some (Returns OS_OK, s') \<and>
              excl A a idle (pc(c := Inside)) s' xs (Some c) ws c"
proof -
  note e = exclD [OF assms]
  obtain m where m: "mutexes s a = Some m" "m_lock m = RX_MUTEX_UNLOCKED" "waiting (mutex_head a) s ws" "ws = []"
    using e(2) by (auto simp: mutex_inv_def)
  let ?m = "m\<lparr>m_lock := RX_MUTEX_LOCKED, m_owner := Some c\<rparr>"
  let ?s1 = "s\<lparr>mutexes := (mutexes s)(a \<mapsto> ?m)\<rparr>"
  let ?s' = "?s1\<lparr>critical := critical s \<and> in_irq s\<rparr>"
  have "mutex_inv ?s1 a (Some c) ws" using m waiting_mutex_upd [of s a m ?m ws] by (simp add: mutex_inv_def)
  then have "mutex_inv ?s' a (Some c) ws" by (simp only: mutex_inv_critical)
  moreover have "points_ok (pc(c := Inside)) xs (Some c) ws" using e(9,10) m(4) by (auto simp: points_ok_def)
  ultimately have "excl A a idle (pc(c := Inside)) ?s' xs (Some c) ws c" by (intro excl_frame [OF assms]) simp_all
  moreover have "rx_mutex_lock (Some a) timer timeout s = Some (Returns OS_OK, ?s')"
    using m e(8) by (simp add: rx_mutex_lock_def critical_eqs)
  ultimately show ?thesis by blast
qed

lemma lock_busy_ok:
  assumes "excl A a idle pc s xs (Some b) ws c"
  shows "rx_mutex_lock (Some a) timer OS_NO_WAIT s = Some (Returns E_OS_UNAVAIL, s\<lparr>critical := critical s \<and> in_irq s\<rparr>)"
proof -
  obtain m where m: "mutexes s a = Some m" "m_lock m = RX_MUTEX_LOCKED" using exclD(2) [OF assms] by (auto simp: mutex_inv_def)
  then show ?thesis by (simp add: rx_mutex_lock_def critical_eqs)
qed

lemma set_boosted_queue: "b \<in> set xs \<Longrightarrow> b \<noteq> c \<Longrightarrow> distinct xs \<Longrightarrow> set (boosted_queue s c b xs) = set xs - {c}"
  by (auto simp: boosted_queue_def)

text \<open>The state in which a caller that has to wait calls the dispatcher.\<close>

lemma lock_waits:
  assumes ex: "excl A a idle pc s xs (Some b) ws c" and bc: "b \<noteq> c" and to: "timeout = OS_WAIT_FOREVER"
  shows "\<exists>s1. rx_mutex_lock (Some a) timer timeout s = sched_then (mutex_lock_resume (Some a)) s1 \<and>
            ready_queue s1 (boosted_queue s c b xs) \<and> mutex_inv s1 a (Some b) (ws @ [c]) \<and>
            curr_running_task s1 = Some c \<and> tasks s1 c \<noteq> None \<and> is_ready s1 b \<and> prios_ok A s1 (Some b) (ws @ [c])"
proof -
  note e = exclD [OF ex]
  have bx: "b \<in> set xs" using e(10) by (simp add: points_ok_def)
  have rb: "is_ready s b" using e(12) bc by (simp add: turn_ok_def)
  then obtain ot where ot: "tasks s b = Some ot" "t_state ot = RX_TASK_READY" by (auto simp: is_ready_def)
  have pc: "untimed s c" "own_prio s c" "untimed s b" using e(6,9,11) bx bc by (auto simp: prios_ok_def)
  then obtain t where t: "tasks s c = Some t" "t_timer t = NULL" "t_prio t = t_orig_prio t"
    by (auto simp: untimed_def own_prio_def)
  have n: "timeout \<noteq> OS_NO_WAIT" "\<not> timeout > 0" using to by (simp_all add: OS_WAIT_FOREVER_def OS_NO_WAIT_def)
  obtain s1 k where s1: "rx_mutex_lock (Some a) timer timeout s = sched_then (mutex_lock_resume (Some a)) s1"
    "ready_queue s1 (boosted_queue s c b xs)" "mutex_inv s1 a (Some b) (ws @ [c])" "curr_running_task s1 = Some c"
    "tasks s1 c = Some (mutex_sleeper a t)"
    "tasks s1 b = Some (ot\<lparr>t_prio := min (t_prio ot) (t_prio t), t_next := k\<rparr>)"
    "\<And>x. x \<noteq> c \<Longrightarrow> x \<noteq> b \<Longrightarrow> same_but_next (tasks s x) (tasks s1 x)"
    using mutex_lock_enqueues [OF e(1,2,3,8,9) t(1) bx bc ot n(1), of timer] n(2) by auto
  have ready: "is_ready s1 b" using s1(6) ot(2) by (simp add: is_ready_def)
  have others: "untimed s1 x \<and> (x = b \<or> own_prio s1 x)" if "x \<in> A" for x
  proof -
    consider "x = b" | "x = c" | "x \<noteq> b" "x \<noteq> c" by blast
    then show ?thesis
    proof cases
      case 3
      then show ?thesis using e(11) that same_fields [OF s1(7), of x] by (auto simp: prios_ok_def)
    qed (use pc(3) ot s1(5,6) t in \<open>auto simp: untimed_def own_prio_def mutex_sleeper_def\<close>)
  qed
  have "task_prio s1 b \<le> task_prio s1 w" if "w \<in> set (ws @ [c])" for w
  proof (cases "w = c")
    case False
    then have w: "w \<in> set ws" "w \<noteq> b" using that e(3) bx by auto
    then have "task_prio s b \<le> task_prio s w" using e(11) by (simp add: prios_ok_def)
    then show ?thesis using same_fields(4) [OF s1(7), of w] False w(2) s1(6) ot by (simp add: task_prio_def)
  qed (use s1(5,6) in \<open>simp add: task_prio_def mutex_sleeper_def\<close>)
  then have "prios_ok A s1 (Some b) (ws @ [c])" using others by (auto simp: prios_ok_def)
  with s1 ready show ?thesis by (intro exI [of _ s1]) simp
qed

lemma lock_waits_ok:
  assumes ex: "excl A a idle pc s xs (Some b) ws c" and bc: "b \<noteq> c" and idle: "c \<noteq> idle"
  shows "\<exists>s'. rx_mutex_lock (Some a) timer OS_WAIT_FOREVER s = Some (Sleeps, s') \<and> excl_inv A a idle (pc(c := Blocked), s')"
proof -
  note e = exclD [OF ex]
  have bx: "b \<in> set xs" using e(10) by (simp add: points_ok_def)
  obtain s1 where s1: "rx_mutex_lock (Some a) timer OS_WAIT_FOREVER s = sched_then (mutex_lock_resume (Some a)) s1"
    "ready_queue s1 (boosted_queue s c b xs)" "mutex_inv s1 a (Some b) (ws @ [c])" "curr_running_task s1 = Some c"
    "tasks s1 c \<noteq> None" "is_ready s1 b" "prios_ok A s1 (Some b) (ws @ [c])"
    using lock_waits [OF ex bc, of OS_WAIT_FOREVER timer] by auto
  have sets: "set (boosted_queue s c b xs) = set xs - {c}" by (rule set_boosted_queue [OF bx bc e(4)])
  have di: "distinct (boosted_queue s c b xs)" by (rule ready_queue_distinct [OF s1(2)])
  obtain h ys where hy: "boosted_queue s c b xs = h # ys" using sets bx bc by (cases "boosted_queue s c b xs") auto
  have cn: "c \<notin> set (h # ys)" using sets hy by auto
  obtain t1 where t1: "tasks s1 c = Some t1" using s1(5) by auto
  obtain s' u where s': "sched_then (mutex_lock_resume (Some a)) s1 = Some (Sleeps, s')" "curr_running_task s' = Some h"
    "ready_queue s' (h # ys)" "mutex_inv s' a (Some b) (ws @ [c])" "tasks s1 h = Some u" "tasks s' = (tasks s1)(h \<mapsto> dispatched u)"
    using lock_switches [OF s1(2) [unfolded hy] s1(3,4) cn t1] by blast
  have "placement A a idle s' (h # ys) (Some b) (ws @ [c]) h"
    using s'(2-4) sets di hy e(3-9) idle by (auto simp: placement_def)
  moreover have "points_ok (pc(c := Blocked)) (h # ys) (Some b) (ws @ [c])"
    using e(10) sets hy bx bc e(3,9) by (auto simp: points_ok_def)
  moreover have "prios_ok A s' (Some b) (ws @ [c])" using s1(7) prios_ok_dispatched [OF s'(5,6)] by simp
  moreover have "turn_ok s' (h # ys) (Some b) h" by (rule turn_ok_dispatched [OF s'(5,6) s1(6)])
  ultimately have "excl A a idle (pc(c := Blocked)) s' (h # ys) (Some b) (ws @ [c]) h" by (simp add: excl_def)
  then show ?thesis using s1(1) s'(1) excl_invI by auto
qed


section \<open>Unlocking\<close>

lemma unlock_refused_ok:
  assumes "excl A a idle pc s xs p ws c" and "p \<noteq> Some c"
  shows "\<exists>v. rx_mutex_unlock (Some a) s = Some (v, s\<lparr>critical := critical s \<and> in_irq s\<rparr>)"
proof -
  note e = exclD [OF assms(1)]
  obtain m where m: "mutexes s a = Some m" "if p = NULL then m_lock m = RX_MUTEX_UNLOCKED \<and> ws = []
      else m_lock m = RX_MUTEX_LOCKED \<and> m_owner m = p" using e(2) by (auto simp: mutex_inv_def)
  then show ?thesis using e(8) assms(2) by (cases "p = NULL") (auto simp: rx_mutex_unlock_def critical_eqs)
qed

lemma unlock_free_ok:
  assumes "excl A a idle pc s xs (Some c) [] c"
  shows "\<exists>s'. rx_mutex_unlock (Some a) s = Some (OS_OK, s') \<and> excl A a idle (pc(c := Outside)) s' xs NULL [] c"
proof -
  note e = exclD [OF assms]
  obtain m where m: "mutexes s a = Some m" "m_lock m = RX_MUTEX_LOCKED" "m_owner m = Some c" "waiting (mutex_head a) s []"
    using e(2) by (auto simp: mutex_inv_def)
  have mt: "m_task m = NULL" using m(1,4) by (simp add: waiting_def mutex_head_def)
  obtain t where t: "tasks s c = Some t" "t_prio t = t_orig_prio t" using e(6,9,11) by (auto simp: prios_ok_def own_prio_def)
  let ?m = "m\<lparr>m_lock := RX_MUTEX_UNLOCKED\<rparr>"
  let ?s1 = "s\<lparr>mutexes := (mutexes s)(a \<mapsto> ?m)\<rparr>"
  let ?s' = "?s1\<lparr>critical := critical s \<and> in_irq s\<rparr>"
  have "mutex_inv ?s1 a NULL []" using m waiting_mutex_upd [of s a m ?m "[]"] by (simp add: mutex_inv_def)
  then have "mutex_inv ?s' a NULL []" by (simp only: mutex_inv_critical)
  moreover have "points_ok (pc(c := Outside)) xs NULL []" using e(9,10) by (auto simp: points_ok_def)
  ultimately have "excl A a idle (pc(c := Outside)) ?s' xs NULL [] c" by (intro excl_frame [OF assms]) simp_all
  moreover have "rx_mutex_unlock (Some a) s = Some (OS_OK, ?s')"
    using m mt e(8) t by (simp add: rx_mutex_unlock_def critical_eqs)
  ultimately show ?thesis by blast
qed

lemma foldl_min_le: "foldl min x ys \<le> x \<and> (\<forall>y\<in>set ys. foldl min x ys \<le> y)" for x :: int
proof (induction ys arbitrary: x)
  case (Cons y ys)
  from Cons.IH [of "min x y"] show ?case by auto
qed simp

lemma heir_fields:
  assumes "tasks s w = Some ((mutex_heir s0 ws t)\<lparr>t_next := k\<rparr>)" and "t_timer t = NULL"
  shows "untimed s w" "is_ready s w" "ws = [] \<Longrightarrow> t_prio t = t_orig_prio t \<Longrightarrow> own_prio s w"
    "v \<in> set ws \<Longrightarrow> task_prio s w \<le> task_prio s0 v"
  using assms foldl_min_le [of "t_prio t" "map (task_prio s0) ws"]
  by (auto simp: untimed_def is_ready_def own_prio_def mutex_heir_def task_prio_def)

text \<open>The hand-over: the state of every task, and the placement.\<close>

lemma unlock_hands_over:
  assumes ex: "excl A a idle pc s xs (Some c) (w # ws) c"
  shows "\<exists>s' ys. rx_mutex_unlock (Some a) s = Some (OS_OK, s') \<and> ready_queue s' ys \<and> set ys = insert w (set xs) \<and>
           mutex_inv s' a (Some w) ws \<and> curr_running_task s' = Some c \<and> is_ready s' w \<and> prios_ok A s' (Some w) ws"
proof -
  note e = exclD [OF ex]
  have wn: "w \<in> A" "w \<noteq> c" "w \<notin> set xs" "w \<notin> set ws" using e(3,5,6,9) by auto
  have pr: "untimed s c" "untimed s w" "own_prio s w" using e(6,9,11) wn by (auto simp: prios_ok_def)
  then obtain t u where t: "tasks s c = Some t" "t_timer t = NULL"
    and u: "tasks s w = Some u" "t_timer u = NULL" "t_prio u = t_orig_prio u" by (auto simp: untimed_def own_prio_def)
  have dj: "set (w # ws) \<inter> set xs = {}" using e(3) by auto
  obtain s3 m k where s3: "rx_mutex_unlock (Some a) s =
       do { s4 \<leftarrow> (case m_task m of None \<Rightarrow> Some s3 | Some w \<Rightarrow> mutex_hand_over (Some a) w s3); Some (OS_OK, rx_exit_critical s4) }"
    "ready_queue s3 (restored_queue s c t xs)" "waiting (mutex_head a) s3 (w # ws)" "mutexes s3 a = Some m"
    "tasks s3 c = Some (t\<lparr>t_prio := t_orig_prio t, t_next := k\<rparr>)" "\<And>b. b \<notin> set xs \<Longrightarrow> tasks s3 b = tasks s b"
    "curr_running_task s3 = Some c" "\<And>b. b \<noteq> c \<Longrightarrow> same_but_next (tasks s b) (tasks s3 b)"
    using mutex_unlock_step [OF e(1,2) dj e(8,9) t(1)] by blast
  have mt: "m_task m = Some w" using waiting_hd(1) [OF s3(3)] s3(4) by (simp add: mutex_head_def)
  have sx: "set (restored_queue s c t xs) = set xs" by (rule set_restored_queue [OF e(9,4)])
  obtain s4 n where s4: "mutex_hand_over (Some a) w s3 = Some s4" "mutex_inv s4 a (Some w) ws"
    "ready_queue s4 (insert_prio (task_prio s4) w (restored_queue s c t xs))"
    "tasks s4 w = Some ((mutex_heir s3 ws u)\<lparr>t_next := n\<rparr>)"
    "\<And>b. b \<noteq> w \<Longrightarrow> same_but_next (tasks s3 b) (tasks s4 b)" "curr_running_task s4 = curr_running_task s3"
    using hand_over_spec [OF s3(2,3) _ s3(4) _ u(2)] s3(6) [OF wn(3)] u(1) dj sx by auto
  note heir = heir_fields [OF s4(4) u(2)]
  have c3: "untimed s3 c" "own_prio s3 c" using s3(5) t(2) by (simp_all add: untimed_def own_prio_def)
  have "untimed s4 b \<and> (w = b \<and> ws \<noteq> [] \<or> own_prio s4 b)" if "b \<in> A" for b
  proof -
    consider "b = w" | "b = c" | "b \<noteq> w" "b \<noteq> c" by blast
    then show ?thesis
    proof cases
      case 3
      then show ?thesis using e(11) that same_fields [OF s3(8), of b] same_fields [OF s4(5), of b] by (auto simp: prios_ok_def)
    qed (use heir u(3) c3 same_fields [OF s4(5), of c] wn in auto)
  qed
  moreover have "task_prio s4 w \<le> task_prio s4 v" if "v \<in> set ws" for v
    using heir(4) [OF that] same_fields(4) [OF s4(5), of v] that wn(4) by (cases "v = w") simp_all
  ultimately have "prios_ok A s4 (Some w) ws" by (auto simp: prios_ok_def)
  then have "prios_ok A (rx_exit_critical s4) (Some w) ws" by (simp add: prios_ok_def untimed_def own_prio_def task_prio_def)
  moreover have "is_ready (rx_exit_critical s4) w" using heir(2) by (simp add: is_ready_def)
  ultimately show ?thesis using s3(1,7) mt s4 sx
    by (intro exI [of _ "rx_exit_critical s4"] exI [of _ "insert_prio (task_prio s4) w (restored_queue s c t xs)"])
      (simp add: mutex_inv_def)
qed

lemma unlock_hands_over_ok:
  assumes ex: "excl A a idle pc s xs (Some c) (w # ws) c"
  shows "\<exists>s'. rx_mutex_unlock (Some a) s = Some (OS_OK, s') \<and> excl_inv A a idle (pc(c := Outside), s')"
proof -
  note e = exclD [OF ex]
  obtain s' ys where s': "rx_mutex_unlock (Some a) s = Some (OS_OK, s')" "ready_queue s' ys" "set ys = insert w (set xs)"
    "mutex_inv s' a (Some w) ws" "curr_running_task s' = Some c" "is_ready s' w" "prios_ok A s' (Some w) ws"
    using unlock_hands_over [OF ex] by blast
  have cw: "c \<noteq> w" using e(3,9) by auto
  have "placement A a idle s' ys (Some w) ws c"
    using s'(2-5) ready_queue_distinct [OF s'(2)] e(3-9) by (auto simp: placement_def)
  moreover have "points_ok (pc(c := Outside)) ys (Some w) ws" using e(3,9,10) s'(3) cw by (auto simp: points_ok_def)
  moreover have "turn_ok s' ys (Some w) c" using cw s'(6) by (simp add: turn_ok_def)
  ultimately have "excl A a idle (pc(c := Outside)) s' ys (Some w) ws c" using s'(7) by (simp add: excl_def)
  then show ?thesis using s'(1) excl_invI by blast
qed


section \<open>Mutual exclusion\<close>

lemma lock_ok:
  assumes "excl A a idle pc s xs p ws c" and "pc c = Outside"
    and "timeout = OS_NO_WAIT \<or> timeout = OS_WAIT_FOREVER \<and> c \<noteq> idle"
  shows "\<exists>r s'. rx_mutex_lock (Some a) timer timeout s = Some (r, s') \<and> excl_inv A a idle (pc(c := point_of r), s')"
proof (cases p)
  case None
  then show ?thesis using lock_free_ok [of A a idle pc s xs ws c timer timeout] assms(1) excl_invI by fastforce
next
  case (Some b)
  have bc: "b \<noteq> c" using owner_point [OF assms(1)] assms(2) Some by auto
  from assms(3) show ?thesis
  proof
    assume "timeout = OS_NO_WAIT"
    moreover have "pc(c := Outside) = pc" using assms(2) by (simp add: fun_upd_idem)
    moreover have "E_OS_UNAVAIL \<noteq> OS_OK" by (simp add: E_OS_UNAVAIL_def OS_OK_def)
    ultimately show ?thesis using lock_busy_ok [of A a idle pc s xs b ws c] excl_critical [OF assms(1)] assms(1) Some excl_invI by fastforce
  next
    assume "timeout = OS_WAIT_FOREVER \<and> c \<noteq> idle"
    then show ?thesis using lock_waits_ok [OF assms(1) [unfolded Some] bc, of timer] by auto
  qed
qed

lemma lock_returns_ok:
  assumes "excl A a idle pc s xs p ws c" and "pc c = Blocked"
  shows "mutex_lock_resume (Some a) s = Some (Returns OS_OK, s) \<and> excl A a idle (pc(c := Inside)) s xs p ws c"
proof -
  note e = exclD [OF assms(1)]
  have p: "p = Some c" using owner_point [OF assms(1)] assms(2) by simp
  have "points_ok (pc(c := Inside)) xs p ws" using e(3,9,10) p by (auto simp: points_ok_def)
  then show ?thesis using assms(1) by (auto simp: excl_def mutex_lock_resume_def)
qed

lemma unlock_ok:
  assumes "excl A a idle pc s xs p ws c"
  shows "\<exists>v s'. rx_mutex_unlock (Some a) s = Some (v, s') \<and> excl_inv A a idle (pc(c := Outside), s')"
proof (cases "p = Some c")
  case True
  then show ?thesis
    using unlock_free_ok [of A a idle pc s xs c] unlock_hands_over_ok [of A a idle pc s xs c] assms excl_invI
    by (cases ws) blast+
next
  case False
  then have "pc c = Outside" using owner_point [OF assms] by simp
  then have "pc(c := Outside) = pc" by (simp add: fun_upd_idem)
  then show ?thesis using unlock_refused_ok [OF assms False] excl_critical [OF assms] excl_invI by fastforce
qed

lemma mx_step_inv:
  assumes "mx_step a idle st st'" and "excl_inv A a idle st"
  shows "excl_inv A a idle st'"
proof -
  obtain pc s where st: "st = (pc, s)" by (cases st)
  obtain xs p ws c where e: "excl A a idle pc s xs p ws c" using assms(2) st by (auto simp: excl_inv_def)
  note c = exclD(8) [OF e]
  from assms(1) show ?thesis
  proof (cases rule: mx_step.cases)
    case (mx_lock s1 d pc1 timeout timer r s')
    then show ?thesis using lock_ok [OF e, of timeout timer] c st by auto
  next
    case (mx_lock_returns s1 d pc1 r s')
    then show ?thesis using lock_returns_ok [OF e] c st excl_invI by fastforce
  next
    case (mx_unlock s1 d pc1 v s')
    then show ?thesis using unlock_ok [OF e] c st by auto
  next
    case (mx_dispatch s1 s' pc1)
    then show ?thesis using dispatch_ok [OF e] st excl_invI by fastforce
  qed
qed

text \<open>The start: the tasks are ready with their own priorities, the head runs, the mutex is free.\<close>

definition mx_start :: "addr set \<Rightarrow> addr \<Rightarrow> addr \<Rightarrow> kstate \<Rightarrow> bool" where
  "mx_start A a idle s \<longleftrightarrow>
     (\<exists>xs. ready_queue s xs \<and> set xs = A \<and> idle \<in> A \<and> curr_running_task s = Some (hd xs) \<and>
           mutex_inv s a NULL [] \<and> (\<forall>b\<in>A. untimed s b \<and> own_prio s b))"

lemma mx_start_inv: "mx_start A a idle s \<Longrightarrow> excl_inv A a idle (\<lambda>_. Outside, s)"
proof -
  assume "mx_start A a idle s"
  then obtain xs where xs: "ready_queue s xs" "set xs = A" "idle \<in> A" "curr_running_task s = Some (hd xs)"
    "mutex_inv s a NULL []" "\<forall>b\<in>A. untimed s b \<and> own_prio s b" by (auto simp: mx_start_def)
  then have "hd xs \<in> set xs" by (cases xs) auto
  then have "excl A a idle (\<lambda>_. Outside) s xs NULL [] (hd xs)"
    using xs ready_queue_distinct [OF xs(1)] by (simp add: excl_defs)
  then show ?thesis by (rule excl_invI)
qed

lemma mx_reachable_inv:
  "rtranclp (mx_step a idle) st st' \<Longrightarrow> excl_inv A a idle st \<Longrightarrow> excl_inv A a idle st'"
  by (induction rule: rtranclp_induct) (auto intro: mx_step_inv)

lemma demo_mx_start: "mx_start {1, 2, 3} 302 3 demo_mutex"
  unfolding mx_start_def
  by (intro exI [of _ "[1, 2, 3]"] conjI demo_mutex_ready demo_mutex_invs(3))
    (auto simp: untimed_def own_prio_def demo_task_def blank_task_def)

lemma blocked_owner:
  assumes "excl A a idle pc s xs p ws c" and "w \<in> A" and "pc w = Blocked"
  shows "\<exists>b. p = Some b \<and> b \<in> A \<and> runnable s b \<and> (b = w \<or> task_prio s b \<le> task_prio s w)"
proof (cases "w \<in> set xs")
  case True
  note e = exclD [OF assms(1)]
  have "p = Some w" using e(10) assms(3) True by (auto simp: points_ok_def)
  then show ?thesis using e(1) True assms(2) by (auto simp: ready_queue_def)
next
  case False
  note e = exclD [OF assms(1)]
  have w: "w \<in> set ws" using False assms(2) e(6) by auto
  then obtain b where b: "p = Some b" using e(2) by (cases p) (auto simp: mutex_inv_def)
  then have "b \<in> set xs" using e(10) by (simp add: points_ok_def)
  then show ?thesis using e(1,6,11) b w by (auto simp: ready_queue_def prios_ok_def)
qed




section \<open>An owner that was preempted\<close>

text \<open>
  The system above has no task that becomes ready by itself. In the whole kernel the owner of a mutex can
  lose the processor to a task that a timer or an interrupt has woken: \<^verbatim>\<open>rx_sched\<close> does not touch the state of the task
  it switches from, which stays \<^verbatim>\<open>RX_TASK_RUNNING\<close> in the ready queue.
\<close>

lemma preempted_stays_running:
  assumes "ready_queue s (h # xs)" and "curr_running_task s = Some c" and "tasks s c = Some t"
    and "t_state t = RX_TASK_RUNNING" and "c \<noteq> h"
  shows "\<exists>s'. rx_sched s = Some s' \<and> curr_running_task s' = Some h \<and> tasks s' c = Some t"
  using rx_sched_spec [OF assms(1,2)] assms(3,5) by auto

lemma boost_running_owner:
  assumes "curr_running_task s = Some c" and "tasks s c = Some me" and "tasks s b = Some ot"
    and "t_state ot = RX_TASK_RUNNING" and "t_prio me < t_prio ot"
  shows "mutex_boost_owner (Some b) s = Some (s\<lparr>tasks := (tasks s)(b \<mapsto> ot\<lparr>t_prio := t_prio me\<rparr>)\<rparr>)"
  using assms by (simp add: mutex_boost_owner_def)

text \<open>
  When a more urgent task \<open>c\<close> now locks the mutex, the owner \<open>b\<close> gets its priority but not its place in the ready
  queue, which is moved for owners in the state \<^verbatim>\<open>RX_TASK_READY\<close> only: the next task \<open>h\<close> of the queue runs before the
  owner, although the owner is more urgent. This is the inversion the inheritance is there to prevent.
\<close>

theorem preempted_owner_overtaken:
  assumes "ready_queue s xs" and "mutex_inv s a (Some b) ws" and "set xs \<inter> set ws = {}"
    and "curr_running_task s = Some c" and "c \<in> set xs" and "tasks s c = Some t"
    and "b \<noteq> c" and "tasks s b = Some ot" and "t_state ot = RX_TASK_RUNNING" and "t_prio t < task_prio s h"
    and "remove1 c xs = h # ys" and "b \<in> set ys"
  shows "\<exists>s'. rx_mutex_lock (Some a) timer OS_WAIT_FOREVER s = Some (Sleeps, s') \<and> curr_running_task s' = Some h \<and>
            lst (task_next s') (task_ready_head s') (h # ys) \<and> task_prio s' b < task_prio s' h"
proof -
  have to: "OS_WAIT_FOREVER \<noteq> OS_NO_WAIT" "\<not> OS_WAIT_FOREVER > 0" by (simp_all add: OS_WAIT_FOREVER_def OS_NO_WAIT_def)
  obtain s5 where s5: "rx_mutex_lock (Some a) timer OS_WAIT_FOREVER s =
         do { s6 \<leftarrow> mutex_boost_owner (Some b) s5;
              (if OS_WAIT_FOREVER > 0 then rx_mutex_timeout (Some a) timer OS_WAIT_FOREVER (rx_exit_critical s6)
               else sched_then (mutex_lock_resume (Some a)) (rx_exit_critical s6)) }"
    "ready_queue s5 (remove1 c xs)" "mutex_inv s5 a (Some b) (ws @ [c])" "tasks s5 c = Some (mutex_sleeper a t)"
    "\<forall>x. x \<noteq> c \<longrightarrow> same_but_next (tasks s x) (tasks s5 x)" "curr_running_task s5 = Some c"
    "timers s5 = timers s" "active_timer_head s5 = active_timer_head s" "jiffies s5 = jiffies s"
    by (rule lock_blocks [OF assms(1-6) to(1), of timer])
  note q = s5(2) [unfolded assms(11)]
  have "c \<notin> set (remove1 c xs)" using ready_queue_distinct [OF assms(1)] by simp
  then have hb: "h \<noteq> b" "h \<noteq> c" using ready_queue_distinct [OF q] assms(11,12) by auto
  obtain u k where u: "tasks s5 h = Some u" "tasks s5 b = Some (ot\<lparr>t_next := k\<rparr>)" "t_prio u = task_prio s h"
  proof -
    have "runnable s5 h" using q by (simp add: ready_queue_def)
    then obtain u where "tasks s5 h = Some u" by (auto simp: runnable_def split: option.splits)
    moreover have "task_prio s5 h = task_prio s h" using spec [OF s5(5), of h] hb(2)
      by (cases "tasks s h") (auto simp: task_prio_def)
    ultimately show ?thesis using that s5(5) assms(7,8) by (force simp: task_prio_def)
  qed
  have "task_prio s5 h \<le> task_prio s5 b" using q assms(12) by (auto simp: ready_queue_def)
  then have less: "t_prio t < t_prio ot" using u assms(10) by (simp add: task_prio_def)
  let ?o = "ot\<lparr>t_next := k, t_prio := t_prio t\<rparr>"
  let ?s6 = "rx_exit_critical (s5\<lparr>tasks := (tasks s5)(b \<mapsto> ?o)\<rparr>)"
  have "mutex_boost_owner (Some b) s5 = Some (s5\<lparr>tasks := (tasks s5)(b \<mapsto> ?o)\<rparr>)"
    using boost_running_owner [OF s5(6,4) u(2)] assms(9) less by (simp add: mutex_sleeper_def)
  then have run: "rx_mutex_lock (Some a) timer OS_WAIT_FOREVER s = sched_then (mutex_lock_resume (Some a)) ?s6"
    using s5(1) to(2) by simp
  have head: "task_ready_head ?s6 = Some h" using q by (simp add: ready_queue_def)
  let ?s' = "?s6\<lparr>tasks := (tasks ?s6)(h \<mapsto> dispatched u), curr_running_task := Some h,
           need_resched := False, critical := critical ?s6 \<and> in_irq ?s6\<rparr>"
  have "rx_sched ?s6 = Some ?s'"
    by (rule rx_sched_switch [OF _ _ head]) (use s5(4,6) u(1) hb assms(7) in auto)
  then have "rx_mutex_lock (Some a) timer OS_WAIT_FOREVER s = Some (Sleeps, ?s')"
    using run head s5(6) hb(2) by (simp add: sched_then_def)
  moreover have "task_next ?s' = task_next s5"
    using u(1,2) by (auto simp: task_next_def fun_eq_iff dispatched_def)
  then have "lst (task_next ?s') (task_ready_head ?s') (h # ys)" using q by (simp add: ready_queue_def)
  moreover have "task_prio ?s' b < task_prio ?s' h" using hb(1) u(3) assms(10) by (simp add: task_prio_def dispatched_def)
  ultimately show ?thesis by (intro exI [of _ ?s']) simp
qed

definition demo_preempted :: kstate where
  "demo_preempted = demo_mutex\<lparr>tasks := (tasks demo_mutex)(3 \<mapsto> demo_task RX_TASK_RUNNING 7 NULL)\<rparr>"

theorem preempted_owner_overtaken_witness:
  "\<exists>s'. rx_mutex_lock (Some 300) NULL OS_WAIT_FOREVER demo_preempted = Some (Sleeps, s') \<and>
        curr_running_task s' = Some 2 \<and> task_prio s' 3 < task_prio s' 2"
proof -
  have q: "ready_queue demo_preempted [1, 2, 3]"
    by (simp add: demo_preempted_def ready_queue_def runnable_def task_prio_def task_next_def)
  have i: "mutex_inv demo_preempted 300 (Some 3) []"
    by (simp add: demo_preempted_def mutex_inv_def waiting_def mutex_head_def)
  have p: "task_prio demo_preempted 2 = 5" by (simp add: demo_preempted_def task_prio_def)
  have "\<exists>s'. rx_mutex_lock (Some 300) NULL OS_WAIT_FOREVER demo_preempted = Some (Sleeps, s') \<and> curr_running_task s' = Some 2 \<and>
      lst (task_next s') (task_ready_head s') [2, 3] \<and> task_prio s' 3 < task_prio s' 2"
    by (rule preempted_owner_overtaken [OF q i, of 1 "demo_task RX_TASK_RUNNING 2 (Some 2)" "demo_task RX_TASK_RUNNING 7 NULL" 2 "[3]" NULL, unfolded p])
      (simp_all add: demo_preempted_def)
  then show ?thesis by blast
qed


section \<open>Critical sections do not nest\<close>

text \<open>
  \<^verbatim>\<open>rx_exit_critical\<close> opens the interrupts whenever the caller is not a handler: the flag does not count and the key is not
  used. The queue operations have critical sections of their own, so that the one of \<^verbatim>\<open>rx_mutex_lock\<close> is over
  after \<^verbatim>\<open>__rx_remove_from_ready_q\<close>, before the caller is in the waiting list of the mutex; the semaphores do the same.
\<close>

lemma lock_enqueues_unprotected:
  fixes a :: addr
  assumes "ready_queue s xs" and "c \<in> set xs" and "tasks s c = Some t" and "\<not> in_irq s"
  defines "s2 \<equiv> (rx_enter_critical s)\<lparr>tasks := (tasks s)(c \<mapsto> t\<lparr>t_state := RX_TASK_SUSPEND, t_mutex := Some a\<rparr>)\<rparr>"
  shows "critical s2 \<and> (\<exists>s3. rx_remove_from_ready_q (Some c) s2 = Some (OS_OK, s3) \<and> \<not> critical s3)"
proof -
  let ?f = "\<lambda>t. t\<lparr>t_state := RX_TASK_SUSPEND, t_mutex := Some a\<rparr>"
  have "ready_queue (rx_enter_critical s) xs" "tasks (rx_enter_critical s) c = Some t" using assms(1,3) by simp_all
  from depart_spec [where f = ?f, OF this(1) assms(2) this(2)] show ?thesis
    using assms(4) by (auto simp: s2_def critical_eqs)
qed

end
