(* ===== verification/Lib_Ctype.thy ===== *)
theory Lib_Ctype
  imports RX_Prelude
begin

text \<open>
  Character classes (\<^verbatim>\<open>lib/ctype.c\<close>, \<^verbatim>\<open>include/rosx/ctype.h\<close>). A character is a byte,
  \<^typ>\<open>8 word\<close>; the macros look a byte up in the table of 256 masks. The lemmas of the second
  section replace the table by ranges, proved by running through all bytes.
\<close>

unbundle bit_operations_syntax

section \<open>The table and the macros\<close>

definition ct_U :: "8 word" where "ct_U = 0x01"
definition ct_L :: "8 word" where "ct_L = 0x02"
definition ct_D :: "8 word" where "ct_D = 0x04"
definition ct_C :: "8 word" where "ct_C = 0x08"
definition ct_P :: "8 word" where "ct_P = 0x10"
definition ct_S :: "8 word" where "ct_S = 0x20"
definition ct_X :: "8 word" where "ct_X = 0x40"
definition ct_SP :: "8 word" where "ct_SP = 0x80"

lemmas ct_masks = ct_U_def ct_L_def ct_D_def ct_C_def ct_P_def ct_S_def ct_X_def ct_SP_def

definition ctype_table :: "8 word list" where
  "ctype_table =
     replicate 8 ct_C @
     [ct_C, ct_C OR ct_S, ct_C OR ct_S, ct_C OR ct_S, ct_C OR ct_S, ct_C OR ct_S, ct_C, ct_C] @
     replicate 8 ct_C @
     replicate 8 ct_C @
     [ct_S OR ct_SP] @ replicate 7 ct_P @
     replicate 8 ct_P @
     replicate 8 ct_D @
     replicate 2 ct_D @ replicate 6 ct_P @
     [ct_P] @ replicate 6 (ct_U OR ct_X) @ [ct_U] @
     replicate 8 ct_U @
     replicate 8 ct_U @
     replicate 3 ct_U @ replicate 5 ct_P @
     [ct_P] @ replicate 6 (ct_L OR ct_X) @ [ct_L] @
     replicate 8 ct_L @
     replicate 8 ct_L @
     replicate 3 ct_L @ replicate 4 ct_P @ [ct_C] @
     replicate 16 0 @
     replicate 16 0 @
     [ct_S OR ct_SP] @ replicate 15 ct_P @
     replicate 16 ct_P @
     replicate 16 ct_U @
     replicate 7 ct_U @ [ct_P] @ replicate 7 ct_U @ [ct_L] @
     replicate 16 ct_L @
     replicate 7 ct_L @ [ct_P] @ replicate 8 ct_L"

definition ismask :: "8 word \<Rightarrow> 8 word" where "ismask x = ctype_table ! unat x"

definition isalnum :: "8 word \<Rightarrow> bool" where "isalnum c \<longleftrightarrow> ismask c AND (ct_U OR ct_L OR ct_D) \<noteq> 0"
definition isalpha :: "8 word \<Rightarrow> bool" where "isalpha c \<longleftrightarrow> ismask c AND (ct_U OR ct_L) \<noteq> 0"
definition iscntrl :: "8 word \<Rightarrow> bool" where "iscntrl c \<longleftrightarrow> ismask c AND ct_C \<noteq> 0"
definition isdigit :: "8 word \<Rightarrow> bool" where "isdigit c \<longleftrightarrow> ismask c AND ct_D \<noteq> 0"
definition isgraph :: "8 word \<Rightarrow> bool" where
  "isgraph c \<longleftrightarrow> ismask c AND (ct_P OR ct_U OR ct_L OR ct_D) \<noteq> 0"
definition islower :: "8 word \<Rightarrow> bool" where "islower c \<longleftrightarrow> ismask c AND ct_L \<noteq> 0"
definition isprint :: "8 word \<Rightarrow> bool" where
  "isprint c \<longleftrightarrow> ismask c AND (ct_P OR ct_U OR ct_L OR ct_D OR ct_SP) \<noteq> 0"
definition ispunct :: "8 word \<Rightarrow> bool" where "ispunct c \<longleftrightarrow> ismask c AND ct_P \<noteq> 0"
definition isspace :: "8 word \<Rightarrow> bool" where "isspace c \<longleftrightarrow> ismask c AND ct_S \<noteq> 0"
definition isupper :: "8 word \<Rightarrow> bool" where "isupper c \<longleftrightarrow> ismask c AND ct_U \<noteq> 0"
definition isxdigit :: "8 word \<Rightarrow> bool" where "isxdigit c \<longleftrightarrow> ismask c AND (ct_D OR ct_X) \<noteq> 0"

text \<open>\<^verbatim>\<open>c -= 'A'-'a'\<close> and \<^verbatim>\<open>c -= 'a'-'A'\<close> on an \<^verbatim>\<open>unsigned char\<close>.\<close>

definition tolower :: "8 word \<Rightarrow> 8 word" where
  "tolower c = (if isupper c then c - (65 - 97) else c)"

definition toupper :: "8 word \<Rightarrow> 8 word" where
  "toupper c = (if islower c then c - (97 - 65) else c)"

lemmas ctype_defs = ismask_def isalnum_def isalpha_def iscntrl_def isdigit_def isgraph_def
  islower_def isprint_def ispunct_def isspace_def isupper_def isxdigit_def tolower_def toupper_def


section \<open>The classes as ranges\<close>

text \<open>One column of the table against a predicate on the index; the table is evaluated once.\<close>

lemma table_class:
  assumes "map (\<lambda>x. x AND k \<noteq> 0) ctype_table = map Q [0..<256]"
  shows "ismask c AND k \<noteq> 0 \<longleftrightarrow> Q (unat c)"
proof -
  have lt: "unat c < 256" using unsigned_less [of c] by simp
  have len: "length ctype_table = 256" using arg_cong [OF assms, of length] by simp
  have "map (\<lambda>x. x AND k \<noteq> 0) ctype_table ! unat c \<longleftrightarrow> map Q [0..<256] ! unat c"
    by (simp only: assms)
  with lt len show ?thesis by (simp add: ismask_def)
qed

lemma isdigit_range: "isdigit c \<longleftrightarrow> 48 \<le> unat c \<and> unat c \<le> 57"
  unfolding isdigit_def by (rule table_class) code_simp

lemma isxdigit_range:
  "isxdigit c \<longleftrightarrow> (48 \<le> unat c \<and> unat c \<le> 57) \<or> (65 \<le> unat c \<and> unat c \<le> 70) \<or> (97 \<le> unat c \<and> unat c \<le> 102)"
  unfolding isxdigit_def
  by (rule table_class [where Q = "\<lambda>n. (48 \<le> n \<and> n \<le> 57) \<or> (65 \<le> n \<and> n \<le> 70) \<or> (97 \<le> n \<and> n \<le> 102)"])
    code_simp

lemma isspace_range: "isspace c \<longleftrightarrow> (9 \<le> unat c \<and> unat c \<le> 13) \<or> unat c = 32 \<or> unat c = 160"
  unfolding isspace_def by (rule table_class [where Q = "\<lambda>n. (9 \<le> n \<and> n \<le> 13) \<or> n = 32 \<or> n = 160"]) code_simp

lemma islower_range: "islower c \<longleftrightarrow> (97 \<le> unat c \<and> unat c \<le> 122) \<or> (223 \<le> unat c \<and> unat c \<noteq> 247)"
  unfolding islower_def
  by (rule table_class [where Q = "\<lambda>n. (97 \<le> n \<and> n \<le> 122) \<or> (223 \<le> n \<and> n \<noteq> 247)"]) code_simp

lemma isupper_range:
  "isupper c \<longleftrightarrow> (65 \<le> unat c \<and> unat c \<le> 90) \<or> (192 \<le> unat c \<and> unat c \<le> 222 \<and> unat c \<noteq> 215)"
  unfolding isupper_def
  by (rule table_class [where Q = "\<lambda>n. (65 \<le> n \<and> n \<le> 90) \<or> (192 \<le> n \<and> n \<le> 222 \<and> n \<noteq> 215)"]) code_simp

lemma iscntrl_range: "iscntrl c \<longleftrightarrow> unat c \<le> 31 \<or> unat c = 127"
  unfolding iscntrl_def by (rule table_class [where Q = "\<lambda>n. n \<le> 31 \<or> n = 127"]) code_simp

lemma ispunct_range:
  "ispunct c \<longleftrightarrow> (33 \<le> unat c \<and> unat c \<le> 47) \<or> (58 \<le> unat c \<and> unat c \<le> 64) \<or> (91 \<le> unat c \<and> unat c \<le> 96) \<or>
     (123 \<le> unat c \<and> unat c \<le> 126) \<or> (161 \<le> unat c \<and> unat c \<le> 191) \<or> unat c = 215 \<or> unat c = 247"
  unfolding ispunct_def
  by (rule table_class [where Q = "\<lambda>n. (33 \<le> n \<and> n \<le> 47) \<or> (58 \<le> n \<and> n \<le> 64) \<or> (91 \<le> n \<and> n \<le> 96) \<or>
     (123 \<le> n \<and> n \<le> 126) \<or> (161 \<le> n \<and> n \<le> 191) \<or> n = 215 \<or> n = 247"]) code_simp

lemma hard_space: "ismask c AND ct_SP \<noteq> 0 \<longleftrightarrow> unat c = 32 \<or> unat c = 160"
  by (rule table_class) code_simp

lemma isspace_zero [simp]: "\<not> isspace 0"
  by (simp add: isspace_range)

lemma ctype_unions:
  "isalpha c \<longleftrightarrow> isupper c \<or> islower c" "isalnum c \<longleftrightarrow> isalpha c \<or> isdigit c"
  "isgraph c \<longleftrightarrow> isalnum c \<or> ispunct c" "isprint c \<longleftrightarrow> isgraph c \<or> unat c = 32 \<or> unat c = 160"
  unfolding hard_space [symmetric]
  by (auto simp: ctype_defs bit.conj_disj_distrib or_eq_0_iff)

lemmas ctype_ranges = isdigit_range islower_range isupper_range iscntrl_range ispunct_range

lemma tolower_unat: "unat (tolower c) = (if isupper c then unat c + 32 else unat c)"
  by (auto simp: tolower_def isupper_range unat_word_ariths)

lemma toupper_unat: "unat (toupper c) = (if islower c then unat c - 32 else unat c)"
  by (auto simp: toupper_def islower_range unat_sub word_le_nat_alt)

text \<open>
  The character classes are what their names say: on the ASCII half of the table, digits,
  hexadecimal digits, letters and the two cases are the usual ranges, the classes alphanumeric,
  printable and graphical are the expected unions, every character is exactly one of printable and
  control, and \<^verbatim>\<open>toupper\<close>/\<^verbatim>\<open>tolower\<close> map the cases onto each other and keep everything else.
\<close>

theorem ctype_ascii:
  assumes "c < 128"
  shows "(isdigit c \<longleftrightarrow> 48 \<le> c \<and> c \<le> 57) \<and>
         (isupper c \<longleftrightarrow> 65 \<le> c \<and> c \<le> 90) \<and> (islower c \<longleftrightarrow> 97 \<le> c \<and> c \<le> 122) \<and>
         (isalpha c \<longleftrightarrow> isupper c \<or> islower c) \<and> (isalnum c \<longleftrightarrow> isalpha c \<or> isdigit c) \<and>
         (isgraph c \<longleftrightarrow> isalnum c \<or> ispunct c) \<and> (isprint c \<longleftrightarrow> isgraph c \<or> c = 32) \<and>
         (iscntrl c \<longleftrightarrow> \<not> isprint c) \<and> \<not> (isalnum c \<and> ispunct c) \<and>
         (isupper c \<longrightarrow> islower (tolower c) \<and> toupper (tolower c) = c) \<and>
         (islower c \<longrightarrow> isupper (toupper c) \<and> tolower (toupper c) = c) \<and>
         (\<not> isupper c \<longrightarrow> tolower c = c) \<and> (\<not> islower c \<longrightarrow> toupper c = c)"
proof -
  have lt: "unat c < 128" using assms by (simp add: word_less_nat_alt)
  have space: "unat c = 32 \<longleftrightarrow> c = 32" by (simp add: word_unat_eq_iff)
  have ranges: "isdigit c \<longleftrightarrow> 48 \<le> c \<and> c \<le> 57" "isupper c \<longleftrightarrow> 65 \<le> c \<and> c \<le> 90"
    "islower c \<longleftrightarrow> 97 \<le> c \<and> c \<le> 122"
    using lt by (auto simp: ctype_ranges word_le_nat_alt)
  have unions: "isalpha c \<longleftrightarrow> isupper c \<or> islower c" "isalnum c \<longleftrightarrow> isalpha c \<or> isdigit c"
    "isgraph c \<longleftrightarrow> isalnum c \<or> ispunct c" "isprint c \<longleftrightarrow> isgraph c \<or> c = 32"
    using lt space by (simp_all add: ctype_unions)
  have parts: "iscntrl c \<longleftrightarrow> \<not> isprint c" "\<not> (isalnum c \<and> ispunct c)"
    using lt by (auto simp: ctype_unions ctype_ranges)
  have lower: "isupper c \<longrightarrow> islower (tolower c) \<and> toupper (tolower c) = c"
    using lt by (auto simp: word_unat_eq_iff toupper_unat tolower_unat ctype_ranges)
  have upper: "islower c \<longrightarrow> isupper (toupper c) \<and> tolower (toupper c) = c"
    using lt by (auto simp: word_unat_eq_iff toupper_unat tolower_unat ctype_ranges)
  show ?thesis using ranges unions parts lower upper by (auto simp: tolower_def toupper_def)
qed

theorem ctype_ascii_witness: "(0x61 :: 8 word) < 128 \<and> tolower (toupper 0x61) = 0x61"
proof -
  have lt: "(0x61 :: 8 word) < 128" by simp
  have "islower 0x61" by code_simp
  with ctype_ascii [OF lt] have "tolower (toupper 0x61) = 0x61" by blast
  with lt show ?thesis ..
qed

end
