(* ===== verification/Lib_String.thy ===== *)
theory Lib_String
  imports Lib_Ctype
begin

text \<open>
  The string and memory routines of \<^verbatim>\<open>lib/string.c\<close>. Memory is a function from addresses to
  bytes and every routine gets the memory and, where it writes, returns the new one next to its
  result. The loops over zero-terminated strings are partial functions: \<^term>\<open>None\<close> is a
  string without its zero. Loops that count down a \<^verbatim>\<open>size_t\<close> recurse on the count. A
  \<^verbatim>\<open>char\<close> is signed and an \<^verbatim>\<open>unsigned long\<close> has four bytes, as in the x86 build
  (\<^verbatim>\<open>-m32\<close>). Addresses and sizes are natural numbers: no object reaches the end of the
  address space.

  \<open>str_at m p bs\<close> says that the string \<open>bs\<close> starts at \<open>p\<close>; \<open>bytes_at m p n\<close> are
  the \<open>n\<close> bytes from \<open>p\<close>. The lemmas describe each routine by these two.
\<close>

section \<open>Routines on strings\<close>

type_synonym bytes = "addr \<Rightarrow> 8 word"

partial_function (option) strcpy_loop :: "bytes \<Rightarrow> addr \<Rightarrow> addr \<Rightarrow> bytes option" where
  "strcpy_loop m dest src =
     (let v = m src; m' = m(dest := v)
      in if v \<noteq> 0 then strcpy_loop m' (dest + 1) (src + 1) else Some m')"

definition strcpy :: "bytes \<Rightarrow> addr \<Rightarrow> addr \<Rightarrow> (addr \<times> bytes) option" where
  "strcpy m dest src = do { m' \<leftarrow> strcpy_loop m dest src; Some (dest, m') }"

fun strncpy_loop :: "bytes \<Rightarrow> addr \<Rightarrow> addr \<Rightarrow> nat \<Rightarrow> bytes" where
  "strncpy_loop m dest src 0 = m"
| "strncpy_loop m dest src (Suc count) =
     (let v = m src; m' = m(dest := v)
      in if v \<noteq> 0 then strncpy_loop m' (dest + 1) (src + 1) count else m')"

definition strncpy :: "bytes \<Rightarrow> addr \<Rightarrow> addr \<Rightarrow> nat \<Rightarrow> addr \<times> bytes" where
  "strncpy m dest src count = (dest, strncpy_loop m dest src count)"

text \<open>The walk to the terminating zero, the same loop in three routines.\<close>

partial_function (option) str_end :: "bytes \<Rightarrow> addr \<Rightarrow> addr option" where
  "str_end m p = (if m p \<noteq> 0 then str_end m (p + 1) else Some p)"

definition strcat :: "bytes \<Rightarrow> addr \<Rightarrow> addr \<Rightarrow> (addr \<times> bytes) option" where
  "strcat m dest src =
     do { e \<leftarrow> str_end m dest; m' \<leftarrow> strcpy_loop m e src; Some (dest, m') }"

text \<open>\<open>strncat_loop\<close> is entered with a positive count, which \<^verbatim>\<open>--count\<close> then lowers.\<close>

fun strncat_loop :: "bytes \<Rightarrow> addr \<Rightarrow> addr \<Rightarrow> nat \<Rightarrow> bytes" where
  "strncat_loop m dest src count =
     (let v = m src; m' = m(dest := v)
      in if v \<noteq> 0
         then if count - 1 = 0 then m'(dest + 1 := 0)
              else strncat_loop m' (dest + 1) (src + 1) (count - 1)
         else m')"

declare strncat_loop.simps [simp del]

definition strncat :: "bytes \<Rightarrow> addr \<Rightarrow> addr \<Rightarrow> nat \<Rightarrow> (addr \<times> bytes) option" where
  "strncat m dest src count =
     (if count \<noteq> 0 then do { e \<leftarrow> str_end m dest; Some (dest, strncat_loop m e src count) }
      else Some (dest, m))"

text \<open>\<^verbatim>\<open>__res = *cs - *ct\<close>: the difference of two signed characters, cut to a signed character.\<close>

definition char_diff :: "8 word \<Rightarrow> 8 word \<Rightarrow> 8 word" where
  "char_diff a b = word_of_int (sint a - sint b)"

partial_function (option) strcmp_loop :: "bytes \<Rightarrow> addr \<Rightarrow> addr \<Rightarrow> 8 word option" where
  "strcmp_loop m cs ct =
     (let res = char_diff (m cs) (m ct)
      in if res \<noteq> 0 \<or> m cs = 0 then Some res else strcmp_loop m (cs + 1) (ct + 1))"

definition strcmp :: "bytes \<Rightarrow> addr \<Rightarrow> addr \<Rightarrow> int option" where
  "strcmp m cs ct = do { res \<leftarrow> strcmp_loop m cs ct; Some (sint res) }"

fun strncmp_loop :: "bytes \<Rightarrow> addr \<Rightarrow> addr \<Rightarrow> nat \<Rightarrow> 8 word \<Rightarrow> 8 word" where
  "strncmp_loop m cs ct 0 res = res"
| "strncmp_loop m cs ct (Suc count) res =
     (let res' = char_diff (m cs) (m ct)
      in if res' \<noteq> 0 \<or> m cs = 0 then res' else strncmp_loop m (cs + 1) (ct + 1) count res')"

definition strncmp :: "bytes \<Rightarrow> addr \<Rightarrow> addr \<Rightarrow> nat \<Rightarrow> int" where
  "strncmp m cs ct count = sint (strncmp_loop m cs ct count 0)"

partial_function (option) strchr_loop :: "bytes \<Rightarrow> addr \<Rightarrow> 8 word \<Rightarrow> ptr option" where
  "strchr_loop m s c =
     (if m s \<noteq> c then if m s = 0 then Some NULL else strchr_loop m (s + 1) c else Some (Some s))"

definition strchr :: "bytes \<Rightarrow> addr \<Rightarrow> int \<Rightarrow> ptr option" where
  "strchr m s c = strchr_loop m s (word_of_int c)"

definition strlen :: "bytes \<Rightarrow> addr \<Rightarrow> nat option" where
  "strlen m s = do { sc \<leftarrow> str_end m s; Some (sc - s) }"

text \<open>\<open>k\<close> is the distance of the pointer \<^verbatim>\<open>p\<close> from the start of the string.\<close>

fun strrchr_loop :: "bytes \<Rightarrow> addr \<Rightarrow> 8 word \<Rightarrow> nat \<Rightarrow> ptr" where
  "strrchr_loop m s c k =
     (if m (s + k) = c then Some (s + k)
      else case k of 0 \<Rightarrow> NULL | Suc k' \<Rightarrow> strrchr_loop m s c k')"

declare strrchr_loop.simps [simp del]

definition strrchr :: "bytes \<Rightarrow> addr \<Rightarrow> int \<Rightarrow> ptr option" where
  "strrchr m s c = do { n \<leftarrow> strlen m s; Some (strrchr_loop m s (word_of_int c) n) }"

partial_function (option) skip_spaces :: "bytes \<Rightarrow> addr \<Rightarrow> addr option" where
  "skip_spaces m str = (if isspace (m str) then skip_spaces m (str + 1) else Some str)"

text \<open>\<^verbatim>\<open>end\<close> is \<open>s + k - 1\<close>.\<close>

fun strim_end :: "bytes \<Rightarrow> addr \<Rightarrow> nat \<Rightarrow> nat" where
  "strim_end m s 0 = 0"
| "strim_end m s (Suc k) = (if isspace (m (s + k)) then strim_end m s k else Suc k)"

definition strim :: "bytes \<Rightarrow> addr \<Rightarrow> (addr \<times> bytes) option" where
  "strim m s =
     do { s' \<leftarrow> skip_spaces m s;
          size \<leftarrow> strlen m s';
          (if size = 0 then Some (s', m) else Some (s', m(s' + strim_end m s' size := 0))) }"

fun strnlen_loop :: "bytes \<Rightarrow> addr \<Rightarrow> nat \<Rightarrow> addr" where
  "strnlen_loop m sc 0 = sc"
| "strnlen_loop m sc (Suc count) = (if m sc \<noteq> 0 then strnlen_loop m (sc + 1) count else sc)"

definition strnlen :: "bytes \<Rightarrow> addr \<Rightarrow> nat \<Rightarrow> nat" where
  "strnlen m s count = strnlen_loop m s count - s"


section \<open>Splitting and searching\<close>

text \<open>The inner loop of \<^verbatim>\<open>strspn\<close>; it leaves \<^verbatim>\<open>a\<close> at the character found or at the zero.\<close>

partial_function (option) accept_scan :: "bytes \<Rightarrow> addr \<Rightarrow> 8 word \<Rightarrow> addr option" where
  "accept_scan m a c =
     (if m a \<noteq> 0 then if c = m a then Some a else accept_scan m (a + 1) c else Some a)"

partial_function (option) strspn_loop :: "bytes \<Rightarrow> addr \<Rightarrow> addr \<Rightarrow> nat \<Rightarrow> nat option" where
  "strspn_loop m p accept count =
     (if m p \<noteq> 0
      then do { a \<leftarrow> accept_scan m accept (m p);
                (if m a = 0 then Some count else strspn_loop m (p + 1) accept (count + 1)) }
      else Some count)"

definition strspn :: "bytes \<Rightarrow> addr \<Rightarrow> addr \<Rightarrow> nat option" where
  "strspn m s accept = strspn_loop m s accept 0"

text \<open>The inner loop of \<^verbatim>\<open>strpbrk\<close> ends with the return of the outer pointer or falls through.\<close>

partial_function (option) pbrk_scan :: "bytes \<Rightarrow> addr \<Rightarrow> 8 word \<Rightarrow> bool option" where
  "pbrk_scan m sc2 c =
     (if m sc2 \<noteq> 0 then if c = m sc2 then Some True else pbrk_scan m (sc2 + 1) c else Some False)"

partial_function (option) strpbrk :: "bytes \<Rightarrow> addr \<Rightarrow> addr \<Rightarrow> ptr option" where
  "strpbrk m cs ct =
     (if m cs \<noteq> 0
      then do { found \<leftarrow> pbrk_scan m ct (m cs);
                (if found then Some (Some cs) else strpbrk m (cs + 1) ct) }
      else Some NULL)"

text \<open>\<open>tok\<close> is the global \<^verbatim>\<open>___strtok\<close>; the result carries its new value.\<close>

definition strtok :: "bytes \<Rightarrow> ptr \<Rightarrow> ptr \<Rightarrow> addr \<Rightarrow> (ptr \<times> ptr \<times> bytes) option" where
  "strtok m tok s ct =
     (case (case s of Some p \<Rightarrow> Some p | None \<Rightarrow> tok) of
        None \<Rightarrow> Some (NULL, tok, m)
      | Some sbegin \<Rightarrow>
          do { n \<leftarrow> strspn m sbegin ct;
               let b = sbegin + n;
               (if m b = 0 then Some (NULL, NULL, m)
                else do { send \<leftarrow> strpbrk m b ct;
                          (case send of
                             None \<Rightarrow> Some (Some b, NULL, m)
                           | Some e \<Rightarrow> (if m e \<noteq> 0 then Some (Some b, Some (e + 1), m(e := 0))
                                      else Some (Some b, Some e, m))) }) })"

text \<open>\<open>s\<close> is the value of \<^verbatim>\<open>*s\<close>; the second component of the result its new value.\<close>

definition strsep :: "bytes \<Rightarrow> ptr \<Rightarrow> addr \<Rightarrow> (ptr \<times> ptr \<times> bytes) option" where
  "strsep m s ct =
     (case s of
        None \<Rightarrow> Some (NULL, NULL, m)
      | Some sbegin \<Rightarrow>
          do { e \<leftarrow> strpbrk m sbegin ct;
               (case e of
                  None \<Rightarrow> Some (Some sbegin, NULL, m)
                | Some p \<Rightarrow> Some (Some sbegin, Some (p + 1), m(p := 0))) })"

partial_function (option) strswab_loop :: "bytes \<Rightarrow> addr \<Rightarrow> addr \<Rightarrow> bytes option" where
  "strswab_loop m p q =
     (if m p \<noteq> 0 \<and> m q \<noteq> 0
      then let tmp = m p; m1 = m(p := m q); m2 = m1(q := tmp) in strswab_loop m2 (p + 2) (q + 2)
      else Some m)"

definition strswab :: "bytes \<Rightarrow> ptr \<Rightarrow> (ptr \<times> bytes) option" where
  "strswab m s =
     (case s of
        None \<Rightarrow> Some (NULL, m)
      | Some p \<Rightarrow> (if m p = 0 then Some (NULL, m)
                 else do { m' \<leftarrow> strswab_loop m p (p + 1); Some (s, m') }))"


section \<open>Routines on blocks of memory\<close>

definition sizeof_long :: nat where "sizeof_long = 4"

definition load_long :: "bytes \<Rightarrow> addr \<Rightarrow> 32 word" where
  "load_long m a = ucast (m a) OR push_bit 8 (ucast (m (a + 1))) OR push_bit 16 (ucast (m (a + 2)))
     OR push_bit 24 (ucast (m (a + 3)))"

definition store_long :: "bytes \<Rightarrow> addr \<Rightarrow> 32 word \<Rightarrow> bytes" where
  "store_long m a w =
     m(a := ucast w, a + 1 := ucast (drop_bit 8 w), a + 2 := ucast (drop_bit 16 w), a + 3 := ucast (drop_bit 24 w))"

primrec memset_pattern :: "int \<Rightarrow> nat \<Rightarrow> 32 word" where
  "memset_pattern c 0 = 0"
| "memset_pattern c (Suc i) = push_bit 8 (memset_pattern c i) OR (word_of_int c AND 0xff)"

function memset_longs :: "bytes \<Rightarrow> addr \<Rightarrow> 32 word \<Rightarrow> nat \<Rightarrow> addr \<times> nat \<times> bytes" where
  "memset_longs m sl cl count =
     (if count \<ge> sizeof_long then memset_longs (store_long m sl cl) (sl + sizeof_long) cl (count - sizeof_long)
      else (sl, count, m))"
  by auto
termination
  by (relation "measure (\<lambda>(m, sl, cl, count). count)") (auto simp: sizeof_long_def)

declare memset_longs.simps [simp del]

fun memset_bytes :: "bytes \<Rightarrow> addr \<Rightarrow> int \<Rightarrow> nat \<Rightarrow> bytes" where
  "memset_bytes m s8 c 0 = m"
| "memset_bytes m s8 c (Suc count) = memset_bytes (m(s8 := word_of_int c)) (s8 + 1) c count"

definition memset :: "bytes \<Rightarrow> addr \<Rightarrow> int \<Rightarrow> nat \<Rightarrow> addr \<times> bytes" where
  "memset m s c count =
     (let (s8, count', m') =
        (if s AND (sizeof_long - 1) = 0 then memset_longs m s (memset_pattern c sizeof_long) count
         else (s, count, m))
      in (s, memset_bytes m' s8 c count'))"

function memcpy_longs :: "bytes \<Rightarrow> addr \<Rightarrow> addr \<Rightarrow> nat \<Rightarrow> addr \<times> addr \<times> nat \<times> bytes" where
  "memcpy_longs m dl sl count =
     (if count \<ge> sizeof_long
      then memcpy_longs (store_long m dl (load_long m sl)) (dl + sizeof_long) (sl + sizeof_long) (count - sizeof_long)
      else (dl, sl, count, m))"
  by auto
termination
  by (relation "measure (\<lambda>(m, dl, sl, count). count)") (auto simp: sizeof_long_def)

declare memcpy_longs.simps [simp del]

fun copy_up :: "bytes \<Rightarrow> addr \<Rightarrow> addr \<Rightarrow> nat \<Rightarrow> bytes" where
  "copy_up m d8 s8 0 = m"
| "copy_up m d8 s8 (Suc count) = copy_up (m(d8 := m s8)) (d8 + 1) (s8 + 1) count"

definition memcpy :: "bytes \<Rightarrow> addr \<Rightarrow> addr \<Rightarrow> nat \<Rightarrow> addr \<times> bytes" where
  "memcpy m dest src count =
     (if src = dest then (dest, m)
      else let (d8, s8, count', m') =
             (if (dest OR src) AND (sizeof_long - 1) = 0 then memcpy_longs m dest src count
              else (dest, src, count, m))
           in (dest, copy_up m' d8 s8 count'))"

text \<open>
  \<^verbatim>\<open>while (count--) *--tmp = *--s;\<close> with both pointers started \<^verbatim>\<open>count\<close> bytes further: with
  \<open>count\<close> bytes to go, they are at \<open>dest + count\<close> and \<open>src + count\<close>.
\<close>

fun copy_down :: "bytes \<Rightarrow> addr \<Rightarrow> addr \<Rightarrow> nat \<Rightarrow> bytes" where
  "copy_down m dest src 0 = m"
| "copy_down m dest src (Suc count) = copy_down (m(dest + count := m (src + count))) dest src count"

definition memmove :: "bytes \<Rightarrow> addr \<Rightarrow> addr \<Rightarrow> nat \<Rightarrow> addr \<times> bytes" where
  "memmove m dest src count =
     (if src = dest then (dest, m)
      else if dest \<le> src then (dest, copy_up m dest src count)
      else (dest, copy_down m dest src count))"

fun memcmp_loop :: "bytes \<Rightarrow> addr \<Rightarrow> addr \<Rightarrow> nat \<Rightarrow> int \<Rightarrow> int" where
  "memcmp_loop m su1 su2 0 res = res"
| "memcmp_loop m su1 su2 (Suc count) res =
     (let res' = uint (m su1) - uint (m su2)
      in if res' \<noteq> 0 then res' else memcmp_loop m (su1 + 1) (su2 + 1) count res')"

definition memcmp :: "bytes \<Rightarrow> addr \<Rightarrow> addr \<Rightarrow> nat \<Rightarrow> int" where
  "memcmp m cs ct count = memcmp_loop m cs ct count 0"

text \<open>The byte is compared with the whole \<^verbatim>\<open>int\<close>, without the cast that \<^verbatim>\<open>memchr\<close> has.\<close>

fun memscan :: "bytes \<Rightarrow> addr \<Rightarrow> int \<Rightarrow> nat \<Rightarrow> addr" where
  "memscan m p c 0 = p"
| "memscan m p c (Suc n) = (if uint (m p) = c then p else memscan m (p + 1) c n)"

function strstr_loop :: "bytes \<Rightarrow> addr \<Rightarrow> addr \<Rightarrow> int \<Rightarrow> int \<Rightarrow> ptr" where
  "strstr_loop m s1 s2 l1 l2 =
     (if l1 \<ge> l2
      then if memcmp m s1 s2 (nat l2) = 0 then Some s1 else strstr_loop m (s1 + 1) s2 (l1 - 1) l2
      else NULL)"
  by auto
termination
  by (relation "measure (\<lambda>(m, s1, s2, l1, l2). nat (l1 - l2 + 1))") auto

declare strstr_loop.simps [simp del]

definition strstr :: "bytes \<Rightarrow> addr \<Rightarrow> addr \<Rightarrow> ptr option" where
  "strstr m s1 s2 =
     do { l2 \<leftarrow> strlen m s2;
          (if l2 = 0 then Some (Some s1)
           else do { l1 \<leftarrow> strlen m s1; Some (strstr_loop m s1 s2 (int l1) (int l2)) }) }"

fun memchr_loop :: "bytes \<Rightarrow> addr \<Rightarrow> 8 word \<Rightarrow> nat \<Rightarrow> ptr" where
  "memchr_loop m p c 0 = NULL"
| "memchr_loop m p c (Suc n) = (if c = m p then Some p else memchr_loop m (p + 1) c n)"

definition memchr :: "bytes \<Rightarrow> addr \<Rightarrow> int \<Rightarrow> nat \<Rightarrow> ptr" where
  "memchr m s c n = memchr_loop m s (word_of_int c) n"


section \<open>Strings and blocks in memory\<close>

primrec str_at :: "bytes \<Rightarrow> addr \<Rightarrow> 8 word list \<Rightarrow> bool" where
  "str_at m p [] \<longleftrightarrow> m p = 0"
| "str_at m p (b # bs) \<longleftrightarrow> b \<noteq> 0 \<and> m p = b \<and> str_at m (p + 1) bs"

definition bytes_at :: "bytes \<Rightarrow> addr \<Rightarrow> nat \<Rightarrow> 8 word list" where
  "bytes_at m p n = map (\<lambda>i. m (p + i)) [0..<n]"

primrec write_bytes :: "bytes \<Rightarrow> addr \<Rightarrow> 8 word list \<Rightarrow> bytes" where
  "write_bytes m p [] = m"
| "write_bytes m p (b # bs) = write_bytes (m(p := b)) (p + 1) bs"

lemma bytes_at_0 [simp]: "bytes_at m p 0 = []"
  by (simp add: bytes_at_def)

lemma bytes_at_Suc [simp]: "bytes_at m p (Suc n) = m p # bytes_at m (Suc p) n"
  by (simp add: bytes_at_def upt_conv_Cons map_Suc_upt [symmetric] del: upt_Suc)

lemma bytes_at_snoc: "bytes_at m p (Suc n) = bytes_at m p n @ [m (p + n)]"
  by (simp add: bytes_at_def)

lemma length_bytes_at [simp]: "length (bytes_at m p n) = n"
  by (simp add: bytes_at_def)

lemma nth_bytes_at [simp]: "i < n \<Longrightarrow> bytes_at m p n ! i = m (p + i)"
  by (simp add: bytes_at_def)

lemma bytes_at_cong: "(\<And>x. p \<le> x \<Longrightarrow> x < p + n \<Longrightarrow> m x = m' x) \<Longrightarrow> bytes_at m p n = bytes_at m' p n"
  by (simp add: bytes_at_def)

lemma bytes_at_upd [simp]: "a < p \<or> p + n \<le> a \<Longrightarrow> bytes_at (m(a := v)) p n = bytes_at m p n"
  by (rule bytes_at_cong) auto

lemma str_at_cong:
  "(\<And>x. p \<le> x \<Longrightarrow> x \<le> p + length bs \<Longrightarrow> m x = m' x) \<Longrightarrow> str_at m p bs = str_at m' p bs"
  by (induction bs arbitrary: p) auto

lemma str_at_upd [simp]:
  "a < p \<or> p + length bs < a \<Longrightarrow> str_at (m(a := v)) p bs = str_at m p bs"
  by (rule str_at_cong) auto

lemma str_at_bytes: "str_at m p bs \<longleftrightarrow> 0 \<notin> set bs \<and> bytes_at m p (length bs) = bs \<and> m (p + length bs) = 0"
  by (induction bs arbitrary: p) auto

lemma str_at_unique: "str_at m p as \<Longrightarrow> str_at m p bs \<Longrightarrow> as = bs"
  by (induction as arbitrary: p bs) (case_tac bs; auto)+

lemma str_at_append: "str_at m p (as @ bs) \<longleftrightarrow> 0 \<notin> set as \<and> bytes_at m p (length as) = as \<and> str_at m (p + length as) bs"
  by (induction as arbitrary: p) auto

lemma write_bytes_apply:
  "write_bytes m p bs x = (if p \<le> x \<and> x < p + length bs then bs ! (x - p) else m x)"
  by (induction bs arbitrary: m p) (auto simp: nth_Cons')

lemma write_bytes_snoc: "write_bytes (m(p + length bs := v)) p bs = write_bytes m p (bs @ [v])"
  by (rule ext) (auto simp: write_bytes_apply nth_append)

lemma bytes_at_write [simp]: "n = length bs \<Longrightarrow> bytes_at (write_bytes m p bs) p n = bs"
  by (rule nth_equalityI) (auto simp: bytes_at_def write_bytes_apply)

lemma bytes_at_write_other:
  "q + n \<le> p \<or> p + length bs \<le> q \<Longrightarrow> bytes_at (write_bytes m p bs) q n = bytes_at m q n"
  by (rule bytes_at_cong) (auto simp: write_bytes_apply)

lemma str_at_write: "0 \<notin> set bs \<Longrightarrow> str_at (write_bytes m p (bs @ [0])) p bs"
  by (simp add: str_at_bytes write_bytes_apply nth_append)
     (rule nth_equalityI, auto simp: bytes_at_def write_bytes_apply nth_append)

lemma str_at_write_other:
  "q + length as < p \<or> p + length bs \<le> q \<Longrightarrow> str_at (write_bytes m p bs) q as = str_at m q as"
  by (rule str_at_cong) (auto simp: write_bytes_apply)

lemma str_at_write_append:
  assumes "str_at m d as" and "0 \<notin> set bs"
  shows "str_at (write_bytes m (d + length as) (bs @ [0])) d (as @ bs)"
proof -
  have "bytes_at (write_bytes m (d + length as) (bs @ [0])) d (length as) = bytes_at m d (length as)"
    by (rule bytes_at_write_other) simp
  then show ?thesis using assms str_at_write [OF assms(2)] by (simp only: str_at_append str_at_bytes [of m]) simp
qed


section \<open>Blocks\<close>

lemma copy_up_eq:
  "d \<le> s \<or> s + n \<le> d \<Longrightarrow> copy_up m d s n = write_bytes m d (bytes_at m s n)"
  by (induction n arbitrary: m d s) auto

lemma copy_down_eq:
  "s \<le> d \<or> d + n \<le> s \<Longrightarrow> copy_down m d s n = write_bytes m d (bytes_at m s n)"
proof (induction n arbitrary: m)
  case (Suc n)
  then have "copy_down m d s (Suc n) = write_bytes (m(d + n := m (s + n))) d (bytes_at m s n)" by auto
  also have "\<dots> = write_bytes m d (bytes_at m s n @ [m (s + n)])"
    using write_bytes_snoc [of m d "bytes_at m s n"] by simp
  finally show ?case by (simp add: bytes_at_snoc [symmetric] del: bytes_at_Suc)
qed simp

lemma memset_bytes_eq: "memset_bytes m p c n = write_bytes m p (replicate n (word_of_int c))"
  by (induction n arbitrary: m p) auto

lemma store_load_long:
  "store_long m d (load_long m s) = m(d := m s, d + 1 := m (s + 1), d + 2 := m (s + 2), d + 3 := m (s + 3))"
proof -
  have bytes: "ucast (load_long m s) = m s" "ucast (drop_bit 8 (load_long m s)) = m (s + 1)"
    "ucast (drop_bit 16 (load_long m s)) = m (s + 2)" "ucast (drop_bit 24 (load_long m s)) = m (s + 3)"
    by (rule bit_word_eqI; auto simp: load_long_def bit_simps dest: bit_imp_le_length)+
  then show ?thesis by (simp add: store_long_def)
qed

lemma bit_memset_pattern: "bit (memset_pattern c i) n \<longleftrightarrow> n < 32 \<and> n < 8 * i \<and> bit c (n mod 8)"
proof (induction i arbitrary: n)
  case (Suc i)
  have "(0xff :: 32 word) = mask 8" by (simp add: mask_eq_exp_minus_1)
  then have low: "bit (word_of_int c AND (0xff :: 32 word)) n \<longleftrightarrow> n < 8 \<and> bit c n"
    by (simp only: bit_and_iff bit_mask_iff) (auto simp: bit_simps)
  show ?case
    by (cases "n < 8") (auto simp: low Suc bit_push_bit_iff bit_or_iff le_mod_geq)
qed simp

lemma store_pattern:
  "store_long m p (memset_pattern c sizeof_long) =
     m(p := word_of_int c, p + 1 := word_of_int c, p + 2 := word_of_int c, p + 3 := word_of_int c)"
proof -
  have "ucast (memset_pattern c sizeof_long) = (word_of_int c :: 8 word)"
    "ucast (drop_bit 8 (memset_pattern c sizeof_long)) = (word_of_int c :: 8 word)"
    "ucast (drop_bit 16 (memset_pattern c sizeof_long)) = (word_of_int c :: 8 word)"
    "ucast (drop_bit 24 (memset_pattern c sizeof_long)) = (word_of_int c :: 8 word)"
    by (rule bit_word_eqI; simp add: bit_memset_pattern sizeof_long_def bit_simps mod_add_left_eq [of 16 8, symmetric]
        mod_add_left_eq [of 24 8, symmetric])+
  then show ?thesis by (simp add: store_long_def)
qed

text \<open>A word at a time is the same as a byte at a time.\<close>

lemma count_ge_4: "sizeof_long \<le> n \<Longrightarrow> n = Suc (Suc (Suc (Suc (n - sizeof_long))))"
  by (simp add: sizeof_long_def)

lemma memset_longs_bytes:
  "(case memset_longs m p (memset_pattern c sizeof_long) n of (p', n', m') \<Rightarrow> memset_bytes m' p' c n')
     = memset_bytes m p c n"
proof (induction m p "memset_pattern c sizeof_long" n rule: memset_longs.induct)
  case (1 m p n)
  show ?case
  proof (cases "sizeof_long \<le> n")
    case True
    have "memset_bytes m p c n = memset_bytes (store_long m p (memset_pattern c sizeof_long)) (p + sizeof_long) c (n - sizeof_long)"
      by (subst count_ge_4 [OF True], simp only: store_pattern) (simp add: sizeof_long_def eval_nat_numeral)
    with 1 True show ?thesis by (subst memset_longs.simps) simp
  qed (simp add: memset_longs.simps [of m p])
qed

lemma memcpy_longs_bytes:
  assumes "d + sizeof_long \<le> s \<or> s + sizeof_long \<le> d"
  shows "(case memcpy_longs m d s n of (d', s', n', m') \<Rightarrow> copy_up m' d' s' n') = copy_up m d s n"
  using assms
proof (induction m d s n rule: memcpy_longs.induct)
  case (1 m d s n)
  show ?case
  proof (cases "sizeof_long \<le> n")
    case True
    have "copy_up m d s n = copy_up (store_long m d (load_long m s)) (d + sizeof_long) (s + sizeof_long) (n - sizeof_long)"
      using 1(2) by (subst count_ge_4 [OF True]) (auto simp: store_load_long sizeof_long_def eval_nat_numeral)
    with 1 True show ?thesis by (subst memcpy_longs.simps) auto
  qed (simp add: memcpy_longs.simps [of m d])
qed

lemma aligned_or: "(a OR b) AND (sizeof_long - 1) = 0 \<longleftrightarrow> a mod 4 = 0 \<and> b mod 4 = 0" for a b :: nat
proof -
  have mask: "sizeof_long - 1 = (mask 2 :: nat)" by (simp add: sizeof_long_def mask_eq_exp_minus_1)
  have "take_bit 2 x = x mod 4" for x :: nat by (simp add: take_bit_eq_mod)
  then show ?thesis
    by (simp only: mask take_bit_eq_mask [symmetric] take_bit_or or_eq_0_iff)
qed

lemma memcpy_bytewise: "memcpy m d s n = (d, if s = d then m else copy_up m d s n)"
proof (cases "s \<noteq> d \<and> (d OR s) AND (sizeof_long - 1) = 0")
  case True
  then have "d + sizeof_long \<le> s \<or> s + sizeof_long \<le> d"
    by (simp only: aligned_or) (simp only: sizeof_long_def, presburger)
  from memcpy_longs_bytes [OF this, of m n] True show ?thesis
    by (simp add: memcpy_def split: prod.splits)
qed (auto simp: memcpy_def)

lemma write_back: "write_bytes m p (bytes_at m p n) = m"
  by (rule ext) (auto simp: write_bytes_apply bytes_at_def)

lemma memset_eq: "memset m p c n = (p, write_bytes m p (replicate n (word_of_int c)))"
  using memset_longs_bytes [where m = m and p = p and c = c and n = n] by (auto simp: memset_def memset_bytes_eq [symmetric] split: prod.splits)

lemma memcpy_eq: "d \<le> s \<or> s + n \<le> d \<Longrightarrow> memcpy m d s n = (d, write_bytes m d (bytes_at m s n))"
  by (simp add: memcpy_bytewise copy_up_eq write_back)

lemma memmove_eq: "memmove m d s n = (d, write_bytes m d (bytes_at m s n))"
  by (simp add: memmove_def copy_up_eq copy_down_eq write_back)

text \<open>
  The contract of a block copy: when the two areas are in a safe position, the destination gets
  the bytes that were at the source before. \<^verbatim>\<open>memmove\<close> keeps it for every position,
  \<^verbatim>\<open>memcpy\<close> when the destination starts before the source or behind its end.
\<close>

locale block_copy =
  fixes copy :: "bytes \<Rightarrow> addr \<Rightarrow> addr \<Rightarrow> nat \<Rightarrow> addr \<times> bytes"
    and safe :: "addr \<Rightarrow> addr \<Rightarrow> nat \<Rightarrow> bool"
  assumes copy_snapshot: "safe d s n \<Longrightarrow> copy m d s n = (d, write_bytes m d (bytes_at m s n))"
begin

lemma copies: "safe d s n \<Longrightarrow> bytes_at (snd (copy m d s n)) d n = bytes_at m s n"
  by (simp add: copy_snapshot)

lemma keeps: "safe d s n \<Longrightarrow> x < d \<or> d + n \<le> x \<Longrightarrow> snd (copy m d s n) x = m x"
  by (auto simp: copy_snapshot write_bytes_apply)

lemma copies_string:
  assumes "safe d s (Suc (length bs))" and "str_at m s bs"
  shows "str_at (snd (copy m d s (Suc (length bs)))) d bs"
proof -
  have "bytes_at m s (Suc (length bs)) = bs @ [0]" and "0 \<notin> set bs"
    using assms(2) by (auto simp: str_at_bytes bytes_at_snoc simp del: bytes_at_Suc)
  then show ?thesis using assms(1) by (simp add: copy_snapshot str_at_write del: bytes_at_Suc)
qed

end

interpretation cpy: block_copy memcpy "\<lambda>d s n. d \<le> s \<or> s + n \<le> d"
  by unfold_locales (rule memcpy_eq)

interpretation mov: block_copy memmove "\<lambda>d s n. True"
  by unfold_locales (rule memmove_eq)


section \<open>Strings\<close>

lemma str_end_eq: "str_at m p bs \<Longrightarrow> str_end m p = Some (p + length bs)"
  by (induction bs arbitrary: p) (subst str_end.simps, simp)+

lemma strlen_eq: "str_at m p bs \<Longrightarrow> strlen m p = Some (length bs)"
  by (simp add: strlen_def str_end_eq)

lemma strnlen_eq: "str_at m p bs \<Longrightarrow> strnlen m p n = min n (length bs)"
proof -
  have "str_at m p bs \<Longrightarrow> strnlen_loop m p n = p + min n (length bs)" for p
    by (induction m p n arbitrary: bs rule: strnlen_loop.induct) (case_tac bs; auto)+
  then show "str_at m p bs \<Longrightarrow> strnlen m p n = min n (length bs)" by (simp add: strnlen_def)
qed

lemma strcpy_loop_eq:
  "str_at m s bs \<Longrightarrow> d \<le> s \<or> s + length bs < d \<Longrightarrow> strcpy_loop m d s = Some (write_bytes m d (bs @ [0]))"
  by (induction bs arbitrary: m d s) (subst strcpy_loop.simps, auto simp: Let_def)+

lemma strncpy_loop_eq:
  "str_at m s bs \<Longrightarrow> d \<le> s \<or> s + length bs < d \<Longrightarrow> strncpy_loop m d s n = write_bytes m d (take n (bs @ [0]))"
proof (induction n arbitrary: m d s bs)
  case (Suc n)
  then show ?case by (cases bs) (auto simp: Let_def)
qed simp

lemma strncat_loop_eq:
  "str_at m s bs \<Longrightarrow> d \<le> s \<or> s + length bs < d \<Longrightarrow> 0 < n \<Longrightarrow>
   strncat_loop m d s n = write_bytes m d (take n bs @ [0])"
proof (induction n arbitrary: m d s bs)
  case (Suc n)
  then show ?case by (subst strncat_loop.simps) (cases bs; cases n; auto simp: Let_def)
qed simp

lemma strcat_eq:
  assumes "str_at m d as" and "str_at m s bs" and "s + length bs < d \<or> d + length as \<le> s"
  shows "strcat m d s = Some (d, write_bytes m (d + length as) (bs @ [0]))"
  using assms strcpy_loop_eq [OF assms(2), of "d + length as"] by (auto simp: strcat_def str_end_eq)

text \<open>The comparison of two strings as lists: the difference of the first two bytes that differ.\<close>

fun str_diff :: "8 word list \<Rightarrow> 8 word list \<Rightarrow> 8 word" where
  "str_diff (a # as) (b # bs) = (if a = b then str_diff as bs else a - b)"
| "str_diff (a # as) [] = a"
| "str_diff [] (b # bs) = - b"
| "str_diff [] [] = 0"

lemma char_diff_eq [simp]: "char_diff a b = a - b"
  by (simp add: char_diff_def)

lemma strcmp_eq: "str_at m p as \<Longrightarrow> str_at m q bs \<Longrightarrow> strcmp m p q = Some (sint (str_diff as bs))"
proof -
  have "str_at m p as \<Longrightarrow> str_at m q bs \<Longrightarrow> strcmp_loop m p q = Some (str_diff as bs)"
    by (induction as bs arbitrary: p q rule: str_diff.induct) (subst strcmp_loop.simps, auto simp: Let_def)+
  then show "str_at m p as \<Longrightarrow> str_at m q bs \<Longrightarrow> strcmp m p q = Some (sint (str_diff as bs))"
    by (simp add: strcmp_def)
qed

lemma strncmp_eq:
  assumes "str_at m p as" and "str_at m q bs"
  shows "strncmp m p q n = sint (str_diff (take n as) (take n bs))"
proof -
  have "strncmp_loop m p q n 0 = str_diff (take n as) (take n bs)"
    using assms
  proof (induction n arbitrary: p q as bs)
    case (Suc n)
    then show ?case by (cases as; cases bs) (auto simp: Let_def)
  qed simp
  then show ?thesis by (simp add: strncmp_def)
qed

lemma str_diff_0: "0 \<notin> set as \<Longrightarrow> 0 \<notin> set bs \<Longrightarrow> str_diff as bs = 0 \<longleftrightarrow> as = bs"
  by (induction as bs rule: str_diff.induct) auto

lemma sint_ascii_diff:
  fixes a b :: "8 word"
  assumes "a < 128" and "b < 128"
  shows "sint (a - b) = uint a - uint b"
proof -
  have lt: "uint a < 128" "uint b < 128" using assms by (simp_all add: word_less_def)
  have id: "signed_take_bit 7 x = x" if "-128 \<le> x" "x < 128" for x :: int
    using that by (intro signed_take_bit_int_eq_self) simp_all
  have "signed_take_bit 7 (uint a) = uint a" "signed_take_bit 7 (uint b) = uint b"
    using lt uint_nonnegative [of a] uint_nonnegative [of b] by (intro id; linarith)+
  then have "sint a = uint a" "sint b = uint b" by (simp_all add: sint_uint)
  moreover have "signed_take_bit 7 (uint a - uint b) = uint a - uint b"
    using lt uint_nonnegative [of a] uint_nonnegative [of b] by (intro id) linarith+
  ultimately show ?thesis by (simp add: sint_word_ariths)
qed

lemma str_diff_ascii:
  "\<forall>c\<in>set as \<union> set bs. c < 128 \<Longrightarrow> 0 \<notin> set as \<Longrightarrow> 0 \<notin> set bs \<Longrightarrow>
   sint (str_diff as bs) < 0 \<longleftrightarrow> (as, bs) \<in> lexord {(a, b). a < b}"
proof (induction as bs rule: str_diff.induct)
  case (1 a as b bs)
  then show ?case by (auto simp: sint_ascii_diff word_less_def)
next
  case (2 a as)
  then show ?case using sint_ascii_diff [of a 0] by simp
next
  case (3 b bs)
  then have "0 < b" by (simp add: word_neq_0_conv)
  then have "0 < uint b" by (simp add: word_less_def)
  with 3 sint_ascii_diff [of 0 b] show ?case by simp
qed simp

lemma strchr_eq:
  assumes "str_at m s bs"
  shows "strchr m s c =
           (let ch = word_of_int c; k = length (takeWhile (\<lambda>b. b \<noteq> ch) bs)
            in Some (if ch = 0 \<or> k < length bs then Some (s + k) else NULL))"
proof -
  have "strchr_loop m s ch =
          Some (if ch = 0 \<or> length (takeWhile (\<lambda>b. b \<noteq> ch) bs) < length bs
                then Some (s + length (takeWhile (\<lambda>b. b \<noteq> ch) bs)) else NULL)" for ch
    using assms by (induction bs arbitrary: s) (subst strchr_loop.simps, auto)+
  then show ?thesis by (simp add: strchr_def Let_def)
qed

lemma strrchr_loop_spec:
  "case strrchr_loop m s c k of
     None \<Rightarrow> \<forall>i\<le>k. m (s + i) \<noteq> c
   | Some q \<Rightarrow> \<exists>j\<le>k. q = s + j \<and> m q = c \<and> (\<forall>i. j < i \<and> i \<le> k \<longrightarrow> m (s + i) \<noteq> c)"
proof (induction k)
  case (Suc k)
  show ?case
  proof (cases "m (s + Suc k) = c")
    case False
    then have eq: "strrchr_loop m s c (Suc k) = strrchr_loop m s c k" by (subst strrchr_loop.simps) simp
    show ?thesis
    proof (cases "strrchr_loop m s c k")
      case None
      with Suc False eq show ?thesis by (auto simp: le_Suc_eq)
    next
      case (Some q)
      with Suc obtain j where "j \<le> k" "q = s + j" "m q = c" "\<forall>i. j < i \<and> i \<le> k \<longrightarrow> m (s + i) \<noteq> c" by auto
      with Some False eq show ?thesis by (auto intro!: exI [of _ j] simp: le_Suc_eq)
    qed
  qed (subst strrchr_loop.simps, auto)
qed (simp add: strrchr_loop.simps)

lemma skip_spaces_eq: "str_at m s bs \<Longrightarrow> skip_spaces m s = Some (s + length (takeWhile isspace bs))"
  by (induction bs arbitrary: s) (subst skip_spaces.simps, auto)+

lemma str_at_drop: "str_at m p bs \<Longrightarrow> n \<le> length bs \<Longrightarrow> str_at m (p + n) (drop n bs)"
  using str_at_append [of m p "take n bs" "drop n bs"] by simp

lemma str_at_dropWhile: "str_at m p bs \<Longrightarrow> str_at m (p + length (takeWhile P bs)) (dropWhile P bs)"
  using str_at_drop [of m p bs "length (takeWhile P bs)"] by (simp add: dropWhile_eq_drop length_takeWhile_le)

lemma strim_end_eq: "strim_end m s (length bs) = length (dropWhile isspace (rev bs))" if "bytes_at m s (length bs) = bs"
  using that by (induction bs rule: rev_induct) (auto simp: bytes_at_snoc simp del: bytes_at_Suc)

text \<open>A zero written into a string cuts it.\<close>

lemma str_at_cut: "str_at m p bs \<Longrightarrow> n \<le> length bs \<Longrightarrow> str_at (m(p + n := 0)) p (take n bs)"
proof (induction bs arbitrary: p n)
  case (Cons b bs)
  then show ?case using Cons.IH [of "p + 1" "n - 1"] by (cases n) auto
qed simp

lemma accept_scan_eq:
  "str_at m a acc \<Longrightarrow> \<exists>a'. accept_scan m a c = Some a' \<and> (m a' = 0 \<longleftrightarrow> c \<notin> set acc)"
  by (induction acc arbitrary: a) (subst accept_scan.simps, auto)+

lemma pbrk_scan_eq: "str_at m a acc \<Longrightarrow> pbrk_scan m a c = Some (c \<in> set acc)"
  by (induction acc arbitrary: a) (subst pbrk_scan.simps, auto)+

lemma strspn_eq:
  assumes "str_at m s bs" and "str_at m a acc"
  shows "strspn m s a = Some (length (takeWhile (\<lambda>c. c \<in> set acc) bs))"
proof -
  have "strspn_loop m s a n = Some (n + length (takeWhile (\<lambda>c. c \<in> set acc) bs))" for n
    using assms(1)
  proof (induction bs arbitrary: s n)
    case (Cons b bs)
    with accept_scan_eq [OF assms(2), of b] show ?case by (subst strspn_loop.simps) auto
  qed (subst strspn_loop.simps, simp)
  then show ?thesis by (simp add: strspn_def)
qed

lemma strpbrk_eq:
  assumes "str_at m s bs" and "str_at m a acc"
  shows "strpbrk m s a =
           Some (if set bs \<inter> set acc = {} then NULL else Some (s + length (takeWhile (\<lambda>c. c \<notin> set acc) bs)))"
  using assms(1)
proof (induction bs arbitrary: s)
  case (Cons b bs)
  with pbrk_scan_eq [OF assms(2), of b] show ?case by (subst strpbrk.simps) auto
qed (subst strpbrk.simps, simp)

fun swap_pairs :: "'a list \<Rightarrow> 'a list" where
  "swap_pairs (a # b # bs) = b # a # swap_pairs bs"
| "swap_pairs bs = bs"

lemma swap_pairs_props [simp]:
  "swap_pairs (swap_pairs bs) = bs" "length (swap_pairs bs) = length bs" "set (swap_pairs bs) = set bs"
  by (induction bs rule: swap_pairs.induct) auto

lemma strswab_loop_eq: "str_at m p bs \<Longrightarrow> strswab_loop m p (p + 1) = Some (write_bytes m p (swap_pairs bs))"
proof (induction bs arbitrary: m p rule: swap_pairs.induct)
  case (1 a b bs)
  define m' where "m' = m(p := b, p + 1 := a)"
  have "str_at m' (p + 2) bs" using 1(2) by (simp add: m'_def)
  from 1(1) [OF this] have rest: "strswab_loop m' (p + 2) (p + 1 + 2) = Some (write_bytes m' (p + 2) (swap_pairs bs))"
    by (simp add: numeral_2_eq_2)
  have "strswab_loop m p (p + 1) = strswab_loop m' (p + 2) (p + 1 + 2)"
    using 1(2) by (subst strswab_loop.simps) (auto simp: Let_def m'_def)
  with rest show ?case by (simp add: m'_def)
qed (subst strswab_loop.simps, simp)+

lemma strswab_eq:
  assumes "str_at m p bs" and "bs \<noteq> []"
  shows "strswab m (Some p) = Some (Some p, write_bytes m p (swap_pairs bs))"
  using assms strswab_loop_eq [OF assms(1)] by (cases bs) (auto simp: strswab_def)

lemma str_at_overwrite:
  assumes "str_at m p as" and "length bs = length as" and "0 \<notin> set bs"
  shows "str_at (write_bytes m p bs) p bs"
  using assms by (simp add: str_at_bytes write_bytes_apply)

lemma memcmp_0_iff: "memcmp m p q n = 0 \<longleftrightarrow> bytes_at m p n = bytes_at m q n"
proof -
  have "memcmp_loop m p q n 0 = 0 \<longleftrightarrow> bytes_at m p n = bytes_at m q n"
    by (induction n arbitrary: p q) (auto simp: Let_def word_uint_eq_iff)
  then show ?thesis by (simp add: memcmp_def)
qed

lemma memchr_eq:
  "memchr m s c n =
     (let k = length (takeWhile (\<lambda>b. b \<noteq> word_of_int c) (bytes_at m s n)) in if k < n then Some (s + k) else NULL)"
proof -
  have "memchr_loop m s ch n =
          (let k = length (takeWhile (\<lambda>b. b \<noteq> ch) (bytes_at m s n)) in if k < n then Some (s + k) else NULL)" for ch
    by (induction n arbitrary: s) (auto simp: Let_def)
  then show ?thesis by (simp add: memchr_def)
qed

lemma memscan_eq: "memscan m s c n = s + length (takeWhile (\<lambda>b. uint b \<noteq> c) (bytes_at m s n))"
  by (induction n arbitrary: s) auto

text \<open>\<open>occurs_at as bs i\<close>: the string \<open>bs\<close> is found in \<open>as\<close> at position \<open>i\<close>.\<close>

definition occurs_at :: "8 word list \<Rightarrow> 8 word list \<Rightarrow> nat \<Rightarrow> bool" where
  "occurs_at as bs i \<longleftrightarrow> i + length bs \<le> length as \<and> take (length bs) (drop i as) = bs"

lemma occurs_at_Suc: "occurs_at (a # as) bs (Suc i) = occurs_at as bs i"
  by (simp add: occurs_at_def)

lemma bytes_at_take: "bytes_at m p (length as) = as \<Longrightarrow> n \<le> length as \<Longrightarrow> bytes_at m p n = take n as"
proof -
  assume "bytes_at m p (length as) = as" and le: "n \<le> length as"
  then have "take n as = take n (bytes_at m p (length as))" by simp
  also have "\<dots> = bytes_at m p n" using le by (simp add: bytes_at_def take_map)
  finally show ?thesis ..
qed

lemma strstr_loop_spec:
  assumes "str_at m p as" and "str_at m q bs"
  shows "case strstr_loop m p q (int (length as)) (int (length bs)) of
           None \<Rightarrow> \<forall>i. \<not> occurs_at as bs i
         | Some r \<Rightarrow> \<exists>i. r = p + i \<and> occurs_at as bs i \<and> (\<forall>j<i. \<not> occurs_at as bs j)"
  using assms(1)
proof (induction as arbitrary: p)
  case Nil
  show ?case using assms(2)
    by (subst strstr_loop.simps) (auto simp: occurs_at_def memcmp_0_iff)
next
  case (Cons a as)
  have q: "bytes_at m q (length bs) = bs" using assms(2) by (simp add: str_at_bytes)
  have p: "bytes_at m p (length (a # as)) = a # as" using Cons.prems by (simp add: str_at_bytes)
  show ?case
  proof (cases "length bs \<le> length (a # as)")
    case short: True
    have here: "memcmp m p q (length bs) = 0 \<longleftrightarrow> occurs_at (a # as) bs 0"
      using short bytes_at_take [OF p short] by (simp add: memcmp_0_iff q occurs_at_def)
    have step: "strstr_loop m p q (int (length (a # as))) (int (length bs)) =
        (if occurs_at (a # as) bs 0 then Some p else strstr_loop m (p + 1) q (int (length as)) (int (length bs)))"
      using short here by (subst strstr_loop.simps) simp
    have IH: "case strstr_loop m (p + 1) q (int (length as)) (int (length bs)) of
           None \<Rightarrow> \<forall>i. \<not> occurs_at as bs i
         | Some r \<Rightarrow> \<exists>i. r = p + 1 + i \<and> occurs_at as bs i \<and> (\<forall>j<i. \<not> occurs_at as bs j)"
      using Cons.IH [of "p + 1"] Cons.prems by simp
    show ?thesis
    proof (cases "occurs_at (a # as) bs 0")
      case False
      then have later: "occurs_at (a # as) bs i \<longleftrightarrow> (\<exists>j. i = Suc j \<and> occurs_at as bs j)" for i
        by (cases i) (auto simp: occurs_at_Suc)
      show ?thesis
      proof (cases "strstr_loop m (p + 1) q (int (length as)) (int (length bs))")
        case None
        with IH False show ?thesis unfolding step later by simp
      next
        case (Some r)
        with IH obtain i where "r = p + 1 + i" "occurs_at as bs i" "\<forall>j<i. \<not> occurs_at as bs j" by auto
        with Some False show ?thesis unfolding step later by (auto intro!: exI [of _ "Suc i"])
      qed
    qed (unfold step, auto)
  next
    case False
    then show ?thesis by (subst strstr_loop.simps) (auto simp: occurs_at_def)
  qed
qed


section \<open>Tokens\<close>

function tokens :: "8 word list \<Rightarrow> 8 word list \<Rightarrow> 8 word list list" where
  "tokens del bs =
     (case dropWhile (\<lambda>c. c \<in> set del) bs of
        [] \<Rightarrow> []
      | b # r \<Rightarrow> takeWhile (\<lambda>c. c \<notin> set del) (b # r) # tokens del (drop 1 (dropWhile (\<lambda>c. c \<notin> set del) (b # r))))"
  by auto
termination
proof (relation "measure (\<lambda>(del, bs). length bs)")
  fix del bs b r
  assume "dropWhile (\<lambda>c. c \<in> set del) bs = b # r"
  then have "length (b # r) \<le> length bs" by (metis length_dropWhile_le)
  moreover have "length (dropWhile (\<lambda>c. c \<notin> set del) (b # r)) \<le> length (b # r)" by (rule length_dropWhile_le)
  ultimately show "((del, drop 1 (dropWhile (\<lambda>c. c \<notin> set del) (b # r))), (del, bs)) \<in> measure (\<lambda>(del, bs). length bs)"
    by (simp add: less_Suc_eq_le)
qed simp

declare tokens.simps [simp del]

lemma length_takeWhile_all: "length (takeWhile P xs) = length xs \<longleftrightarrow> (\<forall>x\<in>set xs. P x)"
  by (induction xs) auto

lemma tokens_nil: "set bs \<subseteq> set del \<Longrightarrow> tokens del bs = []"
proof -
  assume "set bs \<subseteq> set del"
  then have e: "dropWhile (\<lambda>c. c \<in> set del) bs = []" by (auto simp: dropWhile_eq_Nil_conv)
  show ?thesis by (simp only: tokens.simps [of del bs] e list.case)
qed

text \<open>One call, when a token is left: the token, cut off by a zero, and the rest.\<close>

lemma strtok_none:
  assumes "str_at m p bs" and "str_at m ct del" and "set bs \<subseteq> set del"
  shows "strtok m tok (Some p) ct = Some (NULL, NULL, m)"
proof -
  have "length (takeWhile (\<lambda>c. c \<in> set del) bs) = length bs"
    using assms(3) by (subst takeWhile_eq_all_conv [THEN iffD2]) auto
  moreover have "m (p + length bs) = 0" using assms(1) by (simp add: str_at_bytes)
  ultimately show ?thesis using strspn_eq [OF assms(1,2)] by (simp add: strtok_def)
qed

lemma strtok_some:
  assumes str: "str_at m p bs" and ct: "str_at m ct del"
    and b: "dropWhile (\<lambda>c. c \<in> set del) bs = b" "b \<noteq> []"
    and q: "q = p + length (takeWhile (\<lambda>c. c \<in> set del) bs)"
    and t: "t = takeWhile (\<lambda>c. c \<notin> set del) b"
  shows "strtok m tok (Some p) ct =
           (if length t = length b then Some (Some q, NULL, m)
            else Some (Some q, Some (q + length t + 1), m(q + length t := 0)))"
proof -
  have rest: "str_at m q b" using str_at_dropWhile [OF str, of "\<lambda>c. c \<in> set del"] b(1) q by simp
  then have "m q \<noteq> 0" using b(2) by (cases b) auto
  have split: "set b \<inter> set del = {} \<longleftrightarrow> length t = length b"
    using t by (auto simp: length_takeWhile_all)
  have end_nz: "m (q + length t) \<noteq> 0" if "length t \<noteq> length b"
  proof -
    have "length t < length b" using that t length_takeWhile_le le_neq_implies_less by metis
    then have "b ! length t \<in> set b" by (rule nth_mem)
    moreover have "m (q + length t) = b ! length t"
      using rest nth_bytes_at [OF \<open>length t < length b\<close>, of m q] by (simp add: str_at_bytes)
    ultimately show ?thesis using rest by (metis str_at_bytes)
  qed
  show ?thesis
    using strspn_eq [OF str ct] strpbrk_eq [OF rest ct] \<open>m q \<noteq> 0\<close> end_nz
    by (auto simp: strtok_def q [symmetric] t [symmetric] split)
qed

text \<open>
  The loop a client writes around \<^verbatim>\<open>strtok\<close>: the first call gets the string, the others
  NULL, until NULL comes back. It collects the tokens' addresses; \<open>fuel\<close> bounds the calls.
\<close>

primrec strtok_all :: "nat \<Rightarrow> bytes \<Rightarrow> ptr \<Rightarrow> ptr \<Rightarrow> addr \<Rightarrow> (addr list \<times> bytes) option" where
  "strtok_all 0 m tok s ct = None"
| "strtok_all (Suc fuel) m tok s ct =
     do { (r, tok', m') \<leftarrow> strtok m tok s ct;
          (case r of
             None \<Rightarrow> Some ([], m')
           | Some q \<Rightarrow> do { (qs, m'') \<leftarrow> strtok_all fuel m' tok' NULL ct; Some (q # qs, m'') }) }"

lemma strtok_all_NULL: "0 < fuel \<Longrightarrow> strtok_all fuel m NULL NULL ct = Some ([], m)"
  by (cases fuel) (simp_all add: strtok_def)

lemma strtok_all_resume: "strtok_all fuel m (Some p) NULL ct = strtok_all fuel m tok (Some p) ct"
  by (cases fuel) (simp_all add: strtok_def)

definition strtok_result :: "bytes \<Rightarrow> addr \<Rightarrow> 8 word list \<Rightarrow> 8 word list \<Rightarrow> (addr list \<times> bytes) option \<Rightarrow> bool" where
  "strtok_result m p bs del r \<longleftrightarrow>
     (\<exists>qs m'. r = Some (qs, m') \<and> list_all2 (str_at m') qs (tokens del bs) \<and>
              (\<forall>x. x < p \<or> p + length bs < x \<longrightarrow> m' x = m x))"

lemma strtok_all_tokens:
  assumes "str_at m p bs" and "str_at m ct del" and "ct + length del < p \<or> p + length bs < ct" and "length bs + 1 < fuel"
  shows "strtok_result m p bs del (strtok_all fuel m tok (Some p) ct)"
  using assms
proof (induction "length bs" arbitrary: m p bs fuel tok rule: less_induct)
  case less
  note str = less.prems(1) and ct = less.prems(2)
  obtain k where fuel: "fuel = Suc k" "length bs < k" using less.prems(4) by (cases fuel) auto
  define b where "b = dropWhile (\<lambda>c. c \<in> set del) bs"
  define q where "q = p + length (takeWhile (\<lambda>c. c \<in> set del) bs)"
  define t where "t = takeWhile (\<lambda>c. c \<notin> set del) b"
  show ?case
  proof (cases "b = []")
    case True
    then have "set bs \<subseteq> set del" by (auto simp: b_def dropWhile_eq_Nil_conv)
    then show ?thesis by (simp add: strtok_result_def fuel strtok_none [OF str ct] tokens_nil)
  next
    case False
    note one = strtok_some [OF str ct b_def [symmetric] False q_def t_def]
    have rest: "str_at m q b" unfolding b_def q_def by (rule str_at_dropWhile [OF str])
    have len: "q + length b = p + length bs"
      unfolding b_def q_def by (metis add.assoc length_append takeWhile_dropWhile_id)
    have toks: "tokens del bs = t # tokens del (drop 1 (dropWhile (\<lambda>c. c \<notin> set del) b))"
    proof -
      obtain b0 r where "b = b0 # r" using False by (cases b) auto
      then show ?thesis by (simp only: tokens.simps [of del bs] b_def [symmetric] t_def list.case)
    qed
    have dw: "dropWhile (\<lambda>c. c \<notin> set del) b = drop (length t) b" by (simp add: t_def dropWhile_eq_drop)
    show ?thesis
    proof (cases "length t = length b")
      case all: True
      then have "t = b" unfolding t_def by (simp only: length_takeWhile_all takeWhile_eq_all_conv)
      then show ?thesis
        using rest all fuel by (simp add: strtok_result_def one strtok_all_NULL toks dw tokens_nil)
    next
      case part: False
      have lt: "length t < length b" using part t_def length_takeWhile_le le_neq_implies_less by metis
      define p' where "p' = q + length t + 1"
      define m1 where "m1 = m(q + length t := 0)"
      define bs' where "bs' = drop (Suc (length t)) b"
      have qp: "p \<le> q" by (simp add: q_def)
      have rest': "str_at m p' bs'"
        using str_at_drop [OF rest, of "Suc (length t)"] lt by (simp add: p'_def bs'_def)
      have len': "p' + length bs' = p + length bs" using lt len by (simp add: p'_def bs'_def)
      have small: "length bs' < length bs" using len' qp by (simp add: p'_def)
      have "strtok_result m1 p' bs' del (strtok_all k m1 tok (Some p') ct)"
      proof (rule less.hyps [OF small])
        show "str_at m1 p' bs'" using rest' by (simp add: m1_def p'_def)
        show "str_at m1 ct del" using ct less.prems(3) lt len qp unfolding m1_def by (subst str_at_upd) auto
        show "ct + length del < p' \<or> p' + length bs' < ct" using less.prems(3) len' qp p'_def by auto
        show "length bs' + 1 < k" using fuel small by simp
      qed
      then obtain qs m' where run: "strtok_all k m1 tok (Some p') ct = Some (qs, m')"
        and qs: "list_all2 (str_at m') qs (tokens del bs')"
        and frame: "\<And>x. x < p' \<or> p' + length bs' < x \<Longrightarrow> m' x = m1 x"
        unfolding strtok_result_def by blast
      have "t = take (length t) b" by (simp add: t_def takeWhile_eq_take [symmetric])
      moreover have "str_at m1 q (take (length t) b)"
        using str_at_cut [OF rest, of "length t"] lt by (simp add: m1_def)
      ultimately have "str_at m1 q t" by simp
      then have "str_at m' q t" using frame by (subst str_at_cong [of _ _ _ m1]) (auto simp: p'_def)
      moreover have "strtok_all fuel m tok (Some p) ct = Some (q # qs, m')"
        using run part by (simp add: fuel one m1_def p'_def strtok_all_resume [of _ _ _ _ tok])
      moreover have "m' x = m x" if "x < p \<or> p + length bs < x" for x
        using that frame [of x] len len' lt qp by (auto simp: m1_def p'_def)
      ultimately show ?thesis using qs unfolding strtok_result_def by (simp add: toks dw bs'_def)
    qed
  qed
qed


section \<open>Properties\<close>

text \<open>A memory to try the routines on: the given texts, each with its zero, from address 100 on.\<close>

definition demo_bytes :: "string list \<Rightarrow> bytes" where
  "demo_bytes texts = write_bytes (\<lambda>_. 0) 100 (concat (map (\<lambda>t. map (\<lambda>c. of_nat (of_char c)) t @ [0]) texts))"

text \<open>
  The word-at-a-time \<^verbatim>\<open>memset\<close>, for every address, size and fill value, aligned or not,
  stores the low byte of the value into exactly the bytes of the area.
\<close>

theorem memset_fills:
  "memset m s c n = (s, \<lambda>x. if s \<le> x \<and> x < s + n then word_of_int c else m x)"
  by (auto simp: memset_eq write_bytes_apply fun_eq_iff)

text \<open>
  C27. \<^verbatim>\<open>memmove\<close> moves a block correctly for every overlap: each byte of the destination gets
  what the source held before the call, nothing else changes. \<^verbatim>\<open>memcpy\<close>, which copies words
  when both areas are aligned, is the same function whenever the destination does not start inside
  the source.
\<close>

theorem memmove_memcpy:
  "memmove m d s n = (d, \<lambda>x. if d \<le> x \<and> x < d + n then m (s + (x - d)) else m x) \<and>
   (d \<le> s \<or> s + n \<le> d \<longrightarrow> memcpy m d s n = memmove m d s n)"
  using mov.copy_snapshot [OF TrueI, of m d s n] cpy.copy_snapshot [where m = m and d = d and s = s and n = n]
  by (auto simp: write_bytes_apply fun_eq_iff)

theorem memmove_memcpy_witness: "memcpy (demo_bytes [''abcdefgh'']) 100 104 4 = memmove (demo_bytes [''abcdefgh'']) 100 104 4"
  using memmove_memcpy [of "demo_bytes [''abcdefgh'']" 100 104 4] by simp

text \<open>
  \<^verbatim>\<open>strcat\<close> appends: with a string at \<^verbatim>\<open>dest\<close>, another at \<^verbatim>\<open>src\<close> and no overlap of
  the source with the enlarged destination, it ends, returns \<^verbatim>\<open>dest\<close>, leaves the concatenation
  there, whose length \<^verbatim>\<open>strlen\<close> finds to be the sum, keeps the source, and writes nothing outside
  the source's length plus one bytes from the old end of the destination.
\<close>

theorem strcat_appends:
  assumes "str_at m d as" and "str_at m s bs"
    and "s + length bs < d \<or> d + length as + length bs < s"
  shows "\<exists>m'. strcat m d s = Some (d, m') \<and> str_at m' d (as @ bs) \<and> str_at m' s bs \<and>
              strlen m' d = Some (length as + length bs) \<and>
              (\<forall>x. x < d + length as \<or> d + length as + length bs < x \<longrightarrow> m' x = m x)"
proof -
  define m' where "m' = write_bytes m (d + length as) (bs @ [0])"
  have "strcat m d s = Some (d, m')" unfolding m'_def using assms by (intro strcat_eq) auto
  moreover have "str_at m' d (as @ bs)"
    unfolding m'_def using assms(1,2) by (intro str_at_write_append) (auto simp: str_at_bytes)
  moreover have "str_at m' s bs" using assms unfolding m'_def by (subst str_at_write_other) auto
  moreover have "\<forall>x. x < d + length as \<or> d + length as + length bs < x \<longrightarrow> m' x = m x"
    by (auto simp: m'_def write_bytes_apply)
  ultimately show ?thesis using strlen_eq [of m' d "as @ bs"] by auto
qed

theorem strcat_appends_witness:
  "\<exists>m'. strcat (demo_bytes [''xy'', ''ab'', ''c'']) 103 100 = Some (103, m') \<and>
        str_at m' 103 (map (\<lambda>c. of_nat (of_char c)) ''abxy'')"
proof -
  let ?m = "demo_bytes [''xy'', ''ab'', ''c'']"
  have "str_at ?m 103 [97, 98]" and "str_at ?m 100 [120, 121]" by code_simp+
  from strcat_appends [OF this] show ?thesis by auto
qed

text \<open>
  \<^verbatim>\<open>strcmp\<close> returns on any two strings, and returns 0 exactly for equal ones, although it
  cuts the difference to eight bits. On ASCII strings its sign is the lexicographic order. (Off
  ASCII it is not: the difference of \<^verbatim>\<open>'d'\<close> and the byte \<^verbatim>\<open>0x9c\<close> is 200, which is cut to \<open>-56\<close>.)
\<close>

theorem strcmp_order:
  assumes "str_at m p as" and "str_at m q bs"
  shows "\<exists>r. strcmp m p q = Some r \<and> (r = 0 \<longleftrightarrow> as = bs) \<and>
             (list_all (\<lambda>c. c < 128) (as @ bs) \<longrightarrow> (r < 0 \<longleftrightarrow> (as, bs) \<in> lexord {(a, b). a < b}))"
proof -
  have nz: "0 \<notin> set as" "0 \<notin> set bs" using assms by (simp_all add: str_at_bytes)
  have "sint (str_diff as bs) = 0 \<longleftrightarrow> as = bs"
    using str_diff_0 [OF nz] by (metis signed_eq_0_iff)
  moreover have "sint (str_diff as bs) < 0 \<longleftrightarrow> (as, bs) \<in> lexord {(a, b). a < b}"
    if "list_all (\<lambda>c. c < 128) (as @ bs)"
    using that nz by (intro str_diff_ascii) (auto simp: list_all_iff)
  ultimately show ?thesis using strcmp_eq [OF assms] by simp
qed

theorem strcmp_order_witness: "\<exists>r. strcmp (demo_bytes [''abc'', ''abd'']) 100 104 = Some r \<and> r < 0"
proof -
  have "str_at (demo_bytes [''abc'', ''abd'']) 100 [97, 98, 99]"
    and "str_at (demo_bytes [''abc'', ''abd'']) 104 [97, 98, 100]" by code_simp+
  from strcmp_order [OF this] show ?thesis by auto
qed

text \<open>
  C35. Repeated calls of \<^verbatim>\<open>strtok\<close> split a string into its tokens: as many calls as the string is
  long are enough to reach NULL, the pointers returned are strings, in order the maximal
  delimiter-free pieces of the original, and no byte outside the string has changed.
\<close>

theorem strtok_splits:
  assumes "str_at m p bs" and "str_at m ct del" and "ct + length del < p \<or> p + length bs < ct"
  shows "\<exists>qs m'. strtok_all (length bs + 2) m tok (Some p) ct = Some (qs, m') \<and>
                 list_all2 (str_at m') qs (tokens del bs) \<and>
                 (\<forall>x. x < p \<or> p + length bs < x \<longrightarrow> m' x = m x)"
  using strtok_all_tokens [OF assms, of "length bs + 2" tok] by (simp add: strtok_result_def)

theorem strtok_splits_witness:
  "\<exists>qs m'. strtok_all 7 (demo_bytes ['', '', ''a,,bc'']) NULL (Some 103) 100 = Some (qs, m') \<and>
           list_all2 (str_at m') qs [[97], [98, 99]]"
proof -
  let ?m = "demo_bytes ['', '', ''a,,bc'']"
  have "str_at ?m 103 [97, 44, 44, 98, 99]" and "str_at ?m 100 [44, 32]" by code_simp+
  moreover have len: "length [97, 44, 44, 98, 99 :: 8 word] + 2 = 7" and apart: "100 + length [44, 32 :: 8 word] < 103" by simp_all
  ultimately have
    "\<exists>qs m'. strtok_all 7 ?m NULL (Some 103) 100 = Some (qs, m') \<and> list_all2 (str_at m') qs (tokens [44, 32] [97, 44, 44, 98, 99])"
    using strtok_splits [of ?m 103 "[97, 44, 44, 98, 99]" 100 "[44, 32]" NULL] unfolding len by blast
  moreover have "tokens [44, 32] [97, 44, 44, 98, 99] = [[97], [98, 99 :: 8 word]]" by code_simp
  ultimately show ?thesis by simp
qed

text \<open>
  \<^verbatim>\<open>strstr\<close> on two strings returns the address of the first occurrence of the second in the
  first, the start of the first string for an empty pattern, and NULL exactly when there is none.
\<close>

theorem strstr_first:
  assumes "str_at m p as" and "str_at m q bs"
  shows "\<exists>r. strstr m p q = Some r \<and>
             (case r of
                None \<Rightarrow> \<forall>i. \<not> occurs_at as bs i
              | Some a \<Rightarrow> \<exists>i. a = p + i \<and> occurs_at as bs i \<and> (\<forall>j<i. \<not> occurs_at as bs j))"
proof (cases "bs = []")
  case True
  then have "occurs_at as bs 0" by (simp add: occurs_at_def)
  then show ?thesis using strlen_eq [OF assms(2)] True by (auto simp: strstr_def)
next
  case False
  then show ?thesis
    using strlen_eq [OF assms(1)] strlen_eq [OF assms(2)] strstr_loop_spec [OF assms] by (simp add: strstr_def)
qed

theorem strstr_first_witness: "strstr (demo_bytes [''xabab'', ''ab'']) 100 106 = Some (Some 101)"
proof -
  have "str_at (demo_bytes [''xabab'', ''ab'']) 100 [120, 97, 98, 97, 98]"
    and "str_at (demo_bytes [''xabab'', ''ab'']) 106 [97, 98]" by code_simp+
  from strstr_first [OF this] obtain r where r: "strstr (demo_bytes [''xabab'', ''ab'']) 100 106 = Some r"
    and spec: "case r of
        None \<Rightarrow> \<forall>i. \<not> occurs_at [120, 97, 98, 97, 98] [97, 98] i
      | Some a \<Rightarrow> \<exists>i. a = 100 + i \<and> occurs_at [120, 97, 98, 97, 98] [97, 98] i \<and>
                 (\<forall>j<i. \<not> occurs_at [120, 97, 98, 97, 98] [97, 98] j)" by blast
  define occ where "occ = occurs_at [120, 97, 98, 97, 98] [97, 98]"
  have occ: "\<not> occ 0" "occ 1" by (simp_all add: occ_def occurs_at_def)
  show ?thesis
  proof (cases r)
    case None
    with spec have "\<forall>i. \<not> occ i" unfolding occ_def by simp
    with occ(2) show ?thesis by blast
  next
    case (Some a)
    with spec obtain i where i: "a = 100 + i" "occ i" "\<forall>j<i. \<not> occ j" unfolding occ_def by auto
    with occ have "\<not> 1 < i" and "i \<noteq> 0" by metis+
    with r Some i show ?thesis by simp
  qed
qed

text \<open>
  \<^verbatim>\<open>strim\<close> leaves the string without its leading and trailing white space;
  \<^verbatim>\<open>strswab\<close> is its own inverse; \<^verbatim>\<open>strncat\<close> cuts the source and always terminates.
\<close>

lemma strim_trims:
  assumes "str_at m s bs"
  shows "\<exists>s' m'. strim m s = Some (s', m') \<and>
                 str_at m' s' (rev (dropWhile isspace (rev (dropWhile isspace bs))))"
proof -
  define b where "b = dropWhile isspace bs"
  define s' where "s' = s + length (takeWhile isspace bs)"
  have b: "str_at m s' b" unfolding b_def s'_def by (rule str_at_dropWhile [OF assms])
  then have "bytes_at m s' (length b) = b" by (simp add: str_at_bytes)
  note e = strim_end_eq [OF this]
  have le: "length (dropWhile isspace (rev b)) \<le> length b"
    using length_dropWhile_le [of isspace "rev b"] by simp
  have "take (length (dropWhile isspace (rev b))) b = rev (dropWhile isspace (rev b))"
    by (simp add: dropWhile_eq_drop rev_drop)
  with str_at_cut [OF b le] b show ?thesis
    by (cases "b = []") (auto simp: strim_def skip_spaces_eq [OF assms] s'_def [symmetric] strlen_eq [OF b] e b_def [symmetric])
qed

lemma strswab_involution:
  assumes "str_at m p bs" and "bs \<noteq> []"
  shows "\<exists>m'. strswab m (Some p) = Some (Some p, m') \<and> str_at m' p (swap_pairs bs) \<and>
              strswab m' (Some p) = Some (Some p, m)"
proof -
  have "0 \<notin> set (swap_pairs bs)" using assms(1) by (simp add: str_at_bytes)
  then have s: "str_at (write_bytes m p (swap_pairs bs)) p (swap_pairs bs)"
    using assms(1) by (intro str_at_overwrite) auto
  have "swap_pairs bs \<noteq> []" using assms(2) by (metis swap_pairs_props(2) length_0_conv)
  moreover have "write_bytes (write_bytes m p (swap_pairs bs)) p bs = m"
    using assms(1) by (auto simp: write_bytes_apply str_at_bytes fun_eq_iff) (metis le_add_diff_inverse nth_bytes_at add.commute nat_add_left_cancel_less)
  ultimately show ?thesis using strswab_eq [OF assms] strswab_eq [OF s] s by auto
qed

lemma strncat_terminates:
  assumes "str_at m d as" and "str_at m s bs" and "s + length bs < d \<or> d + length as + length bs < s" and "0 < n"
  shows "\<exists>m'. strncat m d s n = Some (d, m') \<and> str_at m' d (as @ take n bs)"
proof -
  have "strncat m d s n = Some (d, write_bytes m (d + length as) (take n bs @ [0]))"
    using assms strncat_loop_eq [OF assms(2) _ assms(4), of "d + length as"]
    by (auto simp: strncat_def str_end_eq)
  moreover have "0 \<notin> set (take n bs)" using assms(2) by (auto simp: str_at_bytes dest: in_set_takeD)
  then have "str_at (write_bytes m (d + length as) (take n bs @ [0])) d (as @ take n bs)"
    using assms(1) by (intro str_at_write_append)
  ultimately show ?thesis by auto
qed

end
