(* ===== verification/Lib_Strto.thy ===== *)
theory Lib_Strto
  imports Lib_String
begin

text \<open>
  Numbers from strings (\<^verbatim>\<open>lib/strto.c\<close>). The results are 32-bit (\<^verbatim>\<open>unsigned long\<close>) or
  64-bit words and wrap around as in C; the digit loop is shared by \<^verbatim>\<open>simple_strtoul\<close> and
  \<^verbatim>\<open>simple_strtoull\<close> and polymorphic in the width. The address stored through
  \<^verbatim>\<open>endp\<close> is part of the result. \<^term>\<open>None\<close> is a string without its zero.
\<close>

unbundle bit_operations_syntax

section \<open>Definitions\<close>

definition EINVAL :: int where "EINVAL = 22"

definition parse_integer_fixup_radix :: "bytes \<Rightarrow> addr \<Rightarrow> 32 word \<Rightarrow> addr \<times> 32 word" where
  "parse_integer_fixup_radix m s base =
     (let base' = (if base = 0
                   then if m s = 48
                        then if tolower (m (s + 1)) = 120 \<and> isxdigit (m (s + 2)) then 16 else 8
                        else 10
                   else base)
      in (if base' = 16 \<and> m s = 48 \<and> tolower (m (s + 1)) = 120 then s + 2 else s, base'))"

text \<open>
  \<^verbatim>\<open>isdigit(c) ? c-'0' : (islower(c) ? toupper(c) : c)-'A'+10\<close>; it is computed for hexadecimal
  digits only.
\<close>

definition digit_value :: "8 word \<Rightarrow> 'a :: len word" where
  "digit_value c =
     (if isdigit c then ucast c - 48 else ucast (if islower c then toupper c else c) - 65 + 10)"

partial_function (option) strto_loop :: "bytes \<Rightarrow> addr \<Rightarrow> 32 word \<Rightarrow> 'a :: len word \<Rightarrow> ('a word \<times> addr) option" where
  "strto_loop m cp base result =
     (if isxdigit (m cp) \<and> digit_value (m cp) < base
      then strto_loop m (cp + 1) base (result * ucast base + digit_value (m cp))
      else Some (result, cp))"

definition simple_strtoul :: "bytes \<Rightarrow> addr \<Rightarrow> 32 word \<Rightarrow> (32 word \<times> addr) option" where
  "simple_strtoul m cp base =
     (let (cp', base') = parse_integer_fixup_radix m cp base in strto_loop m cp' base' 0)"

definition simple_strtoull :: "bytes \<Rightarrow> addr \<Rightarrow> 32 word \<Rightarrow> (64 word \<times> addr) option" where
  "simple_strtoull m cp base =
     (let (cp', base') = parse_integer_fixup_radix m cp base in strto_loop m cp' base' 0)"

text \<open>The return value and the value stored through \<^verbatim>\<open>res\<close>.\<close>

definition strict_strtoul :: "bytes \<Rightarrow> addr \<Rightarrow> 32 word \<Rightarrow> (int \<times> 32 word) option" where
  "strict_strtoul m cp base =
     do { len \<leftarrow> strlen m cp;
          (if len = 0 then Some (- EINVAL, 0)
           else do { (val, tail) \<leftarrow> simple_strtoul m cp base;
                     Some (if tail = cp then (- EINVAL, 0)
                           else if m tail = 0 \<or> (len = tail - cp + 1 \<and> m tail = 10) then (0, val)
                           else (- EINVAL, 0)) }) }"

definition simple_strtol :: "bytes \<Rightarrow> addr \<Rightarrow> 32 word \<Rightarrow> (32 word \<times> addr) option" where
  "simple_strtol m cp base =
     (if m cp = 45 then do { (v, e) \<leftarrow> simple_strtoul m (cp + 1) base; Some (- v, e) }
      else simple_strtoul m cp base)"

text \<open>The suffixes: \<^verbatim>\<open>G\<close> falls through to \<^verbatim>\<open>M\<close>, which falls through to \<^verbatim>\<open>K\<close>.\<close>

definition suffix_scale :: "8 word \<Rightarrow> 'a :: len word \<Rightarrow> 'a word" where
  "suffix_scale c result =
     (if c = 71 then result * 1024 * 1024 * 1024
      else if c = 77 then result * 1024 * 1024
      else if c = 75 \<or> c = 107 then result * 1024
      else result)"

definition suffix_end :: "bytes \<Rightarrow> addr \<Rightarrow> addr" where
  "suffix_end m e =
     (if m e = 71 \<or> m e = 77 \<or> m e = 75 \<or> m e = 107
      then if m (e + 1) = 105 then if m (e + 2) = 66 then e + 3 else e + 2 else e
      else e)"

definition ustrtoul :: "bytes \<Rightarrow> addr \<Rightarrow> 32 word \<Rightarrow> (32 word \<times> addr) option" where
  "ustrtoul m cp base =
     do { (result, e) \<leftarrow> simple_strtoul m cp base; Some (suffix_scale (m e) result, suffix_end m e) }"

definition ustrtoull :: "bytes \<Rightarrow> addr \<Rightarrow> 32 word \<Rightarrow> (64 word \<times> addr) option" where
  "ustrtoull m cp base =
     do { (result, e) \<leftarrow> simple_strtoull m cp base; Some (suffix_scale (m e) result, suffix_end m e) }"

text \<open>
  The loop from \<^verbatim>\<open>p = end - 1\<close> down to, but not including, \<^verbatim>\<open>p = str\<close>; \<open>k\<close> is
  \<open>p - str\<close>. The result of the loop is the start of the trailing digits.
\<close>

fun trailing_scan :: "bytes \<Rightarrow> addr \<Rightarrow> nat \<Rightarrow> ptr" where
  "trailing_scan m str 0 = NULL"
| "trailing_scan m str (Suc k) =
     (if \<not> isdigit (m (str + Suc k)) then Some (str + Suc k + 1) else trailing_scan m str k)"

definition trailing_strtoln :: "bytes \<Rightarrow> addr \<Rightarrow> ptr \<Rightarrow> 32 word option" where
  "trailing_strtoln m str e =
     do { e' \<leftarrow> (case e of None \<Rightarrow> do { n \<leftarrow> strlen m str; Some (str + n) } | Some a \<Rightarrow> Some a);
          (if isdigit (m (e' - 1))
           then case trailing_scan m str (e' - 1 - str) of
                  Some p \<Rightarrow> do { (v, _) \<leftarrow> simple_strtoul m p 10; Some v }
                | None \<Rightarrow> Some (- 1)
           else Some (- 1)) }"

definition trailing_strtol :: "bytes \<Rightarrow> addr \<Rightarrow> 32 word option" where
  "trailing_strtol m str = trailing_strtoln m str NULL"


section \<open>Digits\<close>

text \<open>\<open>digits base cs\<close>: characters the loop accepts; \<open>number_of\<close> their value.\<close>

definition digit_ok :: "32 word \<Rightarrow> 8 word \<Rightarrow> bool" where
  "digit_ok base c \<longleftrightarrow> isxdigit c \<and> (digit_value c :: 32 word) < base"

definition digit_nat :: "8 word \<Rightarrow> nat" where
  "digit_nat c = (if isdigit c then unat c - 48 else if islower c then unat c - 87 else unat c - 55)"

definition number_of :: "nat \<Rightarrow> 8 word list \<Rightarrow> nat" where
  "number_of base cs = foldl (\<lambda>n c. n * base + digit_nat c) 0 cs"

lemma xdigit_cases:
  assumes "isxdigit c"
  obtains (dec) "isdigit c" "48 \<le> unat c" "unat c \<le> 57"
  | (low) "\<not> isdigit c" "islower c" "97 \<le> unat c" "unat c \<le> 102"
  | (upp) "\<not> isdigit c" "\<not> islower c" "65 \<le> unat c" "unat c \<le> 70"
  using assms by (auto simp: isxdigit_range isdigit_range islower_range)

lemma digit_value_nat: "isxdigit c \<Longrightarrow> digit_value c = of_nat (digit_nat c)"
proof (erule xdigit_cases)
  have u: "ucast d = of_nat (unat d)" for d :: "8 word" by simp
  show "digit_value c = of_nat (digit_nat c)" if "isdigit c" "48 \<le> unat c" "unat c \<le> 57"
    using that unfolding digit_value_def digit_nat_def u by (simp add: of_nat_diff)
  show "digit_value c = of_nat (digit_nat c)" if "\<not> isdigit c" "islower c" "97 \<le> unat c" "unat c \<le> 102"
    using that unfolding digit_value_def digit_nat_def u by (simp add: toupper_unat of_nat_diff)
  show "digit_value c = of_nat (digit_nat c)" if "\<not> isdigit c" "\<not> islower c" "65 \<le> unat c" "unat c \<le> 70"
    using that unfolding digit_value_def digit_nat_def u by (simp add: of_nat_diff)
qed

lemma digit_nat_lt: "isxdigit c \<Longrightarrow> digit_nat c < 16"
  by (erule xdigit_cases) (simp_all add: digit_nat_def)

lemma digit_ok_iff: "digit_ok base c \<longleftrightarrow> isxdigit c \<and> digit_nat c < unat base"
proof (cases "isxdigit c")
  case True
  have "unat (of_nat (digit_nat c) :: 32 word) = digit_nat c"
    using digit_nat_lt [OF True] by (simp add: unat_of_nat)
  with True show ?thesis by (simp add: digit_ok_def digit_value_nat word_less_nat_alt)
qed (simp add: digit_ok_def)

lemma not_digit_zero [simp]: "\<not> digit_ok base 0"
  by (simp add: digit_ok_def isxdigit_range)

lemma strto_loop_eq:
  assumes "bytes_at m p (length cs) = cs" and "list_all (digit_ok base) cs" and "\<not> digit_ok base (m (p + length cs))"
  shows "strto_loop m p base (of_nat n) =
           Some (of_nat (foldl (\<lambda>n c. n * unat base + digit_nat c) n cs), p + length cs)"
  using assms
proof (induction cs arbitrary: p n)
  case Nil
  then show ?case by (subst strto_loop.simps) (auto simp: digit_ok_def)
next
  case (Cons c cs)
  then have c: "m p = c" "digit_ok base c" by auto
  then have x: "isxdigit c" by (simp add: digit_ok_def)
  have ub: "ucast base = of_nat (unat base)" by simp
  have acc: "of_nat n * ucast base + digit_value c = of_nat (n * unat base + digit_nat c)"
    unfolding ub digit_value_nat [OF x] by simp
  show ?case
    using c Cons.IH [of "p + 1" "n * unat base + digit_nat c"] Cons.prems
    by (subst strto_loop.simps) (simp add: digit_ok_def acc del: of_nat_add of_nat_mult)
qed

text \<open>
  How the radix follows from the argument \<^verbatim>\<open>base\<close> and the text: the prefix \<open>pre\<close> is
  skipped and the digits \<open>cs\<close> are read in the radix \<open>b\<close>.
\<close>

definition radix_case :: "32 word \<Rightarrow> 8 word list \<Rightarrow> 8 word list \<Rightarrow> 8 word list \<Rightarrow> 32 word \<Rightarrow> bool" where
  "radix_case base pre cs rest b \<longleftrightarrow>
     (base \<noteq> 0 \<and> base \<noteq> 16 \<and> pre = [] \<and> b = base) \<or>
     ((base = 0 \<or> base = 16) \<and> (pre = [48, 120] \<or> pre = [48, 88]) \<and> b = 16) \<or>
     (base = 16 \<and> pre = [] \<and> hd cs \<noteq> 48 \<and> b = 16) \<or>
     (base = 0 \<and> pre = [] \<and> hd cs \<noteq> 48 \<and> b = 10) \<or>
     (base = 0 \<and> pre = [] \<and> hd cs = 48 \<and> (2 \<le> length cs \<or> rest = []) \<and> b = 8)"

lemma tolower_x: "tolower 120 = 120" "tolower 88 = 120" "tolower 0 = 0"
  by code_simp+

lemma octal_not_x: "digit_ok 8 c \<Longrightarrow> tolower c \<noteq> 120"
proof
  assume "digit_ok 8 c" and t: "tolower c = 120"
  then have x: "isxdigit c" "digit_nat c < 8" by (simp_all add: digit_ok_iff)
  then have "isdigit c" by (cases rule: xdigit_cases) (auto simp: digit_nat_def split: if_splits)
  then have "\<not> isupper c" by (auto simp: isdigit_range isupper_range)
  with t have "c = 120" by (simp add: tolower_def)
  with \<open>isdigit c\<close> show False by (simp add: isdigit_range)
qed

lemma fixup_radix:
  assumes "str_at m p (pre @ cs @ rest)" and "cs \<noteq> []" and "list_all (digit_ok b) cs" and "radix_case base pre cs rest b"
  shows "parse_integer_fixup_radix m p base = (p + length pre, b)"
proof -
  obtain c cs' where cs: "cs = c # cs'" using assms(2) by (cases cs) auto
  have c: "digit_ok b c" using assms(3) cs by simp
  consider (given) "base \<noteq> 0" "base \<noteq> 16" "pre = []" "b = base"
    | (hex) "base = 0 \<or> base = 16" "pre = [48, 120] \<or> pre = [48, 88]" "b = 16"
    | (bare) "base = 16" "pre = []" "c \<noteq> 48" "b = 16"
    | (dec) "base = 0" "pre = []" "c \<noteq> 48" "b = 10"
    | (oct) "base = 0" "pre = []" "c = 48" "2 \<le> length cs \<or> rest = []" "b = 8"
    using assms(4) by (auto simp: radix_case_def cs)
  then show ?thesis
  proof cases
    case hex
    then have "m p = 48" "tolower (m (p + 1)) = 120" "m (p + 2) = c"
      using assms(1) by (auto simp: cs tolower_x)
    with hex c show ?thesis by (auto simp: parse_integer_fixup_radix_def digit_ok_def Let_def)
  next
    case oct
    then have p: "m p = 48" using assms(1) by (simp add: cs)
    have "tolower (m (p + 1)) \<noteq> 120"
    proof (cases cs')
      case Nil
      with oct cs assms(1) show ?thesis by (simp add: tolower_x)
    next
      case (Cons c2 cs2)
      with assms(1,3) oct cs show ?thesis by (auto dest: octal_not_x)
    qed
    with oct p show ?thesis by (simp add: parse_integer_fixup_radix_def)
  qed (use assms(1) cs in \<open>auto simp: parse_integer_fixup_radix_def Let_def\<close>)
qed

text \<open>What the two conversion routines return for a number followed by something else.\<close>

lemma strto_parse:
  assumes "str_at m p (pre @ cs @ rest)" and "cs \<noteq> []" and "list_all (digit_ok b) cs"
    and "rest = [] \<or> \<not> digit_ok b (hd rest)" and "radix_case base pre cs rest b"
  shows "simple_strtoul m p base = Some (of_nat (number_of (unat b) cs), p + length pre + length cs)"
    and "simple_strtoull m p base = Some (of_nat (number_of (unat b) cs), p + length pre + length cs)"
proof -
  have at: "bytes_at m (p + length pre) (length cs) = cs" and r: "str_at m (p + length pre + length cs) rest"
    using assms(1) by (simp_all add: str_at_append)
  have stop: "\<not> digit_ok b (m (p + length pre + length cs))" using r assms(4) by (cases rest) auto
  note fix0 = fixup_radix [OF assms(1,2,3,5)] and loop = strto_loop_eq [OF at assms(3) stop, of 0]
  show "simple_strtoul m p base = Some (of_nat (number_of (unat b) cs), p + length pre + length cs)"
    using loop by (simp add: simple_strtoul_def fix0 number_of_def)
  show "simple_strtoull m p base = Some (of_nat (number_of (unat b) cs), p + length pre + length cs)"
    using loop by (simp add: simple_strtoull_def fix0 number_of_def)
qed


section \<open>Properties\<close>

text \<open>
  C39. \<^verbatim>\<open>simple_strtoul\<close> and \<^verbatim>\<open>simple_strtoull\<close> convert a number: the radix is the argument, or
  found from the prefix \<^verbatim>\<open>0x\<close>, \<^verbatim>\<open>0\<close> or none when it is 0; the digits up to the first character
  that is none are read; the result is their value modulo the width of the type and the end pointer
  stands behind them. \<^verbatim>\<open>strict_strtoul\<close> accepts exactly when nothing or a single newline follows,
  and stores 0 when it does not.
\<close>

theorem strtoul_parses:
  assumes "str_at m p (pre @ cs @ rest)" and "cs \<noteq> []" and "list_all (digit_ok b) cs"
    and "rest = [] \<or> \<not> digit_ok b (hd rest)" and "radix_case base pre cs rest b"
  shows "simple_strtoul m p base = Some (of_nat (number_of (unat b) cs), p + length pre + length cs) \<and>
         simple_strtoull m p base = Some (of_nat (number_of (unat b) cs), p + length pre + length cs) \<and>
         strict_strtoul m p base =
           Some (if rest = [] \<or> rest = [10] then (0, of_nat (number_of (unat b) cs)) else (- EINVAL, 0))"
proof -
  note parse = strto_parse [OF assms]
  have len: "strlen m p = Some (length pre + length cs + length rest)"
    using strlen_eq [OF assms(1)] by simp
  have r: "str_at m (p + length pre + length cs) rest" using assms(1) by (simp add: str_at_append)
  have tail: "m (p + length pre + length cs) = 0 \<longleftrightarrow> rest = []"
    "length rest = 1 \<and> m (p + length pre + length cs) = 10 \<longleftrightarrow> rest = [10]"
    using r by (cases rest; auto simp: length_Suc_conv)+
  have "strict_strtoul m p base =
      Some (if rest = [] \<or> rest = [10] then (0, of_nat (number_of (unat b) cs)) else (- EINVAL, 0))"
    using assms(2) tail by (auto simp: strict_strtoul_def len parse(1))
  with parse show ?thesis by simp
qed

theorem strtoul_parses_witness:
  "simple_strtoul (demo_bytes [''0x1fK'']) 100 0 = Some (31, 104) \<and>
   strict_strtoul (demo_bytes [''0x1fK'']) 100 0 = Some (- EINVAL, 0)"
proof -
  have "str_at (demo_bytes [''0x1fK'']) 100 ([48, 120] @ [49, 102] @ [75])" by code_simp
  moreover have "list_all (digit_ok 16) [49, 102]" by code_simp
  moreover have "[75] = [] \<or> \<not> digit_ok 16 (hd [75])" by code_simp
  moreover have "radix_case 0 [48, 120] [49, 102] [75] 16" by (simp add: radix_case_def)
  ultimately have "simple_strtoul (demo_bytes [''0x1fK'']) 100 0 = Some (of_nat (number_of 16 [49, 102]), 104)"
    and "strict_strtoul (demo_bytes [''0x1fK'']) 100 0 = Some (- EINVAL, 0)"
    using strtoul_parses [of "demo_bytes [''0x1fK'']" 100 "[48, 120]" "[49, 102]" "[75]" 16 0] by simp_all
  moreover have "number_of 16 [49, 102] = 31" by code_simp
  ultimately show ?thesis by simp
qed

text \<open>
  \<^verbatim>\<open>trailing_strtol\<close> reads the digits at the end of a name; a string of digits only has no
  character before them and the loop, which stops before the first character, finds no number.
\<close>

lemma trailing_scan_digits: "list_all isdigit (bytes_at m (str + 1) k) \<Longrightarrow> trailing_scan m str k = NULL"
  by (induction k) (auto simp: bytes_at_snoc simp del: bytes_at_Suc)

lemma trailing_scan_name:
  assumes "\<not> isdigit (m (str + Suc j))" and "list_all isdigit (bytes_at m (str + Suc j + 1) k)"
  shows "trailing_scan m str (Suc j + k) = Some (str + Suc j + 1)"
  using assms(2)
proof (induction k)
  case 0
  then show ?case using assms(1) by simp
next
  case (Suc k)
  then have "isdigit (m (str + Suc (Suc j + k)))" and "list_all isdigit (bytes_at m (str + Suc j + 1) k)"
    by (auto simp: bytes_at_snoc add_ac simp del: bytes_at_Suc)
  with Suc.IH show ?case by simp
qed

lemma trailing_strtol_digits_only:
  assumes "str_at m str cs" and "cs \<noteq> []" and "list_all isdigit cs"
  shows "trailing_strtol m str = Some (- 1)"
proof -
  obtain c cs' where cs: "cs = c # cs'" using assms(2) by (cases cs) auto
  have at: "bytes_at m str (length cs) = cs" using assms(1) by (simp add: str_at_bytes)
  then have tl: "bytes_at m (str + 1) (length cs') = cs'" by (simp add: cs)
  have "m (str + length cs') = (c # cs') ! length cs'"
    using at nth_bytes_at [of "length cs'" "length cs" m str] by (simp add: cs)
  then have "isdigit (m (str + length cs'))" using assms(3) unfolding cs list_all_length by auto
  moreover have "trailing_scan m str (length cs') = NULL"
    using tl assms(3) by (intro trailing_scan_digits) (simp add: cs)
  ultimately show ?thesis
    using strlen_eq [OF assms(1)] by (simp add: trailing_strtol_def trailing_strtoln_def cs)
qed

end
