(* ===== verification/Lib_Div64.thy ===== *)
theory Lib_Div64
  imports RX_Prelude
begin

text \<open>
  Division of 64-bit numbers on the 32-bit machine (\<^verbatim>\<open>lib/div64.c\<close>,
  \<^verbatim>\<open>include/div64.h\<close>, \<^verbatim>\<open>include/rosx/math64.h\<close>): the shift-and-subtract
  routine \<^verbatim>\<open>__div64_32\<close>, the macro \<^verbatim>\<open>do_div\<close> around it and the functions built on them,
  all at their width. The x86 build does not optimise, so \<^verbatim>\<open>__builtin_constant_p\<close> of a variable is
  false and \<^verbatim>\<open>do_div\<close> divides by one of its last two branches. A division by zero is
  \<^term>\<open>None\<close>. Every routine is shown to compute the quotient and the remainder of the
  numbers its arguments stand for.
\<close>

unbundle bit_operations_syntax

section \<open>Definitions\<close>

definition signed_pos :: "64 word \<Rightarrow> bool" where "signed_pos b \<longleftrightarrow> 0 < sint b"

lemma signed_pos_iff: "signed_pos b \<longleftrightarrow> 0 < unat b \<and> unat b < 2 ^ 63"
proof -
  define u where "u = uint b"
  have sint: "sint b = (u + 2 ^ 63) mod 2 ^ 64 - 2 ^ 63"
    by (simp add: u_def sint_uint signed_take_bit_eq_take_bit_shift take_bit_eq_mod)
  have lt: "0 \<le> u" "u < 2 ^ 64" using uint_lt2p [of b] by (simp_all add: u_def)
  have nat: "unat b = nat u" by (simp add: u_def)
  show ?thesis
  proof (cases "u < 2 ^ 63")
    case True
    then have "(u + 2 ^ 63) mod 2 ^ 64 = u + 2 ^ 63" using lt by (intro mod_pos_pos_trivial) simp_all
    with sint have "sint b = u" by simp
    with True lt show ?thesis by (simp add: signed_pos_def nat nat_less_iff)
  next
    case False
    have "(u + 2 ^ 63) mod 2 ^ 64 = (u - 2 ^ 63 + 2 ^ 64) mod 2 ^ 64" by (simp add: add.commute)
    also have "\<dots> = u - 2 ^ 63"
      using False lt by (subst mod_add_self2, intro mod_pos_pos_trivial) simp_all
    finally have "sint b = u - 2 ^ 63 - 2 ^ 63" using sint by simp
    with False lt show ?thesis by (simp add: signed_pos_def nat nat_less_iff)
  qed
qed

lemma unat_half: "unat (drop_bit 1 d) = unat d div 2" for d :: "'a :: len word"
  by (subst unat_drop_bit_eq) (simp add: drop_bit_eq_div)

lemma half_less: "drop_bit 1 d \<noteq> 0 \<Longrightarrow> unat (drop_bit 1 d) < unat d" for d :: "'a :: len word"
proof -
  assume "drop_bit 1 d \<noteq> 0"
  then have "unat (drop_bit 1 d) \<noteq> 0" by (simp only: unat_eq_0 not_False_eq_True)
  then show ?thesis unfolding unat_half by simp
qed

function div64_double :: "64 word \<Rightarrow> 64 word \<Rightarrow> 64 word \<Rightarrow> 64 word \<times> 64 word" where
  "div64_double rem b d =
     (if signed_pos b \<and> b < rem then div64_double rem (b + b) (d + d) else (b, d))"
  by auto
termination
proof (relation "measure (\<lambda>(rem, b, d). 2 ^ 64 - unat b)")
  fix rem b d :: "64 word"
  assume "signed_pos b \<and> b < rem"
  then have "0 < unat b" "unat b < 2 ^ 63" by (simp_all add: signed_pos_iff)
  then show "((rem, b + b, d + d), (rem, b, d)) \<in> measure (\<lambda>(rem, b, d). 2 ^ 64 - unat b)"
    by (simp add: unat_word_ariths)
qed simp

declare div64_double.simps [simp del]

function div64_reduce :: "64 word \<Rightarrow> 64 word \<Rightarrow> 64 word \<Rightarrow> 64 word \<Rightarrow> 64 word \<times> 64 word" where
  "div64_reduce rem res b d =
     (let (rem', res') = (if rem \<ge> b then (rem - b, res + d) else (rem, res));
          b' = drop_bit 1 b; d' = drop_bit 1 d
      in if d' \<noteq> 0 then div64_reduce rem' res' b' d' else (rem', res'))"
  by auto
termination
  by (relation "measure (\<lambda>(rem, res, b, d). unat d)") (simp_all only: wf_measure in_measure split half_less not_False_eq_True)

declare div64_reduce.simps [simp del]

definition div64_32 :: "64 word \<Rightarrow> 32 word \<Rightarrow> (32 word \<times> 64 word) option" where
  "div64_32 n base =
     (let high = (ucast (drop_bit 32 n) :: 32 word)
      in if base \<le> high \<and> base = 0 then None
         else let (res, rem) =
                    (if base \<le> high
                     then (push_bit 32 (ucast (high div base)), n - push_bit 32 (ucast (high div base * base)))
                     else (0, n));
                  (b, d) = div64_double rem (ucast base) 1;
                  (rem', res') = div64_reduce rem res b d
              in Some (ucast rem', res'))"

text \<open>\<open>do_div n base\<close> is the remainder and the new value of \<^verbatim>\<open>n\<close>.\<close>

definition do_div :: "64 word \<Rightarrow> 32 word \<Rightarrow> (32 word \<times> 64 word) option" where
  "do_div n base =
     (if drop_bit 32 n = 0
      then if base = 0 then None else Some (ucast n mod base, ucast ((ucast n :: 32 word) div base))
      else div64_32 n base)"

definition lldiv :: "64 word \<Rightarrow> 32 word \<Rightarrow> 64 word option" where
  "lldiv dividend divisor = do { (_, res) \<leftarrow> do_div dividend divisor; Some res }"

text \<open>The quotient first, the value stored through \<^verbatim>\<open>remainder\<close> second.\<close>

definition div_u64_rem :: "64 word \<Rightarrow> 32 word \<Rightarrow> (64 word \<times> 32 word) option" where
  "div_u64_rem dividend divisor = do { (r, q) \<leftarrow> do_div dividend divisor; Some (q, r) }"

definition div_u64 :: "64 word \<Rightarrow> 32 word \<Rightarrow> 64 word option" where
  "div_u64 dividend divisor = do { (q, _) \<leftarrow> div_u64_rem dividend divisor; Some q }"

text \<open>The macro \<^verbatim>\<open>abs\<close> on a 32-bit and on a 64-bit argument: the latter is cut to an \<^verbatim>\<open>int\<close>.\<close>

definition abs32 :: "32 word \<Rightarrow> 32 word" where
  "abs32 x = (if sint x < 0 then - x else x)"

definition abs_s64 :: "64 word \<Rightarrow> 32 word" where
  "abs_s64 x = (let y = (ucast x :: 32 word) in if sint y < 0 then - y else y)"

definition div_s64_rem :: "64 word \<Rightarrow> 32 word \<Rightarrow> (64 word \<times> 32 word) option" where
  "div_s64_rem dividend divisor =
     (if sint dividend < 0
      then do { (q, r) \<leftarrow> div_u64_rem (- dividend) (abs32 divisor);
                Some (if sint divisor > 0 then - q else q, - r) }
      else do { (q, r) \<leftarrow> div_u64_rem dividend (abs32 divisor);
                Some (if sint divisor < 0 then - q else q, r) })"

definition div_s64 :: "64 word \<Rightarrow> 32 word \<Rightarrow> 64 word option" where
  "div_s64 dividend divisor = do { (q, _) \<leftarrow> div_s64_rem dividend divisor; Some q }"

text \<open>One of the five steps of \<^verbatim>\<open>generic_fls\<close>: none of the top \<open>k\<close> bits is set.\<close>

definition fls_step :: "nat \<Rightarrow> 32 word \<times> nat \<Rightarrow> 32 word \<times> nat" where
  "fls_step k xr = (case xr of (x, r) \<Rightarrow> if x AND NOT (mask (32 - k)) = 0 then (push_bit k x, r - k) else (x, r))"

definition generic_fls :: "32 word \<Rightarrow> nat" where
  "generic_fls x =
     (if x = 0 then 0
      else snd (fls_step 1 (fls_step 2 (fls_step 4 (fls_step 8 (fls_step 16 (x, 32)))))))"

definition div64_u64_rem :: "64 word \<Rightarrow> 64 word \<Rightarrow> (64 word \<times> 64 word) option" where
  "div64_u64_rem dividend divisor =
     (let high = (ucast (drop_bit 32 divisor) :: 32 word)
      in if high = 0
         then do { (quot, rem32) \<leftarrow> div_u64_rem dividend (ucast divisor); Some (quot, ucast rem32) }
         else let n = 1 + generic_fls high
              in do { q \<leftarrow> div_u64 (drop_bit n dividend) (ucast (drop_bit n divisor));
                      let quot = (if q \<noteq> 0 then q - 1 else q);
                      let remainder = dividend - quot * divisor;
                      Some (if remainder \<ge> divisor then (quot + 1, remainder - divisor) else (quot, remainder)) })"

definition div64_u64 :: "64 word \<Rightarrow> 64 word \<Rightarrow> 64 word option" where
  "div64_u64 dividend divisor =
     (let high = (ucast (drop_bit 32 divisor) :: 32 word)
      in if high = 0 then div_u64 dividend (ucast divisor)
         else let n = 1 + generic_fls high
              in do { q \<leftarrow> div_u64 (drop_bit n dividend) (ucast (drop_bit n divisor));
                      let quot = (if q \<noteq> 0 then q - 1 else q);
                      Some (if dividend - quot * divisor \<ge> divisor then quot + 1 else quot) })"

text \<open>
  The \<^verbatim>\<open>long\<close> that \<^verbatim>\<open>abs\<close> returns is widened with its sign. \<open>t\<close> is 0 or \<open>-1\<close>.
\<close>

definition div64_s64 :: "64 word \<Rightarrow> 64 word \<Rightarrow> 64 word option" where
  "div64_s64 dividend divisor =
     do { quot \<leftarrow> div64_u64 (scast (abs_s64 dividend)) (scast (abs_s64 divisor));
          let t = signed_drop_bit 63 (dividend XOR divisor);
          Some ((quot XOR t) - t) }"

text \<open>Repeated subtraction; with a divisor of 0 the loop does not end.\<close>

partial_function (option) iter_div_loop :: "64 word \<Rightarrow> 32 word \<Rightarrow> 32 word \<Rightarrow> (32 word \<times> 64 word) option" where
  "iter_div_loop dividend divisor ret =
     (if dividend \<ge> ucast divisor then iter_div_loop (dividend - ucast divisor) divisor (ret + 1)
      else Some (ret, dividend))"

definition iter_div_u64_rem :: "64 word \<Rightarrow> 32 word \<Rightarrow> (32 word \<times> 64 word) option" where
  "iter_div_u64_rem dividend divisor = iter_div_loop dividend divisor 0"

definition mul_u32_u32 :: "32 word \<Rightarrow> 32 word \<Rightarrow> 64 word" where
  "mul_u32_u32 a b = ucast a * ucast b"

definition mul_u64_u32_shr :: "64 word \<Rightarrow> 32 word \<Rightarrow> nat \<Rightarrow> 64 word" where
  "mul_u64_u32_shr a mul shift =
     (let al = ucast a; ah = ucast (drop_bit 32 a);
          ret = drop_bit shift (mul_u32_u32 al mul)
      in if ah \<noteq> 0 then ret + push_bit (32 - shift) (mul_u32_u32 ah mul) else ret)"

text \<open>The unions that give access to the halves of a 64-bit number.\<close>

definition hi32 :: "64 word \<Rightarrow> 32 word" where "hi32 x = ucast (drop_bit 32 x)"
definition lo32 :: "64 word \<Rightarrow> 32 word" where "lo32 x = ucast x"
definition join32 :: "32 word \<Rightarrow> 32 word \<Rightarrow> 64 word" where "join32 h l = push_bit 32 (ucast h) OR ucast l"

definition mul_u64_u64_shr :: "64 word \<Rightarrow> 64 word \<Rightarrow> nat \<Rightarrow> 64 word" where
  "mul_u64_u64_shr a b shift =
     (let rl = mul_u32_u32 (lo32 a) (lo32 b);
          rm = mul_u32_u32 (lo32 a) (hi32 b);
          rn = mul_u32_u32 (hi32 a) (lo32 b);
          rh = mul_u32_u32 (hi32 a) (hi32 b);
          c = ucast (hi32 rl) + ucast (lo32 rm) + ucast (lo32 rn);
          rl' = join32 (lo32 c) (lo32 rl);
          c' = drop_bit 32 c + ucast (hi32 rm) + ucast (hi32 rn) + ucast (lo32 rh);
          rh' = join32 (hi32 rh) (lo32 c');
          rh'' = join32 (lo32 (drop_bit 32 c' + ucast (hi32 rh'))) (lo32 rh')
      in if shift = 0 then rl'
         else if shift < 64 then drop_bit shift rl' OR push_bit (64 - shift) rh''
         else drop_bit (shift AND 63) rh'')"

definition mul_u64_u32_div :: "64 word \<Rightarrow> 32 word \<Rightarrow> 32 word \<Rightarrow> 64 word option" where
  "mul_u64_u32_div a mul divisor =
     do { let rl = mul_u32_u32 (lo32 a) mul;
          let rh = mul_u32_u32 (hi32 a) mul + ucast (hi32 rl);
          (r, rh') \<leftarrow> do_div rh divisor;
          let rl1 = join32 r (lo32 rl);
          (_, rl2) \<leftarrow> do_div rl1 divisor;
          Some (join32 (lo32 rh') (lo32 rl2)) }"


section \<open>Words as numbers\<close>

lemma less_2p64: "unat (x :: 64 word) < 2 ^ 64"
  using unsigned_less [of x] by simp

lemma less_2p32: "unat (x :: 32 word) < 2 ^ 32"
  using unsigned_less [of x] by simp

lemma unat_hi: "unat (ucast (drop_bit 32 (x :: 64 word)) :: 32 word) = unat x div 2 ^ 32"
proof -
  have "unat x div 2 ^ 32 < 2 ^ 32" using less_2p64 [of x] by (simp add: less_mult_imp_div_less)
  then show ?thesis
    by (subst unsigned_ucast_eq, subst unat_drop_bit_eq) (simp add: drop_bit_eq_div take_bit_nat_eq_self)
qed

lemma unat_lo: "unat (ucast (x :: 64 word) :: 32 word) = unat x mod 2 ^ 32"
  by (simp add: unsigned_ucast_eq take_bit_eq_mod)

lemma unat_up: "unat (ucast (x :: 32 word) :: 64 word) = unat x"
  using less_2p32 [of x] by (simp add: unsigned_ucast_eq take_bit_nat_eq_self)

lemma unat_shl32: "unat (push_bit 32 (ucast (x :: 32 word)) :: 64 word) = unat x * 2 ^ 32"
  using less_2p32 [of x]
  by (simp add: push_bit_eq_mult unat_word_ariths unat_up)

lemma unat_shr: "unat (drop_bit n (x :: 64 word)) = unat x div 2 ^ n"
  by (subst unat_drop_bit_eq) (simp add: drop_bit_eq_div)

lemma unat_add64: "unat (a :: 64 word) + unat b < 2 ^ 64 \<Longrightarrow> unat (a + b) = unat a + unat b"
  by (simp add: unat_word_ariths)

lemma unat_sub64: "unat (b :: 64 word) \<le> unat a \<Longrightarrow> unat (a - b) = unat a - unat b"
  by (simp add: unat_sub word_le_nat_alt)

lemma unat_mul64: "unat (a :: 64 word) * unat b < 2 ^ 64 \<Longrightarrow> unat (a * b) = unat a * unat b"
  by (simp add: unat_word_ariths)

lemmas unat64 = unat_hi unat_lo unat_up unat_shl32 unat_shr


section \<open>Shift and subtract\<close>

lemma div64_double_spec:
  assumes "unat b = B * 2 ^ k" and "unat d = 2 ^ k" and "0 < B"
  shows "\<exists>j. unat (fst (div64_double r b d)) = B * 2 ^ j \<and> unat (snd (div64_double r b d)) = 2 ^ j \<and>
             unat r < 2 * (B * 2 ^ j)"
  using assms
proof (induction r b d arbitrary: k rule: div64_double.induct)
  case (1 r b d)
  show ?case
  proof (cases "signed_pos b \<and> b < r")
    case True
    then have b: "unat b < 2 ^ 63" by (simp add: signed_pos_iff)
    have "2 ^ k \<le> unat b" using 1(2,4) by simp
    then have d: "unat d < 2 ^ 63" using b 1(3) by linarith
    have "unat (b + b) = B * 2 ^ Suc k" using b 1(2) by (subst unat_add64) simp_all
    moreover have "unat (d + d) = 2 ^ Suc k" using d 1(3) by (subst unat_add64) simp_all
    ultimately have "\<exists>j. unat (fst (div64_double r (b + b) (d + d))) = B * 2 ^ j \<and>
        unat (snd (div64_double r (b + b) (d + d))) = 2 ^ j \<and> unat r < 2 * (B * 2 ^ j)"
      by (rule 1(1) [OF True _ _ 1(4)])
    moreover have "div64_double r b d = div64_double r (b + b) (d + d)"
      using True by (subst div64_double.simps) (rule if_P)
    ultimately show ?thesis by simp
  next
    case False
    have "0 < unat b" using 1(2,4) by simp
    with False have "unat r < 2 * unat b"
      using less_2p64 [of r] by (auto simp: signed_pos_iff word_less_nat_alt not_less)
    moreover have "div64_double r b d = (b, d)" using False by (subst div64_double.simps) auto
    ultimately show ?thesis using 1(2,3) by auto
  qed
qed

lemma div64_reduce_spec:
  assumes "unat b = B * 2 ^ k" and "unat d = 2 ^ k" and "0 < B"
    and "unat r < 2 * (B * 2 ^ k)" and "unat q * B + unat r = N" and "N < 2 ^ 64"
  shows "unat (fst (div64_reduce r q b d)) = N mod B \<and> unat (snd (div64_reduce r q b d)) = N div B"
  using assms
proof (induction r q b d arbitrary: k rule: div64_reduce.induct)
  case (1 r q b d)
  define r' where "r' = (if b \<le> r then r - b else r)"
  define q' where "q' = (if b \<le> r then q + d else q)"
  have r': "unat r' < B * 2 ^ k" and sum: "unat q' * B + unat r' = N"
  proof -
    have "b \<le> r \<Longrightarrow> unat q + unat d < 2 ^ 64"
    proof -
      assume "b \<le> r"
      then have "unat b \<le> unat r" by (simp add: word_le_nat_alt)
      then have "B * 2 ^ k \<le> unat r" using 1(2) by simp
      then have "(unat q + unat d) * B \<le> N" using 1(3,6) by (simp add: algebra_simps)
      moreover have "(unat q + unat d) * 1 \<le> (unat q + unat d) * B" using 1(4) by (intro mult_le_mono2) simp
      ultimately show ?thesis using 1(7) by (metis le_less_trans mult_1_right)
    qed
    then have "b \<le> r \<Longrightarrow> unat (q + d) = unat q + unat d" by (rule unat_add64)
    moreover have "b \<le> r \<Longrightarrow> unat (r - b) = unat r - unat b" by (simp add: unat_sub64 word_le_nat_alt)
    ultimately show "unat r' < B * 2 ^ k" and "unat q' * B + unat r' = N"
      using 1(2,3,5,6) by (auto simp: r'_def q'_def word_le_nat_alt not_le algebra_simps)
  qed
  have half: "unat (drop_bit 1 b) = unat b div 2" "unat (drop_bit 1 d) = unat d div 2" by (rule unat_half)+
  have step: "div64_reduce r q b d =
      (if drop_bit 1 d \<noteq> 0 then div64_reduce r' q' (drop_bit 1 b) (drop_bit 1 d) else (r', q'))"
    by (subst div64_reduce.simps) (simp add: r'_def q'_def)
  show ?case
  proof (cases k)
    case 0
    then have "drop_bit 1 d = 0" using 1(3) half(2) by (simp add: unat_eq_0 [symmetric] del: unat_eq_0)
    with step 0 r' sum 1(4) show ?thesis by (auto simp: sum [symmetric])
  next
    case (Suc j)
    then have d: "unat (drop_bit 1 d) = 2 ^ j" and b: "unat (drop_bit 1 b) = B * 2 ^ j"
      using 1(2,3) by (simp_all only: half) simp_all
    then have nz: "drop_bit 1 d \<noteq> 0" by (metis power_not_zero unat_0 zero_neq_numeral)
    have "r' = fst (if b \<le> r then (r - b, q + d) else (r, q))" "q' = snd (if b \<le> r then (r - b, q + d) else (r, q))"
      by (simp_all add: r'_def q'_def)
    then have "unat (fst (div64_reduce r' q' (drop_bit 1 b) (drop_bit 1 d))) = N mod B \<and>
               unat (snd (div64_reduce r' q' (drop_bit 1 b) (drop_bit 1 d))) = N div B"
      using r' Suc nz by (intro 1(1) [OF refl _ refl refl nz b d 1(4) _ sum 1(7)]) (simp_all add: prod_eq_iff)
    with step nz show ?thesis by simp
  qed
qed

lemma div64_32_correct:
  assumes "base \<noteq> 0"
  shows "\<exists>r q. div64_32 n base = Some (r, q) \<and> unat q = unat n div unat base \<and> unat r = unat n mod unat base"
proof -
  define B where "B = unat base"
  define high where "high = (ucast (drop_bit 32 n) :: 32 word)"
  define q0 where "q0 = (if base \<le> high then push_bit 32 (ucast (high div base)) else (0 :: 64 word))"
  define r0 where "r0 = (if base \<le> high then n - push_bit 32 (ucast (high div base * base)) else n)"
  have B: "0 < B" using assms by (simp add: B_def unat_gt_0)
  have uhigh: "unat high = unat n div 2 ^ 32" unfolding high_def by (rule unat_hi)
  have prod: "unat (high div base * base) = unat high div B * B"
  proof -
    have "unat high div B * B < 2 ^ 32"
      using less_2p32 [of high] by (rule le_less_trans [OF div_times_less_eq_dividend])
    then show ?thesis by (simp add: unat_word_ariths(2) unat_div [symmetric] B_def)
  qed
  have le: "unat high div B * B * 2 ^ 32 \<le> unat n"
  proof -
    have "unat high div B * B * 2 ^ 32 \<le> unat high * 2 ^ 32" by (intro mult_le_mono1) simp
    also have "\<dots> \<le> unat n" unfolding uhigh by simp
    finally show ?thesis .
  qed
  have q0: "unat q0 * B + unat r0 = unat n"
  proof (cases "base \<le> high")
    case True
    have "unat r0 = unat n - unat high div B * B * 2 ^ 32"
      using True le by (simp only: r0_def if_True) (subst unat_sub64; simp only: unat_shl32 prod)
    moreover have "unat q0 = unat high div B * 2 ^ 32"
      using True by (simp only: q0_def if_True unat_shl32 unat_div B_def)
    ultimately show ?thesis using le by (simp add: algebra_simps)
  qed (simp add: q0_def r0_def)
  obtain b d where bd: "div64_double r0 (ucast base) 1 = (b, d)" by fastforce
  have "unat (ucast base :: 64 word) = B * 2 ^ 0" "unat (1 :: 64 word) = 2 ^ 0" by (simp_all add: unat_up B_def)
  from div64_double_spec [OF this B, of r0] bd obtain j
    where "unat b = B * 2 ^ j" "unat d = 2 ^ j" "unat r0 < 2 * (B * 2 ^ j)" by auto
  note red = div64_reduce_spec [OF this(1,2) B this(3) q0 less_2p64]
  obtain r q where rq: "div64_reduce r0 q0 b d = (r, q)" by fastforce
  with red have r: "unat r = unat n mod B" and q: "unat q = unat n div B" by simp_all
  have "unat n mod B < 2 ^ 32"
    using B less_2p32 [of base] by (metis B_def less_trans mod_less_divisor)
  then have "unat (ucast r :: 32 word) = unat n mod B" using r by (simp only: unat_lo mod_less)
  moreover have "div64_32 n base = Some (ucast r, q)"
    using assms bd rq unfolding div64_32_def Let_def high_def [symmetric] q0_def r0_def
    by (cases "base \<le> high") simp_all
  ultimately show ?thesis using q by (auto simp: B_def)
qed

lemma do_div_correct:
  assumes "base \<noteq> 0"
  shows "\<exists>r q. do_div n base = Some (r, q) \<and> unat q = unat n div unat base \<and> unat r = unat n mod unat base"
proof (cases "drop_bit 32 n = 0")
  case True
  then have "unat n div 2 ^ 32 = 0" using unat_shr [of 32 n] by (simp only: unat_0)
  then have "unat n < 2 ^ 32" by (simp add: div_eq_0_iff)
  then have lo: "unat (ucast n :: 32 word) = unat n" by (simp only: unat_lo mod_less)
  then show ?thesis using True assms by (simp add: do_div_def unat_up unat_div unat_mod)
next
  case False
  then show ?thesis using div64_32_correct [OF assms, of n] by (simp add: do_div_def)
qed

lemma div_u64_rem_correct:
  assumes "b \<noteq> 0"
  shows "\<exists>q r. div_u64_rem n b = Some (q, r) \<and> unat q = unat n div unat b \<and> unat r = unat n mod unat b"
  using do_div_correct [OF assms, of n] by (auto simp: div_u64_rem_def)

lemma div_u64_correct:
  assumes "b \<noteq> 0"
  shows "\<exists>q. div_u64 n b = Some q \<and> unat q = unat n div unat b"
  using div_u64_rem_correct [OF assms, of n] by (auto simp: div_u64_def)


section \<open>Signed division\<close>

text \<open>Division that rounds towards zero, as C has it, and its remainder.\<close>

definition tdiv :: "int \<Rightarrow> int \<Rightarrow> int" where "tdiv a b = sgn a * sgn b * (\<bar>a\<bar> div \<bar>b\<bar>)"
definition trem :: "int \<Rightarrow> int \<Rightarrow> int" where "trem a b = sgn a * (\<bar>a\<bar> mod \<bar>b\<bar>)"

lemma tdiv_trem: "tdiv a b * b + trem a b = a"
proof -
  define Q R where "Q = \<bar>a\<bar> div \<bar>b\<bar>" and "R = \<bar>a\<bar> mod \<bar>b\<bar>"
  then have "Q * \<bar>b\<bar> + R = \<bar>a\<bar>" by simp
  moreover have "R = 0" if "a = 0" using that by (simp add: R_def)
  ultimately show ?thesis
    unfolding tdiv_def trem_def Q_def [symmetric] R_def [symmetric]
    by (auto simp: sgn_if abs_if split: if_splits)
qed

lemma unat_word_of_int: "0 \<le> k \<Longrightarrow> k < 2 ^ LENGTH('a) \<Longrightarrow> int (unat (word_of_int k :: 'a :: len word)) = k"
  by (simp add: uint_word_of_int mod_pos_pos_trivial)

lemma half_range: "(2 :: int) ^ (LENGTH('a :: len) - 1) < 2 ^ LENGTH('a)"
  by (intro power_strict_increasing) simp_all

lemma unat_neg: "sint (x :: 'a :: len word) < 0 \<Longrightarrow> int (unat (- x)) = - sint x"
proof -
  assume neg: "sint x < 0"
  have "- x = word_of_int (- sint x)" by simp
  moreover have "- sint x < 2 ^ LENGTH('a)" using sint_ge [of x] half_range [where 'a = 'a] by linarith
  ultimately show ?thesis using neg unat_word_of_int [of "- sint x", where 'a = 'a] by simp
qed

lemma unat_nonneg: "0 \<le> sint (x :: 'a :: len word) \<Longrightarrow> int (unat x) = sint x"
proof -
  assume nonneg: "0 \<le> sint x"
  have "sint x < 2 ^ LENGTH('a)" using sint_lt [of x] half_range [where 'a = 'a] by linarith
  then show ?thesis using nonneg unat_word_of_int [of "sint x", where 'a = 'a] by simp
qed

lemma unat_abs32: "int (unat (abs32 x)) = \<bar>sint x\<bar>"
  using unat_neg [of x] unat_nonneg [of x] by (simp add: abs32_def)

lemma of_nat_unat_word: "x = word_of_int (int (unat x))"
  by simp

lemma word_of_unat: "int (unat x) = k \<Longrightarrow> x = word_of_int k"
  by auto

lemma div_s64_rem_correct:
  assumes "d \<noteq> 0"
  shows "div_s64_rem n d = Some (word_of_int (tdiv (sint n) (sint d)), word_of_int (trem (sint n) (sint d)))"
proof -
  have d: "abs32 d \<noteq> 0" using assms by (simp add: abs32_def)
  have sd: "sint d \<noteq> 0" using assms by (metis signed_eq_0_iff)
  define a where "a = (if sint n < 0 then - n else n)"
  have a: "int (unat a) = \<bar>sint n\<bar>" using unat_neg [of n] unat_nonneg [of n] by (simp add: a_def)
  obtain q r where run: "div_u64_rem a (abs32 d) = Some (q, r)"
    and q: "unat q = unat a div unat (abs32 d)" and r: "unat r = unat a mod unat (abs32 d)"
    using div_u64_rem_correct [OF d, of a] by blast
  have q': "q = word_of_int (\<bar>sint n\<bar> div \<bar>sint d\<bar>)"
    by (rule word_of_unat) (simp only: q of_nat_div a unat_abs32)
  have r': "r = word_of_int (\<bar>sint n\<bar> mod \<bar>sint d\<bar>)"
    by (rule word_of_unat) (simp only: r of_nat_mod a unat_abs32)
  consider "sint n < 0" | "sint n = 0" | "0 < sint n" by linarith
  then show ?thesis
  proof cases
    case 1
    with run have "div_s64_rem n d = Some (if sint d > 0 then - q else q, - r)" by (simp add: div_s64_rem_def a_def)
    with 1 sd show ?thesis by (simp add: q' r' tdiv_def trem_def sgn_if)
  next
    case 2
    with run have "div_s64_rem n d = Some (if sint d < 0 then - q else q, r)" by (simp add: div_s64_rem_def a_def)
    with 2 show ?thesis by (simp add: q' r' tdiv_def trem_def)
  next
    case 3
    with run have "div_s64_rem n d = Some (if sint d < 0 then - q else q, r)" by (simp add: div_s64_rem_def a_def)
    with 3 sd show ?thesis by (simp add: q' r' tdiv_def trem_def sgn_if)
  qed
qed


section \<open>Division by a 64-bit number\<close>

lemma and_not_mask_0: "x AND NOT (mask n) = 0 \<longleftrightarrow> unat x < 2 ^ n" for x :: "32 word"
proof -
  have "bit (x AND NOT (mask n)) i \<longleftrightarrow> n \<le> i \<and> bit x i" for i
    using bit_imp_le_length [of x i] by (auto simp: bit_simps)
  then have "x AND NOT (mask n) = 0 \<longleftrightarrow> (\<forall>i\<ge>n. \<not> bit x i)"
    by (metis bit_0_eq bot_apply bot_bool_def bit_word_eqI)
  moreover have "bit (drop_bit n x) i \<longleftrightarrow> bit x (n + i)" for i by (simp add: bit_drop_bit_eq)
  then have "drop_bit n x = 0 \<longleftrightarrow> (\<forall>i\<ge>n. \<not> bit x i)"
    by (metis bit_0_eq bot_apply bot_bool_def bit_word_eqI le_iff_add)
  moreover have "drop_bit n x = 0 \<longleftrightarrow> unat x div 2 ^ n = 0"
    using unat_drop_bit_eq [of n x] by (metis drop_bit_eq_div unat_eq_0)
  ultimately show ?thesis by (simp add: div_eq_0_iff)
qed

lemma fls_step_spec:
  assumes "fls_step k (x, r) = (x', r')" and "unat x = unat z * 2 ^ (32 - r)" and "r \<le> 32" and "k \<le> r"
    and "2 ^ (32 - 2 * k) \<le> unat x" and "0 < k" "k \<le> 16" and "0 < unat z"
  shows "unat x' = unat z * 2 ^ (32 - r') \<and> r' \<le> 32 \<and> r - k \<le> r' \<and> 2 ^ (32 - k) \<le> unat x'"
proof (cases "unat x < 2 ^ (32 - k)")
  case True
  then have x': "x' = push_bit k x" "r' = r - k" using assms(1) by (simp_all add: fls_step_def and_not_mask_0)
  have "unat x * 2 ^ k < 2 ^ (32 - k) * 2 ^ k" using True by simp
  also have "\<dots> = 2 ^ 32" using assms(7) by (simp add: power_add [symmetric])
  finally have ux: "unat x' = unat x * 2 ^ k"
    unfolding x' unsigned_push_bit_eq by (simp add: push_bit_eq_mult take_bit_nat_eq_self)
  have "2 ^ (32 - k) = 2 ^ (32 - 2 * k) * (2 :: nat) ^ k" using assms(7) by (simp add: power_add [symmetric])
  also have "\<dots> \<le> unat x * 2 ^ k" using assms(5) by (rule mult_le_mono1)
  finally have "2 ^ (32 - k) \<le> unat x'" using ux by simp
  moreover have "unat x' = unat z * 2 ^ (32 - r')"
    unfolding ux assms(2) x'(2) using assms(3,4) by (simp add: power_add [symmetric])
  ultimately show ?thesis using x' assms(3) by simp
next
  case False
  then have "x' = x" "r' = r" using assms(1) by (simp_all add: fls_step_def and_not_mask_0)
  with False assms(2,3) show ?thesis by simp
qed

lemma generic_fls_spec:
  assumes "z \<noteq> 0"
  shows "1 \<le> generic_fls z \<and> generic_fls z \<le> 32 \<and> 2 ^ (generic_fls z - 1) \<le> unat z \<and> unat z < 2 ^ generic_fls z"
proof -
  have z: "0 < unat z" using assms by (simp add: unat_gt_0)
  obtain x1 r1 where s1: "fls_step 16 (z, 32) = (x1, r1)" by fastforce
  obtain x2 r2 where s2: "fls_step 8 (x1, r1) = (x2, r2)" by fastforce
  obtain x3 r3 where s3: "fls_step 4 (x2, r2) = (x3, r3)" by fastforce
  obtain x4 r4 where s4: "fls_step 2 (x3, r3) = (x4, r4)" by fastforce
  obtain x5 r5 where s5: "fls_step 1 (x4, r4) = (x5, r5)" by fastforce
  have 1: "unat x1 = unat z * 2 ^ (32 - r1) \<and> r1 \<le> 32 \<and> 32 - 16 \<le> r1 \<and> 2 ^ (32 - 16) \<le> unat x1"
    using z by (intro fls_step_spec [OF s1]) simp_all
  have 2: "unat x2 = unat z * 2 ^ (32 - r2) \<and> r2 \<le> 32 \<and> r1 - 8 \<le> r2 \<and> 2 ^ (32 - 8) \<le> unat x2"
    using z 1 by (intro fls_step_spec [OF s2]) simp_all
  have r2: "8 \<le> r2" using 1 2 by linarith
  have 3: "unat x3 = unat z * 2 ^ (32 - r3) \<and> r3 \<le> 32 \<and> r2 - 4 \<le> r3 \<and> 2 ^ (32 - 4) \<le> unat x3"
    using z 2 r2 by (intro fls_step_spec [OF s3]) simp_all
  have r3: "4 \<le> r3" using r2 3 by linarith
  have 4: "unat x4 = unat z * 2 ^ (32 - r4) \<and> r4 \<le> 32 \<and> r3 - 2 \<le> r4 \<and> 2 ^ (32 - 2) \<le> unat x4"
    using z 3 r3 by (intro fls_step_spec [OF s4]) simp_all
  have r4: "2 \<le> r4" using r3 4 by linarith
  have 5: "unat x5 = unat z * 2 ^ (32 - r5) \<and> r5 \<le> 32 \<and> r4 - 1 \<le> r5 \<and> 2 ^ (32 - 1) \<le> unat x5"
    using z 4 r4 by (intro fls_step_spec [OF s5]) simp_all
  have r5: "generic_fls z = r5" using assms s1 s2 s3 s4 s5 by (simp add: generic_fls_def)
  have ge: "1 \<le> r5" using r4 5 by linarith
  have "2 ^ (r5 - 1) * 2 ^ (32 - r5) = (2 :: nat) ^ 31" using ge 5 by (simp add: power_add [symmetric])
  also have "\<dots> \<le> unat z * 2 ^ (32 - r5)" using 5 by simp
  finally have "2 ^ (r5 - 1) \<le> unat z" by simp
  moreover have "unat z * 2 ^ (32 - r5) < 2 ^ r5 * 2 ^ (32 - r5)"
    using 5 less_2p32 [of x5] by (simp add: power_add [symmetric])
  ultimately show ?thesis using r5 ge 5 by simp
qed

text \<open>
  The estimate: with \<open>n\<close> bits dropped from both numbers, the quotient of what is left is at
  least the true quotient, and at most one more when it does not exceed the shortened divisor.
\<close>

lemma quotient_estimate:
  fixes u v :: nat
  assumes "0 < v div 2 ^ n" and "u div 2 ^ n div (v div 2 ^ n) \<le> v div 2 ^ n + 1"
  shows "u div v \<le> u div 2 ^ n div (v div 2 ^ n)" and "u div 2 ^ n div (v div 2 ^ n) \<le> u div v + 1"
proof -
  define p u1 v1 q1 where "p = (2 :: nat) ^ n" and "u1 = u div 2 ^ n" and "v1 = v div 2 ^ n" and "q1 = u1 div v1"
  have p: "0 < p" by (simp add: p_def)
  have u: "u1 * p \<le> u" "u < (u1 + 1) * p" using p by (simp_all add: u1_def p_def dividend_less_div_times add.commute)
  have v: "v1 * p \<le> v" "v < (v1 + 1) * p" using p by (simp_all add: v1_def p_def dividend_less_div_times add.commute)
  have v1: "0 < v1" using assms(1) by (simp add: v1_def)
  then have vpos: "0 < v" using v p by (metis gr_zeroI mult_is_0 not_le)
  have "u div v * v1 * p \<le> u div v * v" using v(1) by (simp add: mult.assoc)
  also have "\<dots> \<le> u" by simp
  also have "\<dots> < (u1 + 1) * p" by (rule u(2))
  finally have "u div v * v1 < u1 + 1" by (simp only: mult_less_cancel2)
  then have "u div v * v1 \<le> u1" by simp
  then have "u div v \<le> q1" using v1 by (simp add: q1_def less_eq_div_iff_mult_less_eq)
  then show "u div v \<le> u div 2 ^ n div (v div 2 ^ n)" by (simp add: q1_def u1_def v1_def)
  have "q1 \<le> u div v + 1"
  proof (cases q1)
    case (Suc q0)
    have "q0 * v \<le> q0 * ((v1 + 1) * p)" using v(2) by (intro mult_le_mono2) simp
    also have "\<dots> = (q0 * v1 + q0) * p" by (simp add: algebra_simps)
    also have "\<dots> \<le> (q1 * v1) * p"
    proof (rule mult_le_mono1)
      have "q0 \<le> v1" using assms(2) Suc by (simp add: q1_def u1_def v1_def)
      then show "q0 * v1 + q0 \<le> q1 * v1" using Suc by simp
    qed
    also have "\<dots> \<le> u1 * p" by (intro mult_le_mono1) (simp add: q1_def)
    also have "\<dots> \<le> u" by (rule u(1))
    finally have "q0 \<le> u div v" using vpos by (simp add: less_eq_div_iff_mult_less_eq)
    with Suc show ?thesis by simp
  qed simp
  then show "u div 2 ^ n div (v div 2 ^ n) \<le> u div v + 1" by (simp add: q1_def u1_def v1_def)
qed

text \<open>The correction by one, in words.\<close>

lemma correct_quotient:
  fixes u v q :: "64 word"
  assumes "unat u div unat v \<le> unat q" and "unat q \<le> unat u div unat v + 1" and "0 < unat v"
  defines "q' \<equiv> if q \<noteq> 0 then q - 1 else q"
  shows "unat (if v \<le> u - q' * v then q' + 1 else q') = unat u div unat v"
    and "unat (if v \<le> u - q' * v then u - q' * v - v else u - q' * v) = unat u mod unat v"
proof -
  define Q where "Q = unat u div unat v"
  have q': "unat q' \<le> Q" "Q \<le> unat q' + 1"
    using assms(1,2) by (auto simp: q'_def Q_def [symmetric] unat_sub unat_gt_0 word_le_nat_alt unat_eq_0 Suc_le_eq)
  have le: "unat q' * unat v \<le> unat u"
    by (rule le_trans [OF mult_le_mono1 [OF q'(1)]]) (simp add: Q_def)
  have mul: "unat (q' * v) = unat q' * unat v" using le less_2p64 [of u] by (intro unat_mul64) linarith
  have rem: "unat (u - q' * v) = unat u - unat q' * unat v" using le mul by (simp add: unat_sub64)
  have uQ: "unat u = Q * unat v + unat u mod unat v" by (simp add: Q_def)
  have lt: "unat u mod unat v < unat v" using assms(3) by simp
  consider "unat q' = Q" | "Q = unat q' + 1" using q' by linarith
  then have *: "unat (if v \<le> u - q' * v then q' + 1 else q') = Q \<and>
     unat (if v \<le> u - q' * v then u - q' * v - v else u - q' * v) = unat u mod unat v"
  proof cases
    case 1
    then have "unat (u - q' * v) = unat u mod unat v" using rem uQ by simp
    then have "\<not> v \<le> u - q' * v" using lt by (simp add: word_le_nat_alt)
    with 1 \<open>unat (u - q' * v) = unat u mod unat v\<close> show ?thesis by simp
  next
    case 2
    then have r: "unat (u - q' * v) = unat v + unat u mod unat v" using rem uQ by (simp add: algebra_simps)
    then have ge: "v \<le> u - q' * v" by (simp add: word_le_nat_alt)
    have "unat q' + 1 < 2 ^ 64" using 2 less_2p64 [of u] div_le_dividend [of "unat u" "unat v"] by (simp add: Q_def)
    then have "unat (q' + 1) = Q" using 2 unat_add64 [of q' 1] by simp
    moreover have "unat (u - q' * v - v) = unat u mod unat v" using r by (simp add: unat_sub64)
    ultimately show ?thesis using ge by simp
  qed
  from * show "unat (if v \<le> u - q' * v then q' + 1 else q') = unat u div unat v" by (simp add: Q_def)
  from * show "unat (if v \<le> u - q' * v then u - q' * v - v else u - q' * v) = unat u mod unat v" by simp
qed

text \<open>Where the estimate is good enough.\<close>

definition div64_safe :: "64 word \<Rightarrow> 64 word \<Rightarrow> bool" where
  "div64_safe u v \<longleftrightarrow> unat u < 2 ^ 62 \<or> unat v < 2 ^ 32 \<or> 2 ^ 34 \<le> unat v"

lemma div64_shifted:
  assumes "unat v div 2 ^ 32 \<noteq> 0" and safe: "div64_safe u v"
  defines "n \<equiv> 1 + generic_fls (ucast (drop_bit 32 v))"
  shows "\<exists>q. div_u64 (drop_bit n u) (ucast (drop_bit n v)) = Some q \<and>
             unat u div unat v \<le> unat q \<and> unat q \<le> unat u div unat v + 1"
proof -
  define h where "h = (ucast (drop_bit 32 v) :: 32 word)"
  define k where "k = generic_fls h"
  have uh: "unat h = unat v div 2 ^ 32" unfolding h_def by (rule unat_hi)
  then have "h \<noteq> 0" using assms(1) by (metis unat_0)
  from generic_fls_spec [OF this] have k: "1 \<le> k" "k \<le> 32" "2 ^ (k - 1) \<le> unat h" "unat h < 2 ^ k"
    by (simp_all add: k_def)
  have n: "n = k + 1" by (simp add: n_def k_def h_def)
  have v_lo: "2 ^ (k + 31) \<le> unat v"
  proof -
    have "2 ^ (k + 31) = 2 ^ (k - 1) * (2 :: nat) ^ 32" using k(1) by (simp only: power_add [symmetric]) simp
    also have "\<dots> \<le> unat h * 2 ^ 32" using k(3) by (rule mult_le_mono1)
    also have "\<dots> \<le> unat v" unfolding uh by simp
    finally show ?thesis .
  qed
  have v_hi: "unat v < 2 ^ (k + 32)"
  proof -
    have "unat v < (unat h + 1) * 2 ^ 32" unfolding uh by (simp add: dividend_less_div_times add.commute)
    also have "\<dots> \<le> 2 ^ k * 2 ^ 32" using k(4) by (intro mult_le_mono1) simp
    finally show ?thesis by (simp add: power_add)
  qed
  have v1_lo: "2 ^ 30 \<le> unat v div 2 ^ n"
    using v_lo n by (simp add: less_eq_div_iff_mult_less_eq power_add)
  have v1_hi: "unat v div 2 ^ n < 2 ^ 32"
    using v_hi n by (simp add: div_less_iff_less_mult power_add)
  have u1: "unat u div 2 ^ n < 2 ^ 60"
  proof (cases "unat u < 2 ^ 62")
    case True
    have "(2 :: nat) ^ 2 \<le> 2 ^ n" using n k(1) by (intro power_increasing) simp_all
    then have "unat u div 2 ^ n \<le> unat u div 2 ^ 2" by (intro div_le_mono2) simp_all
    with True show ?thesis by simp
  next
    case False
    have "\<not> unat v < 2 ^ 32" using assms(1) by (metis div_less)
    with False safe have "2 ^ 34 < (2 :: nat) ^ (k + 32)" using v_hi unfolding div64_safe_def by linarith
    then have "34 < k + 32" by (rule power_less_imp_less_exp [rotated]) simp
    then have "(2 :: nat) ^ 4 \<le> 2 ^ n" using n by (intro power_increasing) simp_all
    then have "unat u div 2 ^ n \<le> unat u div 2 ^ 4" by (intro div_le_mono2) simp_all
    with less_2p64 [of u] show ?thesis by simp
  qed
  have v1: "unat (ucast (drop_bit n v) :: 32 word) = unat v div 2 ^ n"
    using v1_hi by (simp only: unat_lo unat_shr mod_less)
  then have nz: "(ucast (drop_bit n v) :: 32 word) \<noteq> 0" using v1_lo by (metis not_numeral_le_zero unat_0 le_zero_eq power_not_zero zero_neq_numeral)
  from div_u64_correct [OF nz, of "drop_bit n u"] obtain q where
    run: "div_u64 (drop_bit n u) (ucast (drop_bit n v)) = Some q" and q: "unat q = unat u div 2 ^ n div (unat v div 2 ^ n)"
    unfolding v1 unat_shr by blast
  have "unat u div 2 ^ n < 2 ^ 30 * (unat v div 2 ^ n)" using u1 v1_lo by simp
  then have "unat u div 2 ^ n div (unat v div 2 ^ n) < 2 ^ 30" using v1_lo by (subst div_less_iff_less_mult) simp_all
  then have "unat u div 2 ^ n div (unat v div 2 ^ n) \<le> unat v div 2 ^ n + 1" using v1_lo by linarith
  from quotient_estimate [OF _ this] v1_lo run q show ?thesis by auto
qed

lemma div64_u64_rem_correct:
  assumes "v \<noteq> 0" and "div64_safe u v"
  shows "\<exists>q r. div64_u64_rem u v = Some (q, r) \<and> unat q = unat u div unat v \<and> unat r = unat u mod unat v"
proof (cases "unat v div 2 ^ 32 = 0")
  case True
  then have high: "(ucast (drop_bit 32 v) :: 32 word) = 0" using unat_hi [of v] by (metis unat_eq_0)
  from True have "unat v < 2 ^ 32" by (simp add: div_eq_0_iff)
  then have lo: "unat (ucast v :: 32 word) = unat v" by (simp only: unat_lo mod_less)
  then have "(ucast v :: 32 word) \<noteq> 0" using assms(1) by (metis unat_eq_0)
  from div_u64_rem_correct [OF this, of u] lo high show ?thesis by (auto simp: div64_u64_rem_def unat_up)
next
  case False
  then have high: "(ucast (drop_bit 32 v) :: 32 word) \<noteq> 0" using unat_hi [of v] by (metis unat_0)
  obtain q where run: "div_u64 (drop_bit (1 + generic_fls (ucast (drop_bit 32 v))) u)
        (ucast (drop_bit (1 + generic_fls (ucast (drop_bit 32 v))) v)) = Some q"
    and q: "unat u div unat v \<le> unat q" "unat q \<le> unat u div unat v + 1"
    using div64_shifted [OF False assms(2)] by blast
  have pos: "0 < unat v" using assms(1) by (simp add: unat_gt_0)
  note corr = correct_quotient [OF q pos]
  define q' where "q' = (if q \<noteq> 0 then q - 1 else q)"
  have "div64_u64_rem u v = Some (if v \<le> u - q' * v then q' + 1 else q',
      if v \<le> u - q' * v then u - q' * v - v else u - q' * v)"
    using high run unfolding div64_u64_rem_def Let_def q'_def by simp
  then show ?thesis using corr unfolding q'_def [symmetric] by blast
qed

text \<open>\<^verbatim>\<open>div64_u64\<close> is \<^verbatim>\<open>div64_u64_rem\<close> without the remainder.\<close>

lemma div64_u64_rem_quot: "div64_u64 u v = map_option fst (div64_u64_rem u v)"
proof (cases "(ucast (drop_bit 32 v) :: 32 word) = 0")
  case True
  then show ?thesis
    by (auto simp: div64_u64_def div64_u64_rem_def div_u64_def Let_def split: option.split bind_splits)
next
  case False
  then show ?thesis
    unfolding div64_u64_def div64_u64_rem_def Let_def
    by (cases "div_u64 (drop_bit (1 + generic_fls (ucast (drop_bit 32 v))) u)
          (ucast (drop_bit (1 + generic_fls (ucast (drop_bit 32 v))) v))") simp_all
qed


section \<open>Products of 96 and 128 bits\<close>

lemma unat_mul32: "unat (mul_u32_u32 a b) = unat a * unat b"
proof -
  have "unat a * unat b < 2 ^ 32 * 2 ^ 32" by (intro mult_strict_mono less_2p32) simp_all
  then show ?thesis unfolding mul_u32_u32_def by (subst unat_mul64) (simp_all add: unat_up)
qed

lemma unat_halves: "unat (hi32 x) = unat x div 4294967296" "unat (lo32 x) = unat x mod 4294967296"
  using unat_hi [of x] unat_lo [of x] by (simp_all add: hi32_def lo32_def)

lemma unat_join: "unat (join32 h l) = unat h * 4294967296 + unat l"
proof -
  have "push_bit 32 (ucast h) AND ucast l = (0 :: 64 word)"
    by (rule bit_word_eqI) (auto simp: bit_simps dest: bit_imp_le_length)
  then have "join32 h l = push_bit 32 (ucast h) + ucast l"
    by (simp only: join32_def disjunctive_add_eq_or)
  moreover have "unat h * 2 ^ 32 + unat l < 2 ^ 64" using less_2p32 [of h] less_2p32 [of l] by simp
  ultimately show ?thesis by (simp add: unat_add64 unat_shl32 unat_up)
qed

lemma halves_lt: "unat (hi32 x) < 4294967296" "unat (lo32 x) < 4294967296"
  using less_2p32 by simp_all

lemma of_unat_mod: "unat (x :: 64 word) = n mod 2 ^ 64 \<Longrightarrow> x = of_nat n"
  by (simp add: word_unat_eq_iff unat_of_nat)

lemma of_unat: "unat x = n \<Longrightarrow> x = of_nat n"
  by auto

lemma mul_u64_u32_shr_correct:
  assumes "s \<le> 32"
  shows "mul_u64_u32_shr a m s = of_nat (unat a * unat m div 2 ^ s)"
proof -
  define al ah where "al = unat a mod 2 ^ 32" and "ah = unat a div 2 ^ 32"
  have a: "unat a = ah * 2 ^ 32 + al" by (simp add: al_def ah_def)
  have lo: "unat (mul_u32_u32 (ucast a) m) = al * unat m" by (simp only: unat_mul32 unat_lo al_def)
  have hi: "unat (mul_u32_u32 (ucast (drop_bit 32 a)) m) = ah * unat m" by (simp only: unat_mul32 unat_hi ah_def)
  have "unat a * unat m = ah * unat m * 2 ^ (32 - s) * 2 ^ s + al * unat m"
    using assms by (simp add: a mult.assoc power_add [symmetric]) (simp add: algebra_simps)
  then have "unat a * unat m div 2 ^ s = al * unat m div 2 ^ s + ah * unat m * 2 ^ (32 - s)" by simp
  moreover have "drop_bit s (mul_u32_u32 (ucast a) m) = of_nat (al * unat m div 2 ^ s)"
    by (rule of_unat) (simp only: unat_shr lo)
  moreover have "push_bit (32 - s) (mul_u32_u32 (ucast (drop_bit 32 a)) m) = of_nat (ah * unat m * 2 ^ (32 - s))"
    using of_unat [OF hi] by (simp add: push_bit_eq_mult)
  moreover have "ah = 0" if "(ucast (drop_bit 32 a) :: 32 word) = 0"
    using that unat_hi [of a] by (simp add: ah_def)
  ultimately show ?thesis by (auto simp: mul_u64_u32_shr_def Let_def)
qed

lemma mul_u64_u32_div_correct:
  assumes "d \<noteq> 0"
  shows "mul_u64_u32_div a m d = Some (of_nat (unat a * unat m div unat d))"
proof -
  define X :: nat where "X = 4294967296"
  define rl where "rl = mul_u32_u32 (lo32 a) m"
  define rh where "rh = mul_u32_u32 (hi32 a) m + ucast (hi32 rl)"
  have d: "0 < unat d" using assms by (simp add: unat_gt_0)
  define A1 A0 where "A1 = unat a div X" and "A0 = unat a mod X"
  have a: "unat a = A1 * X + A0" by (simp add: A1_def A0_def)
  have rl: "unat rl = A0 * unat m" by (simp add: rl_def unat_mul32 unat_halves X_def A0_def)
  have "unat (hi32 a) * unat m + unat (hi32 rl) < 2 ^ 64"
  proof -
    have "unat (hi32 a) * unat m \<le> (2 ^ 32 - 1) * (2 ^ 32 - 1)"
      using less_2p32 [of m] less_2p32 [of "hi32 a"] by (intro mult_le_mono) simp_all
    with less_2p32 [of "hi32 rl"] show ?thesis by simp
  qed
  then have rh: "unat rh = A1 * unat m + unat rl div X"
    unfolding rh_def by (subst unat_add64) (simp_all add: unat_mul32 unat_up unat_halves X_def A1_def)
  have total: "unat a * unat m = unat rh * X + unat rl mod X"
  proof -
    have "unat a * unat m = A1 * unat m * X + unat rl" by (simp only: a rl) (simp add: algebra_simps)
    also have "\<dots> = A1 * unat m * X + (unat rl div X * X + unat rl mod X)" by simp
    finally show ?thesis by (simp only: rh add_mult_distrib add.assoc)
  qed
  obtain r rh' where step1: "do_div rh d = Some (r, rh')"
    and rh': "unat rh' = unat rh div unat d" and r: "unat r = unat rh mod unat d"
    using do_div_correct [OF assms, of rh] by blast
  define rl1 where "rl1 = join32 r (lo32 rl)"
  have rl1: "unat rl1 = unat r * X + unat rl mod X" by (simp add: rl1_def unat_join unat_halves X_def)
  obtain r2 rl2 where step2: "do_div rl1 d = Some (r2, rl2)" and rl2: "unat rl2 = unat rl1 div unat d"
    using do_div_correct [OF assms, of rl1] by blast
  have "unat rl1 < unat d * X"
  proof -
    have "unat r * X + unat rl mod X < (unat r + 1) * X" by (simp add: X_def)
    also have "\<dots> \<le> unat d * X" using r d by (intro mult_le_mono1) (simp add: Suc_le_eq)
    finally show ?thesis using rl1 by simp
  qed
  then have small: "unat rl2 < X" using rl2 d by (simp add: div_less_iff_less_mult mult.commute)
  have "unat a * unat m = (unat rh' * X) * unat d + unat rl1"
  proof -
    have "unat rh = unat rh' * unat d + unat r" using rh' r by simp
    then show ?thesis unfolding total rl1 by (simp add: algebra_simps)
  qed
  then have q: "unat a * unat m div unat d = unat rh' * X + unat rl2" using rl2 d by simp
  have "join32 (lo32 rh') (lo32 rl2) = of_nat (unat rh' * X + unat rl2)"
  proof -
    have "unat (join32 (lo32 rh') (lo32 rl2)) = (unat rh' * X + unat rl2) mod 2 ^ 64"
    proof -
      have "(unat rh' * X + unat rl2) mod (X * X) = (unat rh' mod X) * X + unat rl2"
        using small by (subst mod_mult2_eq) (simp add: mult.commute)
      then show ?thesis using small by (simp add: unat_join unat_halves X_def)
    qed
    then show ?thesis by (rule of_unat_mod)
  qed
  then show ?thesis
    using step1 step2 q unfolding mul_u64_u32_div_def Let_def rl_def [symmetric] rh_def [symmetric] rl1_def
    by simp
qed

text \<open>The carries of the 128-bit product: with all parts below \<open>2\<^sup>32\<close>, the two words make up the product.\<close>

lemma product_carries:
  fixes X :: nat
  assumes "rl = l1 * X + l0" and "rm = m1 * X + m0" and "rn = n1 * X + n0" and "rh = h1 * X + h0"
    and "l1 + m0 + n0 = c1 * X + c0" and "c1 + m1 + n1 + h0 = d1 * X + d0"
  shows "rl + (rm + rn) * X + rh * X * X = ((d1 + h1) * X + d0) * X * X + (c0 * X + l0)"
proof -
  have "rl + (rm + rn) * X + rh * X * X = l0 + (l1 + m0 + n0) * X + (m1 + n1 + h0) * (X * X) + h1 * (X * X * X)"
    by (simp only: assms(1-4)) (simp add: algebra_simps)
  also have "\<dots> = l0 + c0 * X + (c1 + m1 + n1 + h0) * (X * X) + h1 * (X * X * X)"
    by (simp only: assms(5)) (simp add: algebra_simps)
  also have "\<dots> = ((d1 + h1) * X + d0) * X * X + (c0 * X + l0)"
    by (simp only: assms(6)) (simp add: algebra_simps)
  finally show ?thesis .
qed

lemma shift_128:
  fixes hi lo :: "64 word"
  assumes "s < 128"
  shows "(if s = 0 then lo else if s < 64 then drop_bit s lo OR push_bit (64 - s) hi else drop_bit (s AND 63) hi)
           = of_nat ((unat hi * 2 ^ 64 + unat lo) div 2 ^ s)"
proof -
  consider "s = 0" | "0 < s" "s < 64" | "64 \<le> s" by linarith
  then show ?thesis
  proof cases
    case 1
    have "unat lo = (unat hi * 2 ^ 64 + unat lo) div 2 ^ 0 mod 2 ^ 64" using less_2p64 [of lo] by simp
    then show ?thesis unfolding 1 if_P [OF refl] by (rule of_unat_mod)
  next
    case 2
    have e: "unat hi * 2 ^ 64 = unat hi * 2 ^ (64 - s) * 2 ^ s" using 2 by (simp add: mult.assoc power_add [symmetric])
    have "(unat hi * 2 ^ 64 + unat lo) div 2 ^ s = unat hi * 2 ^ (64 - s) + unat lo div 2 ^ s" unfolding e by simp
    then have "of_nat ((unat hi * 2 ^ 64 + unat lo) div 2 ^ s) = push_bit (64 - s) hi + drop_bit s lo"
      using of_unat [OF unat_shr [of s lo]] by (simp add: push_bit_eq_mult)
    moreover have "push_bit (64 - s) hi AND drop_bit s lo = 0"
      by (rule bit_word_eqI) (auto simp: bit_simps dest: bit_imp_le_length)
    ultimately show ?thesis using 2 by (simp add: disjunctive_add_eq_or or.commute)
  next
    case 3
    have "s AND 63 = s mod 64"
      using take_bit_eq_mask [of 6 s] by (simp add: take_bit_eq_mod mask_eq_exp_minus_1)
    also have "\<dots> = s - 64" using 3 assms by (simp add: mod_if)
    finally have sh: "s AND 63 = s - 64" .
    have "(2 :: nat) ^ s = 2 ^ 64 * 2 ^ (s - 64)" using 3 by (metis le_add_diff_inverse power_add)
    then have "(unat hi * 2 ^ 64 + unat lo) div 2 ^ s = (unat hi * 2 ^ 64 + unat lo) div 2 ^ 64 div 2 ^ (s - 64)"
      by (simp only: div_mult2_eq)
    also have "(unat hi * 2 ^ 64 + unat lo) div 2 ^ 64 = unat hi" using less_2p64 [of lo] by simp
    finally show ?thesis using 3 sh of_unat [OF unat_shr [of "s - 64" hi]] by simp
  qed
qed

lemma mul_u64_u64_shr_correct:
  assumes "s < 128"
  shows "mul_u64_u64_shr a b s = of_nat (unat a * unat b div 2 ^ s)"
proof -
  define X :: nat where "X = 4294967296"
  define rl where "rl = mul_u32_u32 (lo32 a) (lo32 b)"
  define rm where "rm = mul_u32_u32 (lo32 a) (hi32 b)"
  define rn where "rn = mul_u32_u32 (hi32 a) (lo32 b)"
  define rh where "rh = mul_u32_u32 (hi32 a) (hi32 b)"
  define c :: "64 word" where "c = ucast (hi32 rl) + ucast (lo32 rm) + ucast (lo32 rn)"
  define rl' where "rl' = join32 (lo32 c) (lo32 rl)"
  define c' :: "64 word" where "c' = drop_bit 32 c + ucast (hi32 rm) + ucast (hi32 rn) + ucast (lo32 rh)"
  define rh' where "rh' = join32 (hi32 rh) (lo32 c')"
  define rh'' where "rh'' = join32 (lo32 (drop_bit 32 c' + ucast (hi32 rh'))) (lo32 rh')"
  note lt = halves_lt [where x = rl] halves_lt [where x = rm] halves_lt [where x = rn] halves_lt [where x = rh]
  have uc: "unat c = unat rl div X + unat rm mod X + unat rn mod X"
    using lt unfolding c_def by (subst unat_add64, subst unat_add64) (simp_all add: unat_up unat_add64 unat_halves X_def)
  have "unat rl div X < X" using lt by (simp add: unat_halves X_def)
  moreover have "unat rm mod X < X" "unat rn mod X < X" by (simp_all add: X_def)
  ultimately have "unat c < 4 * X" using uc by linarith
  then have c_lt: "unat c div X < 4" by (simp add: div_less_iff_less_mult X_def)
  have uc': "unat c' = unat c div X + unat rm div X + unat rn div X + unat rh mod X"
  proof -
    have d: "unat (drop_bit 32 c) = unat c div X" by (simp only: unat_shr X_def) simp
    have "unat rm div X < X" "unat rn div X < X" "unat rh mod X < X" using lt by (simp_all add: unat_halves X_def)
    then have sum: "unat c div X + unat rm div X + unat rn div X + unat rh mod X < 18446744073709551616"
      using c_lt unfolding X_def by linarith
    have s1: "unat (drop_bit 32 c + ucast (hi32 rm)) = unat c div X + unat rm div X"
      using sum d by (subst unat_add64) (simp_all add: unat_up unat_halves X_def del: drop_bit_numeral_bit0)
    have s2: "unat (drop_bit 32 c + ucast (hi32 rm) + ucast (hi32 rn)) = unat c div X + unat rm div X + unat rn div X"
      using sum s1 by (subst unat_add64) (simp_all add: unat_up unat_halves X_def del: drop_bit_numeral_bit0)
    show ?thesis
      using sum s2 unfolding c'_def
      by (subst unat_add64) (simp_all add: unat_up unat_halves X_def del: drop_bit_numeral_bit0)
  qed
  have low: "unat rl' = unat c mod X * X + unat rl mod X" by (simp add: rl'_def unat_join unat_halves X_def)
  define h where "h = (unat c' div X + unat rh div X) * X + unat c' mod X"
  have product: "unat a * unat b = h * X * X + unat rl'"
  proof -
    have parts: "unat rl = unat (lo32 a) * unat (lo32 b)" "unat rm = unat (lo32 a) * unat (hi32 b)"
      "unat rn = unat (hi32 a) * unat (lo32 b)" "unat rh = unat (hi32 a) * unat (hi32 b)"
      by (simp_all add: rl_def rm_def rn_def rh_def unat_mul32)
    have "unat a = unat (hi32 a) * X + unat (lo32 a)" "unat b = unat (hi32 b) * X + unat (lo32 b)"
      by (simp_all add: unat_halves X_def)
    then have "unat a * unat b = unat rl + (unat rm + unat rn) * X + unat rh * X * X"
      by (simp only: parts) (simp add: algebra_simps)
    also have "\<dots> = h * X * X + unat rl'"
      unfolding h_def low 
      by (rule product_carries [where ?l1.0 = "unat rl div X" and ?m1.0 = "unat rm div X" and ?m0.0 = "unat rm mod X"
            and ?n1.0 = "unat rn div X" and ?n0.0 = "unat rn mod X" and ?h0.0 = "unat rh mod X" and ?c1.0 = "unat c div X"])
        (simp_all add: uc [symmetric] uc' [symmetric])
    finally show ?thesis .
  qed
  have h_lt: "h < X * X"
  proof -
    have "unat a * unat b < 2 ^ 64 * 2 ^ 64" by (intro mult_strict_mono less_2p64) simp_all
    then have "h * (X * X) < (X * X) * (X * X)" using product by (simp add: X_def)
    then show ?thesis by simp
  qed
  have high: "unat rh'' = h"
  proof -
    have rh': "unat (hi32 rh') = unat rh div X" "unat (lo32 rh') = unat c' mod X"
      using lt by (simp_all add: rh'_def unat_join unat_halves X_def)
    have "unat c' div X + unat rh div X < X" using h_lt by (simp add: h_def X_def)
    moreover have "unat (drop_bit 32 c') = unat c' div X" by (simp only: unat_shr X_def) simp
    ultimately have "unat (lo32 (drop_bit 32 c' + ucast (hi32 rh'))) = unat c' div X + unat rh div X"
      using rh' by (simp add: unat_halves unat_up X_def unat_add64 del: drop_bit_numeral_bit0)
    then show ?thesis unfolding rh''_def h_def using rh' by (simp add: unat_join X_def)
  qed
  have run: "mul_u64_u64_shr a b s =
      (if s = 0 then rl' else if s < 64 then drop_bit s rl' OR push_bit (64 - s) rh'' else drop_bit (s AND 63) rh'')"
    unfolding mul_u64_u64_shr_def Let_def rl_def [symmetric] rm_def [symmetric] rn_def [symmetric] rh_def [symmetric]
      c_def [symmetric] rl'_def [symmetric] c'_def [symmetric] rh'_def [symmetric] rh''_def [symmetric] by (rule refl)
  have W: "unat a * unat b = unat rh'' * 2 ^ 64 + unat rl'" using product high by (simp add: X_def)
  show ?thesis unfolding run W by (rule shift_128 [OF assms])
qed


section \<open>Properties\<close>

text \<open>Repeated subtraction ends for every divisor but 0.\<close>

lemma iter_div_loop_eq:
  assumes "d \<noteq> 0"
  shows "iter_div_loop u d ret = Some (ret + of_nat (unat u div unat d), of_nat (unat u mod unat d))"
proof (induction "unat u" arbitrary: u ret rule: less_induct)
  case less
  have d: "0 < unat d" using assms by (simp add: unat_gt_0)
  show ?case
  proof (cases "unat d \<le> unat u")
    case True
    then have ge: "ucast d \<le> u" by (simp add: word_le_nat_alt unat_up)
    have sub: "unat (u - ucast d) = unat u - unat d" using True by (simp add: unat_sub64 unat_up)
    have "iter_div_loop u d ret = iter_div_loop (u - ucast d) d (ret + 1)" using ge by (subst iter_div_loop.simps) simp
    also have "\<dots> = Some (ret + 1 + of_nat ((unat u - unat d) div unat d), of_nat ((unat u - unat d) mod unat d))"
      using less [of "u - ucast d" "ret + 1"] d True sub by simp
    also have "(unat u - unat d) div unat d = unat u div unat d - 1" and "(unat u - unat d) mod unat d = unat u mod unat d"
      using True d by (simp_all add: le_div_geq le_mod_geq)
    moreover have "0 < unat u div unat d" using True d by (simp add: div_greater_zero_iff)
    ultimately show ?thesis by (simp add: of_nat_diff)
  next
    case False
    then have "\<not> ucast d \<le> u" by (simp add: word_le_nat_alt unat_up)
    with False show ?thesis by (subst iter_div_loop.simps) simp
  qed
qed

text \<open>
  The 64-by-32 division is exact for every dividend and every divisor but 0, for which it traps:
  the macro \<^verbatim>\<open>do_div\<close>, through its 32-bit branch or the shift-and-subtract loops of
  \<^verbatim>\<open>__div64_32\<close>, which end, leaves the quotient in \<^verbatim>\<open>n\<close> and returns the remainder.
\<close>

theorem do_div_exact:
  "do_div n base =
     (if base = 0 then None
      else Some (of_nat (unat n mod unat base), of_nat (unat n div unat base)))"
proof (cases "base = 0")
  case False
  obtain r q where "do_div n base = Some (r, q)" "unat q = unat n div unat base" "unat r = unat n mod unat base"
    using do_div_correct [OF False, of n] by blast
  with False show ?thesis by (simp add: of_unat)
qed (simp add: do_div_def div64_32_def)

text \<open>
  The signed division \<^verbatim>\<open>div_s64_rem\<close> rounds towards zero with the sign of the remainder that of
  the dividend, for all dividends and divisors but 0, the most negative numbers included.
\<close>

theorem div_s64_rem_exact:
  assumes "d \<noteq> 0"
  shows "div_s64_rem n d = Some (word_of_int (tdiv (sint n) (sint d)), word_of_int (trem (sint n) (sint d))) \<and>
         tdiv (sint n) (sint d) * sint d + trem (sint n) (sint d) = sint n"
  using div_s64_rem_correct [OF assms] tdiv_trem by simp

theorem div_s64_rem_exact_witness: "div_s64_rem (- 7) 2 = Some (- 3, - 1)"
proof -
  have "tdiv (- 7) 2 = - 3" "trem (- 7) 2 = - 1" by (simp_all add: tdiv_def trem_def)
  moreover have "sint (- 7 :: 64 word) = - 7" "sint (2 :: 32 word) = 2" by simp_all
  moreover have "(2 :: 32 word) \<noteq> 0" by simp
  ultimately show ?thesis using div_s64_rem_exact [of 2 "- 7"] by simp
qed

text \<open>
  Division by a 64-bit divisor is exact when the dividend is below \<open>2\<^sup>62\<close>, the divisor below
  \<open>2\<^sup>32\<close>, or the divisor at least \<open>2\<^sup>34\<close>: \<^verbatim>\<open>div64_u64_rem\<close> returns quotient and remainder,
  \<^verbatim>\<open>div64_u64\<close> the same quotient.
\<close>

theorem div64_u64_exact:
  assumes "v \<noteq> 0" and "div64_safe u v"
  shows "div64_u64_rem u v = Some (of_nat (unat u div unat v), of_nat (unat u mod unat v)) \<and>
         div64_u64 u v = Some (of_nat (unat u div unat v))"
proof -
  obtain q r where "div64_u64_rem u v = Some (q, r)" "unat q = unat u div unat v" "unat r = unat u mod unat v"
    using div64_u64_rem_correct [OF assms] by blast
  then show ?thesis by (simp add: of_unat div64_u64_rem_quot)
qed

theorem div64_u64_exact_witness: "div64_u64 0x3000000000000000 0x300000000 = Some 0x10000000"
proof -
  have "(0x300000000 :: 64 word) \<noteq> 0" and "div64_safe 0x3000000000000000 0x300000000" by (simp_all add: div64_safe_def)
  from div64_u64_exact [OF this] show ?thesis by simp
qed

text \<open>
  Outside that range it is wrong: the divisor is shifted by one bit more than needed, the quotient
  that is tried can be two too large, and the single correction by one does not repair it. The
  largest 64-bit number divided by \<open>2\<^sup>32 + 3\<close> gives a quotient two too large and, from
  \<^verbatim>\<open>div64_u64_rem\<close>, a \<open>remainder\<close> larger than the divisor. \<^verbatim>\<open>div64_s64\<close> moreover applies the
  32-bit \<^verbatim>\<open>abs\<close> to its 64-bit arguments: \<open>2\<^sup>40\<close> divided by 1 is 0.
\<close>

theorem div64_u64_off_by_two:
  "div64_u64 0xFFFFFFFFFFFFFFFF 0x100000003 = Some (0xFFFFFFFFFFFFFFFF div 0x100000003 + 2) \<and>
   (\<exists>q r. div64_u64_rem 0xFFFFFFFFFFFFFFFF 0x100000003 = Some (q, r) \<and> \<not> r < 0x100000003) \<and>
   div64_s64 0x10000000000 1 = Some 0"
proof -
  have 1: "div64_u64 0xFFFFFFFFFFFFFFFF 0x100000003 = Some 0xFFFFFFFF" by code_simp
  have 2: "div64_u64_rem 0xFFFFFFFFFFFFFFFF 0x100000003 = Some (0xFFFFFFFF, 0xFFFFFFFFFFFFFFFF - 0xFFFFFFFF * 0x100000003)"
    by code_simp
  have 3: "div64_s64 0x10000000000 1 = Some 0" by code_simp
  show ?thesis using 1 2 3 by simp
qed

text \<open>
  The wide products are exact although no intermediate is wider than 64 bits:
  \<^verbatim>\<open>mul_u64_u64_shr\<close> is the 128-bit product shifted right, for all shifts below 128,
  \<^verbatim>\<open>mul_u64_u32_div\<close> the 96-bit product divided, both cut to 64 bits.
\<close>

theorem wide_products:
  "(s < 128 \<longrightarrow> mul_u64_u64_shr a b s = of_nat (unat a * unat b div 2 ^ s)) \<and>
   (d \<noteq> 0 \<longrightarrow> mul_u64_u32_div a m d = Some (of_nat (unat a * unat m div unat d)))"
  using mul_u64_u64_shr_correct mul_u64_u32_div_correct by blast

theorem wide_products_witness:
  "mul_u64_u64_shr 0x100000000 0x100000000 60 = 16 \<and> mul_u64_u32_div 0x100000000 6 4 = Some 0x180000000"
  using wide_products [of 60 "0x100000000" "0x100000000" 4 6] by simp

end
