(* ===== verification/Lib_Charset.thy ===== *)
theory Lib_Charset
  imports RX_Prelude
begin

text \<open>
  Conversion between UTF-16 and UTF-8 (\<^verbatim>\<open>lib/charset.c\<close>). A source is an array with an index
  into it, \<open>nat \<Rightarrow> 16 word\<close> or \<open>nat \<Rightarrow> 8 word\<close>; the destination is only written, front to
  back, and is the list of the units written (it does not overlap the source). Sizes count down
  as in the source and bound what is read.
\<close>

unbundle bit_operations_syntax

section \<open>Definitions\<close>

partial_function (option) utf16_strlen_loop :: "(nat \<Rightarrow> 16 word) \<Rightarrow> nat \<Rightarrow> nat option" where
  "utf16_strlen_loop m i = (if m i \<noteq> 0 then utf16_strlen_loop m (i + 1) else Some i)"

definition utf16_strlen :: "(nat \<Rightarrow> 16 word) \<Rightarrow> nat option" where
  "utf16_strlen m = utf16_strlen_loop m 0"

fun utf16_strnlen_loop :: "(nat \<Rightarrow> 16 word) \<Rightarrow> nat \<Rightarrow> nat \<Rightarrow> nat" where
  "utf16_strnlen_loop m i 0 = i"
| "utf16_strnlen_loop m i (Suc count) = (if m i \<noteq> 0 then utf16_strnlen_loop m (i + 1) count else i)"

definition utf16_strnlen :: "(nat \<Rightarrow> 16 word) \<Rightarrow> nat \<Rightarrow> nat" where
  "utf16_strnlen m count = utf16_strnlen_loop m 0 count"

text \<open>Source and destination in one memory of 16-bit units; the result is the new memory.\<close>

partial_function (option) utf16_strcpy :: "(nat \<Rightarrow> 16 word) \<Rightarrow> nat \<Rightarrow> nat \<Rightarrow> (nat \<Rightarrow> 16 word) option" where
  "utf16_strcpy m dest src =
     (let v = m src; m' = m(dest := v)
      in if v \<noteq> 0 then utf16_strcpy m' (dest + 1) (src + 1) else Some m')"

definition utf8_four :: "32 word \<Rightarrow> 8 word list" where
  "utf8_four code =
     [ucast (drop_bit 18 code OR 0xF0), ucast ((drop_bit 12 code AND 0x3F) OR 0x80),
      ucast ((drop_bit 6 code AND 0x3F) OR 0x80), ucast ((code AND 0x3F) OR 0x80)]"

text \<open>\<open>code_high\<close> is the pending high surrogate or 0; a unit that does not complete it is read again.\<close>

fun utf16_to_utf8_loop :: "(nat \<Rightarrow> 16 word) \<Rightarrow> nat \<Rightarrow> nat \<Rightarrow> 32 word \<Rightarrow> 8 word list" where
  "utf16_to_utf8_loop m src 0 code_high = []"
| "utf16_to_utf8_loop m src (Suc size') code_high =
     (let code = (ucast (m src) :: 32 word)
      in if code_high \<noteq> 0
         then if 0xDC00 \<le> code \<and> code \<le> 0xDFFF
              then utf8_four (push_bit 10 (code_high - 0xD800) + (code - 0xDC00) + 0x10000)
                     @ utf16_to_utf8_loop m (src + 1) size' 0
              else 63 # utf16_to_utf8_loop m src size' 0
         else if code \<le> 0x7F then ucast code # utf16_to_utf8_loop m (src + 1) size' 0
         else if code \<le> 0x7FF
              then [ucast (drop_bit 6 code OR 0xC0), ucast ((code AND 0x3F) OR 0x80)]
                     @ utf16_to_utf8_loop m (src + 1) size' 0
         else if 0xD800 \<le> code \<and> code \<le> 0xDBFF then utf16_to_utf8_loop m (src + 1) size' code
         else if 0xDC00 \<le> code \<and> code \<le> 0xDFFF then 63 # utf16_to_utf8_loop m (src + 1) size' 0
         else if code < 0x10000
              then [ucast (drop_bit 12 code OR 0xE0), ucast ((drop_bit 6 code AND 0x3F) OR 0x80),
                    ucast ((code AND 0x3F) OR 0x80)]
                     @ utf16_to_utf8_loop m (src + 1) size' 0
         else utf8_four code @ utf16_to_utf8_loop m (src + 1) size' 0)"

definition utf16_to_utf8 :: "(nat \<Rightarrow> 16 word) \<Rightarrow> nat \<Rightarrow> 8 word list" where
  "utf16_to_utf8 m n = utf16_to_utf8_loop m 0 n 0"

text \<open>
  The first byte of a character: the initial code, the number of extension bytes, the source after
  it and the size left. A byte that cannot start a character is not skipped; a zero ends the input.
\<close>

definition utf8_first :: "(nat \<Rightarrow> 8 word) \<Rightarrow> nat \<Rightarrow> nat \<Rightarrow> 32 word \<times> nat \<times> nat \<times> nat" where
  "utf8_first m src n =
     (let b = m src
      in if b \<le> 0x7f then (ucast b, 0, src + 1, if b = 0 then 0 else n)
         else if b \<le> 0xbf then (63, 0, src, n)
         else if b \<le> 0xdf then (ucast (b AND 0x1f), 1, src + 1, n)
         else if b \<le> 0xef then (ucast (b AND 0x0f), 2, src + 1, n)
         else if b \<le> 0xf7 then (ucast (b AND 0x07), 3, src + 1, n)
         else (63, 0, src, n))"

text \<open>The loop over the extension bytes: the code, the source and the size it leaves.\<close>

fun utf8_extend :: "(nat \<Rightarrow> 8 word) \<Rightarrow> 32 word \<Rightarrow> nat \<Rightarrow> nat \<Rightarrow> nat \<Rightarrow> 32 word \<times> nat \<times> nat" where
  "utf8_extend m code (Suc ext) src (Suc n) =
     (if m src AND 0xc0 = 0x80
      then utf8_extend m (push_bit 6 code OR ucast (m src AND 0x3f)) ext (src + 1) n
      else (63, src + 1, n))"
| "utf8_extend m code ext src n = (code, src, n)"

lemma utf8_extend_size: "snd (snd (utf8_extend m code ext src n)) \<le> n"
  by (induction m code ext src n rule: utf8_extend.induct) auto

lemma utf8_first_size: "snd (snd (snd (utf8_first m src n))) \<le> n"
  by (auto simp: utf8_first_def Let_def)

definition utf16_units :: "32 word \<Rightarrow> 16 word list" where
  "utf16_units code =
     (if code < 0x10000 then [ucast code]
      else [ucast (drop_bit 10 code + 0xd7c0), ucast ((code AND 0x3ff) OR 0xdc00)])"

function utf8_to_utf16_loop :: "(nat \<Rightarrow> 8 word) \<Rightarrow> nat \<Rightarrow> nat \<Rightarrow> 16 word list" where
  "utf8_to_utf16_loop m src 0 = []"
| "utf8_to_utf16_loop m src (Suc n) =
     utf16_units (fst (case utf8_first m src n of (code, ext, src', n') \<Rightarrow> utf8_extend m code ext src' n'))
       @ (case utf8_first m src n of (code, ext, src', n') \<Rightarrow>
            (case utf8_extend m code ext src' n' of (code', src'', n'') \<Rightarrow> utf8_to_utf16_loop m src'' n''))"
  by pat_completeness auto
termination
proof (relation "measure (\<lambda>(m, src, n). n)")
  fix m :: "nat \<Rightarrow> 8 word" and src n code y ext y2 src' n' z code' zc src'' n''
  assume *: "(code, y) = utf8_first m src n" "(ext, y2) = y" "(src', n') = y2"
    "(code', zc) = utf8_extend m code ext src' n'" "(src'', n'') = zc"
  then have "n' \<le> n" using utf8_first_size [of m src n] by (metis snd_conv)
  moreover have "n'' \<le> n'" using * utf8_extend_size [of m code ext src' n'] by (metis snd_conv)
  ultimately show "((m, src'', n''), (m, src, Suc n)) \<in> measure (\<lambda>(m, src, n). n)" by simp
qed simp

definition utf8_to_utf16 :: "(nat \<Rightarrow> 8 word) \<Rightarrow> nat \<Rightarrow> 16 word list" where
  "utf8_to_utf16 m n = utf8_to_utf16_loop m 0 n"


section \<open>Bytes of one character\<close>

lemma small_word_cases:
  assumes "list_all (\<lambda>n. P (of_nat n)) [0..<k]" and "unat x < k"
  shows "P (x :: 8 word)"
proof -
  have "unat x \<in> set [0..<k]" using assms(2) by simp
  with assms(1) have "P (of_nat (unat x))" by (simp only: list_all_iff)
  then show ?thesis by simp
qed

lemma lead2: "unat x < 32 \<Longrightarrow>
    \<not> x OR 0xC0 \<le> 0x7f \<and> \<not> x OR 0xC0 \<le> 0xbf \<and> x OR 0xC0 \<le> 0xdf \<and> (x OR 0xC0) AND 0x1f = x" for x :: "8 word"
  by (rule small_word_cases [where k = 32]) (code_simp, assumption)

lemma lead3: "unat x < 16 \<Longrightarrow>
    \<not> x OR 0xE0 \<le> 0x7f \<and> \<not> x OR 0xE0 \<le> 0xbf \<and> \<not> x OR 0xE0 \<le> 0xdf \<and> x OR 0xE0 \<le> 0xef \<and>
    (x OR 0xE0) AND 0x0f = x" for x :: "8 word"
  by (rule small_word_cases [where k = 16]) (code_simp, assumption)

lemma lead4: "unat x < 8 \<Longrightarrow>
    \<not> x OR 0xF0 \<le> 0x7f \<and> \<not> x OR 0xF0 \<le> 0xbf \<and> \<not> x OR 0xF0 \<le> 0xdf \<and> \<not> x OR 0xF0 \<le> 0xef \<and>
    x OR 0xF0 \<le> 0xf7 \<and> (x OR 0xF0) AND 0x07 = x" for x :: "8 word"
  by (rule small_word_cases [where k = 8]) (code_simp, assumption)

lemma ext_byte: "unat x < 64 \<Longrightarrow> (x OR 0x80) AND 0xc0 = 0x80 \<and> (x OR 0x80) AND 0x3f = x" for x :: "8 word"
  by (rule small_word_cases [where k = 64]) (code_simp, assumption)

lemma ucast_or8: "ucast (a OR b :: 32 word) = (ucast a OR ucast b :: 8 word)"
  by (rule bit_word_eqI) (auto simp: bit_simps)

text \<open>The digits of a code to the base 64, as bytes.\<close>

definition six :: "32 word \<Rightarrow> nat \<Rightarrow> 8 word" where "six code k = ucast (drop_bit (6 * k) code AND 0x3F)"
definition lead :: "32 word \<Rightarrow> nat \<Rightarrow> 8 word" where "lead code k = ucast (drop_bit (6 * k) code)"

lemma and_3F: "unat (c AND 0x3F) = unat c mod 64" for c :: "32 word"
proof -
  have "c AND 0x3F = take_bit 6 c" by (simp add: take_bit_eq_mask mask_eq_exp_minus_1)
  then show ?thesis by (simp only: unsigned_take_bit_eq) (simp add: take_bit_eq_mod)
qed

lemma unat_drop32: "unat (drop_bit n (c :: 32 word)) = unat c div 2 ^ n"
  by (subst unat_drop_bit_eq) (simp add: drop_bit_eq_div)

lemma unat_six: "unat (six c k) = unat c div 64 ^ k mod 64"
proof -
  have "unat (drop_bit (6 * k) c AND 0x3F) = unat c div 64 ^ k mod 64"
    by (simp add: and_3F unat_drop32 power_mult)
  then show ?thesis unfolding six_def by (simp add: unsigned_ucast_eq take_bit_nat_eq_self)
qed

lemma unat_lead: "unat c div 64 ^ k < 256 \<Longrightarrow> unat (lead c k) = unat c div 64 ^ k"
  unfolding lead_def by (subst unsigned_ucast_eq) (simp add: unat_drop32 power_mult take_bit_nat_eq_self)

lemma glue:
  assumes "unat a * 2 ^ k < 2 ^ 32" and "unat b < 2 ^ k"
  shows "unat (push_bit k a OR b) = unat a * 2 ^ k + unat (b :: 32 word)"
proof -
  have "push_bit k a AND b = 0"
  proof (rule bit_word_eqI)
    fix i assume "i < LENGTH(32)"
    have "take_bit k b = b" using assms(2) by (simp add: word_unat_eq_iff unsigned_take_bit_eq take_bit_nat_eq_self)
    then have "bit b i \<Longrightarrow> i < k" by (metis bit_take_bit_iff)
    then show "bit (push_bit k a AND b) i = bit 0 i" by (auto simp: bit_simps)
  qed
  then have "push_bit k a OR b = push_bit k a + b" by (simp add: disjunctive_add_eq_or)
  moreover have up: "unat (push_bit k a) = unat a * 2 ^ k"
    using assms(1) by (subst unsigned_push_bit_eq) (simp add: push_bit_eq_mult take_bit_nat_eq_self)
  moreover have "unat a * 2 ^ k + unat b < 2 ^ 32"
  proof (cases "k \<le> 32")
    case True
    have "unat a < 2 ^ (32 - k)"
      using assms(1) True by (metis le_add_diff_inverse2 mult_less_cancel2 power_add)
    then have "(unat a + 1) * 2 ^ k \<le> 2 ^ (32 - k) * 2 ^ k" by (intro mult_le_mono1) simp
    also have "\<dots> = 2 ^ 32" using True by (simp add: power_add [symmetric])
    finally show ?thesis using assms(2) by simp
  next
    case False
    then have "(2 :: nat) ^ 32 < 2 ^ k" by (intro power_strict_increasing) simp_all
    then have "unat a = 0" using assms(1) by (cases "unat a") auto
    then show ?thesis using unsigned_less [of b] by simp
  qed
  ultimately show ?thesis by (simp add: unat_word_ariths)
qed

lemma six_less: "unat (six c k) < 64"
  by (simp add: unat_six)

lemma unat_up8: "unat (ucast (x :: 8 word) :: 32 word) = unat x"
proof -
  have "unat x < 256" using unsigned_less [of x] by simp
  then show ?thesis by (simp add: unsigned_ucast_eq take_bit_nat_eq_self)
qed

text \<open>One extension byte appends six bits.\<close>

lemma extend_step:
  assumes "m src = six c k OR 0x80" and "unat a = unat c div 64 ^ Suc k" and "unat c < 2 ^ 26"
  shows "\<exists>a'. utf8_extend m a (Suc ext) src (Suc n) = utf8_extend m a' ext (src + 1) n \<and> unat a' = unat c div 64 ^ k"
proof (intro exI conjI)
  let ?a' = "push_bit 6 a OR ucast (m src AND 0x3f)"
  note e = ext_byte [OF six_less [of c k]]
  show "utf8_extend m a (Suc ext) src (Suc n) = utf8_extend m ?a' ext (src + 1) n"
    using e assms(1) by simp
  have "unat a < 2 ^ 26" unfolding assms(2) using assms(3) div_le_dividend le_less_trans by blast
  then have "unat ?a' = unat a * 64 + unat (six c k)"
    using e assms(1) six_less [of c k] glue [of a 6 "ucast (m src AND 0x3f)"] by (simp add: unat_up8)
  also have "\<dots> = unat c div 64 ^ k"
    unfolding assms(2) unat_six power_Suc2 div_mult2_eq by simp
  finally show "unat ?a' = unat c div 64 ^ k" .
qed

lemma same_code: "unat a = unat c div 64 ^ 0 \<Longrightarrow> a = (c :: 32 word)"
  by (simp add: word_unat_eq_iff)

definition utf8_two :: "32 word \<Rightarrow> 8 word list" where "utf8_two c = [lead c 1 OR 0xC0, six c 0 OR 0x80]"
definition utf8_three :: "32 word \<Rightarrow> 8 word list" where
  "utf8_three c = [lead c 2 OR 0xE0, six c 1 OR 0x80, six c 0 OR 0x80]"

lemma encoded:
  "[ucast (drop_bit 6 c OR 0xC0), ucast ((c AND 0x3F) OR 0x80)] = utf8_two c"
  "[ucast (drop_bit 12 c OR 0xE0), ucast ((drop_bit 6 c AND 0x3F) OR 0x80), ucast ((c AND 0x3F) OR 0x80)] = utf8_three c"
  "utf8_four c = [lead c 3 OR 0xF0, six c 2 OR 0x80, six c 1 OR 0x80, six c 0 OR 0x80]"
  by (simp_all add: utf8_two_def utf8_three_def utf8_four_def lead_def six_def ucast_or8)

primrec listed :: "(nat \<Rightarrow> 'a) \<Rightarrow> nat \<Rightarrow> 'a list \<Rightarrow> bool" where
  "listed m p [] \<longleftrightarrow> True"
| "listed m p (x # xs) \<longleftrightarrow> m p = x \<and> listed m (p + 1) xs"

lemma listed_append [simp]: "listed m p (xs @ ys) \<longleftrightarrow> listed m p xs \<and> listed m (p + length xs) ys"
  by (induction xs arbitrary: p) auto

lemma listed_nth: "listed (\<lambda>i. xs ! i) 0 xs"
proof -
  have "listed (\<lambda>i. (ys @ xs) ! i) (length ys) xs" for ys
    by (induction xs arbitrary: ys) (auto simp: nth_append, metis append.assoc append_Cons append_Nil length_append_singleton)
  from this [of "[]"] show ?thesis by simp
qed

text \<open>What the decoder makes of the bytes of one code: the units of the code, and it goes on behind.\<close>

lemma decode_one:
  assumes "0 < unat c" "unat c < 128" and "m src = ucast c"
  shows "utf8_to_utf16_loop m src (Suc n) = utf16_units c @ utf8_to_utf16_loop m (src + 1) n"
proof -
  have u: "unat (ucast c :: 8 word) = unat c" using assms(2) by (simp add: unsigned_ucast_eq take_bit_nat_eq_self)
  then have "m src \<le> 0x7f" "m src \<noteq> 0" using assms by (auto simp: word_le_nat_alt word_unat_eq_iff)
  moreover have "ucast (m src) = c" using u assms(3) by (simp add: word_unat_eq_iff unat_up8)
  ultimately have "utf8_first m src n = (c, 0, src + 1, n)" by (simp add: utf8_first_def)
  then show ?thesis by simp
qed

lemma extend_all:
  assumes "listed m src (map (\<lambda>k. six c k OR 0x80) (rev [0..<ext]))" and "unat a = unat c div 64 ^ ext"
    and "unat c < 2 ^ 26"
  shows "utf8_extend m a ext src (ext + n) = (c, src + ext, n)"
  using assms(1,2)
proof (induction ext arbitrary: a src)
  case 0
  then show ?case by (cases n) (simp_all add: same_code)
next
  case (Suc ext)
  then have "m src = six c ext OR 0x80" by simp
  from extend_step [where m = m and src = src and c = c and k = ext and a = a and ext = ext and n = "ext + n",
      OF this Suc.prems(2) assms(3)] obtain a' where
    step: "utf8_extend m a (Suc ext) src (Suc (ext + n)) = utf8_extend m a' ext (src + 1) (ext + n)"
    and a': "unat a' = unat c div 64 ^ ext" by blast
  have "listed m (src + 1) (map (\<lambda>k. six c k OR 0x80) (rev [0..<ext]))" using Suc.prems(1) by simp
  from Suc.IH [OF this a'] step show ?case by simp
qed

lemma decode_multi:
  assumes "utf8_first m src (ext + n) = (a, ext, src + 1, ext + n)" and "unat a = unat c div 64 ^ ext"
    and "listed m (src + 1) (map (\<lambda>k. six c k OR 0x80) (rev [0..<ext]))" and "unat c < 2 ^ 26"
  shows "utf8_to_utf16_loop m src (Suc (ext + n)) = utf16_units c @ utf8_to_utf16_loop m (src + 1 + ext) n"
  using extend_all [OF assms(3,2,4), of n] by (simp add: assms(1))

lemma decode_two:
  assumes "unat c < 0x800" and "listed m src (utf8_two c)"
  shows "utf8_to_utf16_loop m src (Suc (1 + n)) = utf16_units c @ utf8_to_utf16_loop m (src + 1 + 1) n"
proof (rule decode_multi)
  have t: "unat (lead c 1) = unat c div 64 ^ 1" "unat (lead c 1) < 32" using assms(1) by (simp_all add: unat_lead)
  show "utf8_first m src (1 + n) = (ucast (lead c 1), 1, src + 1, 1 + n)"
    using lead2 [OF t(2)] assms(2) unfolding utf8_two_def by (simp add: utf8_first_def)
  show "unat (ucast (lead c 1) :: 32 word) = unat c div 64 ^ 1" using t by (simp only: unat_up8)
qed (use assms in \<open>simp_all add: utf8_two_def\<close>)

lemma decode_three:
  assumes "unat c < 0x10000" and "listed m src (utf8_three c)"
  shows "utf8_to_utf16_loop m src (Suc (2 + n)) = utf16_units c @ utf8_to_utf16_loop m (src + 1 + 2) n"
proof (rule decode_multi)
  have t: "unat (lead c 2) = unat c div 64 ^ 2" "unat (lead c 2) < 16" using assms(1) by (simp_all add: unat_lead)
  show "utf8_first m src (2 + n) = (ucast (lead c 2), 2, src + 1, 2 + n)"
    using lead3 [OF t(2)] assms(2) unfolding utf8_three_def by (simp add: utf8_first_def)
  show "unat (ucast (lead c 2) :: 32 word) = unat c div 64 ^ 2" using t by (simp only: unat_up8)
  show "unat c < 2 ^ 26" using assms(1) by simp
qed (use assms(2) in \<open>simp add: utf8_three_def numeral_2_eq_2\<close>)

lemma decode_four:
  assumes "unat c < 0x200000" and "listed m src (utf8_four c)"
  shows "utf8_to_utf16_loop m src (Suc (3 + n)) = utf16_units c @ utf8_to_utf16_loop m (src + 1 + 3) n"
proof (rule decode_multi)
  have t: "unat (lead c 3) = unat c div 64 ^ 3" "unat (lead c 3) < 8" using assms(1) by (simp_all add: unat_lead)
  show "utf8_first m src (3 + n) = (ucast (lead c 3), 3, src + 1, 3 + n)"
    using lead4 [OF t(2)] assms(2) unfolding encoded by (simp add: utf8_first_def)
  show "unat (ucast (lead c 3) :: 32 word) = unat c div 64 ^ 3" using t by (simp only: unat_up8)
  show "unat c < 2 ^ 26" using assms(1) by simp
qed (use assms(2) in \<open>simp add: encoded numeral_3_eq_3 numeral_2_eq_2\<close>)



section \<open>Properties\<close>

text \<open>Well-formed UTF-16 without zero units: high surrogates are followed by low ones, which do not occur alone.\<close>

fun wf_utf16 :: "16 word list \<Rightarrow> bool" where
  "wf_utf16 [] \<longleftrightarrow> True"
| "wf_utf16 (u # us) \<longleftrightarrow>
     (if 0xD800 \<le> unat u \<and> unat u \<le> 0xDBFF
      then (case us of [] \<Rightarrow> False | v # vs \<Rightarrow> 0xDC00 \<le> unat v \<and> unat v \<le> 0xDFFF \<and> wf_utf16 vs)
      else u \<noteq> 0 \<and> \<not> (0xDC00 \<le> unat u \<and> unat u \<le> 0xDFFF) \<and> wf_utf16 us)"

lemma unat_up16: "unat (ucast (x :: 16 word) :: 32 word) = unat x"
proof -
  have "unat x < 65536" using unsigned_less [of x] by simp
  then show ?thesis by (simp add: unsigned_ucast_eq take_bit_nat_eq_self)
qed

lemma units_of_unit: "utf16_units (ucast u) = [u]"
proof -
  have "unat u < 65536" using unsigned_less [of u] by simp
  then have "(ucast u :: 32 word) < 0x10000" by (simp add: word_less_nat_alt unat_up16)
  moreover have "ucast (ucast u :: 32 word) = u" by (rule bit_word_eqI) (auto simp: bit_simps)
  ultimately show ?thesis by (simp add: utf16_units_def)
qed

definition surrogates :: "16 word \<Rightarrow> 16 word \<Rightarrow> 32 word" where
  "surrogates u v = push_bit 10 (ucast u - 0xD800) + (ucast v - 0xDC00) + 0x10000"

lemma unat_surrogates:
  assumes "0xD800 \<le> unat u" "unat u \<le> 0xDBFF" "0xDC00 \<le> unat v" "unat v \<le> 0xDFFF"
  shows "unat (surrogates u v) = (unat u - 0xD800) * 1024 + (unat v - 0xDC00) + 0x10000"
proof -
  define a b :: "32 word" where "a = ucast u - 0xD800" and "b = ucast v - 0xDC00"
  have a: "unat a = unat u - 0xD800"
    unfolding a_def using assms by (subst unat_sub) (simp_all add: word_le_nat_alt unat_up16)
  have b: "unat b = unat v - 0xDC00"
    unfolding b_def using assms by (subst unat_sub) (simp_all add: word_le_nat_alt unat_up16)
  have "unat a < 1024" "unat b < 1024" using a b assms by linarith+
  then have "unat (push_bit 10 a + b + 0x10000) = unat a * 1024 + unat b + 0x10000"
    by (simp add: push_bit_eq_mult unat_word_ariths)
  then show ?thesis unfolding a b surrogates_def a_def [symmetric] b_def [symmetric] .
qed

lemma and_3ff_or: "unat ((c AND 0x3ff) OR 0xdc00) = unat c mod 1024 + 0xdc00" for c :: "32 word"
proof -
  have "c AND 0x3ff = take_bit 10 c" by (simp add: take_bit_eq_mask mask_eq_exp_minus_1)
  then have m: "unat (c AND 0x3ff) = unat c mod 1024"
    by (simp only: unsigned_take_bit_eq) (simp add: take_bit_eq_mod)
  have "unat (push_bit 10 0x37 OR (c AND 0x3ff)) = unat (0x37 :: 32 word) * 2 ^ 10 + unat (c AND 0x3ff)"
    by (rule glue) (simp_all only: m, simp_all)
  moreover have "(c AND 0x3ff) OR 0xdc00 = push_bit 10 0x37 OR (c AND 0x3ff)" by (simp add: or.commute)
  ultimately show ?thesis using m by simp
qed

lemma units_of_surrogates:
  assumes "0xD800 \<le> unat u" "unat u \<le> 0xDBFF" "0xDC00 \<le> unat v" "unat v \<le> 0xDFFF"
  shows "utf16_units (surrogates u v) = [u, v]"
proof -
  define c where "c = surrogates u v"
  define U V where "U = unat u - 0xD800" and "V = unat v - 0xDC00"
  have UV: "unat u = U + 0xD800" "unat v = V + 0xDC00" "U < 1024" "V < 1024" using assms by (auto simp: U_def V_def)
  have c: "unat c = U * 1024 + V + 0x10000" unfolding c_def U_def V_def by (rule unat_surrogates [OF assms])
  then have big: "\<not> c < 0x10000" by (simp add: word_less_nat_alt)
  have c2: "unat c = V + (U + 64) * 1024" using c by simp
  have div: "unat c div 1024 = U + 64" unfolding c2 using UV by simp
  have mod: "unat c mod 1024 = V" unfolding c2 using UV by (simp only: mod_mult_self1 mod_less)
  have "unat (drop_bit 10 c + 0xd7c0) = unat u"
    using UV div unat_drop32 [of 10 c] by (simp add: unat_word_ariths)
  then have "unat (ucast (drop_bit 10 c + 0xd7c0) :: 16 word) = unat u"
    using UV by (subst unsigned_ucast_eq) (simp add: take_bit_nat_eq_self)
  moreover have "unat (ucast ((c AND 0x3ff) OR 0xdc00) :: 16 word) = unat v"
    using UV mod and_3ff_or [of c] by (subst unsigned_ucast_eq) (simp add: take_bit_nat_eq_self)
  ultimately show ?thesis using big unfolding utf16_units_def c_def [symmetric] by (simp add: word_unat_eq_iff)
qed

text \<open>The encoder, one character of a well-formed text at a time.\<close>

lemma encode_plain:
  assumes "m p = u" and "\<not> (0xD800 \<le> unat u \<and> unat u \<le> 0xDFFF)"
  shows "utf16_to_utf8_loop m p (Suc n) 0 =
           (if unat u \<le> 0x7F then [ucast (ucast u :: 32 word)]
            else if unat u \<le> 0x7FF then utf8_two (ucast u) else utf8_three (ucast u))
             @ utf16_to_utf8_loop m (p + 1) n 0"
proof -
  have "(ucast u :: 32 word) < 0x10000"
    using unsigned_less [of u] by (simp add: word_less_nat_alt unat_up16)
  then show ?thesis using assms(2) unfolding encoded [symmetric]
    by (auto simp: Let_def assms(1) word_le_nat_alt unat_up16)
qed

lemma encode_pair:
  assumes "m p = u" and "m (p + 1) = v"
    and "0xD800 \<le> unat u" "unat u \<le> 0xDBFF" "0xDC00 \<le> unat v" "unat v \<le> 0xDFFF"
  shows "utf16_to_utf8_loop m p (Suc (Suc n)) 0 = utf8_four (surrogates u v) @ utf16_to_utf8_loop m (p + 2) n 0"
proof -
  have "(ucast u :: 32 word) \<noteq> 0" using assms(3) by (simp add: word_unat_eq_iff unat_up16)
  then show ?thesis using assms by (simp add: Let_def word_le_nat_alt unat_up16 surrogates_def)
qed

lemma round_trip:
  "wf_utf16 us \<Longrightarrow> listed m p us \<Longrightarrow> listed m8 q (utf16_to_utf8_loop m p (length us) 0) \<Longrightarrow>
   utf8_to_utf16_loop m8 q (length (utf16_to_utf8_loop m p (length us) 0)) = us"
proof (induction us arbitrary: p q rule: wf_utf16.induct)
  case (2 u us)
  show ?case
  proof (cases "0xD800 \<le> unat u \<and> unat u \<le> 0xDBFF")
    case True
    with 2(3) obtain v vs where us: "us = v # vs" and v: "0xDC00 \<le> unat v" "unat v \<le> 0xDFFF" and wf: "wf_utf16 vs"
      by (auto split: list.splits)
    have enc: "utf16_to_utf8_loop m p (length (u # us)) 0 =
        utf8_four (surrogates u v) @ utf16_to_utf8_loop m (p + 2) (length vs) 0"
      using encode_pair [of m p u v "length vs"] 2(4) True v us by simp
    have "(unat u - 0xD800) * 1024 \<le> 0x3FF * 1024" using True by (intro mult_le_mono1) linarith
    then have small: "unat (surrogates u v) < 0x200000" using unat_surrogates [of u v] True v by linarith
    have len: "length (utf8_four (surrogates u v)) = 4" by (simp add: utf8_four_def)
    let ?r = "utf16_to_utf8_loop m (p + 2) (length vs) 0"
    have l: "listed m8 q (utf8_four (surrogates u v))" "listed m8 (q + 4) ?r" using 2(5) unfolding enc by (simp_all add: len)
    have "utf8_to_utf16_loop m8 (q + 4) (length ?r) = vs" using 2(1) [OF True us wf _ l(2)] 2(4) us by simp
    moreover have "utf8_to_utf16_loop m8 q (Suc (3 + length ?r)) = [u, v] @ utf8_to_utf16_loop m8 (q + 1 + 3) (length ?r)"
      using decode_four [OF small l(1), of "length ?r"] True v by (simp only: units_of_surrogates)
    ultimately show ?thesis unfolding enc by (simp add: len us add.commute)
  next
    case False
    then have u: "u \<noteq> 0" "\<not> (0xD800 \<le> unat u \<and> unat u \<le> 0xDFFF)" and wf: "wf_utf16 us" using 2(3) by auto
    have mp: "m p = u" and us: "listed m (p + 1) us" using 2(4) by simp_all
    let ?r = "utf16_to_utf8_loop m (p + 1) (length us) 0"
    note enc = encode_plain [where m = m and p = p and u = u and n = "length us", OF mp u(2)]
    have lt: "unat u < 0x10000" using unsigned_less [of u] by simp
    note IH = 2(2) [OF False wf us]
    consider (one) "unat u \<le> 0x7F" | (two) "0x7F < unat u" "unat u \<le> 0x7FF" | (three) "0x7FF < unat u" by linarith
    then show ?thesis
    proof cases
      case one
      have "0 < unat u" using u(1) by (simp add: unat_gt_0)
      then have "utf8_to_utf16_loop m8 q (Suc (length ?r)) = utf16_units (ucast u) @ utf8_to_utf16_loop m8 (q + 1) (length ?r)"
        using one 2(5) enc by (intro decode_one) (simp_all add: unat_up16)
      then show ?thesis using one 2(5) enc IH [of "q + 1"] by (simp add: units_of_unit)
    next
      case two
      have "utf8_to_utf16_loop m8 q (Suc (1 + length ?r)) = utf16_units (ucast u) @ utf8_to_utf16_loop m8 (q + 1 + 1) (length ?r)"
        using two 2(5) enc by (intro decode_two) (simp_all add: unat_up16)
      then show ?thesis using two 2(5) enc IH [of "q + 2"] by (simp add: units_of_unit utf8_two_def)
    next
      case three
      have "utf8_to_utf16_loop m8 q (Suc (2 + length ?r)) = utf16_units (ucast u) @ utf8_to_utf16_loop m8 (q + 1 + 2) (length ?r)"
        using three lt 2(5) enc by (intro decode_three) (simp_all add: unat_up16)
      then show ?thesis using three 2(5) enc IH [of "q + 3"] by (simp add: units_of_unit utf8_three_def numeral_3_eq_3)
    qed
  qed
qed simp

text \<open>Three bytes per unit are enough, for any input, well-formed or not.\<close>

lemma utf8_length:
  "length (utf16_to_utf8_loop m p n 0) \<le> 3 * n \<and> length (utf16_to_utf8_loop m p n high) \<le> 3 * n + 1"
proof (induction n arbitrary: p high)
  case (Suc n)
  note IH = Suc [of p 0] Suc [of "p + 1" 0] Suc [of "p + 1" "ucast (m p)"]
  have "(ucast (m p) :: 32 word) < 0x10000"
    using unsigned_less [of "m p"] by (simp add: word_less_nat_alt unat_up16)
  then have "length (utf16_to_utf8_loop m p (Suc n) 0) \<le> 3 * Suc n"
    using IH by (simp add: Let_def utf8_four_def)
  moreover have "length (utf16_to_utf8_loop m p (Suc n) high) \<le> 3 * Suc n + 1" if "high \<noteq> 0"
    using IH that by (simp add: Let_def utf8_four_def)
  ultimately show ?case by (cases "high = 0") simp_all
qed simp

text \<open>
  C36. UTF-16 and UTF-8 are converted faithfully: a well-formed UTF-16 text of any length, surrogate
  pairs included, converted to UTF-8 by \<^verbatim>\<open>utf16_to_utf8\<close> and back by \<^verbatim>\<open>utf8_to_utf16\<close> is the same
  text, and the UTF-8 form fits the three bytes per unit that \<^verbatim>\<open>MAX_UTF8_PER_UTF16\<close> promises.
\<close>

theorem utf16_round_trip:
  assumes "wf_utf16 us" and "listed m 0 us" and "listed m8 0 (utf16_to_utf8 m (length us))"
  shows "utf8_to_utf16 m8 (length (utf16_to_utf8 m (length us))) = us \<and>
         length (utf16_to_utf8 m (length us)) \<le> 3 * length us"
  using round_trip [OF assms(1,2)] assms(3) utf8_length by (simp add: utf16_to_utf8_def utf8_to_utf16_def)

theorem utf16_round_trip_witness:
  "utf8_to_utf16 (\<lambda>i. [0x41, 0xC3, 0xA9, 0xF0, 0x9F, 0x98, 0x80] ! i) 7 = [0x41, 0xE9, 0xD83D, 0xDE00]"
proof -
  define us :: "16 word list" where "us = [0x41, 0xE9, 0xD83D, 0xDE00]"
  define bs :: "8 word list" where "bs = [0x41, 0xC3, 0xA9, 0xF0, 0x9F, 0x98, 0x80]"
  have wf: "wf_utf16 us" by (simp add: us_def)
  have e: "utf16_to_utf8 (\<lambda>i. us ! i) (length us) = bs" unfolding us_def bs_def by code_simp
  have "listed (\<lambda>i. bs ! i) 0 (utf16_to_utf8 (\<lambda>i. us ! i) (length us))" unfolding e by (rule listed_nth)
  from utf16_round_trip [OF wf listed_nth this] have "utf8_to_utf16 (\<lambda>i. bs ! i) (length bs) = us" unfolding e ..
  moreover have "length bs = 7" by (simp add: bs_def)
  ultimately show ?thesis by (simp only: us_def bs_def)
qed

end
