(* ===== verification/Lib_Vsprintf.thy ===== *)
theory Lib_Vsprintf
  imports Lib_Strto Lib_Div64 Lib_Charset
begin

text \<open>
  Formatted output (\<^verbatim>\<open>lib/vsprintf.c\<close>). The output position is a memory with a pointer
  \<^verbatim>\<open>str\<close>; every character goes through \<^verbatim>\<open>ADDCH\<close>, which stores it only in front of
  \<^verbatim>\<open>end\<close> but always advances. The digit routines fill a local array, here a list in the order
  of the array. Format string and strings to print are read from the same memory that is written.
  The arguments of a call are a list of 32-bit, 64-bit and pointer values; \<^term>\<open>None\<close> is an
  argument that is missing or of another kind, a NULL pointer that is written through, or a loop
  that does not end. Field width and precision are integers without overflow.
\<close>

unbundle bit_operations_syntax

section \<open>Digits\<close>

definition is_digit :: "8 word \<Rightarrow> bool" where "is_digit c \<longleftrightarrow> c \<ge> 48 \<and> c \<le> 57"

partial_function (option) skip_atoi :: "bytes \<Rightarrow> addr \<Rightarrow> int \<Rightarrow> (int \<times> addr) option" where
  "skip_atoi m s i = (if is_digit (m s) then skip_atoi m (s + 1) (i * 10 + uint (m s) - 48) else Some (i, s))"

definition put_dec_trunc :: "32 word \<Rightarrow> 8 word list" where
  "put_dec_trunc q =
     (let d1 = drop_bit 4 q AND 0xf; d2 = drop_bit 8 q AND 0xf; d3 = drop_bit 12 q;
          n0 = 6 * (d3 + d2 + d1) + (q AND 0xf);
          q0 = drop_bit 11 (n0 * 0xcd);
          n1 = q0 + 9 * d3 + 5 * d2 + d1
      in ucast (n0 - 10 * q0 + 48) #
         (if n1 \<noteq> 0
          then let q1 = drop_bit 11 (n1 * 0xcd); n2 = q1 + 2 * d2
               in ucast (n1 - 10 * q1 + 48) #
                  (if n2 \<noteq> 0 \<or> d3 \<noteq> 0
                   then let q2 = drop_bit 7 (n2 * 0xd); n3 = q2 + 4 * d3
                        in ucast (n2 - 10 * q2 + 48) #
                           (if n3 \<noteq> 0
                            then let q3 = drop_bit 11 (n3 * 0xcd)
                                 in ucast (n3 - 10 * q3 + 48) # (if q3 \<noteq> 0 then [ucast (q3 + 48)] else [])
                            else [])
                   else [])
          else []))"

definition put_dec_full :: "32 word \<Rightarrow> 8 word list" where
  "put_dec_full q =
     (let d1 = drop_bit 4 q AND 0xf; d2 = drop_bit 8 q AND 0xf; d3 = drop_bit 12 q;
          n0 = 6 * (d3 + d2 + d1) + (q AND 0xf);
          q0 = drop_bit 11 (n0 * 0xcd);
          n1 = q0 + 9 * d3 + 5 * d2 + d1;
          q1 = drop_bit 11 (n1 * 0xcd);
          n2 = q1 + 2 * d2;
          q2 = drop_bit 7 (n2 * 0xd);
          n3 = q2 + 4 * d3;
          q3 = drop_bit 11 (n3 * 0xcd)
      in [ucast (n0 - 10 * q0 + 48), ucast (n1 - 10 * q1 + 48), ucast (n2 - 10 * q2 + 48),
          ucast (n3 - 10 * q3 + 48), ucast (q3 + 48)])"

function put_dec :: "64 word \<Rightarrow> 8 word list option" where
  "put_dec num =
     (if num < 100000 then Some (put_dec_trunc (ucast num))
      else case do_div num 100000 of
             None \<Rightarrow> None
           | Some (rem, num') \<Rightarrow> map_option (\<lambda>ds. put_dec_full rem @ ds) (put_dec num'))"
  by auto
termination
proof (relation "measure unat")
  fix num :: "64 word" and x and rem :: "32 word" and num' :: "64 word"
  assume big: "\<not> num < 100000" and step: "do_div num 100000 = Some x" "(rem, num') = x"
  obtain r q where "do_div num 100000 = Some (r, q)" "unat q = unat num div unat (100000 :: 32 word)"
    using do_div_correct [of 100000 num] by auto
  with step have "unat num' = unat num div 100000" by auto
  moreover have "100000 \<le> unat num" using big by (simp add: word_less_nat_alt)
  ultimately show "(num', num) \<in> measure unat" by simp
qed simp

declare put_dec.simps [simp del]


section \<open>Numbers and strings\<close>

type_synonym out = "bytes \<times> addr"

definition ADDCH :: "addr \<Rightarrow> 8 word \<Rightarrow> out \<Rightarrow> out" where
  "ADDCH e c st = (case st of (m, str) \<Rightarrow> (if str < e then m(str := c) else m, str + 1))"

definition ZEROPAD :: "32 word" where "ZEROPAD = 1"
definition SIGN :: "32 word" where "SIGN = 2"
definition PLUS :: "32 word" where "PLUS = 4"
definition SPACE :: "32 word" where "SPACE = 8"
definition LEFT :: "32 word" where "LEFT = 16"
definition SMALL :: "32 word" where "SMALL = 32"
definition SPECIAL :: "32 word" where "SPECIAL = 64"

lemmas flag_defs = ZEROPAD_def SIGN_def PLUS_def SPACE_def LEFT_def SMALL_def SPECIAL_def

definition digit_chars :: "8 word list" where
  "digit_chars = [48, 49, 50, 51, 52, 53, 54, 55, 56, 57, 65, 66, 67, 68, 69, 70]"

text \<open>The loop for the bases 8 and 16; a shift by 3 or 4.\<close>

function put_bits :: "nat \<Rightarrow> 8 word \<Rightarrow> 64 word \<Rightarrow> 8 word list" where
  "put_bits shift locase num =
     ((digit_chars ! unat ((ucast num :: 8 word) AND mask shift)) OR locase) #
     (if shift \<noteq> 0 \<and> drop_bit shift num \<noteq> 0 then put_bits shift locase (drop_bit shift num) else [])"
  by auto
termination
proof (relation "measure (\<lambda>(shift, locase, num). unat num)")
  fix shift and locase :: "8 word" and num :: "64 word"
  assume *: "shift \<noteq> 0 \<and> drop_bit shift num \<noteq> 0"
  then have nz: "unat num div 2 ^ shift \<noteq> 0" using unat_shr [of shift num] by (metis unat_eq_0)
  then have "0 < unat num" by (cases "unat num") simp_all
  then have "unat num div 2 ^ shift < unat num" using * one_less_power [of "2 :: nat" shift]
    by (intro div_less_dividend) auto
  then show "((shift, locase, drop_bit shift num), (shift, locase, num)) \<in> measure (\<lambda>(shift, locase, num). unat num)"
    by (simp add: unat_shr)
qed simp

declare put_bits.simps [simp del]

text \<open>\<^verbatim>\<open>while (--size >= 0) ADDCH(buf, c)\<close>, with the value of \<^verbatim>\<open>size\<close> it leaves.\<close>

function pad_loop :: "addr \<Rightarrow> 8 word \<Rightarrow> int \<Rightarrow> out \<Rightarrow> int \<times> out" where
  "pad_loop e c size' st = (if size' - 1 \<ge> 0 then pad_loop e c (size' - 1) (ADDCH e c st) else (size' - 1, st))"
  by auto
termination
  by (relation "measure (\<lambda>(e, c, n, st). nat n)") auto

declare pad_loop.simps [simp del]

text \<open>\<^verbatim>\<open>while (i <= --precision) ADDCH(buf, '0')\<close>.\<close>

function zero_loop :: "addr \<Rightarrow> int \<Rightarrow> int \<Rightarrow> out \<Rightarrow> out" where
  "zero_loop e i precision st = (if i \<le> precision - 1 then zero_loop e i (precision - 1) (ADDCH e 48 st) else st)"
  by auto
termination
  by (relation "measure (\<lambda>(e, i, p, st). nat (p - i))") auto

declare zero_loop.simps [simp del]

definition emit :: "addr \<Rightarrow> 8 word list \<Rightarrow> out \<Rightarrow> out" where
  "emit e cs st = fold (ADDCH e) cs st"

definition number :: "addr \<Rightarrow> 64 word \<Rightarrow> int \<Rightarrow> int \<Rightarrow> int \<Rightarrow> 32 word \<Rightarrow> out \<Rightarrow> out option" where
  "number e num base size0 precision0 type0 st =
     (let need_pfx = (type0 AND SPECIAL \<noteq> 0 \<and> base \<noteq> 10);
          locase = (ucast (type0 AND SMALL) :: 8 word);
          type1 = (if type0 AND LEFT \<noteq> 0 then type0 AND NOT ZEROPAD else type0);
          (sign, num1, size1) =
            (if type1 AND SIGN \<noteq> 0
             then if sint num < 0 then (45, - num, size0 - 1)
                  else if type1 AND PLUS \<noteq> 0 then (43, num, size0 - 1)
                  else if type1 AND SPACE \<noteq> 0 then (32, num, size0 - 1)
                  else (0, num, size0)
             else (0, num, size0));
          size2 = (if need_pfx then if base = 16 then size1 - 2 else size1 - 1 else size1)
      in do { tmp \<leftarrow> (if num1 = 0 then Some [48]
                     else if base \<noteq> 10 then Some (put_bits (if base = 16 then 4 else 3) locase num1)
                     else put_dec num1);
              let i = int (length tmp);
              let precision1 = max precision0 i;
              let (size3, st1) = (if type1 AND (ZEROPAD + LEFT) = 0 then pad_loop e 32 (size2 - precision1) st
                                  else (size2 - precision1, st));
              let st2 = (if sign \<noteq> 0 then ADDCH e sign st1 else st1);
              let st3 = (if need_pfx
                         then let st' = ADDCH e 48 st2 in if base = 16 then ADDCH e (0x58 OR locase) st' else st'
                         else st2);
              let (size4, st4) = (if type1 AND LEFT = 0
                                  then pad_loop e (if type1 AND ZEROPAD \<noteq> 0 then 48 else 32) size3 st3
                                  else (size3, st3));
              let st5 = zero_loop e i precision1 st4;
              let st6 = emit e (rev tmp) st5;
              Some (snd (pad_loop e 32 size4 st6)) })"

text \<open>\<^verbatim>\<open>while (len < field_width--) ADDCH(buf, ' ')\<close>, with the width it leaves.\<close>

function width_loop :: "addr \<Rightarrow> int \<Rightarrow> int \<Rightarrow> out \<Rightarrow> int \<times> out" where
  "width_loop e len field_width st =
     (if len < field_width then width_loop e len (field_width - 1) (ADDCH e 32 st) else (field_width - 1, st))"
  by auto
termination
  by (relation "measure (\<lambda>(e, len, w, st). nat (w - len))") auto

declare width_loop.simps [simp del]

text \<open>\<^verbatim>\<open>for (i = 0; i < len; ++i) ADDCH(buf, *s++)\<close>: the source is read as it is at that moment.\<close>

fun copy_chars :: "addr \<Rightarrow> addr \<Rightarrow> nat \<Rightarrow> out \<Rightarrow> out" where
  "copy_chars e s 0 st = st"
| "copy_chars e s (Suc n) st = copy_chars e (s + 1) n (ADDCH e (fst st s) st)"

definition NULL_text :: "8 word list" where "NULL_text = [60, 78, 85, 76, 76, 62]"

text \<open>An \<^verbatim>\<open>int\<close> passed as a \<^verbatim>\<open>size_t\<close>: -1 is the largest count.\<close>

definition as_size :: "int \<Rightarrow> nat" where "as_size i = unat (word_of_int i :: 32 word)"

definition string_out :: "addr \<Rightarrow> ptr \<Rightarrow> int \<Rightarrow> int \<Rightarrow> 32 word \<Rightarrow> out \<Rightarrow> out" where
  "string_out e s field_width precision flags st =
     (let len = (case s of None \<Rightarrow> min (as_size precision) (length NULL_text)
                         | Some a \<Rightarrow> strnlen (fst st) a (as_size precision));
          (w1, st1) = (if flags AND LEFT = 0 then width_loop e (int len) field_width st else (field_width, st));
          st2 = (case s of None \<Rightarrow> emit e (take len NULL_text) st1 | Some a \<Rightarrow> copy_chars e a len st1)
      in snd (width_loop e (int len) w1 st2))"

text \<open>
  \<^verbatim>\<open>string16\<close>. The array of 16-bit units at an address, little-endian. The wide literal has 32-bit
  characters, of which the cast makes units that are zero every second time.
\<close>

definition units_at :: "bytes \<Rightarrow> addr \<Rightarrow> nat \<Rightarrow> 16 word" where
  "units_at m a i = ucast (m (a + 2 * i)) OR push_bit 8 (ucast (m (a + 2 * i + 1)))"

definition NULL_units :: "nat \<Rightarrow> 16 word" where
  "NULL_units i = (if even i \<and> i div 2 < length NULL_text then ucast (NULL_text ! (i div 2)) else 0)"

definition string16 :: "addr \<Rightarrow> ptr \<Rightarrow> int \<Rightarrow> int \<Rightarrow> 32 word \<Rightarrow> out \<Rightarrow> out" where
  "string16 e s field_width precision flags st =
     (let str = (case s of None \<Rightarrow> NULL_units | Some a \<Rightarrow> units_at (fst st) a);
          utf8 = utf16_to_utf8 str (utf16_strnlen str (as_size precision));
          len = int (length utf8);
          (w1, st1) = (if flags AND LEFT = 0 then width_loop e len field_width st else (field_width, st));
          st2 = emit e utf8 st1
      in snd (width_loop e len w1 st2))"



section \<open>The format interpreter\<close>

datatype va = Va_Int "32 word" | Va_Long "64 word" | Va_Ptr ptr

fun va_int :: "va list \<Rightarrow> (32 word \<times> va list) option" where
  "va_int (Va_Int w # args) = Some (w, args)"
| "va_int _ = None"

fun va_long :: "va list \<Rightarrow> (64 word \<times> va list) option" where
  "va_long (Va_Long w # args) = Some (w, args)"
| "va_long _ = None"

fun va_ptr :: "va list \<Rightarrow> (ptr \<times> va list) option" where
  "va_ptr (Va_Ptr p # args) = Some (p, args)"
| "va_ptr _ = None"

text \<open>The flags; \<^verbatim>\<open>fmt\<close> is advanced before it is looked at.\<close>

partial_function (option) parse_flags :: "bytes \<Rightarrow> addr \<Rightarrow> 32 word \<Rightarrow> (32 word \<times> addr) option" where
  "parse_flags m fmt flags =
     (let c = m (fmt + 1)
      in if c = 45 then parse_flags m (fmt + 1) (flags OR LEFT)
         else if c = 43 then parse_flags m (fmt + 1) (flags OR PLUS)
         else if c = 32 then parse_flags m (fmt + 1) (flags OR SPACE)
         else if c = 35 then parse_flags m (fmt + 1) (flags OR SPECIAL)
         else if c = 48 then parse_flags m (fmt + 1) (flags OR ZEROPAD)
         else Some (flags, fmt + 1))"

definition parse_width :: "bytes \<Rightarrow> addr \<Rightarrow> va list \<Rightarrow> 32 word \<Rightarrow> (int \<times> 32 word \<times> addr \<times> va list) option" where
  "parse_width m fmt args flags =
     (if is_digit (m fmt) then do { (w, fmt') \<leftarrow> skip_atoi m fmt 0; Some (w, flags, fmt', args) }
      else if m fmt = 42
      then do { (a, args') \<leftarrow> va_int args;
                (if sint a < 0 then Some (- sint a, flags OR LEFT, fmt + 1, args')
                 else Some (sint a, flags, fmt + 1, args')) }
      else Some (-1, flags, fmt, args))"

definition parse_precision :: "bytes \<Rightarrow> addr \<Rightarrow> va list \<Rightarrow> (int \<times> addr \<times> va list) option" where
  "parse_precision m fmt args =
     (if m fmt = 46
      then do { (p, fmt', args') \<leftarrow>
                  (if is_digit (m (fmt + 1)) then do { (p, f) \<leftarrow> skip_atoi m (fmt + 1) 0; Some (p, f, args) }
                   else if m (fmt + 1) = 42 then do { (a, r) \<leftarrow> va_int args; Some (sint a, fmt + 2, r) }
                   else Some (-1, fmt + 1, args));
                Some (if p < 0 then 0 else p, fmt', args') }
      else Some (-1, fmt, args))"

text \<open>\<^verbatim>\<open>h l L Z z t\<close>; \<^verbatim>\<open>ll\<close> counts as \<^verbatim>\<open>L\<close>. No qualifier is 0 here.\<close>

definition parse_qualifier :: "bytes \<Rightarrow> addr \<Rightarrow> 8 word \<times> addr" where
  "parse_qualifier m fmt =
     (let c = m fmt
      in if c = 104 \<or> c = 108 \<or> c = 76 \<or> c = 90 \<or> c = 122 \<or> c = 116
         then if c = 108 \<and> m (fmt + 1) = 108 then (76, fmt + 2) else (c, fmt + 1)
         else (0, fmt))"

definition fetch_num :: "8 word \<Rightarrow> 32 word \<Rightarrow> va list \<Rightarrow> (64 word \<times> va list) option" where
  "fetch_num qualifier flags args =
     (if qualifier = 76 then va_long args
      else do { (a, args') \<leftarrow> va_int args;
                Some (if qualifier = 108 then if flags AND SIGN \<noteq> 0 then scast a else ucast a
                      else if qualifier = 90 \<or> qualifier = 122 then ucast a
                      else if qualifier = 116 then scast a
                      else if qualifier = 104
                      then if flags AND SIGN \<noteq> 0 then scast (ucast a :: 16 word) else ucast (ucast a :: 16 word)
                      else if flags AND SIGN \<noteq> 0 then scast a else ucast a,
                      args') })"

text \<open>\<^verbatim>\<open>while (--field_width > 0) ADDCH(str, ' ')\<close>, with the width it leaves.\<close>

function char_pad :: "addr \<Rightarrow> int \<Rightarrow> out \<Rightarrow> int \<times> out" where
  "char_pad e field_width st =
     (if field_width - 1 > 0 then char_pad e (field_width - 1) (ADDCH e 32 st) else (field_width - 1, st))"
  by auto
termination
  by (relation "measure (\<lambda>(e, w, st). nat w)") auto

declare char_pad.simps [simp del]

text \<open>
  The conversion at \<^verbatim>\<open>*fmt\<close>: the format pointer before the increment of the loop, the arguments
  left and the output.
\<close>

definition convert ::
    "addr \<Rightarrow> addr \<Rightarrow> 32 word \<Rightarrow> int \<Rightarrow> int \<Rightarrow> 8 word \<Rightarrow> addr \<Rightarrow> va list \<Rightarrow> out \<Rightarrow> (addr \<times> va list \<times> out) option" where
  "convert buf e flags field_width precision qualifier fmt args st =
     (let c = fst st fmt;
          num = (\<lambda>base flags'. do { (n, args') \<leftarrow> fetch_num qualifier flags' args;
                                   st' \<leftarrow> number e n base field_width precision flags' st;
                                   Some (fmt, args', st') })
      in if c = 99
         then do { (a, args') \<leftarrow> va_int args;
                   let (w1, st1) = (if flags AND LEFT = 0 then char_pad e field_width st else (field_width, st));
                   let st2 = ADDCH e (ucast a) st1;
                   Some (fmt, args', snd (char_pad e w1 st2)) }
         else if c = 115
         then do { (s, args') \<leftarrow> va_ptr args;
                   Some (fmt, args', if qualifier = 108 then string16 e s field_width precision flags st
                                     else string_out e s field_width precision flags st) }
         else if c = 110
         then do { (p, args') \<leftarrow> va_ptr args;
                   ip \<leftarrow> p;
                   Some (fmt, args', (store_long (fst st) ip (of_nat (snd st - buf)), snd st)) }
         else if c = 37 then Some (fmt, args, ADDCH e 37 st)
         else if c = 111 then num 8 flags
         else if c = 120 then num 16 (flags OR SMALL)
         else if c = 88 then num 16 flags
         else if c = 100 \<or> c = 105 then num 10 (flags OR SIGN)
         else if c = 117 then num 10 flags
         else let st1 = ADDCH e 37 st
              in if fst st1 fmt \<noteq> 0 then Some (fmt, args, ADDCH e (fst st1 fmt) st1)
                 else Some (fmt - 1, args, st1))"

definition directive :: "addr \<Rightarrow> addr \<Rightarrow> addr \<Rightarrow> va list \<Rightarrow> out \<Rightarrow> (addr \<times> va list \<times> out) option" where
  "directive buf e fmt args st =
     do { (flags, f1) \<leftarrow> parse_flags (fst st) fmt 0;
          (field_width, flags', f2, args1) \<leftarrow> parse_width (fst st) f1 args flags;
          (precision, f3, args2) \<leftarrow> parse_precision (fst st) f2 args1;
          let (qualifier, f4) = parse_qualifier (fst st) f3;
          convert buf e flags' field_width precision qualifier f4 args2 st }"

partial_function (option) format_loop :: "addr \<Rightarrow> addr \<Rightarrow> addr \<Rightarrow> va list \<Rightarrow> out \<Rightarrow> out option" where
  "format_loop buf e fmt args st =
     (if fst st fmt = 0 then Some st
      else if fst st fmt \<noteq> 37 then format_loop buf e (fmt + 1) args (ADDCH e (fst st fmt) st)
      else do { (fmt', args', st') \<leftarrow> directive buf e fmt args st;
                format_loop buf e (fmt' + 1) args' st' })"

text \<open>The end of the buffer is moved to the end of the address space when the sum wraps around.\<close>

definition vsnprintf :: "bytes \<Rightarrow> addr \<Rightarrow> nat \<Rightarrow> addr \<Rightarrow> va list \<Rightarrow> (nat \<times> bytes) option" where
  "vsnprintf m buf n fmt args =
     (let e0 = (buf + n) mod 2 ^ 32;
          (e, n') = (if e0 < buf then (2 ^ 32 - 1, 2 ^ 32 - 1 - buf) else (e0, n))
      in do { st \<leftarrow> format_loop buf e fmt args (m, buf);
              (if n' > 0
               then let (m1, str1) = ADDCH e 0 st;
                        m2 = (if str1 > e then m1(e - 1 := 0) else m1)
                    in Some (str1 - 1 - buf, m2)
               else Some (snd st - buf, fst st)) })"

definition vscnprintf :: "bytes \<Rightarrow> addr \<Rightarrow> nat \<Rightarrow> addr \<Rightarrow> va list \<Rightarrow> (nat \<times> bytes) option" where
  "vscnprintf m buf n fmt args =
     do { (i, m') \<leftarrow> vsnprintf m buf n fmt args;
          Some (if i < n then i else if n \<noteq> 0 then n - 1 else 0, m') }"

text \<open>The calls with a variable number of arguments collect them and go on.\<close>

definition snprintf :: "bytes \<Rightarrow> addr \<Rightarrow> nat \<Rightarrow> addr \<Rightarrow> va list \<Rightarrow> (nat \<times> bytes) option" where
  "snprintf m buf n fmt args = vsnprintf m buf n fmt args"

definition scnprintf :: "bytes \<Rightarrow> addr \<Rightarrow> nat \<Rightarrow> addr \<Rightarrow> va list \<Rightarrow> (nat \<times> bytes) option" where
  "scnprintf m buf n fmt args = vscnprintf m buf n fmt args"

definition INT_MAX :: nat where "INT_MAX = 2 ^ 31 - 1"

definition vsprintf :: "bytes \<Rightarrow> addr \<Rightarrow> addr \<Rightarrow> va list \<Rightarrow> (nat \<times> bytes) option" where
  "vsprintf m buf fmt args = vsnprintf m buf INT_MAX fmt args"

definition sprintf :: "bytes \<Rightarrow> addr \<Rightarrow> addr \<Rightarrow> va list \<Rightarrow> (nat \<times> bytes) option" where
  "sprintf m buf fmt args = vsprintf m buf fmt args"

text \<open>
  \<^verbatim>\<open>simple_itoa\<close>: the digits are put into a static array of 22 bytes from its end; the result is
  the string that starts at the pointer returned, without its zero.
\<close>

function simple_itoa_loop :: "32 word \<Rightarrow> 8 word list \<Rightarrow> 8 word list" where
  "simple_itoa_loop i acc =
     (let acc' = (48 + ucast (i mod 10)) # acc; i' = i div 10
      in if i' > 0 then simple_itoa_loop i' acc' else acc')"
  by auto
termination
proof (relation "measure (\<lambda>(i, acc). unat i)")
  fix i :: "32 word" and acc acc' :: "8 word list" and i'
  assume i': "i' = i div 10" and "0 < i'"
  then have "i' \<noteq> 0" by auto
  then have "0 < unat i'" by (simp only: unat_gt_0 not_False_eq_True)
  moreover have "unat i' = unat i div 10" unfolding i' by (simp add: unat_div)
  ultimately show "((i', acc'), (i, acc)) \<in> measure (\<lambda>(i, acc). unat i)" by simp
qed simp

declare simple_itoa_loop.simps [simp del]

definition simple_itoa :: "32 word \<Rightarrow> 8 word list" where
  "simple_itoa i = simple_itoa_loop i []"

definition str2off :: "bytes \<Rightarrow> addr \<Rightarrow> (bool \<times> 64 word) option" where
  "str2off m p = do { (num, e) \<leftarrow> simple_strtoull m p 16; Some (m p \<noteq> 0 \<and> m e = 0, num) }"

definition str2long :: "bytes \<Rightarrow> addr \<Rightarrow> (bool \<times> 32 word) option" where
  "str2long m p = do { (num, e) \<leftarrow> simple_strtoul m p 16; Some (m p \<noteq> 0 \<and> m e = 0, num) }"



section \<open>Decimal digits\<close>

text \<open>The reference: the decimal digits of a number, least significant first, as characters.\<close>

fun dec_digits :: "nat \<Rightarrow> 8 word list" where
  "dec_digits n = of_nat (48 + n mod 10) # (if n < 10 then [] else dec_digits (n div 10))"

declare dec_digits.simps [simp del]

text \<open>Five digits, with leading zeros.\<close>

definition dec5 :: "nat \<Rightarrow> 8 word list" where
  "dec5 n = map (\<lambda>k. of_nat (48 + n div 10 ^ k mod 10)) [0..<5]"

text \<open>Small words as numbers.\<close>

lemma drop_of_nat: "n < 2 ^ 32 \<Longrightarrow> drop_bit k (of_nat n :: 32 word) = of_nat (n div 2 ^ k)"
proof -
  assume "n < 2 ^ 32"
  then have "unat (drop_bit k (of_nat n :: 32 word)) = n div 2 ^ k"
    by (subst unat_drop_bit_eq) (simp add: drop_bit_eq_div unat_of_nat)
  then show ?thesis by (rule of_unat)
qed

lemma and_f_of_nat: "(of_nat n :: 32 word) AND 0xf = of_nat (n mod 16)"
proof -
  have "(of_nat n :: 32 word) AND 0xf = take_bit 4 (of_nat n)" by (simp add: take_bit_eq_mask mask_eq_exp_minus_1)
  also have "\<dots> = of_nat (take_bit 4 n)" by (simp only: take_bit_of_nat)
  finally show ?thesis by (simp add: take_bit_eq_mod)
qed

lemma ucast_of_nat32: "ucast (of_nat n :: 32 word) = (of_nat n :: 8 word)"
proof -
  have "ucast (of_nat n :: 32 word) = (of_nat (take_bit 32 n) :: 8 word)" by (simp only: unsigned_of_nat) simp
  moreover have "unat (of_nat (take_bit 32 n) :: 8 word) = unat (of_nat n :: 8 word)"
    unfolding unat_of_nat take_bit_eq_mod by (rule mod_mod_cancel) simp
  ultimately show ?thesis by (simp only: word_unat_eq_iff)
qed

lemma tenth: "x < 400 \<Longrightarrow> x * 205 div 2048 = x div (10 :: nat)"
proof -
  assume "x < 400"
  moreover define a r where "a = x div 10" and "r = x mod 10"
  ultimately have x: "x = 10 * a + r" "r < 10" "a < 40" by simp_all
  have "2048 * a \<le> x * 205" "x * 205 < 2048 * (a + 1)" using x by simp_all
  then show ?thesis unfolding a_def by (metis div_nat_eqI Suc_eq_plus1 mult.commute)
qed

lemma tenth_short: "x < 69 \<Longrightarrow> x * 13 div 128 = x div (10 :: nat)"
proof -
  assume "x < 69"
  moreover define a r where "a = x div 10" and "r = x mod 10"
  ultimately have x: "x < 69" "x = 10 * a + r" "r < 10" by simp_all
  then have "a < 6 \<or> a = 6 \<and> r < 9" by linarith
  then have "128 * a \<le> x * 13" "x * 13 < 128 * (a + 1)" using x by auto
  then show ?thesis unfolding a_def by (metis div_nat_eqI Suc_eq_plus1 mult.commute)
qed

text \<open>The division by ten with a multiplication, and the character of the remainder.\<close>

lemma word_tenth: "n < 400 \<Longrightarrow> drop_bit 11 (of_nat n * 0xcd :: 32 word) = of_nat (n div 10)"
  using drop_of_nat [of "n * 205" 11] tenth [of n] by simp

lemma word_tenth_short: "n < 69 \<Longrightarrow> drop_bit 7 (of_nat n * 0xd :: 32 word) = of_nat (n div 10)"
  using drop_of_nat [of "n * 13" 7] tenth_short [of n] by simp

lemma digit_char: "ucast (of_nat n - 10 * of_nat (n div 10) + 48 :: 32 word) = (of_nat (48 + n mod 10) :: 8 word)"
proof -
  have "of_nat n = (10 * of_nat (n div 10) + of_nat (n mod 10) :: 32 word)"
    by (metis of_nat_add of_nat_mult of_nat_numeral mult_div_mod_eq)
  then have "of_nat n - 10 * of_nat (n div 10) + 48 = (of_nat (48 + n mod 10) :: 32 word)" by simp
  then show ?thesis by (simp only: ucast_of_nat32)
qed

lemma last_char: "ucast (of_nat n + 48 :: 32 word) = (of_nat (48 + n) :: 8 word)"
proof -
  have "of_nat n + 48 = (of_nat (48 + n) :: 32 word)" by simp
  then show ?thesis by (simp only: ucast_of_nat32)
qed

text \<open>The hexadecimal digits of \<open>Q\<close> and the four intermediate sums of the conversion.\<close>

definition D1 :: "nat \<Rightarrow> nat" where "D1 Q = Q div 16 mod 16"
definition D2 :: "nat \<Rightarrow> nat" where "D2 Q = Q div 256 mod 16"
definition D3 :: "nat \<Rightarrow> nat" where "D3 Q = Q div 4096"
definition N0 :: "nat \<Rightarrow> nat" where "N0 Q = 6 * (D3 Q + D2 Q + D1 Q) + Q mod 16"
definition N1 :: "nat \<Rightarrow> nat" where "N1 Q = N0 Q div 10 + 9 * D3 Q + 5 * D2 Q + D1 Q"
definition N2 :: "nat \<Rightarrow> nat" where "N2 Q = N1 Q div 10 + 2 * D2 Q"
definition N3 :: "nat \<Rightarrow> nat" where "N3 Q = N2 Q div 10 + 4 * D3 Q"

lemma ten_split: "r < 10 \<Longrightarrow> x = 10 * b + r \<Longrightarrow> x mod 10 = r \<and> x div 10 = (b :: nat)"
  by simp

lemma stages:
  assumes "Q < 100000"
  shows "N0 Q < 400" "N1 Q < 400" "N2 Q < 69" "N3 Q < 400"
    and "Q mod 10 = N0 Q mod 10" and "Q div 10 = N1 Q + 400 * D3 Q + 20 * D2 Q"
    and "Q div 10 div 10 = N2 Q + 40 * D3 Q" and "Q div 10 div 10 div 10 = N3 Q"
proof -
  define r a0 r0 a1 r1 a2 r2 where "r = Q mod 16" "a0 = N0 Q div 10" "r0 = N0 Q mod 10"
    "a1 = N1 Q div 10" "r1 = N1 Q mod 10" "a2 = N2 Q div 10" "r2 = N2 Q mod 10"
  note defs = this
  have Q: "Q = 4096 * D3 Q + 256 * D2 Q + 16 * D1 Q + r"
  proof -
    have "Q div 16 div 16 = Q div 256" "Q div 256 div 16 = Q div 4096" by (simp_all add: div_mult2_eq [symmetric])
    then show ?thesis
      using mult_div_mod_eq [of 16 Q] mult_div_mod_eq [of 16 "Q div 16"] mult_div_mod_eq [of 16 "Q div 256"]
      unfolding D1_def D2_def D3_def defs by linarith
  qed
  have d: "D1 Q < 16" "D2 Q < 16" "D3 Q \<le> 24" "r < 16" using assms by (simp_all add: D1_def D2_def D3_def defs)
  have n: "N0 Q = 10 * a0 + r0" "N1 Q = 10 * a1 + r1" "N2 Q = 10 * a2 + r2" "r0 < 10" "r1 < 10" "r2 < 10"
    by (simp_all add: defs)
  have s: "N0 Q = 6 * D3 Q + 6 * D2 Q + 6 * D1 Q + r" "N1 Q = a0 + 9 * D3 Q + 5 * D2 Q + D1 Q"
    "N2 Q = a1 + 2 * D2 Q" "N3 Q = a2 + 4 * D3 Q" by (simp_all add: N0_def N1_def N2_def N3_def defs)
  show lt0: "N0 Q < 400" and lt1: "N1 Q < 400" and lt2: "N2 Q < 69" and "N3 Q < 400"
    by (use s n d in linarith)+
  have one: "Q mod 10 = r0 \<and> Q div 10 = N1 Q + 400 * D3 Q + 20 * D2 Q"
    by (rule ten_split [OF n(4)]) (simp only: distrib_left mult.assoc [symmetric], use Q s n in linarith)
  then show "Q mod 10 = N0 Q mod 10" and q1: "Q div 10 = N1 Q + 400 * D3 Q + 20 * D2 Q" by (simp_all add: defs)
  have "Q div 10 mod 10 = r1 \<and> Q div 10 div 10 = N2 Q + 40 * D3 Q"
    unfolding q1 by (rule ten_split [OF n(5)]) (simp only: distrib_left mult.assoc [symmetric], use s n in linarith)
  then show q2: "Q div 10 div 10 = N2 Q + 40 * D3 Q" by simp
  have "Q div 10 div 10 mod 10 = r2 \<and> Q div 10 div 10 div 10 = N3 Q"
    unfolding q2 by (rule ten_split [OF n(6)]) (use s n in linarith)
  then show "Q div 10 div 10 div 10 = N3 Q" by simp
qed

text \<open>The words that the routines compute are these numbers.\<close>

lemma hex_digits:
  assumes "Q < 100000"
  shows "drop_bit 4 (of_nat Q :: 32 word) AND 0xf = of_nat (D1 Q)" "drop_bit 8 (of_nat Q :: 32 word) AND 0xf = of_nat (D2 Q)"
    and "drop_bit 12 (of_nat Q :: 32 word) = of_nat (D3 Q)"
  using assms by (simp_all add: drop_of_nat and_f_of_nat D1_def D2_def D3_def)

lemma sum_words:
  "6 * (of_nat (D3 Q) + of_nat (D2 Q) + of_nat (D1 Q)) + of_nat (Q mod 16) = (of_nat (N0 Q) :: 32 word)"
  "of_nat (N0 Q div 10) + 9 * of_nat (D3 Q) + 5 * of_nat (D2 Q) + of_nat (D1 Q) = (of_nat (N1 Q) :: 32 word)"
  "of_nat (N1 Q div 10) + 2 * of_nat (D2 Q) = (of_nat (N2 Q) :: 32 word)"
  "of_nat (N2 Q div 10) + 4 * of_nat (D3 Q) = (of_nat (N3 Q) :: 32 word)"
  by (simp_all add: N0_def N1_def N2_def N3_def)

lemma of_nat_zero32: "n < 2 ^ 32 \<Longrightarrow> (of_nat n = (0 :: 32 word)) = (n = 0)"
  by (simp add: word_unat_eq_iff unat_of_nat)

lemmas digit_words = hex_digits and_f_of_nat sum_words word_tenth word_tenth_short digit_char last_char stages(1-4)

lemma digits_of_stages:
  assumes "Q < 100000"
  shows "N0 Q mod 10 = Q mod 10" "N1 Q mod 10 = Q div 10 mod 10" "N2 Q mod 10 = Q div 100 mod 10"
    "N3 Q mod 10 = Q div 1000 mod 10" "N3 Q div 10 = Q div 10000"
proof -
  note st = stages [OF assms]
  have sq: "Q div 10 div 10 = Q div 100" "Q div 100 div 10 = Q div 1000" "Q div 1000 div 10 = Q div 10000"
    by (simp_all add: div_mult2_eq [symmetric])
  show "N0 Q mod 10 = Q mod 10" using st(5) by simp
  show "N1 Q mod 10 = Q div 10 mod 10"
    using st(6) mod_mult_self2 [of "N1 Q" 10 "40 * D3 Q + 2 * D2 Q"] by (simp add: algebra_simps)
  show "N2 Q mod 10 = Q div 100 mod 10"
    using st(7) mod_mult_self2 [of "N2 Q" 10 "4 * D3 Q"] sq by (simp add: algebra_simps)
  show "N3 Q mod 10 = Q div 1000 mod 10" "N3 Q div 10 = Q div 10000" using st(8) sq by simp_all
qed

lemma put_dec_full_dec5:
  assumes "Q < 100000"
  shows "put_dec_full (of_nat Q) = dec5 Q"
proof -
  have "Q div 10000 < 10" using assms by simp
  moreover have "put_dec_full (of_nat Q) =
      [of_nat (48 + N0 Q mod 10), of_nat (48 + N1 Q mod 10), of_nat (48 + N2 Q mod 10),
       of_nat (48 + N3 Q mod 10), of_nat (48 + N3 Q div 10)]"
    unfolding put_dec_full_def Let_def by (simp only: digit_words assms)
  ultimately show ?thesis
    by (simp add: digits_of_stages [OF assms] dec5_def upt_rec)
qed

lemma stage_zero:
  assumes "Q < 100000"
  shows "((of_nat (N1 Q) :: 32 word) = 0) = (Q < 10)"
    "((of_nat (N2 Q) :: 32 word) \<noteq> 0 \<or> (of_nat (D3 Q) :: 32 word) \<noteq> 0) = (\<not> Q < 100)"
    "((of_nat (N3 Q) :: 32 word) = 0) = (Q < 1000)" "((of_nat (N3 Q div 10) :: 32 word) = 0) = (Q < 10000)"
proof -
  note st = stages [OF assms]
  have "D3 Q < 2 ^ 32" using assms by (simp add: D3_def)
  moreover have z: "N1 Q = 0 \<Longrightarrow> D3 Q = 0 \<and> D2 Q = 0" by (simp add: N1_def)
  moreover have "(N1 Q = 0) = (Q div 10 = 0)" using z st(6) by auto
  moreover have "(N2 Q = 0 \<and> D3 Q = 0) = (Q div 10 div 10 = 0)" using st(7) by simp
  moreover have "(Q div 10 div 10 = 0) = (Q < 100)" "(Q div 10 div 10 div 10 = 0) = (Q < 1000)"
    by (simp_all add: div_mult2_eq [symmetric] div_eq_0_iff)
  moreover have "N3 Q div 10 = Q div 10000" by (rule digits_of_stages(5) [OF assms])
  ultimately show "((of_nat (N1 Q) :: 32 word) = 0) = (Q < 10)"
    "((of_nat (N2 Q) :: 32 word) \<noteq> 0 \<or> (of_nat (D3 Q) :: 32 word) \<noteq> 0) = (\<not> Q < 100)"
    "((of_nat (N3 Q) :: 32 word) = 0) = (Q < 1000)" "((of_nat (N3 Q div 10) :: 32 word) = 0) = (Q < 10000)"
    using st(1-4,8) assms by (auto simp: of_nat_zero32 div_eq_0_iff)
qed

lemma put_dec_trunc_digits:
  assumes "Q < 100000"
  shows "put_dec_trunc (of_nat Q) = dec_digits Q"
proof -
  have "Q div 10000 < 10" using assms by simp
  have sq: "Q div 10 div 10 = Q div 100" "Q div 100 div 10 = Q div 1000" "Q div 1000 div 10 = Q div 10000"
    by (simp_all add: div_mult2_eq [symmetric])
  have "put_dec_trunc (of_nat Q) =
      of_nat (48 + N0 Q mod 10) #
      (if \<not> Q < 10 then of_nat (48 + N1 Q mod 10) #
         (if \<not> Q < 100 then of_nat (48 + N2 Q mod 10) #
            (if \<not> Q < 1000 then of_nat (48 + N3 Q mod 10) #
               (if \<not> Q < 10000 then [of_nat (48 + N3 Q div 10)] else []) else []) else []) else [])"
    unfolding put_dec_trunc_def Let_def by (simp only: digit_words stage_zero assms)
  moreover have "dec_digits Q =
      of_nat (48 + Q mod 10) #
      (if \<not> Q < 10 then of_nat (48 + Q div 10 mod 10) #
         (if \<not> Q < 100 then of_nat (48 + Q div 100 mod 10) #
            (if \<not> Q < 1000 then of_nat (48 + Q div 1000 mod 10) #
               (if \<not> Q < 10000 then [of_nat (48 + Q div 10000)] else []) else []) else []) else [])"
    using \<open>Q div 10000 < 10\<close> dec_digits.simps [of Q] dec_digits.simps [of "Q div 10"] dec_digits.simps [of "Q div 100"]
      dec_digits.simps [of "Q div 1000"] dec_digits.simps [of "Q div 10000"]
    by (simp add: sq div_less_iff_less_mult)
  ultimately show ?thesis by (simp add: digits_of_stages [OF assms])
qed

lemma dec_digits_split:
  assumes "100000 \<le> n"
  shows "dec_digits n = dec5 (n mod 100000) @ dec_digits (n div 100000)"
proof -
  have sq: "n div 10 div 10 = n div 100" "n div 100 div 10 = n div 1000" "n div 1000 div 10 = n div 10000"
    "n div 10000 div 10 = n div 100000" by (simp_all add: div_mult2_eq [symmetric])
  have "n mod 100000 div 10 ^ k mod 10 = n div 10 ^ k mod 10" if "k < 5" for k
  proof -
    have "(100000 :: nat) = 10 ^ k * 10 ^ (5 - k)" using that by (simp add: power_add [symmetric])
    then have "n mod 100000 div 10 ^ k = n div 10 ^ k mod 10 ^ (5 - k)" by (simp only: mod_mult2_eq) simp
    then show ?thesis using that by (simp add: mod_mod_cancel)
  qed
  then have "dec5 (n mod 100000) = dec5 n" by (simp add: dec5_def)
  moreover have "dec_digits n = dec5 n @ dec_digits (n div 100000)"
    using assms dec_digits.simps [of n] dec_digits.simps [of "n div 10"] dec_digits.simps [of "n div 100"]
      dec_digits.simps [of "n div 1000"] dec_digits.simps [of "n div 10000"]
    by (simp add: sq dec5_def upt_rec div_less_iff_less_mult)
  ultimately show ?thesis by simp
qed

theorem put_dec_digits: "put_dec num = Some (dec_digits (unat num))"
proof (induction num rule: put_dec.induct)
  case (1 num)
  show ?case
  proof (cases "num < 100000")
    case True
    then have "unat num < 100000" by (simp add: word_less_nat_alt)
    moreover have "ucast num = (of_nat (unat num) :: 32 word)" by simp
    ultimately show ?thesis using True put_dec_trunc_digits [of "unat num"] by (simp add: put_dec.simps)
  next
    case False
    obtain r q where step: "do_div num 100000 = Some (r, q)" "unat q = unat num div 100000" "unat r = unat num mod 100000"
      using do_div_correct [of 100000 num] by auto
    have "r = of_nat (unat num mod 100000)" by (rule of_unat [OF step(3)])
    then have "put_dec_full r = dec5 (unat num mod 100000)" by (simp add: put_dec_full_dec5)
    moreover have "100000 \<le> unat num" using False by (simp add: word_less_nat_alt)
    ultimately show ?thesis using "1.IH" [OF False step(1) refl] False step
      by (simp add: put_dec.simps [of num] dec_digits_split [of "unat num"])
  qed
qed

lemma simple_itoa_digits: "simple_itoa i = rev (dec_digits (unat i))"
proof -
  have "simple_itoa_loop i acc = rev (dec_digits (unat i)) @ acc" for acc
  proof (induction i acc rule: simple_itoa_loop.induct)
    case (1 i acc)
    have u: "unat (i div 10) = unat i div 10" "unat (i mod 10) = unat i mod 10"
      by (simp_all add: unat_div unat_mod)
    have c: "(48 + ucast (i mod 10) :: 8 word) = of_nat (48 + unat i mod 10)"
      using ucast_of_nat32 [of "unat i mod 10"] by (simp add: of_unat [OF u(2)] del: of_nat_mod)
    have "(i div 10 > 0) = (\<not> unat i < 10)" using u(1) by (metis div_eq_0_iff unat_eq_0 word_neq_0_conv zero_neq_numeral)
    then show ?case using "1.IH" [OF refl refl] u c dec_digits.simps [of "unat i"]
      by (subst simple_itoa_loop.simps) (simp add: Let_def)
  qed
  then show ?thesis by (simp add: simple_itoa_def)
qed

text \<open>The digits are read back by \<^verbatim>\<open>simple_strtoul\<close>: they are decimal, and their value is the number.\<close>

lemma digit_char_props:
  assumes "d < 10"
  shows "digit_ok 10 (of_nat (48 + d)) \<and> digit_nat (of_nat (48 + d)) = d \<and> (of_nat (48 + d) :: 8 word) \<noteq> 0"
proof -
  have "list_all (\<lambda>d. digit_ok 10 (of_nat (48 + d)) \<and> digit_nat (of_nat (48 + d)) = d \<and> (of_nat (48 + d) :: 8 word) \<noteq> 0) [0..<10]"
    by code_simp
  with assms show ?thesis unfolding list_all_iff by (metis atLeastLessThan_iff le0 set_upt)
qed

lemma dec_digits_ok: "list_all (digit_ok 10) (dec_digits n)" "0 \<notin> set (dec_digits n)" "dec_digits n \<noteq> []"
proof -
  have "list_all (\<lambda>c. digit_ok 10 c \<and> c \<noteq> 0) (dec_digits n)"
    by (induction n rule: dec_digits.induct) (subst dec_digits.simps, use digit_char_props in \<open>simp del: of_nat_add\<close>)
  then show "list_all (digit_ok 10) (dec_digits n)" "0 \<notin> set (dec_digits n)" by (auto simp: list_all_iff)
  show "dec_digits n \<noteq> []" by (subst dec_digits.simps) simp
qed

lemma number_of_dec_digits: "number_of 10 (rev (dec_digits n)) = n"
proof (induction n rule: dec_digits.induct)
  case (1 n)
  have "digit_nat (of_nat (48 + n mod 10)) = n mod 10" using digit_char_props [of "n mod 10"] by simp
  with 1 show ?case by (subst dec_digits.simps) (simp add: number_of_def)
qed


section \<open>Output\<close>

text \<open>Every loop of the file emits a list of characters; what is emitted is stored up to \<^verbatim>\<open>end\<close>.\<close>

lemma emit_nil [simp]: "emit e [] st = st"
  by (simp add: emit_def)

lemma emit_Cons: "emit e (c # cs) st = emit e cs (ADDCH e c st)"
  by (simp add: emit_def)

lemma ADDCH_emit: "ADDCH e c st = emit e [c] st"
  by (simp add: emit_def)

lemma emit_emit [simp]: "emit e ds (emit e cs st) = emit e (cs @ ds) st"
  by (simp add: emit_def)

lemma emit_eq: "emit e cs (m, s) = (write_bytes m s (take (e - s) cs), s + length cs)"
proof (induction cs arbitrary: m s)
  case (Cons c cs)
  show ?case
  proof (cases "s < e")
    case True
    then have "e - s = Suc (e - Suc s)" by simp
    then show ?thesis using True Cons by (simp add: emit_Cons ADDCH_def fun_upd_def)
  qed (use Cons in \<open>simp add: emit_Cons ADDCH_def\<close>)
qed simp

lemma pad_loop_emit: "pad_loop e c n st = (if n > 0 then - 1 else n - 1, emit e (replicate (nat n) c) st)"
proof (induction e c n st rule: pad_loop.induct)
  case (1 e c n st)
  show ?case
  proof (cases "n - 1 \<ge> 0")
    case True
    then have "nat n = Suc (nat (n - 1))" by simp
    then show ?thesis using True 1 by (subst pad_loop.simps) (simp add: emit_Cons)
  qed (subst pad_loop.simps, simp)
qed

lemma zero_loop_emit: "zero_loop e i p st = emit e (replicate (nat (p - i)) 48) st"
proof (induction e i p st rule: zero_loop.induct)
  case (1 e i p st)
  show ?case
  proof (cases "i \<le> p - 1")
    case True
    then have "nat (p - i) = Suc (nat (p - 1 - i))" by simp
    then show ?thesis using True 1 by (subst zero_loop.simps) (simp add: emit_Cons)
  qed (subst zero_loop.simps, simp)
qed

lemma width_loop_emit: "width_loop e len w st = (min w len - 1, emit e (replicate (nat (w - len)) 32) st)"
proof (induction e len w st rule: width_loop.induct)
  case (1 e len w st)
  show ?case
  proof (cases "len < w")
    case True
    then have "nat (w - len) = Suc (nat (w - 1 - len))" by simp
    then show ?thesis using True 1 by (subst width_loop.simps) (simp add: emit_Cons)
  qed (subst width_loop.simps, simp)
qed

lemma char_pad_emit: "char_pad e w st = (min w 1 - 1, emit e (replicate (nat (w - 1)) 32) st)"
proof (induction e w st rule: char_pad.induct)
  case (1 e w st)
  show ?case
  proof (cases "w - 1 > 0")
    case True
    then have "nat (w - 1) = Suc (nat (w - 1 - 1))" by simp
    then show ?thesis using True 1 by (subst char_pad.simps) (simp add: emit_Cons)
  qed (subst char_pad.simps, simp)
qed

lemmas loops_emit = pad_loop_emit zero_loop_emit width_loop_emit char_pad_emit

text \<open>
  The text of a number: the sign, the prefix and the digits filled with zeros to the precision; what
  the field has left over is spaces in front, zeros behind the prefix, or spaces behind.
\<close>

definition number_sign :: "64 word \<Rightarrow> 32 word \<Rightarrow> 8 word list" where
  "number_sign num type =
     (if type AND SIGN = 0 then []
      else if sint num < 0 then [45] else if type AND PLUS \<noteq> 0 then [43] else if type AND SPACE \<noteq> 0 then [32] else [])"

definition number_prefix :: "int \<Rightarrow> 32 word \<Rightarrow> 8 word list" where
  "number_prefix base type =
     (if type AND SPECIAL = 0 \<or> base = 10 then [] else if base = 16 then [48, 0x58 OR ucast (type AND SMALL)] else [48])"

definition number_digits :: "64 word \<Rightarrow> int \<Rightarrow> 32 word \<Rightarrow> 8 word list" where
  "number_digits num base type =
     (let n = (if type AND SIGN \<noteq> 0 \<and> sint num < 0 then - num else num)
      in if base = 10 \<or> n = 0 then rev (dec_digits (unat n))
         else rev (put_bits (if base = 16 then 4 else 3) (ucast (type AND SMALL)) n))"

definition number_text :: "64 word \<Rightarrow> int \<Rightarrow> int \<Rightarrow> int \<Rightarrow> 32 word \<Rightarrow> 8 word list" where
  "number_text num base size' precision type =
     (let front = number_sign num type @ number_prefix base type;
          digits = number_digits num base type;
          body = replicate (nat (precision - int (length digits))) 48 @ digits;
          gap = nat (size' - int (length front + length body))
      in if type AND LEFT \<noteq> 0 then front @ body @ replicate gap 32
         else if type AND ZEROPAD \<noteq> 0 then front @ replicate gap 48 @ body
         else replicate gap 32 @ front @ body)"

lemma length_number_text:
  "int (length (number_text num base size' precision type)) =
     max size' (int (length (number_sign num type) + length (number_prefix base type)) +
                max precision (int (length (number_digits num base type))))"
  by (simp add: number_text_def Let_def)

lemma flag_bits:
  "(t AND NOT ZEROPAD) AND SIGN = t AND SIGN" "(t AND NOT ZEROPAD) AND PLUS = t AND PLUS"
  "(t AND NOT ZEROPAD) AND SPACE = t AND SPACE" "(t AND NOT ZEROPAD) AND LEFT = t AND LEFT"
  "(t AND NOT ZEROPAD) AND ZEROPAD = 0"
  by (simp_all add: flag_defs and.assoc)

lemma flag_none: "t AND (ZEROPAD + LEFT) = 0 \<longleftrightarrow> t AND ZEROPAD = 0 \<and> t AND LEFT = 0"
proof -
  have "t AND (ZEROPAD + LEFT) = (t AND ZEROPAD) OR (t AND LEFT)"
    by (simp add: flag_defs bit.conj_disj_distrib [symmetric])
  then show ?thesis by (simp only: or_eq_0_iff)
qed

text \<open>The padding of \<^verbatim>\<open>number\<close>, with the conditions and the emitted parts abstracted.\<close>

lemma number_padding:
  fixes width precision :: int
  assumes "i = int (length digits)" and "p = max precision i"
  shows "(case if z0 \<and> l0 then pad_loop e 32 (width - p) st else (width - p, st) of
            (size3, st1) \<Rightarrow>
              case if l0 then pad_loop e (if \<not> z0 then 48 else 32) size3 (emit e pfx (emit e sg st1))
                   else (size3, emit e pfx (emit e sg st1)) of
                (size4, st4) \<Rightarrow> Some (snd (pad_loop e 32 size4 (emit e digits (zero_loop e i p st4))))) =
         Some (emit e (if \<not> l0 then (sg @ pfx) @ (replicate (nat (precision - i)) 48 @ digits) @ replicate (nat (width - p)) 32
                       else if \<not> z0 then (sg @ pfx) @ replicate (nat (width - p)) 48 @ replicate (nat (precision - i)) 48 @ digits
                       else replicate (nat (width - p)) 32 @ (sg @ pfx) @ replicate (nat (precision - i)) 48 @ digits) st)"
proof -
  have "nat (p - i) = nat (precision - i)" using assms by simp
  then show ?thesis
    by (cases l0; cases z0; cases "width - p > 0") (simp_all add: loops_emit)
qed

lemma number_emit: "number e num base size' precision type st = Some (emit e (number_text num base size' precision type) st)"
proof -
  define type1 where "type1 = (if type AND LEFT \<noteq> 0 then type AND NOT ZEROPAD else type)"
  define sg where "sg = number_sign num type"
  define n where "n = (if type AND SIGN \<noteq> 0 \<and> sint num < 0 then - num else num)"
  define pfx where "pfx = number_prefix base type"
  define ds where "ds = number_digits num base type"
  have t1: "type1 AND SIGN = type AND SIGN" "type1 AND PLUS = type AND PLUS" "type1 AND SPACE = type AND SPACE"
    "type1 AND LEFT = type AND LEFT" "type1 AND ZEROPAD \<noteq> 0 \<longleftrightarrow> type AND ZEROPAD \<noteq> 0 \<and> type AND LEFT = 0"
    by (simp_all add: type1_def flag_bits)
  have trip: "(if type1 AND SIGN \<noteq> 0
               then if sint num < 0 then (45, - num, size' - 1)
                    else if type1 AND PLUS \<noteq> 0 then (43, num, size' - 1)
                    else if type1 AND SPACE \<noteq> 0 then (32, num, size' - 1)
                    else (0, num, size')
               else (0, num, size')) =
              (if sg = [] then 0 else hd sg, n, size' - int (length sg))"
    by (simp add: t1 sg_def number_sign_def n_def)
  have "sg = [] \<or> (\<exists>c. c \<noteq> 0 \<and> sg = [c])" by (simp add: sg_def number_sign_def)
  then have sg: "(if (if sg = [] then 0 else hd sg) \<noteq> 0 then ADDCH e (if sg = [] then 0 else hd sg) st1 else st1) =
      emit e sg st1" for st1 by (auto simp: ADDCH_emit)
  have pfx: "(if type AND SPECIAL \<noteq> 0 \<and> base \<noteq> 10
              then if base = 16 then ADDCH e (0x58 OR ucast (type AND SMALL)) (ADDCH e 48 st2) else ADDCH e 48 st2
              else st2) = emit e pfx st2" for st2
    by (simp add: pfx_def number_prefix_def ADDCH_emit)
  have width: "(if type AND SPECIAL \<noteq> 0 \<and> base \<noteq> 10 then if base = 16 then w - 2 else w - 1 else w) = w - int (length pfx)" for w :: int
    by (simp add: pfx_def number_prefix_def)
  have "dec_digits 0 = [48]" by (simp add: dec_digits.simps)
  then have tmp: "(if n = 0 then Some [48] else if base \<noteq> 10
              then Some (put_bits (if base = 16 then 4 else 3) (ucast (type AND SMALL)) n) else put_dec n) = Some (rev ds)"
    by (simp add: ds_def number_digits_def n_def [symmetric] put_dec_digits)
  have "number e num base size' precision type st = Some (emit e
      (let body = replicate (nat (precision - int (length ds))) 48 @ ds;
           gap = nat (size' - int (length sg) - int (length pfx) - max precision (int (length ds)))
       in if type1 AND LEFT \<noteq> 0 then (sg @ pfx) @ body @ replicate gap 32
          else if type1 AND ZEROPAD \<noteq> 0 then (sg @ pfx) @ replicate gap 48 @ body
          else replicate gap 32 @ (sg @ pfx) @ body) st)"
    unfolding number_def Let_def type1_def [symmetric] trip prod.case tmp Option.bind.bind_lunit sg pfx width
      length_rev rev_rev_ident flag_none
    by (rule number_padding) (rule refl)+
  also have "\<dots> = Some (emit e (number_text num base size' precision type) st)"
    by (simp add: number_text_def Let_def t1 sg_def [symmetric] pfx_def [symmetric] ds_def [symmetric]
        diff_diff_eq add.assoc)
  finally show ?thesis .
qed

end
