(* ===== verification/Lib_Format.thy ===== *)
theory Lib_Format
  imports Lib_Vsprintf
begin

text \<open>
  What the format interpreter of \<^verbatim>\<open>lib/vsprintf.c\<close> does with a whole format: how its parsing
  routines read the string, that every conversion other than \<^verbatim>\<open>%n\<close> only appends to the output, and
  the text that results from a format given as data. The properties of \<^verbatim>\<open>vsnprintf\<close> stand at the
  end.
\<close>

unbundle bit_operations_syntax

section \<open>The format string\<close>

text \<open>What the parsing routines read of a format string \<open>fs\<close>, exactly.\<close>

definition is_flag :: "8 word \<Rightarrow> bool" where "is_flag c \<longleftrightarrow> c = 45 \<or> c = 43 \<or> c = 32 \<or> c = 35 \<or> c = 48"

definition flag_of :: "8 word \<Rightarrow> 32 word" where
  "flag_of c = (if c = 45 then LEFT else if c = 43 then PLUS else if c = 32 then SPACE else if c = 35 then SPECIAL else ZEROPAD)"

definition flags_of :: "8 word list \<Rightarrow> 32 word" where "flags_of cs = foldl (\<lambda>f c. f OR flag_of c) 0 cs"

lemma parse_flags_eq:
  assumes "str_at m (fmt + 1) fs"
  shows "parse_flags m fmt 0 = Some (flags_of (takeWhile is_flag fs), fmt + 1 + length (takeWhile is_flag fs))"
proof -
  have "str_at m (fmt + 1) fs \<Longrightarrow>
      parse_flags m fmt fl = Some (foldl (\<lambda>f c. f OR flag_of c) fl (takeWhile is_flag fs), fmt + 1 + length (takeWhile is_flag fs))" for fl
    by (induction fs arbitrary: fmt fl)
      (subst parse_flags.simps, auto simp: is_flag_def flag_of_def)+
  with assms show ?thesis by (simp add: flags_of_def)
qed

lemma is_digit_isdigit: "is_digit c = isdigit c"
  by (simp add: is_digit_def isdigit_range word_le_nat_alt)

lemma skip_atoi_eq:
  "str_at m p fs \<Longrightarrow>
   skip_atoi m p i = Some (foldl (\<lambda>i c. i * 10 + uint c - 48) i (takeWhile is_digit fs), p + length (takeWhile is_digit fs))"
  by (induction fs arbitrary: p i) (subst skip_atoi.simps, auto simp: is_digit_def)+

text \<open>The pointer stays inside the string, up to its end.\<close>

lemma parse_width_bounds:
  assumes "str_at m f fs" and "parse_width m f args flags = Some (w, flags', f', args')"
  shows "f \<le> f' \<and> f' \<le> f + length fs"
proof -
  have "m f = 42 \<Longrightarrow> 1 \<le> length fs" using assms(1) by (cases fs) auto
  with assms show ?thesis
    by (auto simp: parse_width_def skip_atoi_eq length_takeWhile_le split: if_splits bind_splits)
qed

lemma parse_precision_bounds:
  assumes "str_at m f fs" and "parse_precision m f args = Some (p, f', args')"
  shows "f \<le> f' \<and> f' \<le> f + length fs"
proof (cases "m f = 46")
  case True
  then obtain fs' where fs: "fs = 46 # fs'" "str_at m (f + 1) fs'" using assms(1) by (cases fs) auto
  have "m (f + 1) = 42 \<Longrightarrow> 1 \<le> length fs'" using fs(2) by (cases fs') auto
  with True assms(2) fs show ?thesis
    by (auto simp: parse_precision_def skip_atoi_eq length_takeWhile_le split: if_splits bind_splits)
qed (use assms in \<open>simp add: parse_precision_def\<close>)

lemma parse_qualifier_bounds:
  assumes "str_at m f fs" and "parse_qualifier m f = (q, f')"
  shows "f \<le> f' \<and> f' \<le> f + length fs"
proof (cases fs)
  case (Cons c fs')
  then have "m (f + 1) = 108 \<Longrightarrow> 1 \<le> length fs'" using assms(1) by (cases fs') auto
  with Cons assms show ?thesis by (auto simp: parse_qualifier_def Let_def split: if_splits)
qed (use assms in \<open>auto simp: parse_qualifier_def\<close>)


section \<open>The interpreter emits\<close>

text \<open>\<open>emits e st st'\<close>: going from \<open>st\<close> to \<open>st'\<close> appends characters to the output and does nothing else.\<close>

definition emits :: "addr \<Rightarrow> out \<Rightarrow> out \<Rightarrow> bool" where
  "emits e st st' \<longleftrightarrow> (\<exists>cs. st' = emit e cs st)"

named_theorems emits_intros \<open>what only appends to the output\<close>

lemma emits_refl [emits_intros]: "emits e st st"
  unfolding emits_def by (rule exI [of _ "[]"]) simp

lemma emits_emit [emits_intros]: "emits e st st' \<Longrightarrow> emits e st (emit e cs st')"
  unfolding emits_def by auto

lemma emits_ADDCH [emits_intros]: "emits e st st' \<Longrightarrow> emits e st (ADDCH e c st')"
  unfolding ADDCH_emit by (rule emits_emit)

lemma emits_trans: "emits e st st' \<Longrightarrow> emits e st' st'' \<Longrightarrow> emits e st st''"
  unfolding emits_def by auto

lemma emits_copy [emits_intros]: "emits e st st' \<Longrightarrow> emits e st (copy_chars e s n st')"
  by (induction n arbitrary: s st') (simp_all add: emits_ADDCH)

lemma emits_width [emits_intros]: "emits e st st' \<Longrightarrow> emits e st (snd (width_loop e len w st'))"
  by (simp add: loops_emit emits_emit)

lemma emits_string_out [emits_intros]: "emits e st st' \<Longrightarrow> emits e st (string_out e s w p flags st')"
  by (auto simp: string_out_def Let_def loops_emit split: option.split intro!: emits_intros)

lemma emits_string16 [emits_intros]: "emits e st st' \<Longrightarrow> emits e st (string16 e s w p flags st')"
  by (auto simp: string16_def Let_def loops_emit split: option.split intro!: emits_intros)

lemma emits_char [emits_intros]: "emits e st st' \<Longrightarrow> emits e st (snd (char_pad e w st'))"
  by (simp add: loops_emit emits_emit)

lemma emits_keeps:
  assumes "emits e st st'" and "x < snd st \<or> e \<le> x"
  shows "fst st' x = fst st x"
  using assms by (cases st) (auto simp: emits_def emit_eq write_bytes_apply)

lemma emits_forward: "emits e st st' \<Longrightarrow> snd st \<le> snd st'"
  by (cases st) (auto simp: emits_def emit_eq)

text \<open>One conversion, by its character.\<close>

definition convert_num ::
    "addr \<Rightarrow> int \<Rightarrow> 32 word \<Rightarrow> int \<Rightarrow> int \<Rightarrow> 8 word \<Rightarrow> addr \<Rightarrow> va list \<Rightarrow> out \<Rightarrow> (addr \<times> va list \<times> out) option" where
  "convert_num e base flags w p q f args st =
     map_option (\<lambda>(n, args'). (f, args', emit e (number_text n base w p flags) st)) (fetch_num q flags args)"

lemma convert_num_eq:
  "do { (n, args') \<leftarrow> fetch_num q flags args; st' \<leftarrow> number e n base w p flags st; Some (f, args', st') } =
   convert_num e base flags w p q f args st"
  by (cases "fetch_num q flags args") (auto simp: convert_num_def number_emit)

lemma convert_cases:
  "fst st f = 99 \<Longrightarrow> convert buf e flags w p q f args st =
     map_option (\<lambda>(a, args'). (f, args', if flags AND LEFT = 0 then emit e (replicate (nat (w - 1)) 32 @ [ucast a]) st
                                        else emit e (ucast a # replicate (nat (w - 1)) 32) st)) (va_int args)"
  "fst st f = 115 \<Longrightarrow> convert buf e flags w p q f args st =
     map_option (\<lambda>(s, args'). (f, args', if q = 108 then string16 e s w p flags st else string_out e s w p flags st)) (va_ptr args)"
  "fst st f = 37 \<Longrightarrow> convert buf e flags w p q f args st = Some (f, args, emit e [37] st)"
  "fst st f = 111 \<Longrightarrow> convert buf e flags w p q f args st = convert_num e 8 flags w p q f args st"
  "fst st f = 120 \<Longrightarrow> convert buf e flags w p q f args st = convert_num e 16 (flags OR SMALL) w p q f args st"
  "fst st f = 88 \<Longrightarrow> convert buf e flags w p q f args st = convert_num e 16 flags w p q f args st"
  "fst st f = 100 \<Longrightarrow> convert buf e flags w p q f args st = convert_num e 10 (flags OR SIGN) w p q f args st"
  "fst st f = 105 \<Longrightarrow> convert buf e flags w p q f args st = convert_num e 10 (flags OR SIGN) w p q f args st"
  "fst st f = 117 \<Longrightarrow> convert buf e flags w p q f args st = convert_num e 10 flags w p q f args st"
proof -
  have c: "convert buf e flags w p q f args st =
      map_option (\<lambda>(a, args'). (f, args', if flags AND LEFT = 0 then emit e (replicate (nat (w - 1)) 32 @ [ucast a]) st
                                         else emit e (ucast a # replicate (nat (w - 1)) 32) st)) (va_int args)"
    if "fst st f = 99"
  proof -
    have "nat (min w 1 - 1 - 1) = 0" by simp
    then show ?thesis using that
      by (cases "va_int args") (auto simp: convert_def Let_def loops_emit ADDCH_emit)
  qed
  show "fst st f = 99 \<Longrightarrow> convert buf e flags w p q f args st =
     map_option (\<lambda>(a, args'). (f, args', if flags AND LEFT = 0 then emit e (replicate (nat (w - 1)) 32 @ [ucast a]) st
                                        else emit e (ucast a # replicate (nat (w - 1)) 32) st)) (va_int args)"
    by (rule c)
  show "fst st f = 115 \<Longrightarrow> convert buf e flags w p q f args st =
     map_option (\<lambda>(s, args'). (f, args', if q = 108 then string16 e s w p flags st else string_out e s w p flags st)) (va_ptr args)"
    by (cases "va_ptr args") (auto simp: convert_def Let_def)
qed (simp_all add: convert_def Let_def convert_num_eq ADDCH_emit)

lemma convert_num_emits: "convert_num e base flags w p q f args st = Some (f', args', st') \<Longrightarrow> f' = f \<and> emits e st st'"
  by (auto simp: convert_num_def intro: emits_intros)

lemma convert_emits:
  assumes "convert buf e flags w p q f args st = Some (f', args', st')" and "fst st f \<noteq> 110" and "f < snd st \<or> e \<le> f"
  shows "emits e st st' \<and> (f' = f \<and> fst st f \<noteq> 0 \<or> f' = f - 1)"
proof -
  consider "fst st f = 99" | "fst st f = 115" | "fst st f = 37"
    | (num) "fst st f \<in> {111, 120, 88, 100, 105, 117}"
    | (other) "fst st f \<notin> {99, 115, 37, 111, 120, 88, 100, 105, 117}" by auto
  then show ?thesis
  proof cases
    case other
    have "fst (ADDCH e 37 st) f = fst st f" by (rule emits_keeps [OF emits_ADDCH [OF emits_refl] assms(3)])
    with other assms(1,2) show ?thesis by (auto simp: convert_def Let_def split: if_splits intro!: emits_intros)
  next
    case num
    then show ?thesis using assms(1) by (auto simp: convert_cases dest!: convert_num_emits)
  qed (use assms(1) in \<open>auto simp: convert_cases split: if_splits intro!: emits_intros\<close>)
qed

text \<open>One directive stays inside the format string and emits.\<close>

lemma directive_emits:
  assumes fmt: "str_at (fst st) fmt (37 # fs)" and "110 \<notin> set fs" and apart: "fmt + length fs + 1 < snd st \<or> e \<le> fmt"
    and step: "directive buf e fmt args st = Some (f', args', st')"
  shows "emits e st st' \<and> fmt \<le> f' \<and> f' \<le> fmt + length fs"
proof -
  have fs: "str_at (fst st) (fmt + 1) fs" using fmt by simp
  obtain flags f1 where 1: "parse_flags (fst st) fmt 0 = Some (flags, f1)" "fmt + 1 \<le> f1" "f1 \<le> fmt + 1 + length fs"
    using parse_flags_eq [OF fs] length_takeWhile_le [of is_flag fs] by simp
  from step 1 obtain w flags' f2 args1 p f3 args2 where
    2: "parse_width (fst st) f1 args flags = Some (w, flags', f2, args1)" and
    3: "parse_precision (fst st) f2 args1 = Some (p, f3, args2)" and
    4: "convert buf e flags' w p (fst (parse_qualifier (fst st) f3)) (snd (parse_qualifier (fst st) f3)) args2 st = Some (f', args', st')"
    by (auto simp: directive_def split: bind_splits prod.splits)
  have at: "str_at (fst st) f (drop (f - (fmt + 1)) fs)" if "fmt + 1 \<le> f" "f \<le> fmt + 1 + length fs" for f
    using str_at_drop [OF fs, of "f - (fmt + 1)"] that by simp
  have f2: "f1 \<le> f2" "f2 \<le> fmt + 1 + length fs" using parse_width_bounds [OF at 2] 1 by auto
  have f3: "f2 \<le> f3" "f3 \<le> fmt + 1 + length fs" using parse_precision_bounds [OF at 3] 1 f2 by auto
  define f4 where "f4 = snd (parse_qualifier (fst st) f3)"
  have f4: "f3 \<le> f4" "f4 \<le> fmt + 1 + length fs"
    using parse_qualifier_bounds [OF at [of f3] prod.collapse [symmetric]] 1 f2 f3 by (auto simp: f4_def)
  define rest where "rest = drop (f4 - (fmt + 1)) fs"
  have rest: "str_at (fst st) f4 rest" using at [of f4] 1 f2 f3 f4 by (simp add: rest_def)
  have "set rest \<subseteq> set fs" unfolding rest_def by (rule set_drop_subset)
  then have "fst st f4 \<noteq> 110 \<and> (fst st f4 \<noteq> 0 \<longrightarrow> rest \<noteq> [])" using rest assms(2)
    by (cases rest) (simp, fastforce)
  then have n: "fst st f4 \<noteq> 110" and z: "fst st f4 \<noteq> 0 \<Longrightarrow> rest \<noteq> []" by blast+
  have "rest \<noteq> [] \<Longrightarrow> f4 < fmt + 1 + length fs" using f4 1 f2 f3 by (simp add: rest_def)
  have "emits e st st' \<and> (f' = f4 \<and> fst st f4 \<noteq> 0 \<or> f' = f4 - 1)"
    using 4 n unfolding f4_def [symmetric] by (rule convert_emits) (use apart 1 f2 f3 f4 in auto)
  then show ?thesis using z 1(2) f2(1) f3(1) f4 \<open>rest \<noteq> [] \<Longrightarrow> f4 < fmt + 1 + length fs\<close> by auto
qed

lemma format_loop_emits:
  assumes "str_at (fst st) fmt fs" and "110 \<notin> set fs" and "fmt + length fs < snd st \<or> e \<le> fmt"
    and "format_loop buf e fmt args st = Some st'"
  shows "emits e st st'"
  using assms
proof (induction "length fs" arbitrary: fs fmt args st rule: less_induct)
  case less
  show ?case
  proof (cases fs)
    case Nil
    with less.prems show ?thesis by (simp add: format_loop.simps emits_refl)
  next
    case (Cons c cs)
    have again: "emits e st st'" if "emits e st st1" "fmt < f1" "f1 \<le> fmt + length fs" "format_loop buf e f1 args1 st1 = Some st'" for st1 f1 args1
    proof -
      have "str_at (fst st) f1 (drop (f1 - fmt) fs)" using str_at_drop [OF less.prems(1), of "f1 - fmt"] that by simp
      also have "str_at (fst st) f1 (drop (f1 - fmt) fs) = str_at (fst st1) f1 (drop (f1 - fmt) fs)"
        using that less.prems(3) by (intro str_at_cong emits_keeps [OF that(1), symmetric]) auto
      finally have "str_at (fst st1) f1 (drop (f1 - fmt) fs)" .
      then have "emits e st1 st'"
        using that less.prems(2,3) emits_forward [OF that(1)] Cons set_drop_subset [of "f1 - fmt" fs]
        by (intro less.hyps [OF _ _ _ _ that(4)]) auto
      with that(1) show ?thesis by (rule emits_trans)
    qed
    have c: "fst st fmt = c" "c \<noteq> 0" using less.prems(1) Cons by auto
    show ?thesis
    proof (cases "c = 37")
      case False
      with c less.prems(4) have "format_loop buf e (fmt + 1) args (ADDCH e c st) = Some st'"
        by (subst (asm) format_loop.simps) simp
      then show ?thesis by (intro again [OF emits_ADDCH [OF emits_refl]]) (auto simp: Cons)
    next
      case True
      with c less.prems(4) obtain f1 args1 st1 where
        step: "directive buf e fmt args st = Some (f1, args1, st1)" "format_loop buf e (f1 + 1) args1 st1 = Some st'"
        by (subst (asm) format_loop.simps) (auto split: bind_splits)
      have "emits e st st1 \<and> fmt \<le> f1 \<and> f1 \<le> fmt + length cs"
        using less.prems(1-3) step(1) Cons True by (intro directive_emits) auto
      with step(2) show ?thesis by (intro again) (auto simp: Cons)
    qed
  qed
qed

text \<open>The end of \<^verbatim>\<open>vsnprintf\<close>: what remains in the buffer of the text \<open>T\<close> that was emitted.\<close>

definition stored :: "bytes \<Rightarrow> addr \<Rightarrow> nat \<Rightarrow> 8 word list \<Rightarrow> bytes" where
  "stored m buf n T = (if n = 0 then m else write_bytes m buf (take (n - 1) T @ [0]))"

lemma vsnprintf_stores:
  assumes "format_loop buf (buf + n) fmt args (m, buf) = Some (emit (buf + n) T (m, buf))" and "buf + n < 2 ^ 32"
  shows "vsnprintf m buf n fmt args = Some (length T, stored m buf n T)"
proof -
  have e: "(buf + n) mod 2 ^ 32 = buf + n" using assms(2) by simp
  show ?thesis
  proof (cases n)
    case 0
    then show ?thesis using assms(1) e by (simp add: vsnprintf_def Let_def emit_eq stored_def)
  next
    case (Suc k)
    show ?thesis
    proof (cases "length T < n")
      case True
      then have "(write_bytes m buf T)(buf + length T := 0) = write_bytes m buf (T @ [0])"
        by (intro ext) (auto simp: write_bytes_apply nth_append)
      with True assms e Suc show ?thesis
        by (simp add: vsnprintf_def Let_def emit_eq ADDCH_def stored_def)
    next
      case False
      then have "(write_bytes m buf (take n T)) (buf + n - 1 := 0) = write_bytes m buf (take (n - 1) T @ [0])"
        using Suc by (intro ext) (auto simp: write_bytes_apply nth_append min_def)
      with False assms e Suc show ?thesis
        by (simp add: vsnprintf_def Let_def emit_eq ADDCH_def stored_def)
    qed
  qed
qed

lemma stored_keeps: "x < buf \<or> buf + n \<le> x \<Longrightarrow> stored m buf n T x = m x"
  by (auto simp: stored_def write_bytes_apply)

lemma stored_str_at:
  assumes "0 < n" and "0 \<notin> set T"
  shows "str_at (stored m buf n T) buf (take (n - 1) T)"
proof -
  have "0 \<notin> set (take (n - 1) T)" using assms(2) by (meson in_set_takeD)
  then show ?thesis using assms(1) str_at_write by (simp add: stored_def)
qed

lemma stored_end: "0 < n \<Longrightarrow> stored m buf n T (buf + min (length T) (n - 1)) = 0"
  by (auto simp: stored_def write_bytes_apply nth_append min_def)

lemma vsnprintf_returns_text:
  assumes "str_at m fmt fs" and "110 \<notin> set fs" and "fmt + length fs < buf \<or> buf + n \<le> fmt" and "buf + n < 2 ^ 32"
    and "vsnprintf m buf n fmt args = Some (r, m')"
  shows "\<exists>T. r = length T \<and> m' = stored m buf n T"
proof -
  have e: "(buf + n) mod 2 ^ 32 = buf + n" using assms(4) by simp
  obtain st where st: "format_loop buf (buf + n) fmt args (m, buf) = Some st"
    using assms(5) e by (auto simp: vsnprintf_def Let_def split: bind_splits)
  then have "emits (buf + n) (m, buf) st" using assms(1-3) by (intro format_loop_emits [of "(m, buf)" fmt fs]) auto
  then obtain T where "st = emit (buf + n) T (m, buf)" by (auto simp: emits_def)
  with st vsnprintf_stores [of buf n fmt args m T] assms(4,5) show ?thesis by auto
qed


section \<open>Formats and the text they produce\<close>

text \<open>
  Formats as data: literal characters, \<^verbatim>\<open>%%\<close>, and conversions with flags, width and precision,
  each with the argument it takes. \<open>item_chars\<close> is the format string, \<open>item_va\<close> the argument,
  \<open>item_text\<close> the text that has to come out.
\<close>

datatype conv =
    Arg_d "32 word" | Arg_u "32 word" | Arg_x "32 word" | Arg_X "32 word" | Arg_o "32 word"
  | Arg_lld "64 word" | Arg_llu "64 word" | Arg_c "32 word" | Arg_s addr "8 word list"

datatype item = Lit "8 word" | Percent | Conv "8 word list" "nat option" "nat option" conv

fun conv_chars :: "conv \<Rightarrow> 8 word list" where
  "conv_chars (Arg_d _) = [100]"
| "conv_chars (Arg_u _) = [117]"
| "conv_chars (Arg_x _) = [120]"
| "conv_chars (Arg_X _) = [88]"
| "conv_chars (Arg_o _) = [111]"
| "conv_chars (Arg_lld _) = [108, 108, 100]"
| "conv_chars (Arg_llu _) = [108, 108, 117]"
| "conv_chars (Arg_c _) = [99]"
| "conv_chars (Arg_s _ _) = [115]"

fun conv_va :: "conv \<Rightarrow> va" where
  "conv_va (Arg_d n) = Va_Int n"
| "conv_va (Arg_u n) = Va_Int n"
| "conv_va (Arg_x n) = Va_Int n"
| "conv_va (Arg_X n) = Va_Int n"
| "conv_va (Arg_o n) = Va_Int n"
| "conv_va (Arg_lld n) = Va_Long n"
| "conv_va (Arg_llu n) = Va_Long n"
| "conv_va (Arg_c n) = Va_Int n"
| "conv_va (Arg_s a _) = Va_Ptr (Some a)"

definition field_text :: "8 word list \<Rightarrow> int \<Rightarrow> 32 word \<Rightarrow> 8 word list" where
  "field_text cs w flags =
     (let gap = replicate (nat (w - int (length cs))) 32 in if flags AND LEFT \<noteq> 0 then cs @ gap else gap @ cs)"

fun conv_text :: "32 word \<Rightarrow> int \<Rightarrow> int \<Rightarrow> conv \<Rightarrow> 8 word list" where
  "conv_text flags w p (Arg_d n) = number_text (scast n) 10 w p (flags OR SIGN)"
| "conv_text flags w p (Arg_u n) = number_text (ucast n) 10 w p flags"
| "conv_text flags w p (Arg_x n) = number_text (ucast n) 16 w p (flags OR SMALL)"
| "conv_text flags w p (Arg_X n) = number_text (ucast n) 16 w p flags"
| "conv_text flags w p (Arg_o n) = number_text (ucast n) 8 w p flags"
| "conv_text flags w p (Arg_lld n) = number_text n 10 w p (flags OR SIGN)"
| "conv_text flags w p (Arg_llu n) = number_text n 10 w p flags"
| "conv_text flags w p (Arg_c n) = field_text [ucast n] w flags"
| "conv_text flags w p (Arg_s _ bs) = field_text (take (as_size p) bs) w flags"

definition opt_field :: "nat option \<Rightarrow> int" where
  "opt_field k = (case k of None \<Rightarrow> - 1 | Some n \<Rightarrow> int n)"

definition width_chars :: "nat option \<Rightarrow> 8 word list" where
  "width_chars w = (case w of None \<Rightarrow> [] | Some k \<Rightarrow> rev (dec_digits k))"

definition prec_chars :: "nat option \<Rightarrow> 8 word list" where
  "prec_chars p = (case p of None \<Rightarrow> [] | Some k \<Rightarrow> 46 # rev (dec_digits k))"

fun item_chars :: "item \<Rightarrow> 8 word list" where
  "item_chars (Lit c) = [c]"
| "item_chars Percent = [37, 37]"
| "item_chars (Conv fl w p a) = 37 # fl @ width_chars w @ prec_chars p @ conv_chars a"

fun item_va :: "item \<Rightarrow> va list" where
  "item_va (Conv fl w p a) = [conv_va a]"
| "item_va _ = []"

fun item_text :: "item \<Rightarrow> 8 word list" where
  "item_text (Lit c) = [c]"
| "item_text Percent = [37]"
| "item_text (Conv fl w p a) = conv_text (flags_of fl) (opt_field w) (opt_field p) a"

text \<open>
  The formats meant: literals are no \<^verbatim>\<open>%\<close>, flags are flags, a width given is not 0; strings to
  print lie outside of the part of the buffer still to be written.
\<close>

fun item_ok :: "item \<Rightarrow> bool" where
  "item_ok (Lit c) \<longleftrightarrow> c \<noteq> 0 \<and> c \<noteq> 37"
| "item_ok Percent \<longleftrightarrow> True"
| "item_ok (Conv fl w p a) \<longleftrightarrow> list_all is_flag fl \<and> w \<noteq> Some 0"

fun item_in :: "bytes \<Rightarrow> addr \<Rightarrow> addr \<Rightarrow> item \<Rightarrow> bool" where
  "item_in m lo hi (Conv _ _ _ (Arg_s a bs)) \<longleftrightarrow> str_at m a bs \<and> (a + length bs < lo \<or> hi \<le> a)"
| "item_in m lo hi _ \<longleftrightarrow> True"

lemma dec_digits_last: "0 < k \<Longrightarrow> last (dec_digits k) \<noteq> 48"
proof (induction k rule: dec_digits.induct)
  case (1 n)
  show ?case
  proof (cases "n < 10")
    case True
    have "(of_nat (48 + n) :: 8 word) \<noteq> 48" using True 1(2) digit_char_props [of n] digit_char_props [of 0] by auto
    then show ?thesis using True by (subst dec_digits.simps) simp
  next
    case False
    then show ?thesis using 1 dec_digits_ok(3) [of "n div 10"] by (subst dec_digits.simps) simp
  qed
qed

lemma is_digit_char: "d < 10 \<Longrightarrow> is_digit (of_nat (48 + d)) \<and> uint (of_nat (48 + d) :: 8 word) = 48 + int d"
proof -
  assume "d < 10"
  then have "unat (of_nat (48 + d) :: 8 word) = 48 + d" by (simp only: unat_of_nat) simp
  with \<open>d < 10\<close> show ?thesis unfolding is_digit_def word_le_nat_alt uint_nat by simp
qed

lemma atoi_dec_digits:
  "list_all is_digit (rev (dec_digits k)) \<and> foldl (\<lambda>i c. i * 10 + uint c - 48) 0 (rev (dec_digits k)) = int k"
proof (induction k rule: dec_digits.induct)
  case (1 n)
  have d: "is_digit (of_nat (48 + n mod 10))" "uint (of_nat (48 + n mod 10) :: 8 word) = 48 + int (n mod 10)"
    using is_digit_char [of "n mod 10"] by simp_all
  have "int n = int (n div 10) * 10 + int (n mod 10)" by presburger
  with 1 d show ?case by (subst (1 2) dec_digits.simps) (simp del: of_nat_add of_nat_mod)
qed

lemma conv_chars_head:
  "\<exists>c cs. conv_chars a = c # cs \<and> \<not> is_flag c \<and> \<not> is_digit c \<and> c \<noteq> 46 \<and> c \<noteq> 42"
  by (cases a) (simp_all add: is_flag_def is_digit_def)

lemma takeWhile_stop: "list_all P xs \<Longrightarrow> ys = [] \<or> \<not> P (hd ys) \<Longrightarrow> takeWhile P (xs @ ys) = xs"
  by (induction xs) (cases ys, auto)

lemma digit_run:
  assumes "str_at m f (rev (dec_digits k) @ ys)" and "ys = [] \<or> \<not> is_digit (hd ys)"
  shows "skip_atoi m f 0 = Some (int k, f + length (dec_digits k))" and "is_digit (m f)"
proof -
  have t: "takeWhile is_digit (rev (dec_digits k) @ ys) = rev (dec_digits k)"
    using atoi_dec_digits assms(2) by (intro takeWhile_stop) auto
  show "skip_atoi m f 0 = Some (int k, f + length (dec_digits k))"
    using skip_atoi_eq [OF assms(1), of 0] atoi_dec_digits [of k] by (simp add: t)
  obtain d ds where "rev (dec_digits k) = d # ds" using dec_digits_ok(3) [of k] by (metis list.exhaust rev_is_Nil_conv)
  then show "is_digit (m f)" using assms(1) atoi_dec_digits [of k] by simp
qed

text \<open>The head of a conversion is parsed as it was written.\<close>

lemma parse_head:
  assumes at: "str_at m fmt (item_chars (Conv fl w p a) @ rest)" and ok: "item_ok (Conv fl w p a)"
    and f: "f1 = fmt + 1 + length fl" "f2 = f1 + length (width_chars w)" "f3 = f2 + length (prec_chars p)"
  shows "parse_flags m fmt 0 = Some (flags_of fl, f1)" and "parse_width m f1 args flags = Some (opt_field w, flags, f2, args)"
    and "parse_precision m f2 args = Some (opt_field p, f3, args)" and "str_at m f3 (conv_chars a @ rest)"
proof -
  obtain c cs where c: "conv_chars a = c # cs" "\<not> is_flag c" "\<not> is_digit c" "c \<noteq> 46" "c \<noteq> 42"
    using conv_chars_head by blast
  have at0: "str_at m (fmt + 1) (fl @ width_chars w @ prec_chars p @ conv_chars a @ rest)" using at by simp
  have at1: "str_at m f1 (width_chars w @ prec_chars p @ conv_chars a @ rest)"
    and at2: "str_at m f2 (prec_chars p @ conv_chars a @ rest)" and at3: "str_at m f3 (conv_chars a @ rest)"
    using at0 by (simp_all add: str_at_append f)
  show "str_at m f3 (conv_chars a @ rest)" by (rule at3)
  have pc: "\<not> is_digit (hd (prec_chars p @ conv_chars a @ rest))" "\<not> is_flag (hd (prec_chars p @ conv_chars a @ rest))"
    "m f2 \<noteq> 42" "p = None \<Longrightarrow> m f2 \<noteq> 46"
    using c at2 by (cases p; simp add: prec_chars_def is_digit_def is_flag_def)+
  have "\<not> is_flag (hd (width_chars w @ prec_chars p @ conv_chars a @ rest))"
  proof (cases w)
    case (Some k)
    obtain d ds where d: "rev (dec_digits k) = d # ds" using dec_digits_ok(3) [of k] by (metis list.exhaust rev_is_Nil_conv)
    then have "d \<noteq> 48" using dec_digits_last [of k] ok Some by (metis hd_rev list.sel(1) gr0I item_ok.simps(3))
    moreover have "is_digit d" using d atoi_dec_digits [of k] by simp
    ultimately show ?thesis using d Some by (auto simp: width_chars_def is_flag_def is_digit_def)
  qed (use pc in \<open>simp add: width_chars_def\<close>)
  then have "takeWhile is_flag (fl @ width_chars w @ prec_chars p @ conv_chars a @ rest) = fl"
    using ok by (intro takeWhile_stop) auto
  then show "parse_flags m fmt 0 = Some (flags_of fl, f1)" using parse_flags_eq [OF at0] by (simp add: f)
  show "parse_width m f1 args flags = Some (opt_field w, flags, f2, args)"
  proof (cases w)
    case None
    then have "f2 = f1" using f by (simp add: width_chars_def)
    then have "\<not> is_digit (m f1)" using at2 pc(1) c(1) by (cases p) (auto simp: prec_chars_def)
    then show ?thesis using None pc(3) \<open>f2 = f1\<close> by (simp add: parse_width_def opt_field_def)
  next
    case (Some k)
    note run = digit_run [OF at1 [unfolded Some width_chars_def option.case]]
    show ?thesis using run pc(1) Some f(2) by (simp add: parse_width_def opt_field_def width_chars_def)
  qed
  show "parse_precision m f2 args = Some (opt_field p, f3, args)"
  proof (cases p)
    case None
    then show ?thesis using pc(4) f(3) by (simp add: parse_precision_def opt_field_def prec_chars_def)
  next
    case (Some k)
    then have at46: "m f2 = 46" "str_at m (f2 + 1) (rev (dec_digits k) @ conv_chars a @ rest)"
      using at2 by (simp_all add: prec_chars_def)
    note run = digit_run [OF at46(2)]
    show ?thesis using run at46(1) c(1,3) Some f(3) by (simp add: parse_precision_def opt_field_def prec_chars_def)
  qed
qed

text \<open>
  What is read while a text is written: it lies below the position of the output, or above \<open>h\<close>, up
  to where the text reaches.
\<close>

lemma emit_keeps: "x < snd st \<or> min e (snd st + length cs) \<le> x \<Longrightarrow> fst (emit e cs st) x = fst st x"
  by (cases st) (auto simp: emit_eq write_bytes_apply)

lemma snd_emit [simp]: "snd (emit e cs st) = snd st + length cs"
  by (cases st) (simp add: emit_eq)

lemma copy_chars_emit:
  "s + n \<le> p \<or> min e (p + n) \<le> s \<Longrightarrow> copy_chars e s n (m, p) = emit e (bytes_at m s n) (m, p)"
proof (induction n arbitrary: s m p)
  case (Suc n)
  define m' where "m' = (if p < e then m(p := m s) else m)"
  have "bytes_at m' (s + 1) n = bytes_at m (s + 1) n" using Suc.prems by (intro bytes_at_cong) (auto simp: m'_def)
  moreover have "copy_chars e (s + 1) n (m', p + 1) = emit e (bytes_at m' (s + 1) n) (m', p + 1)"
    using Suc.prems by (intro Suc.IH) auto
  moreover have "ADDCH e (m s) (m, p) = (m', p + 1)" by (simp add: ADDCH_def m'_def)
  ultimately show ?case by (simp add: emit_Cons)
qed simp

lemma string_out_emit:
  assumes "str_at (fst st) a bs" and "a + length bs < snd st \<or> h \<le> a"
    and "min e (snd st + length (field_text (take (as_size p) bs) w flags)) \<le> h"
  shows "string_out e (Some a) w p flags st = emit e (field_text (take (as_size p) bs) w flags) st"
proof -
  obtain m q where st: "st = (m, q)" by (cases st)
  define t where "t = take (as_size p) bs"
  have len: "strnlen m a (as_size p) = length t" using strnlen_eq [of m a bs] assms(1) st by (simp add: t_def min.commute)
  have copy: "copy_chars e a (length t) (emit e cs st) = emit e (cs @ t) st" if "min e (q + length cs + length t) \<le> h" for cs
  proof -
    obtain m' q' where m': "emit e cs st = (m', q')" by (cases "emit e cs st")
    have q': "q' = q + length cs" using m' st by (metis snd_conv snd_emit)
    have keep: "x < q \<or> min e (q + length cs) \<le> x \<Longrightarrow> m' x = m x" for x
      using emit_keeps [of x st e cs] m' st by simp
    have "bytes_at m' a (length t) = bytes_at m a (length t)" using assms(2) st that by (intro bytes_at_cong keep) (auto simp: t_def)
    also have "\<dots> = t" using assms(1) st bytes_at_take [of m a bs "length t"]
      by (simp add: str_at_bytes t_def) (simp add: min_def)
    finally have "bytes_at m' a (length t) = t" .
    moreover have "a + length t \<le> q' \<or> min e (q' + length t) \<le> a" using assms(2) st q' that by (auto simp: t_def)
    ultimately have "copy_chars e a (length t) (m', q') = emit e t (m', q')" using copy_chars_emit [of a "length t" q' e m'] by simp
    then show ?thesis unfolding m' [symmetric] by simp
  qed
  have gap: "nat (min w (int (length t)) - 1 - int (length t)) = 0" by simp
  define pad where "pad = replicate (nat (w - int (length t))) (32 :: 8 word)"
  have "length (field_text t w flags) = length pad + length t" by (simp add: field_text_def pad_def Let_def)
  then have "min e (q + length pad + length t) \<le> h" "min e (q + length ([] :: 8 word list) + length t) \<le> h"
    using assms(3) st by (auto simp: t_def)
  note copy = copy [OF this(1)] copy [OF this(2)]
  show ?thesis
    using copy gap st
    by (simp add: string_out_def Let_def len field_text_def loops_emit t_def [symmetric] pad_def)
qed

lemma flags_of_sign: "flags_of fl AND SIGN = 0"
proof -
  have "f AND SIGN = 0 \<Longrightarrow> foldl (\<lambda>f c. f OR flag_of c) f fl AND SIGN = 0" for f
    by (induction fl arbitrary: f) (auto simp: flag_of_def flag_defs bit.conj_disj_distrib2)
  then show ?thesis by (simp add: flags_of_def)
qed

lemma convert_item:
  assumes "fst st f = last (conv_chars a)" and "item_in (fst st) (snd st) h (Conv fl w p a)"
    and "min e (snd st + length (conv_text (flags_of fl) w' p' a)) \<le> h"
    and "q = (if length (conv_chars a) = 3 then 76 else 0)"
  shows "convert buf e (flags_of fl) w' p' q f (conv_va a # args) st = Some (f, args, emit e (conv_text (flags_of fl) w' p' a) st)"
proof -
  have SG: "(flags_of fl OR SIGN) AND SIGN \<noteq> 0" "(flags_of fl OR SMALL) AND SIGN = 0"
    using flags_of_sign [of fl] by (simp_all add: flag_defs bit.conj_disj_distrib2)
  show ?thesis
  proof (cases a)
    case (Arg_c n)
    have "nat (w' - int (length [ucast n :: 8 word])) = nat (w' - 1)" by simp
    with Arg_c assms show ?thesis by (simp add: convert_cases field_text_def)
  next
    case (Arg_s ad bs)
    with assms show ?thesis by (simp add: convert_cases string_out_emit [of st ad bs h])
  qed (use assms SG flags_of_sign [of fl] in \<open>simp_all add: convert_cases convert_num_def fetch_num_def\<close>)
qed

lemma directive_item:
  assumes at: "str_at (fst st) fmt (item_chars (Conv fl w p a) @ rest)" and ok: "item_ok (Conv fl w p a)"
    and inn: "item_in (fst st) (snd st) h (Conv fl w p a)" "min e (snd st + length (item_text (Conv fl w p a))) \<le> h"
  shows "directive buf e fmt (conv_va a # args) st =
    Some (fmt + length (item_chars (Conv fl w p a)) - 1, args, emit e (item_text (Conv fl w p a)) st)"
proof -
  define f3 where "f3 = fmt + 1 + length fl + length (width_chars w) + length (prec_chars p)"
  define f4 where "f4 = fmt + length (item_chars (Conv fl w p a)) - 1"
  define q :: "8 word" where "q = (if length (conv_chars a) = 3 then 76 else 0)"
  note head = parse_head [OF at ok refl refl refl, folded f3_def]
  have qual: "parse_qualifier (fst st) f3 = (q, f4)"
    using head(4) by (cases a) (auto simp: parse_qualifier_def f3_def f4_def q_def Let_def add.assoc)
  have "fst st f4 = last (conv_chars a)"
    using head(4) by (cases a) (auto simp: f3_def f4_def eval_nat_numeral add.assoc)
  note conv = convert_item [OF this inn(1) inn(2) [unfolded item_text.simps] q_def]
  show ?thesis unfolding directive_def head Option.bind.bind_lunit split_conv
    using conv by (simp add: qual f4_def)
qed

lemma item_in_emit:
  assumes "item_in (fst st) (snd st) h i" and "min e (snd st + length cs) \<le> h"
  shows "item_in (fst (emit e cs st)) (snd (emit e cs st)) h i"
  using assms(1)
proof (cases "(fst st, snd st, h, i)" rule: item_in.cases)
  case (1 m lo hi fl w p a bs)
  have "str_at (fst (emit e cs st)) a bs = str_at (fst st) a bs"
    using 1 assms by (intro str_at_cong emit_keeps) auto
  with 1 assms(1) show ?thesis by auto
qed auto

lemma str_at_emit:
  "str_at (fst st) a bs \<Longrightarrow> a + length bs < snd st \<or> h \<le> a \<Longrightarrow> min e (snd st + length cs) \<le> h \<Longrightarrow>
   str_at (fst (emit e cs st)) a bs \<and> (a + length bs < snd (emit e cs st) \<or> h \<le> a)"
  using item_in_emit [of st h "Conv [] None None (Arg_s a bs)"] by simp

lemma format_loop_items:
  assumes "str_at (fst st) fmt (concat (map item_chars items))" and "list_all item_ok items"
    and "list_all (item_in (fst st) (snd st) h) items"
    and "fmt + length (concat (map item_chars items)) < snd st \<or> h \<le> fmt"
    and "min e (snd st + length (concat (map item_text items))) \<le> h"
  shows "format_loop buf e fmt (concat (map item_va items)) st = Some (emit e (concat (map item_text items)) st)"
  using assms
proof (induction items arbitrary: fmt st)
  case Nil
  then show ?case by (simp add: format_loop.simps)
next
  case (Cons i items)
  let ?rest = "concat (map item_chars items)" and ?args = "concat (map item_va items)"
  define st1 where "st1 = emit e (item_text i) st"
  define f1 where "f1 = fmt + length (item_chars i)"
  have reach: "min e (snd st + length (item_text i)) \<le> h" "min e (snd st1 + length (concat (map item_text items))) \<le> h"
    using Cons.prems(5) by (auto simp: st1_def add.assoc)
  have at: "str_at (fst st) fmt (item_chars i @ ?rest)" using Cons.prems(1) by simp
  have "str_at (fst st) f1 ?rest" using at by (simp add: str_at_append f1_def)
  moreover have "f1 + length ?rest < snd st \<or> h \<le> f1" using Cons.prems(4) by (auto simp: f1_def)
  ultimately have rest: "str_at (fst st1) f1 ?rest" "f1 + length ?rest < snd st1 \<or> h \<le> f1"
    using str_at_emit [OF _ _ reach(1)] unfolding st1_def by blast+
  have "list_all (item_in (fst st1) (snd st1) h) items"
    using Cons.prems(3) item_in_emit [OF _ reach(1)] unfolding st1_def by (auto simp: list_all_iff)
  with Cons.IH [of st1 f1] Cons.prems(2) rest reach(2)
  have IH: "format_loop buf e f1 ?args st1 = Some (emit e (concat (map item_text items)) st1)" by simp
  have "format_loop buf e fmt (item_va i @ ?args) st = format_loop buf e f1 ?args st1"
  proof (cases i)
    case (Lit c)
    then show ?thesis using at Cons.prems(2)
      by (subst format_loop.simps) (simp add: st1_def f1_def ADDCH_emit)
  next
    case Percent
    have str: "str_at (fst st) (fmt + 1) (37 # ?rest)" and c: "fst st fmt = 37" "fst st (fmt + 1) = 37" using at Percent by simp_all
    have "takeWhile is_flag (37 # ?rest) = []" by (simp add: is_flag_def)
    then have "parse_flags (fst st) fmt 0 = Some (0, fmt + 1)" using parse_flags_eq [OF str] by (simp add: flags_of_def)
    then have "directive buf e fmt ?args st = Some (fmt + 1, ?args, emit e [37] st)"
      using c by (simp add: directive_def parse_width_def parse_precision_def parse_qualifier_def is_digit_def convert_cases)
    then show ?thesis using Percent c by (subst format_loop.simps) (simp add: st1_def f1_def)
  next
    case (Conv fl w p a)
    have "directive buf e fmt (conv_va a # ?args) st =
        Some (fmt + length (item_chars i) - 1, ?args, emit e (item_text i) st)"
      using at Cons.prems(2,3) reach(1) unfolding Conv by (intro directive_item [of st fmt fl w p a ?rest h]) auto
    moreover have "fst st fmt = 37" using at Conv by simp
    ultimately show ?thesis using Conv by (subst format_loop.simps) (simp add: st1_def f1_def)
  qed
  then show ?case using IH by (simp add: st1_def)
qed


section \<open>Properties\<close>

lemma vsnprintf_text:
  assumes "str_at m fmt (concat (map item_chars items))" and "list_all item_ok items"
    and "list_all (item_in m buf (buf + min n (length (concat (map item_text items)) + 1))) items"
    and "fmt + length (concat (map item_chars items)) < buf \<or> buf + min n (length (concat (map item_text items)) + 1) \<le> fmt"
    and "buf + n < 2 ^ 32" and "0 < n"
  shows "vsnprintf m buf n fmt (concat (map item_va items)) =
           Some (length (concat (map item_text items)),
                 write_bytes m buf (take (n - 1) (concat (map item_text items)) @ [0]))"
  using vsnprintf_stores [OF format_loop_items [of "(m, buf)" fmt items "buf + min n (length (concat (map item_text items)) + 1)"]
      assms(5)] assms by (simp add: stored_def)


lemma text_42: "number_text 42 10 4 (- 1) (LEFT OR SIGN) = [52, 50, 32, 32]"
proof -
  have "dec_digits 42 = [50, 52]" by (simp add: dec_digits.simps)
  moreover have "replicate 2 (32 :: 8 word) = [32, 32]" by (simp add: numeral_2_eq_2)
  ultimately show ?thesis
    by (simp add: number_text_def number_digits_def number_sign_def number_prefix_def flag_defs Let_def)
qed

lemma as_size_minus_1: "as_size (- 1) = 4294967295"
  by (simp add: as_size_def unsigned_minus_1_eq_mask mask_eq_exp_minus_1)



lemma demo_call:
  "\<exists>m'. vsnprintf (demo_bytes [''<%-4d>'']) 200 4 100 [Va_Int 42] = Some (6, m')"
proof -
  define m where "m = demo_bytes [''<%-4d>'']"
  define items where "items = [Lit 60, Conv [45] (Some 4) None (Arg_d 42), Lit 62]"
  have "str_at m 100 (concat (map item_chars items))" "list_all item_ok items" "list_all (item_in m 200 204) items"
    unfolding m_def items_def by code_simp+
  moreover have l: "length (concat (map item_chars items)) = 6" unfolding items_def by code_simp
  ultimately have "format_loop 200 (200 + 4) 100 (concat (map item_va items)) (m, 200) =
      Some (emit (200 + 4) (concat (map item_text items)) (m, 200))" by (intro format_loop_items [where h = 204]) auto
  then have "vsnprintf m 200 4 100 (concat (map item_va items)) =
      Some (length (concat (map item_text items)), stored m 200 4 (concat (map item_text items)))"
    by (rule vsnprintf_stores) simp
  moreover have "concat (map item_va items) = [Va_Int 42]" unfolding items_def by simp
  moreover have "concat (map item_text items) = [60, 52, 50, 32, 32, 62]"
    by (simp add: items_def text_42 opt_field_def flags_of_def flag_of_def)
  ultimately show ?thesis unfolding m_def by simp
qed


lemma dec_digits_length: "n < 10 ^ k \<Longrightarrow> 0 < k \<Longrightarrow> length (dec_digits n) \<le> k"
proof (induction k arbitrary: n)
  case (Suc k)
  show ?case
  proof (cases "n < 10")
    case True
    then show ?thesis by (subst dec_digits.simps) simp
  next
    case False
    then have "0 < k" using Suc.prems by (cases k) auto
    moreover have "n div 10 < 10 ^ k" using Suc.prems(1) by (simp add: div_less_iff_less_mult mult.commute)
    ultimately show ?thesis using False Suc.IH [of "n div 10"] by (subst dec_digits.simps) simp
  qed
qed simp

lemma itoa_parses:
  assumes "str_at m p (rev (dec_digits k))"
  shows "simple_strtoul m p 10 = Some (of_nat k, p + length (dec_digits k))"
  using strto_parse(1) [of m p "[]" "rev (dec_digits k)" "[]" 10 10] assms dec_digits_ok [of k] number_of_dec_digits [of k]
  by (simp add: radix_case_def)

lemma plain_text:
  "number_text n 10 (- 1) (- 1) flags = number_sign n flags @ number_digits n 10 flags" if "flags AND LEFT = 0" "flags AND ZEROPAD = 0"
  using that by (simp add: number_text_def number_prefix_def Let_def)

lemma signed_digits:
  fixes v :: "32 word"
  shows "sint v < 0 \<Longrightarrow> unat (- scast v :: 64 word) = unat (- v)" "0 \<le> sint v \<Longrightarrow> unat (scast v :: 64 word) = unat v"
    and "sint (scast v :: 64 word) = sint v"
proof -
  have b: "- (2 ^ 31) \<le> sint v" "sint v < 2 ^ 31" using sint_greater_eq [of v] sint_less [of v] by simp_all
  have v: "v = word_of_int (sint v)" by simp
  have s: "(scast v :: 64 word) = word_of_int (sint v)" by simp
  show "sint (scast v :: 64 word) = sint v" using b by (simp add: signed_scast_eq signed_take_bit_int_eq_self)
  have wi: "uint (word_of_int x :: 64 word) = x" "uint (word_of_int x :: 32 word) = x" if "0 \<le> x" "x \<le> 2 ^ 31" for x
    unfolding uint_word_of_int using that by simp_all
  have "(- scast v :: 64 word) = word_of_int (- sint v)" "- v = word_of_int (- sint v)" using s v by (metis wi_hom_neg)+
  then show "unat (- scast v :: 64 word) = unat (- v)" if "sint v < 0"
    using wi [of "- sint v"] b that by (simp only: unat_eq_nat_uint)
  show "unat (scast v :: 64 word) = unat v" if "0 \<le> sint v"
    using wi [of "sint v"] b that s v by (metis unat_eq_nat_uint order.strict_implies_order)
qed

text \<open>A format that is a single conversion without options, printed into a buffer that is large enough.\<close>

lemma snprintf_one:
  assumes "str_at m fmt (37 # conv_chars a)" and "T = conv_text 0 (- 1) (- 1) a" and "conv_va a = Va_Int v"
    and "fmt + 1 + length (conv_chars a) < buf \<or> buf + n \<le> fmt" and "buf + n < 2 ^ 32" and "length T < n" and "0 \<notin> set T"
  shows "\<exists>m'. snprintf m buf n fmt [Va_Int v] = Some (length T, m') \<and> str_at m' buf T"
proof -
  have "item_in m buf (buf + n) (Conv [] None None a)" using assms(3) by (cases a) simp_all
  then have "format_loop buf (buf + n) fmt (concat (map item_va [Conv [] None None a])) (m, buf) =
      Some (emit (buf + n) (concat (map item_text [Conv [] None None a])) (m, buf))"
    using assms by (intro format_loop_items) (auto simp: width_chars_def prec_chars_def)
  from vsnprintf_stores [OF this assms(5)] have "snprintf m buf n fmt [Va_Int v] = Some (length T, stored m buf n T)"
    using assms(2,3) by (simp add: snprintf_def opt_field_def flags_of_def)
  then show ?thesis using stored_str_at [of n T m buf] assms(6,7) by auto
qed

lemma word_digits_length: "length (dec_digits (unat w)) \<le> 10" for w :: "32 word"
proof (rule dec_digits_length)
  show "unat w < 10 ^ 10" using less_2p32 [of w] by simp
qed simp

lemma unsigned_round_trip:
  assumes "str_at m fmt [37, 117]" and "fmt + 2 < buf \<or> buf + n \<le> fmt" and "buf + n < 2 ^ 32" and "12 \<le> n"
  shows "\<exists>k m'. snprintf m buf n fmt [Va_Int v] = Some (k, m') \<and> simple_strtoul m' buf 10 = Some (v, buf + k)"
proof -
  define T where "T = rev (dec_digits (unat v))"
  have "take_bit 64 (unat v) = unat v" using less_2p32 [of v] by (simp add: take_bit_nat_eq_self_iff)
  then have "T = conv_text 0 (- 1) (- 1) (Arg_u v)"
    by (simp add: plain_text number_sign_def number_digits_def T_def unsigned_ucast_eq)
  moreover have "length T < n" "0 \<notin> set T"
    using assms(4) word_digits_length [of v] dec_digits_ok(2) [of "unat v"] by (simp_all add: T_def)
  ultimately obtain m' where "snprintf m buf n fmt [Va_Int v] = Some (length T, m')" "str_at m' buf T"
    using snprintf_one [of m fmt "Arg_u v" T v buf n] assms(1-3) by auto
  then show ?thesis using itoa_parses [of m' buf "unat v"] by (auto simp: T_def)
qed

lemma signed_round_trip:
  assumes "str_at m fmt [37, 100]" and "fmt + 2 < buf \<or> buf + n \<le> fmt" and "buf + n < 2 ^ 32" and "12 \<le> n"
  shows "\<exists>k m'. snprintf m buf n fmt [Va_Int v] = Some (k, m') \<and> simple_strtol m' buf 10 = Some (v, buf + k)"
proof -
  define D where "D = rev (dec_digits (if sint v < 0 then unat (- v) else unat v))"
  define T where "T = (if sint v < 0 then 45 # D else D)"
  have D: "length D \<le> 10" "0 \<notin> set D" using word_digits_length dec_digits_ok(2) by (simp_all add: D_def)
  have "T = conv_text 0 (- 1) (- 1) (Arg_d v)"
    using signed_digits [of v] by (simp add: plain_text number_sign_def number_digits_def T_def D_def flag_defs)
  moreover have "length T < n" "0 \<notin> set T" using assms(4) D by (simp_all add: T_def)
  ultimately obtain m' where out: "snprintf m buf n fmt [Va_Int v] = Some (length T, m')" "str_at m' buf T"
    using snprintf_one [of m fmt "Arg_d v" T v buf n] assms(1-3) by auto
  have "simple_strtol m' buf 10 = Some (v, buf + length T)"
  proof (cases "sint v < 0")
    case True
    then have "m' buf = 45" "str_at m' (buf + 1) (rev (dec_digits (unat (- v))))" using out by (simp_all add: T_def D_def)
    then show ?thesis using True itoa_parses by (simp add: simple_strtol_def T_def D_def)
  next
    case False
    then have at: "str_at m' buf (rev (dec_digits (unat v)))" using out by (simp add: T_def D_def)
    then have "m' buf \<noteq> 45" using digit_run(2) [of m' buf "unat v" "[]"] by (auto simp: is_digit_def)
    then show ?thesis using False itoa_parses [OF at] by (simp add: simple_strtol_def T_def D_def)
  qed
  with out(1) show ?thesis by blast
qed

text \<open>
  C31. Printing and reading decimal numbers are inverse: what \<^verbatim>\<open>snprintf\<close> with \<^verbatim>\<open>%u\<close> leaves in a
  buffer of at least 12 bytes is read back by \<^verbatim>\<open>simple_strtoul\<close> as the same number, up to the end
  of the text; \<^verbatim>\<open>%d\<close> is read back by \<^verbatim>\<open>simple_strtol\<close>, for negative numbers too; and so is the
  result of \<^verbatim>\<open>simple_itoa\<close> by \<^verbatim>\<open>simple_strtoul\<close>.
\<close>

theorem decimal_round_trip:
  assumes "fmt + 2 < buf \<or> buf + n \<le> fmt" and "buf + n < 2 ^ 32" and "12 \<le> n"
  shows "(str_at m fmt [37, 117] \<longrightarrow>
            (\<exists>k m'. snprintf m buf n fmt [Va_Int v] = Some (k, m') \<and> simple_strtoul m' buf 10 = Some (v, buf + k))) \<and>
         (str_at m fmt [37, 100] \<longrightarrow>
            (\<exists>k m'. snprintf m buf n fmt [Va_Int v] = Some (k, m') \<and> simple_strtol m' buf 10 = Some (v, buf + k))) \<and>
         (str_at m p (simple_itoa v) \<longrightarrow> simple_strtoul m p 10 = Some (v, p + length (simple_itoa v)))"
  using unsigned_round_trip [OF _ assms] signed_round_trip [OF _ assms] itoa_parses [of m p "unat v"]
  by (simp add: simple_itoa_digits)

theorem decimal_round_trip_witness:
  "\<exists>k m'. snprintf (demo_bytes [''%d'']) 200 12 100 [Va_Int (- 2147483648)] = Some (k, m') \<and>
          simple_strtol m' 200 10 = Some (- 2147483648, 200 + k)"
proof -
  have "str_at (demo_bytes [''%d'']) 100 [37, 100]" by code_simp
  then show ?thesis using decimal_round_trip [of 100 200 12 "demo_bytes [''%d'']" "- 2147483648" 0] by simp
qed

text \<open>
  The wide literal \<^verbatim>\<open>L"<NULL>"\<close> has 32-bit characters: seen as 16-bit units it ends after the first
  one, and a NULL pointer printed with \<^verbatim>\<open>%ls\<close> comes out as a single character.
\<close>

lemma string16_NULL: "string16 e NULL (- 1) (- 1) 0 st = emit e [60] st"
proof -
  obtain k where "as_size (- 1) = Suc (Suc k)" 
  proof -
    have "as_size (- 1) = Suc (Suc (as_size (- 1) - 2))" using as_size_minus_1 by linarith
    then show ?thesis by (rule that)
  qed
  then have "utf16_strnlen NULL_units (as_size (- 1)) = 1"
    by (simp add: utf16_strnlen_def NULL_units_def NULL_text_def)
  then show ?thesis
    by (simp add: string16_def NULL_units_def NULL_text_def utf16_to_utf8_def loops_emit)
qed

end
