(* ===== verification/RX_Printk.thy ===== *)
theory RX_Printk
  imports RX_Logger Lib_Format
begin

text \<open>
  The print buffer together with the formatted output: \<^verbatim>\<open>__rx_printk_to_buffer\<close> with its calls of
  \<^verbatim>\<open>vsnprintf\<close>, \<^verbatim>\<open>memset\<close> and \<^verbatim>\<open>vsprintf\<close>, and that it does what \<open>RX_Logger\<close> says of a ready text.
\<close>

section \<open>The operation\<close>

text \<open>
  The length comes back as a C \<^verbatim>\<open>int\<close>. A text that does not fit is reported through \<^verbatim>\<open>pr_error\<close>,
  which is this function again; \<open>cfmt\<close> is the address of the format of that message.
\<close>

partial_function (option) rx_printk_fmt :: "addr \<Rightarrow> addr \<Rightarrow> va list \<Rightarrow> kstate \<Rightarrow> kstate option" where
  "rx_printk_fmt cfmt fmt args s =
     do { (n, m) \<leftarrow> vsnprintf (mem s) 0 0 fmt args;
          let size' = sint (of_nat n :: 32 word);
          (if size' + 1 > int CONFIG_PRINT_BUFFER_SIZE
           then rx_printk_fmt cfmt cfmt [Va_Int (word_of_int (size' + 1)), Va_Int (of_nat CONFIG_PRINT_BUFFER_SIZE)] (s\<lparr>mem := m\<rparr>)
           else do { let s1 = rx_enter_critical (s\<lparr>mem := m\<rparr>);
                     let s2 = (if int (printk_buffer_head s1) + (size' + 1) > int (buffer_end s1)
                               then s1\<lparr>mem := snd (memset (mem s1) (printk_buffer_head s1) 0
                                                     (buffer_end s1 - printk_buffer_head s1)),
                                       printk_buffer_head := printk_buffer_start_ptr s1\<rparr>
                               else s1);
                     (_, m') \<leftarrow> vsprintf (mem s2) (printk_buffer_head s2) fmt args;
                     Some (rx_exit_critical
                       (s2\<lparr>mem := m', printk_buffer_head := nat (int (printk_buffer_head s2) + (size' + 1))\<rparr>)) }) }"

definition complaint_items :: "32 word \<Rightarrow> item list" where
  "complaint_items n =
     map (Lit \<circ> of_nat \<circ> of_char) ''Invalid print request; exceeeds print buffer capacity Requested: '' @
     [Conv [] None None (Arg_d n)] @ map (Lit \<circ> of_nat \<circ> of_char) '' Available: '' @
     [Conv [] None None (Arg_d (of_nat CONFIG_PRINT_BUFFER_SIZE)), Lit 10]"

section \<open>A format that fits\<close>

definition render :: "item list \<Rightarrow> 8 word list" where
  "render items = concat (map item_text items)"

definition as_text :: "8 word list \<Rightarrow> string" where
  "as_text bs = map (\<lambda>w. char_of (unat w)) bs"

lemma byte_of_char: "of_nat (of_char (char_of (unat w) :: char)) = (w :: 8 word)"
proof -
  have "unat w < 2 ^ LENGTH(8)" by (rule unsigned_less)
  then show ?thesis by simp
qed

lemma c_string_as_text [simp]: "c_string (as_text bs) = bs @ [0]"
  unfolding c_string_def as_text_def by (simp only: map_map comp_def byte_of_char) simp

lemma length_as_text [simp]: "length (as_text bs) = length bs"
  by (simp add: as_text_def)

text \<open>The format and the strings it prints lie outside of the print buffer.\<close>

definition outside :: "kstate \<Rightarrow> addr \<Rightarrow> item list \<Rightarrow> bool" where
  "outside s fmt items \<longleftrightarrow>
     str_at (mem s) fmt (concat (map item_chars items)) \<and> list_all item_ok items \<and>
     list_all (item_in (mem s) (printk_buffer_start_ptr s) (buffer_end s)) items \<and>
     (fmt + length (concat (map item_chars items)) < printk_buffer_start_ptr s \<or> buffer_end s \<le> fmt)"

lemma item_in_mono: "item_in m lo hi i \<Longrightarrow> lo \<le> lo' \<Longrightarrow> hi' \<le> hi \<Longrightarrow> item_in m lo' hi' i"
  by (cases "(m, lo, hi, i)" rule: item_in.cases) auto

lemma item_in_0: "item_in m lo hi i \<Longrightarrow> item_in m 0 0 i"
  by (cases "(m, lo, hi, i)" rule: item_in.cases) auto

lemma item_in_cong:
  "item_in m lo hi i \<Longrightarrow> (\<And>x. x < lo \<or> hi \<le> x \<Longrightarrow> m' x = m x) \<Longrightarrow> item_in m' lo hi i"
proof (cases "(m, lo, hi, i)" rule: item_in.cases)
  case (1 m0 lo0 hi0 fl w p a bs)
  assume "item_in m lo hi i" "\<And>x. x < lo \<or> hi \<le> x \<Longrightarrow> m' x = m x"
  with 1 show ?thesis by (auto intro: str_at_cong [THEN iffD1])
qed auto

lemma printk_measure:
  assumes "outside s fmt items"
  shows "vsnprintf (mem s) 0 0 fmt (concat (map item_va items)) = Some (length (render items), mem s)"
proof -
  have "list_all (item_in (mem s) 0 0) items"
    using assms item_in_0 by (auto simp: outside_def list_all_iff)
  then have "format_loop 0 (0 + 0) fmt (concat (map item_va items)) (mem s, 0) = Some (emit (0 + 0) (render items) (mem s, 0))"
    unfolding render_def using assms by (intro format_loop_items [where h = 0]) (auto simp: outside_def)
  from vsnprintf_stores [OF this] show ?thesis by (simp add: stored_def)
qed

lemma printk_vsprintf:
  assumes "outside s fmt items" and "buffer_end s < 2 ^ 31" and "printk_buffer_start_ptr s \<le> p" and "p + length (render items) + 1 \<le> buffer_end s"
    and same: "\<And>x. x < printk_buffer_start_ptr s \<or> buffer_end s \<le> x \<Longrightarrow> m x = mem s x"
  shows "vsprintf m p fmt (concat (map item_va items)) = Some (length (render items), write_bytes m p (render items @ [0]))"
proof -
  let ?n = "min INT_MAX (length (concat (map item_text items)) + 1)"
  have len: "length (render items) < INT_MAX" using assms(2,4) by (simp add: INT_MAX_def)
  have n: "p + ?n \<le> buffer_end s" using assms(4) by (simp add: render_def)
  have "str_at (mem s) fmt (concat (map item_chars items)) = str_at m fmt (concat (map item_chars items))"
    using assms(1) by (intro str_at_cong same [symmetric]) (auto simp: outside_def)
  moreover have "list_all (item_in m p (p + ?n)) items"
    using assms(1,3) n item_in_mono [OF item_in_cong [OF _ same]] by (auto simp: outside_def list_all_iff)
  moreover have "fmt + length (concat (map item_chars items)) < p \<or> p + ?n \<le> fmt"
    using assms(1,3) n by (auto simp: outside_def)
  ultimately have "vsnprintf m p INT_MAX fmt (concat (map item_va items)) =
      Some (length (render items), write_bytes m p (take (INT_MAX - 1) (render items) @ [0]))"
    unfolding render_def using assms(1,2,4) len
    by (intro vsnprintf_text) (auto simp: outside_def INT_MAX_def)
  then show ?thesis using len by (simp add: vsprintf_def)
qed

lemma small_int: "n < 2 ^ 31 \<Longrightarrow> sint (of_nat n :: 32 word) = int n"
  by (simp add: signed_of_nat signed_take_bit_int_eq_self)

lemma mem_put_bytes: "mem (put_bytes p bs s) = write_bytes (mem s) p bs"
  by (simp add: fun_eq_iff write_bytes_apply)

lemma put_bytes_eq: "put_bytes p bs s = s\<lparr>mem := write_bytes (mem s) p bs\<rparr>"
  by (simp add: put_bytes_def fun_eq_iff write_bytes_apply)

text \<open>The message fits: the call stores the rendered text.\<close>

lemma printk_fits:
  assumes "outside s fmt items" and "in_buffer s" and "buffer_end s < 2 ^ 31"
    and "length (render items) + 1 \<le> CONFIG_PRINT_BUFFER_SIZE"
  shows "rx_printk_fmt cfmt fmt (concat (map item_va items)) s = Some (printk_store (as_text (render items)) s)"
proof -
  let ?T = "render items" and ?s1 = "rx_enter_critical s"
  define s2 where "s2 = (if printk_buffer_head ?s1 + (length ?T + 1) > buffer_end ?s1
    then (put_bytes (printk_buffer_head ?s1) (replicate (buffer_end ?s1 - printk_buffer_head ?s1) 0) ?s1)
      \<lparr>printk_buffer_head := printk_buffer_start_ptr ?s1\<rparr> else ?s1)"
  have len: "sint (of_nat (length ?T) :: 32 word) = int (length ?T)"
    using assms(4) by (intro small_int) (simp add: CONFIG_PRINT_BUFFER_SIZE_def)
  have at: "printk_buffer_head s2 = store_at (as_text ?T) s" by (simp add: s2_def store_at_def)
  have b: "printk_buffer_start_ptr s \<le> store_at (as_text ?T) s" "store_at (as_text ?T) s + length ?T + 1 \<le> buffer_end s"
    using store_at_bounds [of s "as_text ?T"] assms(2,4) by simp_all
  have "x < printk_buffer_start_ptr s \<or> buffer_end s \<le> x \<Longrightarrow> mem s2 x = mem s x" for x
    using assms(2) by (auto simp: s2_def in_buffer_def critical_eqs buffer_end_def)
  then have v: "vsprintf (mem s2) (printk_buffer_head s2) fmt (concat (map item_va items)) =
      Some (length ?T, write_bytes (mem s2) (printk_buffer_head s2) (?T @ [0]))"
    unfolding at using assms(1,3) b by (intro printk_vsprintf [where s = s]) auto
  have s2: "(if int (printk_buffer_head ?s1) + (int (length ?T) + 1) > int (buffer_end ?s1)
      then ?s1\<lparr>mem := snd (memset (mem ?s1) (printk_buffer_head ?s1) 0 (buffer_end ?s1 - printk_buffer_head ?s1)),
        printk_buffer_head := printk_buffer_start_ptr ?s1\<rparr> else ?s1) = s2"
    by (auto simp: s2_def put_bytes_eq memset_eq)
  have fits: "(int CONFIG_PRINT_BUFFER_SIZE < int (length ?T) + 1) = False" and same: "s\<lparr>mem := mem s\<rparr> = s"
    using assms(4) by simp_all
  have "rx_printk_fmt cfmt fmt (concat (map item_va items)) s =
      Some (rx_exit_critical (s2\<lparr>mem := write_bytes (mem s2) (printk_buffer_head s2) (?T @ [0]),
        printk_buffer_head := nat (int (printk_buffer_head s2) + (int (length ?T) + 1))\<rparr>))"
    unfolding rx_printk_fmt.simps [of _ fmt] Let_def
    by (simp only: printk_measure [OF assms(1)] Option.bind.bind_lunit split_conv len fits if_False same s2 v)
  then show ?thesis
    by (simp add: printk_store_def Let_def s2_def put_bytes_eq nat_add_distrib)
qed


section \<open>The message for a text that is too long\<close>

lemma plain_number_length: "length (item_text (Conv [] None None (Arg_d n))) \<le> 21"
proof -
  have "length (dec_digits (unat (w :: 64 word))) \<le> 20" for w
    using less_2p64 [of w] by (intro dec_digits_length) simp_all
  then have "length (number_digits (scast n) 10 SIGN) \<le> 20" by (simp add: number_digits_def Let_def)
  moreover have "length (number_sign (scast n) SIGN) \<le> 1" by (simp add: number_sign_def)
  moreover have "SIGN AND LEFT = 0" "SIGN AND ZEROPAD = 0" by (simp_all add: flag_defs)
  ultimately show ?thesis using plain_text [of SIGN "scast n"] by (simp add: flags_of_def opt_field_def)
qed

lemma complaint_short: "length (render (complaint_items n)) + 1 \<le> CONFIG_PRINT_BUFFER_SIZE"
proof -
  have lits: "length (concat (map item_text (map (Lit \<circ> of_nat \<circ> of_char) cs))) = length cs" for cs :: string
    by (induction cs) simp_all
  have "length (render (complaint_items n)) \<le> 66 + 21 + 12 + 21 + 1"
    using plain_number_length [of n] plain_number_length [of "of_nat CONFIG_PRINT_BUFFER_SIZE"]
    unfolding render_def complaint_items_def map_append concat_append length_append lits by simp
  then show ?thesis by (simp add: CONFIG_PRINT_BUFFER_SIZE_def)
qed

lemma complaint_va:
  "concat (map item_va (complaint_items n)) = [Va_Int n, Va_Int (of_nat CONFIG_PRINT_BUFFER_SIZE)]"
  by (simp add: complaint_items_def)

text \<open>
  C25. Printing a format: \<^verbatim>\<open>__rx_printk_to_buffer\<close> measures the text with \<^verbatim>\<open>vsnprintf\<close>, makes room and
  prints it with \<^verbatim>\<open>vsprintf\<close>; for a format and arguments outside of the print buffer the call returns
  and its effect is that of storing the text the format asks for, or, when that text with its zero
  is larger than the whole buffer, of storing the complaint with the two sizes, which always fits.
\<close>

theorem printk_formats:
  assumes "in_buffer s" and "buffer_end s < 2 ^ 31" and "outside s fmt items" and "length (render items) + 1 < 2 ^ 31"
    and "complaint = complaint_items (of_nat (length (render items) + 1))" and "outside s cfmt complaint"
  shows "rx_printk_fmt cfmt fmt (concat (map item_va items)) s =
           Some (rx_printk_to_buffer (as_text (render complaint)) (as_text (render items)) s)"
proof (cases "length (render items) + 1 \<le> CONFIG_PRINT_BUFFER_SIZE")
  case True
  then show ?thesis using printk_fits [OF assms(3,1,2)] by (simp add: rx_printk_to_buffer_def)
next
  case False
  have len: "sint (of_nat (length (render items)) :: 32 word) = int (length (render items))"
    using assms(4) by (intro small_int) simp
  have "rx_printk_fmt cfmt fmt (concat (map item_va items)) s =
      rx_printk_fmt cfmt cfmt (concat (map item_va complaint)) s"
    using False by (subst rx_printk_fmt.simps)
      (simp add: printk_measure [OF assms(3)] len assms(5) complaint_va Let_def add.commute)
  then show ?thesis using printk_fits [OF assms(6,1,2)] complaint_short False assms(5) by (simp add: rx_printk_to_buffer_def)
qed

definition demo_items :: "item list" where
  "demo_items = [Lit 110, Lit 61, Conv [] None None (Arg_d 7)]"

definition demo_print :: kstate where
  "demo_print = demo_log\<lparr>mem := write_bytes (write_bytes (\<lambda>_. 0) 100 ([110, 61, 37, 100] @ [0])) 200
     (concat (map item_chars (complaint_items 0)) @ [0])\<rparr>"

lemma complaint_chars: "concat (map item_chars (complaint_items n)) = concat (map item_chars (complaint_items 0))"
  by (simp add: complaint_items_def)

lemma complaint_props:
  "0 \<notin> set (concat (map item_chars (complaint_items 0)))" "length (concat (map item_chars (complaint_items 0))) \<le> 100"
  "list_all item_ok (complaint_items n)" "list_all (item_in m lo hi) (complaint_items n)"
proof -
  show "0 \<notin> set (concat (map item_chars (complaint_items 0)))" "length (concat (map item_chars (complaint_items 0))) \<le> 100"
    by code_simp+
  have "list_all item_ok (map (Lit \<circ> of_nat \<circ> of_char) ''Invalid print request; exceeeds print buffer capacity Requested: '')"
    "list_all item_ok (map (Lit \<circ> of_nat \<circ> of_char) '' Available: '')" by code_simp+
  then show "list_all item_ok (complaint_items n)" by (simp add: complaint_items_def width_chars_def)
  show "list_all (item_in m lo hi) (complaint_items n)" by (simp add: complaint_items_def list_all_iff)
qed

theorem printk_formats_witness:
  "\<exists>complaint. rx_printk_fmt 200 100 [Va_Int 7] demo_print = Some (rx_printk_to_buffer complaint ''n=7'' demo_print)"
proof -
  define complaint where "complaint = complaint_items (of_nat (length (render demo_items) + 1))"
  have "number_text 7 10 (- 1) (- 1) SIGN = [55]"
    using plain_text [of SIGN 7] by (simp add: number_sign_def number_digits_def flag_defs Let_def dec_digits.simps)
  then have T: "render demo_items = [110, 61, 55]" by (simp add: render_def demo_items_def flags_of_def opt_field_def)
  have ptr: "printk_buffer_start_ptr demo_print = 5000" "buffer_end demo_print = 9096" "in_buffer demo_print"
    by (simp_all add: demo_print_def in_buffer_def)
  have "str_at (mem demo_print) 100 [110, 61, 37, 100]"
    by (simp add: demo_print_def write_bytes_apply)
  then have "outside demo_print 100 demo_items" by (simp add: outside_def ptr demo_items_def width_chars_def prec_chars_def)
  moreover have "str_at (mem demo_print) 200 (concat (map item_chars (complaint_items 0)))"
    using str_at_write complaint_props(1) by (simp add: demo_print_def)
  then have "outside demo_print 200 complaint"
    using complaint_props unfolding outside_def ptr complaint_def complaint_chars [of "of_nat (length (render demo_items) + 1)"] by simp
  moreover have "as_text (render demo_items) = ''n=7''" unfolding T by code_simp
  moreover have "concat (map item_va demo_items) = [Va_Int 7]" by (simp add: demo_items_def)
  ultimately show ?thesis
    using printk_formats [of demo_print 100 demo_items complaint 200] ptr T by (auto simp: complaint_def)
qed

end
