(* ===== verification/Lib_Rbtree.thy ===== *)
theory Lib_Rbtree
  imports RX_Prelude
begin

text \<open>
  Red-black trees (\<^verbatim>\<open>lib/rbtree.c\<close>, \<^verbatim>\<open>include/rosx/rbtree.h\<close>). A node is a struct at a 32-bit
  address; 0 is NULL. The parent pointer and the colour share one word: nodes are aligned, so that
  the low bits of an address are free and bit 0 holds the colour. The root pointer belongs to the
  state. \<^term>\<open>None\<close> is an access through NULL or a stray pointer, or a loop that does not end.
\<close>

unbundle bit_operations_syntax

section \<open>Nodes\<close>

record rb_node =
  rb_parent_color :: "32 word"
  rb_right :: "32 word"
  rb_left :: "32 word"

type_synonym rb_heap = "32 word \<rightharpoonup> rb_node"

record rb_state =
  nodes :: rb_heap
  rb_root :: "32 word"

definition RB_RED :: "32 word" where "RB_RED = 0"
definition RB_BLACK :: "32 word" where "RB_BLACK = 1"

definition rb_parent :: "rb_node \<Rightarrow> 32 word" where "rb_parent r = rb_parent_color r AND NOT 3"
definition rb_color :: "rb_node \<Rightarrow> 32 word" where "rb_color r = rb_parent_color r AND 1"
definition rb_is_red :: "rb_node \<Rightarrow> bool" where "rb_is_red r \<longleftrightarrow> rb_color r = 0"
definition rb_is_black :: "rb_node \<Rightarrow> bool" where "rb_is_black r \<longleftrightarrow> rb_color r \<noteq> 0"

definition upd_node :: "32 word \<Rightarrow> (rb_node \<Rightarrow> rb_node) \<Rightarrow> rb_state \<Rightarrow> rb_state option" where
  "upd_node a f s = do { n \<leftarrow> nodes s a; Some (s\<lparr>nodes := (nodes s)(a \<mapsto> f n)\<rparr>) }"

definition rb_set_red :: "32 word \<Rightarrow> rb_state \<Rightarrow> rb_state option" where
  "rb_set_red a = upd_node a (\<lambda>r. r\<lparr>rb_parent_color := rb_parent_color r AND NOT 1\<rparr>)"

definition rb_set_black :: "32 word \<Rightarrow> rb_state \<Rightarrow> rb_state option" where
  "rb_set_black a = upd_node a (\<lambda>r. r\<lparr>rb_parent_color := rb_parent_color r OR 1\<rparr>)"

definition rb_set_parent :: "32 word \<Rightarrow> 32 word \<Rightarrow> rb_state \<Rightarrow> rb_state option" where
  "rb_set_parent a p = upd_node a (\<lambda>r. r\<lparr>rb_parent_color := (rb_parent_color r AND 3) OR p\<rparr>)"

definition rb_set_color :: "32 word \<Rightarrow> 32 word \<Rightarrow> rb_state \<Rightarrow> rb_state option" where
  "rb_set_color a color = upd_node a (\<lambda>r. r\<lparr>rb_parent_color := (rb_parent_color r AND NOT 1) OR color\<rparr>)"

definition set_left :: "32 word \<Rightarrow> 32 word \<Rightarrow> rb_state \<Rightarrow> rb_state option" where
  "set_left a p = upd_node a (\<lambda>r. r\<lparr>rb_left := p\<rparr>)"

definition set_right :: "32 word \<Rightarrow> 32 word \<Rightarrow> rb_state \<Rightarrow> rb_state option" where
  "set_right a p = upd_node a (\<lambda>r. r\<lparr>rb_right := p\<rparr>)"

definition RB_EMPTY_ROOT :: "rb_state \<Rightarrow> bool" where "RB_EMPTY_ROOT s \<longleftrightarrow> rb_root s = 0"

definition RB_EMPTY_NODE :: "32 word \<Rightarrow> rb_state \<Rightarrow> bool option" where
  "RB_EMPTY_NODE a s = map_option (\<lambda>n. rb_parent n = a) (nodes s a)"

definition RB_CLEAR_NODE :: "32 word \<Rightarrow> rb_state \<Rightarrow> rb_state option" where "RB_CLEAR_NODE a = rb_set_parent a a"

definition rb_init_node :: "32 word \<Rightarrow> rb_state \<Rightarrow> rb_state option" where
  "rb_init_node a s =
     do { s1 \<leftarrow> upd_node a (\<lambda>r. r\<lparr>rb_parent_color := 0, rb_right := 0, rb_left := 0\<rparr>) s;
          RB_CLEAR_NODE a s1 }"

text \<open>
  \<^verbatim>\<open>rb_link_node\<close>: the pointer to be set is the root pointer, or the left or the right field of a
  node.
\<close>

datatype rb_link = Link_Root | Link_Left "32 word" | Link_Right "32 word"

definition set_link :: "rb_link \<Rightarrow> 32 word \<Rightarrow> rb_state \<Rightarrow> rb_state option" where
  "set_link l p s =
     (case l of Link_Root \<Rightarrow> Some (s\<lparr>rb_root := p\<rparr>) | Link_Left a \<Rightarrow> set_left a p s | Link_Right a \<Rightarrow> set_right a p s)"

definition rb_link_node :: "32 word \<Rightarrow> 32 word \<Rightarrow> rb_link \<Rightarrow> rb_state \<Rightarrow> rb_state option" where
  "rb_link_node node parent l s =
     do { s1 \<leftarrow> upd_node node (\<lambda>r. r\<lparr>rb_parent_color := parent, rb_left := 0, rb_right := 0\<rparr>) s;
          set_link l node s1 }"


section \<open>Rotations and rebalancing\<close>

definition rb_rotate_left :: "32 word \<Rightarrow> rb_state \<Rightarrow> rb_state option" where
  "rb_rotate_left node s =
     do { n \<leftarrow> nodes s node;
          let right = rb_right n;
          let parent = rb_parent n;
          rn \<leftarrow> nodes s right;
          s1 \<leftarrow> set_right node (rb_left rn) s;
          s2 \<leftarrow> (if rb_left rn \<noteq> 0 then rb_set_parent (rb_left rn) node s1 else Some s1);
          s3 \<leftarrow> set_left right node s2;
          s4 \<leftarrow> rb_set_parent right parent s3;
          s5 \<leftarrow> (if parent \<noteq> 0
                 then do { p \<leftarrow> nodes s4 parent;
                           (if node = rb_left p then set_left parent right s4 else set_right parent right s4) }
                 else Some (s4\<lparr>rb_root := right\<rparr>));
          rb_set_parent node right s5 }"

definition rb_rotate_right :: "32 word \<Rightarrow> rb_state \<Rightarrow> rb_state option" where
  "rb_rotate_right node s =
     do { n \<leftarrow> nodes s node;
          let left = rb_left n;
          let parent = rb_parent n;
          ln \<leftarrow> nodes s left;
          s1 \<leftarrow> set_left node (rb_right ln) s;
          s2 \<leftarrow> (if rb_right ln \<noteq> 0 then rb_set_parent (rb_right ln) node s1 else Some s1);
          s3 \<leftarrow> set_right left node s2;
          s4 \<leftarrow> rb_set_parent left parent s3;
          s5 \<leftarrow> (if parent \<noteq> 0
                 then do { p \<leftarrow> nodes s4 parent;
                           (if node = rb_right p then set_right parent left s4 else set_left parent left s4) }
                 else Some (s4\<lparr>rb_root := left\<rparr>));
          rb_set_parent node left s5 }"

text \<open>\<^verbatim>\<open>p && rb_is_red(p)\<close> and \<^verbatim>\<open>!p || rb_is_black(p)\<close>.\<close>

definition red_at :: "rb_state \<Rightarrow> 32 word \<Rightarrow> bool option" where
  "red_at s p = (if p = 0 then Some False else map_option rb_is_red (nodes s p))"

definition black_at :: "rb_state \<Rightarrow> 32 word \<Rightarrow> bool option" where
  "black_at s p = (if p = 0 then Some True else map_option rb_is_black (nodes s p))"

partial_function (option) insert_color_loop :: "32 word \<Rightarrow> rb_state \<Rightarrow> rb_state option" where
  "insert_color_loop node s =
     do { n \<leftarrow> nodes s node;
          let parent = rb_parent n;
          pr \<leftarrow> red_at s parent;
          (if \<not> pr then Some s
           else do { p \<leftarrow> nodes s parent;
                     let gparent = rb_parent p;
                     g \<leftarrow> nodes s gparent;
                     (if parent = rb_left g
                      then do { ur \<leftarrow> red_at s (rb_right g);
                                (if ur
                                 then do { s1 \<leftarrow> rb_set_black (rb_right g) s;
                                           s2 \<leftarrow> rb_set_black parent s1;
                                           s3 \<leftarrow> rb_set_red gparent s2;
                                           insert_color_loop gparent s3 }
                                 else do { (s1, parent', node') \<leftarrow>
                                             (if rb_right p = node
                                              then do { s' \<leftarrow> rb_rotate_left parent s; Some (s', node, parent) }
                                              else Some (s, parent, node));
                                           s2 \<leftarrow> rb_set_black parent' s1;
                                           s3 \<leftarrow> rb_set_red gparent s2;
                                           s4 \<leftarrow> rb_rotate_right gparent s3;
                                           insert_color_loop node' s4 }) }
                      else do { ur \<leftarrow> red_at s (rb_left g);
                                (if ur
                                 then do { s1 \<leftarrow> rb_set_black (rb_left g) s;
                                           s2 \<leftarrow> rb_set_black parent s1;
                                           s3 \<leftarrow> rb_set_red gparent s2;
                                           insert_color_loop gparent s3 }
                                 else do { (s1, parent', node') \<leftarrow>
                                             (if rb_left p = node
                                              then do { s' \<leftarrow> rb_rotate_right parent s; Some (s', node, parent) }
                                              else Some (s, parent, node));
                                           s2 \<leftarrow> rb_set_black parent' s1;
                                           s3 \<leftarrow> rb_set_red gparent s2;
                                           s4 \<leftarrow> rb_rotate_left gparent s3;
                                           insert_color_loop node' s4 }) }) }) }"

definition rb_insert_color :: "32 word \<Rightarrow> rb_state \<Rightarrow> rb_state option" where
  "rb_insert_color node s = do { s1 \<leftarrow> insert_color_loop node s; rb_set_black (rb_root s1) s1 }"


section \<open>Removal\<close>

text \<open>
  One pass of the loop of \<^verbatim>\<open>__rb_erase_color\<close>, for a node that is a left or a right child: a red
  sibling is rotated away first, the rest of the pass has a black one.
  \<^term>\<open>Inl\<close> goes on with a new node and parent, \<^term>\<open>Inr\<close> is the \<^verbatim>\<open>break\<close> with the node of that
  moment.
\<close>

type_synonym erase_pass = "((32 word \<times> 32 word \<times> rb_state) + (32 word \<times> rb_state)) option"

definition erase_left_black :: "32 word \<Rightarrow> 32 word \<Rightarrow> rb_state \<Rightarrow> erase_pass" where
  "erase_left_black parent other s1 =
     do { ob \<leftarrow> nodes s1 other;
          bl \<leftarrow> black_at s1 (rb_left ob);
          both \<leftarrow> (if bl then black_at s1 (rb_right ob) else Some False);
          (if both
           then do { s2 \<leftarrow> rb_set_red other s1;
                     np \<leftarrow> nodes s2 parent;
                     Some (Inl (parent, rb_parent np, s2)) }
           else do { br \<leftarrow> black_at s1 (rb_right ob);
                     (s2, other') \<leftarrow>
                       (if br
                        then do { sa \<leftarrow> rb_set_black (rb_left ob) s1;
                                  sb \<leftarrow> rb_set_red other sa;
                                  sc \<leftarrow> rb_rotate_right other sb;
                                  p' \<leftarrow> nodes sc parent;
                                  Some (sc, rb_right p') }
                        else Some (s1, other));
                     pn \<leftarrow> nodes s2 parent;
                     s3 \<leftarrow> rb_set_color other' (rb_color pn) s2;
                     s4 \<leftarrow> rb_set_black parent s3;
                     ob' \<leftarrow> nodes s4 other';
                     s5 \<leftarrow> rb_set_black (rb_right ob') s4;
                     s6 \<leftarrow> rb_rotate_left parent s5;
                     Some (Inr (rb_root s6, s6)) }) }"

definition erase_left :: "32 word \<Rightarrow> rb_node \<Rightarrow> rb_state \<Rightarrow> erase_pass" where
  "erase_left parent p s =
     do { on \<leftarrow> nodes s (rb_right p);
          (if rb_is_red on
           then do { sa \<leftarrow> rb_set_black (rb_right p) s;
                     sb \<leftarrow> rb_set_red parent sa;
                     sc \<leftarrow> rb_rotate_left parent sb;
                     p' \<leftarrow> nodes sc parent;
                     erase_left_black parent (rb_right p') sc }
           else erase_left_black parent (rb_right p) s) }"

definition erase_right_black :: "32 word \<Rightarrow> 32 word \<Rightarrow> rb_state \<Rightarrow> erase_pass" where
  "erase_right_black parent other s1 =
     do { ob \<leftarrow> nodes s1 other;
          bl \<leftarrow> black_at s1 (rb_left ob);
          both \<leftarrow> (if bl then black_at s1 (rb_right ob) else Some False);
          (if both
           then do { s2 \<leftarrow> rb_set_red other s1;
                     np \<leftarrow> nodes s2 parent;
                     Some (Inl (parent, rb_parent np, s2)) }
           else do { bl' \<leftarrow> black_at s1 (rb_left ob);
                     (s2, other') \<leftarrow>
                       (if bl'
                        then do { sa \<leftarrow> rb_set_black (rb_right ob) s1;
                                  sb \<leftarrow> rb_set_red other sa;
                                  sc \<leftarrow> rb_rotate_left other sb;
                                  p' \<leftarrow> nodes sc parent;
                                  Some (sc, rb_left p') }
                        else Some (s1, other));
                     pn \<leftarrow> nodes s2 parent;
                     s3 \<leftarrow> rb_set_color other' (rb_color pn) s2;
                     s4 \<leftarrow> rb_set_black parent s3;
                     ob' \<leftarrow> nodes s4 other';
                     s5 \<leftarrow> rb_set_black (rb_left ob') s4;
                     s6 \<leftarrow> rb_rotate_right parent s5;
                     Some (Inr (rb_root s6, s6)) }) }"

definition erase_right :: "32 word \<Rightarrow> rb_node \<Rightarrow> rb_state \<Rightarrow> erase_pass" where
  "erase_right parent p s =
     do { on \<leftarrow> nodes s (rb_left p);
          (if rb_is_red on
           then do { sa \<leftarrow> rb_set_black (rb_left p) s;
                     sb \<leftarrow> rb_set_red parent sa;
                     sc \<leftarrow> rb_rotate_right parent sb;
                     p' \<leftarrow> nodes sc parent;
                     erase_right_black parent (rb_left p') sc }
           else erase_right_black parent (rb_left p) s) }"

partial_function (option) erase_color_loop :: "32 word \<Rightarrow> 32 word \<Rightarrow> rb_state \<Rightarrow> (32 word \<times> rb_state) option" where
  "erase_color_loop node parent s =
     do { b \<leftarrow> black_at s node;
          (if b \<and> node \<noteq> rb_root s
           then do { p \<leftarrow> nodes s parent;
                     pass \<leftarrow> (if rb_left p = node then erase_left parent p s else erase_right parent p s);
                     (case pass of
                        Inl (node', parent', s') \<Rightarrow> erase_color_loop node' parent' s'
                      | Inr (node', s') \<Rightarrow> Some (node', s')) }
           else Some (node, s)) }"

definition rb_erase_color :: "32 word \<Rightarrow> 32 word \<Rightarrow> rb_state \<Rightarrow> rb_state option" where
  "rb_erase_color node parent s =
     do { (node', s') \<leftarrow> erase_color_loop node parent s;
          (if node' \<noteq> 0 then rb_set_black node' s' else Some s') }"

text \<open>\<^verbatim>\<open>while (n->rb_left) n = n->rb_left\<close> and its mirror image.\<close>

partial_function (option) leftmost :: "rb_heap \<Rightarrow> 32 word \<Rightarrow> 32 word option" where
  "leftmost h n = do { r \<leftarrow> h n; (if rb_left r \<noteq> 0 then leftmost h (rb_left r) else Some n) }"

partial_function (option) rightmost :: "rb_heap \<Rightarrow> 32 word \<Rightarrow> 32 word option" where
  "rightmost h n = do { r \<leftarrow> h n; (if rb_right r \<noteq> 0 then rightmost h (rb_right r) else Some n) }"

text \<open>The pointer to \<open>old\<close> in its parent, or the root pointer, is set to \<open>new\<close>.\<close>

definition relink :: "32 word \<Rightarrow> 32 word \<Rightarrow> 32 word \<Rightarrow> rb_state \<Rightarrow> rb_state option" where
  "relink parent old new s =
     (if parent \<noteq> 0
      then do { p \<leftarrow> nodes s parent; (if rb_left p = old then set_left parent new s else set_right parent new s) }
      else Some (s\<lparr>rb_root := new\<rparr>))"

definition erase_finish :: "32 word \<Rightarrow> 32 word \<Rightarrow> 32 word \<Rightarrow> rb_state \<Rightarrow> rb_state option" where
  "erase_finish color child parent s = (if color = RB_BLACK then rb_erase_color child parent s else Some s)"

text \<open>A node with at most one child, and a node with two.\<close>

definition erase_leaf :: "32 word \<Rightarrow> 32 word \<Rightarrow> rb_state \<Rightarrow> rb_state option" where
  "erase_leaf node child s =
     do { n \<leftarrow> nodes s node;
          s1 \<leftarrow> (if child \<noteq> 0 then rb_set_parent child (rb_parent n) s else Some s);
          s2 \<leftarrow> relink (rb_parent n) node child s1;
          erase_finish (rb_color n) child (rb_parent n) s2 }"

definition erase_inner :: "32 word \<Rightarrow> rb_state \<Rightarrow> rb_state option" where
  "erase_inner old s =
     do { n \<leftarrow> nodes s old;
          node \<leftarrow> leftmost (nodes s) (rb_right n);
          s1 \<leftarrow> relink (rb_parent n) old node s;
          m \<leftarrow> nodes s1 node;
          let child = rb_right m;
          (parent, s5) \<leftarrow>
            (if rb_parent m = old then Some (node, s1)
             else do { s2 \<leftarrow> (if child \<noteq> 0 then rb_set_parent child (rb_parent m) s1 else Some s1);
                       s3 \<leftarrow> set_left (rb_parent m) child s2;
                       o3 \<leftarrow> nodes s3 old;
                       s4 \<leftarrow> set_right node (rb_right o3) s3;
                       o4 \<leftarrow> nodes s4 old;
                       s5 \<leftarrow> rb_set_parent (rb_right o4) node s4;
                       Some (rb_parent m, s5) });
          o5 \<leftarrow> nodes s5 old;
          s6 \<leftarrow> upd_node node (\<lambda>r. r\<lparr>rb_parent_color := rb_parent_color o5\<rparr>) s5;
          o6 \<leftarrow> nodes s6 old;
          s7 \<leftarrow> set_left node (rb_left o6) s6;
          o7 \<leftarrow> nodes s7 old;
          s8 \<leftarrow> rb_set_parent (rb_left o7) node s7;
          erase_finish (rb_color m) child parent s8 }"

definition rb_erase :: "32 word \<Rightarrow> rb_state \<Rightarrow> rb_state option" where
  "rb_erase node s =
     do { n \<leftarrow> nodes s node;
          (if rb_left n = 0 then erase_leaf node (rb_right n) s
           else if rb_right n = 0 then erase_leaf node (rb_left n) s
           else erase_inner node s) }"


section \<open>Walking through a tree\<close>

definition rb_first :: "rb_state \<Rightarrow> 32 word option" where
  "rb_first s = (if rb_root s = 0 then Some 0 else leftmost (nodes s) (rb_root s))"

definition rb_last :: "rb_state \<Rightarrow> 32 word option" where
  "rb_last s = (if rb_root s = 0 then Some 0 else rightmost (nodes s) (rb_root s))"

text \<open>\<^verbatim>\<open>while ((parent = rb_parent(node)) && node == parent->rb_right) node = parent\<close>, and its mirror.\<close>

partial_function (option) climb_right :: "rb_heap \<Rightarrow> 32 word \<Rightarrow> 32 word option" where
  "climb_right h node =
     do { n \<leftarrow> h node;
          (if rb_parent n = 0 then Some 0
           else do { p \<leftarrow> h (rb_parent n);
                     (if node = rb_right p then climb_right h (rb_parent n) else Some (rb_parent n)) }) }"

partial_function (option) climb_left :: "rb_heap \<Rightarrow> 32 word \<Rightarrow> 32 word option" where
  "climb_left h node =
     do { n \<leftarrow> h node;
          (if rb_parent n = 0 then Some 0
           else do { p \<leftarrow> h (rb_parent n);
                     (if node = rb_left p then climb_left h (rb_parent n) else Some (rb_parent n)) }) }"

definition rb_next :: "rb_heap \<Rightarrow> 32 word \<Rightarrow> 32 word option" where
  "rb_next h node =
     do { n \<leftarrow> h node;
          (if rb_parent n = node then Some 0
           else if rb_right n \<noteq> 0 then leftmost h (rb_right n)
           else climb_right h node) }"

definition rb_prev :: "rb_heap \<Rightarrow> 32 word \<Rightarrow> 32 word option" where
  "rb_prev h node =
     do { n \<leftarrow> h node;
          (if rb_parent n = node then Some 0
           else if rb_left n \<noteq> 0 then rightmost h (rb_left n)
           else climb_left h node) }"

definition rb_replace_node :: "32 word \<Rightarrow> 32 word \<Rightarrow> rb_state \<Rightarrow> rb_state option" where
  "rb_replace_node victim new s =
     do { v \<leftarrow> nodes s victim;
          s1 \<leftarrow> relink (rb_parent v) victim new s;
          v1 \<leftarrow> nodes s1 victim;
          s2 \<leftarrow> (if rb_left v1 \<noteq> 0 then rb_set_parent (rb_left v1) new s1 else Some s1);
          v2 \<leftarrow> nodes s2 victim;
          s3 \<leftarrow> (if rb_right v2 \<noteq> 0 then rb_set_parent (rb_right v2) new s2 else Some s2);
          v3 \<leftarrow> nodes s3 victim;
          upd_node new (\<lambda>_. v3) s3 }"

text \<open>
  Augmented trees: \<open>func\<close> is the caller's function, applied to a node and to the data it keeps; it
  does not touch the links of the tree.
\<close>

partial_function (option) rb_augment_path ::
    "(32 word \<Rightarrow> 'd \<Rightarrow> 'd) \<Rightarrow> rb_heap \<Rightarrow> 32 word \<Rightarrow> 'd \<Rightarrow> 'd option" where
  "rb_augment_path func h node d =
     do { n \<leftarrow> h node;
          let d1 = func node d;
          (if rb_parent n = 0 then Some d1
           else do { p \<leftarrow> h (rb_parent n);
                     let d2 = (if node = rb_left p \<and> rb_right p \<noteq> 0 then func (rb_right p) d1
                               else if rb_left p \<noteq> 0 then func (rb_left p) d1 else d1);
                     rb_augment_path func h (rb_parent n) d2 }) }"

definition rb_augment_insert :: "(32 word \<Rightarrow> 'd \<Rightarrow> 'd) \<Rightarrow> rb_heap \<Rightarrow> 32 word \<Rightarrow> 'd \<Rightarrow> 'd option" where
  "rb_augment_insert func h node d =
     do { n \<leftarrow> h node;
          rb_augment_path func h
            (if rb_left n \<noteq> 0 then rb_left n else if rb_right n \<noteq> 0 then rb_right n else node) d }"

definition rb_augment_erase_begin :: "rb_heap \<Rightarrow> 32 word \<Rightarrow> 32 word option" where
  "rb_augment_erase_begin h node =
     do { n \<leftarrow> h node;
          (if rb_right n = 0 \<and> rb_left n = 0 then Some (rb_parent n)
           else if rb_right n = 0 then Some (rb_left n)
           else if rb_left n = 0 then Some (rb_right n)
           else do { deepest \<leftarrow> rb_next h node;
                     d \<leftarrow> h deepest;
                     Some (if rb_right d \<noteq> 0 then rb_right d
                           else if rb_parent d \<noteq> node then rb_parent d else deepest) }) }"

definition rb_augment_erase_end :: "(32 word \<Rightarrow> 'd \<Rightarrow> 'd) \<Rightarrow> rb_heap \<Rightarrow> 32 word \<Rightarrow> 'd \<Rightarrow> 'd option" where
  "rb_augment_erase_end func h node d = (if node \<noteq> 0 then rb_augment_path func h node d else Some d)"

end
