(* ===== verification/Lib_Rbshape.thy ===== *)
theory Lib_Rbshape
  imports Lib_Rbtree
begin

text \<open>
  Red-black trees in memory: the word that packs parent and colour, the trees of addresses a heap
  represents, the way from a subtree to the root (\<open>plug\<close>), and what rotations and recolouring do to
  the represented tree. Right rotations are left rotations in the mirror. At the end the red-black
  invariant, for whole trees and for the surroundings of a subtree.
\<close>

unbundle bit_operations_syntax

section \<open>The packed word\<close>

datatype colour = Red | Black

primrec bit_of :: "colour \<Rightarrow> 32 word" where
  "bit_of Red = 0"
| "bit_of Black = 1"

definition aligned :: "32 word \<Rightarrow> bool" where "aligned p \<longleftrightarrow> p AND 3 = 0"

definition pack :: "32 word \<Rightarrow> colour \<Rightarrow> 32 word" where "pack p c = p OR bit_of c"

named_theorems rb_simps \<open>evaluation of the node accesses on packed words\<close>

lemma bit_3: "bit (3 :: int) i \<longleftrightarrow> i < 2"
proof -
  have "(3 :: int) = mask 2" by (simp add: mask_eq_exp_minus_1)
  then show ?thesis by (simp only: bit_mask_iff) simp
qed

lemma aligned_bits: "aligned p \<Longrightarrow> bit p i \<Longrightarrow> 2 \<le> i"
proof -
  assume "aligned p" "bit p i"
  then have "\<not> bit (p AND 3) i" by (simp add: aligned_def)
  with \<open>bit p i\<close> show ?thesis using bit_imp_le_length [of p i] by (auto simp: bit_simps bit_3)
qed

lemma aligned_0 [simp]: "aligned 0"
  by (simp add: aligned_def)

lemma pack_parent [rb_simps]: "aligned p \<Longrightarrow> pack p c AND NOT 3 = p"
  by (rule bit_word_eqI, cases c) (auto simp: pack_def bit_simps bit_3 dest: aligned_bits)

lemma pack_color [rb_simps]: "aligned p \<Longrightarrow> pack p c AND 1 = bit_of c"
  by (rule bit_word_eqI, cases c) (auto simp: pack_def bit_simps bit_3 dest: aligned_bits)

lemma pack_set [rb_simps]:
  "aligned p \<Longrightarrow> pack p c AND NOT 1 = pack p Red"
  "aligned p \<Longrightarrow> pack p c OR 1 = pack p Black"
  "aligned p \<Longrightarrow> (pack p c AND 3) OR p' = pack p' c"
  "aligned p \<Longrightarrow> (pack p c AND NOT 1) OR bit_of c' = pack p c'"
  by (rule bit_word_eqI, cases c; auto simp: pack_def bit_simps bit_3 less_Suc_eq numeral_2_eq_2 dest: aligned_bits)+

lemma pack_Red: "pack p Red = p"
  by (simp add: pack_def)

lemma bit_of_0 [simp]: "bit_of c = 0 \<longleftrightarrow> c = Red" "bit_of c = 1 \<longleftrightarrow> c = Black"
  by (cases c; simp)+


section \<open>Trees in memory\<close>

datatype rtree = Tip | Nd colour rtree "32 word" rtree

primrec inord :: "rtree \<Rightarrow> 32 word list" where
  "inord Tip = []"
| "inord (Nd c l a r) = inord l @ a # inord r"

primrec ptr_of :: "rtree \<Rightarrow> 32 word" where
  "ptr_of Tip = 0"
| "ptr_of (Nd c l a r) = a"

text \<open>\<open>rep h par t\<close>: the tree \<open>t\<close> of node addresses lies in the heap, with parent pointer \<open>par\<close> at its root.\<close>

primrec rep :: "rb_heap \<Rightarrow> 32 word \<Rightarrow> rtree \<Rightarrow> bool" where
  "rep h par Tip \<longleftrightarrow> True"
| "rep h par (Nd c l a r) \<longleftrightarrow>
     a \<noteq> 0 \<and> aligned a \<and>
     h a = Some \<lparr>rb_parent_color = pack par c, rb_right = ptr_of r, rb_left = ptr_of l\<rparr> \<and> rep h a l \<and> rep h a r"

definition tree_at :: "rb_state \<Rightarrow> rtree \<Rightarrow> bool" where
  "tree_at s t \<longleftrightarrow> rb_root s = ptr_of t \<and> rep (nodes s) 0 t \<and> distinct (inord t)"

text \<open>
  The way from a subtree up to the root: at each step the parent with its other child. \<open>plug\<close> puts
  a subtree back into its surroundings.
\<close>

datatype frame = FL colour "32 word" rtree | FR colour rtree "32 word"

primrec up :: "frame \<Rightarrow> rtree \<Rightarrow> rtree" where
  "up (FL c a r) t = Nd c t a r"
| "up (FR c l a) t = Nd c l a t"

primrec plug :: "frame list \<Rightarrow> rtree \<Rightarrow> rtree" where
  "plug [] t = t"
| "plug (f # fs) t = plug fs (up f t)"

primrec faddr :: "frame \<Rightarrow> 32 word" where
  "faddr (FL c a r) = a"
| "faddr (FR c l a) = a"

primrec fcolour :: "frame \<Rightarrow> colour" where
  "fcolour (FL c a r) = c"
| "fcolour (FR c l a) = c"

definition par_of :: "frame list \<Rightarrow> 32 word" where
  "par_of fs = (case fs of [] \<Rightarrow> 0 | f # _ \<Rightarrow> faddr f)"

lemma par_of_simps [simp]: "par_of [] = 0" "par_of (f # fs) = faddr f"
  by (simp_all add: par_of_def)

text \<open>\<open>repc h q fs\<close>: the surroundings of a subtree whose root is at \<open>q\<close>.\<close>

primrec repc :: "rb_heap \<Rightarrow> 32 word \<Rightarrow> frame list \<Rightarrow> bool" where
  "repc h q [] \<longleftrightarrow> True"
| "repc h q (f # fs) \<longleftrightarrow>
     faddr f \<noteq> 0 \<and> aligned (faddr f) \<and> repc h (faddr f) fs \<and>
     (case f of
        FL c a r \<Rightarrow> h a = Some \<lparr>rb_parent_color = pack (par_of fs) c, rb_right = ptr_of r, rb_left = q\<rparr> \<and> rep h a r
      | FR c l a \<Rightarrow> h a = Some \<lparr>rb_parent_color = pack (par_of fs) c, rb_right = q, rb_left = ptr_of l\<rparr> \<and> rep h a l)"

primrec before :: "frame list \<Rightarrow> 32 word list" where
  "before [] = []"
| "before (f # fs) = before fs @ (case f of FL c a r \<Rightarrow> [] | FR c l a \<Rightarrow> inord l @ [a])"

primrec behind :: "frame list \<Rightarrow> 32 word list" where
  "behind [] = []"
| "behind (f # fs) = (case f of FL c a r \<Rightarrow> a # inord r | FR c l a \<Rightarrow> []) @ behind fs"

definition around :: "frame list \<Rightarrow> 32 word set" where
  "around fs = set (before fs) \<union> set (behind fs)"

lemma around_simps [simp]:
  "around [] = {}" "around (FL c a r # fs) = insert a (set (inord r)) \<union> around fs"
  "around (FR c l a # fs) = insert a (set (inord l)) \<union> around fs"
  by (auto simp: around_def)

lemma inord_plug: "inord (plug fs t) = before fs @ inord t @ behind fs"
  by (induction fs arbitrary: t) (auto split: frame.split)

lemma rep_plug: "rep h 0 (plug fs t) \<longleftrightarrow> repc h (ptr_of t) fs \<and> rep h (par_of fs) t"
proof (induction fs arbitrary: t)
  case (Cons f fs)
  then show ?case by (cases f) auto
qed simp

lemma ptr_of_plug: "ptr_of (plug fs t) = (if fs = [] then ptr_of t else faddr (last fs))"
proof (induction fs arbitrary: t)
  case (Cons f fs)
  then show ?case by (cases f; cases fs) auto
qed simp

lemma plug_append: "plug (fs @ gs) t = plug gs (plug fs t)"
  by (induction fs arbitrary: t) auto

text \<open>Updates elsewhere leave a tree and surroundings alone.\<close>

lemma rep_cong: "(\<And>a. a \<in> set (inord t) \<Longrightarrow> h' a = h a) \<Longrightarrow> rep h' par t = rep h par t"
  by (induction t arbitrary: par) auto

lemma repc_cong: "(\<And>a. a \<in> around fs \<Longrightarrow> h' a = h a) \<Longrightarrow> repc h' q fs = repc h q fs"
proof (induction fs arbitrary: q)
  case (Cons f fs)
  show ?case
  proof (cases f)
    case (FL c a r)
    then have "rep h' a r = rep h a r" using Cons.prems by (intro rep_cong) auto
    then show ?thesis using FL Cons by simp
  next
    case (FR c l a)
    then have "rep h' a l = rep h a l" using Cons.prems by (intro rep_cong) auto
    then show ?thesis using FR Cons by simp
  qed
qed simp

lemma rep_upd [simp]: "a \<notin> set (inord t) \<Longrightarrow> rep (h(a \<mapsto> n)) par t = rep h par t"
  by (rule rep_cong) auto

lemma repc_upd [simp]: "a \<notin> around fs \<Longrightarrow> repc (h(a \<mapsto> n)) q fs = repc h q fs"
  by (rule repc_cong) auto

lemma rep_nonzero: "rep h par t \<Longrightarrow> 0 \<notin> set (inord t)"
  by (induction t arbitrary: par) auto

lemma repc_nonzero: "repc h q fs \<Longrightarrow> 0 \<notin> around fs"
proof (induction fs arbitrary: q)
  case (Cons f fs)
  then show ?case by (cases f) (auto dest: rep_nonzero)
qed simp

lemma ptr_of_in: "ptr_of t \<noteq> 0 \<Longrightarrow> ptr_of t \<in> set (inord t)"
  by (cases t) auto

lemma ptr_of_0: "rep h par t \<Longrightarrow> ptr_of t = 0 \<longleftrightarrow> t = Tip"
  by (cases t) auto

lemma repc_par_aligned: "repc h q fs \<Longrightarrow> aligned (par_of fs)"
  by (cases fs) auto

section \<open>Rotations\<close>

text \<open>The struct of a node with its fields.\<close>

abbreviation mk :: "32 word \<Rightarrow> colour \<Rightarrow> 32 word \<Rightarrow> 32 word \<Rightarrow> rb_node" where
  "mk p c l r \<equiv> \<lparr>rb_parent_color = pack p c, rb_right = r, rb_left = l\<rparr>"

lemma mk_simps [rb_simps]:
  "aligned p \<Longrightarrow> rb_parent (mk p c l r) = p"
  "aligned p \<Longrightarrow> rb_color (mk p c l r) = bit_of c"
  "aligned p \<Longrightarrow> rb_is_red (mk p c l r) \<longleftrightarrow> c = Red"
  "aligned p \<Longrightarrow> rb_is_black (mk p c l r) \<longleftrightarrow> c = Black"
  by (simp_all only: rb_parent_def rb_color_def rb_is_red_def rb_is_black_def pack_parent pack_color rb_node.simps bit_of_0)
    (cases c; simp)

lemma set_color_mk [rb_simps]:
  assumes "nodes s a = Some (mk p c l r)" "aligned p"
  shows "rb_set_color a (bit_of c') s = Some (s\<lparr>nodes := (nodes s)(a \<mapsto> mk p c' l r)\<rparr>)"
  using assms pack_set(4) [OF assms(2), of c c'] by (simp add: rb_set_color_def upd_node_def)

lemma set_simps [rb_simps]:
  "nodes s a = Some (mk p c l r) \<Longrightarrow> aligned p \<Longrightarrow> rb_set_parent a p' s = Some (s\<lparr>nodes := (nodes s)(a \<mapsto> mk p' c l r)\<rparr>)"
  "nodes s a = Some (mk p c l r) \<Longrightarrow> aligned p \<Longrightarrow> rb_set_red a s = Some (s\<lparr>nodes := (nodes s)(a \<mapsto> mk p Red l r)\<rparr>)"
  "nodes s a = Some (mk p c l r) \<Longrightarrow> aligned p \<Longrightarrow> rb_set_black a s = Some (s\<lparr>nodes := (nodes s)(a \<mapsto> mk p Black l r)\<rparr>)"
  "nodes s a = Some (mk p c l r) \<Longrightarrow> set_left a q s = Some (s\<lparr>nodes := (nodes s)(a \<mapsto> mk p c q r)\<rparr>)"
  "nodes s a = Some (mk p c l r) \<Longrightarrow> set_right a q s = Some (s\<lparr>nodes := (nodes s)(a \<mapsto> mk p c l q)\<rparr>)"
  by (simp_all only: rb_set_parent_def rb_set_red_def rb_set_black_def set_left_def set_right_def
      upd_node_def pack_set rb_node.simps Option.bind.bind_lunit)

text \<open>The two updates a tree needs from outside: its parent pointer, and the pointer to it.\<close>

definition setpar :: "32 word \<Rightarrow> rtree \<Rightarrow> rb_heap \<Rightarrow> rb_heap" where
  "setpar p t h = (case t of Tip \<Rightarrow> h | Nd c l a r \<Rightarrow> h(a \<mapsto> mk p c (ptr_of l) (ptr_of r)))"

definition hang :: "32 word \<Rightarrow> frame list \<Rightarrow> rb_heap \<Rightarrow> rb_heap" where
  "hang q fs h =
     (case fs of [] \<Rightarrow> h
      | f # gs \<Rightarrow> h(faddr f \<mapsto> (case f of FL c a r \<Rightarrow> mk (par_of gs) c q (ptr_of r) | FR c l a \<Rightarrow> mk (par_of gs) c (ptr_of l) q)))"

definition hangs :: "32 word \<Rightarrow> frame list \<Rightarrow> rb_state \<Rightarrow> rb_state" where
  "hangs q fs s = (if fs = [] then s\<lparr>rb_root := q\<rparr> else s\<lparr>nodes := hang q fs (nodes s)\<rparr>)"

lemma nodes_hangs [simp]: "nodes (hangs q fs s) = hang q fs (nodes s)"
  by (simp add: hangs_def hang_def)

lemma root_hangs [simp]: "rb_root (hangs q fs s) = (if fs = [] then q else rb_root s)"
  by (simp add: hangs_def)

lemma setpar_other [simp]: "z \<notin> set (inord t) \<Longrightarrow> setpar p t h z = h z"
  by (cases t) (auto simp: setpar_def)

lemma setpar_off: "set (inord t) \<inter> A = {} \<Longrightarrow> z \<in> A \<Longrightarrow> setpar p t h z = h z"
  by (rule setpar_other) auto

lemma faddr_around: "faddr f \<in> around (f # fs)"
  by (cases f) auto

lemma hang_other [simp]: "z \<notin> around fs \<Longrightarrow> hang q fs h z = h z"
  by (cases fs) (use faddr_around in \<open>auto simp: hang_def simp del: around_simps\<close>)

lemma rep_setpar: "rep h p t \<Longrightarrow> distinct (inord t) \<Longrightarrow> rep (setpar p' t h) p' t"
  by (cases t) (auto simp: setpar_def)

definition dist_ctx :: "frame list \<Rightarrow> bool" where "dist_ctx fs \<longleftrightarrow> distinct (before fs @ behind fs)"

lemma dist_ctx_Cons [simp]:
  "dist_ctx (FL c a r # fs) \<longleftrightarrow> dist_ctx fs \<and> a \<notin> set (inord r) \<and> a \<notin> around fs \<and> distinct (inord r) \<and> set (inord r) \<inter> around fs = {}"
  "dist_ctx (FR c l a # fs) \<longleftrightarrow> dist_ctx fs \<and> a \<notin> set (inord l) \<and> a \<notin> around fs \<and> distinct (inord l) \<and> set (inord l) \<inter> around fs = {}"
  by (auto simp: dist_ctx_def around_def)

lemma dist_ctx_Nil [simp]: "dist_ctx []"
  by (simp add: dist_ctx_def)

lemma distinct_plug: "distinct (inord (plug fs t)) \<longleftrightarrow> dist_ctx fs \<and> distinct (inord t) \<and> set (inord t) \<inter> around fs = {}"
  by (auto simp: inord_plug dist_ctx_def around_def)

lemma repc_hang: "repc h q fs \<Longrightarrow> dist_ctx fs \<Longrightarrow> repc (hang q' fs h) q' fs"
  by (cases fs) (auto simp: hang_def split: frame.splits)

lemma root_plug: "fs \<noteq> [] \<Longrightarrow> ptr_of (plug fs t) = ptr_of (plug fs t')"
  by (simp add: ptr_of_plug)

text \<open>A state with a tree in it: the surroundings and the subtree.\<close>

lemma tree_at_plug:
  "tree_at s (plug fs t) \<longleftrightarrow>
     (if fs = [] then rb_root s = ptr_of t else rb_root s = faddr (last fs)) \<and>
     repc (nodes s) (ptr_of t) fs \<and> rep (nodes s) (par_of fs) t \<and>
     dist_ctx fs \<and> distinct (inord t) \<and> set (inord t) \<inter> around fs = {}"
  by (auto simp: tree_at_def ptr_of_plug rep_plug distinct_plug)

lemma set_parent_setpar:
  "rep (nodes s) p t \<Longrightarrow> aligned p \<Longrightarrow>
   (if ptr_of t \<noteq> 0 then rb_set_parent (ptr_of t) p' s else Some s) = Some (s\<lparr>nodes := setpar p' t (nodes s)\<rparr>)"
  by (cases t) (auto simp: setpar_def rb_simps)

lemma ctx_other:
  assumes "repc h q (f # fs)" "q \<noteq> 0" "q \<notin> around (f # fs)"
  shows "h (faddr f) = Some (case f of FL c a r \<Rightarrow> mk (par_of fs) c q (ptr_of r) | FR c l a \<Rightarrow> mk (par_of fs) c (ptr_of l) q)"
    "case f of FL c a r \<Rightarrow> q \<noteq> ptr_of r | FR c l a \<Rightarrow> q \<noteq> ptr_of l"
  using assms by (auto split: frame.splits dest: ptr_of_in)

lemma relink_left:
  assumes "repc (nodes s) q fs" "q \<noteq> 0" "q \<notin> around fs"
  shows "(if par_of fs \<noteq> 0
     then do { p \<leftarrow> nodes s (par_of fs); (if q = rb_left p then set_left (par_of fs) q' s else set_right (par_of fs) q' s) }
     else Some (s\<lparr>rb_root := q'\<rparr>)) = Some (hangs q' fs s)"
proof (cases fs)
  case (Cons f gs)
  then show ?thesis using assms ctx_other [of "nodes s" q f gs]
    by (cases f) (auto simp: hangs_def hang_def rb_simps)
qed (simp add: hangs_def)

lemma relink_right:
  assumes "repc (nodes s) q fs" "q \<noteq> 0" "q \<notin> around fs"
  shows "(if par_of fs \<noteq> 0
     then do { p \<leftarrow> nodes s (par_of fs); (if q = rb_right p then set_right (par_of fs) q' s else set_left (par_of fs) q' s) }
     else Some (s\<lparr>rb_root := q'\<rparr>)) = Some (hangs q' fs s)"
proof (cases fs)
  case (Cons f gs)
  then show ?thesis using assms ctx_other [of "nodes s" q f gs]
    by (cases f) (auto simp: hangs_def hang_def rb_simps)
qed (simp add: hangs_def)

lemma rotate_left:
  assumes "tree_at s (plug fs (Nd c a x (Nd c2 b y d)))"
  shows "\<exists>s'. rb_rotate_left x s = Some s' \<and> tree_at s' (plug fs (Nd c2 (Nd c a x b) y d))"
proof -
  let ?h = "nodes s" and ?p = "par_of fs"
  have at: "repc ?h x fs" "?h x = Some (mk ?p c (ptr_of a) y)" "?h y = Some (mk x c2 (ptr_of b) (ptr_of d))"
    "rep ?h x a" "rep ?h y b" "rep ?h y d" "x \<noteq> 0" "y \<noteq> 0" "aligned x" "aligned y" "aligned ?p"
    "if fs = [] then rb_root s = x else rb_root s = faddr (last fs)"
    and di: "dist_ctx fs" "distinct (inord a)" "distinct (inord b)" "distinct (inord d)" "x \<noteq> y"
    "x \<notin> set (inord a)" "x \<notin> set (inord b)" "x \<notin> set (inord d)" "y \<notin> set (inord a)" "y \<notin> set (inord b)" "y \<notin> set (inord d)"
    "x \<notin> around fs" "y \<notin> around fs" "set (inord a) \<inter> set (inord b) = {}" "set (inord a) \<inter> set (inord d) = {}"
    "set (inord d) \<inter> set (inord b) = {}" "set (inord a) \<inter> around fs = {}" "set (inord b) \<inter> around fs = {}"
    "set (inord d) \<inter> around fs = {}"
    using assms by (auto simp: tree_at_plug dest: repc_par_aligned)
  define h1 where "h1 = ?h(x \<mapsto> mk ?p c (ptr_of a) (ptr_of b))"
  define h2 where "h2 = setpar x b h1"
  define h4 where "h4 = h2(y \<mapsto> mk ?p c2 x (ptr_of d))"
  define s4 where "s4 = s\<lparr>nodes := h4\<rparr>"
  define s5 where "s5 = hangs y fs s4"
  define s6 where "s6 = s5\<lparr>nodes := (nodes s5)(x \<mapsto> mk y c (ptr_of a) (ptr_of b))\<rparr>"
  have h2: "h2 y = Some (mk x c2 (ptr_of b) (ptr_of d))" "h2 x = Some (mk ?p c (ptr_of a) (ptr_of b))"
    using at di by (auto simp: h2_def h1_def)
  have "rep h1 y b" using at di by (simp add: h1_def)
  then have s2: "(if ptr_of b \<noteq> 0 then rb_set_parent (ptr_of b) x (s\<lparr>nodes := h1\<rparr>) else Some (s\<lparr>nodes := h1\<rparr>)) = Some (s\<lparr>nodes := h2\<rparr>)"
    using set_parent_setpar [of "s\<lparr>nodes := h1\<rparr>" y b x] at by (simp add: h2_def)
  have "repc h4 x fs" using at(1) di
    by (subst repc_cong [of fs _ ?h]) (auto simp: h4_def h2_def h1_def setpar_off)
  then have s5: "(if ?p \<noteq> 0
     then do { p \<leftarrow> nodes s4 ?p; (if x = rb_left p then set_left ?p y s4 else set_right ?p y s4) }
     else Some (s4\<lparr>rb_root := y\<rparr>)) = Some s5"
    unfolding s5_def using at di by (intro relink_left) (auto simp: s4_def)
  have n5: "nodes s5 x = Some (mk ?p c (ptr_of a) (ptr_of b))"
    using at di h2 by (auto simp: s5_def s4_def h4_def)
  have s1: "set_right x (ptr_of b) s = Some (s\<lparr>nodes := h1\<rparr>)" using at by (simp add: rb_simps h1_def)
  have s3: "set_left y x (s\<lparr>nodes := h2\<rparr>) = Some (s\<lparr>nodes := h2(y \<mapsto> mk x c2 x (ptr_of d))\<rparr>)"
    using h2 by (simp add: rb_simps)
  have s4: "rb_set_parent y ?p (s\<lparr>nodes := h2(y \<mapsto> mk x c2 x (ptr_of d))\<rparr>) = Some s4"
    using at by (simp add: rb_simps s4_def h4_def)
  have "rb_set_parent x y s5 = Some s6" using n5 at by (simp add: rb_simps s6_def)
  then have run: "rb_rotate_left x s = Some s6"
    unfolding rb_rotate_left_def Let_def
    by (simp only: at mk_simps rb_node.simps Option.bind.bind_lunit s1 s2 s3 s4 s5)
  have "repc (nodes s6) y fs"
    using \<open>repc h4 x fs\<close> di by (simp add: s6_def s5_def s4_def repc_hang)
  moreover have "rep (nodes s6) x a" using at di
    by (subst rep_cong [of a _ ?h]) (auto simp: s6_def s5_def s4_def h4_def h2_def h1_def disjoint_iff)
  moreover have "rep (nodes s6) y d" using at di
    by (subst rep_cong [of d _ ?h]) (auto simp: s6_def s5_def s4_def h4_def h2_def h1_def disjoint_iff)
  moreover have "rep (nodes s6) x b" using rep_setpar [OF \<open>rep h1 y b\<close> di(3), of x] di
    by (subst rep_cong [of b _ h2]) (auto simp: s6_def s5_def s4_def h4_def h2_def disjoint_iff)
  moreover have "nodes s6 y = Some (mk ?p c2 x (ptr_of d))" "nodes s6 x = Some (mk y c (ptr_of a) (ptr_of b))"
    using di by (auto simp: s6_def s5_def s4_def h4_def)
  moreover have "if fs = [] then rb_root s6 = y else rb_root s6 = faddr (last fs)"
    using at by (auto simp: s6_def s5_def s4_def)
  ultimately show ?thesis using run at di by (auto simp: tree_at_plug)
qed

text \<open>Left and right exchanged.\<close>

definition mir_node :: "rb_node \<Rightarrow> rb_node" where
  "mir_node n = n\<lparr>rb_right := rb_left n, rb_left := rb_right n\<rparr>"

definition mirror :: "rb_state \<Rightarrow> rb_state" where
  "mirror s = s\<lparr>nodes := map_option mir_node \<circ> nodes s\<rparr>"

primrec mirt :: "rtree \<Rightarrow> rtree" where
  "mirt Tip = Tip"
| "mirt (Nd c l a r) = Nd c (mirt r) a (mirt l)"

primrec mirf :: "frame \<Rightarrow> frame" where
  "mirf (FL c a r) = FR c (mirt r) a"
| "mirf (FR c l a) = FL c a (mirt l)"

lemma mirt_mirt [simp]: "mirt (mirt t) = t"
  by (induction t) auto

lemma mirf_mirf [simp]: "mirf (mirf f) = f" "map (mirf \<circ> mirf) fs = fs" "map (\<lambda>f. mirf (mirf f)) fs = fs"
proof -
  show 1: "mirf (mirf f) = f" for f by (cases f) auto
  show "map (mirf \<circ> mirf) fs = fs" "map (\<lambda>f. mirf (mirf f)) fs = fs" by (simp_all add: 1 comp_def)
qed

lemma mirt_plug: "mirt (plug fs t) = plug (map mirf fs) (mirt t)"
proof (induction fs arbitrary: t)
  case (Cons f fs)
  then show ?case by (cases f) auto
qed simp

lemma mir_node_simps [simp]:
  "mir_node (mir_node n) = n" "rb_left (mir_node n) = rb_right n" "rb_right (mir_node n) = rb_left n"
  "rb_parent_color (mir_node n) = rb_parent_color n" "rb_parent (mir_node n) = rb_parent n"
  by (simp_all add: mir_node_def rb_parent_def)

lemma mirror_simps [simp]:
  "nodes (mirror s) a = map_option mir_node (nodes s a)" "rb_root (mirror s) = rb_root s"
  by (simp_all add: mirror_def)

lemma mirror_mirror [simp]: "mirror (mirror s) = s"
  by (simp add: mirror_def comp_def option.map_comp option.map_ident)

lemma mirror_upd:
  "mirror (s\<lparr>rb_root := q\<rparr>) = (mirror s)\<lparr>rb_root := q\<rparr>"
  "mirror (s\<lparr>nodes := (nodes s)(a \<mapsto> n)\<rparr>) = (mirror s)\<lparr>nodes := (nodes (mirror s))(a \<mapsto> mir_node n)\<rparr>"
  by (auto simp: mirror_def)

lemma mir_node_upd:
  "mir_node (n\<lparr>rb_left := q\<rparr>) = (mir_node n)\<lparr>rb_right := q\<rparr>"
  "mir_node (n\<lparr>rb_right := q\<rparr>) = (mir_node n)\<lparr>rb_left := q\<rparr>"
  "mir_node (n\<lparr>rb_parent_color := w\<rparr>) = (mir_node n)\<lparr>rb_parent_color := w\<rparr>"
  by (cases n; simp add: mir_node_def)+

lemma mirror_set:
  "set_left a q (mirror s) = map_option mirror (set_right a q s)"
  "set_right a q (mirror s) = map_option mirror (set_left a q s)"
  "rb_set_parent a q (mirror s) = map_option mirror (rb_set_parent a q s)"
  unfolding set_left_def set_right_def rb_set_parent_def upd_node_def
  by (cases "nodes s a"; simp add: mirror_upd mir_node_upd)+

lemma bind_mirror:
  "(\<And>z. f (mirror z) = map_option mirror (g z)) \<Longrightarrow> Option.bind (map_option mirror m) f = map_option mirror (Option.bind m g)"
  by (cases m) auto

lemma bind_node:
  "(\<And>n. f (mir_node n) = map_option mirror (g n)) \<Longrightarrow> Option.bind (map_option mir_node m) f = map_option mirror (Option.bind m g)"
  by (cases m) auto

lemma if_mirror:
  "x = map_option mirror x' \<Longrightarrow> y = map_option mirror y' \<Longrightarrow> (if b then x else y) = map_option mirror (if b then x' else y')"
  by simp

lemma bind_if_mirror:
  "x = map_option mirror x' \<Longrightarrow> (\<And>z. f (mirror z) = map_option mirror (g z)) \<Longrightarrow> Option.bind x f = map_option mirror (Option.bind x' g)"
  by (cases x') auto

lemma ptr_of_mirt [simp]: "ptr_of (mirt t) = ptr_of t"
  by (cases t) auto

lemma inord_mirt [simp]: "inord (mirt t) = rev (inord t)"
  by (induction t) auto

lemma rep_mirt: "rep h p t \<Longrightarrow> rep (map_option mir_node \<circ> h) p (mirt t)"
  by (induction t arbitrary: p) (auto simp: mir_node_def)

lemma tree_at_mirror: "tree_at s t \<Longrightarrow> tree_at (mirror s) (mirt t)"
  by (auto simp: tree_at_def mirror_def rep_mirt)

lemma rotate_mirror: "rb_rotate_right x (mirror s) = map_option mirror (rb_rotate_left x s)"
  unfolding rb_rotate_right_def rb_rotate_left_def Let_def mirror_simps
  by (rule bind_node bind_if_mirror if_mirror mirror_set
      | simp only: mir_node_simps mirror_simps mirror_upd option.map)+

lemma rotate_right:
  assumes "tree_at s (plug fs (Nd c (Nd c2 a y b) x d))"
  shows "\<exists>s'. rb_rotate_right x s = Some s' \<and> tree_at s' (plug fs (Nd c2 a y (Nd c b x d)))"
proof -
  have "tree_at (mirror s) (plug (map mirf fs) (Nd c (mirt d) x (Nd c2 (mirt b) y (mirt a))))"
    using tree_at_mirror [OF assms] by (simp add: mirt_plug)
  then obtain s' where "rb_rotate_left x (mirror s) = Some s'"
      "tree_at s' (plug (map mirf fs) (Nd c2 (Nd c (mirt d) x (mirt b)) y (mirt a)))"
    using rotate_left by blast
  then show ?thesis
    using rotate_mirror [of x "mirror s"] tree_at_mirror [of s'] by (fastforce simp: mirt_plug)
qed

section \<open>Reads and recolouring\<close>

primrec col :: "rtree \<Rightarrow> colour" where
  "col Tip = Black"
| "col (Nd c l a r) = c"

lemma tree_read:
  assumes "tree_at s (plug fs (Nd c l a r))"
  shows "nodes s a = Some (mk (par_of fs) c (ptr_of l) (ptr_of r))" "aligned (par_of fs)" "a \<noteq> 0" "aligned a"
  using assms by (auto simp: tree_at_plug dest: repc_par_aligned)

lemma tree_read_par:
  assumes "tree_at s (plug (f # fs) t)"
  shows "nodes s (faddr f) = Some (case f of FL c a r \<Rightarrow> mk (par_of fs) c (ptr_of t) (ptr_of r) | FR c l a \<Rightarrow> mk (par_of fs) c (ptr_of l) (ptr_of t))"
    "faddr f \<noteq> 0" "aligned (faddr f)" "aligned (par_of fs)"
  using assms by (cases f; auto simp: tree_at_plug dest: repc_par_aligned)+

lemma tree_recolour:
  assumes "tree_at s (plug fs (Nd c l a r))"
  shows "tree_at (s\<lparr>nodes := (nodes s)(a \<mapsto> mk (par_of fs) c' (ptr_of l) (ptr_of r))\<rparr>) (plug fs (Nd c' l a r))"
  using assms by (auto simp: tree_at_plug)

lemma set_black_at:
  assumes "tree_at s (plug fs (Nd c l a r))"
  shows "\<exists>s'. rb_set_black a s = Some s' \<and> tree_at s' (plug fs (Nd Black l a r))"
  using tree_recolour [OF assms] tree_read [OF assms] by (auto simp: rb_simps)

lemma set_red_at:
  assumes "tree_at s (plug fs (Nd c l a r))"
  shows "\<exists>s'. rb_set_red a s = Some s' \<and> tree_at s' (plug fs (Nd Red l a r))"
  using tree_recolour [OF assms] tree_read [OF assms] by (auto simp: rb_simps)

lemma set_color_at:
  assumes "tree_at s (plug fs (Nd c l a r))"
  shows "\<exists>s'. rb_set_color a (bit_of c') s = Some s' \<and> tree_at s' (plug fs (Nd c' l a r))"
  using tree_recolour [OF assms] tree_read [OF assms] by (auto simp: rb_simps)

lemma red_at_ptr: "tree_at s (plug fs t) \<Longrightarrow> red_at s (ptr_of t) = Some (col t = Red)"
  by (cases t) (use tree_read in \<open>auto simp: red_at_def rb_simps\<close>)

lemma black_at_ptr: "tree_at s (plug fs t) \<Longrightarrow> black_at s (ptr_of t) = Some (col t = Black)"
  by (cases t) (use tree_read in \<open>auto simp: black_at_def rb_simps\<close>)


section \<open>The red-black invariant\<close>

primrec bh :: "rtree \<Rightarrow> nat" where
  "bh Tip = 0"
| "bh (Nd c l a r) = (if c = Black then Suc (bh l) else bh l)"

primrec invc :: "rtree \<Rightarrow> bool" where
  "invc Tip \<longleftrightarrow> True"
| "invc (Nd c l a r) \<longleftrightarrow> (c = Red \<longrightarrow> col l = Black \<and> col r = Black) \<and> invc l \<and> invc r"

primrec invh :: "rtree \<Rightarrow> bool" where
  "invh Tip \<longleftrightarrow> True"
| "invh (Nd c l a r) \<longleftrightarrow> bh l = bh r \<and> invh l \<and> invh r"

definition rbt :: "rtree \<Rightarrow> bool" where
  "rbt t \<longleftrightarrow> invc t \<and> invh t \<and> col t = Black"

primrec fsib :: "frame \<Rightarrow> rtree" where
  "fsib (FL c a r) = r"
| "fsib (FR c l a) = l"

definition pcol :: "frame list \<Rightarrow> colour" where
  "pcol fs = (case fs of [] \<Rightarrow> Red | f # _ \<Rightarrow> fcolour f)"

text \<open>\<open>ctx_ok fs n\<close>: the surroundings fit a subtree of black height \<open>n\<close>; every red node in them has a black parent.\<close>

primrec ctx_ok :: "frame list \<Rightarrow> nat \<Rightarrow> bool" where
  "ctx_ok [] n \<longleftrightarrow> True"
| "ctx_ok (f # fs) n \<longleftrightarrow>
     invc (fsib f) \<and> invh (fsib f) \<and> bh (fsib f) = n \<and> (fcolour f = Red \<longrightarrow> col (fsib f) = Black \<and> pcol fs = Black) \<and>
     ctx_ok fs (if fcolour f = Black then Suc n else n)"

lemma pcol_simps [simp]: "pcol [] = Red" "pcol (f # fs) = fcolour f"
  by (simp_all add: pcol_def)

lemma colour_not [simp]: "c \<noteq> Red \<longleftrightarrow> c = Black" "c \<noteq> Black \<longleftrightarrow> c = Red"
  by (cases c; simp)+

lemma plug_rb:
  "ctx_ok fs (bh t) \<Longrightarrow> invc t \<Longrightarrow> invh t \<Longrightarrow> col t = Black \<or> fs = [] \<or> pcol fs = Black \<Longrightarrow> invc (plug fs t) \<and> invh (plug fs t)"
proof (induction fs arbitrary: t)
  case (Cons f fs)
  from Cons.IH [of "up f t"] Cons.prems show ?case by (cases f) (auto split: if_splits)
qed simp

lemma plug_Tip: "plug fs t = Tip \<longleftrightarrow> fs = [] \<and> t = Tip"
proof (induction fs arbitrary: t)
  case (Cons f fs)
  then show ?case by (cases f) auto
qed simp

lemma plug_col: "ctx_ok fs n \<Longrightarrow> fs \<noteq> [] \<Longrightarrow> col (plug fs t) = Black"
proof (induction fs arbitrary: n t)
  case (Cons f fs)
  then show ?case by (cases f; cases "fs = []") auto
qed simp

lemma unplug:
  "invc (plug fs t) \<Longrightarrow> invh (plug fs t) \<Longrightarrow> col (plug fs t) = Black \<Longrightarrow>
   ctx_ok fs (bh t) \<and> invc t \<and> invh t \<and> (col t = Red \<longrightarrow> pcol fs = Black)"
proof (induction fs arbitrary: t)
  case (Cons f fs)
  from Cons.IH [of "up f t"] Cons.prems show ?case by (cases f) auto
qed simp

lemma rbt_plug:
  "rbt (plug fs t) \<longleftrightarrow> ctx_ok fs (bh t) \<and> invc t \<and> invh t \<and> (col t = Red \<longrightarrow> pcol fs = Black)"
proof
  assume "ctx_ok fs (bh t) \<and> invc t \<and> invh t \<and> (col t = Red \<longrightarrow> pcol fs = Black)"
  then show "rbt (plug fs t)" using plug_rb [of fs t] plug_col [of fs "bh t" t]
    by (cases "fs = []"; cases "col t") (auto simp: rbt_def)
qed (use unplug in \<open>auto simp: rbt_def\<close>)


text \<open>The abstract value of a state: the addresses of the nodes in order.\<close>

definition rb_holds :: "rb_state \<Rightarrow> 32 word list \<Rightarrow> bool" where
  "rb_holds s xs \<longleftrightarrow> (\<exists>t. tree_at s t \<and> rbt t \<and> inord t = xs)"

lemma rb_holdsI [intro]: "tree_at s t \<Longrightarrow> rbt t \<Longrightarrow> inord t = xs \<Longrightarrow> rb_holds s xs"
  by (auto simp: rb_holds_def)

text \<open>
  A tree for the witnesses: four nodes in order 4, 8, 12, 16, and two nodes outside it. The root is
  at 8; the red node 16 hangs below 12.
\<close>

definition rb_demo :: rb_state where
  "rb_demo = \<lparr>nodes = [4 \<mapsto> mk 8 Black 0 0, 8 \<mapsto> mk 0 Black 4 12, 12 \<mapsto> mk 8 Black 0 16, 16 \<mapsto> mk 12 Red 0 0,
     20 \<mapsto> mk 0 Red 0 0, 24 \<mapsto> mk 0 Red 0 0], rb_root = 8\<rparr>"

definition rb_demo_tree :: rtree where
  "rb_demo_tree = Nd Black (Nd Black Tip 4 Tip) 8 (Nd Black Tip 12 (Nd Red Tip 16 Tip))"

lemma rb_demo: "tree_at rb_demo rb_demo_tree" "rbt rb_demo_tree" "inord rb_demo_tree = [4, 8, 12, 16]"
  by (simp_all add: tree_at_def rb_demo_def rb_demo_tree_def rbt_def aligned_def)

end
