(* ===== verification/Lib_Rbinsert.thy ===== *)
theory Lib_Rbinsert
  imports Lib_Rbshape
begin

text \<open>
  Insertion into a red-black tree: one lemma for each way through the loop of \<^verbatim>\<open>rb_insert_color\<close>,
  then the loop by induction on the way to the root.
\<close>

section \<open>Insertion\<close>

lemma loop_stop_root:
  assumes "tree_at s (Nd c l x r)"
  shows "insert_color_loop x s = Some s"
  using tree_read [of s "[]"] assms by (simp add: insert_color_loop.simps [of x s] rb_simps red_at_def)

lemma loop_stop_black:
  assumes "tree_at s (plug (f # fs) (Nd c l x r))" "fcolour f = Black"
  shows "insert_color_loop x s = Some s"
  using tree_read [OF assms(1)] tree_read_par [OF assms(1)] assms(2)
  by (cases f) (simp_all add: insert_color_loop.simps [of x s] rb_simps red_at_def)

text \<open>A red uncle: the parent and the uncle become black, the loop goes on at the grandparent.\<close>

lemma loop_recolour_left:
  assumes t: "tree_at s (plug gs (Nd cg (Nd Red pl p pr) g (Nd Red ul u ur)))"
    and x: "nodes s x = Some n" "rb_parent n = p"
  shows "\<exists>s'. insert_color_loop x s = insert_color_loop g s' \<and>
    tree_at s' (plug gs (Nd Red (Nd Black pl p pr) g (Nd Black ul u ur)))"
proof -
  have p: "tree_at s (plug (FL cg g (Nd Red ul u ur) # gs) (Nd Red pl p pr))"
    and u: "tree_at s (plug (FR cg (Nd Red pl p pr) g # gs) (Nd Red ul u ur))" using t by simp_all
  obtain s1 where s1: "rb_set_black u s = Some s1" "tree_at s1 (plug (FR cg (Nd Red pl p pr) g # gs) (Nd Black ul u ur))"
    using set_black_at [OF u] by blast
  obtain s2 where s2: "rb_set_black p s1 = Some s2" "tree_at s2 (plug (FL cg g (Nd Black ul u ur) # gs) (Nd Black pl p pr))"
    using set_black_at [of s1 "FL cg g (Nd Black ul u ur) # gs" Red pl p pr] s1(2) by auto
  obtain s3 where s3: "rb_set_red g s2 = Some s3" "tree_at s3 (plug gs (Nd Red (Nd Black pl p pr) g (Nd Black ul u ur)))"
    using set_red_at [of s2 gs cg _ g] s2(2) by auto
  have "insert_color_loop x s = insert_color_loop g s3"
    using tree_read [OF t] tree_read [OF p] red_at_ptr [OF p] red_at_ptr [OF u] x s1(1) s2(1) s3(1)
    by (simp add: insert_color_loop.simps [of x s] rb_simps)
  then show ?thesis using s3(2) by blast
qed

lemma loop_recolour_right:
  assumes t: "tree_at s (plug gs (Nd cg (Nd Red ul u ur) g (Nd Red pl p pr)))"
    and x: "nodes s x = Some n" "rb_parent n = p"
  shows "\<exists>s'. insert_color_loop x s = insert_color_loop g s' \<and>
    tree_at s' (plug gs (Nd Red (Nd Black ul u ur) g (Nd Black pl p pr)))"
proof -
  have p: "tree_at s (plug (FR cg (Nd Red ul u ur) g # gs) (Nd Red pl p pr))"
    and u: "tree_at s (plug (FL cg g (Nd Red pl p pr) # gs) (Nd Red ul u ur))" using t by simp_all
  have ne: "p \<noteq> u" using t by (auto simp: tree_at_plug)
  obtain s1 where s1: "rb_set_black u s = Some s1" "tree_at s1 (plug (FL cg g (Nd Red pl p pr) # gs) (Nd Black ul u ur))"
    using set_black_at [OF u] by blast
  obtain s2 where s2: "rb_set_black p s1 = Some s2" "tree_at s2 (plug (FR cg (Nd Black ul u ur) g # gs) (Nd Black pl p pr))"
    using set_black_at [of s1 "FR cg (Nd Black ul u ur) g # gs" Red pl p pr] s1(2) by auto
  obtain s3 where s3: "rb_set_red g s2 = Some s3" "tree_at s3 (plug gs (Nd Red (Nd Black ul u ur) g (Nd Black pl p pr)))"
    using set_red_at [of s2 gs cg _ g] s2(2) by auto
  have "insert_color_loop x s = insert_color_loop g s3"
    using tree_read [OF t] tree_read [OF p] red_at_ptr [OF p] red_at_ptr [OF u] x s1(1) s2(1) s3(1) ne
    by (simp add: insert_color_loop.simps [of x s] rb_simps)
  then show ?thesis using s3(2) by blast
qed

text \<open>A black uncle: one or two rotations, after which the parent is black and the loop ends.\<close>

lemma loop_outer_left:
  assumes t: "tree_at s (plug gs (Nd cg (Nd Red (Nd cx xl x xr) p pr) g u))" and u: "col u = Black"
  shows "\<exists>s'. insert_color_loop x s = Some s' \<and> tree_at s' (plug gs (Nd Black (Nd cx xl x xr) p (Nd Red pr g u)))"
proof -
  let ?X = "Nd cx xl x xr"
  have p: "tree_at s (plug (FL cg g u # gs) (Nd Red ?X p pr))"
    and x: "tree_at s (plug (FL Red p pr # FL cg g u # gs) ?X)"
    and u': "tree_at s (plug (FR cg (Nd Red ?X p pr) g # gs) u)" using t by simp_all
  have ne: "x \<noteq> ptr_of pr" using t ptr_of_in [of pr] by (auto simp: tree_at_plug)
  obtain s2 where s2: "rb_set_black p s = Some s2" "tree_at s2 (plug gs (Nd cg (Nd Black ?X p pr) g u))"
    using set_black_at [OF p] by auto
  obtain s3 where s3: "rb_set_red g s2 = Some s3" "tree_at s3 (plug gs (Nd Red (Nd Black ?X p pr) g u))"
    using set_red_at [OF s2(2)] by blast
  obtain s4 where s4: "rb_rotate_right g s3 = Some s4" "tree_at s4 (plug gs (Nd Black ?X p (Nd Red pr g u)))"
    using rotate_right [OF s3(2)] by blast
  have "insert_color_loop x s4 = Some s4"
    using loop_stop_black [of s4 "FL Black p (Nd Red pr g u)" gs] s4(2) by simp
  then have "insert_color_loop x s = Some s4"
    using tree_read [OF t] tree_read [OF p] tree_read [OF x] red_at_ptr [OF p] red_at_ptr [OF u'] u s2(1) s3(1) s4(1) ne
    by (simp add: insert_color_loop.simps [of x s] rb_simps)
  then show ?thesis using s4(2) by blast
qed

lemma loop_inner_left:
  assumes t: "tree_at s (plug gs (Nd cg (Nd Red pl p (Nd cx xl x xr)) g u))" and u: "col u = Black"
  shows "\<exists>s'. insert_color_loop x s = Some s' \<and> tree_at s' (plug gs (Nd Black (Nd Red pl p xl) x (Nd Red xr g u)))"
proof -
  let ?X = "Nd cx xl x xr"
  have p: "tree_at s (plug (FL cg g u # gs) (Nd Red pl p ?X))"
    and x: "tree_at s (plug (FR Red pl p # FL cg g u # gs) ?X)"
    and u': "tree_at s (plug (FR cg (Nd Red pl p ?X) g # gs) u)" using t by simp_all
  obtain s1 where s1: "rb_rotate_left p s = Some s1" "tree_at s1 (plug (FL cg g u # gs) (Nd cx (Nd Red pl p xl) x xr))"
    using rotate_left [OF p] by blast
  obtain s2 where s2: "rb_set_black x s1 = Some s2" "tree_at s2 (plug gs (Nd cg (Nd Black (Nd Red pl p xl) x xr) g u))"
    using set_black_at [OF s1(2)] by auto
  obtain s3 where s3: "rb_set_red g s2 = Some s3" "tree_at s3 (plug gs (Nd Red (Nd Black (Nd Red pl p xl) x xr) g u))"
    using set_red_at [OF s2(2)] by blast
  obtain s4 where s4: "rb_rotate_right g s3 = Some s4" "tree_at s4 (plug gs (Nd Black (Nd Red pl p xl) x (Nd Red xr g u)))"
    using rotate_right [OF s3(2)] by blast
  have "insert_color_loop p s4 = Some s4"
    using loop_stop_black [of s4 "FL Black x (Nd Red xr g u)" gs] s4(2) by simp
  then have "insert_color_loop x s = Some s4"
    using tree_read [OF t] tree_read [OF p] tree_read [OF x] red_at_ptr [OF p] red_at_ptr [OF u'] u s1(1) s2(1) s3(1) s4(1)
    by (simp add: insert_color_loop.simps [of x s] rb_simps)
  then show ?thesis using s4(2) by blast
qed

lemma loop_outer_right:
  assumes t: "tree_at s (plug gs (Nd cg u g (Nd Red pl p (Nd cx xl x xr))))" and u: "col u = Black"
  shows "\<exists>s'. insert_color_loop x s = Some s' \<and> tree_at s' (plug gs (Nd Black (Nd Red u g pl) p (Nd cx xl x xr)))"
proof -
  let ?X = "Nd cx xl x xr"
  have p: "tree_at s (plug (FR cg u g # gs) (Nd Red pl p ?X))"
    and x: "tree_at s (plug (FR Red pl p # FR cg u g # gs) ?X)"
    and u': "tree_at s (plug (FL cg g (Nd Red pl p ?X) # gs) u)" using t by simp_all
  have ne: "x \<noteq> ptr_of pl" "p \<noteq> ptr_of u" using t ptr_of_in [of pl] ptr_of_in [of u] by (auto simp: tree_at_plug)
  obtain s2 where s2: "rb_set_black p s = Some s2" "tree_at s2 (plug gs (Nd cg u g (Nd Black pl p ?X)))"
    using set_black_at [OF p] by auto
  obtain s3 where s3: "rb_set_red g s2 = Some s3" "tree_at s3 (plug gs (Nd Red u g (Nd Black pl p ?X)))"
    using set_red_at [OF s2(2)] by blast
  obtain s4 where s4: "rb_rotate_left g s3 = Some s4" "tree_at s4 (plug gs (Nd Black (Nd Red u g pl) p ?X))"
    using rotate_left [OF s3(2)] by blast
  have "insert_color_loop x s4 = Some s4"
    using loop_stop_black [of s4 "FR Black (Nd Red u g pl) p" gs] s4(2) by simp
  then have "insert_color_loop x s = Some s4"
    using tree_read [OF t] tree_read [OF p] tree_read [OF x] red_at_ptr [OF p] red_at_ptr [OF u'] u s2(1) s3(1) s4(1) ne
    by (simp add: insert_color_loop.simps [of x s] rb_simps)
  then show ?thesis using s4(2) by blast
qed

lemma loop_inner_right:
  assumes t: "tree_at s (plug gs (Nd cg u g (Nd Red (Nd cx xl x xr) p pr)))" and u: "col u = Black"
  shows "\<exists>s'. insert_color_loop x s = Some s' \<and> tree_at s' (plug gs (Nd Black (Nd Red u g xl) x (Nd Red xr p pr)))"
proof -
  let ?X = "Nd cx xl x xr"
  have p: "tree_at s (plug (FR cg u g # gs) (Nd Red ?X p pr))"
    and x: "tree_at s (plug (FL Red p pr # FR cg u g # gs) ?X)"
    and u': "tree_at s (plug (FL cg g (Nd Red ?X p pr) # gs) u)" using t by simp_all
  have ne: "p \<noteq> ptr_of u" using t ptr_of_in [of u] by (auto simp: tree_at_plug)
  obtain s1 where s1: "rb_rotate_right p s = Some s1" "tree_at s1 (plug (FR cg u g # gs) (Nd cx xl x (Nd Red xr p pr)))"
    using rotate_right [OF p] by blast
  obtain s2 where s2: "rb_set_black x s1 = Some s2" "tree_at s2 (plug gs (Nd cg u g (Nd Black xl x (Nd Red xr p pr))))"
    using set_black_at [OF s1(2)] by auto
  obtain s3 where s3: "rb_set_red g s2 = Some s3" "tree_at s3 (plug gs (Nd Red u g (Nd Black xl x (Nd Red xr p pr))))"
    using set_red_at [OF s2(2)] by blast
  obtain s4 where s4: "rb_rotate_left g s3 = Some s4" "tree_at s4 (plug gs (Nd Black (Nd Red u g xl) x (Nd Red xr p pr)))"
    using rotate_left [OF s3(2)] by blast
  have "insert_color_loop p s4 = Some s4"
    using loop_stop_black [of s4 "FR Black (Nd Red u g xl) x" gs] s4(2) by simp
  then have "insert_color_loop x s = Some s4"
    using tree_read [OF t] tree_read [OF p] tree_read [OF x] red_at_ptr [OF p] red_at_ptr [OF u'] u s1(1) s2(1) s3(1) s4(1) ne
    by (simp add: insert_color_loop.simps [of x s] rb_simps)
  then show ?thesis using s4(2) by blast
qed

text \<open>
  One round of the loop of \<^verbatim>\<open>rb_insert_color\<close> below a red parent: either the loop is at its end, or
  it goes on two levels further up.
\<close>

definition ins_done :: "32 word \<Rightarrow> rb_state \<Rightarrow> rtree \<Rightarrow> bool" where
  "ins_done x s t \<longleftrightarrow> (\<exists>s' t'. insert_color_loop x s = Some s' \<and> tree_at s' t' \<and> invc t' \<and> invh t' \<and> inord t' = inord t)"

definition ins_at :: "rb_state \<Rightarrow> frame list \<Rightarrow> 32 word \<Rightarrow> rtree \<Rightarrow> rtree \<Rightarrow> bool" where
  "ins_at s fs x l r \<longleftrightarrow> tree_at s (plug fs (Nd Red l x r)) \<and> ctx_ok fs (bh l) \<and> invc (Nd Red l x r) \<and> invh (Nd Red l x r)"

lemma ins_doneI:
  "insert_color_loop x s = Some s' \<Longrightarrow> tree_at s' (plug fs t') \<Longrightarrow> ctx_ok fs (bh t') \<Longrightarrow> invc t' \<Longrightarrow> invh t' \<Longrightarrow> col t' = Black \<Longrightarrow>
   inord (plug fs t') = inord t \<Longrightarrow> ins_done x s t"
  using plug_rb [of fs t'] by (auto simp: ins_done_def)

lemma ins_round_left:
  assumes "ins_at s (f # FL Black g u # hs) x l r" "fcolour f = Red"
  shows "ins_done x s (plug (f # FL Black g u # hs) (Nd Red l x r)) \<or>
    (\<exists>s' l' r'. insert_color_loop x s = insert_color_loop g s' \<and> ins_at s' hs g l' r' \<and>
       inord (plug hs (Nd Red l' g r')) = inord (plug (f # FL Black g u # hs) (Nd Red l x r)))"
proof (cases "col u")
  case Red
  then obtain ul ua ur where u: "u = Nd Red ul ua ur" by (cases u) auto
  obtain pl p pr where p: "up f (Nd Red l x r) = Nd Red pl p pr" "faddr f = p" using assms(2) by (cases f) auto
  have t: "tree_at s (plug (f # FL Black g u # hs) (Nd Red l x r))" using assms(1) by (simp add: ins_at_def)
  obtain s' where "insert_color_loop x s = insert_color_loop g s'"
      "tree_at s' (plug hs (Nd Red (Nd Black pl p pr) g (Nd Black ul ua ur)))"
    using loop_recolour_left [of s hs Black pl p pr g ul ua ur x] t tree_read [OF t] p u by (auto simp: rb_simps)
  moreover have "ins_at s' hs g (Nd Black pl p pr) (Nd Black ul ua ur)"
    using calculation(2) assms p u unfolding ins_at_def by (cases f) (auto simp del: plug.simps)
  moreover have "inord (up f (Nd Red l x r)) = inord (Nd Red pl p pr)" by (simp only: p)
  ultimately show ?thesis using u by (intro disjI2 exI [of _ s'] exI [of _ "Nd Black pl p pr"] exI [of _ "Nd Black ul ua ur"]) (auto simp: inord_plug)
next
  case Black
  show ?thesis
  proof (cases f)
    case (FL c p pr)
    then have "tree_at s (plug hs (Nd Black (Nd Red (Nd Red l x r) p pr) g u))" using assms by (simp add: ins_at_def)
    from loop_outer_left [OF this Black] obtain s' where
      s': "insert_color_loop x s = Some s'" "tree_at s' (plug hs (Nd Black (Nd Red l x r) p (Nd Red pr g u)))" by blast
    show ?thesis by (rule disjI1, rule ins_doneI [OF s']) (use FL Black assms in \<open>auto simp: ins_at_def inord_plug\<close>)
  next
    case (FR c pl p)
    then have "tree_at s (plug hs (Nd Black (Nd Red pl p (Nd Red l x r)) g u))" using assms by (simp add: ins_at_def)
    from loop_inner_left [OF this Black] obtain s' where
      s': "insert_color_loop x s = Some s'" "tree_at s' (plug hs (Nd Black (Nd Red pl p l) x (Nd Red r g u)))" by blast
    show ?thesis by (rule disjI1, rule ins_doneI [OF s']) (use FR Black assms in \<open>auto simp: ins_at_def inord_plug\<close>)
  qed
qed

lemma ins_round_right:
  assumes "ins_at s (f # FR Black u g # hs) x l r" "fcolour f = Red"
  shows "ins_done x s (plug (f # FR Black u g # hs) (Nd Red l x r)) \<or>
    (\<exists>s' l' r'. insert_color_loop x s = insert_color_loop g s' \<and> ins_at s' hs g l' r' \<and>
       inord (plug hs (Nd Red l' g r')) = inord (plug (f # FR Black u g # hs) (Nd Red l x r)))"
proof (cases "col u")
  case Red
  then obtain ul ua ur where u: "u = Nd Red ul ua ur" by (cases u) auto
  obtain pl p pr where p: "up f (Nd Red l x r) = Nd Red pl p pr" "faddr f = p" using assms(2) by (cases f) auto
  have t: "tree_at s (plug (f # FR Black u g # hs) (Nd Red l x r))" using assms(1) by (simp add: ins_at_def)
  obtain s' where "insert_color_loop x s = insert_color_loop g s'"
      "tree_at s' (plug hs (Nd Red (Nd Black ul ua ur) g (Nd Black pl p pr)))"
    using loop_recolour_right [of s hs Black ul ua ur g pl p pr x] t tree_read [OF t] p u by (auto simp: rb_simps)
  moreover have "ins_at s' hs g (Nd Black ul ua ur) (Nd Black pl p pr)"
    using calculation(2) assms p u unfolding ins_at_def by (cases f) (auto simp del: plug.simps)
  moreover have "inord (up f (Nd Red l x r)) = inord (Nd Red pl p pr)" by (simp only: p)
  ultimately show ?thesis using u by (intro disjI2 exI [of _ s'] exI [of _ "Nd Black ul ua ur"] exI [of _ "Nd Black pl p pr"]) (auto simp: inord_plug)
next
  case Black
  show ?thesis
  proof (cases f)
    case (FR c pl p)
    then have "tree_at s (plug hs (Nd Black u g (Nd Red pl p (Nd Red l x r))))" using assms by (simp add: ins_at_def)
    from loop_outer_right [OF this Black] obtain s' where
      s': "insert_color_loop x s = Some s'" "tree_at s' (plug hs (Nd Black (Nd Red u g pl) p (Nd Red l x r)))" by blast
    show ?thesis by (rule disjI1, rule ins_doneI [OF s']) (use FR Black assms in \<open>auto simp: ins_at_def inord_plug\<close>)
  next
    case (FL c p pr)
    then have "tree_at s (plug hs (Nd Black u g (Nd Red (Nd Red l x r) p pr)))" using assms by (simp add: ins_at_def)
    from loop_inner_right [OF this Black] obtain s' where
      s': "insert_color_loop x s = Some s'" "tree_at s' (plug hs (Nd Black (Nd Red u g l) x (Nd Red r p pr)))" by blast
    show ?thesis by (rule disjI1, rule ins_doneI [OF s']) (use FL Black assms in \<open>auto simp: ins_at_def inord_plug\<close>)
  qed
qed

text \<open>The loop ends; the tree it leaves is a red-black tree but for a red root.\<close>

lemma insert_loop: "ins_at s fs x l r \<Longrightarrow> ins_done x s (plug fs (Nd Red l x r))"
proof (induction "length fs" arbitrary: fs s l x r rule: less_induct)
  case less
  let ?t = "Nd Red l x r"
  show ?case
  proof (cases "fs = [] \<or> pcol fs = Black")
    case True
    then have "insert_color_loop x s = Some s"
      using less.prems loop_stop_root loop_stop_black by (cases fs) (auto simp: ins_at_def)
    then show ?thesis using less.prems plug_rb [of fs ?t] True by (auto simp: ins_done_def ins_at_def)
  next
    case False
    then obtain f g hs where fs: "fs = f # g # hs" "fcolour f = Red" "fcolour g = Black"
      using less.prems by (cases fs; cases "tl fs") (auto simp: ins_at_def)
    then have "ins_done x s (plug fs ?t) \<or>
      (\<exists>s' y l' r'. insert_color_loop x s = insert_color_loop y s' \<and> ins_at s' hs y l' r' \<and>
         inord (plug hs (Nd Red l' y r')) = inord (plug fs ?t))"
    proof (cases g)
      case (FL c a u)
      then show ?thesis using ins_round_left [of s f a u hs x l r] less.prems fs by auto
    next
      case (FR c u a)
      then show ?thesis using ins_round_right [of s f u a hs x l r] less.prems fs by auto
    qed
    then show ?thesis
    proof
      assume "\<exists>s' y l' r'. insert_color_loop x s = insert_color_loop y s' \<and> ins_at s' hs y l' r' \<and>
        inord (plug hs (Nd Red l' y r')) = inord (plug fs ?t)"
      then obtain s' y l' r' where "insert_color_loop x s = insert_color_loop y s'" "ins_at s' hs y l' r'"
        "inord (plug hs (Nd Red l' y r')) = inord (plug fs ?t)" by blast
      then show ?thesis using less.hyps [of hs s' y l' r'] fs(1) by (simp add: ins_done_def)
    qed
  qed
qed

text \<open>The place a new node is linked to.\<close>

primrec hole :: "frame list \<Rightarrow> rb_link" where
  "hole [] = Link_Root"
| "hole (f # fs) = (case f of FL c a r \<Rightarrow> Link_Left a | FR c l a \<Rightarrow> Link_Right a)"

lemma link_node:
  assumes "tree_at s (plug fs Tip)" "nodes s x = Some n" "x \<noteq> 0" "aligned x" "x \<notin> set (inord (plug fs Tip))"
  shows "\<exists>s'. rb_link_node x (par_of fs) (hole fs) s = Some s' \<and> tree_at s' (plug fs (Nd Red Tip x Tip))"
proof -
  let ?s = "s\<lparr>nodes := (nodes s)(x \<mapsto> mk (par_of fs) Red 0 0)\<rparr>"
  have x: "x \<notin> around fs" using assms(5) by (auto simp: inord_plug around_def)
  have "repc (nodes ?s) 0 fs" using assms(1) x by (simp add: tree_at_plug)
  then have "set_link (hole fs) x ?s = Some (hangs x fs ?s)"
    by (cases fs) (auto simp: set_link_def hangs_def hang_def rb_simps split: frame.splits)
  moreover have "rb_link_node x (par_of fs) (hole fs) s = set_link (hole fs) x ?s"
    using assms(2) by (cases n) (simp add: rb_link_node_def upd_node_def pack_Red)
  moreover have "tree_at (hangs x fs ?s) (plug fs (Nd Red Tip x Tip))"
    using assms x \<open>repc (nodes ?s) 0 fs\<close> by (auto simp: tree_at_plug repc_hang)
  ultimately show ?thesis by simp
qed

section \<open>The theorem\<close>

lemma insert_color_run:
  assumes "ins_at s fs x l r"
  shows "\<exists>s'. rb_insert_color x s = Some s' \<and> rb_holds s' (inord (plug fs (Nd Red l x r)))"
proof -
  obtain s2 t where s2: "insert_color_loop x s = Some s2" "tree_at s2 t" "invc t" "invh t"
      "inord t = inord (plug fs (Nd Red l x r))"
    using insert_loop [OF assms] by (auto simp: ins_done_def)
  then obtain c tl a tr where t: "t = Nd c tl a tr" by (cases t) (auto simp: inord_plug)
  then obtain s3 where "rb_set_black (rb_root s2) s2 = Some s3" "tree_at s3 (Nd Black tl a tr)"
    using set_black_at [of s2 "[]" c tl a tr] s2(2) by (auto simp: tree_at_def)
  then show ?thesis using s2 t by (auto simp: rb_insert_color_def rb_holds_def rbt_def intro!: exI [of _ "Nd Black tl a tr"])
qed

text \<open>
  C32. Insertion: a node that is not in the tree is linked below any free place of a red-black tree
  and \<^verbatim>\<open>rb_insert_color\<close> is called, as the header's example does. Both calls return, the result is a
  red-black tree again (its root black, no red node with a red child, the same number of black nodes
  on every path), and its nodes in order are the old ones with the new node at the chosen place.
\<close>

theorem rb_insert_balanced:
  assumes "tree_at s (plug fs Tip)" "rbt (plug fs Tip)"
    and "nodes s x \<noteq> None" "x \<noteq> 0" "aligned x" "x \<notin> set (inord (plug fs Tip))"
  shows "\<exists>s1 s2. rb_link_node x (par_of fs) (hole fs) s = Some s1 \<and> rb_insert_color x s1 = Some s2 \<and>
    rb_holds s2 (before fs @ x # behind fs)"
proof -
  obtain s1 where s1: "rb_link_node x (par_of fs) (hole fs) s = Some s1" "tree_at s1 (plug fs (Nd Red Tip x Tip))"
    using link_node [OF assms(1) _ assms(4-6)] assms(3) by blast
  then have "ins_at s1 fs x Tip Tip" using assms(2) by (simp add: ins_at_def rbt_plug)
  from insert_color_run [OF this] s1(1) show ?thesis by (auto simp: inord_plug)
qed

theorem rb_insert_balanced_witness:
  "\<exists>s1 s2. rb_link_node 20 16 (Link_Right 16) rb_demo = Some s1 \<and> rb_insert_color 20 s1 = Some s2 \<and>
     rb_holds s2 [4, 8, 12, 16, 20]"
proof -
  let ?fs = "[FR Red Tip 16, FR Black Tip 12, FR Black (Nd Black Tip 4 Tip) 8]"
  have "plug ?fs Tip = rb_demo_tree" by (simp add: rb_demo_tree_def)
  then show ?thesis using rb_insert_balanced [of rb_demo ?fs 20] rb_demo by (simp add: aligned_def) (simp add: rb_demo_def)
qed

end
