(* ===== verification/Lib_Rberase.thy ===== *)
theory Lib_Rberase
  imports Lib_Rbshape
begin

text \<open>
  Removal from a red-black tree: one lemma for each way through a pass of \<^verbatim>\<open>__rb_erase_color\<close>, the
  loop by induction on the way to the root, and the two ways \<^verbatim>\<open>rb_erase\<close> takes a node out.
\<close>

section \<open>Removal: the loop\<close>

lemma left_red:
  assumes t: "tree_at s (plug gs (Nd c t p (Nd Red wl w wr)))" and n: "nodes s p = Some n"
  shows "\<exists>s'. erase_left p n s = erase_left_black p (ptr_of wl) s' \<and> tree_at s' (plug gs (Nd Black (Nd Red t p wl) w wr))"
proof -
  have w: "tree_at s (plug (FR c t p # gs) (Nd Red wl w wr))" using t by simp
  obtain sa where sa: "rb_set_black w s = Some sa" "tree_at sa (plug gs (Nd c t p (Nd Black wl w wr)))"
    using set_black_at [OF w] by auto
  obtain sb where sb: "rb_set_red p sa = Some sb" "tree_at sb (plug gs (Nd Red t p (Nd Black wl w wr)))"
    using set_red_at [OF sa(2)] by blast
  obtain sc where sc: "rb_rotate_left p sb = Some sc" "tree_at sc (plug gs (Nd Black (Nd Red t p wl) w wr))"
    using rotate_left [OF sb(2)] by blast
  have "nodes sc p = Some (mk w Red (ptr_of t) (ptr_of wl))"
    using tree_read [of sc "FL Black w wr # gs" Red t p wl] sc(2) by simp
  then have "erase_left p n s = erase_left_black p (ptr_of wl) sc"
    using tree_read [OF t] tree_read [OF w] n sa(1) sb(1) sc(1) by (auto simp: erase_left_def rb_simps)
  then show ?thesis using sc(2) by blast
qed

lemma left_black:
  assumes t: "tree_at s (plug gs (Nd c t p (Nd Black wl w wr)))" and n: "nodes s p = Some n"
  shows "erase_left p n s = erase_left_black p w s"
proof -
  have w: "tree_at s (plug (FR c t p # gs) (Nd Black wl w wr))" using t by simp
  show ?thesis using tree_read [OF t] tree_read [OF w] n by (auto simp: erase_left_def rb_simps)
qed

lemma left_black_both:
  assumes t: "tree_at s (plug gs (Nd c t p (Nd Black wl w wr)))" and "col wl = Black" "col wr = Black"
  shows "\<exists>s'. erase_left_black p w s = Some (Inl (p, par_of gs, s')) \<and> tree_at s' (plug gs (Nd c t p (Nd Red wl w wr)))"
proof -
  have w: "tree_at s (plug (FR c t p # gs) (Nd Black wl w wr))"
    and l: "tree_at s (plug (FL Black w wr # FR c t p # gs) wl)"
    and r: "tree_at s (plug (FR Black wl w # FR c t p # gs) wr)" using t by simp_all
  obtain s2 where s2: "rb_set_red w s = Some s2" "tree_at s2 (plug gs (Nd c t p (Nd Red wl w wr)))"
    using set_red_at [OF w] by auto
  then show ?thesis
    using tree_read [OF w] black_at_ptr [OF l] black_at_ptr [OF r] assms(2,3) tree_read [OF s2(2)]
    by (auto simp: erase_left_black_def rb_simps)
qed

text \<open>The end of a pass with a black sibling that has a red outer child.\<close>

lemma left_finish:
  assumes t: "tree_at s (plug gs (Nd c t p (Nd co wl w (Nd Red a q b))))"
  shows "\<exists>s3 s4 s5 s6 n. rb_set_color w (bit_of c) s = Some s3 \<and> rb_set_black p s3 = Some s4 \<and> nodes s4 w = Some n \<and>
    rb_right n = q \<and> rb_set_black q s4 = Some s5 \<and> rb_rotate_left p s5 = Some s6 \<and>
    tree_at s6 (plug gs (Nd c (Nd Black t p wl) w (Nd Black a q b)))"
proof -
  let ?q = "Nd Red a q b"
  have w: "tree_at s (plug (FR c t p # gs) (Nd co wl w ?q))" using t by simp
  obtain s3 where s3: "rb_set_color w (bit_of c) s = Some s3" "tree_at s3 (plug gs (Nd c t p (Nd c wl w ?q)))"
    using set_color_at [OF w] by auto
  obtain s4 where s4: "rb_set_black p s3 = Some s4" "tree_at s4 (plug gs (Nd Black t p (Nd c wl w ?q)))"
    using set_black_at [OF s3(2)] by blast
  have "tree_at s4 (plug (FR Black t p # gs) (Nd c wl w ?q))" "tree_at s4 (plug (FR c wl w # FR Black t p # gs) ?q)"
    using s4(2) by simp_all
  note n4 = tree_read [OF this(1)] and s5 = set_black_at [OF this(2)]
  obtain s5 where s5: "rb_set_black q s4 = Some s5" "tree_at s5 (plug gs (Nd Black t p (Nd c wl w (Nd Black a q b))))"
    using s5 by auto
  obtain s6 where s6: "rb_rotate_left p s5 = Some s6" "tree_at s6 (plug gs (Nd c (Nd Black t p wl) w (Nd Black a q b)))"
    using rotate_left [OF s5(2)] by blast
  show ?thesis using s3 s4 s5 s6 n4 by auto
qed

lemma left_black_outer:
  assumes t: "tree_at s (plug gs (Nd c t p (Nd Black wl w (Nd Red a q b))))"
  shows "\<exists>s'. erase_left_black p w s = Some (Inr (rb_root s', s')) \<and>
    tree_at s' (plug gs (Nd c (Nd Black t p wl) w (Nd Black a q b)))"
proof -
  have w: "tree_at s (plug (FR c t p # gs) (Nd Black wl w (Nd Red a q b)))"
    and l: "tree_at s (plug (FL Black w (Nd Red a q b) # FR c t p # gs) wl)"
    and r: "tree_at s (plug (FR Black wl w # FR c t p # gs) (Nd Red a q b))" using t by simp_all
  show ?thesis using left_finish [OF t]
    using tree_read [OF w] black_at_ptr [OF l] black_at_ptr [OF r] tree_read [OF t]
    by (auto simp: erase_left_black_def rb_simps)
qed

lemma left_black_inner:
  assumes t: "tree_at s (plug gs (Nd c t p (Nd Black (Nd Red a q b) w wr)))" and br: "col wr = Black"
  shows "\<exists>s'. erase_left_black p w s = Some (Inr (rb_root s', s')) \<and>
    tree_at s' (plug gs (Nd c (Nd Black t p a) q (Nd Black b w wr)))"
proof -
  have w: "tree_at s (plug (FR c t p # gs) (Nd Black (Nd Red a q b) w wr))"
    and l: "tree_at s (plug (FL Black w wr # FR c t p # gs) (Nd Red a q b))"
    and r: "tree_at s (plug (FR Black (Nd Red a q b) w # FR c t p # gs) wr)" using t by simp_all
  obtain sa where sa: "rb_set_black q s = Some sa" "tree_at sa (plug (FR c t p # gs) (Nd Black (Nd Black a q b) w wr))"
    using set_black_at [OF l] by auto
  obtain sb where sb: "rb_set_red w sa = Some sb" "tree_at sb (plug (FR c t p # gs) (Nd Red (Nd Black a q b) w wr))"
    using set_red_at [OF sa(2)] by auto
  obtain sc where sc: "rb_rotate_right w sb = Some sc" "tree_at sc (plug (FR c t p # gs) (Nd Black a q (Nd Red b w wr)))"
    using rotate_right [OF sb(2)] by blast
  then have tc: "tree_at sc (plug gs (Nd c t p (Nd Black a q (Nd Red b w wr))))" by simp
  show ?thesis using left_finish [OF tc]
    using tree_read [OF w] black_at_ptr [OF l] black_at_ptr [OF r] br sa(1) sb(1) sc(1) tree_read [OF tc]
    by (auto simp: erase_left_black_def rb_simps)
qed

lemma right_red:
  assumes t: "tree_at s (plug gs (Nd c (Nd Red wl w wr) p t))" and n: "nodes s p = Some n"
  shows "\<exists>s'. erase_right p n s = erase_right_black p (ptr_of wr) s' \<and> tree_at s' (plug gs (Nd Black wl w (Nd Red wr p t)))"
proof -
  have w: "tree_at s (plug (FL c p t # gs) (Nd Red wl w wr))" using t by simp
  obtain sa where sa: "rb_set_black w s = Some sa" "tree_at sa (plug gs (Nd c (Nd Black wl w wr) p t))"
    using set_black_at [OF w] by auto
  obtain sb where sb: "rb_set_red p sa = Some sb" "tree_at sb (plug gs (Nd Red (Nd Black wl w wr) p t))"
    using set_red_at [OF sa(2)] by blast
  obtain sc where sc: "rb_rotate_right p sb = Some sc" "tree_at sc (plug gs (Nd Black wl w (Nd Red wr p t)))"
    using rotate_right [OF sb(2)] by blast
  have "nodes sc p = Some (mk w Red (ptr_of wr) (ptr_of t))"
    using tree_read [of sc "FR Black wl w # gs" Red wr p t] sc(2) by simp
  then have "erase_right p n s = erase_right_black p (ptr_of wr) sc"
    using tree_read [OF t] tree_read [OF w] n sa(1) sb(1) sc(1) by (auto simp: erase_right_def rb_simps)
  then show ?thesis using sc(2) by blast
qed

lemma right_black:
  assumes t: "tree_at s (plug gs (Nd c (Nd Black wl w wr) p t))" and n: "nodes s p = Some n"
  shows "erase_right p n s = erase_right_black p w s"
proof -
  have w: "tree_at s (plug (FL c p t # gs) (Nd Black wl w wr))" using t by simp
  show ?thesis using tree_read [OF t] tree_read [OF w] n by (auto simp: erase_right_def rb_simps)
qed

lemma right_black_both:
  assumes t: "tree_at s (plug gs (Nd c (Nd Black wl w wr) p t))" and "col wl = Black" "col wr = Black"
  shows "\<exists>s'. erase_right_black p w s = Some (Inl (p, par_of gs, s')) \<and> tree_at s' (plug gs (Nd c (Nd Red wl w wr) p t))"
proof -
  have w: "tree_at s (plug (FL c p t # gs) (Nd Black wl w wr))"
    and l: "tree_at s (plug (FL Black w wr # FL c p t # gs) wl)"
    and r: "tree_at s (plug (FR Black wl w # FL c p t # gs) wr)" using t by simp_all
  obtain s2 where s2: "rb_set_red w s = Some s2" "tree_at s2 (plug gs (Nd c (Nd Red wl w wr) p t))"
    using set_red_at [OF w] by auto
  then show ?thesis
    using tree_read [OF w] black_at_ptr [OF l] black_at_ptr [OF r] assms(2,3) tree_read [OF s2(2)]
    by (auto simp: erase_right_black_def rb_simps)
qed

lemma right_finish:
  assumes t: "tree_at s (plug gs (Nd c (Nd co (Nd Red a q b) w wr) p t))"
  shows "\<exists>s3 s4 s5 s6 n. rb_set_color w (bit_of c) s = Some s3 \<and> rb_set_black p s3 = Some s4 \<and> nodes s4 w = Some n \<and>
    rb_left n = q \<and> rb_set_black q s4 = Some s5 \<and> rb_rotate_right p s5 = Some s6 \<and>
    tree_at s6 (plug gs (Nd c (Nd Black a q b) w (Nd Black wr p t)))"
proof -
  let ?q = "Nd Red a q b"
  have w: "tree_at s (plug (FL c p t # gs) (Nd co ?q w wr))" using t by simp
  obtain s3 where s3: "rb_set_color w (bit_of c) s = Some s3" "tree_at s3 (plug gs (Nd c (Nd c ?q w wr) p t))"
    using set_color_at [OF w] by auto
  obtain s4 where s4: "rb_set_black p s3 = Some s4" "tree_at s4 (plug gs (Nd Black (Nd c ?q w wr) p t))"
    using set_black_at [OF s3(2)] by blast
  have "tree_at s4 (plug (FL Black p t # gs) (Nd c ?q w wr))" "tree_at s4 (plug (FL c w wr # FL Black p t # gs) ?q)"
    using s4(2) by simp_all
  note n4 = tree_read [OF this(1)] and s5 = set_black_at [OF this(2)]
  obtain s5 where s5: "rb_set_black q s4 = Some s5" "tree_at s5 (plug gs (Nd Black (Nd c (Nd Black a q b) w wr) p t))"
    using s5 by auto
  obtain s6 where s6: "rb_rotate_right p s5 = Some s6" "tree_at s6 (plug gs (Nd c (Nd Black a q b) w (Nd Black wr p t)))"
    using rotate_right [OF s5(2)] by blast
  show ?thesis using s3 s4 s5 s6 n4 by auto
qed

lemma right_black_outer:
  assumes t: "tree_at s (plug gs (Nd c (Nd Black (Nd Red a q b) w wr) p t))"
  shows "\<exists>s'. erase_right_black p w s = Some (Inr (rb_root s', s')) \<and>
    tree_at s' (plug gs (Nd c (Nd Black a q b) w (Nd Black wr p t)))"
proof -
  have w: "tree_at s (plug (FL c p t # gs) (Nd Black (Nd Red a q b) w wr))"
    and l: "tree_at s (plug (FL Black w wr # FL c p t # gs) (Nd Red a q b))"
    and r: "tree_at s (plug (FR Black (Nd Red a q b) w # FL c p t # gs) wr)" using t by simp_all
  show ?thesis using right_finish [OF t]
    using tree_read [OF w] black_at_ptr [OF l] black_at_ptr [OF r] tree_read [OF t]
    by (auto simp: erase_right_black_def rb_simps)
qed

lemma right_black_inner:
  assumes t: "tree_at s (plug gs (Nd c (Nd Black wl w (Nd Red a q b)) p t))" and bl: "col wl = Black"
  shows "\<exists>s'. erase_right_black p w s = Some (Inr (rb_root s', s')) \<and>
    tree_at s' (plug gs (Nd c (Nd Black wl w a) q (Nd Black b p t)))"
proof -
  have w: "tree_at s (plug (FL c p t # gs) (Nd Black wl w (Nd Red a q b)))"
    and l: "tree_at s (plug (FL Black w (Nd Red a q b) # FL c p t # gs) wl)"
    and r: "tree_at s (plug (FR Black wl w # FL c p t # gs) (Nd Red a q b))" using t by simp_all
  obtain sa where sa: "rb_set_black q s = Some sa" "tree_at sa (plug (FL c p t # gs) (Nd Black wl w (Nd Black a q b)))"
    using set_black_at [OF r] by auto
  obtain sb where sb: "rb_set_red w sa = Some sb" "tree_at sb (plug (FL c p t # gs) (Nd Red wl w (Nd Black a q b)))"
    using set_red_at [OF sa(2)] by auto
  obtain sc where sc: "rb_rotate_left w sb = Some sc" "tree_at sc (plug (FL c p t # gs) (Nd Black (Nd Red wl w a) q b))"
    using rotate_left [OF sb(2)] by blast
  then have tc: "tree_at sc (plug gs (Nd c (Nd Black (Nd Red wl w a) q b) p t))" by simp
  show ?thesis using right_finish [OF tc]
    using tree_read [OF w] black_at_ptr [OF l] black_at_ptr [OF r] bl sa(1) sb(1) sc(1) tree_read [OF tc]
    by (auto simp: erase_right_black_def rb_simps)
qed

text \<open>
  The loop and the recolouring behind it. \<open>era_at\<close>: the subtree is one black node short, and its
  root may be red above a red child, which the final recolouring mends.
\<close>

primrec paint :: "rtree \<Rightarrow> rtree" where
  "paint Tip = Tip"
| "paint (Nd c l a r) = Nd Black l a r"

definition era_at :: "rb_state \<Rightarrow> frame list \<Rightarrow> rtree \<Rightarrow> bool" where
  "era_at s fs t \<longleftrightarrow> tree_at s (plug fs t) \<and> ctx_ok fs (Suc (bh t)) \<and> invc (paint t) \<and> invh t"

definition era_done :: "32 word \<Rightarrow> 32 word \<Rightarrow> rb_state \<Rightarrow> 32 word list \<Rightarrow> bool" where
  "era_done node parent s xs \<longleftrightarrow> (\<exists>s' t'. rb_erase_color node parent s = Some s' \<and> tree_at s' t' \<and> rbt t' \<and> inord t' = xs)"

lemma paint_black: "tree_at s (plug fs t) \<Longrightarrow>
  \<exists>s'. (if ptr_of t \<noteq> 0 then rb_set_black (ptr_of t) s else Some s) = Some s' \<and> tree_at s' (plug fs (paint t))"
  by (cases t) (use set_black_at tree_read in \<open>auto\<close>)

lemma inord_paint [simp]: "inord (paint t) = inord t"
  by (cases t) auto

lemma paint_props [simp]: "col (paint t) = Black" "invh (paint t) = invh t" "col t = Black \<Longrightarrow> paint t = t"
  "col t = Red \<Longrightarrow> bh (paint t) = Suc (bh t)"
  by (cases t; auto)+

lemma erase_stop:
  assumes "era_at s fs t" "col t = Red \<or> fs = []"
  shows "era_done (ptr_of t) (par_of fs) s (inord (plug fs t))"
proof -
  have t: "tree_at s (plug fs t)" using assms(1) by (simp add: era_at_def)
  obtain s' where "(if ptr_of t \<noteq> 0 then rb_set_black (ptr_of t) s else Some s) = Some s'" "tree_at s' (plug fs (paint t))"
    using paint_black [OF t] by blast
  moreover have "erase_color_loop (ptr_of t) (par_of fs) s = Some (ptr_of t, s)"
    using black_at_ptr [OF t] assms(2) t by (auto simp: erase_color_loop.simps [of "ptr_of t"] tree_at_def)
  moreover have "rbt (plug fs (paint t))" using assms by (auto simp: era_at_def rbt_plug)
  ultimately show ?thesis by (auto simp: era_done_def rb_erase_color_def inord_plug intro!: exI [of _ "plug fs (paint t)"])
qed


lemma last_around: "fs \<noteq> [] \<Longrightarrow> faddr (last fs) \<in> around fs"
proof (induction fs)
  case (Cons f fs)
  then show ?case by (cases f; cases "fs = []") auto
qed simp

lemma not_root:
  assumes "tree_at s (plug (f # fs) t)"
  shows "ptr_of t \<noteq> rb_root s"
proof -
  note at = assms [unfolded tree_at_plug]
  then have "rb_root s \<in> around (f # fs)" using last_around [of "f # fs"] by simp
  moreover have "0 \<notin> around (f # fs)" using at repc_nonzero by blast
  ultimately show ?thesis using at ptr_of_in [of t] by (metis disjoint_iff)
qed

text \<open>
  The outcome of a pass: the end of the loop with a red-black tree, or a smaller gap to close, or a
  red node at which the loop ends.
\<close>

definition passed :: "nat \<Rightarrow> 32 word list \<Rightarrow> erase_pass \<Rightarrow> bool" where
  "passed k xs r \<longleftrightarrow>
     (\<exists>s' t'. r = Some (Inr (rb_root s', s')) \<and> tree_at s' t' \<and> rbt t' \<and> inord t' = xs) \<or>
     (\<exists>s' fs' t'. r = Some (Inl (ptr_of t', par_of fs', s')) \<and> era_at s' fs' t' \<and> inord (plug fs' t') = xs \<and>
        (length fs' < k \<or> col t' = Red))"

lemma passed_InrI:
  "r = Some (Inr (rb_root s', s')) \<and> tree_at s' (plug fs t) \<Longrightarrow> rbt (plug fs t) \<Longrightarrow> inord (plug fs t) = xs \<Longrightarrow> passed k xs r"
  by (auto simp: passed_def)

lemma passed_InlI:
  "r = Some (Inl (ptr_of t, par_of fs, s')) \<and> tree_at s' (plug fs t) \<Longrightarrow> ctx_ok fs (Suc (bh t)) \<Longrightarrow> invc (paint t) \<Longrightarrow> invh t \<Longrightarrow>
   inord (plug fs t) = xs \<Longrightarrow> length fs < k \<or> col t = Red \<Longrightarrow> passed k xs r"
  unfolding passed_def era_at_def by blast

lemma black_round_left:
  assumes "era_at s (FL c p (Nd Black wl w wr) # gs) t" "col t = Black" "length gs < k \<or> c = Red"
  shows "passed k (inord (plug (FL c p (Nd Black wl w wr) # gs) t)) (erase_left_black p w s)"
proof -
  have t: "tree_at s (plug gs (Nd c t p (Nd Black wl w wr)))" using assms by (simp add: era_at_def)
  note inv = assms [unfolded era_at_def]
  show ?thesis
  proof (cases "col wr")
    case Red
    then obtain a q b where wr: "wr = Nd Red a q b" by (cases wr) auto
    obtain s' where "erase_left_black p w s = Some (Inr (rb_root s', s')) \<and>
        tree_at s' (plug gs (Nd c (Nd Black t p wl) w (Nd Black a q b)))" using left_black_outer t wr by blast
    then show ?thesis by (rule passed_InrI) (use inv wr in \<open>auto simp: rbt_plug inord_plug split: if_splits\<close>)
  next
    case Black
    note wr = this
    show ?thesis
    proof (cases "col wl")
      case Red
      then obtain a q b where wl: "wl = Nd Red a q b" by (cases wl) auto
      obtain s' where "erase_left_black p w s = Some (Inr (rb_root s', s')) \<and>
          tree_at s' (plug gs (Nd c (Nd Black t p a) q (Nd Black b w wr)))" using left_black_inner t wl wr by blast
      then show ?thesis by (rule passed_InrI) (use inv wl in \<open>auto simp: rbt_plug inord_plug split: if_splits\<close>)
    next
      case Black
      obtain s' where "erase_left_black p w s = Some (Inl (ptr_of (Nd c t p (Nd Red wl w wr)), par_of gs, s')) \<and>
          tree_at s' (plug gs (Nd c t p (Nd Red wl w wr)))" using left_black_both t Black wr by fastforce
      then show ?thesis by (rule passed_InlI) (use inv wr Black in \<open>auto simp: inord_plug split: if_splits\<close>)
    qed
  qed
qed

lemma black_round_right:
  assumes "era_at s (FR c (Nd Black wl w wr) p # gs) t" "col t = Black" "length gs < k \<or> c = Red"
  shows "passed k (inord (plug (FR c (Nd Black wl w wr) p # gs) t)) (erase_right_black p w s)"
proof -
  have t: "tree_at s (plug gs (Nd c (Nd Black wl w wr) p t))" using assms by (simp add: era_at_def)
  note inv = assms [unfolded era_at_def]
  show ?thesis
  proof (cases "col wl")
    case Red
    then obtain a q b where wl: "wl = Nd Red a q b" by (cases wl) auto
    obtain s' where "erase_right_black p w s = Some (Inr (rb_root s', s')) \<and>
        tree_at s' (plug gs (Nd c (Nd Black a q b) w (Nd Black wr p t)))" using right_black_outer t wl by blast
    then show ?thesis by (rule passed_InrI) (use inv wl in \<open>auto simp: rbt_plug inord_plug split: if_splits\<close>)
  next
    case Black
    note wl = this
    show ?thesis
    proof (cases "col wr")
      case Red
      then obtain a q b where wr: "wr = Nd Red a q b" by (cases wr) auto
      obtain s' where "erase_right_black p w s = Some (Inr (rb_root s', s')) \<and>
          tree_at s' (plug gs (Nd c (Nd Black wl w a) q (Nd Black b p t)))" using right_black_inner t wl wr by blast
      then show ?thesis by (rule passed_InrI) (use inv wr in \<open>auto simp: rbt_plug inord_plug split: if_splits\<close>)
    next
      case Black
      obtain s' where "erase_right_black p w s = Some (Inl (ptr_of (Nd c (Nd Red wl w wr) p t), par_of gs, s')) \<and>
          tree_at s' (plug gs (Nd c (Nd Red wl w wr) p t))" using right_black_both t Black wl by fastforce
      then show ?thesis by (rule passed_InlI) (use inv wl Black in \<open>auto simp: inord_plug split: if_splits\<close>)
    qed
  qed
qed

text \<open>A whole pass. A sibling is never missing: its black height is positive.\<close>

lemma pass_left:
  assumes "era_at s (FL c p sib # gs) t" "col t = Black" "nodes s p = Some n"
  shows "passed (Suc (length gs)) (inord (plug (FL c p sib # gs) t)) (erase_left p n s)"
proof -
  obtain cw wl w wr where sib: "sib = Nd cw wl w wr" using assms(1) by (cases sib) (auto simp: era_at_def)
  have t: "tree_at s (plug gs (Nd c t p (Nd cw wl w wr)))" using assms sib by (simp add: era_at_def)
  show ?thesis
  proof (cases cw)
    case Black
    then show ?thesis using left_black [of s gs c t p wl w wr n] black_round_left [of s c p wl w wr gs t "Suc (length gs)"]
        t assms sib by simp
  next
    case Red
    obtain s' where s': "erase_left p n s = erase_left_black p (ptr_of wl) s'" "tree_at s' (plug gs (Nd Black (Nd Red t p wl) w wr))"
      using left_red [of s gs c t p wl w wr n] t Red assms(3) by blast
    obtain al a ar where wl: "wl = Nd Black al a ar" using assms(1) sib Red by (cases wl) (auto simp: era_at_def)
    have "era_at s' (FL Red p (Nd Black al a ar) # FL Black w wr # gs) t"
      using s'(2) assms(1) sib Red wl by (auto simp: era_at_def split: if_splits)
    from black_round_left [OF this assms(2), of "Suc (length gs)"] show ?thesis
      using s'(1) sib wl by (simp add: inord_plug)
  qed
qed

lemma pass_right:
  assumes "era_at s (FR c sib p # gs) t" "col t = Black" "nodes s p = Some n"
  shows "passed (Suc (length gs)) (inord (plug (FR c sib p # gs) t)) (erase_right p n s)"
proof -
  obtain cw wl w wr where sib: "sib = Nd cw wl w wr" using assms(1) by (cases sib) (auto simp: era_at_def)
  have t: "tree_at s (plug gs (Nd c (Nd cw wl w wr) p t))" using assms sib by (simp add: era_at_def)
  show ?thesis
  proof (cases cw)
    case Black
    then show ?thesis using right_black [of s gs c wl w wr p t n] black_round_right [of s c wl w wr p gs t "Suc (length gs)"]
        t assms sib by simp
  next
    case Red
    obtain s' where s': "erase_right p n s = erase_right_black p (ptr_of wr) s'" "tree_at s' (plug gs (Nd Black wl w (Nd Red wr p t)))"
      using right_red [of s gs c wl w wr p t n] t Red assms(3) by blast
    obtain al a ar where wr: "wr = Nd Black al a ar" using assms(1) sib Red by (cases wr) (auto simp: era_at_def)
    have "era_at s' (FR Red (Nd Black al a ar) p # FR Black wl w # gs) t"
      using s'(2) assms(1) sib Red wr by (auto simp: era_at_def split: if_splits)
    from black_round_right [OF this assms(2), of "Suc (length gs)"] show ?thesis
      using s'(1) sib wr by (simp add: inord_plug)
  qed
qed

text \<open>One pass of the loop, on either side.\<close>

definition go_on :: "erase_pass \<Rightarrow> (32 word \<times> rb_state) option" where
  "go_on r = do { pass \<leftarrow> r;
     (case pass of Inl (node', parent', s') \<Rightarrow> erase_color_loop node' parent' s' | Inr (node', s') \<Rightarrow> Some (node', s')) }"

lemma erase_step:
  assumes "era_at s (f # gs) t" "col t = Black"
  shows "\<exists>r. passed (Suc (length gs)) (inord (plug (f # gs) t)) r \<and> erase_color_loop (ptr_of t) (faddr f) s = go_on r"
proof -
  have t: "tree_at s (plug (f # gs) t)" using assms(1) by (simp add: era_at_def)
  note loop = tree_read_par [OF t] black_at_ptr [OF t] not_root [OF t] assms(2)
  show ?thesis
  proof (cases f)
    case (FL c p sib)
    obtain n where n: "nodes s p = Some n" "rb_left n = ptr_of t" using loop(1) FL by auto
    show ?thesis using pass_left [of s c p sib gs t n] assms FL n loop
      by (intro exI [of _ "erase_left p n s"]) (simp add: erase_color_loop.simps [of "ptr_of t"] go_on_def)
  next
    case (FR c sib p)
    obtain n where n: "nodes s p = Some n" "rb_left n = ptr_of sib" using loop(1) FR by auto
    have "sib \<noteq> Tip" using assms(1) FR by (auto simp: era_at_def)
    then have "ptr_of sib \<noteq> ptr_of t"
      using t FR ptr_of_in [of t] ptr_of_in [of sib] by (cases sib) (auto simp: tree_at_plug)
    then show ?thesis using pass_right [of s c sib p gs t n] assms FR n loop
      by (intro exI [of _ "erase_right p n s"]) (simp add: erase_color_loop.simps [of "ptr_of t"] go_on_def)
  qed
qed

lemma erase_color:
  "era_at s fs t \<Longrightarrow> era_done (ptr_of t) (par_of fs) s (inord (plug fs t))"
proof (induction "length fs" arbitrary: s fs t rule: less_induct)
  case less
  show ?case
  proof (cases "col t = Red \<or> fs = []")
    case True
    then show ?thesis using erase_stop less.prems by blast
  next
    case False
    then obtain f gs where fs: "fs = f # gs" "col t = Black" by (cases fs) auto
    obtain r where r: "passed (length fs) (inord (plug fs t)) r" and
      loop: "erase_color_loop (ptr_of t) (faddr f) s = go_on r"
      using erase_step [of s f gs t] less.prems fs by auto
    consider s' t' where "r = Some (Inr (rb_root s', s'))" "tree_at s' t'" "rbt t'" "inord t' = inord (plug fs t)"
      | s' fs' t' where "r = Some (Inl (ptr_of t', par_of fs', s'))" "era_at s' fs' t'" "inord (plug fs' t') = inord (plug fs t)"
        "length fs' < length fs \<or> col t' = Red" using r unfolding passed_def by blast
    then show ?thesis
    proof cases
      case 1
      have root: "rb_root s' = ptr_of t'" using 1(2) by (simp add: tree_at_def)
      obtain s2 where "(if rb_root s' \<noteq> 0 then rb_set_black (rb_root s') s' else Some s') = Some s2" "tree_at s2 t'"
        using paint_black [of s' "[]" t'] 1(2,3) unfolding root by (auto simp: rbt_def)
      then show ?thesis using 1 loop fs by (auto simp: era_done_def rb_erase_color_def go_on_def)
    next
      case 2
      then have "era_done (ptr_of t') (par_of fs') s' (inord (plug fs t))"
        using less.hyps [of fs' s' t'] erase_stop [of s' fs' t'] by auto
      then show ?thesis using 2(1) loop fs by (simp add: era_done_def rb_erase_color_def go_on_def)
    qed
  qed
qed


section \<open>Removal\<close>

lemma relink_hangs:
  assumes "repc (nodes s) q fs" "q \<noteq> 0" "q \<notin> around fs"
  shows "relink (par_of fs) q q' s = Some (hangs q' fs s)"
  using relink_left [OF assms, of q'] unfolding relink_def by (simp only: eq_commute [of _ q])

lemma finish:
  assumes "tree_at s (plug fs t)" "rbt (plug fs (Nd c Tip y t)) \<or> rbt (plug fs (Nd c t y Tip))"
  shows "\<exists>s' t'. erase_finish (bit_of c) (ptr_of t) (par_of fs) s = Some s' \<and> tree_at s' t' \<and> rbt t' \<and> inord t' = inord (plug fs t)"
proof (cases c)
  case Red
  then have "rbt (plug fs t)" using assms(2) by (auto simp: rbt_plug)
  then show ?thesis using assms(1) Red by (auto simp: erase_finish_def RB_BLACK_def)
next
  case Black
  have "invc (paint t)" if "invc t" using that by (cases t) auto
  then have "era_at s fs t" using assms Black by (auto simp: era_at_def rbt_plug)
  from erase_color [OF this] show ?thesis using Black by (simp add: erase_finish_def RB_BLACK_def era_done_def)
qed

text \<open>A node is cut out and a subtree of its takes its place.\<close>

lemma cut_at:
  assumes "tree_at s (plug fs (Nd c l x r))" "t = l \<or> t = r"
  shows "tree_at (hangs (ptr_of t) fs (s\<lparr>nodes := setpar (par_of fs) t (nodes s)\<rparr>)) (plug fs t)"
proof -
  note at = assms(1) [unfolded tree_at_plug]
  have t: "rep (nodes s) x t" "distinct (inord t)" "set (inord t) \<inter> around fs = {}" using at assms(2) by auto
  have "repc (setpar (par_of fs) t (nodes s)) x fs"
    using at t by (subst repc_cong [of fs _ "nodes s"]) (auto simp: setpar_off)
  moreover have "rep (hang (ptr_of t) fs (setpar (par_of fs) t (nodes s))) (par_of fs) t"
    using rep_setpar [OF t(1,2)] t(3) by (subst rep_cong [of t _ "setpar (par_of fs) t (nodes s)"]) (auto simp: disjoint_iff)
  ultimately show ?thesis using at t by (auto simp: tree_at_plug repc_hang)
qed

lemma erase_leaf_run:
  assumes t: "tree_at s (plug fs (Nd c l x r))" and "u = l \<or> u = r"
  shows "\<exists>s'. erase_leaf x (ptr_of u) s = erase_finish (bit_of c) (ptr_of u) (par_of fs) s' \<and> tree_at s' (plug fs u)"
proof -
  note at = t [unfolded tree_at_plug]
  let ?s1 = "s\<lparr>nodes := setpar (par_of fs) u (nodes s)\<rparr>"
  have u: "rep (nodes s) x u" "set (inord u) \<inter> around fs = {}" using at assms(2) by auto
  have x: "aligned x" "x \<noteq> 0" "x \<notin> around fs" using at by auto
  have "repc (nodes ?s1) x fs" using at u by (subst repc_cong [of fs _ "nodes s"]) (auto simp: setpar_off)
  then have "relink (par_of fs) x (ptr_of u) ?s1 = Some (hangs (ptr_of u) fs ?s1)" using x(2,3) by (rule relink_hangs)
  then have "erase_leaf x (ptr_of u) s = erase_finish (bit_of c) (ptr_of u) (par_of fs) (hangs (ptr_of u) fs ?s1)"
    using tree_read [OF t] by (simp only: erase_leaf_def mk_simps Option.bind.bind_lunit set_parent_setpar [OF u(1) x(1)])
  then show ?thesis using cut_at [OF t assms(2)] by blast
qed

text \<open>A node takes the place of another one.\<close>

lemma replace_at:
  assumes t: "tree_at s (plug fs (Nd c l x r))" and y: "y \<noteq> 0" "aligned y" "y \<notin> set (inord l)" "y \<notin> set (inord r)" "y \<notin> around fs"
    and s': "\<And>z. nodes s' z = ((setpar y l (setpar y r (hang y fs (nodes s))))(y \<mapsto> mk (par_of fs) c (ptr_of l) (ptr_of r))) z"
    "rb_root s' = (if fs = [] then y else rb_root s)"
  shows "tree_at s' (plug fs (Nd c l y r))"
proof -
  note at = t [unfolded tree_at_plug]
  have d: "set (inord l) \<inter> set (inord r) = {}" "set (inord l) \<inter> around fs = {}" "set (inord r) \<inter> around fs = {}"
    using at by auto
  have "repc (hang y fs (nodes s)) y fs" using at by (auto intro: repc_hang)
  then have "repc (nodes s') y fs" using y d
    by (subst repc_cong [of fs _ "hang y fs (nodes s)"]) (auto simp: s' setpar_off)
  moreover have "rep (nodes s') y l"
    using rep_setpar [of "nodes s" x l y] at y d
    by (subst rep_cong [of l _ "setpar y l (nodes s)"]) (auto simp: s' setpar_def hang_other disjoint_iff split: rtree.split)
  moreover have "rep (nodes s') y r"
    using rep_setpar [of "nodes s" x r y] at y d
    by (subst rep_cong [of r _ "setpar y r (nodes s)"]) (auto simp: s' setpar_def hang_other disjoint_iff split: rtree.split)
  ultimately show ?thesis using at y d s' by (auto simp: tree_at_plug)
qed


text \<open>The way down to the leftmost node.\<close>

primrec is_FL :: "frame \<Rightarrow> bool" where
  "is_FL (FL c a r) \<longleftrightarrow> True"
| "is_FL (FR c l a) \<longleftrightarrow> False"

lemma leftmost_split:
  "rep h p t \<Longrightarrow> t \<noteq> Tip \<Longrightarrow>
   \<exists>ms c y r. t = plug ms (Nd c Tip y r) \<and> list_all is_FL ms \<and> leftmost h (ptr_of t) = Some y"
proof (induction t arbitrary: p)
  case (Nd c l a r)
  show ?case
  proof (cases "l = Tip")
    case True
    then show ?thesis using Nd.prems leftmost.simps [of h a] by (intro exI [of _ "[]"]) auto
  next
    case False
    then obtain ms c' y r' where "l = plug ms (Nd c' Tip y r')" "list_all is_FL ms" "leftmost h (ptr_of l) = Some y"
      using Nd.IH(1) [of a] Nd.prems by auto
    moreover have "leftmost h a = leftmost h (ptr_of l)"
      using Nd.prems False ptr_of_0 [of h a l] by (simp add: leftmost.simps [of h a])
    ultimately show ?thesis by (intro exI [of _ "ms @ [FL c a r]"]) (auto simp: plug_append)
  qed
qed simp

lemma before_FL: "list_all is_FL ms \<Longrightarrow> before ms = []"
proof (induction ms)
  case (Cons f ms)
  then show ?case by (cases f) auto
qed simp

lemma hang_off: "A \<inter> around fs = {} \<Longrightarrow> z \<in> A \<Longrightarrow> hang q fs h z = h z"
  by (rule hang_other) auto

lemma setpar_upd: "y \<notin> set (inord t) \<Longrightarrow> setpar p t (h(y \<mapsto> n)) = (setpar p t h)(y \<mapsto> n)"
  by (cases t) (auto simp: setpar_def fun_upd_twist)

lemma hang_upd: "y \<notin> around fs \<Longrightarrow> hang q fs (h(y \<mapsto> n)) = (hang q fs h)(y \<mapsto> n)"
  using faddr_around by (cases fs) (fastforce simp: hang_def simp del: around_simps intro: fun_upd_twist)+

lemma setpar_hang: "set (inord t) \<inter> around fs = {} \<Longrightarrow> setpar p t (hang q fs h) = hang q fs (setpar p t h)"
  using faddr_around
  by (cases t; cases fs) (fastforce simp: hang_def setpar_def simp del: around_simps intro: fun_upd_twist)+

lemma hang_hang: "par_of fs \<noteq> par_of gs \<Longrightarrow> hang q fs (hang q' gs h) = hang q' gs (hang q fs h)"
  by (cases fs; cases gs) (auto simp: hang_def fun_upd_twist)

lemma around_append: "around (fs @ gs) = around fs \<union> around gs"
proof (induction fs)
  case (Cons f fs)
  then show ?case by (cases f) auto
qed simp

text \<open>The successor is a child of the node.\<close>

lemma inner_run_child:
  assumes t: "tree_at s (plug fs (Nd c l x (Nd cy Tip y u)))" "l \<noteq> Tip"
  shows "\<exists>s'. erase_inner x s = erase_finish (bit_of cy) (ptr_of u) y s' \<and> tree_at s' (plug fs (Nd c l y u))"
proof -
  note at = t(1) [unfolded tree_at_plug, simplified]
  let ?h = "nodes s" and ?p = "par_of fs"
  define s1 where "s1 = hangs y fs s"
  have lm: "leftmost ?h y = Some y" using at by (simp add: leftmost.simps)
  have s1: "relink ?p x y s = Some s1" unfolding s1_def using at by (intro relink_hangs) auto
  have n1: "nodes s1 y = Some (mk x cy 0 (ptr_of u))" "nodes s1 x = Some (mk ?p c (ptr_of l) y)"
    using at by (auto simp: s1_def)
  define s6 where "s6 = s1\<lparr>nodes := (nodes s1)(y \<mapsto> mk ?p c 0 (ptr_of u))\<rparr>"
  define s7 where "s7 = s1\<lparr>nodes := (nodes s1)(y \<mapsto> mk ?p c (ptr_of l) (ptr_of u))\<rparr>"
  define s8 where "s8 = s7\<lparr>nodes := setpar y l (nodes s7)\<rparr>"
  have ne: "x \<noteq> y" "ptr_of l \<noteq> 0" "aligned x" "aligned ?p" using at t ptr_of_0 by (auto dest: repc_par_aligned)
  have d: "set (inord l) \<inter> around fs = {}" "set (inord l) \<inter> set (inord u) = {}" "set (inord u) \<inter> around fs = {}"
    using at by auto
  have "rep (nodes s7) x l" using at by (subst rep_cong [of l _ ?h]) (auto simp: s7_def s1_def disjoint_iff)
  then have s8: "rb_set_parent (ptr_of l) y s7 = Some s8"
    using set_parent_setpar [of s7 x l y] ne by (simp add: s8_def)
  have s6: "upd_node y (\<lambda>r. r\<lparr>rb_parent_color := pack ?p c\<rparr>) s1 = Some s6" using n1 by (simp add: upd_node_def s6_def)
  have s7: "set_left y (ptr_of l) s6 = Some s7" by (simp add: s6_def s7_def rb_simps)
  have n6: "nodes s6 x = Some (mk ?p c (ptr_of l) y)" "nodes s7 x = Some (mk ?p c (ptr_of l) y)"
    using n1 ne by (simp_all add: s6_def s7_def)
  have "erase_inner x s = erase_finish (bit_of cy) (ptr_of u) y s8"
    unfolding erase_inner_def Let_def using at lm s1 n1 ne s6 s7 s8 n6 by (simp add: mk_simps)
  moreover have "tree_at s8 (plug fs (Nd c l y u))"
  proof -
    have "repc (nodes s8) y fs" using at d
      by (subst repc_cong [of fs _ "hang y fs ?h"]) (auto simp: s8_def s7_def s1_def setpar_off repc_hang)
    moreover have "rep (nodes s8) y l" using rep_setpar [OF \<open>rep (nodes s7) x l\<close>, of y] at by (simp add: s8_def)
    moreover have "rep (nodes s8) y u" using at d
      by (subst rep_cong [of u _ ?h]) (auto simp: s8_def s7_def s1_def setpar_off hang_off)
    moreover have "nodes s8 y = Some (mk ?p c (ptr_of l) (ptr_of u))" using at by (simp add: s8_def s7_def)
    ultimately show ?thesis using at by (auto simp: tree_at_plug s8_def s7_def s1_def)
  qed
  ultimately show ?thesis by blast
qed


text \<open>The successor lies deeper.\<close>

lemma inner_run_deep:
  assumes t: "tree_at s (plug fs (Nd c l x (plug ms (Nd cy Tip y u))))" "l \<noteq> Tip" "ms = FL cm m rm # ms'"
    and lm: "leftmost (nodes s) (ptr_of (plug ms (Nd cy Tip y u))) = Some y"
  shows "\<exists>s'. erase_inner x s = erase_finish (bit_of cy) (ptr_of u) m s' \<and> tree_at s' (plug fs (Nd c l y (plug ms u)))"
proof -
  let ?h = "nodes s" and ?p = "par_of fs"
  define F where "F = ms @ FR c l x # fs"
  define r where "r = plug ms u"
  have ptr_r: "ptr_of (plug ms (Nd cy Tip y u)) = ptr_of r" using t(3) by (simp add: r_def ptr_of_plug)
  have F: "F = FL cm m rm # ms' @ FR c l x # fs" "par_of F = m" using t(3) by (simp_all add: F_def)
  have tF: "tree_at s (plug F (Nd cy Tip y u))" using t(1) by (simp add: F_def plug_append)
  note at = tF [unfolded tree_at_plug, simplified]
  define sA where "sA = hangs (ptr_of u) F (s\<lparr>nodes := setpar m u ?h\<rparr>)"
  have tA: "tree_at sA (plug fs (Nd c l x r))"
    using cut_at [OF tF, of u] unfolding F(2) sA_def [symmetric] by (simp add: r_def F_def plug_append)
  note atA = tA [unfolded tree_at_plug, simplified] and nA = tree_read [OF tA]
  have aF: "around F = around ms \<union> insert x (set (inord l) \<union> around fs)" by (simp add: F_def around_append)
  have ir: "set (inord r) = around ms \<union> set (inord u)" by (auto simp: r_def inord_plug around_def)
  have m: "m \<in> around ms" "m \<noteq> 0" "aligned m" using t(3) at F by auto
  have d: "y \<notin> around F" "y \<notin> set (inord u)" "y \<noteq> 0" "aligned y" "m \<notin> around fs" "m \<noteq> x" "m \<noteq> y" "m \<notin> set (inord u)"
    "x \<noteq> y" "x \<noteq> 0" "aligned x" "x \<notin> around fs" "x \<notin> set (inord r)" "x \<notin> set (inord l)" "set (inord u) \<inter> around fs = {}"
    "y \<notin> set (inord r)" "y \<notin> around fs" "y \<notin> set (inord l)"
    using at atA m by (auto simp: aF ir disjoint_iff)
  have "?p \<noteq> m" using d(5) m faddr_around by (cases fs) (auto simp del: around_simps)
  have eq: "hang (ptr_of u) F (setpar m u (hang y fs ?h)) = hang y fs (nodes sA)"
    using setpar_hang [OF d(15)] hang_hang [of F fs] F(2) \<open>?p \<noteq> m\<close> by (simp add: sA_def)
  define s1 where "s1 = hangs y fs s"
  define s2 where "s2 = s1\<lparr>nodes := setpar m u (nodes s1)\<rparr>"
  define s3 where "s3 = s2\<lparr>nodes := hang y fs (nodes sA)\<rparr>"
  define s4 where "s4 = s3\<lparr>nodes := (nodes s3)(y \<mapsto> mk m cy 0 (ptr_of r))\<rparr>"
  define s5 where "s5 = s4\<lparr>nodes := setpar y r (nodes s4)\<rparr>"
  define s6 where "s6 = s5\<lparr>nodes := (nodes s5)(y \<mapsto> mk ?p c 0 (ptr_of r))\<rparr>"
  define s7 where "s7 = s5\<lparr>nodes := (nodes s5)(y \<mapsto> mk ?p c (ptr_of l) (ptr_of r))\<rparr>"
  define s8 where "s8 = s7\<lparr>nodes := setpar y l (nodes s7)\<rparr>"
  note nF = tree_read [OF tF, unfolded F(2)]
  have n0: "nodes s x = Some (mk ?p c (ptr_of l) (ptr_of r))" using tree_read [OF t(1)] ptr_r by simp
  have e1: "relink ?p x y s = Some s1" unfolding s1_def
    using t(1) [unfolded tree_at_plug] d by (intro relink_hangs) auto
  have n1: "nodes s1 y = Some (mk m cy 0 (ptr_of u))" using nF d by (simp add: s1_def)
  have "rep (nodes s1) y u" using at d by (subst rep_cong [of u _ ?h]) (auto simp: s1_def hang_off)
  then have e2: "(if ptr_of u \<noteq> 0 then rb_set_parent (ptr_of u) m s1 else Some s1) = Some s2"
    unfolding s2_def using d by (intro set_parent_setpar) auto
  have "nodes s2 m = Some (mk (par_of (tl F)) cm y (ptr_of rm))"
    using at F d by (simp add: s2_def s1_def)
  then have e3: "set_left m (ptr_of u) s2 = Some s3"
    using eq F by (simp add: rb_simps s3_def s2_def s1_def hang_def)
  have n3: "nodes s3 y = Some (mk m cy 0 (ptr_of u))" using nF d by (simp add: s3_def sA_def)
  have nx: "nodes s3 x = Some (mk ?p c (ptr_of l) (ptr_of r))" using nA d by (simp add: s3_def)
  then have x: "nodes s4 x = nodes s3 x" "nodes s5 x = nodes s3 x" "nodes s6 x = nodes s3 x" "nodes s7 x = nodes s3 x"
    using d by (simp_all add: s4_def s5_def s6_def s7_def)
  have e4: "set_right y (ptr_of r) s3 = Some s4" using n3 by (simp add: rb_simps s4_def)
  have "rep (nodes s4) x r" using atA d by (subst rep_cong [of r _ "nodes sA"]) (auto simp: s4_def s3_def disjoint_iff)
  moreover have "ptr_of r \<noteq> 0" using atA m(1) ir ptr_of_0 [of "nodes sA" x r] by auto
  ultimately have e5: "rb_set_parent (ptr_of r) y s4 = Some s5"
    using set_parent_setpar [of s4 x r y] d by (simp add: s5_def)
  have e6: "upd_node y (\<lambda>n. n\<lparr>rb_parent_color := pack ?p c\<rparr>) s5 = Some s6"
    using d by (simp add: upd_node_def s6_def s5_def s4_def)
  have e7: "set_left y (ptr_of l) s6 = Some s7" by (simp add: rb_simps s6_def s7_def)
  have n7: "nodes s7 = (setpar y r (hang y fs (nodes sA)))(y \<mapsto> mk ?p c (ptr_of l) (ptr_of r))"
    using d by (simp add: s7_def s5_def s4_def s3_def setpar_upd)
  have "rep (nodes s7) x l" using atA d
    by (subst rep_cong [of l _ "nodes sA"]) (auto simp: n7 disjoint_iff)
  moreover have "ptr_of l \<noteq> 0" using atA ptr_of_0 t(2) by blast
  ultimately have e8: "rb_set_parent (ptr_of l) y s7 = Some s8"
    using set_parent_setpar [of s7 x l y] d by (simp add: s8_def)
  have "erase_inner x s = erase_finish (bit_of cy) (ptr_of u) m s8"
    unfolding erase_inner_def Let_def
    using d(6) by (simp only: mk_simps nA(2) d(10) m(3) rb_node.simps n0 lm [unfolded ptr_r] e1 n1 e2 e3 e4 e5 e6 e7 e8 nx x
        Option.bind.bind_lunit if_False prod.case)
  moreover have "tree_at s8 (plug fs (Nd c l y r))"
  proof (rule replace_at [OF tA])
    show "rb_root s8 = (if fs = [] then y else rb_root sA)"
      using F by (simp add: s8_def s7_def s5_def s4_def s3_def s2_def s1_def sA_def)
  qed (use d n7 in \<open>simp_all add: s8_def setpar_upd\<close>)
  ultimately show ?thesis by (auto simp: r_def)
qed


lemma find_node: "x \<in> set (inord t) \<Longrightarrow> \<exists>fs c l r. t = plug fs (Nd c l x r)"
proof (induction t)
  case (Nd c l a r)
  then consider "x = a" | "x \<in> set (inord l)" | "x \<in> set (inord r)" by auto
  then show ?case
  proof cases
    case 1
    then show ?thesis by (intro exI [of _ "[]"]) auto
  next
    case 2
    then obtain fs c' l' r' where "l = plug fs (Nd c' l' x r')" using Nd.IH(1) by blast
    then show ?thesis by (intro exI [of _ "fs @ [FL c a r]"]) (auto simp: plug_append)
  next
    case 3
    then obtain fs c' l' r' where "r = plug fs (Nd c' l' x r')" using Nd.IH(2) by blast
    then show ?thesis by (intro exI [of _ "fs @ [FR c l a]"]) (auto simp: plug_append)
  qed
qed simp

lemma ctx_ok_addr: "ctx_ok (ms @ FR c l x # fs) n = ctx_ok (ms @ FR c l y # fs) n \<and> pcol (ms @ FR c l x # fs) = pcol (ms @ FR c l y # fs)"
  by (induction ms arbitrary: n) auto

lemma rbt_addr: "rbt (plug (ms @ FR c l x # fs) t) = rbt (plug (ms @ FR c l y # fs) t)"
  using ctx_ok_addr [of ms c l x fs _ y] by (simp add: rbt_plug)

lemma erase_two:
  assumes t: "tree_at s (plug fs (Nd c l x r))" "rbt (plug fs (Nd c l x r))" and ne: "l \<noteq> Tip" "r \<noteq> Tip"
  shows "\<exists>s' t'. erase_inner x s = Some s' \<and> tree_at s' t' \<and> rbt t' \<and> inord t' = before fs @ inord l @ inord r @ behind fs"
proof -
  have "rep (nodes s) x r" using t(1) by (simp add: tree_at_plug)
  then obtain ms cy y u where r: "r = plug ms (Nd cy Tip y u)" "list_all is_FL ms" "leftmost (nodes s) (ptr_of r) = Some y"
    using leftmost_split ne(2) by blast
  let ?F = "ms @ FR c l y # fs"
  have "\<exists>s'. erase_inner x s = erase_finish (bit_of cy) (ptr_of u) (par_of ?F) s' \<and> tree_at s' (plug ?F u)"
  proof (cases ms)
    case Nil
    then show ?thesis using inner_run_child [of s fs c l x cy y u] t(1) r ne by simp
  next
    case (Cons f ms')
    then obtain cm m rm where "f = FL cm m rm" using r(2) by (cases f) auto
    then show ?thesis using inner_run_deep [of s fs c l x ms cy y u cm m rm ms'] t(1) r ne(1) Cons
      by (simp add: plug_append)
  qed
  then obtain s' where s': "erase_inner x s = erase_finish (bit_of cy) (ptr_of u) (par_of ?F) s'" "tree_at s' (plug ?F u)" by blast
  have "rbt (plug ?F (Nd cy Tip y u))" using t(2) r(1) rbt_addr [of ms c l x fs _ y] by (simp add: plug_append)
  then show ?thesis using finish [OF s'(2), of cy y] s'(1) r before_FL [OF r(2)] by (simp add: inord_plug plug_append)
qed

lemma erase_one:
  assumes t: "tree_at s (plug fs (Nd c l x r))" "rbt (plug fs (Nd c l x r))" and "l = Tip \<and> u = r \<or> r = Tip \<and> u = l"
  shows "\<exists>s' t'. erase_leaf x (ptr_of u) s = Some s' \<and> tree_at s' t' \<and> rbt t' \<and> inord t' = before fs @ inord l @ inord r @ behind fs"
proof -
  obtain s' where s': "erase_leaf x (ptr_of u) s = erase_finish (bit_of c) (ptr_of u) (par_of fs) s'" "tree_at s' (plug fs u)"
    using erase_leaf_run [OF t(1), of u] assms(3) by auto
  then show ?thesis using finish [OF s'(2), of c x] t(2) assms(3) by (auto simp: inord_plug)
qed

lemma erase_plug:
  assumes t: "tree_at s (plug fs (Nd c l x r))" "rbt (plug fs (Nd c l x r))"
  shows "\<exists>s' t'. rb_erase x s = Some s' \<and> tree_at s' t' \<and> rbt t' \<and> inord t' = before fs @ inord l @ inord r @ behind fs"
proof -
  note at = t(1) [unfolded tree_at_plug, simplified] and n = tree_read [OF t(1)]
  have p: "ptr_of l = 0 \<longleftrightarrow> l = Tip" "ptr_of r = 0 \<longleftrightarrow> r = Tip" using at ptr_of_0 by blast+
  consider "l = Tip" | "l \<noteq> Tip" "r = Tip" | "l \<noteq> Tip" "r \<noteq> Tip" by blast
  then show ?thesis
  proof cases
    case 1
    then show ?thesis using erase_one [OF t, of r] n p by (simp add: rb_erase_def)
  next
    case 2
    then show ?thesis using erase_one [OF t, of l] n p by (simp add: rb_erase_def)
  next
    case 3
    then show ?thesis using erase_two [OF t] n p by (simp add: rb_erase_def)
  qed
qed

text \<open>
  C33. Removal: \<^verbatim>\<open>rb_erase\<close> of any node of a red-black tree returns, the result is a red-black tree
  again, and its nodes in order are the old ones without the node.
\<close>

theorem rb_erase_balanced:
  assumes "rb_holds s xs" "x \<in> set xs"
  shows "\<exists>s'. rb_erase x s = Some s' \<and> rb_holds s' (remove1 x xs)"
proof -
  obtain t where at: "tree_at s t" "rbt t" "inord t = xs" using assms(1) by (auto simp: rb_holds_def)
  then obtain fs c l r where t: "t = plug fs (Nd c l x r)" using find_node assms(2) by blast
  have "x \<notin> set (before fs)" "x \<notin> set (inord l)" using at(1) t by (auto simp: tree_at_def inord_plug)
  then show ?thesis using erase_plug [of s fs c l x r] at t by (fastforce simp: inord_plug remove1_append)
qed

theorem rb_erase_balanced_witness: "\<exists>s'. rb_erase 4 rb_demo = Some s' \<and> rb_holds s' [8, 12, 16]"
  using rb_erase_balanced [of rb_demo "[4, 8, 12, 16]" 4] rb_demo by auto

end
