(* ===== verification/Lib_Rbwalk.thy ===== *)
theory Lib_Rbwalk
  imports Lib_Rberase
begin

text \<open>
  Walking through a red-black tree in order, forwards and backwards, and the replacement of a node.
  The loop of a client is stated over an interface for both directions.
\<close>

section \<open>Walking\<close>

definition hd0 :: "32 word list \<Rightarrow> 32 word" where "hd0 xs = (case xs of [] \<Rightarrow> 0 | x # _ \<Rightarrow> x)"

lemma hd0_simps [simp]: "hd0 [] = 0" "hd0 (x # xs) = x" "xs \<noteq> [] \<Longrightarrow> hd0 (xs @ ys) = hd0 xs"
  by (auto simp: hd0_def split: list.splits)

lemma leftmost_hd: "rep h p t \<Longrightarrow> t \<noteq> Tip \<Longrightarrow> leftmost h (ptr_of t) = Some (hd0 (inord t))"
  using leftmost_split [of h p t] before_FL by (auto simp: inord_plug)

lemma inord_Tip [simp]: "inord t = [] \<longleftrightarrow> t = Tip"
  by (cases t) auto

lemma rightmost_last: "rep h p t \<Longrightarrow> t \<noteq> Tip \<Longrightarrow> rightmost h (ptr_of t) = Some (hd0 (rev (inord t)))"
proof (induction t arbitrary: p)
  case (Nd c l a r)
  show ?case
  proof (cases "r = Tip")
    case True
    then show ?thesis using Nd.prems by (simp add: rightmost.simps [of h a])
  next
    case False
    then show ?thesis using Nd.IH(2) [of a] Nd.prems ptr_of_0 [of h a r] by (simp add: rightmost.simps [of h a])
  qed
qed simp

lemma climb_right_run: "tree_at s (plug fs t) \<Longrightarrow> t \<noteq> Tip \<Longrightarrow> climb_right (nodes s) (ptr_of t) = Some (hd0 (behind fs))"
proof (induction fs arbitrary: t)
  case Nil
  then show ?case using tree_read [of s "[]"] by (cases t) (simp_all add: climb_right.simps rb_simps)
next
  case (Cons f fs)
  obtain c l a r where t: "t = Nd c l a r" using Cons.prems(2) by (cases t) auto
  note n = tree_read [of s "f # fs", OF Cons.prems(1) [unfolded t]] tree_read_par [OF Cons.prems(1)]
  show ?case
  proof (cases f)
    case (FL cp p pr)
    then have "a \<noteq> ptr_of pr" using Cons.prems(1) t ptr_of_in [of pr] by (auto simp: tree_at_plug)
    then show ?thesis using n FL t by (simp add: climb_right.simps [of _ a] rb_simps)
  next
    case (FR cp pl p)
    then show ?thesis using n t Cons.IH [of "up f t"] Cons.prems(1) by (simp add: climb_right.simps [of _ a] rb_simps)
  qed
qed

lemma climb_left_run: "tree_at s (plug fs t) \<Longrightarrow> t \<noteq> Tip \<Longrightarrow> climb_left (nodes s) (ptr_of t) = Some (hd0 (rev (before fs)))"
proof (induction fs arbitrary: t)
  case Nil
  then show ?case using tree_read [of s "[]"] by (cases t) (simp_all add: climb_left.simps rb_simps)
next
  case (Cons f fs)
  obtain c l a r where t: "t = Nd c l a r" using Cons.prems(2) by (cases t) auto
  note n = tree_read [of s "f # fs", OF Cons.prems(1) [unfolded t]] tree_read_par [OF Cons.prems(1)]
  show ?case
  proof (cases f)
    case (FR cp pl p)
    then have "a \<noteq> ptr_of pl" using Cons.prems(1) t ptr_of_in [of pl] by (auto simp: tree_at_plug)
    then show ?thesis using n FR t by (simp add: climb_left.simps [of _ a] rb_simps)
  next
    case (FL cp p pr)
    then show ?thesis using n t Cons.IH [of "up f t"] Cons.prems(1) by (simp add: climb_left.simps [of _ a] rb_simps)
  qed
qed

lemma split_unique: "distinct (xs @ x # ys) \<Longrightarrow> xs @ x # ys = xs' @ x # ys' \<Longrightarrow> xs = xs' \<and> ys = ys'"
  by (metis append_Cons_eq_iff distinct_append distinct.simps(2) not_distinct_conv_prefix)

lemma split_at:
  assumes "tree_at s (plug fs (Nd c l x r))" "inord (plug fs (Nd c l x r)) = xs @ x # ys"
  shows "xs = before fs @ inord l \<and> ys = inord r @ behind fs"
  using split_unique [of "before fs @ inord l" x "inord r @ behind fs" xs ys] assms
  by (simp add: tree_at_def inord_plug)

lemma par_not_self: "tree_at s (plug fs (Nd c l x r)) \<Longrightarrow> par_of fs \<noteq> x"
  using faddr_around by (cases fs) (auto simp: tree_at_plug simp del: plug.simps around_simps)

lemma rb_step:
  assumes t: "tree_at s t" and xs: "inord t = xs @ x # ys"
  shows "rb_next (nodes s) x = Some (hd0 ys) \<and> rb_prev (nodes s) x = Some (hd0 (rev xs))"
proof -
  have "x \<in> set (inord t)" using xs by simp
  then obtain fs c l r where p: "t = plug fs (Nd c l x r)" using find_node by blast
  note t' = t [unfolded p] and at = t [unfolded p tree_at_plug, simplified]
  have b: "xs = before fs @ inord l" "ys = inord r @ behind fs"
    using split_at [OF t', of xs ys] xs p by simp_all
  note n = tree_read [OF t'] par_not_self [OF t']
  have z: "ptr_of l = 0 \<longleftrightarrow> l = Tip" "ptr_of r = 0 \<longleftrightarrow> r = Tip" using at ptr_of_0 by blast+
  have "rb_next (nodes s) x = Some (hd0 ys)"
    using n z climb_right_run [OF t'] leftmost_hd [of "nodes s" x r] at
    by (cases "r = Tip") (auto simp: rb_next_def rb_simps b)
  moreover have "rb_prev (nodes s) x = Some (hd0 (rev xs))"
    using n z climb_left_run [OF t'] rightmost_last [of "nodes s" x l] at
    by (cases "l = Tip") (auto simp: rb_prev_def rb_simps b)
  ultimately show ?thesis by blast
qed

lemma rb_ends:
  assumes "tree_at s t"
  shows "rb_first s = Some (hd0 (inord t)) \<and> rb_last s = Some (hd0 (rev (inord t)))"
  using assms leftmost_hd [of "nodes s" 0 t] rightmost_last [of "nodes s" 0 t] ptr_of_0 [of "nodes s" 0 t]
  by (cases "t = Tip") (auto simp: rb_first_def rb_last_def tree_at_def)

lemma setpar_comm: "set (inord t) \<inter> set (inord u) = {} \<Longrightarrow> setpar p t (setpar q u h) = setpar q u (setpar p t h)"
  by (cases t; cases u) (auto simp: setpar_def fun_upd_twist)

lemma replace_plug:
  assumes t: "tree_at s (plug fs (Nd c l x r))" and y: "nodes s y = Some n" "y \<noteq> 0" "aligned y" "y \<notin> set (inord (plug fs (Nd c l x r)))"
  shows "\<exists>s'. rb_replace_node x y s = Some s' \<and> tree_at s' (plug fs (Nd c l y r))"
proof -
  note at = t [unfolded tree_at_plug, simplified]
  have d: "y \<notin> set (inord l)" "y \<notin> set (inord r)" "y \<notin> around fs" "x \<noteq> y"
    "set (inord l) \<inter> set (inord r) = {}" "set (inord r) \<inter> around fs = {}"
    using y(4) at by (auto simp: inord_plug around_def)
  define s1 where "s1 = hangs y fs s"
  define s2 where "s2 = s1\<lparr>nodes := setpar y l (nodes s1)\<rparr>"
  define s3 where "s3 = s2\<lparr>nodes := setpar y r (nodes s2)\<rparr>"
  have e1: "relink (par_of fs) x y s = Some s1" unfolding s1_def using at by (intro relink_hangs) auto
  have "rep (nodes s1) x l" using at by (subst rep_cong [of l _ "nodes s"]) (auto simp: s1_def disjoint_iff)
  then have e2: "(if ptr_of l \<noteq> 0 then rb_set_parent (ptr_of l) y s1 else Some s1) = Some s2"
    unfolding s2_def using at by (intro set_parent_setpar) auto
  have "rep (nodes s2) x r" using at d by (subst rep_cong [of r _ "nodes s"]) (auto simp: s2_def s1_def setpar_off hang_off)
  then have e3: "(if ptr_of r \<noteq> 0 then rb_set_parent (ptr_of r) y s2 else Some s2) = Some s3"
    unfolding s3_def using at by (intro set_parent_setpar) auto
  have x: "nodes s1 x = nodes s x" "nodes s2 x = nodes s x" "nodes s3 x = nodes s x" "nodes s3 y = nodes s y"
    using at d by (auto simp: s3_def s2_def s1_def)
  have "rb_replace_node x y s = Some (s3\<lparr>nodes := (nodes s3)(y \<mapsto> mk (par_of fs) c (ptr_of l) (ptr_of r))\<rparr>)"
    unfolding rb_replace_node_def
    by (simp only: x y(1) tree_read(1) [OF t] e1 e2 e3 mk_simps(1) [OF tree_read(2) [OF t]] rb_node.simps Option.bind.bind_lunit upd_node_def)
  moreover have "tree_at (s3\<lparr>nodes := (nodes s3)(y \<mapsto> mk (par_of fs) c (ptr_of l) (ptr_of r))\<rparr>) (plug fs (Nd c l y r))"
    by (rule replace_at [OF t y(2,3) d(1-3)]) (use setpar_comm [OF d(5)] in \<open>auto simp: s3_def s2_def s1_def\<close>)
  ultimately show ?thesis by blast
qed


section \<open>The loop of a client\<close>

text \<open>\<^verbatim>\<open>for (n = first(); n; n = next(n))\<close>, with the nodes it comes to.\<close>

partial_function (option) visit :: "(32 word \<Rightarrow> 32 word option) \<Rightarrow> 32 word \<Rightarrow> 32 word list option" where
  "visit nxt n = (if n = 0 then Some [] else do { m \<leftarrow> nxt n; ms \<leftarrow> visit nxt m; Some (n # ms) })"

locale in_order =
  fixes repr :: "rb_state \<Rightarrow> 32 word list \<Rightarrow> bool"
    and first :: "rb_state \<Rightarrow> 32 word option"
    and nxt :: "rb_heap \<Rightarrow> 32 word \<Rightarrow> 32 word option"
  assumes first_law: "repr s xs \<Longrightarrow> first s = Some (hd0 xs)"
    and next_law: "repr s (xs @ x # ys) \<Longrightarrow> nxt (nodes s) x = Some (hd0 ys)"
    and no_null: "repr s xs \<Longrightarrow> 0 \<notin> set xs"
begin

lemma visit_rest: "repr s (xs @ ys) \<Longrightarrow> visit (nxt (nodes s)) (hd0 ys) = Some ys"
proof (induction ys arbitrary: xs)
  case Nil
  show ?case by (simp add: visit.simps)
next
  case (Cons y ys)
  have "y \<noteq> 0" using no_null [OF Cons.prems] by auto
  moreover have "visit (nxt (nodes s)) (hd0 ys) = Some ys" using Cons.IH [of "xs @ [y]"] Cons.prems by simp
  ultimately show ?case using next_law [OF Cons.prems] by (simp add: visit.simps [of _ y])
qed

lemma visit_all: "repr s xs \<Longrightarrow> Option.bind (first s) (visit (nxt (nodes s))) = Some xs"
  using first_law visit_rest [of s "[]" xs] by simp

end

definition tree_list :: "rb_state \<Rightarrow> 32 word list \<Rightarrow> bool" where
  "tree_list s xs \<longleftrightarrow> (\<exists>t. tree_at s t \<and> inord t = xs)"

lemma tree_no_null: "tree_at s t \<Longrightarrow> 0 \<notin> set (inord t)"
  by (auto simp: tree_at_def dest: rep_nonzero)

interpretation fwd: in_order tree_list rb_first rb_next
  by unfold_locales (auto simp: tree_list_def dest: tree_no_null rb_ends rb_step)

interpretation bwd: in_order "\<lambda>s xs. tree_list s (rev xs)" rb_last rb_prev
proof
  show "0 \<notin> set xs" if "tree_list s (rev xs)" for s xs
    using that tree_no_null by (auto simp: tree_list_def) (metis in_set_conv_decomp set_rev)
qed (auto simp: tree_list_def dest: rb_ends rb_step)

lemma holds_list: "rb_holds s xs \<Longrightarrow> tree_list s xs"
  by (auto simp: rb_holds_def tree_list_def)

text \<open>
  C34. The walk: starting at \<^verbatim>\<open>rb_first\<close> and going on with \<^verbatim>\<open>rb_next\<close>, a loop comes to every node of the
  tree once, in order, and ends; with \<^verbatim>\<open>rb_last\<close> and \<^verbatim>\<open>rb_prev\<close> it does so in reverse order.
\<close>

theorem rb_walk:
  assumes "rb_holds s xs"
  shows "Option.bind (rb_first s) (visit (rb_next (nodes s))) = Some xs \<and>
    Option.bind (rb_last s) (visit (rb_prev (nodes s))) = Some (rev xs)"
  using fwd.visit_all [OF holds_list [OF assms]] bwd.visit_all [of s "rev xs"] holds_list [OF assms] by simp

theorem rb_walk_witness:
  "Option.bind (rb_first rb_demo) (visit (rb_next (nodes rb_demo))) = Some [4, 8, 12, 16] \<and>
   Option.bind (rb_last rb_demo) (visit (rb_prev (nodes rb_demo))) = Some [16, 12, 8, 4]"
  using rb_walk [of rb_demo "[4, 8, 12, 16]"] rb_demo by auto

text \<open>
  Replacement: \<^verbatim>\<open>rb_replace_node\<close> puts a node from outside in the place of a node of the tree, in
  the order and in the balance of the tree, without moving any other node.
\<close>

theorem rb_replace_in_place:
  assumes "rb_holds s (xs @ x # ys)" "nodes s y \<noteq> None" "y \<noteq> 0" "aligned y" "y \<notin> set (xs @ x # ys)"
  shows "\<exists>s'. rb_replace_node x y s = Some s' \<and> rb_holds s' (xs @ y # ys)"
proof -
  obtain t where at: "tree_at s t" "rbt t" "inord t = xs @ x # ys" using assms(1) by (auto simp: rb_holds_def)
  then obtain fs c l r where t: "t = plug fs (Nd c l x r)" using find_node [of x t] by auto
  have b: "xs = before fs @ inord l" "ys = inord r @ behind fs"
    using split_at [of s fs c l x r xs ys] at t by simp_all
  obtain s' where "rb_replace_node x y s = Some s'" "tree_at s' (plug fs (Nd c l y r))"
    using replace_plug [of s fs c l x r y] at t assms(2-5) by auto
  moreover have "rbt (plug fs (Nd c l y r))" using at(2) t by (simp add: rbt_plug)
  ultimately show ?thesis using b by (auto simp: inord_plug)
qed

theorem rb_replace_in_place_witness: "\<exists>s'. rb_replace_node 8 24 rb_demo = Some s' \<and> rb_holds s' [4, 24, 12, 16]"
  using rb_replace_in_place [of rb_demo "[4]" 8 "[12, 16]" 24] rb_demo
  by (auto simp: aligned_def) (auto simp: rb_demo_def)


section \<open>Augmented trees\<close>

text \<open>
  \<^verbatim>\<open>rb_augment_path\<close> calls the function at the node, at its sibling, at the parent, at the sibling of
  the parent and so on up to the root. Below a parent with no other child a left child is visited a
  second time, and a right child with no sibling once.
\<close>

primrec touched :: "frame list \<Rightarrow> rtree \<Rightarrow> 32 word list" where
  "touched [] t = [ptr_of t]"
| "touched (f # fs) t =
     ptr_of t # (case f of FL c a r \<Rightarrow> [if r = Tip then ptr_of t else ptr_of r]
                 | FR c l a \<Rightarrow> (if l = Tip then [] else [ptr_of l])) @ touched fs (up f t)"

lemma augment_path_run:
  "tree_at s (plug fs t) \<Longrightarrow> t \<noteq> Tip \<Longrightarrow> rb_augment_path func (nodes s) (ptr_of t) d = Some (fold func (touched fs t) d)"
proof (induction fs arbitrary: t d)
  case Nil
  then show ?case using tree_read [of s "[]"] by (cases t) (simp_all add: rb_augment_path.simps rb_simps)
next
  case (Cons f fs)
  obtain c l a r where t: "t = Nd c l a r" using Cons.prems(2) by (cases t) auto
  note n = tree_read [of s "f # fs", OF Cons.prems(1) [unfolded t]] tree_read_par [OF Cons.prems(1)]
  have up: "up f t \<noteq> Tip" "tree_at s (plug fs (up f t))" using Cons.prems by (cases f; simp)+
  show ?case
  proof (cases f)
    case (FL cp p pr)
    have "ptr_of pr = 0 \<longleftrightarrow> pr = Tip" using Cons.prems(1) FL ptr_of_0 by (auto simp: tree_at_plug)
    then show ?thesis using n FL t Cons.IH [OF up(2,1)] by (simp add: rb_augment_path.simps [of _ _ a] rb_simps)
  next
    case (FR cp pl p)
    have "ptr_of pl = 0 \<longleftrightarrow> pl = Tip" "a \<noteq> ptr_of pl"
      using Cons.prems(1) FR t ptr_of_0 ptr_of_in [of pl] by (auto simp: tree_at_plug)
    then show ?thesis using n FR t Cons.IH [OF up(2,1)] by (simp add: rb_augment_path.simps [of _ _ a] rb_simps)
  qed
qed

text \<open>A node that \<^verbatim>\<open>rb_init_node\<close> has set up is in no tree, and has no successor.\<close>

lemma init_node_empty:
  assumes "nodes s a \<noteq> None" "aligned a"
  shows "\<exists>s'. rb_init_node a s = Some s' \<and> RB_EMPTY_NODE a s' = Some True \<and> rb_next (nodes s') a = Some 0 \<and> rb_prev (nodes s') a = Some 0"
proof -
  have "rb_parent n = a" if "rb_parent_color n = a" for n
    using that pack_parent [OF assms(2), of Red] by (simp add: pack_Red rb_parent_def)
  then show ?thesis using assms(1)
    by (auto simp: rb_init_node_def RB_CLEAR_NODE_def rb_set_parent_def upd_node_def RB_EMPTY_NODE_def rb_next_def rb_prev_def)
qed

end
