(* ===== verification/Lib_Bitops.thy ===== *)
theory Lib_Bitops
  imports Lib_Div64
begin

text \<open>
  Bit operations, logarithms, rounding and byte order (\<^verbatim>\<open>include/rosx/bitops.h\<close>,
  \<^verbatim>\<open>include/asm-generic/bitops/\<close>, \<^verbatim>\<open>include/rosx/log2.h\<close>, the rounding macros of
  \<^verbatim>\<open>include/rosx/kernel.h\<close>, \<^verbatim>\<open>include/rosx/byteorder/swab.h\<close>), for the 32-bit \<^verbatim>\<open>long\<close>. The macros
  are modelled at the type the name says or, where they take any type, at \<^verbatim>\<open>unsigned long\<close>. Where the
  x86 port has an instruction instead (\<^verbatim>\<open>bsf\<close> for \<^verbatim>\<open>__ffs\<close>, \<^verbatim>\<open>bswap\<close>) the generic C code is taken. The
  searches by halves and the counting by parallel additions are shown against the bits of the word.
\<close>

unbundle bit_operations_syntax

section \<open>Definitions\<close>

definition BITS_PER_LONG :: nat where "BITS_PER_LONG = 32"

definition BIT_MASK :: "nat \<Rightarrow> 32 word" where "BIT_MASK nr = push_bit (nr mod BITS_PER_LONG) 1"
definition BIT_WORD :: "nat \<Rightarrow> nat" where "BIT_WORD nr = nr div BITS_PER_LONG"

definition GENMASK :: "nat \<Rightarrow> nat \<Rightarrow> 32 word" where
  "GENMASK h l = push_bit l (NOT 0) AND drop_bit (BITS_PER_LONG - 1 - h) (NOT 0)"

text \<open>
  One of the five steps of \<^verbatim>\<open>generic_ffs\<close>, whose \<^verbatim>\<open>int\<close> is shifted with its sign, and of the generic
  \<^verbatim>\<open>__ffs\<close>, whose \<^verbatim>\<open>unsigned long\<close> is not. The last step of \<^verbatim>\<open>__ffs\<close> and \<^verbatim>\<open>__fls\<close> leaves out the shift
  of a word that is not read any more.
\<close>

definition ffs_step :: "(nat \<Rightarrow> 32 word \<Rightarrow> 32 word) \<Rightarrow> nat \<Rightarrow> 32 word \<times> nat \<Rightarrow> 32 word \<times> nat" where
  "ffs_step shr k xr = (case xr of (x, r) \<Rightarrow> if x AND mask k = 0 then (shr k x, r + k) else (x, r))"

definition generic_ffs :: "32 word \<Rightarrow> nat" where
  "generic_ffs x =
     (if x = 0 then 0
      else snd (ffs_step signed_drop_bit 1 (ffs_step signed_drop_bit 2 (ffs_step signed_drop_bit 4
             (ffs_step signed_drop_bit 8 (ffs_step signed_drop_bit 16 (x, 1)))))))"

definition ffs_generic :: "32 word \<Rightarrow> nat" where
  "ffs_generic word =
     snd (ffs_step drop_bit 1 (ffs_step drop_bit 2 (ffs_step drop_bit 4
       (ffs_step drop_bit 8 (ffs_step drop_bit 16 (word, 0))))))"

definition fls_generic :: "32 word \<Rightarrow> nat" where
  "fls_generic word =
     snd (fls_step 1 (fls_step 2 (fls_step 4 (fls_step 8 (fls_step 16 (word, BITS_PER_LONG - 1))))))"

definition fls64 :: "64 word \<Rightarrow> nat" where
  "fls64 x = (let h = ucast (drop_bit 32 x) :: 32 word in if h \<noteq> 0 then generic_fls h + 32 else generic_fls (ucast x))"

definition fls_long :: "32 word \<Rightarrow> nat" where "fls_long l = generic_fls l"

definition ffs64 :: "64 word \<Rightarrow> nat" where
  "ffs64 word = (if (ucast word :: 32 word) = 0 then ffs_generic (ucast (drop_bit 32 word)) + 32 else ffs_generic (ucast word))"

definition generic_hweight32 :: "32 word \<Rightarrow> 32 word" where
  "generic_hweight32 w =
     (let res = (w AND 0x55555555) + (drop_bit 1 w AND 0x55555555);
          res = (res AND 0x33333333) + (drop_bit 2 res AND 0x33333333);
          res = (res AND 0x0F0F0F0F) + (drop_bit 4 res AND 0x0F0F0F0F);
          res = (res AND 0x00FF00FF) + (drop_bit 8 res AND 0x00FF00FF)
      in (res AND 0x0000FFFF) + (drop_bit 16 res AND 0x0000FFFF))"

definition generic_hweight16 :: "32 word \<Rightarrow> 32 word" where
  "generic_hweight16 w =
     (let res = (w AND 0x5555) + (drop_bit 1 w AND 0x5555);
          res = (res AND 0x3333) + (drop_bit 2 res AND 0x3333);
          res = (res AND 0x0F0F) + (drop_bit 4 res AND 0x0F0F)
      in (res AND 0x00FF) + (drop_bit 8 res AND 0x00FF))"

definition generic_hweight8 :: "32 word \<Rightarrow> 32 word" where
  "generic_hweight8 w =
     (let res = (w AND 0x55) + (drop_bit 1 w AND 0x55);
          res = (res AND 0x33) + (drop_bit 2 res AND 0x33)
      in (res AND 0x0F) + (drop_bit 4 res AND 0x0F))"

text \<open>Bits of an array of \<^verbatim>\<open>long\<close>s.\<close>

definition generic_set_bit :: "nat \<Rightarrow> (nat \<Rightarrow> 32 word) \<Rightarrow> nat \<Rightarrow> 32 word" where
  "generic_set_bit nr a = a(BIT_WORD nr := a (BIT_WORD nr) OR BIT_MASK nr)"

definition generic_clear_bit :: "nat \<Rightarrow> (nat \<Rightarrow> 32 word) \<Rightarrow> nat \<Rightarrow> 32 word" where
  "generic_clear_bit nr a = a(BIT_WORD nr := a (BIT_WORD nr) AND NOT (BIT_MASK nr))"

definition constant_test_bit :: "nat \<Rightarrow> (nat \<Rightarrow> 32 word) \<Rightarrow> bool" where
  "constant_test_bit nr a \<longleftrightarrow> push_bit (nr AND 31) 1 AND a (drop_bit 5 nr) \<noteq> 0"

text \<open>Logarithms. \<^verbatim>\<open>____ilog2_NaN\<close> does not return. A shift by the width of the type is undefined.\<close>

definition ilog2_u32 :: "32 word \<Rightarrow> int" where "ilog2_u32 n = int (generic_fls n) - 1"
definition ilog2_u64 :: "64 word \<Rightarrow> int" where "ilog2_u64 n = int (fls64 n) - 1"

definition constant_ilog2 :: "64 word \<Rightarrow> nat option" where
  "constant_ilog2 n = (if n < 1 then None else find (\<lambda>i. n AND push_bit i 1 \<noteq> 0) (rev [0..<64]))"

definition is_power_of_2 :: "32 word \<Rightarrow> bool" where
  "is_power_of_2 n \<longleftrightarrow> n \<noteq> 0 \<and> n AND (n - 1) = 0"

definition shift_left_1 :: "nat \<Rightarrow> 32 word option" where
  "shift_left_1 k = (if k < BITS_PER_LONG then Some (push_bit k 1) else None)"

definition roundup_pow_of_two :: "32 word \<Rightarrow> 32 word option" where
  "roundup_pow_of_two n = shift_left_1 (fls_long (n - 1))"

definition rounddown_pow_of_two :: "32 word \<Rightarrow> 32 word option" where
  "rounddown_pow_of_two n = (if n = 0 then None else shift_left_1 (fls_long n - 1))"

definition order_base_2 :: "32 word \<Rightarrow> int option" where
  "order_base_2 n = map_option ilog2_u32 (roundup_pow_of_two n)"

text \<open>Rounding to multiples.\<close>

definition ALIGN_MASK :: "32 word \<Rightarrow> 32 word \<Rightarrow> 32 word" where "ALIGN_MASK x m = (x + m) AND NOT m"
definition ALIGN :: "32 word \<Rightarrow> 32 word \<Rightarrow> 32 word" where "ALIGN x a = ALIGN_MASK x (a - 1)"
definition IS_ALIGNED :: "32 word \<Rightarrow> 32 word \<Rightarrow> bool" where "IS_ALIGNED x a \<longleftrightarrow> x AND (a - 1) = 0"
definition round_mask :: "32 word \<Rightarrow> 32 word" where "round_mask y = y - 1"
definition round_up :: "32 word \<Rightarrow> 32 word \<Rightarrow> 32 word" where "round_up x y = ((x - 1) OR round_mask y) + 1"
definition roundup :: "32 word \<Rightarrow> 32 word \<Rightarrow> 32 word" where "roundup x y = ((x + (y - 1)) div y) * y"

text \<open>Byte swaps. On x86 the 64-bit swap goes through two of 32 bits.\<close>

definition swab16 :: "16 word \<Rightarrow> 16 word" where
  "swab16 x = push_bit 8 (x AND 0x00ff) OR drop_bit 8 (x AND 0xff00)"

definition swab32 :: "32 word \<Rightarrow> 32 word" where
  "swab32 x = push_bit 24 (x AND 0x000000ff) OR push_bit 8 (x AND 0x0000ff00) OR
     drop_bit 8 (x AND 0x00ff0000) OR drop_bit 24 (x AND 0xff000000)"

definition swab64 :: "64 word \<Rightarrow> 64 word" where
  "swab64 x = push_bit 56 (x AND 0x00000000000000ff) OR push_bit 40 (x AND 0x000000000000ff00) OR
     push_bit 24 (x AND 0x0000000000ff0000) OR push_bit 8 (x AND 0x00000000ff000000) OR
     drop_bit 8 (x AND 0x000000ff00000000) OR drop_bit 24 (x AND 0x0000ff0000000000) OR
     drop_bit 40 (x AND 0x00ff000000000000) OR drop_bit 56 (x AND 0xff00000000000000)"

definition fswab64 :: "64 word \<Rightarrow> 64 word" where
  "fswab64 x =
     (let h = ucast (drop_bit 32 x) :: 32 word; l = ucast (x AND (push_bit 32 1 - 1)) :: 32 word
      in push_bit 32 (ucast (swab32 l)) OR ucast (swab32 h))"


section \<open>Counting bits\<close>

text \<open>A number as fields of \<open>k\<close> bits, the lowest first.\<close>

primrec fields :: "nat \<Rightarrow> nat list \<Rightarrow> nat" where
  "fields k [] = 0"
| "fields k (f # fs) = f + 2 ^ k * fields k fs"

fun pairs :: "nat list \<Rightarrow> nat list" where
  "pairs (a # b # fs) = (a + b) # pairs fs"
| "pairs fs = fs"

fun evens :: "nat list \<Rightarrow> nat list" where
  "evens (a # b # fs) = a # evens fs"
| "evens fs = fs"

lemma split_and:
  fixes x m y z :: nat
  assumes "x < 2 ^ j" "m < 2 ^ j"
  shows "(x + 2 ^ j * y) AND (m + 2 ^ j * z) = (x AND m) + 2 ^ j * (y AND z)"
proof -
  have t: "take_bit j (a + 2 ^ j * b) = a" "drop_bit j (a + 2 ^ j * b) = b" if "a < 2 ^ j" for a b :: nat
    using that by (simp_all add: take_bit_eq_mod drop_bit_eq_div)
  have "x AND m < 2 ^ j" using assms by (metis and_nat_def less_trans nat_le_iff and_less_eq take_bit_nat_eq_self_iff take_bit_and)
  then have "take_bit j ((x + 2 ^ j * y) AND (m + 2 ^ j * z)) = take_bit j ((x AND m) + 2 ^ j * (y AND z))"
    and "drop_bit j ((x + 2 ^ j * y) AND (m + 2 ^ j * z)) = drop_bit j ((x AND m) + 2 ^ j * (y AND z))"
    using t assms by (simp_all add: take_bit_and drop_bit_and)
  then show ?thesis by (metis bits_ident)
qed

lemma fields_bound: "(\<forall>f\<in>set fs. f < 2 ^ k) \<Longrightarrow> fields k fs < 2 ^ (k * length fs)"
proof (induction fs)
  case (Cons f fs)
  then have "f < 2 ^ k" "fields k fs + 1 \<le> 2 ^ (k * length fs)" by auto
  then have "f + 2 ^ k * fields k fs < 2 ^ k * (fields k fs + 1)" by simp
  also have "\<dots> \<le> 2 ^ k * 2 ^ (k * length fs)" using \<open>fields k fs + 1 \<le> _\<close> by (rule mult_le_mono2)
  finally show ?case by (simp add: power_add)
qed simp

lemma fields_and:
  "(\<forall>f\<in>set fs. f < 2 ^ k) \<Longrightarrow> length fs = 2 * n \<Longrightarrow>
   fields k fs AND fields (2 * k) (replicate n (2 ^ k - 1)) = fields (2 * k) (evens fs)"
proof (induction fs arbitrary: n rule: evens.induct)
  case (1 a b fs)
  then obtain n' where n: "n = Suc n'" "length fs = 2 * n'" by (cases n) auto
  have ab: "a < 2 ^ k" "b < 2 ^ k" using 1(2) by simp_all
  have "b + 1 \<le> 2 ^ k" using ab by simp
  then have "2 ^ k * (b + 1) \<le> 2 ^ k * (2 ^ k :: nat)" by (rule mult_le_mono2)
  then have "a + 2 ^ k * b < 2 ^ (2 * k)" using ab by (simp add: mult_2 power_add)
  moreover have "2 ^ k - 1 < (2 :: nat) ^ (2 * k)"
    by (metis diff_less less_le_trans zero_less_numeral zero_less_one zero_less_power one_le_numeral power_increasing mult_2 le_add1 less_imp_le not_less)
  moreover have "(a + 2 ^ k * b) AND (2 ^ k - 1) = a"
    using ab unfolding mask_eq_exp_minus_1 [symmetric] take_bit_eq_mask [symmetric] by (simp add: take_bit_eq_mod)
  moreover have "fields k (a # b # fs) = (a + 2 ^ k * b) + 2 ^ (2 * k) * fields k fs"
    by (simp add: mult_2 [of k] power_add distrib_left mult.assoc)
  moreover have "fields (2 * k) (replicate n (2 ^ k - 1)) = (2 ^ k - 1) + 2 ^ (2 * k) * fields (2 * k) (replicate n' (2 ^ k - 1))"
    by (simp only: n replicate_Suc fields.simps)
  moreover have "fields k fs AND fields (2 * k) (replicate n' (2 ^ k - 1)) = fields (2 * k) (evens fs)"
    using 1(1) [of n'] 1(2) n(2) by simp
  ultimately show ?case by (simp only: split_and evens.simps fields.simps)
qed (auto simp: Suc_double_not_eq_double)

lemma fields_snoc_0: "fields k (fs @ [0]) = fields k fs"
  by (induction fs) simp_all

lemma fields_add:
  "even (length fs) \<Longrightarrow> fs \<noteq> [] \<Longrightarrow> fields k (evens fs) + fields k (evens (tl fs @ [0])) = fields k (pairs fs)"
proof (induction fs rule: evens.induct)
  case (1 a b fs)
  show ?case
  proof (cases "fs = []")
    case False
    then have "2 ^ k * (fields k (evens fs) + fields k (evens (tl fs @ [0]))) = 2 ^ k * fields k (pairs fs)" using 1 by simp
    then show ?thesis using False by (cases fs) (auto simp: distrib_left)
  qed simp
qed auto

text \<open>One addition of neighbouring fields.\<close>

lemma fields_step:
  assumes "\<forall>f\<in>set fs. f < 2 ^ k" "length fs = 2 * n" "0 < n"
  defines "M \<equiv> fields (2 * k) (replicate n (2 ^ k - 1))"
  shows "(fields k fs AND M) + (drop_bit k (fields k fs) AND M) = fields (2 * k) (pairs fs)"
proof -
  obtain f gs where fs: "fs = f # gs" using assms(2,3) by (cases fs) auto
  have "drop_bit k (fields k fs) = fields k (gs @ [0])"
    using assms(1) fs by (simp add: drop_bit_eq_div fields_snoc_0)
  moreover have "fields k (gs @ [0]) AND M = fields (2 * k) (evens (gs @ [0]))"
    unfolding M_def using assms(1,2) fs by (intro fields_and) auto
  moreover have "fields k fs AND M = fields (2 * k) (evens fs)"
    unfolding M_def using assms(1,2) by (rule fields_and)
  moreover have "fields (2 * k) (evens fs) + fields (2 * k) (evens (tl fs @ [0])) = fields (2 * k) (pairs fs)"
    using assms(2,3) by (intro fields_add) auto
  ultimately show ?thesis using fs by simp
qed

lemma pairs_props:
  "length fs = 2 * n \<Longrightarrow> length (pairs fs) = n" "sum_list (pairs fs) = sum_list fs"
  "\<forall>f\<in>set fs. f \<le> b \<Longrightarrow> even (length fs) \<Longrightarrow> \<forall>f\<in>set (pairs fs). f \<le> 2 * b"
proof (induction fs arbitrary: n rule: pairs.induct)
  case (1 a c fs)
  { case 1 then show ?case using "1.IH"(1) [of "n - 1"] by (cases n) auto next
    case 2 then show ?case using "1.IH"(2) by simp next
    case 3 then show ?case using "1.IH"(3) by auto }
qed auto

lemma hweight_step:
  fixes res M :: "32 word"
  assumes "unat res = fields k fs" "length fs = 2 * n" "0 < n" "2 * k * n \<le> 32" "\<forall>f\<in>set fs. f \<le> b" "b < 2 ^ k" "2 * b < 2 ^ (2 * k)"
    and "unat M = fields (2 * k) (replicate n (2 ^ k - 1))"
  shows "unat ((res AND M) + (drop_bit k res AND M)) = fields (2 * k) (pairs fs)"
proof -
  have "\<forall>f\<in>set fs. f < 2 ^ k" using assms(5,6) by auto
  then have s: "(unat res AND unat M) + (drop_bit k (unat res) AND unat M) = fields (2 * k) (pairs fs)"
    using fields_step [of fs k n] assms by simp
  have "fields (2 * k) (pairs fs) < 2 ^ (2 * k * length (pairs fs))"
    using pairs_props(3) [of fs b] assms(2,5,7) by (intro fields_bound) fastforce
  also have "\<dots> \<le> 2 ^ 32" using assms(2,4) pairs_props(1) [of fs n] by (intro power_increasing) simp_all
  finally have "unat (res AND M) + unat (drop_bit k res AND M) < 2 ^ LENGTH(32)"
    using s by (simp add: unsigned_and_eq unat_drop_bit_eq)
  then have "unat ((res AND M) + (drop_bit k res AND M)) = unat (res AND M) + unat (drop_bit k res AND M)"
    by (metis unat_add_lem)
  then show ?thesis using s by (simp add: unsigned_and_eq unat_drop_bit_eq)
qed


lemma fields_bits: "fields 1 (map of_bool bs) = horner_sum of_bool 2 bs"
  by (induction bs) simp_all

definition bit_list :: "nat \<Rightarrow> 32 word \<Rightarrow> nat list" where
  "bit_list n w = map of_bool (map (bit w) [0..<n])"

lemma bit_list_word: "n \<le> 32 \<Longrightarrow> unat (take_bit n w) = fields 1 (bit_list n w)" for w :: "32 word"
proof -
  have "map (bit w) [0..<n] = map (bit (unat w)) [0..<n]" if "n \<le> 32"
    using that by (auto simp: bit_unsigned_iff)
  moreover assume "n \<le> 32"
  ultimately show ?thesis
    by (simp only: bit_list_def fields_bits horner_sum_bit_eq_take_bit) (simp add: unsigned_take_bit_eq)
qed

lemma bit_list_sum: "sum_list (bit_list n w) = card {i. i < n \<and> bit w i}"
proof (induction n)
  case (Suc n)
  have "{i. i < Suc n \<and> bit w i} = (if bit w n then insert n {i. i < n \<and> bit w i} else {i. i < n \<and> bit w i})"
    by (auto simp: less_Suc_eq)
  then show ?case using Suc by (simp add: bit_list_def)
qed (simp add: bit_list_def)

lemma bit_list_props: "length (bit_list n w) = n" "\<forall>f\<in>set (bit_list n w). f \<le> 1"
  by (auto simp: bit_list_def)

lemma replicate_numeral: "replicate (numeral k) x = x # replicate (pred_numeral k) x"
  by (simp add: numeral_eq_Suc)

lemma masks:
  "unat (0x55555555 :: 32 word) = fields 2 (replicate 16 1)" "unat (0x33333333 :: 32 word) = fields 4 (replicate 8 3)"
  "unat (0x0F0F0F0F :: 32 word) = fields 8 (replicate 4 15)" "unat (0x00FF00FF :: 32 word) = fields 16 (replicate 2 255)"
  "unat (0x0000FFFF :: 32 word) = fields 32 (replicate 1 65535)"
  "unat (0x5555 :: 32 word) = fields 2 (replicate 8 1)" "unat (0x3333 :: 32 word) = fields 4 (replicate 4 3)"
  "unat (0x0F0F :: 32 word) = fields 8 (replicate 2 15)" "unat (0x00FF :: 32 word) = fields 16 (replicate 1 255)"
  "unat (0x55 :: 32 word) = fields 2 (replicate 4 1)" "unat (0x33 :: 32 word) = fields 4 (replicate 2 3)"
  "unat (0x0F :: 32 word) = fields 8 (replicate 1 15)"
  by (simp_all add: replicate_numeral)

text \<open>Fields of \<open>k\<close> bits that hold at most \<open>k\<close>, and whose sum is the number of bits.\<close>

definition counts :: "nat \<Rightarrow> nat \<Rightarrow> nat \<Rightarrow> 32 word \<Rightarrow> bool" where
  "counts c k n res \<longleftrightarrow> (\<exists>fs. unat res = fields k fs \<and> length fs = n \<and> (\<forall>f\<in>set fs. f \<le> k) \<and> sum_list fs = c)"

lemma counts_step:
  assumes "counts c k (2 * n) res" "0 < n" "2 * k * n \<le> 32" "k < 2 ^ k" "2 * k < 2 ^ (2 * k)" "unat M = fields (2 * k) (replicate n (2 ^ k - 1))"
  shows "counts c (2 * k) n ((res AND M) + (drop_bit k res AND M))"
proof -
  obtain fs where fs: "unat res = fields k fs" "length fs = 2 * n" "\<forall>f\<in>set fs. f \<le> k" "sum_list fs = c"
    using assms(1) by (auto simp: counts_def)
  have "unat ((res AND M) + (drop_bit k res AND M)) = fields (2 * k) (pairs fs)"
    by (rule hweight_step [OF fs(1,2) assms(2,3) fs(3) assms(4-6)])
  then show ?thesis using pairs_props [of fs] fs by (auto simp: counts_def intro!: exI [of _ "pairs fs"])
qed

lemma counts_end: "counts c k 1 res \<Longrightarrow> unat res = c"
  by (auto simp: counts_def length_Suc_conv)

lemma counts_word: "counts (card {i. bit w i}) 1 32 w"
proof -
  have "{i. i < 32 \<and> bit w i} = {i. bit w i}" using bit_imp_le_length [of w] by auto
  then show ?thesis unfolding counts_def
    using bit_list_word [of 32 w] bit_list_sum [of 32 w] bit_list_props [of 32 w]
    by (intro exI [of _ "bit_list 32 w"]) (simp add: take_bit_word_eq_self)
qed

lemma counts_low:
  assumes "n \<le> 32"
  shows "counts (card {i. i < n \<and> bit w i}) 1 n (take_bit n w)"
  unfolding counts_def using bit_list_word [OF assms] bit_list_sum [of n w] bit_list_props [of n w]
  by (intro exI [of _ "bit_list n w"]) simp

lemma hweight32_counts: "unat (generic_hweight32 w) = card {i. bit w i}"
proof -
  define a where "a = (w AND 0x55555555) + (drop_bit 1 w AND 0x55555555)"
  define b where "b = (a AND 0x33333333) + (drop_bit 2 a AND 0x33333333)"
  define c where "c = (b AND 0x0F0F0F0F) + (drop_bit 4 b AND 0x0F0F0F0F)"
  define d where "d = (c AND 0x00FF00FF) + (drop_bit 8 c AND 0x00FF00FF)"
  let ?n = "card {i. bit w i}"
  have "counts ?n 2 16 a" using counts_step [of ?n 1 16 w "0x55555555"] counts_word masks by (simp add: a_def)
  then have "counts ?n 4 8 b" using counts_step [of ?n 2 8 a "0x33333333"] masks by (simp add: b_def)
  then have "counts ?n 8 4 c" using counts_step [of ?n 4 4 b "0x0F0F0F0F"] masks by (simp add: c_def)
  then have "counts ?n 16 2 d" using counts_step [of ?n 8 2 c "0x00FF00FF"] masks by (simp add: d_def)
  then have "counts ?n 32 1 ((d AND 0x0000FFFF) + (drop_bit 16 d AND 0x0000FFFF))"
    using counts_step [of ?n 16 1 d "0x0000FFFF"] masks by simp
  then show ?thesis using counts_end unfolding generic_hweight32_def Let_def a_def b_def c_def d_def by blast
qed


lemma and_low: "take_bit j M = M \<Longrightarrow> take_bit j x AND M = x AND M" for x M :: "32 word"
  by (metis take_bit_and take_bit_eq_mask and.assoc and.commute)

lemma first_step_low:
  fixes w M :: "32 word"
  assumes "take_bit j M = M" "take_bit (Suc j) M = M"
  shows "(take_bit (Suc j) w AND M) + (drop_bit 1 (take_bit (Suc j) w) AND M) = (w AND M) + (drop_bit 1 w AND M)"
  using and_low [OF assms(1), of "drop_bit 1 w"] and_low [OF assms(2), of w] by (simp add: drop_bit_take_bit)

lemma hweight16_counts: "unat (generic_hweight16 w) = card {i. i < 16 \<and> bit w i}"
proof -
  define a where "a = (w AND 0x5555) + (drop_bit 1 w AND 0x5555)"
  define b where "b = (a AND 0x3333) + (drop_bit 2 a AND 0x3333)"
  define c where "c = (b AND 0x0F0F) + (drop_bit 4 b AND 0x0F0F)"
  let ?n = "card {i. i < 16 \<and> bit w i}"
  have "a = (take_bit 16 w AND 0x5555) + (drop_bit 1 (take_bit 16 w) AND 0x5555)"
    using first_step_low [of 15 "0x5555" w] by (simp add: a_def)
  then have "counts ?n 2 8 a" using counts_step [of ?n 1 8 "take_bit 16 w" "0x5555"] counts_low [of 16 w] masks by simp
  then have "counts ?n 4 4 b" using counts_step [of ?n 2 4 a "0x3333"] masks by (simp add: b_def)
  then have "counts ?n 8 2 c" using counts_step [of ?n 4 2 b "0x0F0F"] masks by (simp add: c_def)
  then have "counts ?n 16 1 ((c AND 0x00FF) + (drop_bit 8 c AND 0x00FF))"
    using counts_step [of ?n 8 1 c "0x00FF"] masks by simp
  then show ?thesis using counts_end unfolding generic_hweight16_def Let_def a_def b_def c_def by blast
qed

lemma hweight8_counts: "unat (generic_hweight8 w) = card {i. i < 8 \<and> bit w i}"
proof -
  define a where "a = (w AND 0x55) + (drop_bit 1 w AND 0x55)"
  define b where "b = (a AND 0x33) + (drop_bit 2 a AND 0x33)"
  let ?n = "card {i. i < 8 \<and> bit w i}"
  have "a = (take_bit 8 w AND 0x55) + (drop_bit 1 (take_bit 8 w) AND 0x55)"
    using first_step_low [of 7 "0x55" w] by (simp add: a_def)
  then have "counts ?n 2 4 a" using counts_step [of ?n 1 4 "take_bit 8 w" "0x55"] counts_low [of 8 w] masks by simp
  then have "counts ?n 4 2 b" using counts_step [of ?n 2 2 a "0x33"] masks by (simp add: b_def)
  then have "counts ?n 8 1 ((b AND 0x0F) + (drop_bit 4 b AND 0x0F))"
    using counts_step [of ?n 4 1 b "0x0F"] masks by simp
  then show ?thesis using counts_end unfolding generic_hweight8_def Let_def a_def b_def by blast
qed


section \<open>Searching bits\<close>

text \<open>
  The state of a search for the lowest set bit \<open>l\<close> of \<open>w\<close>: \<open>x\<close> is \<open>w\<close> without its lowest \<open>s\<close> bits, and
  the bit is one of the next \<open>k\<close>.
\<close>

definition ffs_at :: "32 word \<Rightarrow> nat \<Rightarrow> nat \<Rightarrow> 32 word \<Rightarrow> nat \<Rightarrow> bool" where
  "ffs_at w l k x s \<longleftrightarrow> s \<le> l \<and> l < s + k \<and> s + k \<le> 32 \<and> (\<forall>i<k. bit x i = bit w (i + s))"

lemma and_mask_0: "x AND mask k = 0 \<longleftrightarrow> (\<forall>i<k. \<not> bit x i)" if "k \<le> 32" for x :: "32 word"
  using that by (auto simp: bit_eq_iff bit_simps) (meson less_le_trans)

lemma ffs_step_at:
  assumes "ffs_at w l (2 * k) x s" "bit w l" "\<forall>i<l. \<not> bit w i"
    and shr: "\<And>i. i < k \<Longrightarrow> 2 * k \<le> 32 \<Longrightarrow> bit (shr k x) i = bit x (i + k)"
    and "ffs_step shr k (x, s + r) = (x', r')"
  shows "\<exists>s'. r' = s' + r \<and> ffs_at w l k x' s'"
proof (cases "x AND mask k = 0")
  case True
  have k: "k \<le> 32" "2 * k \<le> 32" using assms(1) by (auto simp: ffs_at_def)
  have "s + k \<le> l"
  proof (rule ccontr)
    assume "\<not> s + k \<le> l"
    then have "l - s < k" "bit x (l - s)" using assms(1,2) by (auto simp: ffs_at_def)
    then show False using True and_mask_0 [OF k(1)] by blast
  qed
  then show ?thesis using True assms(1,5) shr k
    by (intro exI [of _ "s + k"]) (auto simp: ffs_step_def ffs_at_def algebra_simps)
next
  case False
  have k: "k \<le> 32" using assms(1) by (auto simp: ffs_at_def)
  obtain i where i: "i < k" "bit x i" using False and_mask_0 [OF k] by blast
  then have "bit w (i + s)" using assms(1) by (auto simp: ffs_at_def)
  then have "l \<le> i + s" using assms(3) by (meson not_less)
  then show ?thesis using False i assms(1,5) by (intro exI [of _ s]) (auto simp: ffs_step_def ffs_at_def)
qed

lemma ffs_search:
  assumes "w \<noteq> 0" and shr: "\<And>x k i. i < k \<Longrightarrow> 2 * k \<le> 32 \<Longrightarrow> bit (shr k x) i = bit x (i + k)"
  shows "bit w (LEAST i. bit w i) \<and>
    snd (ffs_step shr 1 (ffs_step shr 2 (ffs_step shr 4 (ffs_step shr 8 (ffs_step shr 16 (w, r)))))) = (LEAST i. bit w i) + r"
proof -
  define l where "l = (LEAST i. bit w i)"
  have "\<exists>i. bit w i" using assms(1) by (auto simp: bit_eq_iff)
  then have l: "bit w l" unfolding l_def by (rule LeastI_ex)
  have below: "\<forall>i<l. \<not> bit w i" unfolding l_def using not_less_Least by blast
  have "l < 32" using bit_imp_le_length [OF l] by simp
  then have 0: "ffs_at w l (2 * 16) w 0" by (simp add: ffs_at_def)
  have step: "\<exists>s'. r' = s' + r \<and> ffs_at w l k x' s'" if "ffs_at w l (2 * k) x s" "ffs_step shr k (x, s + r) = (x', r')" for k x s x' r'
    using ffs_step_at [OF that(1) l below _ that(2)] shr by blast
  obtain x1 r1 where x1: "ffs_step shr 16 (w, 0 + r) = (x1, r1)" by fastforce
  then obtain s1 where s1: "r1 = s1 + r" "ffs_at w l (2 * 8) x1 s1" using step [OF 0] by auto
  obtain x2 r2 where x2: "ffs_step shr 8 (x1, s1 + r) = (x2, r2)" by fastforce
  then obtain s2 where s2: "r2 = s2 + r" "ffs_at w l (2 * 4) x2 s2" using step [OF s1(2)] by auto
  obtain x3 r3 where x3: "ffs_step shr 4 (x2, s2 + r) = (x3, r3)" by fastforce
  then obtain s3 where s3: "r3 = s3 + r" "ffs_at w l (2 * 2) x3 s3" using step [OF s2(2)] by auto
  obtain x4 r4 where x4: "ffs_step shr 2 (x3, s3 + r) = (x4, r4)" by fastforce
  then obtain s4 where s4: "r4 = s4 + r" "ffs_at w l (2 * 1) x4 s4" using step [OF s3(2)] by auto
  obtain x5 r5 where x5: "ffs_step shr 1 (x4, s4 + r) = (x5, r5)" by fastforce
  then obtain s5 where s5: "r5 = s5 + r" "ffs_at w l 1 x5 s5" using step [OF s4(2)] by auto
  have "s5 = l" using s5(2) by (simp add: ffs_at_def)
  then show ?thesis using x1 x2 x3 x4 x5 s1(1) s2(1) s3(1) s4(1) s5(1) l by (simp add: l_def)
qed

lemma generic_ffs_least: "w \<noteq> 0 \<Longrightarrow> generic_ffs w = (LEAST i. bit w i) + 1"
proof -
  assume "w \<noteq> 0"
  moreover have "bit (signed_drop_bit k x) i = bit x (i + k)" if "i < k" "2 * k \<le> 32" for x :: "32 word" and k i
    using that by (auto simp: bit_signed_drop_bit_iff add.commute)
  ultimately show ?thesis using ffs_search [of w signed_drop_bit 1] by (simp add: generic_ffs_def)
qed

lemma ffs_generic_least: "w \<noteq> 0 \<Longrightarrow> ffs_generic w = (LEAST i. bit w i)"
  using ffs_search [of w drop_bit 0] by (simp add: ffs_generic_def bit_drop_bit_eq add.commute)



section \<open>Logarithms and powers of two\<close>

lemma fls_step_pred: "fls_step k (x, r - 1) = (fst (fls_step k (x, r)), snd (fls_step k (x, r)) - 1)"
  by (simp add: fls_step_def diff_commute)

lemma fls_generic_eq: "w \<noteq> 0 \<Longrightarrow> fls_generic w = generic_fls w - 1"
  using fls_step_pred [where r = 32]
  by (simp add: fls_generic_def generic_fls_def BITS_PER_LONG_def fls_step_pred [where r = "snd _", simplified] prod.collapse)

lemma fls64_spec:
  assumes "x \<noteq> 0"
  shows "1 \<le> fls64 x \<and> fls64 x \<le> 64 \<and> 2 ^ (fls64 x - 1) \<le> unat x \<and> unat x < 2 ^ fls64 x"
proof -
  define h where "h = (ucast (drop_bit 32 x) :: 32 word)"
  have uh: "unat h = unat x div 2 ^ 32" unfolding h_def by (rule unat_hi)
  show ?thesis
  proof (cases "h = 0")
    case False
    define k where "k = generic_fls h"
    have k: "1 \<le> k" "k \<le> 32" "2 ^ (k - 1) \<le> unat h" "unat h < 2 ^ k" using generic_fls_spec [OF False] by (auto simp: k_def)
    have "2 ^ (k - 1) * 2 ^ 32 \<le> unat x" using k(3) uh by (metis div_times_less_eq_dividend le_trans mult_le_mono1)
    moreover have "unat x < 2 ^ k * 2 ^ 32" using k(4) uh by (metis div_less_iff_less_mult zero_less_numeral zero_less_power)
    moreover have "fls64 x = k + 32" using False by (simp add: fls64_def h_def [symmetric] k_def)
    moreover have "(2 :: nat) ^ (k + 32 - 1) = 2 ^ (k - 1) * 2 ^ 32" "(2 :: nat) ^ (k + 32) = 2 ^ k * 2 ^ 32"
      using k(1) by (simp_all only: power_add [symmetric] Nat.add_diff_assoc2)
    ultimately show ?thesis using k(1,2) by simp
  next
    case True
    then have lt: "unat x < 2 ^ 32" using uh by (simp add: div_eq_0_iff)
    then have "unat (ucast x :: 32 word) = unat x" by (simp only: unat_lo mod_less)
    moreover from this have "(ucast x :: 32 word) \<noteq> 0" using assms by (metis unat_0 unat_eq_zero)
    ultimately show ?thesis using generic_fls_spec [of "ucast x :: 32 word"] True
      by (simp add: fls64_def h_def [symmetric])
  qed
qed

lemma log_unique: "2 ^ a \<le> n \<Longrightarrow> n < 2 ^ Suc a \<Longrightarrow> 2 ^ b \<le> n \<Longrightarrow> n < 2 ^ Suc b \<Longrightarrow> a = b" for n :: nat
proof -
  assume "2 ^ a \<le> n" "n < 2 ^ Suc a" "2 ^ b \<le> n" "n < 2 ^ Suc b"
  then have "(2 :: nat) ^ a < 2 ^ Suc b" "(2 :: nat) ^ b < 2 ^ Suc a" by linarith+
  then show ?thesis using power_less_imp_less_exp [of "2 :: nat" a "Suc b"] power_less_imp_less_exp [of "2 :: nat" b "Suc a"] by simp
qed

lemma is_power_of_2_iff: "is_power_of_2 n \<longleftrightarrow> (\<exists>k<32. n = 2 ^ k)"
proof
  assume "is_power_of_2 n"
  then have n: "n \<noteq> 0" "n AND (n - 1) = 0" by (simp_all add: is_power_of_2_def)
  define k where "k = generic_fls n - 1"
  have k: "k < 32" "2 ^ k \<le> unat n" "unat n < 2 ^ Suc k" using generic_fls_spec [OF n(1)] by (auto simp: k_def)
  have bit_top: "bit m k" if "2 ^ k \<le> unat m" "unat m < 2 ^ Suc k" for m :: "32 word"
  proof -
    have "unat m div 2 ^ k = 1" using that by (intro div_nat_eqI) simp_all
    then have "bit (unat m) k" by (simp add: bit_iff_odd)
    then show ?thesis by (simp add: bit_unsigned_iff)
  qed
  have "unat n = 2 ^ k"
  proof (rule ccontr)
    assume "unat n \<noteq> 2 ^ k"
    moreover have "unat (n - 1) = unat n - 1" using n(1) by (simp add: unat_minus_one)
    ultimately have "bit (n - 1) k" using k by (intro bit_top) auto
    moreover have "bit n k" using k by (intro bit_top) auto
    ultimately have "bit (n AND (n - 1)) k" by (simp add: bit_and_iff)
    then show False using n(2) by simp
  qed
  then have "n = 2 ^ k" by (metis of_unat unsigned_of_nat of_nat_numeral of_nat_power)
  with k(1) show "\<exists>k<32. n = 2 ^ k" by blast
next
  assume "\<exists>k<32. n = 2 ^ k"
  then obtain k where k: "k < 32" "n = 2 ^ k" by blast
  have "(2 :: 32 word) ^ k AND mask k = 0"
    by (rule bit_word_eqI) (auto simp: bit_and_iff bit_exp_iff bit_mask_iff)
  then have "n AND (n - 1) = 0" unfolding k(2) mask_eq_exp_minus_1 .
  moreover have "n \<noteq> 0" using k by simp
  ultimately show "is_power_of_2 n" by (simp add: is_power_of_2_def)
qed


lemma roundup_least:
  assumes "n \<noteq> 0" "unat n \<le> 2 ^ 31"
  shows "\<exists>k. roundup_pow_of_two n = Some (2 ^ k) \<and> k < 32 \<and> unat n \<le> 2 ^ k \<and> (\<forall>j. unat n \<le> 2 ^ j \<longrightarrow> k \<le> j)"
proof -
  have m: "unat (n - 1) = unat n - 1" using assms(1) by (simp add: unat_minus_one)
  have pos: "0 < unat n" using assms(1) by (simp add: unat_gt_0)
  define k where "k = fls_long (n - 1)"
  have "unat n \<le> 2 ^ k \<and> (\<forall>j. unat n \<le> 2 ^ j \<longrightarrow> k \<le> j)"
  proof (cases "n - 1 = 0")
    case True
    then have "unat n = 1" using m pos by simp
    moreover have "k = 0" using True by (simp add: k_def fls_long_def generic_fls_def)
    ultimately show ?thesis by simp
  next
    case False
    have f: "1 \<le> k" "2 ^ (k - 1) \<le> unat n - 1" "unat n - 1 < 2 ^ k"
      using generic_fls_spec [OF False] m by (simp_all add: k_def fls_long_def)
    have "k \<le> j" if "unat n \<le> 2 ^ j" for j
    proof -
      have "(2 :: nat) ^ (k - 1) < 2 ^ j" using f(2) that pos by linarith
      then have "k - 1 < j" using power_less_imp_less_exp [of "2 :: nat" "k - 1" j] by simp
      then show ?thesis using f(1) by simp
    qed
    then show ?thesis using f(3) by auto
  qed
  moreover from this have "k \<le> 31" using assms(2) by blast
  moreover from this have "roundup_pow_of_two n = Some (2 ^ k)"
    unfolding roundup_pow_of_two_def k_def [symmetric] by (simp add: shift_left_1_def BITS_PER_LONG_def push_bit_of_1)
  ultimately show ?thesis by (intro exI [of _ k]) simp
qed

lemma rounddown_greatest:
  assumes "n \<noteq> 0"
  shows "\<exists>k. rounddown_pow_of_two n = Some (2 ^ k) \<and> k < 32 \<and> 2 ^ k \<le> unat n \<and> (\<forall>j. 2 ^ j \<le> unat n \<longrightarrow> j \<le> k)"
proof -
  define k where "k = fls_long n - 1"
  have f: "k < 32" "2 ^ k \<le> unat n" "unat n < 2 ^ Suc k"
    using generic_fls_spec [OF assms] by (auto simp: k_def fls_long_def)
  have "j \<le> k" if "2 ^ j \<le> unat n" for j
  proof -
    have "(2 :: nat) ^ j < 2 ^ Suc k" using f(3) that by linarith
    then show ?thesis using power_less_imp_less_exp [of "2 :: nat" j "Suc k"] by simp
  qed
  moreover have "rounddown_pow_of_two n = Some (2 ^ k)"
    unfolding rounddown_pow_of_two_def k_def [symmetric] using f(1) assms by (simp add: shift_left_1_def BITS_PER_LONG_def push_bit_of_1)
  ultimately show ?thesis using f by (intro exI [of _ k]) simp
qed

lemma and_bit: "n AND 2 ^ i \<noteq> 0 \<longleftrightarrow> bit n i" if "i < LENGTH('a)" for n :: "'a :: len word"
proof -
  have "n AND 2 ^ i = (if bit n i then 2 ^ i else 0)"
    by (rule bit_word_eqI) (auto simp: bit_and_iff bit_exp_iff)
  then show ?thesis using that by simp
qed

lemma constant_ilog2_eq: "constant_ilog2 n = (if n = 0 then None else Some (fls64 n - 1))"
proof (cases "n = 0")
  case False
  define k where "k = fls64 n - 1"
  have k: "k < 64" "2 ^ k \<le> unat n" "unat n < 2 ^ Suc k" using fls64_spec [OF False] by (auto simp: k_def)
  have "unat n div 2 ^ k = 1" using k by (intro div_nat_eqI) simp_all
  then have top: "bit n k" using k(1) by (metis bit_iff_odd odd_one bit_unsigned_iff)
  have above: "\<not> bit n i" if "k < i" for i
  proof -
    have "(2 :: nat) ^ Suc k \<le> 2 ^ i" using that by (intro power_increasing) simp_all
    then have "unat n div 2 ^ i = 0" using k(3) by simp
    then have "\<not> bit (unat n) i" by (simp add: bit_iff_odd)
    then show ?thesis using bit_imp_le_length by (auto simp: bit_unsigned_iff)
  qed
  have "rev [0..<64] = rev [Suc k..<64] @ k # rev [0..<k]"
    using k(1) by (metis upt_add_eq_append upt_conv_Cons rev_append rev.simps(2) append_assoc append_Cons append_Nil le0 less_imp_le le_add_diff_inverse plus_nat.add_0)
  moreover have "find P (xs @ k # ys) = Some k" if "\<forall>i\<in>set xs. \<not> P i" "P k" for P and xs ys :: "nat list"
    using that by (induction xs) auto
  ultimately have "find (\<lambda>i. n AND push_bit i 1 \<noteq> 0) (rev [0..<64]) = Some k"
    using top above k(1) by (simp add: and_bit push_bit_of_1)
  then show ?thesis using False by (simp add: constant_ilog2_def k_def word_less_1)
qed (simp add: constant_ilog2_def)

lemma nat_bit_index: "nr AND 31 = nr mod 32" "drop_bit 5 nr = nr div 32" for nr :: nat
  by (simp_all add: take_bit_eq_mask [of 5 nr, symmetric, unfolded mask_eq_exp_minus_1, simplified] take_bit_eq_mod drop_bit_eq_div)

lemma test_bit: "constant_test_bit nr a \<longleftrightarrow> bit (a (nr div 32)) (nr mod 32)"
  unfolding constant_test_bit_def nat_bit_index using and_bit [of "nr mod 32" "a (nr div 32)"] by (simp add: and.commute push_bit_of_1)

lemma set_test_bit:
  "constant_test_bit i (generic_set_bit nr a) \<longleftrightarrow> i = nr \<or> constant_test_bit i a"
  "constant_test_bit i (generic_clear_bit nr a) \<longleftrightarrow> i \<noteq> nr \<and> constant_test_bit i a"
proof -
  have eq: "i = nr \<longleftrightarrow> i div 32 = nr div 32 \<and> i mod 32 = nr mod 32" by (metis div_mult_mod_eq)
  have m: "bit (BIT_MASK nr) j \<longleftrightarrow> j = nr mod 32" if "j < 32" for j
    using that by (auto simp: BIT_MASK_def BITS_PER_LONG_def bit_simps)
  show "constant_test_bit i (generic_set_bit nr a) \<longleftrightarrow> i = nr \<or> constant_test_bit i a"
    using eq m [of "i mod 32"] by (auto simp: test_bit generic_set_bit_def BIT_WORD_def BITS_PER_LONG_def bit_or_iff)
  show "constant_test_bit i (generic_clear_bit nr a) \<longleftrightarrow> i \<noteq> nr \<and> constant_test_bit i a"
    using eq m [of "i mod 32"] by (auto simp: test_bit generic_clear_bit_def BIT_WORD_def BITS_PER_LONG_def bit_and_iff bit_not_iff)
qed


section \<open>Byte order\<close>

lemma byte_masks:
  "(0xff :: 32 word) = mask 8" "(0xff00 :: 32 word) = push_bit 8 (mask 8)"
  "(0xff0000 :: 32 word) = push_bit 16 (mask 8)" "(0xff000000 :: 32 word) = push_bit 24 (mask 8)"
  by (simp_all add: mask_eq_exp_minus_1)

lemma byte_masks_16: "(0xff :: 16 word) = mask 8" "(0xff00 :: 16 word) = push_bit 8 (mask 8)"
  by (simp_all add: mask_eq_exp_minus_1)

lemma byte_masks_64:
  "(0xff :: 64 word) = mask 8" "(0xff00 :: 64 word) = push_bit 8 (mask 8)"
  "(0xff0000 :: 64 word) = push_bit 16 (mask 8)" "(0xff000000 :: 64 word) = push_bit 24 (mask 8)"
  "(0xff00000000 :: 64 word) = push_bit 32 (mask 8)" "(0xff0000000000 :: 64 word) = push_bit 40 (mask 8)"
  "(0xff000000000000 :: 64 word) = push_bit 48 (mask 8)" "(0xff00000000000000 :: 64 word) = push_bit 56 (mask 8)"
  by (simp_all add: mask_eq_exp_minus_1)

text \<open>Bit \<open>r\<close> of byte \<open>q\<close> is bit \<open>r\<close> of the byte at the same distance from the other end.\<close>

lemmas swab_bits = bit_or_iff bit_push_bit_iff bit_drop_bit_eq bit_and_iff bit_mask_iff

lemma swab16_bit: "r < 8 \<Longrightarrow> q < 2 \<Longrightarrow> bit (swab16 x) (r + 8 * q) = bit x (r + 8 * (1 - q))"
proof -
  assume "r < 8" "q < 2"
  then consider "q = 0" | "q = 1" by linarith
  then show ?thesis using \<open>r < 8\<close> unfolding swab16_def byte_masks_16 by cases (simp_all add: swab_bits add.commute)
qed

lemma swab32_bit: "r < 8 \<Longrightarrow> q < 4 \<Longrightarrow> bit (swab32 x) (r + 8 * q) = bit x (r + 8 * (3 - q))"
proof -
  assume "r < 8" "q < 4"
  then consider "q = 0" | "q = 1" | "q = 2" | "q = 3" by linarith
  then show ?thesis using \<open>r < 8\<close> unfolding swab32_def byte_masks by cases (simp_all add: swab_bits add.commute)
qed

lemma swab64_bit: "r < 8 \<Longrightarrow> q < 8 \<Longrightarrow> bit (swab64 x) (r + 8 * q) = bit x (r + 8 * (7 - q))"
proof -
  assume "r < 8" "q < 8"
  then consider "q = 0" | "q = 1" | "q = 2" | "q = 3" | "q = 4" | "q = 5" | "q = 6" | "q = 7" by linarith
  then show ?thesis using \<open>r < 8\<close> unfolding swab64_def byte_masks_64 by cases (simp_all add: swab_bits add.commute)
qed

lemma byte_index: "i < 8 * n \<Longrightarrow> \<exists>r q. i = r + 8 * q \<and> r < 8 \<and> q < (n :: nat)"
  by (intro exI [of _ "i mod 8"] exI [of _ "i div 8"]) auto

lemma swab16_swab16: "swab16 (swab16 x) = x"
proof (rule bit_word_eqI)
  fix i assume "i < LENGTH(16)"
  then obtain r q where "i = r + 8 * q" "r < 8" "q < 2" using byte_index [of i 2] by auto
  then show "bit (swab16 (swab16 x)) i = bit x i" by (simp add: swab16_bit)
qed

lemma swab32_swab32: "swab32 (swab32 x) = x"
proof (rule bit_word_eqI)
  fix i assume "i < LENGTH(32)"
  then obtain r q where "i = r + 8 * q" "r < 8" "q < 4" using byte_index [of i 4] by auto
  then show "bit (swab32 (swab32 x)) i = bit x i" by (simp add: swab32_bit)
qed

lemma swab64_swab64: "swab64 (swab64 x) = x"
proof (rule bit_word_eqI)
  fix i assume "i < LENGTH(64)"
  then obtain r q where "i = r + 8 * q" "r < 8" "q < 8" using byte_index [of i 8] by auto
  then show "bit (swab64 (swab64 x)) i = bit x i" by (simp add: swab64_bit)
qed

lemma halves_bit:
  fixes a b :: "32 word"
  shows "j < 32 \<Longrightarrow> bit (push_bit 32 (ucast a) OR ucast b :: 64 word) (j + 32) = bit a j"
    and "j < 32 \<Longrightarrow> bit (push_bit 32 (ucast a) OR ucast b :: 64 word) j = bit b j"
  using bit_imp_le_length [of b "j + 32"] by (auto simp: bit_or_iff bit_push_bit_iff bit_unsigned_iff)

lemma fswab64_eq: "fswab64 x = swab64 x"
proof (rule bit_word_eqI)
  fix i assume "i < LENGTH(64)"
  then obtain r q where i: "i = r + 8 * q" "r < 8" "q < 8" using byte_index [of i 8] by auto
  have lo: "push_bit 32 1 - 1 = (mask 32 :: 64 word)" by (simp add: mask_eq_exp_minus_1)
  have hi: "bit (ucast (drop_bit 32 x) :: 32 word) j = bit x (j + 32)" if "j < 32" for j
    using that by (auto simp: bit_unsigned_iff bit_drop_bit_eq add.commute)
  show "bit (fswab64 x) i = bit (swab64 x) i"
  proof (cases "q < 4")
    case True
    then have "bit (fswab64 x) i = bit (swab32 (ucast (drop_bit 32 x))) (r + 8 * q)"
      using i halves_bit(2) [of "r + 8 * q"] by (simp add: fswab64_def Let_def)
    also have "\<dots> = bit x (r + 8 * (3 - q) + 32)" using True i hi [of "r + 8 * (3 - q)"] by (simp add: swab32_bit)
    also have "r + 8 * (3 - q) + 32 = r + 8 * (7 - q)" using True by simp
    finally show ?thesis using i by (simp add: swab64_bit)
  next
    case False
    define p where "p = q - 4"
    then have p: "q = p + 4" "p < 4" using False i(3) by simp_all
    then have "i = (r + 8 * p) + 32" "r + 8 * p < 32" using i by simp_all
    then have "bit (fswab64 x) i = bit (swab32 (ucast (x AND mask 32))) (r + 8 * p)"
      using halves_bit(1) [of "r + 8 * p"] by (simp only: fswab64_def Let_def lo)
    also have "bit (swab32 (ucast (x AND mask 32))) (r + 8 * p) = bit x (r + 8 * (3 - p))"
    proof -
      have "r + 8 * (3 - p) < 32" using p i by simp
      then show ?thesis using p i by (auto simp: swab32_bit bit_unsigned_iff swab_bits)
    qed
    finally show ?thesis using i p swab64_bit [of r q x] by simp
  qed
qed


section \<open>Rounding to multiples\<close>

lemma unat_down: "unat (y AND NOT (mask k)) = unat y div 2 ^ k * 2 ^ k" for y :: "32 word"
proof -
  have eq: "y AND NOT (mask k) = push_bit k (drop_bit k y)"
    by (rule bit_word_eqI) (auto simp: bit_and_iff bit_not_iff bit_mask_iff bit_push_bit_iff bit_drop_bit_eq)
  have "unat y div 2 ^ k * 2 ^ k < 2 ^ 32"
    using less_2p32 [of y] div_times_less_eq_dividend [of "unat y" "2 ^ k"] by linarith
  moreover have "unat (push_bit k (drop_bit k y)) = take_bit LENGTH(32) (push_bit k (drop_bit k (unat y)))"
    by (simp only: unsigned_push_bit_eq unat_drop_bit_eq)
  ultimately show ?thesis unfolding eq by (simp add: push_bit_eq_mult drop_bit_eq_div take_bit_nat_eq_self)
qed

lemma unat_exp: "k < 32 \<Longrightarrow> unat ((2 :: 32 word) ^ k) = 2 ^ k"
proof -
  assume "k < 32"
  then have "(2 :: nat) ^ k < 2 ^ 32" by (intro power_strict_increasing) simp_all
  then have "unat (of_nat (2 ^ k) :: 32 word) = 2 ^ k" using \<open>k < 32\<close> by (simp only: unsigned_of_nat) (simp add: take_bit_nat_eq_self)
  then show ?thesis using \<open>k < 32\<close> by simp
qed

lemma align_mask: "(2 :: 32 word) ^ k - 1 = mask k"
  by (simp add: mask_eq_exp_minus_1)

lemma unat_mask: "k < 32 \<Longrightarrow> unat (mask k :: 32 word) = 2 ^ k - 1"
  using unat_exp [of k] by (simp add: mask_eq_exp_minus_1 unat_minus_one)

lemma unat_sum: "unat x + unat y < 2 ^ 32 \<Longrightarrow> unat (x + y) = unat x + unat y" for x y :: "32 word"
  using unat_add_lem [of x y] by simp

lemma ALIGN_value:
  assumes "k < 32" "unat x + 2 ^ k \<le> 2 ^ 32"
  shows "unat (ALIGN x (2 ^ k)) = (unat x + 2 ^ k - 1) div 2 ^ k * 2 ^ k"
proof -
  have "unat (x + mask k) = unat x + 2 ^ k - 1"
    using assms unat_mask [of k] unat_sum [of x "mask k"] by simp
  then show ?thesis by (simp add: ALIGN_def ALIGN_MASK_def align_mask unat_down)
qed

lemma round_up_ALIGN:
  assumes "k < 32" "unat x + 2 ^ k \<le> 2 ^ 32"
  shows "round_up x (2 ^ k) = ALIGN x (2 ^ k)"
proof (cases "x = 0")
  case True
  then show ?thesis by (simp add: round_up_def round_mask_def ALIGN_def ALIGN_MASK_def align_mask)
next
  case False
  define y where "y = x - 1"
  have y: "unat y = unat x - 1" "0 < unat x" using False by (simp_all add: y_def unat_minus_one unat_gt_0)
  have "y OR mask k = (y AND NOT (mask k)) + mask k"
    by (subst disjunctive_add) (auto simp: bit_eq_iff bit_simps)
  then have "(y OR mask k) + 1 = (y AND NOT (mask k)) + 2 ^ k" by (simp add: mask_eq_exp_minus_1)
  moreover have d: "(unat y div 2 ^ k + 1) * 2 ^ k = (unat x + 2 ^ k - 1) div 2 ^ k * 2 ^ k"
  proof -
    have "unat x + 2 ^ k - 1 = unat y + 2 ^ k" using y by simp
    then show ?thesis by (simp only: div_add_self2 [OF power_not_zero [OF zero_neq_numeral [symmetric]]])
  qed
  moreover have "(unat x + 2 ^ k - 1) div 2 ^ k * 2 ^ k < 2 ^ 32"
    using assms(2) y(2) div_times_less_eq_dividend [of "unat x + 2 ^ k - 1" "2 ^ k"] by linarith
  ultimately have "unat ((y OR mask k) + 1) = (unat x + 2 ^ k - 1) div 2 ^ k * 2 ^ k"
    using unat_sum [of "y AND NOT (mask k)" "2 ^ k"] unat_exp [OF assms(1)] unat_down [of y k] by simp
  then show ?thesis using ALIGN_value [OF assms]
    by (simp add: round_up_def round_mask_def align_mask y_def [symmetric] word_unat_eq_iff)
qed

lemma roundup_ALIGN:
  assumes "k < 32" "unat x + 2 ^ k \<le> 2 ^ 32"
  shows "roundup x (2 ^ k) = ALIGN x (2 ^ k)"
proof -
  have "unat (x + mask k) = unat x + 2 ^ k - 1"
    using assms unat_mask [of k] unat_sum [of x "mask k"] by simp
  then have q: "unat ((x + mask k) div 2 ^ k) = (unat x + 2 ^ k - 1) div 2 ^ k"
    using unat_exp [OF assms(1)] by (simp add: unat_div)
  have "(0 :: nat) < 2 ^ k" by simp
  then have "(unat x + 2 ^ k - 1) div 2 ^ k * 2 ^ k < 2 ^ 32"
    using assms(2) div_times_less_eq_dividend [of "unat x + 2 ^ k - 1" "2 ^ k"] by linarith
  then have "unat ((x + mask k) div 2 ^ k * 2 ^ k) = (unat x + 2 ^ k - 1) div 2 ^ k * 2 ^ k"
    using q unat_exp [OF assms(1)] unat_mult_lem [of "(x + mask k) div 2 ^ k" "2 ^ k"] by simp
  then show ?thesis using ALIGN_value [OF assms] by (simp add: roundup_def align_mask word_unat_eq_iff)
qed

text \<open>The value is the least multiple that is not below.\<close>

lemma least_multiple:
  fixes x d :: nat
  assumes "0 < d"
  shows "d dvd (x + d - 1) div d * d" "x \<le> (x + d - 1) div d * d" "d dvd m \<Longrightarrow> x \<le> m \<Longrightarrow> (x + d - 1) div d * d \<le> m"
proof -
  define q where "q = (x + d - 1) div d"
  have "x + d - 1 < d + d * q" using dividend_less_times_div [OF assms, of "x + d - 1"] by (simp only: q_def)
  then have "x \<le> d * q" using assms by linarith
  then show "x \<le> (x + d - 1) div d * d" unfolding q_def by (simp only: mult.commute)
  show "d dvd (x + d - 1) div d * d" by simp
  assume "d dvd m" "x \<le> m"
  then obtain j where j: "m = d * j" by blast
  then have "x + d - 1 < d * (j + 1)" using \<open>x \<le> m\<close> assms by (simp add: algebra_simps)
  then have "q < j + 1" unfolding q_def by (simp add: less_mult_imp_div_less mult.commute)
  then show "(x + d - 1) div d * d \<le> m" unfolding q_def [symmetric] using j by (simp add: mult.commute)
qed



lemma ffs64_least: "x \<noteq> 0 \<Longrightarrow> ffs64 x = (LEAST i. bit x i)"
proof -
  assume "x \<noteq> 0"
  define lo where "lo = (ucast x :: 32 word)"
  define hi where "hi = (ucast (drop_bit 32 x) :: 32 word)"
  have lo: "bit lo i \<longleftrightarrow> i < 32 \<and> bit x i" for i by (auto simp: lo_def bit_unsigned_iff)
  have hi: "bit hi i \<longleftrightarrow> i < 32 \<and> bit x (i + 32)" for i by (auto simp: hi_def bit_unsigned_iff bit_drop_bit_eq add.commute)
  show ?thesis
  proof (cases "lo = 0")
    case False
    then have least: "bit lo (LEAST i. bit lo i)" using ffs_search [of lo drop_bit 0] by (auto simp: bit_drop_bit_eq add.commute)
    have "(LEAST i. bit x i) = (LEAST i. bit lo i)"
    proof (rule Least_equality)
      show "bit x (LEAST i. bit lo i)" using least lo by blast
      fix i assume "bit x i"
      then show "(LEAST i. bit lo i) \<le> i"
        using least lo by (cases "i < 32") (auto intro: Least_le)
    qed
    then show ?thesis using ffs_generic_least [OF False] False by (simp add: ffs64_def lo_def [symmetric])
  next
    case True
    then have none: "\<not> bit x i" if "i < 32" for i using lo [of i] that by simp
    have "hi \<noteq> 0"
    proof
      assume "hi = 0"
      then have "\<not> bit x i" if "i < 64" for i using none [of i] hi [of "i - 32"] that by (cases "i < 32") auto
      then have "x = 0" by (intro bit_word_eqI) auto
      then show False using \<open>x \<noteq> 0\<close> by simp
    qed
    then have least: "bit hi (LEAST i. bit hi i)" using ffs_search [of hi drop_bit 0] by (auto simp: bit_drop_bit_eq add.commute)
    have "(LEAST i. bit x i) = (LEAST i. bit hi i) + 32"
    proof (rule Least_equality)
      show "bit x ((LEAST i. bit hi i) + 32)" using least hi by blast
      fix i assume "bit x i"
      then have "32 \<le> i" "i < 64" using none bit_imp_le_length [of x i] by (auto simp: not_less [symmetric])
      then have "bit hi (i - 32)" using hi \<open>bit x i\<close> by simp
      then show "(LEAST i. bit hi i) + 32 \<le> i" using \<open>32 \<le> i\<close> Least_le [of "bit hi" "i - 32"] by simp
    qed
    then show ?thesis using ffs_generic_least [OF \<open>hi \<noteq> 0\<close>] True by (simp add: ffs64_def lo_def [symmetric] hi_def [symmetric])
  qed
qed

lemma ilog2_spec:
  "n \<noteq> 0 \<Longrightarrow> ilog2_u32 n = int (fls_generic n) \<and> 2 ^ nat (ilog2_u32 n) \<le> unat n \<and> unat n < 2 * 2 ^ nat (ilog2_u32 n)"
  "m \<noteq> 0 \<Longrightarrow> constant_ilog2 m = Some (nat (ilog2_u64 m)) \<and> 2 ^ nat (ilog2_u64 m) \<le> unat m \<and> unat m < 2 * 2 ^ nat (ilog2_u64 m)"
proof -
  assume "n \<noteq> 0"
  from generic_fls_spec [OF this] fls_generic_eq [OF this]
  show "ilog2_u32 n = int (fls_generic n) \<and> 2 ^ nat (ilog2_u32 n) \<le> unat n \<and> unat n < 2 * 2 ^ nat (ilog2_u32 n)"
    by (cases "generic_fls n") (auto simp: ilog2_u32_def)
next
  assume "m \<noteq> 0"
  from fls64_spec [OF this] constant_ilog2_eq [of m] this
  show "constant_ilog2 m = Some (nat (ilog2_u64 m)) \<and> 2 ^ nat (ilog2_u64 m) \<le> unat m \<and> unat m < 2 * 2 ^ nat (ilog2_u64 m)"
    by (cases "fls64 m") (auto simp: ilog2_u64_def)
qed

text \<open>The table in the comment of \<^verbatim>\<open>order_base_2\<close> begins with 0 for 0; the shift is undefined there.\<close>

lemma order_base_2_0: "order_base_2 0 = None"
proof -
  have m: "unat (- 1 :: 32 word) = 2 ^ 32 - 1" by (simp add: unsigned_minus_1_eq_mask mask_eq_exp_minus_1)
  have f: "generic_fls (- 1) \<le> 32" "unat (- 1 :: 32 word) < 2 ^ generic_fls (- 1)"
    using generic_fls_spec [of "- 1"] by simp_all
  have "\<not> generic_fls (- 1) \<le> 31"
  proof
    assume "generic_fls (- 1) \<le> 31"
    then have "(2 :: nat) ^ generic_fls (- 1) \<le> 2 ^ 31" by (intro power_increasing) simp_all
    then show False using f(2) m by simp
  qed
  then have "generic_fls (- 1) = 32" using f(1) by simp
  then show ?thesis by (simp add: order_base_2_def roundup_pow_of_two_def fls_long_def shift_left_1_def BITS_PER_LONG_def)
qed

lemma GENMASK_bit: "h < 32 \<Longrightarrow> bit (GENMASK h l) i \<longleftrightarrow> l \<le> i \<and> i \<le> h"
  by (auto simp: GENMASK_def BITS_PER_LONG_def bit_simps)

lemma IS_ALIGNED_iff: "k < 32 \<Longrightarrow> IS_ALIGNED x (2 ^ k) \<longleftrightarrow> 2 ^ k dvd unat x"
proof -
  assume "k < 32"
  have "x AND mask k = take_bit k x" by (simp add: take_bit_eq_mask)
  moreover have "unat (take_bit k x) = unat x mod 2 ^ k" by (rule trans [OF unsigned_take_bit_eq take_bit_eq_mod])
  ultimately show ?thesis unfolding IS_ALIGNED_def align_mask by (metis dvd_eq_mod_eq_0 unat_0 unat_eq_zero)
qed


section \<open>Properties\<close>

text \<open>
  The parallel additions of \<^verbatim>\<open>generic_hweight32\<close>, \<^verbatim>\<open>generic_hweight16\<close> and \<^verbatim>\<open>generic_hweight8\<close>
  count the bits that are set in the word, in its lower half and in its lowest byte, for every word.
\<close>

theorem hweight_counts:
  "unat (generic_hweight32 w) = card {i. bit w i} \<and>
   unat (generic_hweight16 w) = card {i. i < 16 \<and> bit w i} \<and> unat (generic_hweight8 w) = card {i. i < 8 \<and> bit w i}"
  using hweight32_counts hweight16_counts hweight8_counts by blast

text \<open>Swapping the bytes twice gives the word back, and the 64-bit swap through two halves is the direct one.\<close>

theorem swab_involution:
  "swab16 (swab16 x) = x \<and> swab32 (swab32 y) = y \<and> swab64 (swab64 z) = z \<and> fswab64 z = swab64 z"
  using swab16_swab16 swab32_swab32 swab64_swab64 fswab64_eq by blast

text \<open>
  For a power of two and without an overflow, \<^verbatim>\<open>ALIGN\<close>, \<^verbatim>\<open>round_up\<close> and \<^verbatim>\<open>roundup\<close> are the same function:
  the least multiple that is not below the number.
\<close>

theorem round_to_multiple:
  assumes "k < 32" "unat x + 2 ^ k \<le> 2 ^ 32"
  shows "round_up x (2 ^ k) = ALIGN x (2 ^ k) \<and> roundup x (2 ^ k) = ALIGN x (2 ^ k) \<and> IS_ALIGNED (ALIGN x (2 ^ k)) (2 ^ k) \<and>
    x \<le> ALIGN x (2 ^ k) \<and> (\<forall>m. IS_ALIGNED m (2 ^ k) \<and> x \<le> m \<longrightarrow> ALIGN x (2 ^ k) \<le> m)"
  using least_multiple [where d = "2 ^ k" and x = "unat x"] round_up_ALIGN [OF assms] roundup_ALIGN [OF assms] ALIGN_value [OF assms]
    IS_ALIGNED_iff [OF assms(1)] by (simp add: word_le_nat_alt)

end
