(* ===== verification/Lib_Divconst.thy ===== *)
theory Lib_Divconst
  imports Lib_Bitops
begin

text \<open>
  Division by a constant (\<^verbatim>\<open>include/div64.h\<close>, for the 32-bit \<^verbatim>\<open>long\<close>): when the divisor of \<^verbatim>\<open>do_div\<close> is
  known at compile time the macro shifts, for a power of two, or multiplies by a reciprocal
  (\<^verbatim>\<open>__div64_const32\<close>) with the upper half of a 128-bit product (\<^verbatim>\<open>__arch_xprod_64\<close>). Both are shown exact for
  every dividend and divisor, so that the macro computes the same on all of its paths.
\<close>

unbundle bit_operations_syntax

section \<open>The macros\<close>

text \<open>
  \<^verbatim>\<open>ilog2\<close> of a constant; the chain of comparisons does not return for 0. The 32-bit variant for other
  arguments gives the same number (\<open>ilog2_spec\<close>).
\<close>

definition ilog2 :: "32 word \<Rightarrow> nat option" where
  "ilog2 n = constant_ilog2 (ucast n)"

text \<open>The upper word of \<open>m * n\<close>, or of \<open>m * n + m\<close> with the bias.\<close>

definition arch_xprod_64 :: "64 word \<Rightarrow> 64 word \<Rightarrow> bool \<Rightarrow> 64 word" where
  "arch_xprod_64 m n bias =
     (let m_lo = lo32 m; m_hi = hi32 m; n_lo = lo32 n; n_hi = hi32 n;
          small = m AND (push_bit 63 1 OR push_bit 31 1) = 0;
          res1 =
            (if \<not> bias then drop_bit 32 (mul_u32_u32 m_lo n_lo)
             else if small then drop_bit 32 (m + mul_u32_u32 m_lo n_lo)
             else let res = m + mul_u32_u32 m_lo n_lo;
                      tmp = if res < m then push_bit 32 1 else 0
                  in drop_bit 32 res + tmp);
          res2 =
            (if small then drop_bit 32 (res1 + mul_u32_u32 m_lo n_hi + mul_u32_u32 m_hi n_lo)
             else let tmp = res1 + mul_u32_u32 m_lo n_hi;
                      res = tmp + mul_u32_u32 m_hi n_lo;
                      tmp' = if res < tmp then push_bit 32 1 else 0
                  in drop_bit 32 res + tmp')
      in res2 + mul_u32_u32 m_hi n_hi)"

text \<open>
  The multipliers of \<^verbatim>\<open>__div64_const32\<close>: \<open>p * 2 ^ 64 / b\<close> rounded up and rounded down, computed with 64 bits.
\<close>

definition magic_up :: "32 word \<Rightarrow> 32 word \<Rightarrow> 64 word" where
  "magic_up b p =
     (NOT 0 div ucast b) * ucast p + ((NOT 0 mod ucast b + 1) * ucast p + ucast b - 1) div ucast b"

definition magic_down :: "32 word \<Rightarrow> 32 word \<Rightarrow> 64 word" where
  "magic_down b p =
     (NOT 0 div ucast b) * ucast p + ((NOT 0 mod ucast b + 1) * ucast p) div ucast b"

text \<open>The trial of the multiplier \<open>m\<close> at the dividend \<open>x\<close>.\<close>

definition magic_test :: "64 word \<Rightarrow> 64 word \<Rightarrow> 32 word \<Rightarrow> 64 word" where
  "magic_test m x p =
     (let res = drop_bit 32 ((m AND 0xffffffff) * (x AND 0xffffffff));
          t = res + (m AND 0xffffffff) * drop_bit 32 x;
          res = t + (x AND 0xffffffff) * drop_bit 32 m;
          t' = (if res < t then push_bit 32 1 else 0);
          res = drop_bit 32 res + t';
          res = res + drop_bit 32 m * drop_bit 32 x
      in res div ucast p)"

text \<open>Removing common factors of two from \<open>m\<close> and \<open>p\<close>, so that the product needs no carry where possible.\<close>

definition magic_reduce :: "64 word \<Rightarrow> 32 word \<Rightarrow> (64 word \<times> 32 word) option" where
  "magic_reduce m p =
     (let bits = ucast (- (m AND - m)) :: 32 word;
          bits = bits OR ucast (drop_bit 32 m);
          bits = push_bit 1 (NOT bits)
      in if bits = 0 then Some (m div (m AND - m), ucast (ucast p div (m AND - m)))
         else do { j \<leftarrow> ilog2 bits; Some (drop_bit j m, drop_bit j p) })"

text \<open>The whole macro; a division by \<open>p = 0\<close> would trap.\<close>

definition div64_const32 :: "64 word \<Rightarrow> 32 word \<Rightarrow> 64 word option" where
  "div64_const32 n b =
     do { k \<leftarrow> ilog2 b;
          let p = push_bit k 1;
          let m = magic_up b p;
          let x = NOT 0 div ucast b * ucast b - 1;
          let res = magic_test m x p;
          (n', m', p', bias) \<leftarrow>
            (if NOT 0 mod (ucast (b div (b AND - b)) :: 64 word) = 0
             then Some (n div ucast (b AND - b), NOT 0 div ucast (b div (b AND - b)), 1, True)
             else if res \<noteq> x div ucast b then Some (n, magic_down b p, p, True)
             else do { (m', p') \<leftarrow> magic_reduce m p; Some (n, m', p', False) });
          (if p' = 0 then None else Some (arch_xprod_64 m' n' bias div ucast p')) }"

text \<open>
  \<^verbatim>\<open>do_div\<close> with all of its branches. \<open>const\<close> stands for \<^verbatim>\<open>__builtin_constant_p(__base)\<close>; the compiler is recent
  enough for \<^verbatim>\<open>__div64_const32_is_OK\<close>.
\<close>

definition do_div_macro :: "bool \<Rightarrow> 64 word \<Rightarrow> 32 word \<Rightarrow> (32 word \<times> 64 word) option" where
  "do_div_macro const n base =
     (if const \<and> is_power_of_2 base
      then do { k \<leftarrow> ilog2 base; Some (ucast (n AND ucast (base - 1)), drop_bit k n) }
      else if const \<and> base \<noteq> 0
      then do { q \<leftarrow> div64_const32 n base; Some (ucast n - ucast q * base, q) }
      else do_div n base)"


section \<open>The upper word of a product\<close>

text \<open>The carry of a 64-bit sum, put back after the shift.\<close>

lemma carry_shift:
  fixes a b :: "64 word"
  shows "unat (drop_bit 32 (a + b) + (if a + b < a then push_bit 32 1 else 0)) = (unat a + unat b) div 2 ^ 32"
proof -
  have lt: "unat a < 2 ^ 64" "unat b < 2 ^ 64" by (rule less_2p64)+
  have c: "unat (push_bit 32 1 :: 64 word) = 2 ^ 32" by simp
  show ?thesis
  proof (cases "unat a + unat b < 2 ^ 64")
    case True
    then have s: "unat (a + b) = unat a + unat b" by (rule unat_add64)
    then have "\<not> a + b < a" by (simp add: word_less_nat_alt)
    then show ?thesis using s by (simp only: if_False add_0_right unat_shr)
  next
    case False
    have s: "unat (a + b) = unat a + unat b - 2 ^ 64" using False lt by (simp add: unat_word_ariths mod_if)
    then have "a + b < a" using lt False by (simp add: word_less_nat_alt)
    moreover have "(unat a + unat b) div 2 ^ 32 = (unat a + unat b - 2 ^ 64) div 2 ^ 32 + 2 ^ 32"
    proof -
      have "unat a + unat b = (unat a + unat b - 2 ^ 64) + 2 ^ 32 * 2 ^ 32" using False by simp
      then show ?thesis by (metis div_mult_self2 add.commute zero_neq_numeral power_not_zero)
    qed
    moreover have "unat (drop_bit 32 (a + b)) < 2 ^ 32" using less_2p64 [of "a + b"] by (simp add: unat_shr less_mult_imp_div_less)
    ultimately show ?thesis using c s by (subst unat_add64) (simp_all add: unat_shr)
  qed
qed

lemma small_bits:
  assumes "m AND (push_bit 63 1 OR push_bit 31 1) = 0"
  shows "unat (hi32 m) < 2 ^ 31" and "unat (lo32 m) < 2 ^ 31"
proof -
  have b: "\<not> bit m 63" "\<not> bit m 31"
    using arg_cong [OF assms, of "\<lambda>w. bit w 63"] arg_cong [OF assms, of "\<lambda>w. bit w 31"]
    by (simp_all add: bit_and_iff bit_or_iff bit_push_bit_iff)
  have top: "unat x < 2 ^ 31" if "\<not> bit x 31" for x :: "32 word"
  proof -
    have "even (unat x div 2 ^ 31)" using that by (metis bit_iff_odd bit_unsigned_iff)
    moreover have "unat x div 2 ^ 31 < 2" using less_2p32 [of x] by (simp add: less_mult_imp_div_less)
    ultimately have "unat x div 2 ^ 31 = 0" by (cases "unat x div 2 ^ 31") auto
    then show ?thesis by (simp add: div_eq_0_iff)
  qed
  show "unat (hi32 m) < 2 ^ 31" by (rule top) (simp add: hi32_def bit_simps b)
  show "unat (lo32 m) < 2 ^ 31" by (rule top) (simp add: lo32_def bit_simps b)
qed

lemma xprod_sum:
  fixes mh ml nh nl :: nat
  defines "m \<equiv> mh * 2 ^ 32 + ml" and "n \<equiv> nh * 2 ^ 32 + nl"
  shows "(c + m * n) div 2 ^ 64 = ((c + ml * nl) div 2 ^ 32 + ml * nh + mh * nl) div 2 ^ 32 + mh * nh"
proof -
  have "c + m * n = (c + ml * nl) + (ml * nh + mh * nl + mh * nh * 2 ^ 32) * 2 ^ 32"
    by (simp add: m_def n_def algebra_simps)
  then have "(c + m * n) div 2 ^ 32 = (c + ml * nl) div 2 ^ 32 + (ml * nh + mh * nl + mh * nh * 2 ^ 32)"
    by (simp only: div_mult_self1 power_not_zero zero_neq_numeral [symmetric] not_False_eq_True)
  then have "(c + m * n) div 2 ^ 32 = ((c + ml * nl) div 2 ^ 32 + ml * nh + mh * nl) + mh * nh * 2 ^ 32" by simp
  then have "(c + m * n) div 2 ^ 32 div 2 ^ 32 = ((c + ml * nl) div 2 ^ 32 + ml * nh + mh * nl) div 2 ^ 32 + mh * nh"
    by (simp only: div_mult_self1 power_not_zero zero_neq_numeral [symmetric] not_False_eq_True)
  moreover have "(2 :: nat) ^ 64 = 2 ^ 32 * 2 ^ 32" by simp
  ultimately show ?thesis by (simp only: div_mult2_eq)
qed

lemma xprod_carry_bounds:
  fixes mh ml nh nl :: nat
  assumes "mh < 2 ^ 32" "ml < 2 ^ 32" "nh < 2 ^ 32" "nl < 2 ^ 32" and "c \<le> mh * 2 ^ 32 + ml"
  shows "(c + ml * nl) div 2 ^ 32 \<le> mh + ml" and "(c + ml * nl) div 2 ^ 32 + ml * nh < 2 ^ 64"
proof -
  have "ml * nl + ml \<le> ml * 2 ^ 32" using mult_le_mono2 [of "Suc nl" "2 ^ 32" ml] assms(4) by simp
  then have "c + ml * nl \<le> (mh + ml) * 2 ^ 32" using assms(5) unfolding distrib_right by linarith
  then have "(c + ml * nl) div 2 ^ 32 \<le> (mh + ml) * 2 ^ 32 div 2 ^ 32" by (rule div_le_mono)
  then show b: "(c + ml * nl) div 2 ^ 32 \<le> mh + ml" by simp
  have "ml * nh + ml \<le> ml * 2 ^ 32" using mult_le_mono2 [of "Suc nh" "2 ^ 32" ml] assms(3) by simp
  moreover have "ml * 2 ^ 32 \<le> (2 ^ 32 - 1) * 2 ^ 32" using assms(2) by (intro mult_le_mono1) simp
  moreover have "((2 :: nat) ^ 32 - 1) * 2 ^ 32 + 2 ^ 32 = 2 ^ 64" by simp
  ultimately show "(c + ml * nl) div 2 ^ 32 + ml * nh < 2 ^ 64" using b assms(1) by linarith
qed

lemma xprod_small_bounds:
  fixes mh ml nh nl :: nat
  assumes "mh < 2 ^ 31" "ml < 2 ^ 31" "nh < 2 ^ 32" "nl < 2 ^ 32" and "r \<le> mh + ml"
  shows "mh * 2 ^ 32 + ml + ml * nl < 2 ^ 64" and "r + ml * nh + mh * nl < 2 ^ 64"
proof -
  have p: "x * y \<le> (2 ^ 31 - 1) * (2 ^ 32 - 1)" if "x < 2 ^ 31" "y < 2 ^ 32" for x y :: nat
    using that by (intro mult_le_mono) simp_all
  show "mh * 2 ^ 32 + ml + ml * nl < 2 ^ 64" using p [OF assms(2,4)] assms(1,2) by simp
  show "r + ml * nh + mh * nl < 2 ^ 64" using p [OF assms(2,3)] p [OF assms(1,4)] assms(1,2,5) by simp
qed

text \<open>Both ways of adding: with room for the sum, or with the carry.\<close>

lemma shifted_sum:
  fixes a b :: "64 word"
  assumes "small \<Longrightarrow> unat a + unat b < 2 ^ 64"
  shows "unat (if small then drop_bit 32 (a + b)
               else drop_bit 32 (a + b) + (if a + b < a then push_bit 32 1 else 0)) = (unat a + unat b) div 2 ^ 32"
proof (cases small)
  case True
  then show ?thesis using assms by (simp only: if_True unat_shr unat_add64)
qed (simp only: if_False carry_shift)

lemma word_halves: "unat x = unat (hi32 x) * 2 ^ 32 + unat (lo32 x)"
  by (simp add: unat_halves)

text \<open>
  The upper word of \<open>c + m * n\<close>, from the upper part \<open>w\<close> of the lowest product: the two middle products
  are added with room or with the carry.
\<close>

lemma xprod_upper:
  assumes w: "unat w = (c + unat (lo32 m) * unat (lo32 n)) div 2 ^ 32" and c: "c \<le> unat m"
    and small: "small \<Longrightarrow> unat (hi32 m) < 2 ^ 31 \<and> unat (lo32 m) < 2 ^ 31"
  defines "t \<equiv> w + mul_u32_u32 (lo32 m) (hi32 n)" and "y \<equiv> mul_u32_u32 (hi32 m) (lo32 n)"
  shows "unat ((if small then drop_bit 32 (t + y) else drop_bit 32 (t + y) + (if t + y < t then push_bit 32 1 else 0)) +
               mul_u32_u32 (hi32 m) (hi32 n)) = (c + unat m * unat n) div 2 ^ 64"
proof -
  define ml mh nl nh where "ml = unat (lo32 m)" and "mh = unat (hi32 m)" and "nl = unat (lo32 n)" and "nh = unat (hi32 n)"
  note defs = ml_def mh_def nl_def nh_def
  note d = defs [symmetric] unat_mul32
  have lt: "mh < 2 ^ 32" "ml < 2 ^ 32" "nh < 2 ^ 32" "nl < 2 ^ 32" unfolding defs by (rule less_2p32)+
  have m: "unat m = mh * 2 ^ 32 + ml" and n: "unat n = nh * 2 ^ 32 + nl" unfolding defs by (rule word_halves)+
  have cle: "c \<le> mh * 2 ^ 32 + ml" using c m by simp
  have w': "unat w = (c + ml * nl) div 2 ^ 32" using w by (simp only: d)
  note bounds = xprod_carry_bounds [OF lt cle, folded w']
  have t: "unat t = unat w + ml * nh" unfolding t_def using bounds(2) by (subst unat_add64) (simp_all only: d)
  have y: "unat y = mh * nl" by (simp only: y_def d)
  let ?w3 = "if small then drop_bit 32 (t + y) else drop_bit 32 (t + y) + (if t + y < t then push_bit 32 1 else 0)"
  have "unat t + unat y < 2 ^ 64" if small
    using small [OF that] xprod_small_bounds(2) [OF _ _ lt(3,4) bounds(1)] by (simp only: t y d)
  then have w3: "unat ?w3 = ((c + ml * nl) div 2 ^ 32 + ml * nh + mh * nl) div 2 ^ 32" by (simp only: shifted_sum t y w')
  have total: "(c + unat m * unat n) div 2 ^ 64 = unat ?w3 + mh * nh" unfolding w3 m n by (rule xprod_sum)
  have "unat m * Suc (unat n) \<le> unat m * 2 ^ 64" using less_2p64 [of n] by (intro mult_le_mono2 Suc_leI)
  then have "c + unat m * unat n \<le> unat m * 2 ^ 64" using c unfolding mult_Suc_right by linarith
  then have "(c + unat m * unat n) div 2 ^ 64 \<le> unat m * 2 ^ 64 div 2 ^ 64" by (rule div_le_mono)
  then have "unat ?w3 + mh * nh < 2 ^ 64" using less_2p64 [of m] unfolding total by simp
  then show ?thesis unfolding total by (subst unat_add64) (simp_all only: d)
qed

lemma arch_xprod_64_exact:
  "unat (arch_xprod_64 m n bias) = ((if bias then unat m else 0) + unat m * unat n) div 2 ^ 64"
proof -
  let ?small = "m AND (push_bit 63 1 OR push_bit 31 1) = 0"
  let ?ll = "mul_u32_u32 (lo32 m) (lo32 n)" and ?c = "if bias then unat m else 0"
  define w where "w = (if \<not> bias then drop_bit 32 ?ll
     else if ?small then drop_bit 32 (m + ?ll) else drop_bit 32 (m + ?ll) + (if m + ?ll < m then push_bit 32 1 else 0))"
  have small: "unat (hi32 m) < 2 ^ 31 \<and> unat (lo32 m) < 2 ^ 31" if ?small using small_bits [OF that] by blast
  have "unat m + unat ?ll < 2 ^ 64" if ?small
    using small [OF that] xprod_small_bounds(1) [of "unat (hi32 m)" "unat (lo32 m)" 0 "unat (lo32 n)" 0]
      less_2p32 [of "lo32 n"] unfolding unat_mul32 word_halves [of m] by simp
  then have "unat w = (?c + unat (lo32 m) * unat (lo32 n)) div 2 ^ 32"
    by (cases bias) (simp_all only: w_def if_True if_False not_True_eq_False not_False_eq_True shifted_sum unat_mul32 unat_shr add_0)
  from xprod_upper [OF this _ small] show ?thesis unfolding arch_xprod_64_def Let_def w_def [symmetric] by simp
qed


section \<open>Reciprocals\<close>

text \<open>A reciprocal that is rounded up, and one that is rounded down and applied to \<open>n + 1\<close>.\<close>

lemma div_between:
  fixes k P x b :: nat
  assumes "b * x = b * k * P + d" and "d < b * P"
  shows "x div P = k"
proof -
  have b: "0 < b" using assms(2) by (cases b) auto
  have "b * (k * P) \<le> b * x" "b * x < b * (Suc k * P)" using assms by (simp_all add: algebra_simps)
  then have "k * P \<le> x" "x < Suc k * P" using b by (simp_all only: mult_le_cancel1 mult_less_cancel1)
  then show ?thesis by (intro div_nat_eqI) (simp_all add: mult.commute)
qed

lemma reciprocal_up:
  fixes m n b e P :: nat
  assumes "m * b = P + e" and "n * e < P * (b - n mod b)"
  shows "m * n div P = n div b"
proof (rule div_between)
  have j: "n mod b < b" using assms(2) by (cases "b = 0") auto
  have "b * (m * n) = n * (P + e)" using assms(1) by (metis mult.assoc mult.commute)
  also have "\<dots> = n * P + n * e" by (simp add: distrib_left)
  also have "n * P = b * (n div b) * P + (n mod b) * P" by (metis add_mult_distrib div_mult_mod_eq mult.commute)
  finally show "b * (m * n) = b * (n div b) * P + (n mod b * P + n * e)" by simp
  have "n mod b * P + P * (b - n mod b) = (n mod b + (b - n mod b)) * P" by (simp only: add_mult_distrib mult.commute [of P])
  then have "n mod b * P + P * (b - n mod b) = b * P" using j by simp
  then show "n mod b * P + n * e < b * P" using assms(2) by simp
qed

lemma reciprocal_down:
  fixes m n b e P :: nat
  assumes "m * b + e = P" and "0 < e" and "0 < b" and "(n + 1) * e \<le> P * (n mod b + 1)"
  shows "m * (n + 1) div P = n div b"
proof (rule div_between)
  have "(n + 1) * P = b * (n div b) * P + (n mod b + 1) * P"
    by (metis add.assoc add_mult_distrib div_mult_mod_eq mult.commute)
  moreover have "b * (m * (n + 1)) + (n + 1) * e = (n + 1) * P"
    unfolding assms(1) [symmetric] by (simp add: algebra_simps)
  ultimately show "b * (m * (n + 1)) = b * (n div b) * P + ((n mod b + 1) * P - (n + 1) * e)"
    using assms(4) by (simp add: mult.commute)
  have "(n mod b + 1) * P \<le> b * P" using mod_less_divisor [OF assms(3), of n] by (intro mult_le_mono1) simp
  moreover have "0 < (n + 1) * e" using assms(2) by simp
  moreover have "0 < b * P" using assms(1-3) by auto
  ultimately show "(n mod b + 1) * P - (n + 1) * e < b * P" by linarith
qed

text \<open>\<open>q\<close> and \<open>r\<close> are the quotient and the remainder of \<open>W - 1\<close>; the macro computes with these.\<close>

lemma reciprocal_parts:
  fixes p b W :: nat
  assumes "0 < b" and "0 < W"
  defines "q \<equiv> (W - 1) div b" and "r \<equiv> (W - 1) mod b"
  defines "f \<equiv> q * p + (r + 1) * p div b" and "u \<equiv> q * p + ((r + 1) * p + b - 1) div b"
  shows "f * b + (r + 1) * p mod b = p * W"
    and "(r + 1) * p mod b \<noteq> 0 \<Longrightarrow> u * b = p * W + (b - (r + 1) * p mod b)"
proof -
  have W: "W = q * b + (r + 1)" using assms(2) by (simp add: q_def r_def add.assoc [symmetric])
  have "f * b + (r + 1) * p mod b = q * p * b + (r + 1) * p" by (simp add: f_def add_mult_distrib add.assoc)
  then show f: "f * b + (r + 1) * p mod b = p * W" unfolding W by (simp add: algebra_simps)
  assume nz: "(r + 1) * p mod b \<noteq> 0"
  define y where "y = (r + 1) * p"
  have "0 < y mod b" using nz unfolding y_def by simp
  then have "y + b - 1 = (y mod b - 1) + (y div b + 1) * b" using div_mult_mod_eq [of y b] unfolding distrib_right by linarith
  then have "(y + b - 1) div b = (y div b + 1) + (y mod b - 1) div b" using assms(1) by (simp only: div_mult_self1 neq0_conv)
  moreover have "y mod b < b" using assms(1) by simp
  then have "y mod b - 1 < b" by simp
  ultimately have "u = f + 1" unfolding u_def f_def y_def [symmetric] by simp
  moreover have "y mod b < b" using assms(1) by simp
  ultimately show "u * b = p * W + (b - (r + 1) * p mod b)" using f unfolding y_def [symmetric] by simp
qed

text \<open>
  The test of the macro: the rounded-up reciprocal \<open>u\<close> of \<open>b\<close> is tried at \<open>x = q * b - 1\<close>, the
  dividend of the form \<open>q * b - 1\<close> with the largest product. If it is right there, it is right everywhere;
  if not, its error is large and that of the rounded-down reciprocal is small.
\<close>

lemma test_point:
  fixes b q :: nat
  assumes "0 < b" and "0 < q"
  shows "(q * b - 1) div b = q - 1" and "(q * b - 1) mod b = b - 1"
proof -
  have e: "q * b - 1 = (b - 1) + (q - 1) * b" using assms by (cases q; cases b) simp_all
  have "((b - 1) + (q - 1) * b) div b = (q - 1) + (b - 1) div b" using assms(1) by (simp only: div_mult_self1 neq0_conv)
  then show "(q * b - 1) div b = q - 1" unfolding e using assms(1) by simp
  show "(q * b - 1) mod b = b - 1" unfolding e using assms(1) by (simp only: mod_mult_self1) simp
qed

lemma test_fails:
  fixes u b e p W q :: nat
  assumes "u * b = p * W + e" and "0 < b" and "0 < q" and "q * b \<le> W" and "0 < p"
    and "u * (q * b - 1) div (p * W) \<noteq> (q * b - 1) div b"
  shows "p < e"
proof (rule ccontr)
  assume "\<not> p < e"
  then have "(q * b - 1) * e \<le> (q * b - 1) * p" by simp
  also have "0 < q * b" using assms(2,3) by simp
  then have "(q * b - 1) * p < W * p" using assms(4,5) by (intro mult_strict_right_mono) linarith+
  finally have "(q * b - 1) * e < p * W * (b - (q * b - 1) mod b)"
    using assms(2) by (simp only: test_point(2) [OF assms(2,3)]) (simp add: mult.commute [of p])
  from reciprocal_up [OF assms(1) this] show False using assms(6) by simp
qed

lemma test_passes:
  fixes u b e p W q r n :: nat
  assumes u: "u * b = p * W + e" and e: "e < b" "b < 2 * p" and q: "0 < q" "W = q * b + r + 1" "r + 1 < b"
    and test: "u * (q * b - 1) div (p * W) = (q * b - 1) div b" and n: "n < W"
  shows "u * n div (p * W) = n div b"
proof (rule reciprocal_up [OF u])
  let ?x = "q * b - 1"
  have b: "0 < b" using e by simp
  have pW: "0 < p * W" using e q by auto
  have x1: "?x + 1 = q * b" using b q(1) by simp
  have "u * ?x div (p * W) < q" using test test_point [OF b q(1)] q(1) by simp
  then have "u * ?x < q * (p * W)" using pW by (simp add: div_less_iff_less_mult)
  then have "b * (u * ?x) < b * (q * (p * W))" using b by simp
  moreover have "b * (u * ?x) = ?x * (p * W) + ?x * e" unfolding distrib_left [symmetric] u [symmetric] by (simp add: ac_simps)
  moreover have "b * (q * (p * W)) = ?x * (p * W) + p * W"
    using x1 by (metis add_mult_distrib mult.assoc mult.commute mult_1)
  ultimately have xe: "?x * e < p * W" by simp
  show "n * e < p * W * (b - n mod b)"
  proof (cases "n \<le> ?x")
    case True
    have "1 \<le> b - n mod b" using b by (simp add: Suc_leI)
    then have "p * W \<le> p * W * (b - n mod b)" by simp
    moreover have "n * e \<le> ?x * e" using True by (rule mult_le_mono1)
    ultimately show ?thesis using xe by linarith
  next
    case False
    then obtain j where j: "n = q * b + j" using x1 by (metis add.commute le_add_diff_inverse not_less_eq_eq plus_1_eq_Suc)
    then have "j \<le> r" using n q(2) by simp
    then have "n mod b = j" using j q(3) by simp
    then have "2 \<le> b - n mod b" using \<open>j \<le> r\<close> q(3) by simp
    then have "p * W * 2 \<le> p * W * (b - n mod b)" by (rule mult_le_mono2)
    moreover have "n * e \<le> n * (2 * p)" using e by (intro mult_le_mono2) simp
    moreover have "n * (2 * p) < W * (2 * p)" using n e by (intro mult_strict_right_mono) auto
    moreover have "W * (2 * p) = p * W * 2" by simp
    ultimately show ?thesis by linarith
  qed
qed


section \<open>The lowest set bit\<close>

lemma odd_and_minus: "bit (x :: 'a :: len word) 0 \<Longrightarrow> x AND - x = 1"
proof -
  assume o: "bit x 0"
  have "unset_bit 0 x + 1 = unset_bit 0 x OR 1" by (rule disjunctive_add) (auto simp: bit_simps)
  also have "\<dots> = x" by (rule bit_word_eqI) (use o in \<open>auto simp: bit_simps\<close>)
  finally have "x - 1 = unset_bit 0 x" by (simp add: algebra_simps)
  then have "- x = NOT (unset_bit 0 x)" by (simp add: minus_eq_not_minus_1)
  then show ?thesis using o by (auto intro!: bit_word_eqI simp: bit_simps)
qed

lemma lowest_bit:
  assumes "(x :: 'a :: len word) \<noteq> 0"
  obtains i where "i < LENGTH('a)" "x AND - x = 2 ^ i" "2 ^ i dvd unat x"
proof -
  define i where "i = (LEAST i. bit x i)"
  have "\<exists>i. bit x i" using assms by (metis bit_word_eqI bit_0_eq bot_apply bot_bool_def)
  then have i: "bit x i" and low: "\<And>j. j < i \<Longrightarrow> \<not> bit x j" unfolding i_def by (auto intro: LeastI dest: not_less_Least)
  have li: "i < LENGTH('a)" using i by (rule bit_imp_le_length)
  define y where "y = drop_bit i x"
  have x: "x = push_bit i y" unfolding y_def
  proof (rule bit_word_eqI)
    fix n assume "n < LENGTH('a)"
    then show "bit x n = bit (push_bit i (drop_bit i x)) n" using low [of n] by (cases "n < i") (auto simp: bit_simps)
  qed
  have "- x = push_bit i (- y)" unfolding x by (simp add: push_bit_eq_mult)
  then have "x AND - x = push_bit i (y AND - y)" using x by simp
  moreover have "bit y 0" using i by (simp add: y_def bit_simps)
  ultimately have "x AND - x = 2 ^ i" using odd_and_minus [of y] by (simp add: push_bit_of_1)
  moreover have "take_bit i x = 0" by (rule bit_word_eqI) (use low in \<open>auto simp: bit_simps\<close>)
  then have "take_bit i (unat x) = 0" by (metis unsigned_take_bit_eq unsigned_0)
  then have "2 ^ i dvd unat x" by (simp add: take_bit_eq_mod mod_eq_0_iff_dvd)
  ultimately show ?thesis using that li by blast
qed


section \<open>The multipliers as numbers\<close>

lemma ilog2_32:
  assumes "(b :: 32 word) \<noteq> 0"
  obtains k where "ilog2 b = Some k" "k < 32" "2 ^ k \<le> unat b" "unat b < 2 * 2 ^ k"
proof -
  have "(ucast b :: 64 word) \<noteq> 0" using assms unat_up [of b] by (metis unat_0 unat_eq_zero)
  from ilog2_spec(2) [OF this] obtain k where k: "ilog2 b = Some k" "2 ^ k \<le> unat b" "unat b < 2 * 2 ^ k"
    by (auto simp: ilog2_def unat_up)
  have "(2 :: nat) ^ k < 2 ^ 32" using k(2) less_2p32 [of b] by (rule le_less_trans)
  then have "k < 32" by (rule power_less_imp_less_exp [rotated]) simp
  with k that show ?thesis by blast
qed

lemma unat_ones: "unat (NOT 0 :: 64 word) = 2 ^ 64 - 1"
  by (simp add: unsigned_minus_1_eq_mask mask_eq_exp_minus_1)

lemma unat_ones_div: "unat (NOT 0 div x) = (2 ^ 64 - 1) div unat x" "unat (NOT 0 mod x) = (2 ^ 64 - 1) mod unat x"
  for x :: "64 word"
  by (simp_all only: unat_div_distrib unat_mod_distrib unat_ones)

lemma less_from_mult: "u * b < b * W \<Longrightarrow> u < (W :: nat)"
  by (metis mult.commute mult_less_cancel1)

text \<open>The reciprocals as numbers, when the divisor \<open>b\<close> is not the power of two \<open>p\<close>.\<close>

lemma unat_magic:
  fixes b p :: "32 word"
  assumes pb: "0 < unat p" "unat p < unat b"
  defines "q \<equiv> (2 ^ 64 - 1) div unat b" and "r \<equiv> (2 ^ 64 - 1) mod unat b"
  shows "unat (magic_down b p) = q * unat p + (r + 1) * unat p div unat b"
    and "(r + 1) * unat p mod unat b \<noteq> 0 \<Longrightarrow>
         unat (magic_up b p) = q * unat p + ((r + 1) * unat p + unat b - 1) div unat b"
proof -
  have b: "0 < unat b" and lt: "unat b < 2 ^ 32" "unat p < 2 ^ 32" using pb less_2p32 by auto
  note parts = reciprocal_parts [OF b, of "2 ^ 64" "unat p", folded q_def r_def]
  have qw: "unat (NOT 0 div ucast b :: 64 word) = q" "unat (NOT 0 mod ucast b :: 64 word) = r"
    by (simp_all only: unat_ones_div unat_up q_def r_def)
  have r: "r + 1 \<le> unat b" using b by (simp add: r_def Suc_leI)
  have "(r + 1) * unat p \<le> (2 ^ 32 - 1) * (2 ^ 32 - 1)" using r lt by (intro mult_le_mono) simp_all
  then have y: "(r + 1) * unat p + unat b < 2 ^ 64" "(r + 1) * unat p < 2 ^ 64" using lt by simp_all
  have r1: "unat (NOT 0 mod ucast b + 1 :: 64 word) = r + 1" using qw(2) r lt by (subst unat_add64) simp_all
  have yw: "unat ((NOT 0 mod ucast b + 1) * ucast p :: 64 word) = (r + 1) * unat p"
    using y(2) by (subst unat_mul64) (simp_all only: r1 unat_up)
  have big: "f < 2 ^ 64" if "f * unat b \<le> unat p * 2 ^ 64 + unat b" for f
  proof (rule less_from_mult)
    have "(unat p + 1) * 2 ^ 64 \<le> unat b * 2 ^ 64" using pb by (intro mult_le_mono1) simp
    moreover have "(2 :: nat) ^ 32 < 1 * 2 ^ 64" by simp
    ultimately show "f * unat b < unat b * 2 ^ 64" using that lt unfolding distrib_right by linarith
  qed
  have f: "q * unat p + (r + 1) * unat p div unat b < 2 ^ 64" by (rule big) (use parts(1) in simp)
  then have qp: "unat (NOT 0 div ucast b * ucast p :: 64 word) = q * unat p"
    by (subst unat_mul64) (simp_all only: qw unat_up add_lessD1)
  show "unat (magic_down b p) = q * unat p + (r + 1) * unat p div unat b"
    unfolding magic_down_def using f by (subst unat_add64) (simp_all only: qp unat_div_distrib yw unat_up)
  assume nz: "(r + 1) * unat p mod unat b \<noteq> 0"
  have u: "q * unat p + ((r + 1) * unat p + unat b - 1) div unat b < 2 ^ 64"
    by (rule big) (use parts(2) [OF _ nz] in simp)
  have yb: "unat ((NOT 0 mod ucast b + 1) * ucast p + ucast b :: 64 word) = (r + 1) * unat p + unat b"
    using y(1) by (subst unat_add64) (simp_all only: yw unat_up)
  have "unat ((NOT 0 mod ucast b + 1) * ucast p + ucast b - 1 :: 64 word) = (r + 1) * unat p + unat b - 1"
    using b by (subst unat_sub64) (unfold yb unat_1, linarith+)
  then show "unat (magic_up b p) = q * unat p + ((r + 1) * unat p + unat b - 1) div unat b"
    unfolding magic_up_def using u by (subst unat_add64) (simp_all only: qp unat_div_distrib unat_up)
qed

lemma unat_magic_test: "unat (magic_test m x p) = unat m * unat x div 2 ^ 64 div unat p"
proof -
  have low: "y AND 0xffffffff = ucast (lo32 y)" "drop_bit 32 y = ucast (hi32 y)" for y :: "64 word"
  proof -
    have m: "(0xffffffff :: 64 word) = mask 32" by (simp add: mask_eq_exp_minus_1)
    show "y AND 0xffffffff = ucast (lo32 y)" unfolding m by (auto intro!: bit_word_eqI simp: lo32_def bit_simps)
    show "drop_bit 32 y = ucast (hi32 y)"
      using unat_up [of "hi32 y"] by (intro word_unat_eq_iff [THEN iffD2]) (simp add: unat_halves unat_shr)
  qed
  define w where "w = drop_bit 32 (mul_u32_u32 (lo32 m) (lo32 x))"
  have "unat w = (0 + unat (lo32 m) * unat (lo32 x)) div 2 ^ 32" by (simp only: w_def unat_shr unat_mul32 add_0)
  from xprod_upper [OF this, of False] show ?thesis
    unfolding magic_test_def Let_def low(1)
    by (simp add: unat_div_distrib unat_up low(2) [of m] low(2) [of x] mul_u32_u32_def w_def mult.commute)
qed

lemma unat_pow: "k < LENGTH('a) \<Longrightarrow> unat ((2 :: 'a :: len word) ^ k) = 2 ^ k"
proof -
  assume "k < LENGTH('a)"
  then have "(2 :: nat) ^ k < 2 ^ LENGTH('a)" by (intro power_strict_increasing) simp_all
  then have "unat (of_nat (2 ^ k) :: 'a word) = 2 ^ k" by (simp only: unsigned_of_nat take_bit_nat_eq_self of_nat_id)
  then show ?thesis by simp
qed

lemma top_bit:
  assumes "2 ^ j \<le> unat x" and "unat x < 2 * 2 ^ j"
  shows "bit (x :: 'a :: len word) j"
proof -
  have "unat x div 2 ^ j = 1" using assms by (intro div_nat_eqI) simp_all
  then have "bit (unat x) j" by (simp add: bit_iff_odd)
  then show ?thesis by (simp add: bit_unsigned_iff)
qed

lemma magic_reduce_exact:
  assumes m: "m \<noteq> 0" and p: "unat p = 2 ^ k" and dvd: "\<And>j. j < 64 \<Longrightarrow> 2 ^ j dvd unat m \<Longrightarrow> j \<le> k"
  shows "\<exists>j m' p'. magic_reduce m p = Some (m', p') \<and> unat m' * 2 ^ j = unat m \<and> unat p' * 2 ^ j = unat p"
proof -
  obtain l where l: "l < 64" "m AND - m = 2 ^ l" "2 ^ l dvd unat m" using lowest_bit [OF m] by auto
  define bits where "bits = push_bit 1 (NOT (ucast (- (m AND - m)) OR ucast (drop_bit 32 m)) :: 32 word)"
  have red: "magic_reduce m p =
      (if bits = 0 then Some (m div 2 ^ l, ucast (ucast p div 2 ^ l :: 64 word))
       else do { j \<leftarrow> ilog2 bits; Some (drop_bit j m, drop_bit j p) })"
    unfolding magic_reduce_def Let_def bits_def l(2) by (rule refl)
  have pow: "unat ((2 :: 64 word) ^ l) = 2 ^ l" using l(1) by (intro unat_pow) simp
  have split: "2 ^ j dvd unat m" "2 ^ j dvd unat p" if "j \<le> l" for j
    using that l(1,3) dvd [OF l(1,3)] p by (auto intro: dvd_trans [OF le_imp_power_dvd] simp: le_imp_power_dvd)
  show ?thesis
  proof (cases "bits = 0")
    case True
    have "unat (m div 2 ^ l) = unat m div 2 ^ l" by (simp only: unat_div_distrib pow)
    moreover have "unat (ucast (ucast p div 2 ^ l :: 64 word) :: 32 word) = unat p div 2 ^ l"
      using less_2p32 [of p] by (simp only: unat_lo unat_div_distrib pow unat_up mod_less div_less_dividend le_less_trans [OF div_le_dividend])
    moreover have "magic_reduce m p = Some (m div 2 ^ l, ucast (ucast p div 2 ^ l :: 64 word))"
      using True by (simp add: red)
    ultimately show ?thesis using split [of l] by (intro exI [of _ l]) simp
  next
    case False
    obtain j where j: "ilog2 bits = Some j" "2 ^ j \<le> unat bits" "unat bits < 2 * 2 ^ j" using ilog2_32 [OF False] by metis
    have "bit bits j" using j(2,3) by (rule top_bit)
    then have "1 \<le> j" "j - 1 < 32" "\<not> bit (- (2 ^ l) :: 64 word) (j - 1)"
      unfolding bits_def l(2) bit_push_bit_iff bit_not_iff bit_or_iff bit_unsigned_iff by (auto simp: possible_bit_def)
    then have "j \<le> l" by (auto simp: minus_exp_eq_not_mask bit_not_iff bit_mask_iff)
    moreover have "magic_reduce m p = Some (drop_bit j m, drop_bit j p)"
      using False j(1) by (simp add: red)
    moreover have "unat (drop_bit j m) = unat m div 2 ^ j" "unat (drop_bit j p) = unat p div 2 ^ j"
      unfolding unat_drop_bit_eq by (simp_all only: drop_bit_eq_div)
    ultimately show ?thesis using split [of j] by (intro exI [of _ j]) simp
  qed
qed

text \<open>The three ways in which the macro finds its multiplier, each right for every dividend.\<close>

lemma pow_and_minus: "(2 :: 'a :: len word) ^ k AND - (2 ^ k) = 2 ^ k"
proof -
  have "(2 :: 'a word) ^ k AND - (2 ^ k) = push_bit k 1 AND push_bit k (- 1)" by (simp add: push_bit_eq_mult)
  also have "\<dots> = push_bit k (1 AND - 1)" by (simp only: push_bit_and)
  finally show ?thesis by (simp add: push_bit_of_1)
qed

lemma special_exact:
  fixes b low :: "32 word" and n :: "64 word"
  assumes b: "b \<noteq> 0" and low: "b AND - b = low"
    and special: "NOT 0 mod (ucast (b div low) :: 64 word) = 0"
  shows "unat (arch_xprod_64 (NOT 0 div ucast (b div low)) (n div ucast low) True) = unat n div unat b"
proof -
  obtain i where i: "i < 32" "low = 2 ^ i" "2 ^ i dvd unat b" using lowest_bit [OF b] low by auto
  have ul: "unat low = 2 ^ i" unfolding i(2) using i(1) by (intro unat_pow) simp
  define c where "c = unat (b div low)"
  have c: "c = unat b div 2 ^ i" by (simp only: c_def unat_div_distrib ul)
  then have bc: "unat b = 2 ^ i * c" using i(3) by simp
  moreover have "0 < unat b" using b by (simp add: unat_gt_0)
  ultimately have c0: "0 < c" by simp
  have uc: "unat (ucast (b div low) :: 64 word) = c" by (simp only: unat_up c_def)
  have z: "(2 ^ 64 - 1) mod c = 0" using arg_cong [OF special, of unat] by (simp only: unat_ones_div uc unat_0)
  have m: "unat (NOT 0 div ucast (b div low) :: 64 word) * c + 1 = 2 ^ 64"
    using div_mult_mod_eq [of "2 ^ 64 - 1 :: nat" c] z by (simp only: unat_ones_div uc) simp
  have un: "unat (n div ucast low) = unat n div 2 ^ i" by (simp only: unat_div_distrib unat_up ul)
  have "(unat (n div ucast low) + 1) * 1 \<le> 2 ^ 64 * (unat (n div ucast low) mod c + 1)"
    using less_2p64 [of "n div ucast low"] by simp
  from reciprocal_down [OF m _ c0 this]
  have "unat (NOT 0 div ucast (b div low) :: 64 word) * (unat (n div ucast low) + 1) div 2 ^ 64 = unat n div 2 ^ i div c"
    by (simp only: un zero_less_one)
  then show ?thesis unfolding arch_xprod_64_exact bc div_mult2_eq by (simp add: distrib_left add.commute)
qed

lemma dvd_pow2: "d dvd (2 :: nat) ^ j \<Longrightarrow> \<exists>i. d = 2 ^ i"
proof (induction j arbitrary: d)
  case (Suc j)
  show ?case
  proof (cases "even d")
    case True
    then obtain e where e: "d = 2 * e" by (rule evenE)
    then have "\<exists>i. e = 2 ^ i" using Suc.prems by (intro Suc.IH) simp
    then show ?thesis using e by (metis power_Suc)
  next
    case False
    then have "coprime d 2" by simp
    then have "d dvd 2 ^ j" using Suc.prems by (simp add: coprime_dvd_mult_right_iff)
    then show ?thesis by (rule Suc.IH)
  qed
qed (auto intro: exI [of _ 0])

text \<open>
  A divisor \<open>b\<close> between \<open>p = 2 ^ k\<close> and \<open>2 * p\<close> that is not in the special case: the error \<open>e\<close> of the
  rounded-up reciprocal and what the macro knows of it.
\<close>

lemma not_special:
  fixes b :: "32 word"
  assumes b: "b \<noteq> 0" and k: "2 ^ k \<le> unat b" "unat b < 2 * 2 ^ k" "k < 32"
    and ns: "NOT 0 mod (ucast (b div (b AND - b)) :: 64 word) \<noteq> 0"
  defines "r \<equiv> (2 ^ 64 - 1) mod unat b"
  shows "2 ^ k < unat b" and "(r + 1) * 2 ^ k mod unat b \<noteq> 0" and "r + 1 < unat b"
proof -
  have pow: "unat b \<noteq> 2 ^ j" for j
  proof
    assume e: "unat b = 2 ^ j"
    have "j < 32" using less_2p32 [of b] unfolding e by (rule power_less_imp_less_exp [rotated]) simp
    then have "unat b = unat ((2 :: 32 word) ^ j)" using e by (simp add: unat_pow)
    then have "b = 2 ^ j" by (simp only: word_unat_eq_iff)
    then have "b AND - b = b" by (simp add: pow_and_minus)
    moreover have "unat (b div b) = 1" using b by (simp add: unat_div_distrib unat_gt_0)
    ultimately have "unat (NOT 0 mod (ucast (b div (b AND - b)) :: 64 word)) = 0" by (simp only: unat_ones_div unat_up mod_by_1)
    then show False using ns by (simp only: unat_eq_zero)
  qed
  then show "2 ^ k < unat b" using k(1) le_neq_implies_less by metis
  have b0: "0 < unat b" using b by (simp add: unat_gt_0)
  have nd: "\<not> unat b dvd 2 ^ j" for j using pow dvd_pow2 by blast
  have W: "(2 :: nat) ^ 64 = (2 ^ 64 - 1) div unat b * unat b + (r + 1)" by (simp add: r_def add.assoc [symmetric])
  show "(r + 1) * 2 ^ k mod unat b \<noteq> 0"
  proof
    assume "(r + 1) * 2 ^ k mod unat b = 0"
    with reciprocal_parts(1) [OF b0, of "2 ^ 64" "2 ^ k", folded r_def] have "unat b dvd 2 ^ k * 2 ^ 64"
      by (metis add_0_right dvd_triv_right zero_less_numeral zero_less_power)
    then show False using nd [of "k + 64"] unfolding power_add by blast
  qed
  have "r + 1 \<noteq> unat b" using W nd [of 64] by (metis dvd_add dvd_refl dvd_triv_right)
  moreover have "r < unat b" using b0 by (simp add: r_def)
  ultimately show "r + 1 < unat b" by simp
qed

lemma div_pow_of_magic:
  fixes m p n :: nat
  assumes "m' * 2 ^ j = m" and "p' * 2 ^ j = p" and "m * n div (p * W) = d"
  shows "m' * n div W div p' = d"
proof -
  have "m * n = (2 ^ j) * (m' * n)" "p * W = (2 ^ j) * (W * p')" using assms(1,2) by (simp_all add: ac_simps)
  then have "m * n div (p * W) = m' * n div (W * p')" by (simp only: div_mult_mult1 power_not_zero zero_neq_numeral [symmetric] not_False_eq_True)
  then show ?thesis using assms(3) by (simp add: div_mult2_eq)
qed

lemma magic_test_iff:
  fixes b p :: "32 word"
  assumes b: "b \<noteq> 0"
  defines "x \<equiv> NOT 0 div ucast b * ucast b - 1 :: 64 word" and "q \<equiv> (2 ^ 64 - 1) div unat b"
  shows "magic_test m x p = x div ucast b \<longleftrightarrow>
           unat m * (q * unat b - 1) div (unat p * 2 ^ 64) = (q * unat b - 1) div unat b"
    and "0 < q"
proof -
  have b0: "0 < unat b" using b by (simp add: unat_gt_0)
  have "unat b \<le> 2 ^ 64 - 1" using less_2p32 [of b] by simp
  then show q0: "0 < q" unfolding q_def using b0 by (simp add: div_greater_zero_iff)
  have qb: "q * unat b < 2 ^ 64" using div_times_less_eq_dividend [of "2 ^ 64 - 1 :: nat" "unat b"] unfolding q_def [symmetric]
    by (rule le_less_trans) simp
  have "unat (NOT 0 div ucast b * ucast b :: 64 word) = q * unat b"
    using qb by (subst unat_mul64) (simp_all only: unat_ones_div unat_up q_def)
  then have x: "unat x = q * unat b - 1"
    unfolding x_def using b0 q0 by (subst unat_sub64) (simp_all only: unat_1 Suc_le_eq One_nat_def nat_0_less_mult_iff simp_thms)
  show "magic_test m x p = x div ucast b \<longleftrightarrow>
           unat m * (q * unat b - 1) div (unat p * 2 ^ 64) = (q * unat b - 1) div unat b"
    unfolding word_unat_eq_iff unat_magic_test unat_div_distrib unat_up x by (simp only: div_mult2_eq [symmetric] mult.commute)
qed

text \<open>The two multipliers of a divisor that is not in the special case.\<close>

lemma magic_errors:
  fixes b p :: "32 word"
  assumes b: "b \<noteq> 0" and p: "unat p = 2 ^ k" and k: "2 ^ k \<le> unat b" "unat b < 2 * 2 ^ k" "k < 32"
    and ns: "NOT 0 mod (ucast (b div (b AND - b)) :: 64 word) \<noteq> 0"
  obtains e where "0 < e" "e < unat b" "unat (magic_down b p) * unat b + e = unat p * 2 ^ 64"
    "unat (magic_up b p) * unat b = unat p * 2 ^ 64 + (unat b - e)"
proof -
  define q r where "q = (2 ^ 64 - 1) div unat b" and "r = (2 ^ 64 - 1) mod unat b"
  have b0: "0 < unat b" using b by (simp add: unat_gt_0)
  note ns = not_special [OF b k ns, folded r_def p]
  have p0: "0 < unat p" using p by simp
  note magic = unat_magic [OF p0 ns(1), folded q_def r_def]
  define e where "e = (r + 1) * unat p mod unat b"
  have e: "0 < e" "e < unat b" using ns(2) b0 by (simp_all add: e_def)
  note parts = reciprocal_parts [OF b0, of "2 ^ 64" "unat p", folded q_def r_def e_def]
  show thesis
  proof (rule that [OF e])
    show "unat (magic_down b p) * unat b + e = unat p * 2 ^ 64" unfolding magic(1) by (rule parts(1)) simp
    show "unat (magic_up b p) * unat b = unat p * 2 ^ 64 + (unat b - e)"
      unfolding magic(2) [OF ns(2)] using e(1) by (intro parts(2)) simp_all
  qed
qed

lemma magic_exact:
  fixes b p :: "32 word" and n :: "64 word"
  assumes b: "b \<noteq> 0" and p: "unat p = 2 ^ k" and k: "2 ^ k \<le> unat b" "unat b < 2 * 2 ^ k" "k < 32"
    and ns: "NOT 0 mod (ucast (b div (b AND - b)) :: 64 word) \<noteq> 0"
  defines "x \<equiv> NOT 0 div ucast b * ucast b - 1 :: 64 word"
  shows "magic_test (magic_up b p) x p \<noteq> x div ucast b \<Longrightarrow>
           unat (magic_down b p) * (unat n + 1) div (unat p * 2 ^ 64) = unat n div unat b"
    and "magic_test (magic_up b p) x p = x div ucast b \<Longrightarrow>
           unat (magic_up b p) * unat n div (unat p * 2 ^ 64) = unat n div unat b"
proof -
  define q r where "q = (2 ^ 64 - 1) div unat b" and "r = (2 ^ 64 - 1) mod unat b"
  have b0: "0 < unat b" and p0: "0 < unat p" using b p by (simp_all add: unat_gt_0)
  obtain e where e: "0 < e" "e < unat b" and down: "unat (magic_down b p) * unat b + e = unat p * 2 ^ 64"
    and up: "unat (magic_up b p) * unat b = unat p * 2 ^ 64 + (unat b - e)" by (rule magic_errors [OF b p k ns])
  note test = magic_test_iff [OF b, folded x_def q_def]
  have W: "2 ^ 64 = q * unat b + r + 1" by (simp add: q_def r_def)
  show "unat (magic_down b p) * (unat n + 1) div (unat p * 2 ^ 64) = unat n div unat b"
    if "magic_test (magic_up b p) x p \<noteq> x div ucast b"
  proof (rule reciprocal_down [OF down e(1) b0])
    have "q * unat b \<le> 2 ^ 64" using W by linarith
    with that have "unat p < unat b - e" by (intro test_fails [OF up b0 test(2) _ p0]) (simp_all only: test(1) not_False_eq_True)
    then have "e \<le> unat p" using k(2) p by linarith
    then have "(unat n + 1) * e \<le> 2 ^ 64 * unat p" using less_2p64 [of n] by (intro mult_le_mono) simp_all
    also have "\<dots> \<le> unat p * 2 ^ 64 * (unat n mod unat b + 1)" by simp
    finally show "(unat n + 1) * e \<le> unat p * 2 ^ 64 * (unat n mod unat b + 1)" .
  qed
  have r: "r + 1 < unat b" using not_special(3) [OF b k ns] by (simp only: r_def)
  show "unat (magic_up b p) * unat n div (unat p * 2 ^ 64) = unat n div unat b"
    if "magic_test (magic_up b p) x p = x div ucast b"
    by (rule test_passes [OF up _ _ test(2) W r _ less_2p64]) (use e k(2) p that in \<open>simp_all add: test(1)\<close>)
qed

text \<open>The multiplier has no more factors of two than \<open>p\<close>, so that the reduction leaves \<open>p\<close> at least 1.\<close>

lemma magic_up_odd:
  fixes b p :: "32 word"
  assumes b: "b \<noteq> 0" and p: "unat p = 2 ^ k" and k: "2 ^ k \<le> unat b" "unat b < 2 * 2 ^ k" "k < 32"
    and ns: "NOT 0 mod (ucast (b div (b AND - b)) :: 64 word) \<noteq> 0"
  shows "j < 64 \<Longrightarrow> 2 ^ j dvd unat (magic_up b p) \<Longrightarrow> j \<le> k" and "magic_up b p \<noteq> 0"
proof -
  obtain e where e: "0 < e" "e < unat b"
    and up: "unat (magic_up b p) * unat b = unat p * 2 ^ 64 + (unat b - e)" by (rule magic_errors [OF b p k ns])
  show "j \<le> k" if "j < 64" "2 ^ j dvd unat (magic_up b p)"
  proof -
    have "2 ^ j dvd unat p * 2 ^ 64 + (unat b - e)" unfolding up [symmetric] using that(2) by (rule dvd_mult2)
    moreover have "(2 :: nat) ^ j dvd unat p * 2 ^ 64" using that(1) by (intro dvd_mult le_imp_power_dvd) simp
    ultimately have "2 ^ j dvd unat b - e" by (simp only: dvd_add_right_iff)
    then have "2 ^ j \<le> unat b - e" using e(2) by (intro dvd_imp_le) simp_all
    then have "(2 :: nat) ^ j < 2 ^ Suc k" using e(1) k(2) by simp
    then show ?thesis using power_less_imp_less_exp [of "2 :: nat" j "Suc k"] by simp
  qed
  have "0 < unat (magic_up b p) * unat b" unfolding up using p by (simp only: add_gr_0 nat_0_less_mult_iff) simp
  then show "magic_up b p \<noteq> 0" by auto
qed

lemma div64_const32_exact:
  fixes b :: "32 word"
  assumes b: "b \<noteq> 0"
  shows "\<exists>d. div64_const32 n b = Some d \<and> unat d = unat n div unat b"
proof -
  obtain k where k: "ilog2 b = Some k" "k < 32" "2 ^ k \<le> unat b" "unat b < 2 * 2 ^ k" by (rule ilog2_32 [OF b])
  define p :: "32 word" where "p = push_bit k 1"
  have p: "unat p = 2 ^ k" unfolding p_def push_bit_of_1 using k(2) by (intro unat_pow) simp
  have p0: "p \<noteq> 0" using p by auto
  let ?x = "NOT 0 div ucast b * ucast b - 1 :: 64 word"
  let ?special = "NOT 0 mod (ucast (b div (b AND - b)) :: 64 word) = 0"
  note run = div64_const32_def [of n b, unfolded k(1) Option.bind.bind_lunit Let_def, folded p_def]
  note magic = magic_exact [OF b p k(3,4,2)] and odd = magic_up_odd [OF b p k(3,4,2)]
  consider (special) ?special | (bias) "\<not> ?special" "magic_test (magic_up b p) ?x p \<noteq> ?x div ucast b"
    | (exact) "\<not> ?special" "magic_test (magic_up b p) ?x p = ?x div ucast b" by blast
  then show ?thesis
  proof cases
    case special
    have "unat (1 :: 32 word) = 1" by simp
    with special special_exact [OF b refl special, of n] show ?thesis
      unfolding run by (simp add: unat_div_distrib unat_up)
  next
    case bias
    have "unat (arch_xprod_64 (magic_down b p) n True) div unat p = unat n div unat b"
      using magic(1) [OF bias, of n] unfolding arch_xprod_64_exact div_mult2_eq mult.commute [of "unat p"]
      by (simp add: distrib_left add.commute)
    then show ?thesis unfolding run if_not_P [OF bias(1)] if_P [OF bias(2)] using p0 by (simp add: unat_div_distrib unat_up)
  next
    case exact
    obtain j m' p' where r: "magic_reduce (magic_up b p) p = Some (m', p')"
      "unat m' * 2 ^ j = unat (magic_up b p)" "unat p' * 2 ^ j = unat p"
      using magic_reduce_exact [OF odd(2) [OF exact(1)] p odd(1) [OF exact(1)]] by blast
    have "unat (arch_xprod_64 m' n False) div unat p' = unat n div unat b"
      using div_pow_of_magic [OF r(2,3) magic(2) [OF exact, of n]] by (simp only: arch_xprod_64_exact if_False add_0)
    moreover have "p' \<noteq> 0" using r(3) p by auto
    ultimately show ?thesis unfolding run if_not_P [OF exact(1)] using r(1) exact(2) by (simp add: unat_div_distrib unat_up)
  qed
qed


section \<open>The macro \<^verbatim>\<open>do_div\<close>\<close>

lemma power_of_2_branch:
  fixes n :: "64 word"
  assumes "is_power_of_2 base"
  shows "\<exists>k. ilog2 base = Some k \<and> unat base = 2 ^ k \<and> unat (n AND ucast (base - 1)) = unat n mod 2 ^ k"
proof -
  obtain i where i: "i < 32" "base = 2 ^ i" using assms by (auto simp: is_power_of_2_iff)
  then have u: "unat base = 2 ^ i" by (simp add: unat_pow)
  obtain k where k: "ilog2 base = Some k" "2 ^ k \<le> unat base" "unat base < 2 * 2 ^ k"
    using ilog2_32 [of base] assms by (auto simp: is_power_of_2_def)
  have "k = i" using k(2,3) unfolding u by (intro log_unique [of k "2 ^ i" i]) simp_all
  moreover have "(ucast (base - 1) :: 64 word) = mask i"
    unfolding i(2) align_mask using i(1) by (auto intro!: bit_word_eqI simp: bit_simps)
  then have "n AND ucast (base - 1) = take_bit i n" by (simp only: take_bit_eq_mask)
  then have "unat (n AND ucast (base - 1)) = unat n mod 2 ^ i"
    using trans [OF unsigned_take_bit_eq [of i n] take_bit_eq_mod] by (simp only:)
  ultimately show ?thesis using k(1) u by blast
qed

lemma low_remainder:
  fixes n q :: "64 word" and base :: "32 word"
  assumes "unat q = unat n div unat base"
  shows "ucast n - ucast q * base = (of_nat (unat n mod unat base) :: 32 word)"
proof -
  have "(of_nat (unat n) :: 32 word) = of_nat (unat q * unat base + unat n mod unat base)" unfolding assms by simp
  moreover have "(of_nat (unat x) :: 32 word) = ucast x" for x :: "64 word" by (simp add: of_nat_unat)
  ultimately show ?thesis by simp
qed

text \<open>The macro, on every path it can take.\<close>

lemma do_div_macro_eq:
  "do_div_macro const n base =
     (if base = 0 then None
      else Some (of_nat (unat n mod unat base), of_nat (unat n div unat base)))"
proof -
  consider (power) "const" "is_power_of_2 base" | (const) "const" "\<not> is_power_of_2 base" "base \<noteq> 0"
    | (var) "\<not> const \<or> base = 0" by blast
  then show ?thesis
  proof cases
    case power
    obtain k where k: "ilog2 base = Some k" "unat base = 2 ^ k" "unat (n AND ucast (base - 1)) = unat n mod 2 ^ k"
      using power_of_2_branch [OF power(2)] by blast
    have "base \<noteq> 0" using power(2) by (simp add: is_power_of_2_def)
    moreover have "(ucast (n AND ucast (base - 1)) :: 32 word) = of_nat (unat n mod 2 ^ k)"
      unfolding k(3) [symmetric] by (simp only: of_nat_unat)
    moreover have "drop_bit k n = of_nat (unat n div 2 ^ k)" by (rule of_unat) (rule unat_shr)
    ultimately show ?thesis using power k(1,2) by (simp only: do_div_macro_def Option.bind.bind_lunit if_True if_False simp_thms)
  next
    case const
    obtain q where q: "div64_const32 n base = Some q" "unat q = unat n div unat base"
      using div64_const32_exact [OF const(3)] by blast
    then show ?thesis using const low_remainder [OF q(2)] by (simp add: do_div_macro_def of_unat)
  next
    case var
    then have "do_div_macro const n base = do_div n base" by (auto simp: do_div_macro_def is_power_of_2_def)
    then show ?thesis by (simp add: do_div_exact)
  qed
qed

text \<open>
  C37. Division by a constant is exact: on every path of the macro \<^verbatim>\<open>do_div\<close>, that is by a shift for a
  power of two, by multiplication with the reciprocal that \<^verbatim>\<open>__div64_const32\<close> finds and the 128-bit product of
  \<^verbatim>\<open>__arch_xprod_64\<close> for any other constant, and by the 32-bit or the long division when the divisor is not
  a constant, the quotient and the remainder are those of the exact division, for all 2^64 dividends
  and all divisors but 0, for which it traps.
\<close>

theorem do_div_all_paths:
  "do_div_macro const n base =
     (if base = 0 then None
      else Some (of_nat (unat n mod unat base), of_nat (unat n div unat base)))"
  by (rule do_div_macro_eq)

text \<open>
  The product alone: \<^verbatim>\<open>__arch_xprod_64\<close> is the upper word of the 128-bit number \<open>m * n\<close> or \<open>m * n + m\<close>,
  on both of its paths, although it computes with 64 bits.
\<close>

theorem arch_xprod_64_upper:
  "arch_xprod_64 m n bias = of_nat (((if bias then unat m else 0) + unat m * unat n) div 2 ^ 64)"
  by (rule of_unat) (rule arch_xprod_64_exact)

end
