(* ===== verification/Lib_Kernel.thy ===== *)
theory Lib_Kernel
  imports Lib_Divconst "HOL-Library.Signed_Division"
begin

text \<open>
  The arithmetic macros of \<^verbatim>\<open>include/rosx/kernel.h\<close>: limits of the integer types, rounding divisions, products with
  fractions, absolute values, minima and clamping. A macro takes the type of its arguments: those for unsigned arguments are
  modelled at 32 bits (64 bits where the name says so), with their wrap-around; those for signed arguments over the
  integers, with \<^term>\<open>None\<close> where the C expression is undefined, that is on overflow and division by zero.
  Comparisons are modelled over any linear order, for they do not compute.
\<close>

unbundle bit_operations_syntax

section \<open>Limits\<close>

definition USHRT_MAX :: "16 word" where "USHRT_MAX = NOT 0"
definition SHRT_MAX :: "16 word" where "SHRT_MAX = drop_bit 1 USHRT_MAX"
definition SHRT_MIN :: "16 word" where "SHRT_MIN = - SHRT_MAX - 1"
definition INT_MAX :: "32 word" where "INT_MAX = drop_bit 1 (NOT 0)"
definition INT_MIN :: "32 word" where "INT_MIN = - INT_MAX - 1"
definition LLONG_MAX :: "64 word" where "LLONG_MAX = drop_bit 1 (NOT 0)"
definition LLONG_MIN :: "64 word" where "LLONG_MIN = - LLONG_MAX - 1"
definition U8_MAX :: "8 word" where "U8_MAX = NOT 0"
definition S8_MAX :: "8 word" where "S8_MAX = drop_bit 1 U8_MAX"
definition S8_MIN :: "8 word" where "S8_MIN = - S8_MAX - 1"

definition REPEAT_BYTE :: "32 word \<Rightarrow> 32 word" where "REPEAT_BYTE x = (NOT 0 div 0xff) * x"

section \<open>Rounding\<close>

definition ALIGN_DOWN :: "32 word \<Rightarrow> 32 word \<Rightarrow> 32 word" where "ALIGN_DOWN x a = ALIGN (x - (a - 1)) a"
definition round_down :: "32 word \<Rightarrow> 32 word \<Rightarrow> 32 word" where "round_down x y = x AND NOT (round_mask y)"

definition DIV_ROUND_UP :: "32 word \<Rightarrow> 32 word \<Rightarrow> 32 word option" where
  "DIV_ROUND_UP n d = (if d = 0 then None else Some ((n + d - 1) div d))"

definition DIV_ROUND_DOWN_ULL :: "bool \<Rightarrow> 64 word \<Rightarrow> 32 word \<Rightarrow> 64 word option" where
  "DIV_ROUND_DOWN_ULL const ll d = do { (_, tmp) \<leftarrow> do_div_macro const ll d; Some tmp }"

definition DIV_ROUND_UP_ULL :: "bool \<Rightarrow> 64 word \<Rightarrow> 32 word \<Rightarrow> 64 word option" where
  "DIV_ROUND_UP_ULL const ll d = DIV_ROUND_DOWN_ULL const (ll + ucast d - 1) d"

definition rounddown :: "32 word \<Rightarrow> 32 word \<Rightarrow> 32 word option" where
  "rounddown x y = (if y = 0 then None else Some (x - x mod y))"

text \<open>Signed arithmetic of 32 bits: the result, unless it does not fit.\<close>

definition s32 :: "int \<Rightarrow> int option" where "s32 v = (if - (2 ^ 31) \<le> v \<and> v < 2 ^ 31 then Some v else None)"

definition s64 :: "int \<Rightarrow> int option" where "s64 v = (if - (2 ^ 63) \<le> v \<and> v < 2 ^ 63 then Some v else None)"

definition sdiv32 :: "int \<Rightarrow> int \<Rightarrow> int option" where "sdiv32 a b = (if b = 0 then None else s32 (a sdiv b))"

definition DIV_ROUND_CLOSEST_unsigned :: "32 word \<Rightarrow> 32 word \<Rightarrow> 32 word option" where
  "DIV_ROUND_CLOSEST_unsigned x d = (if d = 0 then None else Some ((x + d div 2) div d))"

definition DIV_ROUND_CLOSEST :: "int \<Rightarrow> int \<Rightarrow> int option" where
  "DIV_ROUND_CLOSEST x d =
     (if x > 0 then do { h \<leftarrow> sdiv32 d 2; t \<leftarrow> s32 (x + h); sdiv32 t d }
      else do { h \<leftarrow> sdiv32 d 2; t \<leftarrow> s32 (x - h); sdiv32 t d })"

definition mult_frac :: "32 word \<Rightarrow> 32 word \<Rightarrow> 32 word \<Rightarrow> 32 word option" where
  "mult_frac x numer denom =
     (if denom = 0 then None
      else let quot = x div denom; rem = x mod denom
           in Some (quot * numer + (rem * numer) div denom))"

section \<open>Halves, absolute values, comparisons\<close>

definition upper_32_bits :: "64 word \<Rightarrow> 32 word" where "upper_32_bits n = ucast (drop_bit 16 (drop_bit 16 n))"
definition lower_32_bits :: "64 word \<Rightarrow> 32 word" where "lower_32_bits n = ucast n"

definition abs_long :: "int \<Rightarrow> int option" where "abs_long x = (if x < 0 then s32 (- x) else Some x)"
definition abs64 :: "int \<Rightarrow> int option" where "abs64 x = (if x < 0 then s64 (- x) else Some x)"

definition min_macro :: "'a :: linorder \<Rightarrow> 'a \<Rightarrow> 'a" where "min_macro x y = (if x < y then x else y)"
definition max_macro :: "'a :: linorder \<Rightarrow> 'a \<Rightarrow> 'a" where "max_macro x y = (if x > y then x else y)"
definition min3 :: "'a :: linorder \<Rightarrow> 'a \<Rightarrow> 'a \<Rightarrow> 'a" where "min3 x y z = min_macro (min_macro x y) z"
definition max3 :: "'a :: linorder \<Rightarrow> 'a \<Rightarrow> 'a \<Rightarrow> 'a" where "max3 x y z = max_macro (max_macro x y) z"

definition min_not_zero :: "'a :: {linorder, zero} \<Rightarrow> 'a \<Rightarrow> 'a" where
  "min_not_zero x y = (if x = 0 then y else if y = 0 then x else min_macro x y)"

definition clamp :: "'a :: linorder \<Rightarrow> 'a \<Rightarrow> 'a \<Rightarrow> 'a" where "clamp val lo hi = min_macro (max_macro val lo) hi"

text \<open>The variants with a type: each argument is converted to it first.\<close>

definition min_t :: "('b \<Rightarrow> 'a :: linorder) \<Rightarrow> ('c \<Rightarrow> 'a) \<Rightarrow> 'b \<Rightarrow> 'c \<Rightarrow> 'a" where
  "min_t cx cy x y = (let min1 = cx x; min2 = cy y in if min1 < min2 then min1 else min2)"

definition max_t :: "('b \<Rightarrow> 'a :: linorder) \<Rightarrow> ('c \<Rightarrow> 'a) \<Rightarrow> 'b \<Rightarrow> 'c \<Rightarrow> 'a" where
  "max_t cx cy x y = (let max1 = cx x; max2 = cy y in if max1 > max2 then max1 else max2)"

definition clamp_t :: "('b \<Rightarrow> 'a :: linorder) \<Rightarrow> ('c \<Rightarrow> 'a) \<Rightarrow> ('d \<Rightarrow> 'a) \<Rightarrow> 'b \<Rightarrow> 'c \<Rightarrow> 'd \<Rightarrow> 'a" where
  "clamp_t cv cl ch val lo hi = min_t (\<lambda>v. v) ch (max_t cv cl val lo) hi"

definition clamp_val :: "('c \<Rightarrow> 'a :: linorder) \<Rightarrow> ('d \<Rightarrow> 'a) \<Rightarrow> 'a \<Rightarrow> 'c \<Rightarrow> 'd \<Rightarrow> 'a" where
  "clamp_val cl ch val lo hi = clamp_t (\<lambda>v. v) cl ch val lo hi"

section \<open>What they compute\<close>

theorem limits:
  "sint SHRT_MAX = 2 ^ 15 - 1" "sint SHRT_MIN = - (2 ^ 15)" "sint INT_MAX = 2 ^ 31 - 1" "sint INT_MIN = - (2 ^ 31)"
  "sint LLONG_MAX = 2 ^ 63 - 1" "sint LLONG_MIN = - (2 ^ 63)" "sint S8_MAX = 127" "sint S8_MIN = - 128"
  by (simp_all add: USHRT_MAX_def SHRT_MAX_def SHRT_MIN_def INT_MAX_def INT_MIN_def LLONG_MAX_def LLONG_MIN_def
      U8_MAX_def S8_MAX_def S8_MIN_def mask_eq_exp_minus_1)

lemma div_plus_bounds:
  assumes "0 < (d :: nat)"
  shows "n \<le> (n + d - 1) div d * d" and "n \<le> q * d \<Longrightarrow> (n + d - 1) div d \<le> q"
proof -
  show "n \<le> (n + d - 1) div d * d"
    using assms div_mult_mod_eq [of "n + d - 1" d] mod_less_divisor [OF assms, of "n + d - 1"] by linarith
  assume "n \<le> q * d"
  then have "n + d - 1 < (q + 1) * d" using assms by (simp add: distrib_right)
  then show "(n + d - 1) div d \<le> q" using less_mult_imp_div_less [of "n + d - 1" "q + 1" d] by simp
qed

text \<open>
  \<^verbatim>\<open>DIV_ROUND_UP\<close> gives the least number of pieces of size \<open>d\<close> that hold \<open>n\<close>, as long as \<open>n + d - 1\<close> does not
  wrap around; its variant for 64 bits does so by \<^verbatim>\<open>do_div\<close>, on every path of it.
\<close>

lemma unat_plus_minus1:
  assumes "0 < unat d" and "unat n + unat d \<le> 2 ^ LENGTH('a)"
  shows "unat (n + d - 1 :: 'a :: len word) = unat n + unat d - 1"
proof -
  have "n + d - 1 = of_nat (unat n + unat d - 1)" using assms(1) by (simp add: of_nat_diff)
  moreover have "unat n + unat d - 1 < 2 ^ LENGTH('a)" using assms by linarith
  ultimately show ?thesis by (simp only: unsigned_of_nat take_bit_nat_eq_self of_nat_id)
qed

theorem div_round_up:
  assumes "d \<noteq> 0" and "unat n + unat d \<le> 2 ^ 32"
  shows "\<exists>q. DIV_ROUND_UP n d = Some q \<and> unat n \<le> unat q * unat d \<and> (\<forall>k. unat n \<le> k * unat d \<longrightarrow> unat q \<le> k)"
proof -
  have "0 < unat d" using assms(1) by (simp add: unat_gt_0)
  then show ?thesis using assms div_plus_bounds [of "unat d" "unat n"] unat_plus_minus1 [of d n]
    by (simp add: DIV_ROUND_UP_def unat_div)
qed

theorem div_round_up_ull:
  assumes "d \<noteq> 0" and "unat n + unat d \<le> 2 ^ 64"
  shows "\<exists>q. DIV_ROUND_UP_ULL const n d = Some q \<and> unat n \<le> unat q * unat d \<and> (\<forall>k. unat n \<le> k * unat d \<longrightarrow> unat q \<le> k)"
proof -
  have d: "0 < unat d" "unat (ucast d :: 64 word) = unat d" using assms(1) by (simp_all add: unat_gt_0 unat_up)
  then have "unat (n + ucast d - 1) = unat n + unat d - 1" using unat_plus_minus1 [of "ucast d :: 64 word" n] assms(2) by simp
  moreover define q :: "64 word" where "q = of_nat (unat (n + ucast d - 1) div unat d)"
  moreover have "unat q = unat (n + ucast d - 1) div unat d" 
    using less_2p64 [of "n + ucast d - 1"] by (simp add: q_def unsigned_of_nat take_bit_nat_eq_self le_less_trans [OF div_le_dividend])
  ultimately show ?thesis using assms(1) div_plus_bounds [OF d(1), of "unat n"]
    by (auto simp: DIV_ROUND_UP_ULL_def DIV_ROUND_DOWN_ULL_def do_div_macro_eq)
qed

text \<open>
  Rounding to the closest integer, of positive and of negative numbers: C divides towards zero, so the macro moves the
  number away from zero by half of the divisor first.
\<close>

lemma sdiv_pos: "0 \<le> a \<Longrightarrow> 0 < b \<Longrightarrow> a sdiv b = a div b" for a b :: int
  by (auto simp: signed_divide_int_def sgn_if)

lemma half_closest:
  assumes "0 < (d :: int)"
  shows "2 * \<bar>x - (x + d div 2) div d * d\<bar> \<le> d"
proof -
  define w r h where "w = (x + d div 2) div d * d" and "r = (x + d div 2) mod d" and "h = d div 2"
  have "w + r = x + h" by (simp add: w_def r_def h_def)
  moreover have "0 \<le> r" "r < d" using assms by (simp_all add: r_def)
  moreover have "2 * h \<le> d" "d \<le> 2 * h + 1" by (simp_all add: h_def)
  ultimately show ?thesis unfolding w_def [symmetric] by (simp add: abs_if)
qed

theorem div_round_closest:
  assumes "0 < d" and "d < 2 ^ 31" and "\<bar>x\<bar> + d div 2 < 2 ^ 31"
  shows "\<exists>q. DIV_ROUND_CLOSEST x d = Some q \<and> 2 * \<bar>x - q * d\<bar> \<le> d"
proof -
  have "0 \<le> d div 2" "d div 2 < 2 ^ 31" using assms by simp_all
  then have h: "sdiv32 d 2 = Some (d div 2)" using assms(1) by (simp add: sdiv32_def s32_def sdiv_pos)
  have b: "0 \<le> y div d \<and> y div d \<le> y" if "0 \<le> y" for y
    using that assms(1) zdiv_mono2 [of y 1 d] by (simp add: pos_imp_zdiv_nonneg_iff)
  show ?thesis
  proof (cases "x > 0")
    case True
    then have "DIV_ROUND_CLOSEST x d = Some ((x + d div 2) div d)"
      using assms b [of "x + d div 2"] by (simp add: DIV_ROUND_CLOSEST_def h sdiv32_def s32_def sdiv_pos)
    then show ?thesis using half_closest [OF assms(1), of x] by simp
  next
    case False
    define y where "y = - x + d div 2"
    have y: "0 \<le> y" "y < 2 ^ 31" using False assms by (simp_all add: y_def)
    then have "sdiv32 (- y) d = Some (- (y div d))" "s32 (- y) = Some (- y)"
      using b [of y] assms(1) by (simp_all add: sdiv32_def s32_def sdiv_pos)
    moreover have "x - d div 2 = - y" by (simp add: y_def)
    ultimately have "DIV_ROUND_CLOSEST x d = Some (- ((- x + d div 2) div d))"
      unfolding y_def [symmetric] using False by (simp add: DIV_ROUND_CLOSEST_def h)
    moreover have "\<bar>x - - q * d\<bar> = \<bar>- x - q * d\<bar>" for q using abs_minus_cancel [of "x + q * d"] by simp
    ultimately show ?thesis using half_closest [OF assms(1), of "- x"] by simp
  qed
qed

text \<open>
  \<^verbatim>\<open>mult_frac\<close> is the exact \<open>x * numer div denom\<close>, although the product \<open>x * numer\<close> need not fit: it is enough
  that the result and the product with the remainder do.
\<close>

lemma mult_frac_nat: "(x :: nat) * n div d = x div d * n + x mod d * n div d" if "0 < d"
proof -
  have "x * n = (x div d * d + x mod d) * n" by simp
  also have "\<dots> = x mod d * n + x div d * n * d" unfolding distrib_right by (simp only: ac_simps)
  finally have "x * n div d = (x mod d * n + x div d * n * d) div d" by (rule arg_cong)
  then show ?thesis using that by simp
qed

theorem mult_frac_exact:
  assumes "denom \<noteq> 0" and "unat x * unat numer div unat denom < 2 ^ 32" and "unat (x mod denom) * unat numer < 2 ^ 32"
  shows "mult_frac x numer denom = Some (of_nat (unat x * unat numer div unat denom))"
proof -
  have d: "0 < unat denom" using assms(1) by (simp add: unat_gt_0)
  let ?r = "unat x mod unat denom * unat numer"
  have "unat (x mod denom * numer) = ?r" unfolding unat_mod [symmetric] using assms(3) by (intro unat_mult_lem [THEN iffD1]) simp
  then have "x mod denom * numer div denom = of_nat (?r div unat denom)" by (intro of_unat) (simp add: unat_div)
  moreover have "x div denom * numer = of_nat (unat (x div denom) * unat numer)" by simp
  then have "x div denom * numer = of_nat (unat x div unat denom * unat numer)" by (simp only: unat_div)
  ultimately show ?thesis unfolding mult_frac_nat [OF d, of "unat x" "unat numer"] of_nat_add
    using assms(1) by (simp only: mult_frac_def Let_def if_False)
qed

text \<open>The absolute value is undefined for the least number only; the limits clamp as their names say.\<close>

theorem abs_macros:
  "- (2 ^ 31) \<le> x \<Longrightarrow> x < 2 ^ 31 \<Longrightarrow> abs_long x = (if x = - (2 ^ 31) then None else Some \<bar>x\<bar>)"
  "- (2 ^ 63) \<le> y \<Longrightarrow> y < 2 ^ 63 \<Longrightarrow> abs64 y = (if y = - (2 ^ 63) then None else Some \<bar>y\<bar>)"
  by (auto simp: abs_long_def abs64_def s32_def s64_def)

lemma min_macro_eq [simp]: "min_macro x y = min x y" and max_macro_eq [simp]: "max_macro x y = max x y"
  by (auto simp: min_macro_def max_macro_def min_def max_def)

theorem clamp_macros:
  assumes "lo \<le> hi"
  shows "lo \<le> clamp v lo hi" "clamp v lo hi \<le> hi" "lo \<le> v \<Longrightarrow> v \<le> hi \<Longrightarrow> clamp v lo hi = v"
    "clamp (clamp v lo hi) lo hi = clamp v lo hi" "clamp_val (\<lambda>l. l) (\<lambda>h. h) v lo hi = clamp v lo hi"
  using assms by (auto simp: clamp_def clamp_val_def clamp_t_def min_t_def max_t_def Let_def)

theorem min_not_zero_macro:
  fixes x y :: "32 word"
  shows "min_not_zero x y = 0 \<longleftrightarrow> x = 0 \<and> y = 0" and "x \<noteq> 0 \<Longrightarrow> min_not_zero x y \<le> x"
    and "y \<noteq> 0 \<Longrightarrow> min_not_zero x y \<le> y"
  by (auto simp: min_not_zero_def min_def)

text \<open>\<^verbatim>\<open>ALIGN_DOWN\<close> and \<^verbatim>\<open>round_down\<close> are the same, also where \<^verbatim>\<open>ALIGN_DOWN\<close> goes below zero on its way.\<close>

theorem align_down: "ALIGN_DOWN x a = round_down x a"
  by (simp add: ALIGN_DOWN_def ALIGN_def ALIGN_MASK_def round_down_def round_mask_def)

theorem halves: "push_bit 32 (ucast (upper_32_bits n)) OR ucast (lower_32_bits n) = (n :: 64 word)"
  by (rule bit_word_eqI) (auto simp: upper_32_bits_def lower_32_bits_def bit_simps)

lemma add_disjoint: "(\<And>n. \<not> (bit a n \<and> bit b n)) \<Longrightarrow> a + b = a OR b" for a b :: "32 word"
  by (rule disjunctive_add_eq_or, rule bit_word_eqI) (simp add: bit_and_iff)

theorem repeat_byte:
  assumes "i < 4"
  shows "ucast (drop_bit (8 * i) (REPEAT_BYTE (ucast b))) = (b :: 8 word)"
proof -
  define w :: "32 word" where "w = ucast b"
  have w: "bit w n \<longleftrightarrow> n < 8 \<and> bit b n" for n by (auto simp: w_def bit_simps dest: bit_imp_le_length)
  have p: "bit (push_bit k w) n \<longleftrightarrow> k \<le> n \<and> n < 32 \<and> n < k + 8 \<and> bit b (n - k)" for k n
    by (auto simp: bit_push_bit_iff w)
  have "REPEAT_BYTE w = w + push_bit 8 w + push_bit 16 w + push_bit 24 w"
    by (simp add: REPEAT_BYTE_def push_bit_eq_mult)
  also have "w + push_bit 8 w = w OR push_bit 8 w" by (rule add_disjoint) (auto simp: w p)
  also have "(w OR push_bit 8 w) + push_bit 16 w = (w OR push_bit 8 w) OR push_bit 16 w"
    by (rule add_disjoint) (auto simp: w p bit_or_iff)
  also have "((w OR push_bit 8 w) OR push_bit 16 w) + push_bit 24 w = ((w OR push_bit 8 w) OR push_bit 16 w) OR push_bit 24 w"
    by (rule add_disjoint) (auto simp: w p bit_or_iff)
  finally have r: "bit (REPEAT_BYTE w) n \<longleftrightarrow> bit w n \<or> bit (push_bit 8 w) n \<or> bit (push_bit 16 w) n \<or> bit (push_bit 24 w) n" for n
    by (simp add: bit_or_iff disj_assoc)
  have "bit (REPEAT_BYTE w) (8 * i + n) \<longleftrightarrow> bit b n" if "n < 8" for n
  proof -
    consider "i = 0" | "i = 1" | "i = 2" | "i = 3" using assms by linarith
    then show ?thesis by cases (use that in \<open>auto simp: r w p\<close>)
  qed
  then show ?thesis unfolding w_def [symmetric] by (intro bit_word_eqI) (simp add: bit_ucast_iff bit_drop_bit_eq)
qed

end
