(* ===== verification/X86_Bitops.thy ===== *)
theory X86_Bitops
  imports Lib_Bitops
begin

text \<open>
  The bit operations of the x86 port (\<^verbatim>\<open>arch/x86/bitops.h\<close>), inline assembly over a map of bits in memory: \<^verbatim>\<open>bt\<close>,
  \<^verbatim>\<open>bts\<close>, \<^verbatim>\<open>btr\<close> and \<^verbatim>\<open>btc\<close> with a bit number in a register, which reach any word relative to the address, the
  searches with \<^verbatim>\<open>bsf\<close> and \<^verbatim>\<open>repe scasl\<close>. The instructions are modelled by what the processor manual says of
  them; the memory is a function from word offsets, which may be negative, to words. \<^verbatim>\<open>LOCK_PREFIX\<close> is empty on this
  single processor, so that the atomic variants are the plain ones.
\<close>

unbundle bit_operations_syntax

section \<open>Instructions\<close>

type_synonym words = "int \<Rightarrow> 32 word"

text \<open>Carry flag and new memory; the word is \<open>nr div 32\<close>, rounded down.\<close>

definition bt :: "int \<Rightarrow> words \<Rightarrow> bool \<times> words" where
  "bt nr m = (bit (m (nr div 32)) (nat (nr mod 32)), m)"

definition bts :: "int \<Rightarrow> words \<Rightarrow> bool \<times> words" where
  "bts nr m = (fst (bt nr m), m(nr div 32 := m (nr div 32) OR push_bit (nat (nr mod 32)) 1))"

definition btr :: "int \<Rightarrow> words \<Rightarrow> bool \<times> words" where
  "btr nr m = (fst (bt nr m), m(nr div 32 := m (nr div 32) AND NOT (push_bit (nat (nr mod 32)) 1)))"

definition btc :: "int \<Rightarrow> words \<Rightarrow> bool \<times> words" where
  "btc nr m = (fst (bt nr m), m(nr div 32 := m (nr div 32) XOR push_bit (nat (nr mod 32)) 1))"

text \<open>\<^verbatim>\<open>sbbl r,r\<close> spreads the carry flag; \<^verbatim>\<open>bsfl\<close> leaves its target undefined for 0, with the zero flag set.\<close>

definition sbb :: "bool \<Rightarrow> 32 word" where "sbb cf = (if cf then - 1 else 0)"

definition bsf :: "32 word \<Rightarrow> nat option" where "bsf w = find (bit w) [0..<32]"

text \<open>\<^verbatim>\<open>repe scasl\<close>: \<^verbatim>\<open>ecx\<close> rounds at most, on while the word is \<^verbatim>\<open>eax\<close>; \<open>edi\<close> counts words. The zero flag is kept when \<^verbatim>\<open>ecx\<close> is 0.\<close>

fun repe_scasl :: "32 word \<Rightarrow> nat \<Rightarrow> words \<Rightarrow> int \<Rightarrow> bool \<Rightarrow> int \<times> bool" where
  "repe_scasl eax 0 m edi zf = (edi, zf)"
| "repe_scasl eax (Suc ecx) m edi zf =
     (if m edi = eax then repe_scasl eax ecx m (edi + 1) True else (edi + 1, False))"

section \<open>The functions of \<^verbatim>\<open>bitops.h\<close>\<close>

definition x86_set_bit :: "int \<Rightarrow> words \<Rightarrow> words" where "x86_set_bit nr m = snd (bts nr m)"
definition set_bit_nonatomic :: "int \<Rightarrow> words \<Rightarrow> words" where "set_bit_nonatomic nr m = snd (bts nr m)"
definition clear_bit :: "int \<Rightarrow> words \<Rightarrow> words" where "clear_bit nr m = snd (btr nr m)"
definition change_bit_nonatomic :: "int \<Rightarrow> words \<Rightarrow> words" where "change_bit_nonatomic nr m = snd (btc nr m)"
definition change_bit :: "int \<Rightarrow> words \<Rightarrow> words" where "change_bit nr m = snd (btc nr m)"

definition test_and_set_bit :: "int \<Rightarrow> words \<Rightarrow> 32 word \<times> words" where
  "test_and_set_bit nr m = (let (cf, m') = bts nr m in (sbb cf, m'))"

definition test_and_set_bit_nonatomic :: "int \<Rightarrow> words \<Rightarrow> 32 word \<times> words" where
  "test_and_set_bit_nonatomic nr m = (let (cf, m') = bts nr m in (sbb cf, m'))"

definition test_and_clear_bit :: "int \<Rightarrow> words \<Rightarrow> 32 word \<times> words" where
  "test_and_clear_bit nr m = (let (cf, m') = btr nr m in (sbb cf, m'))"

definition test_and_clear_bit_nonatomic :: "int \<Rightarrow> words \<Rightarrow> 32 word \<times> words" where
  "test_and_clear_bit_nonatomic nr m = (let (cf, m') = btr nr m in (sbb cf, m'))"

definition test_and_change_bit_nonatomic :: "int \<Rightarrow> words \<Rightarrow> 32 word \<times> words" where
  "test_and_change_bit_nonatomic nr m = (let (cf, m') = btc nr m in (sbb cf, m'))"

definition test_and_change_bit :: "int \<Rightarrow> words \<Rightarrow> 32 word \<times> words" where
  "test_and_change_bit nr m = (let (cf, m') = btc nr m in (sbb cf, m'))"

definition variable_test_bit :: "int \<Rightarrow> words \<Rightarrow> 32 word" where
  "variable_test_bit nr m = sbb (fst (bt nr m))"

text \<open>\<^verbatim>\<open>constant_test_bit\<close> of \<open>Lib_Bitops\<close> is for numbers that are not negative; both give the same then.\<close>

definition x86_test_bit :: "bool \<Rightarrow> nat \<Rightarrow> words \<Rightarrow> 32 word" where
  "x86_test_bit const nr m =
     (if const then of_bool (constant_test_bit nr (\<lambda>i. m (int i))) else variable_test_bit (int nr) m)"

text \<open>
  The search for a zero: \<open>p\<close> is the offset of the first word. The three lines after the scan undo its last
  step; \<^verbatim>\<open>edi\<close> minus the start, times 8, counts bits.
\<close>

definition find_first_zero_bit :: "words \<Rightarrow> int \<Rightarrow> 32 word \<Rightarrow> 32 word option" where
  "find_first_zero_bit m p size' =
     (if size' = 0 then Some 0
      else
        let (edi, zf) = repe_scasl (- 1) (unat (drop_bit 5 (size' + 31))) m p True
        in if zf then Some (word_of_int (32 * (edi - p)))
           else do { edx \<leftarrow> bsf (- 1 XOR m (edi - 1));
                     Some (word_of_int (32 * (edi - 1 - p)) + of_nat edx) })"

definition find_next_zero_bit :: "words \<Rightarrow> int \<Rightarrow> int \<Rightarrow> 32 word option" where
  "find_next_zero_bit m size' offset =
     (let p = offset div 32; b = nat (offset mod 32)
      in if b \<noteq> 0
         then let set' = (case bsf (NOT (drop_bit b (m p))) of None \<Rightarrow> 32 | Some k \<Rightarrow> k)
              in if set' < 32 - b then Some (of_nat set' + word_of_int offset)
                 else do { res \<leftarrow> find_first_zero_bit m (p + 1) (word_of_int (size' - 32 * (p + 1)));
                           Some (word_of_int offset + of_nat (32 - b) + res) }
         else do { res \<leftarrow> find_first_zero_bit m p (word_of_int (size' - 32 * p));
                   Some (word_of_int offset + 0 + res) })"

definition ffz :: "32 word \<Rightarrow> nat option" where "ffz w = bsf (NOT w)"
definition x86_ffs_word :: "32 word \<Rightarrow> nat option" where "x86_ffs_word w = bsf w"
definition x86_ffs :: "32 word \<Rightarrow> int" where
  "x86_ffs x = (case bsf x of None \<Rightarrow> - 1 | Some r \<Rightarrow> int r) + 1"
definition x86_ilog2 :: "32 word \<Rightarrow> int" where "x86_ilog2 x = int (generic_fls x) - 1"

section \<open>A memory of bits\<close>

definition mbit :: "words \<Rightarrow> int \<Rightarrow> bool" where "mbit m nr \<longleftrightarrow> bit (m (nr div 32)) (nat (nr mod 32))"

lemma mbit_split: "n < 32 \<Longrightarrow> mbit m (32 * i + int n) = bit (m i) n"
  by (simp add: mbit_def)

lemma mem_eqI: "(\<And>k. mbit m k = mbit m' k) \<Longrightarrow> m = m'"
proof (rule ext, rule bit_word_eqI)
  fix i n
  assume "\<And>k. mbit m k = mbit m' k" and "n < LENGTH(32)"
  then show "bit (m i) n = bit (m' i) n" using mbit_split [of n m i] mbit_split [of n m' i] by simp
qed

lemma same_bit: "nr div 32 = k div 32 \<Longrightarrow> nat (nr mod 32) = nat (k mod 32) \<longleftrightarrow> nr = (k :: int)"
proof -
  assume "nr div 32 = k div 32"
  moreover have "nr = 32 * (nr div 32) + nr mod 32" "k = 32 * (k div 32) + k mod 32" by simp_all
  moreover have "nat (nr mod 32) = nat (k mod 32) \<longleftrightarrow> nr mod 32 = k mod 32" by (simp add: eq_nat_nat_iff)
  ultimately show ?thesis by metis
qed

text \<open>The contract of the instructions that modify a bit: the flag is the old bit, and only that bit changes.\<close>

locale bit_modify =
  fixes ins :: "int \<Rightarrow> words \<Rightarrow> bool \<times> words" and g :: "bool \<Rightarrow> bool"
  assumes flag: "fst (ins nr m) = mbit m nr"
    and result: "mbit (snd (ins nr m)) k = (if k = nr then g (mbit m nr) else mbit m k)"
begin

lemma commute: "nr \<noteq> nr' \<Longrightarrow> snd (ins nr (snd (ins nr' m))) = snd (ins nr' (snd (ins nr m)))"
  by (rule mem_eqI) (simp add: result)

lemma twice: "mbit (snd (ins nr (snd (ins nr m)))) nr = g (g (mbit m nr))"
  by (simp add: result)

lemma restores: "(\<And>b. g (g b) = b) \<Longrightarrow> snd (ins nr (snd (ins nr m))) = m"
  by (rule mem_eqI) (simp add: result)

lemma stable: "(\<And>b. g (g b) = g b) \<Longrightarrow> snd (ins nr (snd (ins nr m))) = snd (ins nr m)"
  by (rule mem_eqI) (simp add: result)

end

lemma mbit_upd:
  assumes "\<And>n. n < 32 \<Longrightarrow> bit w n = (if n = nat (nr mod 32) then b else bit (m (nr div 32)) n)"
  shows "mbit (m(nr div 32 := w)) k = (if k = nr then b else mbit m k)"
proof (cases "k div 32 = nr div 32")
  case True
  have "nat (k mod 32) < 32" by simp
  then show ?thesis using assms [of "nat (k mod 32)"] same_bit [OF True] True by (simp add: mbit_def)
next
  case False
  then show ?thesis by (auto simp: mbit_def)
qed

interpretation set_ins: bit_modify bts "\<lambda>_. True"
proof
  show "fst (bts nr m) = mbit m nr" for nr m by (simp add: bts_def bt_def mbit_def)
  show "mbit (snd (bts nr m)) k = (if k = nr then True else mbit m k)" for nr m k
    unfolding bts_def snd_conv by (rule mbit_upd) (auto simp: bit_simps)
qed

interpretation clear_ins: bit_modify btr "\<lambda>_. False"
proof
  show "fst (btr nr m) = mbit m nr" for nr m by (simp add: btr_def bt_def mbit_def)
  show "mbit (snd (btr nr m)) k = (if k = nr then False else mbit m k)" for nr m k
    unfolding btr_def snd_conv by (rule mbit_upd) (auto simp: bit_simps)
qed

interpretation change_ins: bit_modify btc Not
proof
  show "fst (btc nr m) = mbit m nr" for nr m by (simp add: btc_def bt_def mbit_def)
  show "mbit (snd (btc nr m)) k = (if k = nr then \<not> mbit m nr else mbit m k)" for nr m k
    unfolding btc_def snd_conv by (rule mbit_upd) (auto simp: bit_simps mbit_def)
qed


lemma sbb_iff [simp]: "sbb c \<noteq> 0 \<longleftrightarrow> c" "sbb c = 0 \<longleftrightarrow> \<not> c"
  by (simp_all add: sbb_def)

lemmas test_and_defs = test_and_set_bit_def test_and_set_bit_nonatomic_def test_and_clear_bit_def
  test_and_clear_bit_nonatomic_def test_and_change_bit_def test_and_change_bit_nonatomic_def

lemmas modify_facts = set_ins.flag clear_ins.flag change_ins.flag set_ins.result clear_ins.result change_ins.result

text \<open>
  The functions that test and modify a bit return non-zero exactly when the bit was set before, and leave every
  other bit of the memory, in any word, as it was. This holds of \<^verbatim>\<open>test_and_change_bit\<close> too, whose comment
  promises the new value.
\<close>

theorem test_and_modify:
  "fst (test_and_set_bit nr m) \<noteq> 0 \<longleftrightarrow> mbit m nr"
  "fst (test_and_clear_bit nr m) \<noteq> 0 \<longleftrightarrow> mbit m nr"
  "fst (test_and_change_bit nr m) \<noteq> 0 \<longleftrightarrow> mbit m nr"
  "mbit (snd (test_and_set_bit nr m)) k \<longleftrightarrow> k = nr \<or> mbit m k"
  "mbit (snd (test_and_clear_bit nr m)) k \<longleftrightarrow> k \<noteq> nr \<and> mbit m k"
  "mbit (snd (test_and_change_bit nr m)) k \<longleftrightarrow> (mbit m k \<noteq> (k = nr))"
  by (auto simp: test_and_defs Let_def split_beta modify_facts)

theorem test_after_modify:
  "variable_test_bit nr (x86_set_bit nr m) \<noteq> 0"
  "variable_test_bit nr (clear_bit nr m) = 0"
  "variable_test_bit nr (change_bit nr m) = 0 \<longleftrightarrow> variable_test_bit nr m \<noteq> 0"
proof -
  have t: "variable_test_bit nr m' = 0 \<longleftrightarrow> \<not> mbit m' nr" for m' by (simp add: variable_test_bit_def bt_def mbit_def)
  show "variable_test_bit nr (x86_set_bit nr m) \<noteq> 0" "variable_test_bit nr (clear_bit nr m) = 0"
    "variable_test_bit nr (change_bit nr m) = 0 \<longleftrightarrow> variable_test_bit nr m \<noteq> 0"
    by (simp_all add: t x86_set_bit_def clear_bit_def change_bit_def modify_facts)
qed

text \<open>Two changes of the same bit cancel; changes of different bits commute.\<close>

theorem change_bit_algebra:
  "change_bit nr (change_bit nr m) = m" and "nr \<noteq> nr' \<Longrightarrow> change_bit nr (change_bit nr' m) = change_bit nr' (change_bit nr m)"
  by (simp_all add: change_bit_def change_ins.restores change_ins.commute)

section \<open>Searching\<close>

lemma bsf_Some: "bsf w = Some k \<longleftrightarrow> bit w k \<and> (\<forall>i<k. \<not> bit w i)"
proof -
  have "bit w k \<Longrightarrow> k < 32" by (auto dest: bit_imp_le_length)
  then show ?thesis by (auto simp: bsf_def find_Some_iff intro!: exI [of _ k])
qed

lemma bsf_None: "bsf w = None \<longleftrightarrow> w = 0"
proof
  assume "bsf w = None"
  then have "\<not> bit w i" if "i < 32" for i using that by (auto simp: bsf_def find_None_iff)
  then show "w = 0" by (auto intro: bit_word_eqI)
qed (simp add: bsf_def find_None_iff)

lemma bsf_cases:
  assumes "w \<noteq> 0"
  obtains k where "bsf w = Some k" "k < 32" "bit w k" "\<And>i. i < k \<Longrightarrow> \<not> bit w i"
proof -
  obtain k where "bsf w = Some k" using assms bsf_None [of w] by auto
  moreover from this have "bit w k" "\<And>i. i < k \<Longrightarrow> \<not> bit w i" by (auto simp: bsf_Some)
  moreover from this have "k < 32" by (auto dest: bit_imp_le_length)
  ultimately show ?thesis using that by blast
qed

text \<open>\<^verbatim>\<open>ffs\<close> counts from 1 and gives 0 for the word without bits.\<close>

lemma x86_ffs_spec:
  "x86_ffs x = 0 \<longleftrightarrow> x = 0" and "x86_ffs x = int k + 1 \<longleftrightarrow> bit x k \<and> (\<forall>i<k. \<not> bit x i)"
  using bsf_None [of x] by (auto simp: x86_ffs_def bsf_Some [symmetric] split: option.splits)

text \<open>The instruction and the portable routine of \<^verbatim>\<open>asm-generic\<close> agree, and so do the two ways to test a bit.\<close>

theorem x86_ffs_generic: "x86_ffs x = int (generic_ffs x)"
proof (cases "x = 0")
  case True
  then show ?thesis using x86_ffs_spec(1) [of x] by (simp add: generic_ffs_def)
next
  case False
  then obtain k where k: "bsf x = Some k" "bit x k" "\<forall>i<k. \<not> bit x i" by (rule bsf_cases) blast
  then have "(LEAST i. bit x i) = k" by (intro Least_equality) (auto simp: not_less [symmetric])
  then show ?thesis using k(1) generic_ffs_least [OF False] by (simp add: x86_ffs_def)
qed

theorem x86_test_bit_paths: "x86_test_bit c nr m \<noteq> 0 \<longleftrightarrow> mbit m (int nr)"
proof -
  have "constant_test_bit nr (\<lambda>i. m (int i)) = mbit m (int nr)"
  proof -
    have "int nr div 32 = int (nr div 32)" "nat (int nr mod 32) = nr mod 32" by (simp_all add: zdiv_int nat_mod_distrib)
    then show ?thesis by (simp add: test_bit mbit_def)
  qed
  then show ?thesis by (simp add: x86_test_bit_def variable_test_bit_def bt_def mbit_def)
qed

lemma repe_scasl_spec:
  "\<exists>j\<le>n. repe_scasl e n m p True = (if j = n then (p + int n, True) else (p + int j + 1, False)) \<and>
         (\<forall>i<j. m (p + int i) = e) \<and> (j < n \<longrightarrow> m (p + int j) \<noteq> e)"
proof (induction n arbitrary: p)
  case (Suc n)
  show ?case
  proof (cases "m p = e")
    case True
    obtain j where j: "j \<le> n" "repe_scasl e n m (p + 1) True = (if j = n then (p + 1 + int n, True) else (p + 1 + int j + 1, False))"
      "\<forall>i<j. m (p + 1 + int i) = e" "j < n \<longrightarrow> m (p + 1 + int j) \<noteq> e" using Suc.IH [of "p + 1"] by blast
    have "m (p + int i) = e" if "i < Suc j" for i
      using that True j(3) by (cases i) (auto simp: ac_simps)
    then show ?thesis using True j by (intro exI [of _ "Suc j"]) (auto simp: ac_simps)
  next
    case False
    then show ?thesis by (intro exI [of _ 0]) simp
  qed
qed simp

lemma not_zero: "NOT w = 0 \<longleftrightarrow> w = - 1" for w :: "32 word"
  by (metis bit.compl_zero bit.double_compl)

lemma ones_bits: "w = - 1 \<longleftrightarrow> (\<forall>i<32. bit w i)" for w :: "32 word"
  by (auto intro: bit_word_eqI)

lemma mbit_ones:
  assumes "\<forall>i<j. m (p + int i) = - 1" and "n < 32 * j"
  shows "mbit m (32 * p + int n)"
proof -
  have "int n = int (32 * (n div 32) + n mod 32)" by simp
  then have e: "32 * p + int n = 32 * (p + int (n div 32)) + int (n mod 32)" by (simp only: of_nat_add of_nat_mult distrib_left)
  have "n div 32 < j" using assms(2) by (simp add: div_less_iff_less_mult mult.commute)
  then have "m (p + int (n div 32)) = - 1" using assms(1) by simp
  then show ?thesis unfolding e using mbit_split [of "n mod 32" m "p + int (n div 32)"] by simp
qed

text \<open>
  \<open>first_zero m lo hi r\<close>: \<open>r\<close> is the first zero bit from \<open>lo\<close> on, or \<open>hi\<close> when there is none before \<open>hi\<close>.
\<close>

definition first_zero :: "words \<Rightarrow> int \<Rightarrow> int \<Rightarrow> int \<Rightarrow> bool" where
  "first_zero m lo hi r \<longleftrightarrow>
     lo \<le> r \<and> r \<le> hi \<and> (\<forall>i. lo \<le> i \<and> i < r \<longrightarrow> mbit m i) \<and> (r < hi \<longrightarrow> \<not> mbit m r)"

lemma first_zeroI:
  assumes "r \<le> n" and "\<And>i. i < r \<Longrightarrow> mbit m (lo + int i)" and "r < n \<Longrightarrow> \<not> mbit m (lo + int r)"
  shows "first_zero m lo (lo + int n) (lo + int r)"
proof -
  have "mbit m i" if "lo \<le> i" "i < lo + int r" for i
    using assms(2) [of "nat (i - lo)"] that by simp
  then show ?thesis using assms(1,3) by (auto simp: first_zero_def)
qed

lemma find_first_zero_bit_spec:
  fixes m p sz
  defines "n \<equiv> 32 * unat (drop_bit 5 (sz + 31))"
  shows "\<exists>r. find_first_zero_bit m p sz = Some r \<and> unat r \<le> n \<and> first_zero m (32 * p) (32 * p + int n) (32 * p + int (unat r))"
proof (cases "sz = 0")
  case True
  then have "n = 0" by (simp add: n_def drop_bit_eq_div)
  then show ?thesis using True by (auto simp: find_first_zero_bit_def first_zero_def)
next
  case False
  define c where "c = unat (drop_bit 5 (sz + 31))"
  have "c = unat (sz + 31) div 2 ^ 5" unfolding c_def unat_drop_bit_eq by (simp only: drop_bit_eq_div)
  then have n: "n = 32 * c" "n < 2 ^ 32" using less_2p32 [of "sz + 31"] by (simp_all add: n_def c_def)
  obtain j where j: "j \<le> c" "repe_scasl (- 1) c m p True = (if j = c then (p + int c, True) else (p + int j + 1, False))"
    "\<forall>i<j. m (p + int i) = - 1" "j < c \<longrightarrow> m (p + int j) \<noteq> - 1" using repe_scasl_spec by blast
  show ?thesis
  proof (cases "j = c")
    case True
    have "find_first_zero_bit m p sz = Some (of_nat n)"
      using False True j(2) by (simp add: find_first_zero_bit_def c_def [symmetric] n(1))
    moreover have "unat (of_nat n :: 32 word) = n" using n(2) by (simp add: unsigned_of_nat take_bit_nat_eq_self)
    moreover have "first_zero m (32 * p) (32 * p + int n) (32 * p + int n)"
      using mbit_ones [OF j(3)] True n(1) by (intro first_zeroI) simp_all
    ultimately show ?thesis by (intro exI [of _ "of_nat n"]) (simp only: simp_thms le_refl)
  next
    case jc: False
    then have jl: "j < c" using j(1) by simp
    have "- 1 XOR m (p + int j) \<noteq> 0" using j(4) jl by (simp add: not_zero)
    then obtain k where k: "bsf (- 1 XOR m (p + int j)) = Some k" "k < 32" "bit (- 1 XOR m (p + int j)) k"
      "\<And>i. i < k \<Longrightarrow> \<not> bit (- 1 XOR m (p + int j)) i" by (rule bsf_cases) blast
    define r where "r = 32 * j + k"
    have rn: "r < n" using jl k(2) by (simp add: r_def n(1))
    have "find_first_zero_bit m p sz = Some (of_nat r)"
      using False jc j(2) k(1) by (simp add: find_first_zero_bit_def c_def [symmetric] r_def)
    moreover have "unat (of_nat r :: 32 word) = r" using rn n(2) by (simp add: unsigned_of_nat take_bit_nat_eq_self)
    moreover have "mbit m (32 * p + int i)" if "i < r" for i
    proof (cases "i < 32 * j")
      case False
      define b where "b = i - 32 * j"
      have b: "i = 32 * j + b" "b < k" using that False by (auto simp: b_def r_def)
      then have "bit (m (p + int j)) b" using k(2) k(4) [of b] by (simp add: bit_not_iff)
      then show ?thesis using mbit_split [of b m "p + int j"] b k(2) by (simp add: algebra_simps)
    qed (rule mbit_ones [OF j(3)])
    moreover have "\<not> mbit m (32 * p + int r)"
      using mbit_split [of k m "p + int j"] k(2,3) by (simp add: r_def algebra_simps bit_not_iff)
    ultimately show ?thesis using rn first_zeroI [of r n m "32 * p"]
      by (intro exI [of _ "of_nat r"]) (simp only: simp_thms less_imp_le_nat)
  qed
qed


lemma first_zero_after:
  assumes "first_zero m mid hi r" and "lo \<le> mid" and "\<And>i. lo \<le> i \<Longrightarrow> i < mid \<Longrightarrow> mbit m i"
  shows "first_zero m lo hi r"
proof -
  have "mbit m i" if "lo \<le> i" "i < r" for i using assms that by (cases "i < mid") (auto simp: first_zero_def)
  then show ?thesis using assms(1,2) by (auto simp: first_zero_def)
qed

text \<open>
  The search from word \<open>q\<close> on, with the rest of the size. The size may be up to 31 bits short of the word, when the
  map ends inside of the word before: the rounding up of the unsigned number makes it zero words.
\<close>

lemma find_from_word:
  assumes "32 * q \<le> sz + 31" and "sz - 32 * q + 31 < 2 ^ 32"
  defines "lim \<equiv> 32 * ((sz + 31) div 32)"
  shows "\<exists>res. find_first_zero_bit m q (word_of_int (sz - 32 * q)) = Some res \<and> 32 * q + uint res \<le> lim \<and>
               first_zero m (32 * q) lim (32 * q + uint res)"
proof -
  let ?d = "sz - 32 * q"
  let ?n = "32 * unat (drop_bit 5 (word_of_int ?d + 31 :: 32 word))"
  have "(word_of_int ?d + 31 :: 32 word) = word_of_int (?d + 31)" by simp
  moreover have "uint (word_of_int x :: 32 word) = x" if "0 \<le> x" "x < 2 ^ 32" for x using that by (simp add: uint_word_of_int)
  then have "uint (word_of_int (?d + 31) :: 32 word) = ?d + 31" using assms(1,2) by (metis add.commute add_diff_eq diff_ge_0_iff_ge)
  ultimately have "int (unat (drop_bit 5 (word_of_int ?d + 31 :: 32 word))) = (?d + 31) div 32"
    unfolding unat_drop_bit_eq by (simp add: drop_bit_eq_div zdiv_int)
  moreover have "?d + 31 = (sz + 31) + (- q) * 32" by simp
  then have "(?d + 31) div 32 = (sz + 31) div 32 - q" by (metis div_mult_self1 uminus_add_conv_diff zero_neq_numeral add.commute)
  ultimately have n: "32 * q + int ?n = lim" by (simp add: lim_def)
  obtain res where res: "find_first_zero_bit m q (word_of_int ?d) = Some res" "unat res \<le> ?n"
    "first_zero m (32 * q) (32 * q + int ?n) (32 * q + int (unat res))" using find_first_zero_bit_spec by blast
  have u: "int (unat res) = uint res" by simp
  have "32 * q + uint res \<le> lim" using res(2) n u by linarith
  then show ?thesis using res(1) res(3) [unfolded n u] by blast
qed

lemma low_bits_zero:
  assumes "0 < b" and "b < 32"
  obtains k where "bsf (NOT (drop_bit b w)) = Some k" "k < 32" "\<not> bit w (b + k)" "\<And>i. i < k \<Longrightarrow> bit w (b + i)"
proof -
  have "\<not> bit (drop_bit b w) 31" using assms by (auto simp: bit_drop_bit_eq dest: bit_imp_le_length)
  then have "NOT (drop_bit b w) \<noteq> 0" by (auto simp: not_zero)
  then obtain k where "bsf (NOT (drop_bit b w)) = Some k" "k < 32" "bit (NOT (drop_bit b w)) k"
    "\<And>i. i < k \<Longrightarrow> \<not> bit (NOT (drop_bit b w)) i" by (rule bsf_cases) blast
  then show ?thesis using that [of k] by (simp add: bit_not_iff bit_drop_bit_eq)
qed

text \<open>
  C38. \<^verbatim>\<open>find_next_zero_bit\<close> returns the first zero bit of the map at or after \<^verbatim>\<open>offset\<close>, and the size rounded up to
  whole words when there is none: the search inside the first word, the scan of the following words and the
  search inside the word it stops at skip no bit, for every offset, also for a map that ends inside of a word.
\<close>

theorem find_next_zero:
  assumes "0 \<le> offset" and "offset < sz" and "sz \<le> 2 ^ 30"
  shows "\<exists>r. find_next_zero_bit m sz offset = Some r \<and> first_zero m offset (32 * ((sz + 31) div 32)) (uint r)"
proof -
  let ?lim = "32 * ((sz + 31) div 32)"
  define p where "p = offset div 32"
  define b where "b = nat (offset mod 32)"
  have b: "b < 32" "offset = 32 * p + int b" by (simp_all add: b_def p_def)
  have "?lim \<le> sz + 31" by simp
  moreover have "(32 * p + 32) div 32 \<le> (sz + 31) div 32" using assms b by (intro zdiv_mono1) simp_all
  then have "p + 1 \<le> (sz + 31) div 32" by simp
  ultimately have lim: "?lim < 2 ^ 31" "32 * p + 32 \<le> ?lim" using assms(3) by simp_all
  have uint: "uint (word_of_int x :: 32 word) = x" if "0 \<le> x" "x \<le> ?lim" for x
    using that lim(1) by (simp add: uint_word_of_int)
  have add: "uint (word_of_int x + y :: 32 word) = x + uint y" if "0 \<le> x" "x + uint y \<le> ?lim" for x y
  proof -
    have "word_of_int x + y = word_of_int (x + uint y)" by simp
    then show ?thesis using uint [of "x + uint y"] that by simp
  qed
  show ?thesis
  proof (cases "b = 0")
    case True
    obtain res where res: "find_first_zero_bit m p (word_of_int (sz - 32 * p)) = Some res"
      "32 * p + uint res \<le> ?lim" "first_zero m (32 * p) ?lim (32 * p + uint res)"
      using find_from_word [of p sz m] assms b by auto
    have "find_next_zero_bit m sz offset = Some (word_of_int offset + res)"
      using True res(1) by (simp add: find_next_zero_bit_def p_def b_def Let_def)
    moreover have "uint (word_of_int offset + res) = 32 * p + uint res" using add [of offset res] res(2) assms(1) b True by simp
    ultimately show ?thesis using res(3) b True by simp
  next
    case False
    obtain k where k: "bsf (NOT (drop_bit b (m p))) = Some k" "k < 32" "\<not> bit (m p) (b + k)" "\<And>i. i < k \<Longrightarrow> bit (m p) (b + i)"
      using low_bits_zero [of b "m p"] False b(1) by blast
    have ones: "mbit m i" if "offset \<le> i" "i < offset + int k" "i < 32 * p + 32" for i
    proof -
      define j where "j = nat (i - offset)"
      have j: "i = 32 * p + int (b + j)" "j < k" "b + j < 32" using that b by (simp_all add: j_def)
      then show ?thesis using mbit_split [of "b + j" m p] k(4) [of j] by simp
    qed
    show ?thesis
    proof (cases "k < 32 - b")
      case kb: True
      have "find_next_zero_bit m sz offset = Some (word_of_int (offset + int k))"
        using False kb k(1) by (simp add: find_next_zero_bit_def p_def b_def Let_def add.commute)
      moreover have r: "uint (word_of_int (offset + int k) :: 32 word) = offset + int k" using kb b lim assms(1) by (intro uint) linarith+
      moreover have "\<not> mbit m (offset + int k)" using mbit_split [of "b + k" m p] kb k(3) b by (simp add: add.assoc)
      then have "first_zero m offset ?lim (offset + int k)" using ones kb b lim(2) by (auto simp: first_zero_def)
      ultimately show ?thesis by (intro exI [of _ "word_of_int (offset + int k)"]) (simp only: simp_thms)
    next
      case kb: False
      define q where "q = p + 1"
      have q: "32 * q = offset + int (32 - b)" using b by (simp add: q_def of_nat_diff)
      obtain res where res: "find_first_zero_bit m q (word_of_int (sz - 32 * q)) = Some res"
        "32 * q + uint res \<le> ?lim" "first_zero m (32 * q) ?lim (32 * q + uint res)"
        using find_from_word [of q sz m] assms b by (auto simp: q_def)
      let ?r = "word_of_int (32 * q) + res"
      have "find_next_zero_bit m sz offset = Some ?r"
        unfolding q using False kb k(1) res(1) by (simp add: find_next_zero_bit_def p_def b_def q_def Let_def)
      moreover have "uint ?r = 32 * q + uint res" using res(2) q assms(1) by (intro add) linarith+
      moreover have "first_zero m offset ?lim (32 * q + uint res)"
        using res(3)
      proof (rule first_zero_after)
        show "offset \<le> 32 * q" using q by simp
        show "mbit m i" if "offset \<le> i" "i < 32 * q" for i using ones [of i] that q kb b by linarith
      qed
      ultimately show ?thesis by (intro exI [of _ ?r]) (simp only: simp_thms)
    qed
  qed
qed

theorem find_next_zero_witness:
  "\<exists>r. find_next_zero_bit (\<lambda>i. if i = 0 then - 1 else 6) 40 3 = Some r \<and>
       first_zero (\<lambda>i. if i = 0 then - 1 else 6) 3 64 (uint r)"
  using find_next_zero [of 3 40 "\<lambda>i. if i = 0 then - 1 else 6"] by simp

end
