(* ===== verification/ARM_Irq.thy ===== *)
theory ARM_Irq
  imports Lib_Bitops
begin

text \<open>
  The parts of the ARM port that are C (\<^verbatim>\<open>arch/arm/rpi/dispatch.c\<close>, \<^verbatim>\<open>arch/arm/osport.c\<close>): the dispatcher of the
  interrupt controller of the BCM2835, its masks of enabled lines, and the critical sections of the port.
  The state is the register block of the controller, the table of enabled lines and whatever the
  handlers work on. The handler \<^verbatim>\<open>__irq_handler\<close> is not part of the sources (the kernel's function has the name
  \<^verbatim>\<open>__rx_irq_handler\<close>) and is a parameter, as is the hardware that clears a pending bit. Volatile registers change in
  handlers only.
\<close>

unbundle bit_operations_syntax

section \<open>State and operations\<close>

record bcm2835_interrupt_registers =
  IRQ_basic_pending :: "32 word"
  IRQ_pending_1 :: "32 word"
  IRQ_pending_2 :: "32 word"
  FIQ_control :: "32 word"
  Enable_IRQs_1 :: "32 word"
  Enable_IRQs_2 :: "32 word"
  Enable_Basic_IRQs :: "32 word"
  Disable_IRQs_1 :: "32 word"
  Disable_IRQs_2 :: "32 word"
  Disable_Basic_IRQs :: "32 word"

record 'd arm_state =
  arm_regs :: bcm2835_interrupt_registers
  arm_enabled_irqs :: "32 word list"
  devices :: 'd

type_synonym 'd arm_handler = "nat \<Rightarrow> 'd arm_state \<Rightarrow> 'd arm_state option"

text \<open>\<^verbatim>\<open>irq_num\<close> is an \<^verbatim>\<open>uchar\<close>; a shift by the width of the type or more is undefined.\<close>

definition check_irq_pending :: "'d arm_handler \<Rightarrow> nat \<Rightarrow> 'd arm_state \<Rightarrow> 'd arm_state option" where
  "check_irq_pending irq_handler irq_num s =
     (if irq_num \<ge> 96 then None
      else
        let handle =
          (if irq_num \<ge> 64 then IRQ_basic_pending (arm_regs s) AND push_bit (irq_num - 64) 1 \<noteq> 0
           else if irq_num \<ge> 32 then IRQ_pending_2 (arm_regs s) AND push_bit (irq_num - 32) 1 \<noteq> 0
           else IRQ_pending_1 (arm_regs s) AND push_bit irq_num 1 \<noteq> 0)
        in if handle then irq_handler irq_num s else Some s)"

text \<open>\<^verbatim>\<open>__builtin_clz\<close> of a word that is not 0: the zeros above its highest bit.\<close>

definition builtin_clz :: "32 word \<Rightarrow> nat" where
  "builtin_clz w = length (takeWhile (\<lambda>i. \<not> bit w i) (rev [0..<32]))"

definition first_set_bit :: "32 word \<Rightarrow> nat" where
  "first_set_bit w = 31 - builtin_clz w"

lemma first_set_bit_highest:
  assumes "w \<noteq> 0"
  shows "bit w (first_set_bit w)" "first_set_bit w < 32" "\<And>i. bit w i \<Longrightarrow> i \<le> first_set_bit w"
proof -
  have "\<exists>k. bit w k" using assms by (metis bit_word_eqI bit_0_eq bot_apply bot_bool_def)
  then obtain j where "bit w j" by blast
  define k where "k = Max {i. bit w i}"
  have fin: "finite {i. bit w i}" by (rule finite_subset [of _ "{..<32}"]) (auto dest: bit_imp_le_length)
  have k: "bit w k" using Max_in [OF fin] \<open>bit w j\<close> by (auto simp: k_def)
  have top: "i \<le> k" if "bit w i" for i using Max_ge [OF fin] that by (simp add: k_def)
  have k32: "k < 32" using k by (auto dest: bit_imp_le_length)
  have "rev [0..<32] = rev [Suc k..<32] @ k # rev [0..<k]"
    using k32 by (metis upt_add_eq_append upt_conv_Cons rev_append rev.simps(2) append_assoc append_Cons append_Nil le0 less_imp_le le_add_diff_inverse plus_nat.add_0)
  moreover have "takeWhile (\<lambda>i. \<not> bit w i) (rev [Suc k..<32] @ k # rev [0..<k]) = rev [Suc k..<32]"
    using k top by (subst takeWhile_append2) (auto dest!: top)
  ultimately have "first_set_bit w = k" using k32 by (simp add: first_set_bit_def builtin_clz_def)
  with k k32 top show "bit w (first_set_bit w)" "first_set_bit w < 32" "\<And>i. bit w i \<Longrightarrow> i \<le> first_set_bit w" by simp_all
qed

lemma xor_top_bits: "k < 32 \<Longrightarrow> bit w k \<Longrightarrow> bit (w XOR 2 ^ k) i \<longleftrightarrow> bit w i \<and> i \<noteq> k" for w :: "32 word"
  by (auto simp: bit_simps)

text \<open>The loop over the bits of one word of the table; every round clears one bit of the mask.\<close>

function dispatch_mask :: "'d arm_handler \<Rightarrow> nat \<Rightarrow> 32 word \<Rightarrow> 'd arm_state \<Rightarrow> 'd arm_state option" where
  "dispatch_mask irq_handler i msk s =
     (if msk = 0 then Some s
      else let b = first_set_bit msk; msk' = msk XOR push_bit b 1
           in do { s1 \<leftarrow> check_irq_pending irq_handler ((b + push_bit 5 i) mod 256) s;
                   dispatch_mask irq_handler i msk' s1 })"
  by auto
termination
proof (relation "measure (\<lambda>(h, i, msk, s). card {j. bit msk j})")
  fix h :: "'d arm_handler" and i msk s b msk' s1
  assume m: "msk \<noteq> 0" "b = first_set_bit msk" "msk' = msk XOR push_bit b 1"
  have "{j. bit msk' j} = {j. bit msk j} - {b}"
    using first_set_bit_highest [OF m(1)] unfolding m(2,3) by (auto simp: xor_top_bits)
  moreover have "b \<in> {j. bit msk j}" using first_set_bit_highest(1) [OF m(1)] by (simp add: m(2))
  moreover have "finite {j. bit msk j}" by (rule finite_subset [of _ "{..<32}"]) (auto dest: bit_imp_le_length)
  ultimately have "card {j. bit msk' j} < card {j. bit msk j}" by (simp only: card_Diff1_less)
  then show "((h, i, msk', s1), h, i, msk, s) \<in> measure (\<lambda>(h, i, msk, s). card {j. bit msk j})" by simp
qed simp

declare dispatch_mask.simps [simp del]

fun dispatch_words :: "'d arm_handler \<Rightarrow> nat list \<Rightarrow> 'd arm_state \<Rightarrow> 'd arm_state option" where
  "dispatch_words irq_handler [] s = Some s"
| "dispatch_words irq_handler (i # is) s =
     do { msk \<leftarrow> (if i < length (arm_enabled_irqs s) then Some (arm_enabled_irqs s ! i) else None);
          s1 \<leftarrow> dispatch_mask irq_handler i msk s;
          dispatch_words irq_handler is s1 }"

definition dispatch :: "'d arm_handler \<Rightarrow> 'd arm_state \<Rightarrow> 'd arm_state option" where
  "dispatch irq_handler s = dispatch_words irq_handler [0, 1, 2] s"

text \<open>The masks. A shift by 32 or more, for a line above 95, is undefined.\<close>

definition upd_enabled :: "nat \<Rightarrow> (32 word \<Rightarrow> 32 word) \<Rightarrow> 'd arm_state \<Rightarrow> 'd arm_state" where
  "upd_enabled i f s = s\<lparr>arm_enabled_irqs := (arm_enabled_irqs s)[i := f (arm_enabled_irqs s ! i)]\<rparr>"

definition enable_irq :: "nat \<Rightarrow> 'd arm_state \<Rightarrow> 'd arm_state option" where
  "enable_irq irq_num s =
     (if irq_num < 32
      then Some (upd_enabled 0 (\<lambda>m. m OR push_bit irq_num 1)
                  (s\<lparr>arm_regs := arm_regs s\<lparr>Enable_IRQs_1 := push_bit irq_num 1\<rparr>\<rparr>))
      else if irq_num < 64
      then Some (upd_enabled 1 (\<lambda>m. m OR push_bit (irq_num - 32) 1)
                  (s\<lparr>arm_regs := arm_regs s\<lparr>Enable_IRQs_2 := push_bit (irq_num - 32) 1\<rparr>\<rparr>))
      else if irq_num < 96
      then Some (upd_enabled 2 (\<lambda>m. m OR push_bit (irq_num - 64) 1)
                  (s\<lparr>arm_regs := arm_regs s\<lparr>Enable_Basic_IRQs := push_bit (irq_num - 64) 1\<rparr>\<rparr>))
      else None)"

definition disable_irq :: "nat \<Rightarrow> 'd arm_state \<Rightarrow> 'd arm_state option" where
  "disable_irq irq_num s =
     (if irq_num < 32
      then Some (upd_enabled 0 (\<lambda>m. m AND NOT (push_bit irq_num 1))
                  (s\<lparr>arm_regs := arm_regs s\<lparr>Disable_IRQs_1 := push_bit irq_num 1\<rparr>\<rparr>))
      else if irq_num < 64
      then Some (upd_enabled 1 (\<lambda>m. m AND NOT (push_bit (irq_num - 32) 1))
                  (s\<lparr>arm_regs := arm_regs s\<lparr>Disable_IRQs_2 := push_bit (irq_num - 32) 1\<rparr>\<rparr>))
      else if irq_num < 96
      then Some (upd_enabled 2 (\<lambda>m. m AND NOT (push_bit (irq_num - 64) 1))
                  (s\<lparr>arm_regs := arm_regs s\<lparr>Disable_Basic_IRQs := push_bit (irq_num - 64) 1\<rparr>\<rparr>))
      else None)"

text \<open>The critical sections of the port: two global flags, the key is not used.\<close>

record arm_port =
  arm_context :: int
  arm_critical :: int

definition arm_exit_critical :: "32 word \<Rightarrow> arm_port \<Rightarrow> arm_port" where
  "arm_exit_critical key s = (if arm_context s \<noteq> 0 \<or> arm_critical s = 0 then s else s\<lparr>arm_critical := 0\<rparr>)"

definition arm_enter_critical :: "arm_port \<Rightarrow> 32 word \<times> arm_port" where
  "arm_enter_critical s =
     (if arm_context s \<noteq> 0 \<or> arm_critical s \<noteq> 0 then (0, s) else (0, s\<lparr>arm_critical := 1\<rparr>))"


section \<open>Lines\<close>

text \<open>Line \<open>n\<close> is bit \<open>n mod 32\<close> of word \<open>n div 32\<close>, in the table and in the pending registers.\<close>

definition line_enabled :: "'d arm_state \<Rightarrow> nat \<Rightarrow> bool" where
  "line_enabled s n \<longleftrightarrow> n < 96 \<and> bit (arm_enabled_irqs s ! (n div 32)) (n mod 32)"

definition line_pending :: "'d arm_state \<Rightarrow> nat \<Rightarrow> bool" where
  "line_pending s n \<longleftrightarrow>
     n < 96 \<and> bit ([IRQ_pending_1 (arm_regs s), IRQ_pending_2 (arm_regs s), IRQ_basic_pending (arm_regs s)] ! (n div 32)) (n mod 32)"

definition bits_down :: "32 word \<Rightarrow> nat list" where
  "bits_down w = rev (filter (bit w) [0..<32])"

definition word_lines :: "nat \<Rightarrow> 32 word \<Rightarrow> nat list" where
  "word_lines i w = map (\<lambda>b. b + 32 * i) (bits_down w)"

definition enabled_lines :: "'d arm_state \<Rightarrow> nat list" where
  "enabled_lines s = concat (map (\<lambda>i. word_lines i (arm_enabled_irqs s ! i)) [0, 1, 2])"

fun check_all :: "'d arm_handler \<Rightarrow> nat list \<Rightarrow> 'd arm_state \<Rightarrow> 'd arm_state option" where
  "check_all h [] s = Some s"
| "check_all h (n # ns) s = do { s1 \<leftarrow> check_irq_pending h n s; check_all h ns s1 }"

fun serve_all :: "'d arm_handler \<Rightarrow> nat list \<Rightarrow> 'd arm_state \<Rightarrow> 'd arm_state option" where
  "serve_all h [] s = Some s"
| "serve_all h (n # ns) s = do { s1 \<leftarrow> h n s; serve_all h ns s1 }"

lemma bits_down_step:
  assumes "w \<noteq> 0"
  defines "k \<equiv> first_set_bit w"
  shows "bits_down w = k # bits_down (w XOR push_bit k 1)"
proof -
  note t = first_set_bit_highest [OF assms(1), folded k_def]
  have split: "[0..<32] = [0..<k] @ k # [Suc k..<32]"
    using t(2) by (metis le0 less_imp_le_nat upt_add_eq_append upt_conv_Cons le_add_diff_inverse plus_nat.add_0)
  have "filter (bit w) [Suc k..<32] = []" "filter (bit (w XOR push_bit k 1)) [Suc k..<32] = []"
    using t by (auto simp: xor_top_bits filter_empty_conv dest!: t(3))
  moreover have "filter (bit (w XOR push_bit k 1)) [0..<k] = filter (bit w) [0..<k]"
    using t by (intro filter_cong) (auto simp: xor_top_bits)
  ultimately show ?thesis unfolding bits_down_def split using t by (simp add: xor_top_bits)
qed

lemma dispatch_mask_checks: "i < 3 \<Longrightarrow> dispatch_mask h i msk s = check_all h (word_lines i msk) s"
proof (induction h i msk s rule: dispatch_mask.induct)
  case (1 h i msk s)
  show ?case
  proof (cases "msk = 0")
    case True
    then show ?thesis by (subst dispatch_mask.simps) (simp add: word_lines_def bits_down_def)
  next
    case False
    define k where "k = first_set_bit msk"
    have k: "k < 32" using first_set_bit_highest(2) [OF False] by (simp add: k_def)
    have n: "(k + push_bit 5 i) mod 256 = k + 32 * i" using k 1(2) by (simp add: push_bit_eq_mult)
    have "dispatch_mask h i (msk XOR push_bit k 1) s1 = check_all h (word_lines i (msk XOR push_bit k 1)) s1"
      if "check_irq_pending h (k + 32 * i) s = Some s1" for s1
      using 1(1) [OF False k_def refl, of s1] that 1(2) n by simp
    then show ?thesis
      using False n unfolding dispatch_mask.simps [of h i msk] word_lines_def bits_down_step [OF False] Let_def k_def [symmetric]
      by (cases "check_irq_pending h (k + 32 * i) s") simp_all
  qed
qed


text \<open>
  What the dispatcher relies on: a handler leaves the table of enabled lines alone, and of the pending bits it
  changes only its own.
\<close>

definition well_behaved :: "'d arm_handler \<Rightarrow> bool" where
  "well_behaved h \<longleftrightarrow>
     (\<forall>n s s'. h n s = Some s' \<longrightarrow>
        arm_enabled_irqs s' = arm_enabled_irqs s \<and> (\<forall>m. m \<noteq> n \<longrightarrow> line_pending s' m = line_pending s m))"

lemma check_all_append: "check_all h (xs @ ys) s = do { s1 \<leftarrow> check_all h xs s; check_all h ys s1 }"
proof (induction xs arbitrary: s)
  case (Cons n xs)
  then show ?case by (cases "check_irq_pending h n s") simp_all
qed simp

lemma check_keeps:
  assumes "well_behaved h"
  shows "check_all h ns s = Some s' \<Longrightarrow> arm_enabled_irqs s' = arm_enabled_irqs s"
proof (induction ns arbitrary: s)
  case (Cons n ns)
  then obtain s1 where s1: "check_irq_pending h n s = Some s1" "check_all h ns s1 = Some s'"
    by (auto split: Option.bind_splits)
  have "arm_enabled_irqs s1 = arm_enabled_irqs s"
    using s1(1) assms by (auto simp: check_irq_pending_def well_behaved_def Let_def split: if_splits)
  then show ?case using Cons.IH [OF s1(2)] by simp
qed simp

lemma dispatch_words_checks:
  assumes "well_behaved h"
  shows "length (arm_enabled_irqs s) = 3 \<Longrightarrow> set is \<subseteq> {0, 1, 2} \<Longrightarrow>
    dispatch_words h is s = check_all h (concat (map (\<lambda>i. word_lines i (arm_enabled_irqs s ! i)) is)) s"
proof (induction "is" arbitrary: s)
  case (Cons i "is")
  then have i: "i < 3" by auto
  let ?ns = "word_lines i (arm_enabled_irqs s ! i)"
  show ?case
  proof (cases "check_all h ?ns s")
    case None
    then show ?thesis using Cons.prems i by (simp add: dispatch_mask_checks check_all_append)
  next
    case (Some s1)
    then have "arm_enabled_irqs s1 = arm_enabled_irqs s" by (rule check_keeps [OF assms])
    with Cons Some i show ?thesis by (simp add: dispatch_mask_checks check_all_append)
  qed
qed simp

lemma check_line: "n < 96 \<Longrightarrow> check_irq_pending h n s = (if line_pending s n then h n s else Some s)"
proof -
  assume "n < 96"
  then consider "n < 32" | "32 \<le> n" "n < 64" | "64 \<le> n" "n < 96" by linarith
  then show ?thesis
  proof cases
    case 1
    then show ?thesis by (simp add: check_irq_pending_def line_pending_def Let_def and_bit)
  next
    case 2
    then have "n div 32 = 1" "n mod 32 = n - 32" by (simp_all add: div_nat_eqI mod_if)
    then show ?thesis using 2 by (simp add: check_irq_pending_def line_pending_def Let_def and_bit)
  next
    case 3
    then have "n div 32 = 2" "n mod 32 = n - 64" by (simp_all add: div_nat_eqI mod_if)
    then show ?thesis using 3 by (simp add: check_irq_pending_def line_pending_def Let_def and_bit)
  qed
qed


lemma check_all_serves:
  assumes "well_behaved h"
  shows "distinct ns \<Longrightarrow> \<forall>n\<in>set ns. n < 96 \<Longrightarrow> check_all h ns s = serve_all h (filter (line_pending s) ns) s"
proof (induction ns arbitrary: s)
  case (Cons n ns)
  have c: "check_irq_pending h n s = (if line_pending s n then h n s else Some s)" using Cons.prems(2) by (intro check_line) simp
  show ?case
  proof (cases "line_pending s n")
    case True
    show ?thesis
    proof (cases "h n s")
      case (Some s1)
      have "line_pending s1 m = line_pending s m" if "m \<in> set ns" for m
      proof -
        have "m \<noteq> n" using Cons.prems(1) that by auto
        then show ?thesis using assms Some unfolding well_behaved_def by blast
      qed
      then have "filter (line_pending s1) ns = filter (line_pending s) ns" by (intro filter_cong) simp_all
      then show ?thesis using Cons c True Some by simp
    qed (use c True in simp)
  qed (use Cons c in simp)
qed simp

lemma bits_down_props: "set (bits_down w) = {b. bit w b}" "distinct (bits_down w)"
  by (auto simp: bits_down_def dest: bit_imp_le_length)

lemma word_lines_props:
  "n \<in> set (word_lines i w) \<longleftrightarrow> n div 32 = i \<and> bit w (n mod 32)" "distinct (word_lines i w)"
proof
  assume "n \<in> set (word_lines i w)"
  then obtain b where b: "bit w b" "n = b + 32 * i" by (auto simp: word_lines_def bits_down_props)
  then have "b < 32" by (auto dest: bit_imp_le_length)
  with b show "n div 32 = i \<and> bit w (n mod 32)" by simp
next
  assume "n div 32 = i \<and> bit w (n mod 32)"
  then have "n = n mod 32 + 32 * i" "bit w (n mod 32)" by auto
  then show "n \<in> set (word_lines i w)" unfolding word_lines_def set_map bits_down_props(1) by blast
next
  show "distinct (word_lines i w)" using bits_down_props(2) [of w] by (simp add: word_lines_def distinct_map inj_on_def)
qed

lemma enabled_lines_props: "n \<in> set (enabled_lines s) \<longleftrightarrow> line_enabled s n" "distinct (enabled_lines s)"
proof -
  have "n < 96 \<longleftrightarrow> n div 32 = 0 \<or> n div 32 = 1 \<or> n div 32 = 2" by linarith
  moreover have "n \<in> set (enabled_lines s) \<longleftrightarrow> (\<exists>i\<in>{0, 1, 2}. n div 32 = i \<and> bit (arm_enabled_irqs s ! i) (n mod 32))"
    unfolding enabled_lines_def set_concat set_map by (simp only: UN_iff word_lines_props(1) list.set bex_simps image_iff)
  ultimately show "n \<in> set (enabled_lines s) \<longleftrightarrow> line_enabled s n" unfolding line_enabled_def by auto
  have "set (word_lines i v) \<inter> set (word_lines j w) = {}" if "i \<noteq> j" for i j v w
    using that by (auto simp: word_lines_props(1))
  then show "distinct (enabled_lines s)" by (simp add: enabled_lines_def word_lines_props(2) Int_Un_distrib)
qed


section \<open>The table of enabled lines\<close>

lemma line_regs [simp]: "line_enabled (s\<lparr>arm_regs := r\<rparr>) m = line_enabled s m"
  by (simp add: line_enabled_def)

lemma upd_enabled_line:
  assumes "length (arm_enabled_irqs s) = 3" and "i < 3" and "k < 32"
  shows "line_enabled (upd_enabled i (\<lambda>m. m OR 2 ^ k) s) m \<longleftrightarrow> m = k + 32 * i \<or> line_enabled s m"
    and "line_enabled (upd_enabled i (\<lambda>m. m AND NOT (2 ^ k)) s) m \<longleftrightarrow> m \<noteq> k + 32 * i \<and> line_enabled s m"
proof -
  have eq: "m = k + 32 * i \<longleftrightarrow> m div 32 = i \<and> m mod 32 = k"
  proof
    assume "m div 32 = i \<and> m mod 32 = k"
    then show "m = k + 32 * i" using mod_mult_div_eq [of m 32] by simp
  qed (use assms(3) in simp)
  have m: "m < 96 \<longleftrightarrow> m div 32 < 3" by (simp add: div_less_iff_less_mult)
  have bits: "bit (x OR 2 ^ k) (m mod 32) \<longleftrightarrow> bit x (m mod 32) \<or> m mod 32 = k"
    "bit (x AND NOT (2 ^ k)) (m mod 32) \<longleftrightarrow> bit x (m mod 32) \<and> m mod 32 \<noteq> k" for x :: "32 word"
    using assms(3) by (auto simp: bit_or_iff bit_and_iff bit_not_iff bit_exp_iff)
  have nth: "arm_enabled_irqs (upd_enabled i f s) ! (m div 32) =
      (if m div 32 = i then f (arm_enabled_irqs s ! i) else arm_enabled_irqs s ! (m div 32))" if "m div 32 < 3" for f
    using that assms(1,2) by (simp add: upd_enabled_def nth_list_update)
  show "line_enabled (upd_enabled i (\<lambda>m. m OR 2 ^ k) s) m \<longleftrightarrow> m = k + 32 * i \<or> line_enabled s m"
    unfolding line_enabled_def m eq using nth bits(1) assms(2) by (cases "m div 32 = i") auto
  show "line_enabled (upd_enabled i (\<lambda>m. m AND NOT (2 ^ k)) s) m \<longleftrightarrow> m \<noteq> k + 32 * i \<and> line_enabled s m"
    unfolding line_enabled_def m eq using nth bits(2) assms(2) by (cases "m div 32 = i") auto
qed

lemma line_split: "n < 96 \<Longrightarrow> \<exists>i k. n = k + 32 * i \<and> k < 32 \<and> i < (3 :: nat)"
  by (rule exI [of _ "n div 32"], rule exI [of _ "n mod 32"]) (simp add: less_mult_imp_div_less)

lemma enable_irq_table:
  assumes "k < 32" and "i < 3"
  shows "\<exists>r. enable_irq (k + 32 * i) s = Some (upd_enabled i (\<lambda>m. m OR 2 ^ k) (s\<lparr>arm_regs := r\<rparr>)) \<and>
             IRQ_pending_1 r = IRQ_pending_1 (arm_regs s) \<and> IRQ_pending_2 r = IRQ_pending_2 (arm_regs s) \<and>
             IRQ_basic_pending r = IRQ_basic_pending (arm_regs s)"
    and "\<exists>r. disable_irq (k + 32 * i) s = Some (upd_enabled i (\<lambda>m. m AND NOT (2 ^ k)) (s\<lparr>arm_regs := r\<rparr>)) \<and>
             IRQ_pending_1 r = IRQ_pending_1 (arm_regs s) \<and> IRQ_pending_2 r = IRQ_pending_2 (arm_regs s) \<and>
             IRQ_basic_pending r = IRQ_basic_pending (arm_regs s)"
proof -
  consider "i = 0" | "i = 1" | "i = 2" using assms(2) by linarith
  note c = this
  from c show "\<exists>r. enable_irq (k + 32 * i) s = Some (upd_enabled i (\<lambda>m. m OR 2 ^ k) (s\<lparr>arm_regs := r\<rparr>)) \<and>
             IRQ_pending_1 r = IRQ_pending_1 (arm_regs s) \<and> IRQ_pending_2 r = IRQ_pending_2 (arm_regs s) \<and>
             IRQ_basic_pending r = IRQ_basic_pending (arm_regs s)"
    by cases (use assms(1) in \<open>auto simp: enable_irq_def push_bit_of_1 intro!: exI\<close>)
  from c show "\<exists>r. disable_irq (k + 32 * i) s = Some (upd_enabled i (\<lambda>m. m AND NOT (2 ^ k)) (s\<lparr>arm_regs := r\<rparr>)) \<and>
             IRQ_pending_1 r = IRQ_pending_1 (arm_regs s) \<and> IRQ_pending_2 r = IRQ_pending_2 (arm_regs s) \<and>
             IRQ_basic_pending r = IRQ_basic_pending (arm_regs s)"
    by cases (use assms(1) in \<open>auto simp: disable_irq_def push_bit_of_1 intro!: exI\<close>)
qed


text \<open>
  \<^verbatim>\<open>__enable_irq\<close> and \<^verbatim>\<open>__disable_irq\<close>, for each of the 96 lines: the line is added to, and taken from, the lines the
  dispatcher looks at, whatever word of the table it is in; all other lines and the pending bits are as before.
\<close>

theorem enable_disable_lines:
  assumes "n < 96" and "length (arm_enabled_irqs s) = 3"
  shows "\<exists>s1 s2. enable_irq n s = Some s1 \<and> disable_irq n s1 = Some s2 \<and>
           (\<forall>m. line_enabled s1 m \<longleftrightarrow> m = n \<or> line_enabled s m) \<and>
           (\<forall>m. line_enabled s2 m \<longleftrightarrow> m \<noteq> n \<and> line_enabled s m) \<and>
           (\<forall>m. line_pending s2 m = line_pending s m) \<and> length (arm_enabled_irqs s2) = 3"
proof -
  obtain i k where n: "n = k + 32 * i" "k < 32" "i < 3" using line_split [OF assms(1)] by blast
  obtain r where r: "enable_irq n s = Some (upd_enabled i (\<lambda>m. m OR 2 ^ k) (s\<lparr>arm_regs := r\<rparr>))"
    "IRQ_pending_1 r = IRQ_pending_1 (arm_regs s)" "IRQ_pending_2 r = IRQ_pending_2 (arm_regs s)"
    "IRQ_basic_pending r = IRQ_basic_pending (arm_regs s)" using enable_irq_table(1) [OF n(2,3), of s] n(1) by auto
  let ?s1 = "upd_enabled i (\<lambda>m. m OR 2 ^ k) (s\<lparr>arm_regs := r\<rparr>)"
  obtain r' where r': "disable_irq n ?s1 = Some (upd_enabled i (\<lambda>m. m AND NOT (2 ^ k)) (?s1\<lparr>arm_regs := r'\<rparr>))"
    "IRQ_pending_1 r' = IRQ_pending_1 (arm_regs ?s1)" "IRQ_pending_2 r' = IRQ_pending_2 (arm_regs ?s1)"
    "IRQ_basic_pending r' = IRQ_basic_pending (arm_regs ?s1)" using enable_irq_table(2) [OF n(2,3), of ?s1] n(1) by auto
  let ?s2 = "upd_enabled i (\<lambda>m. m AND NOT (2 ^ k)) (?s1\<lparr>arm_regs := r'\<rparr>)"
  have l: "length (arm_enabled_irqs ?s1) = 3" using assms(2) by (simp add: upd_enabled_def)
  have l2: "length (arm_enabled_irqs (?s1\<lparr>arm_regs := r'\<rparr>)) = 3" using l by simp
  have s1: "line_enabled ?s1 m \<longleftrightarrow> m = n \<or> line_enabled s m" for m
    using upd_enabled_line(1) [of "s\<lparr>arm_regs := r\<rparr>"] assms(2) n by simp
  have "line_enabled ?s2 m \<longleftrightarrow> m \<noteq> n \<and> line_enabled ?s1 m" for m
    unfolding upd_enabled_line(2) [OF l2 n(3,2)] n(1) by simp
  then have "\<forall>m. line_enabled ?s2 m \<longleftrightarrow> m \<noteq> n \<and> line_enabled s m" using s1 by blast
  moreover have "\<forall>m. line_pending ?s2 m = line_pending s m" using r r' by (simp add: line_pending_def upd_enabled_def)
  moreover have "length (arm_enabled_irqs ?s2) = 3" using l by (simp add: upd_enabled_def)
  ultimately show ?thesis using r(1) r'(1) s1 by blast
qed


definition demo_regs :: bcm2835_interrupt_registers where
  "demo_regs = \<lparr>IRQ_basic_pending = 4, IRQ_pending_1 = 12, IRQ_pending_2 = 1, FIQ_control = 0, Enable_IRQs_1 = 0,
     Enable_IRQs_2 = 0, Enable_Basic_IRQs = 0, Disable_IRQs_1 = 0, Disable_IRQs_2 = 0, Disable_Basic_IRQs = 0\<rparr>"

definition demo_arm :: "nat list arm_state" where
  "demo_arm = \<lparr>arm_regs = demo_regs, arm_enabled_irqs = [14, 2, 4], devices = []\<rparr>"

text \<open>A handler that acknowledges its line and writes it down.\<close>

definition demo_handler :: "nat list arm_handler" where
  "demo_handler n s =
     (let r = arm_regs s;
          r' = (if n < 32 then r\<lparr>IRQ_pending_1 := IRQ_pending_1 r AND NOT (2 ^ n)\<rparr>
                else if n < 64 then r\<lparr>IRQ_pending_2 := IRQ_pending_2 r AND NOT (2 ^ (n - 32))\<rparr>
                else r\<lparr>IRQ_basic_pending := IRQ_basic_pending r AND NOT (2 ^ (n - 64))\<rparr>)
      in Some (s\<lparr>arm_regs := r', devices := devices s @ [n]\<rparr>))"

lemma demo_handler_well_behaved: "well_behaved demo_handler"
  unfolding well_behaved_def
proof (intro allI impI conjI)
  fix n s s' m
  assume s': "demo_handler n s = Some s'"
  then show "arm_enabled_irqs s' = arm_enabled_irqs s" by (auto simp: demo_handler_def Let_def)
  assume mn: "m \<noteq> n"
  have mod: "m mod 32 = (if m < 32 then m else if m < 64 then m - 32 else m - 64)"
    "m div 32 = (if m < 32 then 0 else if m < 64 then 1 else 2)" if "m < 96" for m :: nat
    using that by (auto simp: mod_if div_if)
  show "line_pending s' m = line_pending s m"
  proof (cases "m < 96")
    case True
    then show ?thesis
      using s' mn unfolding line_pending_def demo_handler_def Let_def mod [OF True]
      by (auto simp: bit_and_iff bit_not_iff bit_exp_iff split: if_splits)
  qed (simp add: line_pending_def)
qed



theorem enable_disable_lines_witness:
  "\<exists>s1. enable_irq 40 demo_arm = Some s1 \<and> line_enabled s1 40 \<and> disable_irq 40 s1 \<noteq> None"
  using enable_disable_lines [of 40 demo_arm] by (auto simp: demo_arm_def)

text \<open>The critical sections of the port do not nest: the end of an inner section is the end of the outer one.\<close>

lemma arm_critical_flat:
  "arm_context s = 0 \<Longrightarrow>
     arm_critical (arm_exit_critical key (snd (arm_enter_critical (snd (arm_enter_critical s))))) = 0"
  "arm_context s \<noteq> 0 \<Longrightarrow> arm_enter_critical s = (0, s) \<and> arm_exit_critical key s = s"
  by (auto simp: arm_enter_critical_def arm_exit_critical_def)

end
